(* ===== verification/Prelude.thy ===== *)
theory Prelude
  imports Main "HOL-Library.AList" "HOL-Library.Sublist"
begin

text \<open>
  Shared vocabulary of the development.

  Python values. A Python \<open>str\<close> is a \<^typ>\<open>string\<close> whose characters are the code points
  below 256; \<open>str.strip\<close>, \<open>str.lower\<close> and the whitespace class are written out
  for exactly those code points. \<open>None\<close> is the \<open>None\<close> of an \<open>option\<close>. A Python
  \<open>dict\<close> keeps insertion order and replaces in place, which is what \<open>AList.update\<close>
  does, so a dict is an association list read by \<open>map_of\<close>.

  Interfaces. The locale \<open>keyed_store\<close> is the contract of a dict, \<open>snapshot_store\<close>
  adds taking a copy of one entry and putting it back, and \<open>invariant_system\<close> is the
  contract of a component given by a step relation. They are interpreted by the components.
\<close>

named_theorems py_simps \<open>evaluation of the Python primitives\<close>

subsection \<open>Strings\<close>

text \<open>The code points below 256 that \<open>str.isspace\<close> accepts: tab to carriage return,
  the four separators, space, next line and no-break space.\<close>

definition is_space :: "char \<Rightarrow> bool" where
  "is_space c = (let n = of_char c :: nat in
     (9 \<le> n \<and> n \<le> 13) \<or> (28 \<le> n \<and> n \<le> 32) \<or> n = 133 \<or> n = 160)"

definition py_lstrip :: "string \<Rightarrow> string" where
  "py_lstrip s = dropWhile is_space s"

definition py_rstrip :: "string \<Rightarrow> string" where
  "py_rstrip s = rev (dropWhile is_space (rev s))"

definition py_strip :: "string \<Rightarrow> string" where
  "py_strip s = py_rstrip (py_lstrip s)"

definition lower_char :: "char \<Rightarrow> char" where
  "lower_char c = (let n = of_char c :: nat in
     if (65 \<le> n \<and> n \<le> 90) \<or> (192 \<le> n \<and> n \<le> 222 \<and> n \<noteq> 215) then char_of (n + 32) else c)"

definition py_lower :: "string \<Rightarrow> string" where
  "py_lower s = map lower_char s"

text \<open>\<open>str(x or d)\<close> for a value that is a string or \<open>None\<close>.\<close>

definition str_or :: "string option \<Rightarrow> string \<Rightarrow> string" where
  "str_or x d = (case x of None \<Rightarrow> d | Some s \<Rightarrow> if s = [] then d else s)"

text \<open>\<open>str(x or "").strip().lower()\<close>, the normalisation used all over the service.\<close>

definition norm_word :: "string \<Rightarrow> string" where
  "norm_word s = py_lower (py_strip s)"

text \<open>\<open>s[-n:]\<close> for a positive \<open>n\<close>.\<close>

definition py_last :: "nat \<Rightarrow> 'a list \<Rightarrow> 'a list" where
  "py_last n xs = drop (length xs - n) xs"

lemma py_last_suffix: "suffix (py_last n xs) xs"
  by (simp add: py_last_def suffix_drop)

lemma length_py_last [simp]: "length (py_last n xs) = min n (length xs)"
  by (simp add: py_last_def)

lemma py_last_all: "length xs \<le> n \<Longrightarrow> py_last n xs = xs"
  by (simp add: py_last_def)

lemma py_strip_Nil [simp]: "py_strip [] = []"
  by (simp add: py_strip_def py_lstrip_def py_rstrip_def)

lemma norm_word_Nil [simp]: "norm_word [] = []"
  by (simp add: norm_word_def py_lower_def)

lemma str_or_simps [simp]:
  "str_or None d = d" "str_or (Some []) d = d" "s \<noteq> [] \<Longrightarrow> str_or (Some s) d = s"
  by (simp_all add: str_or_def)

text \<open>\<open>str(n)\<close> for a natural number.\<close>

definition digit_char :: "nat \<Rightarrow> char" where
  "digit_char d = char_of (48 + d)"

fun nat_str :: "nat \<Rightarrow> string" where
  "nat_str n = (if n < 10 then [digit_char n] else nat_str (n div 10) @ [digit_char (n mod 10)])"

declare nat_str.simps [simp del]

lemmas py_string_defs =
  is_space_def py_lstrip_def py_rstrip_def py_strip_def lower_char_def py_lower_def norm_word_def

subsection \<open>Dicts\<close>

type_synonym 'v dict = "(string \<times> 'v) list"

abbreviation dget :: "'v dict \<Rightarrow> string \<Rightarrow> 'v option" where
  "dget d k \<equiv> map_of d k"

abbreviation dput :: "string \<Rightarrow> 'v \<Rightarrow> 'v dict \<Rightarrow> 'v dict" where
  "dput k v d \<equiv> AList.update k v d"

abbreviation ddel :: "string \<Rightarrow> 'v dict \<Rightarrow> 'v dict" where
  "ddel k d \<equiv> AList.delete k d"

lemma dget_dput [simp]: "dget (dput k v d) k' = (if k' = k then Some v else dget d k')"
  by (simp add: update_conv')

lemma dget_ddel [simp]: "dget (ddel k d) k' = (if k' = k then None else dget d k')"
  by (simp add: delete_conv')

definition dict_ok :: "'v dict \<Rightarrow> bool" where
  "dict_ok d = distinct (map fst d)"

lemma dict_ok_Nil [simp]: "dict_ok []"
  by (simp add: dict_ok_def)

lemma dict_ok_dput [intro]: "dict_ok d \<Longrightarrow> dict_ok (dput k v d)"
  by (simp add: dict_ok_def distinct_update)

lemma dict_ok_ddel [intro]: "dict_ok d \<Longrightarrow> dict_ok (ddel k d)"
  by (simp add: dict_ok_def distinct_delete)

locale keyed_store =
  fixes lookup :: "'s \<Rightarrow> 'k \<Rightarrow> 'v option"
    and put :: "'k \<Rightarrow> 'v \<Rightarrow> 's \<Rightarrow> 's"
    and del :: "'k \<Rightarrow> 's \<Rightarrow> 's"
  assumes lookup_put: "lookup (put k v s) k' = (if k' = k then Some v else lookup s k')"
    and lookup_del: "lookup (del k s) k' = (if k' = k then None else lookup s k')"
begin

text \<open>Putting back what was read: the entry, or its absence.\<close>

definition reinstate :: "'k \<Rightarrow> 'v option \<Rightarrow> 's \<Rightarrow> 's" where
  "reinstate k v s = (case v of None \<Rightarrow> del k s | Some x \<Rightarrow> put k x s)"

lemma lookup_reinstate: "lookup (reinstate k v s) k' = (if k' = k then v else lookup s k')"
  by (simp add: reinstate_def lookup_put lookup_del split: option.splits)

lemma reinstate_undoes:
  assumes "\<And>k'. k' \<noteq> k \<Longrightarrow> lookup s' k' = lookup s k'"
  shows "lookup (reinstate k (lookup s k) s') = lookup s"
  using assms by (auto simp: lookup_reinstate)

end

interpretation dict_store: keyed_store "map_of :: 'v dict \<Rightarrow> string \<Rightarrow> 'v option" AList.update AList.delete
  by unfold_locales simp_all

text \<open>Copying one entry and putting the copy back. \<open>valid_key\<close> is what a key must be for the
  store to hold anything under it.\<close>

locale snapshot_store =
  fixes lookup :: "'s \<Rightarrow> 'k \<Rightarrow> 'v option"
    and snapshot :: "'s \<Rightarrow> 'k \<Rightarrow> 'v option"
    and restore :: "'k \<Rightarrow> 'v option \<Rightarrow> 's \<Rightarrow> 's"
    and valid_key :: "'k \<Rightarrow> bool"
  assumes snapshot_lookup: "snapshot s k = lookup s k"
    and lookup_restore:
      "lookup (restore k v s) k' = (if valid_key k \<and> k' = k then v else lookup s k')"
begin

text \<open>Whatever ran in between, if it only touched the entry of \<open>k\<close> then restoring the copy
  taken before it gives back the store as it was.\<close>

lemma restore_rolls_back:
  assumes "valid_key k" and "\<And>k'. k' \<noteq> k \<Longrightarrow> lookup s' k' = lookup s k'"
  shows "lookup (restore k (snapshot s k) s') = lookup s"
  using assms by (auto simp: lookup_restore snapshot_lookup)

text \<open>Restoring twice is restoring once.\<close>

lemma restore_idem: "lookup (restore k v (restore k v s)) = lookup (restore k v s)"
  by (auto simp: lookup_restore)

lemma restore_others: "k' \<noteq> k \<Longrightarrow> lookup (restore k v s) k' = lookup s k'"
  by (simp add: lookup_restore)

end

subsection \<open>Components given by a step relation\<close>

locale invariant_system =
  fixes init :: "'s \<Rightarrow> bool"
    and step :: "'s \<Rightarrow> 's \<Rightarrow> bool"
    and inv :: "'s \<Rightarrow> bool"
  assumes inv_init: "init s \<Longrightarrow> inv s"
    and inv_step: "inv s \<Longrightarrow> step s t \<Longrightarrow> inv t"
begin

lemma inv_run: "step\<^sup>*\<^sup>* s t \<Longrightarrow> inv s \<Longrightarrow> inv t"
  by (induction rule: rtranclp_induct) (blast intro: inv_step)+

lemma inv_reachable: "init s \<Longrightarrow> step\<^sup>*\<^sup>* s t \<Longrightarrow> inv t"
  by (blast intro: inv_run inv_init)

end

text \<open>A quantity that no step of a component decreases.\<close>

locale monotone_system =
  fixes step :: "'s \<Rightarrow> 's \<Rightarrow> bool"
    and measure_of :: "'s \<Rightarrow> 'q :: order"
  assumes step_mono: "step s t \<Longrightarrow> measure_of s \<le> measure_of t"
begin

lemma run_mono: "step\<^sup>*\<^sup>* s t \<Longrightarrow> measure_of s \<le> measure_of t"
  by (induction rule: rtranclp_induct) (auto intro: order_trans dest: step_mono)

end

end
