(* ===== verification/TerminalStatus.thy ===== *)
theory TerminalStatus
  imports Prelude
begin

text \<open>
  The terminal status vocabulary and its transition rule (\<open>service/api_core/terminal_status.py\<close>):
  which statuses are active, which are monotonic (a terminal that reached one never goes back to
  active), which end a terminal, and the derived live and stoppable filters. The transition rule is
  the only gate between a status sent by a host and the stored column.
\<close>

definition TERMINAL_ACTIVE_STATUSES :: "string list" where
  "TERMINAL_ACTIVE_STATUSES = [''starting'', ''attached'', ''running'', ''active'', ''idle'']"

definition TERMINAL_MONOTONIC_STATUSES :: "string list" where
  "TERMINAL_MONOTONIC_STATUSES =
     [''stopping'', ''stopped'', ''failed'', ''lost'', ''ended'', ''completed'', ''cancelled'']"

definition TERMINAL_LIVE_FILTER_STATUSES :: "string list" where
  "TERMINAL_LIVE_FILTER_STATUSES = TERMINAL_ACTIVE_STATUSES @ [''recovering'']"

definition TERMINAL_STOPPABLE_STATUSES :: "string list" where
  "TERMINAL_STOPPABLE_STATUSES = TERMINAL_LIVE_FILTER_STATUSES @ [''stopping'']"

definition TERMINAL_SESSION_STATUSES :: "string list" where
  "TERMINAL_SESSION_STATUSES = TERMINAL_ACTIVE_STATUSES @ TERMINAL_MONOTONIC_STATUSES"

definition TERMINAL_END_STATUSES :: "string list" where
  "TERMINAL_END_STATUSES =
     [''stopped'', ''failed'', ''lost'', ''ended'', ''completed'', ''cancelled'']"

lemmas terminal_status_sets =
  TERMINAL_ACTIVE_STATUSES_def TERMINAL_MONOTONIC_STATUSES_def TERMINAL_LIVE_FILTER_STATUSES_def
  TERMINAL_STOPPABLE_STATUSES_def TERMINAL_SESSION_STATUSES_def TERMINAL_END_STATUSES_def

text \<open>The empty string is the code's answer for \<open>leave the column alone\<close>.\<close>

definition terminal_status_transition :: "string \<Rightarrow> string \<Rightarrow> string" where
  "terminal_status_transition current_status next_status =
     (let current = norm_word current_status; next_value = norm_word next_status in
      if next_value = [] then []
      else if next_value \<notin> set TERMINAL_SESSION_STATUSES then []
      else if current \<in> set TERMINAL_MONOTONIC_STATUSES \<and> next_value \<in> set TERMINAL_ACTIVE_STATUSES
        then []
      else next_value)"

text \<open>What the writer stores: the transition's answer, or the old value when there is none.\<close>

definition status_after :: "string \<Rightarrow> string \<Rightarrow> string" where
  "status_after stored reported =
     (let n = terminal_status_transition stored reported in if n = [] then stored else n)"

fun statuses_after :: "string \<Rightarrow> string list \<Rightarrow> string" where
  "statuses_after st [] = st"
| "statuses_after st (r # rs) = statuses_after (status_after st r) rs"

subsection \<open>The vocabulary\<close>

text \<open>The words of the vocabulary are already normal, so a stored one reads back as itself.\<close>

lemma session_status_normal:
  "w \<in> set TERMINAL_SESSION_STATUSES \<Longrightarrow> norm_word w = w"
  by (auto simp: terminal_status_sets py_string_defs)

lemma active_not_monotonic:
  "w \<in> set TERMINAL_ACTIVE_STATUSES \<Longrightarrow> w \<notin> set TERMINAL_MONOTONIC_STATUSES"
  by (auto simp: terminal_status_sets)

lemma end_statuses_monotonic:
  "set TERMINAL_END_STATUSES = set TERMINAL_MONOTONIC_STATUSES - {''stopping''}"
  by (auto simp: terminal_status_sets)

lemma transition_in_vocabulary:
  "terminal_status_transition c n \<noteq> [] \<Longrightarrow>
     terminal_status_transition c n \<in> set TERMINAL_SESSION_STATUSES
     \<and> terminal_status_transition c n = norm_word n"
  by (auto simp: terminal_status_transition_def Let_def split: if_splits)

lemma transition_monotonic:
  assumes "c \<in> set TERMINAL_MONOTONIC_STATUSES"
  shows "terminal_status_transition c n \<notin> set TERMINAL_ACTIVE_STATUSES"
proof -
  have "norm_word c = c"
    using assms by (intro session_status_normal) (simp add: TERMINAL_SESSION_STATUSES_def)
  with assms show ?thesis
    by (auto simp: terminal_status_transition_def Let_def TERMINAL_ACTIVE_STATUSES_def)
qed

lemma status_after_in_vocabulary:
  "st \<in> set TERMINAL_SESSION_STATUSES \<Longrightarrow> status_after st r \<in> set TERMINAL_SESSION_STATUSES"
  using transition_in_vocabulary by (auto simp: status_after_def Let_def)

lemma status_after_monotonic:
  assumes "st \<in> set TERMINAL_MONOTONIC_STATUSES"
  shows "status_after st r \<in> set TERMINAL_MONOTONIC_STATUSES"
proof (cases "terminal_status_transition st r = []")
  case True
  with assms show ?thesis by (simp add: status_after_def)
next
  case False
  then have "terminal_status_transition st r \<in> set TERMINAL_SESSION_STATUSES"
    using transition_in_vocabulary by blast
  with transition_monotonic [OF assms, of r] False show ?thesis
    by (simp add: status_after_def Let_def TERMINAL_SESSION_STATUSES_def)
qed

end
