(* ===== verification/TailBuffer.thy ===== *)
theory TailBuffer
  imports Prelude
begin

text \<open>
  The stored terminal tail held in memory (\<open>service/api_core/terminal_tail_buffer.py\<close>).

  \<open>_BUFFERS\<close> is the dict \<^typ>\<open>string\<close> to \<open>buf\<close>; every operation takes and
  returns it. Monotonic time is an \<^typ>\<open>int\<close> of milliseconds, so the one-second cadence is
  1000. The buffer is the truth between two writes of the row: \<open>current_tail\<close> answers from it
  and falls back to the row only for a terminal nothing is held for.
\<close>

record buf =
  b_tail :: string
  b_seq :: "int option"
  b_flushed_at :: int
  b_dirty :: bool

type_synonym bufs = "buf dict"

definition TAIL_FLUSH_INTERVAL :: int where
  "TAIL_FLUSH_INTERVAL = 1000"

definition interval :: "int option \<Rightarrow> int" where
  "interval override = (case override of None \<Rightarrow> TAIL_FLUSH_INTERVAL | Some s \<Rightarrow> s)"

definition current_tail :: "bufs \<Rightarrow> string \<Rightarrow> string \<Rightarrow> string" where
  "current_tail bs tid stored = (case dget bs tid of Some h \<Rightarrow> b_tail h | None \<Rightarrow> stored)"

definition current_seq :: "bufs \<Rightarrow> string \<Rightarrow> int option \<Rightarrow> int" where
  "current_seq bs tid stored =
     (let fallback = (case stored of None \<Rightarrow> 0 | Some n \<Rightarrow> n) in
      case dget bs tid of
        Some h \<Rightarrow> (case b_seq h of Some n \<Rightarrow> n | None \<Rightarrow> fallback)
      | None \<Rightarrow> fallback)"

text \<open>Hold the tail, and answer whether it should be written now.\<close>

definition record_tail ::
  "int option \<Rightarrow> string \<Rightarrow> string \<Rightarrow> int option \<Rightarrow> int \<Rightarrow> bufs \<Rightarrow> bool \<times> bufs" where
  "record_tail ovr tid t sq at bs =
     (if tid = [] then (True, bs)
      else case dget bs tid of
        None \<Rightarrow> (True, dput tid \<lparr>b_tail = t, b_seq = sq, b_flushed_at = at, b_dirty = False\<rparr> bs)
      | Some h \<Rightarrow>
          (let h1 = h\<lparr>b_tail := t\<rparr>;
               h2 = (case sq of None \<Rightarrow> h1 | Some n \<Rightarrow> h1\<lparr>b_seq := Some n\<rparr>) in
           if at - b_flushed_at h \<ge> interval ovr
           then (True, dput tid (h2\<lparr>b_flushed_at := at, b_dirty := False\<rparr>) bs)
           else (False, dput tid (h2\<lparr>b_dirty := True\<rparr>) bs)))"

definition pending :: "bufs \<Rightarrow> string \<Rightarrow> (string \<times> int option) option" where
  "pending bs tid = (case dget bs tid of
     None \<Rightarrow> None
   | Some h \<Rightarrow> if b_dirty h then Some (b_tail h, b_seq h) else None)"

definition snapshot :: "bufs \<Rightarrow> string \<Rightarrow> buf option" where
  "snapshot bs tid = dget bs tid"

definition restore :: "string \<Rightarrow> buf option \<Rightarrow> bufs \<Rightarrow> bufs" where
  "restore tid snap bs =
     (if tid = [] then bs
      else case snap of None \<Rightarrow> ddel tid bs | Some h \<Rightarrow> dput tid h bs)"

definition mark_flushed :: "string \<Rightarrow> int \<Rightarrow> bufs \<Rightarrow> bufs" where
  "mark_flushed tid at bs = (case dget bs tid of
     None \<Rightarrow> bs
   | Some h \<Rightarrow> dput tid (h\<lparr>b_flushed_at := at, b_dirty := False\<rparr>) bs)"

definition forget :: "string \<Rightarrow> bufs \<Rightarrow> bufs" where
  "forget tid bs = ddel tid bs"

definition held_ids :: "bufs \<Rightarrow> string set" where
  "held_ids bs = set (map fst bs)"

lemmas tail_buffer_defs =
  current_tail_def current_seq_def record_tail_def pending_def snapshot_def restore_def
  mark_flushed_def forget_def

subsection \<open>The buffer is a store whose entries can be copied and put back\<close>

interpretation tail_store: snapshot_store "dget :: bufs \<Rightarrow> string \<Rightarrow> buf option"
  snapshot restore "\<lambda>tid. tid \<noteq> []"
  by unfold_locales (auto simp: snapshot_def restore_def split: option.splits)

subsection \<open>What each operation does to what is read back\<close>

lemma record_tail_others [simp]:
  "tid' \<noteq> tid \<Longrightarrow> dget (snd (record_tail ovr tid t sq at bs)) tid' = dget bs tid'"
  by (auto simp: record_tail_def Let_def split: option.splits if_splits)

lemma current_tail_record [simp]:
  "tid \<noteq> [] \<Longrightarrow> current_tail (snd (record_tail ovr tid t sq at bs)) tid stored = t"
  by (auto simp: tail_buffer_defs Let_def split: option.splits if_splits)

lemma record_tail_held:
  "tid \<noteq> [] \<Longrightarrow> \<exists>h. dget (snd (record_tail ovr tid t sq at bs)) tid = Some h \<and> b_tail h = t
     \<and> (\<forall>n. sq = Some n \<longrightarrow> b_seq h = Some n)"
  by (auto simp: record_tail_def Let_def split: option.splits)

text \<open>A tail not written now is dirty, so the settle write will find it.\<close>

lemma record_tail_skipped_is_pending:
  "\<not> fst (record_tail ovr tid t sq at bs) \<Longrightarrow>
     \<exists>n. pending (snd (record_tail ovr tid t sq at bs)) tid = Some (t, n)"
  by (auto simp: record_tail_def pending_def Let_def split: option.splits if_splits)

lemma record_tail_written_is_clean:
  "fst (record_tail ovr tid t sq at bs) \<Longrightarrow> tid \<noteq> [] \<Longrightarrow>
     pending (snd (record_tail ovr tid t sq at bs)) tid = None"
  by (auto simp: record_tail_def pending_def Let_def split: option.splits if_splits)

lemma mark_flushed_others [simp]:
  "tid' \<noteq> tid \<Longrightarrow> dget (mark_flushed tid at bs) tid' = dget bs tid'"
  by (simp add: mark_flushed_def split: option.splits)

lemma mark_flushed_pending [simp]: "pending (mark_flushed tid at bs) tid = None"
  by (cases "dget bs tid") (simp_all add: mark_flushed_def pending_def)

lemma mark_flushed_tail [simp]:
  "current_tail (mark_flushed tid at bs) tid' stored = current_tail bs tid' stored"
  by (auto simp: mark_flushed_def current_tail_def split: option.splits)

lemma forget_pending [simp]: "pending (forget tid bs) tid = None"
  by (simp add: forget_def pending_def)

lemma forget_others [simp]: "tid' \<noteq> tid \<Longrightarrow> dget (forget tid bs) tid' = dget bs tid'"
  by (simp add: forget_def)

lemma forget_get [simp]: "dget (forget tid bs) tid = None"
  by (simp add: forget_def)

lemma held_ids_iff: "tid \<in> held_ids bs \<longleftrightarrow> dget bs tid \<noteq> None"
  by (auto simp: held_ids_def map_of_eq_None_iff)

text \<open>The durability window: between two writes of one terminal the clock moved by less than the
  interval, so the row never lags the stream by more than it.\<close>

lemma record_tail_skip_window:
  "\<not> fst (record_tail ovr tid t sq at bs) \<Longrightarrow>
     \<exists>h. dget bs tid = Some h \<and> at < b_flushed_at h + interval ovr"
  by (auto simp: record_tail_def Let_def split: option.splits if_splits)

end
