(* ===== verification/LiveScreen.thy ===== *)
theory LiveScreen
  imports Prelude
begin

text \<open>
  The live screen of a terminal (\<open>service/terminal_snapshot.py\<close>, the \<open>_LIVE_SCREENS\<close>
  dict) and the once-only guard on console prompts (\<open>service/api_core/console_prompts.py\<close>).

  The terminal emulator (pyte) is a third-party package, so a screen is the sequence of operations
  applied to it since it was made, and the emulator itself is the argument \<open>emu\<close>: whether it is
  installed, whether it accepts the last operation of such a sequence or raises, and the text it
  shows. The rules that read a screen are the argument \<open>rules\<close>.
\<close>

datatype scr_op = SNew int int | SSeed string | SFeed string | SResize int int

record emu =
  have_pyte :: bool
  accepts :: "scr_op list \<Rightarrow> bool"
  screen_text :: "scr_op list \<Rightarrow> string option"

record live =
  l_ops :: "scr_op list"
  l_cols :: int
  l_rows :: int
  l_seq :: "int option"

type_synonym screens = "live dict"

definition MAX_LIVE_SCREENS :: nat where "MAX_LIVE_SCREENS = 256"

definition ESC :: char where "ESC = CHR 0x1B"

definition clamp_grid :: "int \<Rightarrow> int \<Rightarrow> int \<times> int" where
  "clamp_grid cols rows =
     (max 20 (min (if cols = 0 then 100 else cols) 500),
      max 5 (min (if rows = 0 then 28 else rows) 200))"

text \<open>A resize the emulator refuses rebuilds the screen blank and unnumbered.\<close>

definition resize_screen :: "emu \<Rightarrow> int \<Rightarrow> int \<Rightarrow> live \<Rightarrow> live" where
  "resize_screen em c r lv =
     (let ops = l_ops lv @ [SResize c r] in
      if accepts em ops then lv\<lparr>l_ops := ops, l_cols := c, l_rows := r\<rparr>
      else \<lparr>l_ops = [SNew c r], l_cols = c, l_rows = r, l_seq = None\<rparr>)"

text \<open>The screen to feed: the tracked one, resized when the grid changed, or a new one seeded from
  the stored log. \<open>Inl b\<close> is an early return of \<open>b\<close>.\<close>

definition screen_for_feed ::
  "emu \<Rightarrow> string \<Rightarrow> string \<Rightarrow> int \<Rightarrow> int \<Rightarrow> string \<Rightarrow> screens \<Rightarrow> live option option" where
  "screen_for_feed em tid chunk c r seed scr =
     (case dget scr tid of
        Some lv \<Rightarrow> Some (Some (if (c, r) \<noteq> (l_cols lv, l_rows lv) then resize_screen em c r lv else lv))
      | None \<Rightarrow>
          if ESC \<notin> set chunk \<and> ESC \<notin> set seed then None
          else if length scr \<ge> MAX_LIVE_SCREENS then None
          else (let ops = [SNew c r] @ (if seed = [] then [] else [SSeed seed]) in
                if accepts em [SNew c r] \<and> accepts em ops
                then Some (Some \<lparr>l_ops = ops, l_cols = c, l_rows = r, l_seq = None\<rparr>)
                else Some None))"

definition feed_live_screen ::
  "emu \<Rightarrow> string \<Rightarrow> string \<Rightarrow> int \<Rightarrow> int \<Rightarrow> string \<Rightarrow> int option \<Rightarrow> screens \<Rightarrow> bool \<times> screens" where
  "feed_live_screen em tid chunk cols rows seed sq scr =
     (if \<not> have_pyte em \<or> tid = [] then (False, scr)
      else (let (c, r) = clamp_grid cols rows in
       case screen_for_feed em tid chunk c r seed scr of
         None \<Rightarrow> (False, scr)
       | Some None \<Rightarrow> (False, ddel tid scr)
       | Some (Some lv) \<Rightarrow>
           if chunk = [] then (True, dput tid lv scr)
           else (let ops = l_ops lv @ [SFeed chunk] in
                 if accepts em ops then (True, dput tid (lv\<lparr>l_ops := ops, l_seq := sq\<rparr>) scr)
                 else (False, ddel tid scr))))"

definition live_screen_seq :: "string \<Rightarrow> screens \<Rightarrow> int option" where
  "live_screen_seq tid scr = (case dget scr tid of None \<Rightarrow> None | Some lv \<Rightarrow> l_seq lv)"

definition live_screen_text :: "emu \<Rightarrow> string \<Rightarrow> screens \<Rightarrow> string option" where
  "live_screen_text em tid scr =
     (if \<not> have_pyte em \<or> tid = [] then None
      else case dget scr tid of None \<Rightarrow> None | Some lv \<Rightarrow> screen_text em (l_ops lv))"

definition drop_live_screen :: "string \<Rightarrow> screens \<Rightarrow> screens" where
  "drop_live_screen tid scr = ddel tid scr"

subsection \<open>Answering a prompt once\<close>

record prompt_answer =
  pa_rule :: string
  pa_keys :: string

record rules =
  needs_resume_policy :: "string \<Rightarrow> bool"
  answer_for_screen :: "string \<Rightarrow> string \<Rightarrow> prompt_answer option"

definition MAX_ANSWERED_TERMINALS :: nat where "MAX_ANSWERED_TERMINALS = 256"

text \<open>The terminal's entry, opened when missing; the oldest entry goes when the map is full.\<close>

definition open_answered :: "string \<Rightarrow> string list dict \<Rightarrow> string list dict" where
  "open_answered tid answered = (case dget answered tid of
     Some _ \<Rightarrow> answered
   | None \<Rightarrow> dput tid [] (if length answered \<ge> MAX_ANSWERED_TERMINALS then tl answered else answered))"

definition should_answer ::
  "string \<Rightarrow> prompt_answer option \<Rightarrow> string list dict \<Rightarrow> bool \<times> string list dict" where
  "should_answer tid ans answered =
     (case ans of
        None \<Rightarrow> (False, answered)
      | Some a \<Rightarrow>
          if tid = [] then (False, answered)
          else (let opened = open_answered tid answered;
                    seen = (case dget opened tid of None \<Rightarrow> [] | Some rs \<Rightarrow> rs) in
                if pa_rule a \<in> set seen then (False, opened)
                else (True, dput tid (pa_rule a # seen) opened)))"

definition forget_terminal :: "string \<Rightarrow> string list dict \<Rightarrow> string list dict" where
  "forget_terminal tid answered = ddel tid answered"

subsection \<open>Lemmas\<close>

lemma clamp_grid_bounds:
  "clamp_grid cols rows = (c, r) \<Longrightarrow> 20 \<le> c \<and> c \<le> 500 \<and> 5 \<le> r \<and> r \<le> 200"
  by (auto simp: clamp_grid_def)

lemma length_dput: "length (dput k v d) = (if dget d k = None then Suc (length d) else length d)"
  by (induction d) auto

lemma length_ddel: "length (ddel k d) \<le> length d"
  by (rule length_delete_le)

lemma feed_others [simp]:
  "tid' \<noteq> tid \<Longrightarrow> dget (snd (feed_live_screen em tid chunk cols rows seed sq scr)) tid' = dget scr tid'"
  by (simp add: feed_live_screen_def Let_def split: prod.splits option.splits)

text \<open>Feeding never grows the set of tracked screens past its bound.\<close>

lemma screen_for_feed_new:
  "screen_for_feed em tid chunk c r seed scr = Some (Some lv) \<Longrightarrow> dget scr tid = None \<Longrightarrow>
     length scr < MAX_LIVE_SCREENS"
  by (auto simp: screen_for_feed_def Let_def split: if_splits)

lemma feed_bounded:
  assumes "length scr \<le> MAX_LIVE_SCREENS"
  shows "length (snd (feed_live_screen em tid chunk cols rows seed sq scr)) \<le> MAX_LIVE_SCREENS"
proof -
  have *: "length (dput tid x scr) \<le> MAX_LIVE_SCREENS"
    if "screen_for_feed em tid chunk c r seed scr = Some (Some lv)" for x c r lv
    using screen_for_feed_new [OF that] assms by (cases "dget scr tid") (auto simp: length_dput)
  have "length (ddel tid scr) \<le> MAX_LIVE_SCREENS"
    using assms length_ddel [of tid scr] by linarith
  with * assms show ?thesis
    by (auto simp: feed_live_screen_def Let_def split: prod.splits option.splits)
qed

text \<open>The number beside a fed screen is the number of the chunk last fed into it.\<close>

lemma feed_seq:
  "fst (feed_live_screen em tid chunk cols rows seed sq scr) \<Longrightarrow> chunk \<noteq> [] \<Longrightarrow>
     live_screen_seq tid (snd (feed_live_screen em tid chunk cols rows seed sq scr)) = sq"
  by (auto simp: feed_live_screen_def live_screen_seq_def Let_def split: prod.splits option.splits if_splits)

lemma should_answer_recorded:
  "dget answered tid = Some rs \<Longrightarrow> pa_rule a \<in> set rs \<Longrightarrow>
     \<not> fst (should_answer tid (Some a) answered)"
  by (simp add: should_answer_def open_answered_def Let_def)

lemma should_answer_records:
  "fst (should_answer tid (Some a) answered) \<Longrightarrow>
     \<exists>rs. dget (snd (should_answer tid (Some a) answered)) tid = Some rs \<and> pa_rule a \<in> set rs"
  by (auto simp: should_answer_def Let_def split: if_splits)

lemma should_answer_once:
  assumes "fst (should_answer tid ans answered)"
  shows "\<not> fst (should_answer tid ans (snd (should_answer tid ans answered)))"
proof -
  from assms obtain a where a: "ans = Some a" by (cases ans) (auto simp: should_answer_def)
  with assms should_answer_records show ?thesis
    by (metis should_answer_recorded)
qed

end
