(* ===== verification/TerminalEvents.thy ===== *)
theory TerminalEvents
  imports Prelude
begin

text \<open>
  Terminal events and terminal controls (\<open>service/api_core/events.py\<close>).

  \<open>terminal_events\<close> is a list in id order (the column autoincrements). The prune counter is the
  in-memory dict \<open>_terminal_event_counts\<close>: every 200th insert for a terminal deletes all but
  its newest 500 rows. \<open>terminal_controls\<close> is a list of rows; a resize replaces the pending
  resize of its terminal instead of adding a second one.
\<close>

record tevent =
  te_terminal :: string
  te_type :: string
  te_body :: string

definition TERMINAL_EVENT_CAP :: nat where "TERMINAL_EVENT_CAP = 500"

definition TERMINAL_EVENT_PRUNE_EVERY :: nat where "TERMINAL_EVENT_PRUNE_EVERY = 200"

definition events_of :: "string \<Rightarrow> tevent list \<Rightarrow> tevent list" where
  "events_of tid evs = filter (\<lambda>e. te_terminal e = tid) evs"

text \<open>\<open>DELETE ... AND id NOT IN (SELECT id ... ORDER BY id DESC LIMIT cap)\<close>: an event of the
  terminal goes when at least \<open>cap\<close> newer ones of that terminal follow it.\<close>

fun prune_events :: "nat \<Rightarrow> string \<Rightarrow> tevent list \<Rightarrow> tevent list" where
  "prune_events cap tid [] = []"
| "prune_events cap tid (e # es) =
     (if te_terminal e = tid \<and> length (events_of tid es) \<ge> cap then prune_events cap tid es
      else e # prune_events cap tid es)"

definition append_terminal_event ::
  "string \<Rightarrow> string \<Rightarrow> string \<Rightarrow> nat dict \<times> tevent list \<Rightarrow> nat dict \<times> tevent list" where
  "append_terminal_event tid ty body st =
     (let (counts, evs) = st;
          evs1 = evs @ [\<lparr>te_terminal = tid, te_type = ty, te_body = body\<rparr>];
          count = (case dget counts tid of None \<Rightarrow> 0 | Some n \<Rightarrow> n) + 1 in
      if count \<ge> TERMINAL_EVENT_PRUNE_EVERY
      then (dput tid 0 counts, prune_events TERMINAL_EVENT_CAP tid evs1)
      else (dput tid count counts, evs1))"

record tcontrol =
  tc_id :: string
  tc_terminal :: string
  tc_environment :: string
  tc_bridge :: string
  tc_action :: string
  tc_body :: string
  tc_cols :: int
  tc_rows :: int
  tc_status :: string
  tc_requested_by :: string
  tc_requested_at :: string

definition pending_resize :: "string \<Rightarrow> tcontrol \<Rightarrow> bool" where
  "pending_resize tid c =
     (tc_terminal c = tid \<and> tc_action c = ''resize'' \<and> tc_status c = ''pending'')"

text \<open>The row a control insert builds; \<open>cid\<close> is the freshly minted id.\<close>

definition new_control ::
  "string \<Rightarrow> string \<Rightarrow> string \<Rightarrow> string \<Rightarrow> string \<Rightarrow> string \<Rightarrow> string \<Rightarrow> int \<Rightarrow> int \<Rightarrow> string \<Rightarrow> tcontrol" where
  "new_control cid tid env bridge action who body cols rows now =
     \<lparr>tc_id = cid, tc_terminal = tid, tc_environment = env, tc_bridge = bridge, tc_action = action,
      tc_body = body, tc_cols = cols, tc_rows = rows, tc_status = ''pending'',
      tc_requested_by = (if who = [] then ''dashboard'' else who), tc_requested_at = now\<rparr>"

text \<open>\<open>ON CONFLICT (terminal_id) WHERE action = 'resize' AND status = 'pending' DO UPDATE\<close>.\<close>

definition refresh_resize :: "tcontrol \<Rightarrow> tcontrol \<Rightarrow> tcontrol" where
  "refresh_resize new old = new\<lparr>tc_id := tc_id old\<rparr>"

definition append_terminal_control :: "tcontrol \<Rightarrow> tcontrol list \<Rightarrow> string \<times> tcontrol list" where
  "append_terminal_control new cs =
     (if norm_word (tc_action new) = ''resize''
      then (let new' = new\<lparr>tc_action := ''resize''\<rparr> in
            case find (pending_resize (tc_terminal new)) cs of
              Some old \<Rightarrow> (tc_id old,
                map (\<lambda>c. if pending_resize (tc_terminal new) c then refresh_resize new' c else c) cs)
            | None \<Rightarrow> (tc_id new, cs @ [new']))
      else (tc_id new, cs @ [new]))"

text \<open>The unique partial index of the schema, as an invariant of the table.\<close>

definition one_pending_resize :: "tcontrol list \<Rightarrow> bool" where
  "one_pending_resize cs = (\<forall>tid. length (filter (pending_resize tid) cs) \<le> 1)"

subsection \<open>Events\<close>

lemma events_of_prune:
  "events_of tid (prune_events cap tid evs) = py_last cap (events_of tid evs)"
proof (induction evs)
  case Nil
  then show ?case by (simp add: events_of_def py_last_def)
next
  case (Cons e es)
  have "py_last cap (x # xs) = (if cap \<le> length xs then py_last cap xs else x # py_last cap xs)"
    for x :: tevent and xs
    by (auto simp: py_last_def Suc_diff_le)
  with Cons show ?case by (auto simp: events_of_def)
qed

lemma events_of_prune_others:
  "tid' \<noteq> tid \<Longrightarrow> events_of tid' (prune_events cap tid evs) = events_of tid' evs"
  by (induction evs) (auto simp: events_of_def)

definition events_bounded :: "nat dict \<times> tevent list \<Rightarrow> bool" where
  "events_bounded st =
     (\<forall>tid. let c = (case dget (fst st) tid of None \<Rightarrow> 0 | Some n \<Rightarrow> n) in
        c < TERMINAL_EVENT_PRUNE_EVERY \<and> length (events_of tid (snd st)) \<le> TERMINAL_EVENT_CAP + c)"

lemma events_bounded_append:
  assumes "events_bounded st"
  shows "events_bounded (append_terminal_event tid ty body st)"
proof -
  obtain counts evs where st: "st = (counts, evs)" by (cases st)
  let ?evs1 = "evs @ [\<lparr>te_terminal = tid, te_type = ty, te_body = body\<rparr>]"
  let ?c = "case dget counts tid of None \<Rightarrow> 0 | Some n \<Rightarrow> n"
  have old: "?c < TERMINAL_EVENT_PRUNE_EVERY" "length (events_of tid evs) \<le> TERMINAL_EVENT_CAP + ?c"
    using assms by (auto simp: events_bounded_def st Let_def)
  have oth: "events_of tid' ?evs1 = events_of tid' evs" if "tid' \<noteq> tid" for tid'
    using that by (simp add: events_of_def)
  have "length (events_of tid ?evs1) = Suc (length (events_of tid evs))"
    by (simp add: events_of_def)
  with old assms oth show ?thesis
    by (auto simp: append_terminal_event_def events_bounded_def st Let_def events_of_prune
        events_of_prune_others TERMINAL_EVENT_PRUNE_EVERY_def)
qed

subsection \<open>Controls\<close>

lemma filter_one_append: "filter P (xs @ [x]) = (if P x then filter P xs @ [x] else filter P xs)"
  by simp

lemma filter_map_same:
  "(\<And>x. x \<in> set xs \<Longrightarrow> P (f x) = P x) \<Longrightarrow> length (filter P (map f xs)) = length (filter P xs)"
  by (induction xs) auto

lemma pending_resize_refresh:
  assumes "tc_terminal new = t" "tc_action new = ''resize''" "tc_status new = ''pending''"
    "pending_resize t c"
  shows "pending_resize tid (refresh_resize new c) = pending_resize tid c"
  using assms by (auto simp: pending_resize_def refresh_resize_def)

lemma one_pending_resize_append:
  assumes inv: "one_pending_resize cs" and new: "tc_status new = ''pending''"
  shows "one_pending_resize (snd (append_terminal_control new cs))"
proof (cases "norm_word (tc_action new) = ''resize''")
  case False
  then have "tc_action new \<noteq> ''resize''" by (auto simp: py_string_defs)
  then have "\<not> pending_resize tid new" for tid by (simp add: pending_resize_def)
  with False inv show ?thesis by (simp add: append_terminal_control_def one_pending_resize_def)
next
  case True
  let ?new = "new\<lparr>tc_action := ''resize''\<rparr>" and ?t = "tc_terminal new"
  show ?thesis
  proof (cases "find (pending_resize ?t) cs")
    case None
    then have "filter (pending_resize ?t) cs = []" by (auto simp: find_None_iff filter_empty_conv)
    then have "length (filter (pending_resize tid) (cs @ [?new])) \<le> 1" for tid
      using inv by (cases "tid = ?t") (auto simp: one_pending_resize_def pending_resize_def)
    with True None show ?thesis
      by (simp add: append_terminal_control_def one_pending_resize_def)
  next
    case (Some old)
    let ?f = "\<lambda>c. if pending_resize ?t c then refresh_resize ?new c else c"
    have "length (filter (pending_resize tid) (map ?f cs)) = length (filter (pending_resize tid) cs)"
      for tid
      by (rule filter_map_same) (auto simp: pending_resize_refresh new)
    with True Some inv show ?thesis
      by (simp add: append_terminal_control_def one_pending_resize_def)
  qed
qed

end
