(* ===== verification/TerminalOutput.thy ===== *)
theory TerminalOutput
  imports TerminalStatus TailBuffer LiveScreen TerminalEvents
begin

text \<open>
  Appending output to a terminal row: \<open>_trim_terminal_output\<close>, \<open>_append_terminal_output\<close>
  and \<open>_answer_console_prompt\<close> of \<open>service/api_core/terminal_output.py\<close>, and
  \<open>_write_terminal_output\<close> of \<open>service/terminal_write_queue.py\<close>, which owns the transaction
  around them.

  The database is \<open>tdb\<close>, what the process holds in memory is \<open>tmem\<close>. An exception is a
  returned flag: the memory it leaves behind is returned with it, and the database part of a raised
  call is dropped by the caller that rolls back. Where an exception can come from (a refused UPDATE,
  event INSERT, control INSERT, session UPDATE or COMMIT) is the argument \<open>fault option\<close>. The
  clock readings and the minted control id of one call are the record \<open>clk\<close>.
  The columns of \<open>terminal_sessions\<close> no statement here reads or writes are left out.
\<close>

record trow =
  t_id :: string
  t_session :: string
  t_agent :: string
  t_env :: string
  t_bridge :: string
  t_output :: string
  t_status :: string
  t_output_seq :: int
  t_output_at :: string
  t_updated_at :: string
  t_stopped_at :: "string option"
  t_cols :: int
  t_rows :: int

record srow =
  s_terminal_status :: string
  s_owner_mode :: string
  s_last_seen :: string

record tdb =
  d_rows :: "trow dict"
  d_sessions :: "srow dict"
  d_events :: "tevent list"
  d_controls :: "tcontrol list"
  d_policy :: "string dict"

record tmem =
  m_bufs :: bufs
  m_screens :: screens
  m_answered :: "string list dict"
  m_counts :: "nat dict"
  m_interval :: "int option"
  m_expired :: "string list"

record clk =
  k_record :: int
  k_flush :: int
  k_updated :: string
  k_output :: string
  k_stopped :: string
  k_session :: string
  k_control :: string
  k_control_id :: string

datatype fault = FUpdate | FEvent | FPrompt | FSession | FCommit

record frame =
  f_terminal :: string
  f_agent :: string
  f_status :: string
  f_output :: string
  f_seq :: int

definition TERMINAL_OUTPUT_MAX :: nat where "TERMINAL_OUTPUT_MAX = 65536"

definition NL :: char where "NL = CHR 0x0A"

subsection \<open>The stored tail\<close>

text \<open>\<open>tail[tail.find(newline) + 1:]\<close> when the newline is there and is not the last character.\<close>

definition after_newline :: "string \<Rightarrow> string option" where
  "after_newline s = (case dropWhile (\<lambda>c. c \<noteq> NL) s of
     [] \<Rightarrow> None
   | _ # rest \<Rightarrow> if rest = [] then None else Some rest)"

definition trim_terminal_output :: "nat \<Rightarrow> string \<Rightarrow> string" where
  "trim_terminal_output max_chars value =
     (if length value \<le> max_chars then value
      else (let tl = py_last max_chars value in
            case after_newline tl of Some rest \<Rightarrow> rest | None \<Rightarrow> tl))"

subsection \<open>Answering a console prompt\<close>

definition resume_policy_for_agent :: "tdb \<Rightarrow> string \<Rightarrow> string" where
  "resume_policy_for_agent db agent =
     (if agent = [] then [] else case dget (d_policy db) agent of None \<Rightarrow> [] | Some p \<Rightarrow> p)"

text \<open>The check swallows every exception, so a refused control INSERT leaves only what was already
  recorded in memory.\<close>

definition answer_console_prompt ::
  "emu \<Rightarrow> rules \<Rightarrow> fault option \<Rightarrow> clk \<Rightarrow> trow \<Rightarrow> tdb \<Rightarrow> tmem \<Rightarrow> tdb \<times> tmem" where
  "answer_console_prompt em rl fl ck row db mem =
     (case live_screen_text em (t_id row) (m_screens mem) of
        None \<Rightarrow> (db, mem)
      | Some screen \<Rightarrow>
          if screen = [] then (db, mem)
          else (let policy = (if needs_resume_policy rl screen
                              then resume_policy_for_agent db (t_agent row) else []);
                    ans = answer_for_screen rl screen policy;
                    (go, answered) = should_answer (t_id row) ans (m_answered mem);
                    mem1 = mem\<lparr>m_answered := answered\<rparr> in
                if \<not> go \<or> fl = Some FPrompt then (db, mem1)
                else (db\<lparr>d_controls := snd (append_terminal_control
                        (new_control (k_control_id ck) (t_id row) (t_env row) (t_bridge row) ''input''
                           ''console-prompt'' (case ans of None \<Rightarrow> [] | Some a \<Rightarrow> pa_keys a) 0 0
                           (k_control ck))
                        (d_controls db))\<rparr>, mem1)))"

subsection \<open>Appending\<close>

definition update_row ::
  "clk \<Rightarrow> bool \<Rightarrow> string \<Rightarrow> int option \<Rightarrow> string \<Rightarrow> string \<Rightarrow> trow \<Rightarrow> trow" where
  "update_row ck write_tail next_output sq stored_status next_status r =
     (let r1 = r\<lparr>t_updated_at := k_updated ck\<rparr>;
          r2 = (if write_tail
                then r1\<lparr>t_output := next_output, t_output_at := k_output ck,
                       t_output_seq := (case sq of None \<Rightarrow> t_output_seq r | Some n \<Rightarrow> n)\<rparr>
                else r1);
          r3 = (if next_status \<noteq> [] \<and> next_status \<noteq> stored_status
                then r2\<lparr>t_status := next_status\<rparr> else r2) in
      if next_status \<in> set TERMINAL_END_STATUSES
      then r3\<lparr>t_stopped_at := (case t_stopped_at r of None \<Rightarrow> Some (k_stopped ck) | Some s \<Rightarrow> Some s)\<rparr>
      else r3)"

definition set_row :: "string \<Rightarrow> (trow \<Rightarrow> trow) \<Rightarrow> tdb \<Rightarrow> tdb" where
  "set_row tid f db = (case dget (d_rows db) tid of
     None \<Rightarrow> db | Some r \<Rightarrow> db\<lparr>d_rows := dput tid (f r) (d_rows db)\<rparr>)"

text \<open>What the call does to the held tail: whether the row's tail is written, and the buffers.\<close>

definition hold_tail ::
  "clk \<Rightarrow> int option \<Rightarrow> string \<Rightarrow> string \<Rightarrow> int option \<Rightarrow> bool \<Rightarrow> bool \<Rightarrow> bufs \<Rightarrow> bool \<times> bufs" where
  "hold_tail ck ovr tid next_output sq ending settle bs =
     (let (due, bs1) = record_tail ovr tid next_output sq (k_record ck) bs;
          write_tail = (due \<or> ending \<or> settle);
          bs2 = (if write_tail then mark_flushed tid (k_flush ck) bs1 else bs1);
          bs3 = (if ending then forget tid bs2 else bs2) in
      (write_tail, bs3))"

definition append_terminal_output ::
  "emu \<Rightarrow> rules \<Rightarrow> fault option \<Rightarrow> clk \<Rightarrow> trow \<Rightarrow> string \<Rightarrow> string \<Rightarrow> int option \<Rightarrow> bool \<Rightarrow>
   tdb \<Rightarrow> tmem \<Rightarrow> bool \<times> tdb \<times> tmem" where
  "append_terminal_output em rl fl ck row chunk status sq settle db mem =
     (if chunk = [] \<and> status = [] \<and> \<not> settle then (False, db, mem)
      else if settle \<and> pending (m_bufs mem) (t_id row) = None then (False, db, mem)
      else (let tid = t_id row;
                current = current_tail (m_bufs mem) tid (t_output row);
                next_output = trim_terminal_output TERMINAL_OUTPUT_MAX (current @ chunk);
                scr = (if chunk = [] then m_screens mem
                       else snd (feed_live_screen em tid chunk (t_cols row) (t_rows row) current sq
                                   (m_screens mem)));
                next_status = terminal_status_transition (t_status row) status;
                ending = (next_status \<in> set TERMINAL_END_STATUSES);
                held_before = snapshot (m_bufs mem) tid;
                (write_tail, bs) = hold_tail ck (m_interval mem) tid next_output sq ending settle
                                     (m_bufs mem);
                db1 = set_row tid (update_row ck write_tail next_output sq (t_status row) next_status) db;
                mem1 = mem\<lparr>m_bufs := bs, m_screens := scr\<rparr> in
            if fl = Some FUpdate
            then (True, db, mem\<lparr>m_bufs := restore tid held_before bs,
                               m_screens := drop_live_screen tid scr\<rparr>)
            else if chunk = [] then (False, db1, mem1)
            else if fl = Some FEvent then (True, db1, mem1)
            else (let (counts, evs) = append_terminal_event tid ''terminal_output''
                                        (py_last 2000 chunk) (m_counts mem1, d_events db1) in
                  (False, answer_console_prompt em rl fl ck row (db1\<lparr>d_events := evs\<rparr>)
                            (mem1\<lparr>m_counts := counts\<rparr>)))))"

definition record_host_reported_alive :: "string \<Rightarrow> trow \<Rightarrow> tdb \<Rightarrow> tdb" where
  "record_host_reported_alive now row db = set_row (t_id row) (\<lambda>r. r\<lparr>t_updated_at := now\<rparr>) db"

subsection \<open>The transaction around it\<close>

text \<open>The mirror of a terminal status on its session row: a stopped or failed terminal gives the
  session back to managed, a live one only moves the mirrored word when it changes.\<close>

definition mirror_session :: "string \<Rightarrow> string \<Rightarrow> string \<Rightarrow> tdb \<Rightarrow> tdb" where
  "mirror_session sid norm_status now db = (case dget (d_sessions db) sid of
     None \<Rightarrow> db
   | Some s \<Rightarrow> db\<lparr>d_sessions := dput sid
       (if norm_status \<in> {''stopped'', ''failed''}
        then s\<lparr>s_terminal_status := norm_status, s_owner_mode := ''managed'', s_last_seen := now\<rparr>
        else if norm_status \<in> set TERMINAL_STOPPABLE_STATUSES
        then s\<lparr>s_last_seen := now, s_terminal_status := norm_status\<rparr>
        else s) (d_sessions db)\<rparr>)"

text \<open>\<open>seq or int(terminal["output_seq"] or 0)\<close>.\<close>

definition effective_seq :: "int option \<Rightarrow> trow \<Rightarrow> int" where
  "effective_seq sq row = (case sq of None \<Rightarrow> t_output_seq row
     | Some n \<Rightarrow> if n = 0 then t_output_seq row else n)"

definition rolled_back :: "string \<Rightarrow> buf option \<Rightarrow> tmem \<Rightarrow> tmem" where
  "rolled_back tid held mem =
     mem\<lparr>m_bufs := restore tid held (m_bufs mem), m_screens := drop_live_screen tid (m_screens mem)\<rparr>"

definition write_terminal_output ::
  "emu \<Rightarrow> rules \<Rightarrow> fault option \<Rightarrow> clk \<Rightarrow> bool \<Rightarrow> string \<Rightarrow> string \<Rightarrow> string \<Rightarrow> int option \<Rightarrow> bool \<Rightarrow>
   tdb \<Rightarrow> tmem \<Rightarrow> bool \<times> tdb \<times> tmem \<times> frame list" where
  "write_terminal_output em rl fl ck ws tid output status sq settle db mem =
     (let held_before = snapshot (m_bufs mem) tid in
      case dget (d_rows db) tid of
        None \<Rightarrow> (False, db, mem, [])
      | Some row \<Rightarrow>
          (let n = effective_seq sq row;
               (raised, db1, mem1) = append_terminal_output em rl fl ck row output status (Some n) settle db mem;
               norm_status = norm_word status;
               mirrors = (norm_status \<in> {''stopped'', ''failed''} \<or>
                          norm_status \<in> set TERMINAL_STOPPABLE_STATUSES) in
           if raised \<or> (mirrors \<and> fl = Some FSession) then (True, db, rolled_back tid held_before mem1, [])
           else (let db2 = mirror_session (t_session row) norm_status (k_session ck) db1;
                     mem2 = mem1\<lparr>m_expired := m_expired mem1 @ [t_agent row]\<rparr> in
                 if fl = Some FCommit then (True, db, rolled_back tid held_before mem2, [])
                 else (False, db2, mem2,
                       if ws \<and> (output \<noteq> [] \<or> norm_status \<noteq> [])
                       then [\<lparr>f_terminal = tid, f_agent = t_agent row, f_status = norm_status,
                              f_output = output, f_seq = n\<rparr>] else []))))"

subsection \<open>The tail that is kept\<close>

lemma after_newline_split:
  assumes "after_newline s = Some rest"
  obtains pre where "s = pre @ NL # rest" and "rest \<noteq> []"
proof -
  from assms obtain c where c: "dropWhile (\<lambda>c. c \<noteq> NL) s = c # rest" and ne: "rest \<noteq> []"
    by (auto simp: after_newline_def split: list.splits if_splits)
  have "c = NL" using hd_dropWhile [of "\<lambda>c. c \<noteq> NL" s] c by auto
  with c have "takeWhile (\<lambda>c. c \<noteq> NL) s @ NL # rest = s"
    using takeWhile_dropWhile_id [of "\<lambda>c. c \<noteq> NL" s] by simp
  with ne show thesis using that by metis
qed

lemma after_newline_suffix: "after_newline s = Some rest \<Longrightarrow> suffix rest s"
  by (erule after_newline_split) (simp add: suffix_def)

lemma trim_suffix: "suffix (trim_terminal_output m s) s"
proof (cases "after_newline (py_last m s)")
  case None
  then show ?thesis by (simp add: trim_terminal_output_def py_last_suffix)
next
  case (Some rest)
  then have "suffix rest s"
    using after_newline_suffix py_last_suffix suffix_order.trans by metis
  with Some show ?thesis by (simp add: trim_terminal_output_def)
qed

lemma trim_length: "length (trim_terminal_output m s) \<le> m"
proof -
  have "length rest \<le> m" if "after_newline (py_last m s) = Some rest" for rest
    using after_newline_suffix [OF that] length_py_last [of m s]
    by (metis min.bounded_iff order_trans suffix_length_le min.cobounded1)
  then show ?thesis by (auto simp: trim_terminal_output_def Let_def split: option.splits)
qed

lemma trim_id: "length s \<le> m \<Longrightarrow> trim_terminal_output m s = s"
  by (simp add: trim_terminal_output_def)

lemma trim_nonempty:
  assumes "s \<noteq> []" and "0 < m"
  shows "trim_terminal_output m s \<noteq> []"
proof -
  have "0 < length (py_last m s)" using assms by simp
  then have "py_last m s \<noteq> []" by (rule length_greater_0_conv [THEN iffD1])
  then show ?thesis
    using assms after_newline_split
    by (auto simp: trim_terminal_output_def Let_def split: option.splits)
qed

subsection \<open>Frame conditions\<close>

lemma answer_console_prompt_keeps:
  assumes "answer_console_prompt em rl fl ck row db mem = (db', mem')"
  shows "d_rows db' = d_rows db" "d_sessions db' = d_sessions db" "d_events db' = d_events db"
    "d_policy db' = d_policy db" "m_bufs mem' = m_bufs mem" "m_screens mem' = m_screens mem"
    "m_interval mem' = m_interval mem" "m_counts mem' = m_counts mem" "m_expired mem' = m_expired mem"
  using assms
  by (auto simp: answer_console_prompt_def Let_def split: option.splits if_splits prod.splits)

lemma set_row_get:
  "dget (d_rows (set_row tid f db)) tid' =
     (if tid' = tid then map_option f (dget (d_rows db) tid) else dget (d_rows db) tid')"
  by (cases "dget (d_rows db) tid") (auto simp: set_row_def)

lemma set_row_keeps [simp]:
  "d_sessions (set_row tid f db) = d_sessions db" "d_events (set_row tid f db) = d_events db"
  "d_controls (set_row tid f db) = d_controls db" "d_policy (set_row tid f db) = d_policy db"
  by (simp_all add: set_row_def split: option.splits)

lemma mirror_session_keeps [simp]:
  "d_rows (mirror_session sid ns now db) = d_rows db"
  "d_events (mirror_session sid ns now db) = d_events db"
  "d_controls (mirror_session sid ns now db) = d_controls db"
  by (simp_all add: mirror_session_def split: option.splits)

lemma update_row_id [simp]: "t_id (update_row ck w nx sq st ns r) = t_id r"
  "t_session (update_row ck w nx sq st ns r) = t_session r"
  "t_agent (update_row ck w nx sq st ns r) = t_agent r"
  by (simp_all add: update_row_def Let_def)

lemma update_row_tail:
  "t_output (update_row ck w nx sq st ns r) = (if w then nx else t_output r)"
  "t_output_seq (update_row ck w nx (Some n) st ns r) = (if w then n else t_output_seq r)"
  by (simp_all add: update_row_def Let_def)

lemma update_row_status:
  "t_status (update_row ck w nx sq (t_status r) ns r) = (if ns = [] then t_status r else ns)"
  by (simp add: update_row_def Let_def)

text \<open>The held tail after the call depends on the entry before it and on nothing else: gone for an
  ending terminal, else the new tail under the new number, dirty exactly when the row was not
  written.\<close>

definition hold_due :: "clk \<Rightarrow> int option \<Rightarrow> bool \<Rightarrow> bool \<Rightarrow> buf option \<Rightarrow> bool" where
  "hold_due ck ovr ending settle e =
     (ending \<or> settle \<or> (case e of None \<Rightarrow> True | Some h \<Rightarrow> k_record ck - b_flushed_at h \<ge> interval ovr))"

lemma hold_tail_due:
  assumes "tid \<noteq> []" and "hold_tail ck ovr tid nx sq ending settle bs = (w, bs')"
  shows "w = hold_due ck ovr ending settle (dget bs tid)"
  using assms
  by (cases "dget bs tid") (auto simp: hold_tail_def hold_due_def record_tail_def Let_def split: if_splits)

lemma hold_tail_others:
  assumes "hold_tail ck ovr tid nx sq ending settle bs = (w, bs')" and "tid' \<noteq> tid"
  shows "dget bs' tid' = dget bs tid'"
proof -
  obtain due bs1 where r: "record_tail ovr tid nx sq (k_record ck) bs = (due, bs1)" by fastforce
  then have "dget bs1 tid' = dget bs tid'"
    using record_tail_others [OF assms(2), of ovr nx sq "k_record ck" bs] by simp
  with assms r show ?thesis
    by (cases ending; cases due; cases settle) (auto simp: hold_tail_def Let_def)
qed

lemma hold_tail_held:
  assumes "tid \<noteq> []" and "hold_tail ck ovr tid nx (Some n) ending settle bs = (w, bs')"
  shows "if ending then dget bs' tid = None \<and> w
         else \<exists>h. dget bs' tid = Some h \<and> b_tail h = nx \<and> b_seq h = Some n \<and> b_dirty h = (\<not> w)
                \<and> b_flushed_at h = (if w then k_flush ck else b_flushed_at (the (dget bs tid)))"
proof (cases "dget bs tid")
  case None
  with assms show ?thesis
    by (auto simp: hold_tail_def record_tail_def mark_flushed_def forget_def Let_def split: if_splits)
next
  case (Some h)
  with assms show ?thesis
    by (cases "k_record ck - b_flushed_at h \<ge> interval ovr")
      (auto simp: hold_tail_def record_tail_def mark_flushed_def forget_def Let_def split: if_splits)
qed

subsection \<open>A call that succeeds\<close>

text \<open>The tail and the rows after a successful call, in one equation each; the cases are the early
  return (nothing to append, or nothing held to settle) and the write.\<close>

definition nothing_to_do :: "string \<Rightarrow> string \<Rightarrow> bool \<Rightarrow> bufs \<Rightarrow> string \<Rightarrow> bool" where
  "nothing_to_do chunk status settle bs tid =
     (chunk = [] \<and> status = [] \<and> \<not> settle \<or> settle \<and> pending bs tid = None)"

lemma append_ok_cases:
  assumes "append_terminal_output em rl fl ck row chunk status sq settle db mem = (False, db', mem')"
  obtains (early) "db' = db" "mem' = mem" "nothing_to_do chunk status settle (m_bufs mem) (t_id row)"
  | (wrote) w bs nx ns where "\<not> nothing_to_do chunk status settle (m_bufs mem) (t_id row)"
      "nx = trim_terminal_output TERMINAL_OUTPUT_MAX (current_tail (m_bufs mem) (t_id row) (t_output row) @ chunk)"
      "ns = terminal_status_transition (t_status row) status"
      "hold_tail ck (m_interval mem) (t_id row) nx sq (ns \<in> set TERMINAL_END_STATUSES) settle (m_bufs mem) = (w, bs)"
      "m_bufs mem' = bs" "m_interval mem' = m_interval mem" "m_expired mem' = m_expired mem"
      "d_rows db' = d_rows (set_row (t_id row) (update_row ck w nx sq (t_status row) ns) db)"
      "d_sessions db' = d_sessions db"
proof (cases "nothing_to_do chunk status settle (m_bufs mem) (t_id row)")
  case True
  then show thesis using assms by (intro early) (auto simp: append_terminal_output_def nothing_to_do_def)
next
  case False
  define nx where "nx = trim_terminal_output TERMINAL_OUTPUT_MAX (current_tail (m_bufs mem) (t_id row) (t_output row) @ chunk)"
  define ns where "ns = terminal_status_transition (t_status row) status"
  obtain w bs where h: "hold_tail ck (m_interval mem) (t_id row) nx sq (ns \<in> set TERMINAL_END_STATUSES)
      settle (m_bufs mem) = (w, bs)" by fastforce
  let ?db1 = "set_row (t_id row) (update_row ck w nx sq (t_status row) ns) db"
  have "m_bufs mem' = bs \<and> d_rows db' = d_rows ?db1 \<and> d_sessions db' = d_sessions db
      \<and> m_interval mem' = m_interval mem \<and> m_expired mem' = m_expired mem"
  proof (cases "chunk = []")
    case True
    with assms False h show ?thesis
      by (auto simp: append_terminal_output_def nothing_to_do_def Let_def nx_def ns_def split: if_splits)
  next
    case chunk: False
    let ?scr = "snd (feed_live_screen em (t_id row) chunk (t_cols row) (t_rows row)
      (current_tail (m_bufs mem) (t_id row) (t_output row)) sq (m_screens mem))"
    obtain counts evs where e: "append_terminal_event (t_id row) ''terminal_output'' (py_last 2000 chunk)
      (m_counts mem, d_events db) = (counts, evs)" by fastforce
    have "answer_console_prompt em rl fl ck row (?db1\<lparr>d_events := evs\<rparr>)
      (mem\<lparr>m_bufs := bs, m_screens := ?scr, m_counts := counts\<rparr>) = (db', mem')"
      using assms False h chunk e
      by (auto simp: append_terminal_output_def nothing_to_do_def Let_def nx_def [symmetric] ns_def [symmetric]
          split: if_splits)
    from answer_console_prompt_keeps [OF this] show ?thesis by simp
  qed
  with h show thesis by (intro wrote [OF False nx_def ns_def]) auto
qed

lemma write_ok_cases:
  assumes "write_terminal_output em rl fl ck ws tid output status sq settle db mem = (False, db', mem', fr)"
    and "dget (d_rows db) tid = Some row"
  obtains db1 mem1 where
    "append_terminal_output em rl fl ck row output status (Some (effective_seq sq row)) settle db mem = (False, db1, mem1)"
    "d_rows db' = d_rows db1" "m_bufs mem' = m_bufs mem1" "m_screens mem' = m_screens mem1"
    "m_interval mem' = m_interval mem1" "d_controls db' = d_controls db1" "m_answered mem' = m_answered mem1"
    "d_sessions db' = d_sessions (mirror_session (t_session row) (norm_word status) (k_session ck) db1)"
    "fr = (if ws \<and> (output \<noteq> [] \<or> norm_word status \<noteq> [])
           then [\<lparr>f_terminal = tid, f_agent = t_agent row, f_status = norm_word status,
                  f_output = output, f_seq = effective_seq sq row\<rparr>] else [])"
  using assms by (auto simp: write_terminal_output_def Let_def split: prod.splits if_splits)

subsection \<open>The invariant of rows and held tails\<close>

text \<open>Rows are stored under their own id with a bounded tail and a status of the vocabulary. A held
  tail is bounded, and a clean one is exactly what the row stores, number included.\<close>

definition rows_ok :: "tdb \<Rightarrow> bool" where
  "rows_ok db = (\<forall>tid r. dget (d_rows db) tid = Some r \<longrightarrow>
     t_id r = tid \<and> tid \<noteq> [] \<and> length (t_output r) \<le> TERMINAL_OUTPUT_MAX
     \<and> t_status r \<in> set TERMINAL_SESSION_STATUSES)"

definition tails_ok :: "tdb \<Rightarrow> tmem \<Rightarrow> bool" where
  "tails_ok db mem = (\<forall>tid h r. dget (m_bufs mem) tid = Some h \<longrightarrow> dget (d_rows db) tid = Some r \<longrightarrow>
     length (b_tail h) \<le> TERMINAL_OUTPUT_MAX
     \<and> (\<not> b_dirty h \<longrightarrow> b_tail h = t_output r \<and> b_seq h = Some (t_output_seq r)))"

text \<open>The tail a reader is served: what is held, else what the row stores.\<close>

definition true_tail :: "tdb \<Rightarrow> tmem \<Rightarrow> string \<Rightarrow> string" where
  "true_tail db mem tid = (case dget (d_rows db) tid of
     None \<Rightarrow> [] | Some r \<Rightarrow> current_tail (m_bufs mem) tid (t_output r))"

lemma rows_okD:
  "rows_ok db \<Longrightarrow> dget (d_rows db) tid = Some r \<Longrightarrow> t_id r = tid \<and> tid \<noteq> []
     \<and> length (t_output r) \<le> TERMINAL_OUTPUT_MAX \<and> t_status r \<in> set TERMINAL_SESSION_STATUSES"
  by (simp add: rows_ok_def)

lemma true_tail_bounded:
  "rows_ok db \<Longrightarrow> tails_ok db mem \<Longrightarrow> length (true_tail db mem tid) \<le> TERMINAL_OUTPUT_MAX"
  by (auto simp: rows_ok_def tails_ok_def true_tail_def current_tail_def split: option.splits)

text \<open>A settle carries no bytes and no status.\<close>

definition settle_shape :: "bool \<Rightarrow> string \<Rightarrow> string \<Rightarrow> bool" where
  "settle_shape settle output status = (settle \<longrightarrow> output = [] \<and> status = [])"

text \<open>What one successful write leaves for its terminal: the row, and the entry held for it.\<close>

lemma write_ok_effect:
  assumes ok: "write_terminal_output em rl fl ck ws tid output status sq settle db mem = (False, db', mem', fr)"
    and row: "dget (d_rows db) tid = Some row" and rows: "rows_ok db" and shape: "settle_shape settle output status"
  obtains (idle) "d_rows db' = d_rows db" "m_bufs mem' = m_bufs mem" "output = []" "status = []"
      "nothing_to_do output status settle (m_bufs mem) tid"
  | (wrote) w nx ns where "\<not> nothing_to_do output status settle (m_bufs mem) tid"
      "nx = trim_terminal_output TERMINAL_OUTPUT_MAX (true_tail db mem tid @ output)"
      "ns = terminal_status_transition (t_status row) status"
      "hold_tail ck (m_interval mem) tid nx (Some (effective_seq sq row)) (ns \<in> set TERMINAL_END_STATUSES)
         settle (m_bufs mem) = (w, m_bufs mem')"
      "d_rows db' = dput tid (update_row ck w nx (Some (effective_seq sq row)) (t_status row) ns row) (d_rows db)"
proof -
  have tid: "t_id row = tid" using rows row by (simp add: rows_okD)
  have tt: "true_tail db mem tid = current_tail (m_bufs mem) tid (t_output row)"
    by (simp add: true_tail_def row)
  from ok row obtain db1 mem1 where
    a: "append_terminal_output em rl fl ck row output status (Some (effective_seq sq row)) settle db mem = (False, db1, mem1)"
    and eq: "d_rows db' = d_rows db1" "m_bufs mem' = m_bufs mem1" by (rule write_ok_cases)
  from a show thesis
  proof (cases rule: append_ok_cases)
    case early
    with shape eq tid show thesis by (intro idle) (auto simp: settle_shape_def nothing_to_do_def)
  next
    case (wrote w bs nx ns)
    with eq tid tt row show thesis by (intro that(2)) (auto simp: set_row_def)
  qed
qed

lemma write_ok_others:
  assumes ok: "write_terminal_output em rl fl ck ws tid output status sq settle db mem = (False, db', mem', fr)"
    and rows: "rows_ok db" and shape: "settle_shape settle output status" and "tid' \<noteq> tid"
  shows "dget (d_rows db') tid' = dget (d_rows db) tid'" "dget (m_bufs mem') tid' = dget (m_bufs mem) tid'"
proof -
  have "dget (d_rows db') tid' = dget (d_rows db) tid' \<and> dget (m_bufs mem') tid' = dget (m_bufs mem) tid'"
  proof (cases "dget (d_rows db) tid")
    case None
    with ok show ?thesis by (simp add: write_terminal_output_def)
  next
    case (Some row)
    from ok Some rows shape show ?thesis
      by (cases rule: write_ok_effect) (use assms(4) hold_tail_others in auto)
  qed
  then show "dget (d_rows db') tid' = dget (d_rows db) tid'"
    "dget (m_bufs mem') tid' = dget (m_bufs mem) tid'" by simp_all
qed

lemma write_ok_missing:
  "dget (d_rows db) tid = None \<Longrightarrow>
     write_terminal_output em rl fl ck ws tid output status sq settle db mem = (False, db, mem, [])"
  by (simp add: write_terminal_output_def)

text \<open>The status column moves by the transition rule.\<close>

lemma write_ok_status:
  assumes "write_terminal_output em rl fl ck ws tid output status sq settle db mem = (False, db', mem', fr)"
    and row: "dget (d_rows db) tid = Some row" and "rows_ok db" and "settle_shape settle output status"
  shows "\<exists>row'. dget (d_rows db') tid = Some row' \<and> t_status row' = status_after (t_status row) status
     \<and> t_id row' = t_id row"
  using assms
proof (cases rule: write_ok_effect)
  case idle
  then show ?thesis using row by (simp add: status_after_def terminal_status_transition_def)
next
  case (wrote w nx ns)
  then show ?thesis by (simp add: update_row_status status_after_def Let_def)
qed

subsection \<open>What the output path promises\<close>

lemma invariant_after_write:
  assumes ok: "write_terminal_output em rl fl ck ws tid output status sq settle db mem = (False, db', mem', fr)"
    and rows: "rows_ok db" and tails: "tails_ok db mem" and shape: "settle_shape settle output status"
  shows "rows_ok db' \<and> tails_ok db' mem'"
proof (cases "dget (d_rows db) tid")
  case None
  with ok rows tails show ?thesis by (simp add: write_ok_missing)
next
  case (Some row)
  note oth = write_ok_others [OF ok rows shape]
  from rows Some have tid: "tid \<noteq> []" "t_id row = tid" by (auto dest: rows_okD)
  from ok Some rows shape show ?thesis
  proof (cases rule: write_ok_effect)
    case idle
    with rows tails show ?thesis by (simp add: rows_ok_def tails_ok_def)
  next
    case (wrote w nx ns)
    let ?row = "update_row ck w nx (Some (effective_seq sq row)) (t_status row) ns row"
    have new: "dget (d_rows db') tid = Some ?row" using wrote(5) by simp
    have len: "length nx \<le> TERMINAL_OUTPUT_MAX" by (simp add: wrote(2) trim_length)
    have "t_status ?row \<in> set TERMINAL_SESSION_STATUSES"
      using status_after_in_vocabulary [of "t_status row" status] rows Some
      by (simp add: update_row_status wrote(3) status_after_def Let_def rows_ok_def)
    then have ok_row: "t_id ?row = tid \<and> tid \<noteq> [] \<and> length (t_output ?row) \<le> TERMINAL_OUTPUT_MAX
        \<and> t_status ?row \<in> set TERMINAL_SESSION_STATUSES"
      using tid len rows_okD [OF rows Some] by (simp add: update_row_tail)
    have "rows_ok db'"
      unfolding rows_ok_def
    proof (intro allI impI)
      fix k r
      assume k: "dget (d_rows db') k = Some r"
      show "t_id r = k \<and> k \<noteq> [] \<and> length (t_output r) \<le> TERMINAL_OUTPUT_MAX
          \<and> t_status r \<in> set TERMINAL_SESSION_STATUSES"
      proof (cases "k = tid")
        case True
        with k new ok_row show ?thesis by simp
      next
        case False
        with k oth(1) have "dget (d_rows db) k = Some r" by simp
        with rows show ?thesis by (simp add: rows_okD)
      qed
    qed
    moreover have "tails_ok db' mem'"
      unfolding tails_ok_def
    proof (intro allI impI)
      fix k h r
      assume hr: "dget (m_bufs mem') k = Some h" "dget (d_rows db') k = Some r"
      show "length (b_tail h) \<le> TERMINAL_OUTPUT_MAX
        \<and> (\<not> b_dirty h \<longrightarrow> b_tail h = t_output r \<and> b_seq h = Some (t_output_seq r))"
      proof (cases "k = tid")
        case True
        with hr new hold_tail_held [OF tid(1) wrote(4)] len show ?thesis
          by (auto simp: update_row_tail split: if_splits)
      next
        case False
        with hr oth tails show ?thesis by (auto simp: tails_ok_def)
      qed
    qed
    ultimately show ?thesis ..
  qed
qed

lemma true_tail_after_write:
  assumes ok: "write_terminal_output em rl fl ck ws tid output status sq settle db mem = (False, db', mem', fr)"
    and row: "dget (d_rows db) tid = Some row" and rows: "rows_ok db" and tails: "tails_ok db mem"
    and shape: "settle_shape settle output status"
  shows "true_tail db' mem' tid = trim_terminal_output TERMINAL_OUTPUT_MAX (true_tail db mem tid @ output)"
proof -
  from rows row have tid: "tid \<noteq> []" by (auto dest: rows_okD)
  from ok row rows shape show ?thesis
  proof (cases rule: write_ok_effect)
    case idle
    have "true_tail db' mem' tid = true_tail db mem tid" using idle row by (simp add: true_tail_def)
    then show ?thesis using true_tail_bounded [OF rows tails] idle by (simp add: trim_id)
  next
    case (wrote w nx ns)
    with hold_tail_held [OF tid wrote(4)] show ?thesis
      by (auto simp: true_tail_def current_tail_def update_row_tail split: if_splits)
  qed
qed

text \<open>The memory a raised call leaves: the held tails as they were, the terminal's screen dropped.\<close>

lemma append_others:
  assumes "append_terminal_output em rl fl ck row chunk status sq settle db mem = (r, db', mem')"
    and "tid' \<noteq> t_id row"
  shows "dget (m_bufs mem') tid' = dget (m_bufs mem) tid'"
    "dget (m_screens mem') tid' = dget (m_screens mem) tid'"
proof -
  define nx where "nx = trim_terminal_output TERMINAL_OUTPUT_MAX (current_tail (m_bufs mem) (t_id row) (t_output row) @ chunk)"
  define ns where "ns = terminal_status_transition (t_status row) status"
  obtain w bs where h: "hold_tail ck (m_interval mem) (t_id row) nx sq (ns \<in> set TERMINAL_END_STATUSES)
      settle (m_bufs mem) = (w, bs)" by fastforce
  have bs: "dget bs tid' = dget (m_bufs mem) tid'" by (rule hold_tail_others [OF h assms(2)])
  let ?scr = "if chunk = [] then m_screens mem else snd (feed_live_screen em (t_id row) chunk (t_cols row)
    (t_rows row) (current_tail (m_bufs mem) (t_id row) (t_output row)) sq (m_screens mem))"
  have scr: "dget ?scr tid' = dget (m_screens mem) tid'" using assms(2) by simp
  have "m_bufs mem' \<in> {m_bufs mem, bs, restore (t_id row) (snapshot (m_bufs mem) (t_id row)) bs}
    \<and> m_screens mem' \<in> {m_screens mem, ?scr, drop_live_screen (t_id row) ?scr}"
    using assms(1) h
    by (auto simp: append_terminal_output_def Let_def nx_def [symmetric] ns_def [symmetric]
        split: if_splits prod.splits dest: answer_console_prompt_keeps)
  then show "dget (m_bufs mem') tid' = dget (m_bufs mem) tid'"
    "dget (m_screens mem') tid' = dget (m_screens mem) tid'"
    using bs scr assms(2) tail_store.restore_others by (auto simp: drop_live_screen_def)
qed

lemma write_no_fault:
  assumes "write_terminal_output em rl None ck ws tid output status sq settle db mem = (r, db', mem', fr)"
  shows "\<not> r"
  using assms
  by (auto simp: write_terminal_output_def append_terminal_output_def Let_def
      split: option.splits prod.splits if_splits)

lemma write_raised:
  assumes raised: "write_terminal_output em rl fl ck ws tid output status sq settle db mem = (True, db', mem', fr)"
    and rows: "rows_ok db"
  shows "db' = db" "fr = []" "dget (m_bufs mem') = dget (m_bufs mem)"
    "dget (m_screens mem') = (dget (m_screens mem))(tid := None)" "m_interval mem' = m_interval mem"
proof -
  from raised obtain row where row: "dget (d_rows db) tid = Some row"
    by (cases "dget (d_rows db) tid") (auto simp: write_terminal_output_def)
  then have tid: "tid \<noteq> []" "t_id row = tid" using rows by (auto dest: rows_okD)
  obtain r db1 mem1 where a: "append_terminal_output em rl fl ck row output status
      (Some (effective_seq sq row)) settle db mem = (r, db1, mem1)" by (metis prod.exhaust)
  have oth: "dget (m_bufs mem1) k = dget (m_bufs mem) k" "dget (m_screens mem1) k = dget (m_screens mem) k"
    if "k \<noteq> tid" for k
    using append_others [OF a, of k] that tid by simp_all
  have ivl: "m_interval mem1 = m_interval mem"
    using a by (auto simp: append_terminal_output_def Let_def split: if_splits prod.splits
        dest: answer_console_prompt_keeps)
  have mem': "db' = db \<and> fr = [] \<and> (\<exists>ex. mem' = rolled_back tid (snapshot (m_bufs mem) tid) (mem1\<lparr>m_expired := ex\<rparr>))"
    using raised row a
    by (auto simp: write_terminal_output_def Let_def rolled_back_def split: if_splits intro: exI [of _ "m_expired mem1"])
  then show "db' = db" "fr = []" by simp_all
  from mem' obtain ex where m: "mem' = rolled_back tid (snapshot (m_bufs mem) tid) (mem1\<lparr>m_expired := ex\<rparr>)"
    by blast
  show "dget (m_bufs mem') = dget (m_bufs mem)"
    using tail_store.restore_rolls_back [OF tid(1), of "m_bufs mem1" "m_bufs mem"] oth
    by (simp add: m rolled_back_def)
  show "dget (m_screens mem') = (dget (m_screens mem))(tid := None)"
    using oth by (auto simp: m rolled_back_def drop_live_screen_def)
  show "m_interval mem' = m_interval mem" by (simp add: m rolled_back_def ivl)
qed

text \<open>Two memories that hold the same tails write the same row and publish the same frame.\<close>

lemma hold_tail_same:
  assumes h1: "hold_tail ck ovr tid nx (Some n) ending settle bs1 = (w1, bs1')"
    and h2: "hold_tail ck ovr tid nx (Some n) ending settle bs2 = (w2, bs2')"
    and same: "dget bs1 = dget bs2" and tid: "tid \<noteq> []"
  shows "w1 = w2" "dget bs1' = dget bs2'"
proof -
  show w: "w1 = w2" using hold_tail_due [OF tid h1] hold_tail_due [OF tid h2] same by simp
  show "dget bs1' = dget bs2'"
  proof
    fix k
    show "dget bs1' k = dget bs2' k"
    proof (cases "k = tid")
      case True
      then show ?thesis
        using hold_tail_held [OF tid h1] hold_tail_held [OF tid h2] w same
        by (auto split: if_splits intro: buf.equality)
    next
      case False
      then show ?thesis using hold_tail_others [OF h1] hold_tail_others [OF h2] same by metis
    qed
  qed
qed

lemma write_same:
  assumes w1: "write_terminal_output em rl None ck ws tid output status sq settle db mem1 = (False, db1, mem1', fr1)"
    and w2: "write_terminal_output em rl None ck ws tid output status sq settle db mem2 = (False, db2, mem2', fr2)"
    and same: "dget (m_bufs mem1) = dget (m_bufs mem2)" "m_interval mem1 = m_interval mem2"
    and rows: "rows_ok db" and shape: "settle_shape settle output status"
  shows "d_rows db1 = d_rows db2 \<and> fr1 = fr2 \<and> dget (m_bufs mem1') = dget (m_bufs mem2')"
proof (cases "dget (d_rows db) tid")
  case None
  with w1 w2 same show ?thesis by (simp add: write_terminal_output_def)
next
  case (Some row)
  then have tid: "tid \<noteq> []" using rows by (auto dest: rows_okD)
  have fr: "fr1 = fr2" using w1 w2 Some by (auto elim!: write_ok_cases)
  have todo: "nothing_to_do output status settle (m_bufs mem1) tid =
      nothing_to_do output status settle (m_bufs mem2) tid"
    using same by (simp add: nothing_to_do_def pending_def)
  have tt: "true_tail db mem1 tid = true_tail db mem2 tid"
    using same Some by (simp add: true_tail_def current_tail_def)
  from w1 Some rows shape show ?thesis
  proof (cases rule: write_ok_effect)
    case idle
    have two: "nothing_to_do output status settle (m_bufs mem2) tid"
      by (rule todo [THEN iffD1, OF idle(5)])
    from w2 Some rows shape have "d_rows db2 = d_rows db \<and> m_bufs mem2' = m_bufs mem2"
      by (cases rule: write_ok_effect) (simp_all add: two)
    with idle same fr show ?thesis by simp
  next
    case (wrote w nx ns)
    note one = wrote
    from w2 Some rows shape show ?thesis
    proof (cases rule: write_ok_effect)
      case idle
      with one todo show ?thesis by simp
    next
      case (wrote w' nx' ns')
      have "nx' = nx" "ns' = ns" using wrote one tt by simp_all
      with hold_tail_same [OF one(4) _ same(1) tid, of w' "m_bufs mem2'"] wrote one same fr
      show ?thesis by simp
    qed
  qed
qed

subsection \<open>The writer as its client sees it\<close>

text \<open>The contract the write queue relies on: a raised write changes no content and publishes
  nothing, a completed one appends its bytes to its own terminal and touches no other.\<close>

locale tail_writer =
  fixes wr :: "'op \<Rightarrow> 's \<Rightarrow> bool \<times> 's \<times> 'f list"
    and target :: "'op \<Rightarrow> 'k"
    and bytes :: "'op \<Rightarrow> 'b list"
    and legal :: "'op \<Rightarrow> bool"
    and present :: "'s \<Rightarrow> 'k \<Rightarrow> bool"
    and content :: "'s \<Rightarrow> 'k \<Rightarrow> 'b list"
    and app :: "'b list \<Rightarrow> 'b list \<Rightarrow> 'b list"
    and good :: "'s \<Rightarrow> bool"
  assumes raised_keeps: "good s \<Longrightarrow> legal x \<Longrightarrow> wr x s = (True, s', fr) \<Longrightarrow>
      good s' \<and> content s' = content s \<and> present s' = present s \<and> fr = []"
    and done_appends: "good s \<Longrightarrow> legal x \<Longrightarrow> wr x s = (False, s', fr) \<Longrightarrow>
      good s' \<and> present s' = present s \<and> (present s (target x) \<longrightarrow>
        content s' (target x) = app (content s (target x)) (bytes x))
      \<and> (\<forall>k. k \<noteq> target x \<longrightarrow> content s' k = content s k)"
begin

fun run :: "'op list \<Rightarrow> 's \<Rightarrow> 's" where
  "run [] s = s"
| "run (x # xs) s = run xs (fst (snd (wr x s)))"

text \<open>The bytes of the writes to \<open>k\<close> that completed, in order.\<close>

fun landed :: "'k \<Rightarrow> 'op list \<Rightarrow> 's \<Rightarrow> 'b list list" where
  "landed k [] s = []"
| "landed k (x # xs) s =
     (if target x = k \<and> \<not> fst (wr x s) then [bytes x] else [])
       @ landed k xs (fst (snd (wr x s)))"

lemma run_content:
  assumes "good s" and "\<forall>x \<in> set xs. legal x" and "present s k"
  shows "good (run xs s) \<and> present (run xs s) k \<and>
    content (run xs s) k = foldl app (content s k) (landed k xs s)"
  using assms
proof (induction xs arbitrary: s)
  case Nil
  then show ?case by simp
next
  case (Cons x xs)
  obtain r s' fr where w: "wr x s = (r, s', fr)" by (metis prod.exhaust)
  have legal: "legal x" and rest: "\<forall>x \<in> set xs. legal x" using Cons.prems by simp_all
  show ?case
  proof (cases r)
    case True
    with raised_keeps [OF Cons.prems(1) legal, of s' fr] w
    have "good s'" "present s' k" "content s' k = content s k" using Cons.prems(3) by simp_all
    with Cons.IH [OF _ rest, of s'] w True show ?thesis by simp
  next
    case False
    with done_appends [OF Cons.prems(1) legal, of s' fr] w
    have "good s'" "present s' k"
      "content s' k = (if target x = k then app (content s k) (bytes x) else content s k)"
      using Cons.prems(3) by auto
    with Cons.IH [OF _ rest, of s'] w False show ?thesis by simp
  qed
qed

end

record wop =
  op_fault :: "fault option"
  op_clk :: clk
  op_tid :: string
  op_output :: string
  op_status :: string
  op_seq :: "int option"
  op_settle :: bool

definition write_op :: "emu \<Rightarrow> rules \<Rightarrow> bool \<Rightarrow> wop \<Rightarrow> tdb \<times> tmem \<Rightarrow> bool \<times> (tdb \<times> tmem) \<times> frame list" where
  "write_op em rl ws x s =
     (let (r, db, mem, fr) = write_terminal_output em rl (op_fault x) (op_clk x) ws (op_tid x)
            (op_output x) (op_status x) (op_seq x) (op_settle x) (fst s) (snd s)
      in (r, (db, mem), fr))"

definition op_legal :: "wop \<Rightarrow> bool" where
  "op_legal x = settle_shape (op_settle x) (op_output x) (op_status x)"

definition has_row :: "tdb \<times> tmem \<Rightarrow> string \<Rightarrow> bool" where
  "has_row s tid = (dget (d_rows (fst s)) tid \<noteq> None)"

definition shown_tail :: "tdb \<times> tmem \<Rightarrow> string \<Rightarrow> string" where
  "shown_tail s tid = true_tail (fst s) (snd s) tid"

definition append_trim :: "string \<Rightarrow> string \<Rightarrow> string" where
  "append_trim t x = trim_terminal_output TERMINAL_OUTPUT_MAX (t @ x)"

definition world_ok :: "tdb \<times> tmem \<Rightarrow> bool" where
  "world_ok s = (rows_ok (fst s) \<and> tails_ok (fst s) (snd s))"

lemma write_op_raised:
  assumes "world_ok s" and "write_op em rl ws x s = (True, s', fr)"
  shows "world_ok s' \<and> shown_tail s' = shown_tail s \<and> has_row s' = has_row s \<and> fr = []"
proof -
  obtain db mem db' mem' where s: "s = (db, mem)" "s' = (db', mem')" by (metis prod.exhaust)
  have "rows_ok db" using assms(1) by (simp add: world_ok_def s)
  with assms(2) write_raised [of em rl "op_fault x" "op_clk x" ws "op_tid x"] s
  have "db' = db" "fr = []" "dget (m_bufs mem') = dget (m_bufs mem)"
    by (auto simp: write_op_def split: prod.splits)
  with assms(1) s show ?thesis
    by (auto simp: world_ok_def tails_ok_def shown_tail_def true_tail_def current_tail_def has_row_def
        fun_eq_iff split: option.splits)
qed

lemma write_op_done:
  assumes "world_ok s" and "op_legal x" and "write_op em rl ws x s = (False, s', fr)"
  shows "world_ok s' \<and> has_row s' = has_row s \<and>
    (has_row s (op_tid x) \<longrightarrow> shown_tail s' (op_tid x) = append_trim (shown_tail s (op_tid x)) (op_output x))
    \<and> (\<forall>k. k \<noteq> op_tid x \<longrightarrow> shown_tail s' k = shown_tail s k)"
proof -
  obtain db mem db' mem' where s: "s = (db, mem)" "s' = (db', mem')" by (metis prod.exhaust)
  have ok: "rows_ok db" "tails_ok db mem" using assms(1) by (simp_all add: world_ok_def s)
  have w: "write_terminal_output em rl (op_fault x) (op_clk x) ws (op_tid x) (op_output x) (op_status x)
      (op_seq x) (op_settle x) db mem = (False, db', mem', fr)"
    using assms(3) by (auto simp: write_op_def s split: prod.splits)
  have shape: "settle_shape (op_settle x) (op_output x) (op_status x)" using assms(2) by (simp add: op_legal_def)
  note oth = write_ok_others [OF w ok(1) shape]
  have here: "(dget (d_rows db') (op_tid x) \<noteq> None) = (dget (d_rows db) (op_tid x) \<noteq> None)"
  proof (cases "dget (d_rows db) (op_tid x)")
    case None
    with w show ?thesis by (auto simp: write_ok_missing)
  next
    case (Some row)
    with write_ok_status [OF w Some ok(1) shape] show ?thesis by auto
  qed
  have "has_row s' k = has_row s k" for k
    using oth(1) here by (cases "k = op_tid x") (simp_all add: has_row_def s)
  moreover have "shown_tail s' k = shown_tail s k" if "k \<noteq> op_tid x" for k
    using oth(1) [OF that] oth(2) [OF that]
    by (simp add: shown_tail_def true_tail_def current_tail_def s split: option.splits)
  moreover have "shown_tail s' (op_tid x) = append_trim (shown_tail s (op_tid x)) (op_output x)"
    if "has_row s (op_tid x)"
    using that true_tail_after_write [OF w _ ok shape] by (auto simp: has_row_def shown_tail_def append_trim_def s)
  moreover have "world_ok s'" using invariant_after_write [OF w ok shape] by (simp add: world_ok_def s)
  ultimately show ?thesis by auto
qed

interpretation tail_out: tail_writer "write_op em rl ws" op_tid op_output op_legal has_row shown_tail append_trim world_ok
  by unfold_locales (use write_op_raised write_op_done in blast)+

subsection \<open>Runs of writes\<close>

fun run_writes :: "emu \<Rightarrow> rules \<Rightarrow> bool \<Rightarrow> wop list \<Rightarrow> tdb \<times> tmem \<Rightarrow> tdb \<times> tmem" where
  "run_writes em rl ws [] s = s"
| "run_writes em rl ws (x # xs) s = run_writes em rl ws xs (fst (snd (write_op em rl ws x s)))"

text \<open>The output of the writes to one terminal that completed, in order.\<close>

fun landed_writes :: "emu \<Rightarrow> rules \<Rightarrow> bool \<Rightarrow> string \<Rightarrow> wop list \<Rightarrow> tdb \<times> tmem \<Rightarrow> string list" where
  "landed_writes em rl ws tid [] s = []"
| "landed_writes em rl ws tid (x # xs) s =
     (if op_tid x = tid \<and> \<not> fst (write_op em rl ws x s) then [op_output x] else [])
       @ landed_writes em rl ws tid xs (fst (snd (write_op em rl ws x s)))"

lemma run_writes_run: "run_writes em rl ws xs s = tail_out.run em rl ws xs s"
  by (induction xs arbitrary: s) simp_all

lemma landed_writes_landed: "landed_writes em rl ws tid xs s = tail_out.landed em rl ws tid xs s"
  by (induction xs arbitrary: s) simp_all

definition stored_status :: "tdb \<times> tmem \<Rightarrow> string \<Rightarrow> string" where
  "stored_status s tid = (case dget (d_rows (fst s)) tid of None \<Rightarrow> [] | Some r \<Rightarrow> t_status r)"

lemma write_op_status:
  assumes "world_ok s" and "op_legal x" and "has_row s tid"
  shows "stored_status (fst (snd (write_op em rl ws x s))) tid
    = (if op_tid x = tid \<and> \<not> fst (write_op em rl ws x s)
       then status_after (stored_status s tid) (op_status x) else stored_status s tid)"
proof -
  obtain r db' mem' fr where w: "write_terminal_output em rl (op_fault x) (op_clk x) ws (op_tid x) (op_output x)
      (op_status x) (op_seq x) (op_settle x) (fst s) (snd s) = (r, db', mem', fr)" by (metis prod.exhaust)
  then have op: "write_op em rl ws x s = (r, (db', mem'), fr)" by (simp add: write_op_def)
  have ok: "rows_ok (fst s)" using assms(1) by (simp add: world_ok_def)
  have shape: "settle_shape (op_settle x) (op_output x) (op_status x)" using assms(2) by (simp add: op_legal_def)
  from assms(3) obtain row where row: "dget (d_rows (fst s)) tid = Some row" by (auto simp: has_row_def)
  show ?thesis
  proof (cases r)
    case True
    with w have "db' = fst s" by (intro write_raised(1) [OF _ ok]) simp
    with True op show ?thesis by (simp add: stored_status_def)
  next
    case False
    with w have w: "write_terminal_output em rl (op_fault x) (op_clk x) ws (op_tid x) (op_output x)
      (op_status x) (op_seq x) (op_settle x) (fst s) (snd s) = (False, db', mem', fr)" by simp
    show ?thesis
    proof (cases "op_tid x = tid")
      case True
      with write_ok_status [OF w _ ok shape] row op False show ?thesis by (auto simp: stored_status_def)
    next
      case other: False
      with write_ok_others(1) [OF w ok shape, of tid] op row show ?thesis by (simp add: stored_status_def)
    qed
  qed
qed

lemma write_op_keeps:
  assumes "world_ok s" and "op_legal x"
  shows "world_ok (fst (snd (write_op em rl ws x s)))" "has_row (fst (snd (write_op em rl ws x s))) = has_row s"
proof -
  obtain r s' fr where w: "write_op em rl ws x s = (r, s', fr)" by (metis prod.exhaust)
  then have "world_ok s' \<and> has_row s' = has_row s"
    using write_op_raised [OF assms(1), of em rl ws x s' fr] write_op_done [OF assms, of em rl ws s' fr]
    by (cases r) simp_all
  with w show "world_ok (fst (snd (write_op em rl ws x s)))" "has_row (fst (snd (write_op em rl ws x s))) = has_row s"
    by simp_all
qed

subsection \<open>Properties\<close>

text \<open>The stored tail is a suffix of what was written, never longer than the bound, equal to it
  when it fits, and when it was cut at a line boundary the character before it is a newline.\<close>

theorem trim_keeps_a_bounded_suffix:
  "suffix (trim_terminal_output m s) s \<and> length (trim_terminal_output m s) \<le> m
   \<and> (length s \<le> m \<longrightarrow> trim_terminal_output m s = s)
   \<and> (length s > m \<and> NL \<in> set (butlast (py_last m s)) \<longrightarrow>
        (\<exists>pre. s = pre @ NL # trim_terminal_output m s))"
proof -
  have "\<exists>pre. s = pre @ NL # trim_terminal_output m s" if "length s > m" "NL \<in> set (butlast (py_last m s))"
  proof -
    let ?t = "py_last m s"
    from that(2) obtain a b where ab: "butlast ?t = a @ NL # b" "NL \<notin> set a" by (metis split_list_first)
    from that(2) have "?t = butlast ?t @ [last ?t]" by (cases "?t = []") simp_all
    with ab have t: "?t = a @ NL # (b @ [last ?t])" by simp
    have "dropWhile (\<lambda>c. c \<noteq> NL) ?t = NL # (b @ [last ?t])"
      by (subst t, subst dropWhile_append2) (use ab(2) in auto)
    then have "after_newline ?t = Some (b @ [last ?t])" by (simp add: after_newline_def)
    with that(1) have "trim_terminal_output m s = b @ [last ?t]" by (simp add: trim_terminal_output_def)
    with t py_last_suffix [of m s] show ?thesis by (metis append.assoc suffix_def)
  qed
  then show ?thesis using trim_suffix trim_length trim_id by blast
qed

theorem trim_keeps_a_bounded_suffix_witness:
  "trim_terminal_output 5 (''ab'' @ [NL] @ ''cd'' @ [NL] @ ''xy'') = ''xy''"
  using trim_keeps_a_bounded_suffix [of 5 "''ab'' @ [NL] @ ''cd'' @ [NL] @ ''xy''"]
  by (simp add: trim_terminal_output_def after_newline_def py_last_def NL_def)

text \<open>C1. Any sequence of writes, each of which may be refused at any statement or at the commit,
  leaves every terminal with exactly the tail an append-only log would have: the fold of the trimming
  append over the outputs of the writes that completed, in order. The write-behind buffer never
  shows through.\<close>

theorem writes_refine_append_log:
  assumes "world_ok s" and "\<forall>x \<in> set xs. op_legal x" and "has_row s tid"
  shows "shown_tail (run_writes em rl ws xs s) tid
    = foldl append_trim (shown_tail s tid) (landed_writes em rl ws tid xs s)"
  using tail_out.run_content [OF assms] by (simp add: run_writes_run landed_writes_landed)

text \<open>A terminal as the witnesses use it: one row, an emulator that shows what it was fed, and one
  rule that answers a prompt.\<close>

definition demo_row :: trow where
  "demo_row = \<lparr>t_id = ''t'', t_session = ''s'', t_agent = ''a'', t_env = ''e'', t_bridge = ''b'',
     t_output = ''old'', t_status = ''running'', t_output_seq = 3, t_output_at = [], t_updated_at = [],
     t_stopped_at = None, t_cols = 80, t_rows = 24\<rparr>"

definition demo_db :: tdb where
  "demo_db = \<lparr>d_rows = [(''t'', demo_row)], d_sessions = [], d_events = [], d_controls = [], d_policy = []\<rparr>"

definition demo_mem :: tmem where
  "demo_mem = \<lparr>m_bufs = [], m_screens = [], m_answered = [], m_counts = [], m_interval = None, m_expired = []\<rparr>"

definition demo_emu :: emu where
  "demo_emu = \<lparr>have_pyte = True, accepts = (\<lambda>_. True), screen_text = (\<lambda>_. Some ''Trust this folder?'')\<rparr>"

definition demo_rules :: rules where
  "demo_rules = \<lparr>needs_resume_policy = (\<lambda>_. False),
     answer_for_screen = (\<lambda>sc _. if sc = ''Trust this folder?'' then Some \<lparr>pa_rule = ''trust'', pa_keys = ''y''\<rparr> else None)\<rparr>"

definition demo_clk :: "int \<Rightarrow> clk" where
  "demo_clk n = \<lparr>k_record = n, k_flush = n, k_updated = ''u'', k_output = ''o'', k_stopped = ''x'',
     k_session = ''v'', k_control = ''c'', k_control_id = ''ctl''\<rparr>"

definition demo_op :: "fault option \<Rightarrow> int \<Rightarrow> string \<Rightarrow> string \<Rightarrow> bool \<Rightarrow> wop" where
  "demo_op fl n out st settle = \<lparr>op_fault = fl, op_clk = demo_clk n, op_tid = ''t'', op_output = out,
     op_status = st, op_seq = Some n, op_settle = settle\<rparr>"

lemmas demo_defs = demo_row_def demo_db_def demo_mem_def demo_emu_def demo_rules_def demo_clk_def demo_op_def

lemmas write_defs =
  write_op_def write_terminal_output_def append_terminal_output_def hold_tail_def tail_buffer_defs
  update_row_def set_row_def mirror_session_def effective_seq_def rolled_back_def answer_console_prompt_def
  feed_live_screen_def screen_for_feed_def clamp_grid_def live_screen_text_def drop_live_screen_def
  should_answer_def open_answered_def append_terminal_event_def append_terminal_control_def new_control_def
  trim_terminal_output_def terminal_status_transition_def interval_def

lemma demo_world_ok: "world_ok (demo_db, demo_mem)"
  by (simp add: world_ok_def rows_ok_def tails_ok_def demo_defs terminal_status_sets TERMINAL_OUTPUT_MAX_def)

lemma demo_has_row: "has_row (demo_db, demo_mem) ''t''"
  by (simp add: has_row_def demo_defs)

theorem writes_refine_append_log_witness:
  "shown_tail (run_writes demo_emu demo_rules True
      [demo_op None 5 ''A'' [] False, demo_op (Some FCommit) 6 ''B'' [] False, demo_op None 7 ''C'' [] False]
      (demo_db, demo_mem)) ''t''
   = foldl append_trim ''old'' (landed_writes demo_emu demo_rules True ''t''
      [demo_op None 5 ''A'' [] False, demo_op (Some FCommit) 6 ''B'' [] False, demo_op None 7 ''C'' [] False]
      (demo_db, demo_mem))"
proof -
  have legal: "\<forall>x \<in> set [demo_op None 5 ''A'' [] False, demo_op (Some FCommit) 6 ''B'' [] False,
      demo_op None 7 ''C'' [] False]. op_legal x"
    by (simp add: op_legal_def settle_shape_def demo_op_def)
  have "shown_tail (demo_db, demo_mem) ''t'' = ''old''"
    by (simp add: shown_tail_def true_tail_def current_tail_def demo_defs)
  with writes_refine_append_log [OF demo_world_ok legal demo_has_row, of demo_emu demo_rules True]
  show ?thesis by simp
qed

text \<open>C35. A write that raises, wherever it raises, leaves the database and every held tail exactly
  as they were, drops the terminal's live screen so that it is rebuilt from the log, and publishes
  nothing.\<close>

theorem raised_write_rolls_back:
  assumes "write_terminal_output em rl fl ck ws tid output status sq settle db mem = (True, db', mem', fr)"
    and "rows_ok db"
  shows "db' = db \<and> fr = [] \<and> dget (m_bufs mem') = dget (m_bufs mem)
    \<and> dget (m_screens mem') = (dget (m_screens mem))(tid := None)"
  using write_raised [OF assms] by blast

theorem raised_write_rolls_back_witness:
  "\<exists>mem'. write_terminal_output demo_emu demo_rules (Some FCommit) (demo_clk 5) True ''t'' ''A'' [] (Some 5) False
     demo_db demo_mem = (True, demo_db, mem', []) \<and> dget (m_bufs mem') = dget (m_bufs demo_mem)"
proof -
  obtain r db' mem' fr where w: "write_terminal_output demo_emu demo_rules (Some FCommit) (demo_clk 5) True
      ''t'' ''A'' [] (Some 5) False demo_db demo_mem = (r, db', mem', fr)" by (metis prod.exhaust)
  moreover have "r"
    using w by (auto simp: write_terminal_output_def demo_defs Let_def split: prod.splits if_splits)
  moreover have "rows_ok demo_db" using demo_world_ok by (simp add: world_ok_def)
  ultimately show ?thesis using raised_write_rolls_back [of demo_emu demo_rules "Some FCommit"] by auto
qed

text \<open>Retrying a refused write is writing it once: after a write that raised, the same write
  without the fault stores the same rows, holds the same tails and publishes the same frame as if the
  refused attempt had never been made.\<close>

theorem retry_is_first_write:
  assumes "write_terminal_output em rl fl ck ws tid output status sq settle db mem = (True, db1, mem1, fr1)"
    and "write_terminal_output em rl None ck2 ws tid output status sq settle db1 mem1 = (r2, db2, mem2, fr2)"
    and "write_terminal_output em rl None ck2 ws tid output status sq settle db mem = (r3, db3, mem3, fr3)"
    and rows: "rows_ok db" and shape: "settle_shape settle output status"
  shows "\<not> r2 \<and> d_rows db2 = d_rows db3 \<and> fr2 = fr3 \<and> dget (m_bufs mem2) = dget (m_bufs mem3)"
proof -
  note undone = write_raised [OF assms(1) rows]
  have r: "\<not> r2" "\<not> r3" using write_no_fault assms(2,3) by blast+
  with assms(2,3) undone have "write_terminal_output em rl None ck2 ws tid output status sq settle db mem1 = (False, db2, mem2, fr2)"
    "write_terminal_output em rl None ck2 ws tid output status sq settle db mem = (False, db3, mem3, fr3)"
    by simp_all
  from write_same [OF this undone(3) undone(5) rows shape] r show ?thesis by simp
qed

theorem retry_is_first_write_witness:
  "let w1 = write_terminal_output demo_emu demo_rules (Some FCommit) (demo_clk 5) True ''t'' ''A'' [] (Some 5) False
              demo_db demo_mem;
       w2 = write_terminal_output demo_emu demo_rules None (demo_clk 6) True ''t'' ''A'' [] (Some 5) False
              (fst (snd w1)) (fst (snd (snd w1)));
       w3 = write_terminal_output demo_emu demo_rules None (demo_clk 6) True ''t'' ''A'' [] (Some 5) False
              demo_db demo_mem
   in fst w1 \<and> \<not> fst w2 \<and> d_rows (fst (snd w2)) = d_rows (fst (snd w3))"
proof -
  let ?w = "write_terminal_output demo_emu demo_rules"
  obtain r db1 mem1 fr where w1: "?w (Some FCommit) (demo_clk 5) True ''t'' ''A'' [] (Some 5) False demo_db demo_mem
      = (r, db1, mem1, fr)" by (metis prod.exhaust)
  have r: "r" using w1 by (auto simp: write_terminal_output_def demo_defs Let_def split: prod.splits if_splits)
  obtain r2 db2 mem2 fr2 where w2: "?w None (demo_clk 6) True ''t'' ''A'' [] (Some 5) False db1 mem1
      = (r2, db2, mem2, fr2)" by (metis prod.exhaust)
  obtain r3 db3 mem3 fr3 where w3: "?w None (demo_clk 6) True ''t'' ''A'' [] (Some 5) False demo_db demo_mem
      = (r3, db3, mem3, fr3)" by (metis prod.exhaust)
  have "rows_ok demo_db" using demo_world_ok by (simp add: world_ok_def)
  with retry_is_first_write [OF _ w2 w3, of "Some FCommit" "demo_clk 5" fr] w1 r
  have "\<not> r2 \<and> d_rows db2 = d_rows db3" by (simp add: settle_shape_def)
  with w1 w2 w3 r show ?thesis by (simp add: Let_def)
qed

text \<open>Status is monotone: once a terminal row is in a stopping or ended status, no sequence of
  writes (reordered heartbeats, late output, failed writes included) brings it back to an active
  one.\<close>

theorem ended_terminal_stays_ended:
  assumes "world_ok s" and "\<forall>x \<in> set xs. op_legal x" and "has_row s tid"
    and "stored_status s tid \<in> set TERMINAL_MONOTONIC_STATUSES"
  shows "stored_status (run_writes em rl ws xs s) tid \<in> set TERMINAL_MONOTONIC_STATUSES"
  using assms
proof (induction xs arbitrary: s)
  case Nil
  then show ?case by simp
next
  case (Cons x xs)
  then have legal: "op_legal x" by simp
  let ?s = "fst (snd (write_op em rl ws x s))"
  have "stored_status ?s tid \<in> set TERMINAL_MONOTONIC_STATUSES"
    using Cons.prems(4) by (simp add: write_op_status [OF Cons.prems(1) legal Cons.prems(3)] status_after_monotonic)
  with write_op_keeps [OF Cons.prems(1) legal, of em rl ws] Cons.prems Cons.IH [of ?s] show ?case by simp
qed

theorem ended_terminal_stays_ended_witness:
  "stored_status (run_writes demo_emu demo_rules True [demo_op None 6 ''late'' ''running'' False]
     (demo_db\<lparr>d_rows := [(''t'', demo_row\<lparr>t_status := ''stopped''\<rparr>)]\<rparr>, demo_mem)) ''t''
   \<in> set TERMINAL_MONOTONIC_STATUSES"
  by (rule ended_terminal_stays_ended)
    (simp_all add: world_ok_def rows_ok_def tails_ok_def has_row_def stored_status_def op_legal_def
       settle_shape_def demo_defs terminal_status_sets TERMINAL_OUTPUT_MAX_def)

text \<open>A write that ends the terminal, and a settle of a held tail, bring the row level with the
  stream: the row stores the very tail readers were served, under the number of the write, and
  nothing is left pending. An ending write also drops the buffer and stamps \<open>stopped_at\<close>,
  keeping an earlier stamp.\<close>

theorem ending_and_settling_write_the_tail:
  assumes w: "write_terminal_output em rl fl ck ws tid output status sq settle db mem = (False, db', mem', fr)"
    and row: "dget (d_rows db) tid = Some row" and rows: "rows_ok db" and shape: "settle_shape settle output status"
    and force: "(settle \<and> pending (m_bufs mem) tid \<noteq> None)
      \<or> (status \<noteq> [] \<and> terminal_status_transition (t_status row) status \<in> set TERMINAL_END_STATUSES)"
  shows "\<exists>row'. dget (d_rows db') tid = Some row' \<and> pending (m_bufs mem') tid = None
    \<and> t_output row' = true_tail db' mem' tid \<and> t_output_seq row' = effective_seq sq row
    \<and> t_output row' = trim_terminal_output TERMINAL_OUTPUT_MAX (true_tail db mem tid @ output)
    \<and> (terminal_status_transition (t_status row) status \<in> set TERMINAL_END_STATUSES \<longrightarrow>
         dget (m_bufs mem') tid = None
         \<and> t_stopped_at row' = Some (case t_stopped_at row of None \<Rightarrow> k_stopped ck | Some z \<Rightarrow> z))"
proof -
  from rows row have tid: "tid \<noteq> []" by (auto dest: rows_okD)
  from w row rows shape show ?thesis
  proof (cases rule: write_ok_effect)
    case idle
    with force show ?thesis by (auto simp: nothing_to_do_def)
  next
    case (wrote wt nx ns)
    let ?ends = "ns \<in> set TERMINAL_END_STATUSES"
    have fd: "?ends \<or> settle" using force wrote(3) by auto
    have wt: "wt" using hold_tail_due [OF tid wrote(4)] fd by (auto simp: hold_due_def)
    note held = hold_tail_held [OF tid wrote(4)]
    have st: "t_stopped_at (update_row ck wt nx (Some (effective_seq sq row)) (t_status row) ns row)
        = Some (case t_stopped_at row of None \<Rightarrow> k_stopped ck | Some z \<Rightarrow> z)" if ?ends
      using that by (simp add: update_row_def Let_def split: option.splits)
    have "pending (m_bufs mem') tid = None" "current_tail (m_bufs mem') tid nx = nx"
      using held wt by (auto simp: pending_def current_tail_def split: if_splits)
    with wrote wt held st show ?thesis
      by (simp add: update_row_tail true_tail_def)
  qed
qed

theorem ending_and_settling_write_the_tail_witness:
  "\<exists>row'. dget (d_rows (fst (snd (write_terminal_output demo_emu demo_rules None (demo_clk 5) True ''t'' ''bye''
      ''stopped'' (Some 9) False demo_db demo_mem)))) ''t'' = Some row' \<and> t_output_seq row' = 9"
proof -
  obtain r db' mem' fr where w: "write_terminal_output demo_emu demo_rules None (demo_clk 5) True ''t'' ''bye''
      ''stopped'' (Some 9) False demo_db demo_mem = (r, db', mem', fr)" by (metis prod.exhaust)
  have r: "\<not> r" using write_no_fault w by blast
  have row: "dget (d_rows demo_db) ''t'' = Some demo_row" by (simp add: demo_db_def)
  have "rows_ok demo_db" using demo_world_ok by (simp add: world_ok_def)
  with ending_and_settling_write_the_tail [of demo_emu demo_rules None "demo_clk 5" True _ _ _ "Some 9" False, OF _ row] w r
  have "\<exists>row'. dget (d_rows db') ''t'' = Some row' \<and> t_output_seq row' = effective_seq (Some 9) demo_row"
    by (fastforce simp: settle_shape_def terminal_status_transition_def demo_row_def py_string_defs terminal_status_sets)
  with w show ?thesis by (simp add: effective_seq_def)
qed

lemmas demo_eval = write_defs demo_defs Let_def ESC_def TERMINAL_OUTPUT_MAX_def py_last_def py_string_defs
  MAX_LIVE_SCREENS_def MAX_ANSWERED_TERMINALS_def TERMINAL_EVENT_PRUNE_EVERY_def TAIL_FLUSH_INTERVAL_def
  terminal_status_sets

definition demo_paint :: "fault option \<Rightarrow> tmem \<Rightarrow> bool \<times> tdb \<times> tmem \<times> frame list" where
  "demo_paint fl mem = write_terminal_output demo_emu demo_rules fl (demo_clk 5) True ''t''
     ([ESC] @ ''[2J'') [] (Some 5) False demo_db mem"

lemma demo_paint_refused:
  "demo_paint (Some FCommit) demo_mem = (True, demo_db, demo_mem\<lparr>m_answered := [(''t'', [''trust''])],
     m_counts := [(''t'', 1)], m_expired := [''a'']\<rparr>, [])"
  by (simp add: demo_paint_def demo_eval)

lemma demo_paint_first:
  "fst (demo_paint None demo_mem) = False
   \<and> map tc_body (d_controls (fst (snd (demo_paint None demo_mem)))) = [''y'']"
  by (simp add: demo_paint_def demo_eval)

lemma demo_paint_retry:
  "fst (demo_paint None (demo_mem\<lparr>m_answered := [(''t'', [''trust''])], m_counts := [(''t'', 1)], m_expired := [''a'']\<rparr>)) = False
   \<and> d_controls (fst (snd (demo_paint None (demo_mem\<lparr>m_answered := [(''t'', [''trust''])],
       m_counts := [(''t'', 1)], m_expired := [''a'']\<rparr>)))) = []"
  by (simp add: demo_paint_def demo_eval)

text \<open>The answer to a console prompt does not survive a refused write: the guard that answers each
  prompt once is set before the control row is inserted and is not undone with the transaction, so
  after a refused commit the successful retry of the same output (\<open>w2\<close>) inserts no control, although
  the same output written without the refusal (\<open>w3\<close>) does.\<close>

theorem refused_commit_loses_prompt_answer:
  "let wr = (\<lambda>fl. write_terminal_output demo_emu demo_rules fl (demo_clk 5) True ''t'' ([ESC] @ ''[2J'') [] (Some 5) False);
       w1 = wr (Some FCommit) demo_db demo_mem;
       w2 = wr None (fst (snd w1)) (fst (snd (snd w1)));
       w3 = wr None demo_db demo_mem
   in fst w1 \<and> \<not> fst w2 \<and> d_controls (fst (snd w2)) = [] \<and> \<not> fst w3
      \<and> map tc_body (d_controls (fst (snd w3))) = [''y'']"
  using demo_paint_refused demo_paint_first demo_paint_retry
  unfolding demo_paint_def Let_def by simp

end
