(* ===== verification/WriteQueue.thy ===== *)
theory WriteQueue
  imports TerminalOutput
begin

text \<open>
  The terminal-output write queue (\<open>service/terminal_write_queue.py\<close>).

  One queue per process. A post joins the pending batch of its terminal (\<open>enqueue\<close>); a timer, or
  a reader that wants the row current, pops the batch (\<open>flush_pop\<close>); the popped batch waits for
  the write lock, which is granted in order of arrival, and is then written (\<open>finish_drain\<close>); what
  a refused write did not store is handed back (\<open>requeue_front\<close>).

  Interleaving. Every section under \<open>_lock\<close> runs without awaiting, so it is one step. A drain
  holds \<open>_write_lock\<close> to its end and touches nothing a section under \<open>_lock\<close> touches before
  it hands batches back, so it is one step, taken at its end. \<open>q_flight\<close> is the queue of tasks at
  the write lock. Timers are the terminals they are armed for; time is left to the step relation.

  \<open>h_posted\<close> and \<open>h_written\<close> record what was posted and what a drain wrote; no operation reads
  them.
\<close>

subsection \<open>State\<close>

record pst =
  p_retry :: "(string \<times> int) list"
  p_chunks :: "string list"
  p_chars :: int
  p_status :: string
  p_dropped :: nat
  p_last_seq :: int
  p_armed :: bool

record qcfg =
  idle_flush :: int
  max_latency :: int
  max_batch_chars :: int
  max_pending_chars :: int

type_synonym batch = "string \<times> string \<times> int"

record flight =
  fl_tid :: string
  fl_state :: pst
  fl_tracked :: bool

record wq =
  q_pending :: "pst dict"
  q_floor :: "int dict"
  q_idle :: "string list"
  q_max :: "string list"
  q_soon :: "string list"
  q_settle :: "string list"
  q_tasks :: "string list"
  q_flight :: "flight list"
  q_world :: "tdb \<times> tmem"
  q_frames :: "frame list"
  h_posted :: "(string \<times> string) list"
  h_written :: "(string \<times> batch) list"

text \<open>Milliseconds; the constructor clamps what it is given.\<close>

definition queue_config :: "int \<Rightarrow> int \<Rightarrow> int \<Rightarrow> int \<Rightarrow> qcfg" where
  "queue_config idle_ms latency_ms batch_chars pending_chars =
     (let idle = max 1 idle_ms; bat = max 1024 batch_chars in
      \<lparr>idle_flush = idle, max_latency = max idle latency_ms, max_batch_chars = bat,
       max_pending_chars = max bat pending_chars\<rparr>)"

definition default_config :: qcfg where
  "default_config = queue_config 4 24 (16 * 1024) (256 * 1024)"

definition empty_queue :: "tdb \<times> tmem \<Rightarrow> wq" where
  "empty_queue w = \<lparr>q_pending = [], q_floor = [], q_idle = [], q_max = [], q_soon = [], q_settle = [],
     q_tasks = [], q_flight = [], q_world = w, q_frames = [], h_posted = [], h_written = []\<rparr>"

definition new_pending_state :: "int \<Rightarrow> pst" where
  "new_pending_state last_seq = \<lparr>p_retry = [], p_chunks = [], p_chars = 0, p_status = [], p_dropped = 0,
     p_last_seq = last_seq, p_armed = False\<rparr>"

subsection \<open>Posting\<close>

fun bound_pending_chunks :: "int \<Rightarrow> string list \<Rightarrow> int \<Rightarrow> nat \<Rightarrow> string list \<times> int \<times> nat" where
  "bound_pending_chunks m [] chars dropped = ([], chars, dropped)"
| "bound_pending_chunks m (c # cs) chars dropped =
     (if chars > m then bound_pending_chunks m cs (chars - int (length c)) (dropped + length c)
      else (c # cs, chars, dropped))"

definition bound_pending :: "qcfg \<Rightarrow> pst \<Rightarrow> pst" where
  "bound_pending cfg st =
     (let (cs, n, d) = bound_pending_chunks (max_pending_chars cfg) (p_chunks st) (p_chars st) (p_dropped st) in
      st\<lparr>p_chunks := cs, p_chars := n, p_dropped := d\<rparr>)"

definition arm :: "string \<Rightarrow> string list \<Rightarrow> string list" where
  "arm tid handles = removeAll tid handles @ [tid]"

definition floor_of :: "wq \<Rightarrow> string \<Rightarrow> int" where
  "floor_of q tid = (case dget (q_floor q) tid of None \<Rightarrow> 0 | Some n \<Rightarrow> n)"

text \<open>The batch a post joins, its number claimed when it has none: above the number the caller read
  and above every number issued before for this terminal.\<close>

definition open_batch :: "string \<Rightarrow> int \<Rightarrow> bool \<Rightarrow> wq \<Rightarrow> pst \<times> wq" where
  "open_batch tid base_seq autoschedule q =
     (let st = (case dget (q_pending q) tid of None \<Rightarrow> new_pending_state 0 | Some s \<Rightarrow> s) in
      if p_last_seq st = 0
      then (let seq_start = max base_seq (floor_of q tid) + 1 in
            (st\<lparr>p_last_seq := seq_start\<rparr>,
             q\<lparr>q_floor := dput tid seq_start (q_floor q),
               q_max := (if autoschedule then arm tid (q_max q) else q_max q)\<rparr>))
      else (st, q))"

text \<open>The batch with the chunk of a post added, oldest chunks dropped past the backlog bound.\<close>

definition grown :: "qcfg \<Rightarrow> string \<Rightarrow> pst \<Rightarrow> pst" where
  "grown cfg chunk st = (if chunk = [] then st
     else bound_pending cfg (st\<lparr>p_chunks := p_chunks st @ [chunk], p_chars := p_chars st + int (length chunk)\<rparr>))"

definition enqueue :: "qcfg \<Rightarrow> string \<Rightarrow> string \<Rightarrow> string \<Rightarrow> int \<Rightarrow> bool \<Rightarrow> wq \<Rightarrow> int \<times> wq" where
  "enqueue cfg tid chunk status base_seq autoschedule q =
     (let terminal_status = py_strip status in
      if tid = [] \<or> (chunk = [] \<and> terminal_status = []) then (0, q)
      else (let (st0, q1) = open_batch tid base_seq autoschedule q;
                st1 = grown cfg chunk st0;
                st2 = (if terminal_status = [] then st1 else st1\<lparr>p_status := terminal_status\<rparr>);
                q2 = q1\<lparr>h_posted := h_posted q1 @ [(tid, chunk)]\<rparr>;
                flush_now = (p_chars st2 \<ge> max_batch_chars cfg \<or> terminal_status \<in> {''stopped'', ''failed''});
                st3 = (if autoschedule \<and> flush_now then st2\<lparr>p_armed := True\<rparr> else st2);
                q3 = q2\<lparr>q_pending := dput tid st3 (q_pending q2)\<rparr> in
            (p_last_seq st3,
             if \<not> autoschedule then q3
             else if flush_now
             then (if p_armed st2 then q3 else q3\<lparr>q_soon := q_soon q3 @ [tid]\<rparr>)
             else q3\<lparr>q_idle := arm tid (q_idle q3)\<rparr>)))"

subsection \<open>Popping a batch\<close>

text \<open>The section of \<open>flush_terminal\<close> under the lock: the batch leaves \<open>_pending\<close>, its timers
  are cancelled, and its task queues up for the write lock.\<close>

definition flush_pop :: "bool \<Rightarrow> string \<Rightarrow> wq \<Rightarrow> wq" where
  "flush_pop tracked tid q =
     (let q1 = q\<lparr>q_pending := ddel tid (q_pending q), q_idle := removeAll tid (q_idle q),
                q_max := removeAll tid (q_max q)\<rparr> in
      case dget (q_pending q) tid of
        None \<Rightarrow> (if tracked then q1\<lparr>q_tasks := removeAll tid (q_tasks q1)\<rparr> else q1)
      | Some st \<Rightarrow> q1\<lparr>q_flight := q_flight q1 @ [\<lparr>fl_tid = tid, fl_state = st, fl_tracked = tracked\<rparr>]\<rparr>)"

text \<open>The three timers that flush: the idle one and the latency one, which are cancelled by the flush,
  and the callbacks of a full batch or a failed flush, which are not.\<close>

datatype timer = Idle_Timer | Max_Timer | Soon_Timer

definition armed :: "timer \<Rightarrow> wq \<Rightarrow> string list" where
  "armed t q = (case t of Idle_Timer \<Rightarrow> q_idle q | Max_Timer \<Rightarrow> q_max q | Soon_Timer \<Rightarrow> q_soon q)"

text \<open>A timer creates a task and tracks it, replacing whatever was tracked for the terminal.\<close>

definition timer_flush :: "timer \<Rightarrow> string \<Rightarrow> wq \<Rightarrow> wq" where
  "timer_flush t tid q = flush_pop True tid
     (q\<lparr>q_soon := (if t = Soon_Timer then remove1 tid (q_soon q) else q_soon q),
        q_tasks := arm tid (q_tasks q)\<rparr>)"

text \<open>A reader's flush waits for a tracked task when there is one and pops nothing itself.\<close>

definition reader_flush :: "string \<Rightarrow> wq \<Rightarrow> wq" where
  "reader_flush tid q = (if tid \<in> set (q_tasks q) then q else flush_pop False tid q)"

subsection \<open>Writing a popped batch\<close>

datatype attempt = NoConnection | NoRead | Attempt "fault option" clk

text \<open>One call of \<open>_write_terminal_output\<close>: no connection to be had, a refused SELECT, or the
  transaction of \<open>write_terminal_output\<close>.\<close>

definition attempt_write ::
  "emu \<Rightarrow> rules \<Rightarrow> bool \<Rightarrow> attempt \<Rightarrow> string \<Rightarrow> string \<Rightarrow> string \<Rightarrow> int option \<Rightarrow> bool \<Rightarrow>
   tdb \<times> tmem \<Rightarrow> bool \<times> (tdb \<times> tmem) \<times> frame list" where
  "attempt_write em rl ws att tid output status sq settle w =
     (case att of
        NoConnection \<Rightarrow> (True, w, [])
      | NoRead \<Rightarrow> (True, (fst w, rolled_back tid (snapshot (m_bufs (snd w)) tid) (snd w)), [])
      | Attempt fl ck \<Rightarrow> write_op em rl ws \<lparr>op_fault = fl, op_clk = ck, op_tid = tid, op_output = output,
          op_status = status, op_seq = sq, op_settle = settle\<rparr> w)"

definition dropped_notice :: "nat \<Rightarrow> string" where
  "dropped_notice n = (if n = 0 then []
     else ''[aify-comms dropped '' @ nat_str n @ '' chars from terminal output backlog]'' @ [NL])"

definition batches_of :: "pst \<Rightarrow> batch list" where
  "batches_of st = map (\<lambda>(txt, n). (txt, [], n)) (p_retry st)
     @ [(dropped_notice (p_dropped st) @ concat (p_chunks st), p_status st, p_last_seq st)]"

record dres =
  r_raised :: bool
  r_world :: "tdb \<times> tmem"
  r_frames :: "frame list"
  r_done :: "batch list"
  r_back :: "batch list"

text \<open>The loop over the batches of one drain. \<open>orc i\<close> is what meets the write of the \<open>i\<close>-th
  batch. A write that raises ends the loop and hands back its batch and every later one.\<close>

fun drain_batches ::
  "emu \<Rightarrow> rules \<Rightarrow> bool \<Rightarrow> (nat \<Rightarrow> attempt) \<Rightarrow> nat \<Rightarrow> string \<Rightarrow> batch list \<Rightarrow> tdb \<times> tmem \<Rightarrow> dres" where
  "drain_batches em rl ws orc i tid [] w =
     \<lparr>r_raised = False, r_world = w, r_frames = [], r_done = [], r_back = []\<rparr>"
| "drain_batches em rl ws orc i tid ((txt, st, n) # bs) w =
     (if txt = [] \<and> st = [] then drain_batches em rl ws orc (Suc i) tid bs w
      else (let (raised, w', fr) = attempt_write em rl ws (orc i) tid txt st (Some n) False w in
            if raised
            then \<lparr>r_raised = True, r_world = w', r_frames = [], r_done = [], r_back = (txt, st, n) # bs\<rparr>
            else (let d = drain_batches em rl ws orc (Suc i) tid bs w' in
                  d\<lparr>r_frames := fr @ r_frames d, r_done := (txt, st, n) # r_done d\<rparr>)))"

definition MAX_RETRY_BATCHES :: nat where "MAX_RETRY_BATCHES = 32"

definition bound_retry :: "pst \<Rightarrow> pst" where
  "bound_retry st =
     (let over = length (p_retry st) - MAX_RETRY_BATCHES in
      st\<lparr>p_retry := drop over (p_retry st),
        p_dropped := p_dropped st + sum_list (map (\<lambda>b. length (fst b)) (take over (p_retry st)))\<rparr>)"

text \<open>\<open>next((status for ... in reversed(batches) if status), "")\<close>.\<close>

definition last_status :: "batch list \<Rightarrow> string" where
  "last_status bs = (case filter (\<lambda>(_, st, _). st \<noteq> []) (rev bs) of [] \<Rightarrow> [] | (_, st, _) # _ \<Rightarrow> st)"

definition requeue_front :: "string \<Rightarrow> batch list \<Rightarrow> wq \<Rightarrow> wq" where
  "requeue_front tid bs q =
     (let keep = map (\<lambda>(txt, st, n). (txt, n)) (filter (\<lambda>(txt, _, _). txt \<noteq> []) bs);
          status = last_status bs in
      if keep = [] \<and> status = [] then q
      else (let st0 = (case dget (q_pending q) tid of None \<Rightarrow> new_pending_state 0 | Some s \<Rightarrow> s);
                st1 = bound_retry (st0\<lparr>p_retry := keep @ p_retry st0\<rparr>);
                st2 = (if status = [] then st1 else st1\<lparr>p_status := status\<rparr>) in
            q\<lparr>q_pending := dput tid st2 (q_pending q)\<rparr>))"

definition schedule_settle :: "string \<Rightarrow> wq \<Rightarrow> wq" where
  "schedule_settle tid q = (if pending (m_bufs (snd (q_world q))) tid = None then q
     else q\<lparr>q_settle := arm tid (q_settle q)\<rparr>)"

text \<open>The done-callback of a tracked task.\<close>

definition on_flush_done :: "bool \<Rightarrow> string \<Rightarrow> wq \<Rightarrow> wq" where
  "on_flush_done raised tid q =
     (let q1 = q\<lparr>q_tasks := removeAll tid (q_tasks q)\<rparr> in
      if raised \<and> dget (q_pending q1) tid \<noteq> None then q1\<lparr>q_soon := q_soon q1 @ [tid]\<rparr> else q1)"

text \<open>The task at the head of the write lock writes its batch, and is done.\<close>

definition finish_drain :: "emu \<Rightarrow> rules \<Rightarrow> bool \<Rightarrow> (nat \<Rightarrow> attempt) \<Rightarrow> wq \<Rightarrow> bool \<times> wq" where
  "finish_drain em rl ws orc q = (case q_flight q of
     [] \<Rightarrow> (False, q)
   | f # fs \<Rightarrow>
       (let tid = fl_tid f;
            d = drain_batches em rl ws orc 0 tid (batches_of (fl_state f)) (q_world q);
            q1 = q\<lparr>q_flight := fs, q_world := r_world d, q_frames := q_frames q @ r_frames d,
                   h_written := h_written q @ map (Pair tid) (r_done d)\<rparr>;
            q2 = (if r_raised d then requeue_front tid (r_back d) q1 else schedule_settle tid q1) in
        (r_raised d, if fl_tracked f then on_flush_done (r_raised d) tid q2 else q2)))"

subsection \<open>Settling a quiet terminal\<close>

definition settle_terminal_tail :: "emu \<Rightarrow> rules \<Rightarrow> bool \<Rightarrow> attempt \<Rightarrow> string \<Rightarrow> wq \<Rightarrow> wq" where
  "settle_terminal_tail em rl ws att tid q =
     (case pending (m_bufs (snd (q_world q))) tid of
        None \<Rightarrow> q
      | Some (_, held_seq) \<Rightarrow>
          (let (_, w', fr) = attempt_write em rl ws att tid [] [] held_seq True (q_world q) in
           q\<lparr>q_world := w', q_frames := q_frames q @ fr\<rparr>))"

definition settle_from_timer :: "emu \<Rightarrow> rules \<Rightarrow> bool \<Rightarrow> attempt \<Rightarrow> string \<Rightarrow> wq \<Rightarrow> wq" where
  "settle_from_timer em rl ws att tid q =
     settle_terminal_tail em rl ws att tid (q\<lparr>q_settle := removeAll tid (q_settle q)\<rparr>)"

text \<open>Appending in the caller's own transaction: the row is read again under the write lock, and no
  number goes with the bytes.\<close>

definition append_outside_the_queue ::
  "emu \<Rightarrow> rules \<Rightarrow> fault option \<Rightarrow> clk \<Rightarrow> string \<Rightarrow> string \<Rightarrow> string \<Rightarrow> trow \<Rightarrow> tdb \<times> tmem \<Rightarrow>
   bool \<times> tdb \<times> tmem" where
  "append_outside_the_queue em rl fl ck tid output status fallback w =
     append_terminal_output em rl fl ck
       (case dget (d_rows (fst w)) tid of Some r \<Rightarrow> r | None \<Rightarrow> fallback) output status None False (fst w) (snd w)"

subsection \<open>Draining everything\<close>

text \<open>\<open>flush_all\<close> with no other task running: flush each pending terminal and look again. The
  fuel bounds the rounds. \<open>Inl q\<close> is the exception of a refused write.\<close>

fun flush_each :: "emu \<Rightarrow> rules \<Rightarrow> bool \<Rightarrow> (nat \<Rightarrow> attempt) \<Rightarrow> string list \<Rightarrow> wq \<Rightarrow> wq + wq" where
  "flush_each em rl ws orc [] q = Inr q"
| "flush_each em rl ws orc (tid # tids) q =
     (let q1 = reader_flush tid q in
      if length (q_flight q1) = length (q_flight q) then flush_each em rl ws orc tids q1
      else (let (raised, q2) = finish_drain em rl ws orc q1 in
            if raised then Inl q2 else flush_each em rl ws orc tids q2))"

fun flush_all :: "emu \<Rightarrow> rules \<Rightarrow> bool \<Rightarrow> (nat \<Rightarrow> attempt) \<Rightarrow> nat \<Rightarrow> wq \<Rightarrow> (wq + wq) option" where
  "flush_all em rl ws orc 0 q = None"
| "flush_all em rl ws orc (Suc n) q =
     (if q_pending q \<noteq> []
      then (case flush_each em rl ws orc (map fst (q_pending q)) q of
              Inl q' \<Rightarrow> Some (Inl q') | Inr q' \<Rightarrow> flush_all em rl ws orc n q')
      else if q_flight q = [] then Some (Inr q) else flush_all em rl ws orc n q)"

text \<open>Running out of rounds is running out of time.\<close>

definition drain_terminal_output_writes ::
  "emu \<Rightarrow> rules \<Rightarrow> bool \<Rightarrow> (nat \<Rightarrow> attempt) \<Rightarrow> nat \<Rightarrow> wq \<Rightarrow> bool" where
  "drain_terminal_output_writes em rl ws orc n q =
     (case flush_all em rl ws orc n q of Some (Inr _) \<Rightarrow> True | _ \<Rightarrow> False)"

subsection \<open>What each operation does to the state\<close>

definition pending_or_new :: "wq \<Rightarrow> string \<Rightarrow> pst" where
  "pending_or_new q tid = (case dget (q_pending q) tid of None \<Rightarrow> new_pending_state 0 | Some s \<Rightarrow> s)"

lemma new_pending_state_simps [simp]:
  "p_retry (new_pending_state n) = []" "p_chunks (new_pending_state n) = []" "p_chars (new_pending_state n) = 0"
  "p_status (new_pending_state n) = []" "p_dropped (new_pending_state n) = 0" "p_last_seq (new_pending_state n) = n"
  by (simp_all add: new_pending_state_def)

text \<open>The number a post is answered with.\<close>

definition claimed_seq :: "wq \<Rightarrow> string \<Rightarrow> int \<Rightarrow> int" where
  "claimed_seq q tid base = (let n = p_last_seq (pending_or_new q tid) in
     if n = 0 then max base (floor_of q tid) + 1 else n)"

lemma bound_pending_keeps [simp]:
  "p_retry (bound_pending cfg st) = p_retry st" "p_last_seq (bound_pending cfg st) = p_last_seq st"
  "p_status (bound_pending cfg st) = p_status st" "p_armed (bound_pending cfg st) = p_armed st"
  by (simp_all add: bound_pending_def Let_def split: prod.splits)

lemma bound_pending_update [simp]:
  "p_chunks (bound_pending cfg (st\<lparr>p_last_seq := n\<rparr>)) = p_chunks (bound_pending cfg st)"
  "p_chars (bound_pending cfg (st\<lparr>p_last_seq := n\<rparr>)) = p_chars (bound_pending cfg st)"
  "p_dropped (bound_pending cfg (st\<lparr>p_last_seq := n\<rparr>)) = p_dropped (bound_pending cfg st)"
  by (simp_all add: bound_pending_def Let_def split: prod.splits)

lemma enqueue_effect:
  assumes e: "enqueue cfg tid chunk status base au q = (n, q')"
    and live: "tid \<noteq> []" "chunk \<noteq> [] \<or> py_strip status \<noteq> []"
  obtains st where "dget (q_pending q') = (dget (q_pending q))(tid \<mapsto> st)"
    "p_retry st = p_retry (pending_or_new q tid)" "p_last_seq st = claimed_seq q tid base" "n = p_last_seq st"
    "p_chunks st = p_chunks (grown cfg chunk (pending_or_new q tid))"
    "p_chars st = p_chars (grown cfg chunk (pending_or_new q tid))"
    "p_dropped st = p_dropped (grown cfg chunk (pending_or_new q tid))"
    "\<And>k. floor_of q' k = (if k = tid \<and> p_last_seq (pending_or_new q tid) = 0
        then max base (floor_of q tid) + 1 else floor_of q k)"
    "q_flight q' = q_flight q" "q_world q' = q_world q" "h_written q' = h_written q" "q_frames q' = q_frames q"
    "h_posted q' = h_posted q @ [(tid, chunk)]" "q_tasks q' = q_tasks q" "q_settle q' = q_settle q"
proof -
  obtain st0 q1 where o1: "open_batch tid base au q = (st0, q1)" by fastforce
  have st0: "p_retry st0 = p_retry (pending_or_new q tid)" "p_last_seq st0 = claimed_seq q tid base"
    "p_chunks st0 = p_chunks (pending_or_new q tid)" "p_chars st0 = p_chars (pending_or_new q tid)"
    "p_dropped st0 = p_dropped (pending_or_new q tid)"
    using o1 unfolding open_batch_def pending_or_new_def [symmetric] claimed_seq_def
    by (auto simp: Let_def split: if_splits)
  have g: "p_chunks (grown cfg chunk st0) = p_chunks (grown cfg chunk (pending_or_new q tid))"
    "p_chars (grown cfg chunk st0) = p_chars (grown cfg chunk (pending_or_new q tid))"
    "p_dropped (grown cfg chunk st0) = p_dropped (grown cfg chunk (pending_or_new q tid))"
    "p_retry (grown cfg chunk st0) = p_retry st0" "p_last_seq (grown cfg chunk st0) = p_last_seq st0"
    using st0 by (simp_all add: grown_def bound_pending_def Let_def split: prod.splits)
  have q1: "q_pending q1 = q_pending q" "q_flight q1 = q_flight q" "q_world q1 = q_world q"
    "h_written q1 = h_written q" "q_frames q1 = q_frames q" "h_posted q1 = h_posted q" "q_tasks q1 = q_tasks q"
    "q_settle q1 = q_settle q"
    "\<And>k. floor_of q1 k = (if k = tid \<and> p_last_seq (pending_or_new q tid) = 0
        then max base (floor_of q tid) + 1 else floor_of q k)"
    using o1 unfolding open_batch_def pending_or_new_def [symmetric]
    by (auto simp: Let_def floor_of_def split: if_splits)
  have fl: "floor_of (q1\<lparr>h_posted := a, q_pending := b\<rparr>) k = floor_of q1 k"
    "floor_of (q1\<lparr>h_posted := a, q_pending := b, q_soon := c\<rparr>) k = floor_of q1 k"
    "floor_of (q1\<lparr>h_posted := a, q_pending := b, q_idle := c\<rparr>) k = floor_of q1 k" for a b c k
    by (simp_all add: floor_of_def)
  have guard: "\<not> (tid = [] \<or> chunk = [] \<and> py_strip status = [])" using live by blast
  define ts where "ts = py_strip status"
  define st2 where "st2 = (if ts = [] then grown cfg chunk st0 else grown cfg chunk st0\<lparr>p_status := ts\<rparr>)"
  define fn where "fn = (p_chars st2 \<ge> max_batch_chars cfg \<or> ts \<in> {''stopped'', ''failed''})"
  define st3 where "st3 = (if au \<and> fn then st2\<lparr>p_armed := True\<rparr> else st2)"
  let ?q3 = "q1\<lparr>h_posted := h_posted q1 @ [(tid, chunk)], q_pending := dput tid st3 (q_pending q1)\<rparr>"
  have "enqueue cfg tid chunk status base au q = (p_last_seq st3,
      if \<not> au then ?q3 else if fn then (if p_armed st2 then ?q3 else ?q3\<lparr>q_soon := q_soon ?q3 @ [tid]\<rparr>)
      else ?q3\<lparr>q_idle := arm tid (q_idle ?q3)\<rparr>)"
    unfolding enqueue_def o1 Let_def st3_def fn_def st2_def ts_def if_not_P [OF guard] by simp
  with e have n: "n = p_last_seq st3" and cases: "q' = ?q3 \<or> q' = ?q3\<lparr>q_soon := q_soon ?q3 @ [tid]\<rparr>
      \<or> q' = ?q3\<lparr>q_idle := arm tid (q_idle ?q3)\<rparr>"
    by (auto split: if_splits)
  have st3: "p_retry st3 = p_retry st0" "p_last_seq st3 = p_last_seq st0"
    "p_chunks st3 = p_chunks (grown cfg chunk (pending_or_new q tid))"
    "p_chars st3 = p_chars (grown cfg chunk (pending_or_new q tid))"
    "p_dropped st3 = p_dropped (grown cfg chunk (pending_or_new q tid))"
    using g by (simp_all add: st3_def st2_def)
  show thesis
    by (rule that [of st3]) (use cases n st3 st0 q1 fl in auto)
qed

lemma enqueue_ignored:
  "tid = [] \<or> (chunk = [] \<and> py_strip status = []) \<Longrightarrow> enqueue cfg tid chunk status base au q = (0, q)"
  by (auto simp: enqueue_def)

lemma requeue_front_keeps [simp]:
  "q_floor (requeue_front tid bs q) = q_floor q" "q_flight (requeue_front tid bs q) = q_flight q"
  "q_world (requeue_front tid bs q) = q_world q" "h_written (requeue_front tid bs q) = h_written q"
  "h_posted (requeue_front tid bs q) = h_posted q" "q_tasks (requeue_front tid bs q) = q_tasks q"
  "q_soon (requeue_front tid bs q) = q_soon q" "q_idle (requeue_front tid bs q) = q_idle q"
  "q_max (requeue_front tid bs q) = q_max q"
  by (simp_all add: requeue_front_def Let_def)

lemma schedule_settle_keeps [simp]:
  "q_floor (schedule_settle tid q) = q_floor q" "q_flight (schedule_settle tid q) = q_flight q"
  "q_world (schedule_settle tid q) = q_world q" "h_written (schedule_settle tid q) = h_written q"
  "h_posted (schedule_settle tid q) = h_posted q" "q_pending (schedule_settle tid q) = q_pending q"
  "q_soon (schedule_settle tid q) = q_soon q" "q_idle (schedule_settle tid q) = q_idle q"
  "q_max (schedule_settle tid q) = q_max q"
  by (simp_all add: schedule_settle_def)

lemma on_flush_done_keeps [simp]:
  "q_floor (on_flush_done r tid q) = q_floor q" "q_flight (on_flush_done r tid q) = q_flight q"
  "q_world (on_flush_done r tid q) = q_world q" "h_written (on_flush_done r tid q) = h_written q"
  "h_posted (on_flush_done r tid q) = h_posted q" "q_pending (on_flush_done r tid q) = q_pending q"
  "q_idle (on_flush_done r tid q) = q_idle q" "q_max (on_flush_done r tid q) = q_max q"
  by (simp_all add: on_flush_done_def Let_def)

lemma requeue_front_pending:
  "q_pending (requeue_front tid bs (q\<lparr>q_flight := a, q_world := b, q_frames := c, h_written := d\<rparr>))
     = q_pending (requeue_front tid bs q)"
  by (simp add: requeue_front_def Let_def)

lemma finish_drain_effect:
  assumes "q_flight q = f # fs" and "d = drain_batches em rl ws orc 0 (fl_tid f) (batches_of (fl_state f)) (q_world q)"
    and "finish_drain em rl ws orc q = (r, q')"
  shows "r = r_raised d" "q_floor q' = q_floor q" "q_flight q' = fs" "h_posted q' = h_posted q"
    "h_written q' = h_written q @ map (Pair (fl_tid f)) (r_done d)" "q_world q' = r_world d"
    "q_pending q' = (if r_raised d then q_pending (requeue_front (fl_tid f) (r_back d) q) else q_pending q)"
    "q_idle q' = q_idle q" "q_max q' = q_max q"
  using assms by (auto simp: finish_drain_def Let_def requeue_front_pending)

lemma finish_drain_idle: "q_flight q = [] \<Longrightarrow> finish_drain em rl ws orc q = (False, q)"
  by (simp add: finish_drain_def)

lemma flush_pop_effect:
  "q_floor (flush_pop tr tid q) = q_floor q" "h_posted (flush_pop tr tid q) = h_posted q"
  "h_written (flush_pop tr tid q) = h_written q" "q_world (flush_pop tr tid q) = q_world q"
  "dget (q_pending (flush_pop tr tid q)) = (dget (q_pending q))(tid := None)"
  "q_flight (flush_pop tr tid q) = q_flight q @ (case dget (q_pending q) tid of None \<Rightarrow> []
     | Some st \<Rightarrow> [\<lparr>fl_tid = tid, fl_state = st, fl_tracked = tr\<rparr>])"
  by (auto simp: flush_pop_def Let_def split: option.splits)

text \<open>What a drain wrote and what it hands back are the batches it was given, in order, less the
  empty ones it skips.\<close>

definition nonempty_batch :: "batch \<Rightarrow> bool" where
  "nonempty_batch b = (fst b \<noteq> [] \<or> fst (snd b) \<noteq> [])"

lemma drain_batches_split:
  "r_done (drain_batches em rl ws orc i tid bs w) @ filter nonempty_batch (r_back (drain_batches em rl ws orc i tid bs w))
     = filter nonempty_batch bs
   \<and> (r_raised (drain_batches em rl ws orc i tid bs w) = (r_back (drain_batches em rl ws orc i tid bs w) \<noteq> []))"
  by (induction em rl ws orc i tid bs w rule: drain_batches.induct)
    (auto simp: nonempty_batch_def Let_def split: prod.splits)

lemma drain_no_fault:
  assumes "\<And>j. \<exists>ck. orc j = Attempt None ck"
  shows "\<not> r_raised (drain_batches em rl ws orc i tid bs w)"
  using assms
proof (induction em rl ws orc i tid bs w rule: drain_batches.induct)
  case (1 em rl ws orc i tid w)
  then show ?case by simp
next
  case (2 em rl ws orc i tid body sta n bs w)
  obtain ck where ck: "orc i = Attempt None ck" using 2(3) by blast
  obtain r w' fr where a: "attempt_write em rl ws (orc i) tid body sta (Some n) False w = (r, w', fr)"
    by (metis prod.exhaust)
  have "\<not> r"
    using a by (auto simp: attempt_write_def ck write_op_def split: prod.splits dest: write_no_fault)
  with 2 a show ?case by (simp add: Let_def)
qed

subsection \<open>Bounds and numbers\<close>

definition state_ok :: "qcfg \<Rightarrow> int \<Rightarrow> pst \<Rightarrow> bool" where
  "state_ok cfg hi st =
     (p_chars st = int (length (concat (p_chunks st))) \<and> p_chars st \<le> max_pending_chars cfg
      \<and> length (p_retry st) \<le> MAX_RETRY_BATCHES \<and> 0 \<le> p_last_seq st \<and> p_last_seq st \<le> hi
      \<and> (\<forall>b \<in> set (p_retry st). snd b \<le> hi))"

definition queue_ok :: "qcfg \<Rightarrow> wq \<Rightarrow> bool" where
  "queue_ok cfg q =
     ((\<forall>tid. 0 \<le> floor_of q tid)
      \<and> (\<forall>tid st. dget (q_pending q) tid = Some st \<longrightarrow> state_ok cfg (floor_of q tid) st)
      \<and> (\<forall>f \<in> set (q_flight q). state_ok cfg (floor_of q (fl_tid f)) (fl_state f)))"

inductive qstep :: "emu \<Rightarrow> rules \<Rightarrow> bool \<Rightarrow> qcfg \<Rightarrow> wq \<Rightarrow> wq \<Rightarrow> bool" for em rl ws cfg where
  post: "qstep em rl ws cfg q (snd (enqueue cfg tid chunk status base au q))"
| timer: "tid \<in> set (armed t q) \<Longrightarrow> qstep em rl ws cfg q (timer_flush t tid q)"
| reader: "qstep em rl ws cfg q (reader_flush tid q)"
| drain: "q_flight q \<noteq> [] \<Longrightarrow> qstep em rl ws cfg q (snd (finish_drain em rl ws orc q))"
| settle: "tid \<in> set (q_settle q) \<Longrightarrow> qstep em rl ws cfg q (settle_from_timer em rl ws att tid q)"

lemma bound_pending_chunks_ok:
  assumes "bound_pending_chunks m cs n d = (cs', n', d')" and "n = int (length (concat cs))" and "0 \<le> m"
  shows "n' = int (length (concat cs')) \<and> n' \<le> m"
  using assms
  by (induction m cs n d rule: bound_pending_chunks.induct) (auto split: if_splits)

lemma grown_ok:
  assumes "p_chars st = int (length (concat (p_chunks st)))" "p_chars st \<le> max_pending_chars cfg"
    "0 \<le> max_pending_chars cfg"
  shows "p_chars (grown cfg chunk st) = int (length (concat (p_chunks (grown cfg chunk st))))
    \<and> p_chars (grown cfg chunk st) \<le> max_pending_chars cfg"
  using assms bound_pending_chunks_ok [of "max_pending_chars cfg" "p_chunks st @ [chunk]"
      "p_chars st + int (length chunk)" "p_dropped st"]
  by (auto simp: grown_def bound_pending_def Let_def split: prod.splits)

lemma new_state_ok: "0 \<le> hi \<Longrightarrow> 0 \<le> max_pending_chars cfg \<Longrightarrow> state_ok cfg hi (new_pending_state 0)"
  by (simp add: state_ok_def)

lemma state_ok_mono: "state_ok cfg hi st \<Longrightarrow> hi \<le> hi2 \<Longrightarrow> state_ok cfg hi2 st"
  by (fastforce simp: state_ok_def)

lemma pending_or_new_ok:
  "queue_ok cfg q \<Longrightarrow> 0 \<le> max_pending_chars cfg \<Longrightarrow> state_ok cfg (floor_of q tid) (pending_or_new q tid)"
  by (simp add: pending_or_new_def queue_ok_def new_state_ok split: option.splits)

lemma queue_ok_enqueue:
  assumes ok: "queue_ok cfg q" and cfg: "0 \<le> max_pending_chars cfg"
  shows "queue_ok cfg (snd (enqueue cfg tid chunk status base au q))"
proof (cases "tid = [] \<or> chunk = [] \<and> py_strip status = []")
  case True
  with ok show ?thesis by (simp add: enqueue_ignored)
next
  case False
  obtain n q' where e: "enqueue cfg tid chunk status base au q = (n, q')" by fastforce
  note old = pending_or_new_ok [OF ok cfg, of tid]
  have fl: "0 \<le> floor_of q tid" using ok by (simp add: queue_ok_def)
  from e show ?thesis
  proof (rule enqueue_effect)
    show "tid \<noteq> []" "chunk \<noteq> [] \<or> py_strip status \<noteq> []" using False by blast+
    fix st
    assume eff: "dget (q_pending q') = (dget (q_pending q))(tid \<mapsto> st)" "p_retry st = p_retry (pending_or_new q tid)"
      "p_last_seq st = claimed_seq q tid base" "p_chunks st = p_chunks (grown cfg chunk (pending_or_new q tid))"
      "p_chars st = p_chars (grown cfg chunk (pending_or_new q tid))" "q_flight q' = q_flight q"
      and floor: "\<And>k. floor_of q' k = (if k = tid \<and> p_last_seq (pending_or_new q tid) = 0
        then max base (floor_of q tid) + 1 else floor_of q k)"
    have up: "floor_of q k \<le> floor_of q' k" for k by (simp add: floor max_def)
    have "claimed_seq q tid base \<le> floor_of q' tid \<and> 0 \<le> claimed_seq q tid base"
      using old fl by (auto simp: claimed_seq_def Let_def floor state_ok_def)
    then have new: "state_ok cfg (floor_of q' tid) st"
      using old up [of tid] eff grown_ok [of "pending_or_new q tid" cfg chunk] cfg
      by (fastforce simp: state_ok_def)
    have "state_ok cfg (floor_of q' k) s" if "state_ok cfg (floor_of q k) s" for k s
      using that up state_ok_mono by blast
    with ok new up eff show ?thesis
      unfolding e queue_ok_def by (auto intro: order_trans [OF _ up])
  qed
qed

lemma requeue_front_ok:
  assumes ok: "queue_ok cfg q" and cfg: "0 \<le> max_pending_chars cfg"
    and bs: "\<forall>b \<in> set bs. snd (snd b) \<le> floor_of q tid"
  shows "\<forall>k st. dget (q_pending (requeue_front tid bs q)) k = Some st \<longrightarrow> state_ok cfg (floor_of q k) st"
proof -
  let ?keep = "map (\<lambda>(txt, st, n). (txt, n)) (filter (\<lambda>(txt, _, _). txt \<noteq> []) bs)"
  have keep: "snd b \<le> floor_of q tid" if "b \<in> set ?keep" for b using that bs by auto
  have "state_ok cfg (floor_of q tid) (bound_retry (st\<lparr>p_retry := ?keep @ p_retry st\<rparr>))"
    if "state_ok cfg (floor_of q tid) st" for st
    using that keep by (auto simp: state_ok_def bound_retry_def Let_def dest!: in_set_dropD)
  then have "state_ok cfg (floor_of q tid) (bound_retry (pending_or_new q tid\<lparr>p_retry := ?keep @ p_retry (pending_or_new q tid)\<rparr>))"
    using pending_or_new_ok [OF ok cfg] by blast
  moreover have "state_ok cfg t (s\<lparr>p_status := x\<rparr>) = state_ok cfg t s" for t s x by (simp add: state_ok_def)
  ultimately show ?thesis
    using ok by (auto simp: requeue_front_def Let_def pending_or_new_def [symmetric] queue_ok_def)
qed

lemma batches_of_top:
  "state_ok cfg hi st \<Longrightarrow> \<forall>b \<in> set (batches_of st). snd (snd b) \<le> hi"
  by (auto simp: batches_of_def state_ok_def)

lemma r_back_subset: "set (r_back (drain_batches em rl ws orc i tid bs w)) \<subseteq> set bs"
proof (induction bs arbitrary: i w)
  case Nil
  then show ?case by simp
next
  case (Cons b bs)
  obtain x y n where b: "b = (x, y, n)" by (cases b)
  obtain r w' fr where a: "attempt_write em rl ws (orc i) tid x y (Some n) False w = (r, w', fr)"
    by (metis prod.exhaust)
  show ?case using Cons [of "Suc i" w] Cons [of "Suc i" w'] a by (auto simp: b Let_def)
qed

lemma queue_ok_drain:
  assumes ok: "queue_ok cfg q" and cfg: "0 \<le> max_pending_chars cfg"
  shows "queue_ok cfg (snd (finish_drain em rl ws orc q))"
proof (cases "q_flight q")
  case Nil
  with ok show ?thesis by (simp add: finish_drain_idle)
next
  case (Cons f fs)
  define d where "d = drain_batches em rl ws orc 0 (fl_tid f) (batches_of (fl_state f)) (q_world q)"
  obtain r q' where e: "finish_drain em rl ws orc q = (r, q')" by fastforce
  note eff = finish_drain_effect [OF Cons d_def e]
  have floor: "floor_of q' k = floor_of q k" for k by (simp add: floor_of_def eff)
  have "state_ok cfg (floor_of q (fl_tid f)) (fl_state f)" using ok Cons by (simp add: queue_ok_def)
  then have "\<forall>b \<in> set (r_back d). snd (snd b) \<le> floor_of q (fl_tid f)"
    using batches_of_top r_back_subset [of em rl ws orc 0 "fl_tid f"] by (fastforce simp: d_def)
  then have "\<forall>k st. dget (q_pending q') k = Some st \<longrightarrow> state_ok cfg (floor_of q k) st"
    using requeue_front_ok [OF ok cfg] ok eff(7) by (simp add: queue_ok_def)
  with ok Cons eff floor e show ?thesis by (simp add: queue_ok_def)
qed

lemma queue_ok_pop:
  assumes "queue_ok cfg q" shows "queue_ok cfg (flush_pop tr tid q)"
proof -
  have "floor_of (flush_pop tr tid q) k = floor_of q k" for k by (simp add: floor_of_def flush_pop_effect)
  with assms show ?thesis
    by (auto simp: queue_ok_def flush_pop_effect split: option.splits if_splits)
qed

lemma queue_ok_irrelevant:
  "queue_ok cfg q \<Longrightarrow> q_pending q' = q_pending q \<Longrightarrow> q_floor q' = q_floor q \<Longrightarrow> q_flight q' = q_flight q \<Longrightarrow>
     queue_ok cfg q'"
  by (simp add: queue_ok_def floor_of_def)

lemma settle_keeps:
  "q_pending (settle_from_timer em rl ws att tid q) = q_pending q"
  "q_floor (settle_from_timer em rl ws att tid q) = q_floor q"
  "q_flight (settle_from_timer em rl ws att tid q) = q_flight q"
  "h_written (settle_from_timer em rl ws att tid q) = h_written q"
  "h_posted (settle_from_timer em rl ws att tid q) = h_posted q"
  "q_idle (settle_from_timer em rl ws att tid q) = q_idle q"
  "q_max (settle_from_timer em rl ws att tid q) = q_max q"
  "q_soon (settle_from_timer em rl ws att tid q) = q_soon q"
  by (auto simp: settle_from_timer_def settle_terminal_tail_def split: option.splits prod.splits)

lemma queue_ok_step:
  assumes ok: "queue_ok cfg q" and cfg: "0 \<le> max_pending_chars cfg" and step: "qstep em rl ws cfg q q'"
  shows "queue_ok cfg q'"
  using step
proof cases
  case (timer tid t)
  show ?thesis unfolding timer timer_flush_def
    by (rule queue_ok_pop, rule queue_ok_irrelevant [OF ok]) simp_all
next
  case (reader tid)
  then show ?thesis using ok queue_ok_pop by (simp add: reader_flush_def)
next
  case (settle tid att)
  then show ?thesis using queue_ok_irrelevant [OF ok] settle_keeps by metis
qed (use ok cfg queue_ok_enqueue queue_ok_drain in auto)

text \<open>The bounds as an invariant of the queue, for the bound the constructor sets.\<close>

interpretation bounded_queue: invariant_system "\<lambda>q. \<exists>w. q = empty_queue w"
  "qstep em rl ws (queue_config a b c e)" "queue_ok (queue_config a b c e)"
proof unfold_locales
  fix q
  assume "\<exists>w. q = empty_queue w"
  then show "queue_ok (queue_config a b c e) q" by (auto simp: queue_ok_def empty_queue_def floor_of_def)
next
  fix q q'
  assume "queue_ok (queue_config a b c e) q" "qstep em rl ws (queue_config a b c e) q q'"
  moreover have "0 \<le> max_pending_chars (queue_config a b c e)" by (simp add: queue_config_def Let_def)
  ultimately show "queue_ok (queue_config a b c e) q'" using queue_ok_step by blast
qed

end
