(* ===== verification/QueueOrder.thy ===== *)
theory QueueOrder
  imports WriteQueue "HOL-Library.Multiset"
begin

text \<open>
  The sequence numbers and the order of the write queue. \<open>numbers tid q\<close> lists the numbers of one
  terminal's batches from the oldest written to the pending one, \<open>stream tid q\<close> the bytes they
  carry. In every run a number names one batch; in a run where no drain fails while a newer batch of
  its terminal is already popped, numbers go out in increasing order and bytes in the order they were
  posted.
\<close>

definition state_nums :: "pst \<Rightarrow> int list" where
  "state_nums st = map snd (p_retry st) @ [p_last_seq st]"

definition written_nums :: "string \<Rightarrow> wq \<Rightarrow> int list" where
  "written_nums tid q = map (\<lambda>x. snd (snd (snd x))) (filter (\<lambda>x. fst x = tid) (h_written q))"

definition flight_nums :: "string \<Rightarrow> flight list \<Rightarrow> int list" where
  "flight_nums tid fs = concat (map (\<lambda>f. state_nums (fl_state f)) (filter (\<lambda>f. fl_tid f = tid) fs))"

definition pending_nums :: "string \<Rightarrow> pst dict \<Rightarrow> int list" where
  "pending_nums tid ps = (case dget ps tid of None \<Rightarrow> [] | Some st \<Rightarrow> state_nums st)"

definition nz :: "int list \<Rightarrow> int list" where
  "nz ns = filter (\<lambda>n. n \<noteq> 0) ns"

text \<open>The numbers that were issued; 0 stands for a batch that has none.\<close>

definition numbers :: "string \<Rightarrow> wq \<Rightarrow> int list" where
  "numbers tid q = nz (written_nums tid q @ flight_nums tid (q_flight q) @ pending_nums tid (q_pending q))"

definition numbers_below_floor :: "wq \<Rightarrow> bool" where
  "numbers_below_floor q = (\<forall>tid. \<forall>n \<in> set (numbers tid q). n \<le> floor_of q tid)"

definition numbers_unique :: "wq \<Rightarrow> bool" where
  "numbers_unique q = (numbers_below_floor q \<and> (\<forall>tid. 0 \<le> floor_of q tid \<and> distinct (numbers tid q)))"

definition numbers_ordered :: "wq \<Rightarrow> bool" where
  "numbers_ordered q = (numbers_below_floor q \<and> (\<forall>tid. 0 \<le> floor_of q tid \<and> sorted_wrt (<) (numbers tid q)))"

subsection \<open>The numbers after each operation\<close>

lemma nz_append [simp]: "nz (xs @ ys) = nz xs @ nz ys" by (simp add: nz_def)

lemma nz_Nil [simp]: "nz [] = []" by (simp add: nz_def)

lemma subseq_nz: "subseq xs ys \<Longrightarrow> subseq (nz xs) (nz ys)" by (simp add: nz_def)

lemma numbers_cong:
  "h_written q' = h_written q \<Longrightarrow> q_flight q' = q_flight q \<Longrightarrow> dget (q_pending q') = dget (q_pending q) \<Longrightarrow>
     numbers tid q' = numbers tid q"
  by (simp add: numbers_def written_nums_def pending_nums_def)

lemma numbers_pop: "numbers k (flush_pop tr tid q) = numbers k q"
  by (auto simp: numbers_def written_nums_def flight_nums_def pending_nums_def flush_pop_effect
      split: option.splits)

lemma numbers_enqueue:
  assumes e: "enqueue cfg tid chunk status base au q = (n, q')"
    and live: "tid \<noteq> []" "chunk \<noteq> [] \<or> py_strip status \<noteq> []" and fl: "\<forall>k. 0 \<le> floor_of q k"
  shows "numbers k q' = numbers k q @ (if k = tid \<and> p_last_seq (pending_or_new q tid) = 0 then [n] else [])"
    "p_last_seq (pending_or_new q tid) = 0 \<Longrightarrow> n = floor_of q' tid \<and> floor_of q tid < n \<and> base < n"
    "floor_of q k \<le> floor_of q' k"
proof -
  have "(numbers k q' = numbers k q @ (if k = tid \<and> p_last_seq (pending_or_new q tid) = 0 then [n] else []))
    \<and> (p_last_seq (pending_or_new q tid) = 0 \<longrightarrow> n = floor_of q' tid \<and> floor_of q tid < n \<and> base < n)
    \<and> floor_of q k \<le> floor_of q' k"
    using e live
  proof (rule enqueue_effect)
    fix st
    assume eff: "dget (q_pending q') = (dget (q_pending q))(tid \<mapsto> st)" "p_retry st = p_retry (pending_or_new q tid)"
      "p_last_seq st = claimed_seq q tid base" "n = p_last_seq st" "q_flight q' = q_flight q" "h_written q' = h_written q"
      and floor: "\<And>k. floor_of q' k = (if k = tid \<and> p_last_seq (pending_or_new q tid) = 0
        then max base (floor_of q tid) + 1 else floor_of q k)"
    have "max base (floor_of q tid) + 1 \<noteq> 0" using fl [rule_format, of tid] by linarith
    with eff have "nz (pending_nums k (q_pending q')) = nz (pending_nums k (q_pending q))
        @ (if k = tid \<and> p_last_seq (pending_or_new q tid) = 0 then [n] else [])"
      by (auto simp: pending_nums_def pending_or_new_def state_nums_def nz_def claimed_seq_def Let_def
          split: option.splits)
    with eff floor show ?thesis
      by (auto simp: numbers_def written_nums_def claimed_seq_def Let_def max_def)
  qed
  then show "numbers k q' = numbers k q @ (if k = tid \<and> p_last_seq (pending_or_new q tid) = 0 then [n] else [])"
    "p_last_seq (pending_or_new q tid) = 0 \<Longrightarrow> n = floor_of q' tid \<and> floor_of q tid < n \<and> base < n"
    "floor_of q k \<le> floor_of q' k"
    by blast+
qed

lemma batches_of_nums: "map (\<lambda>b. snd (snd b)) (batches_of st) = state_nums st"
  by (simp add: batches_of_def state_nums_def case_prod_unfold o_def)

lemma state_nums_bound_retry:
  "state_nums (bound_retry (st\<lparr>p_retry := xs\<rparr>))
     = map snd (drop (length xs - MAX_RETRY_BATCHES) xs) @ [p_last_seq st]"
  by (simp add: state_nums_def bound_retry_def Let_def)

lemma requeue_nums:
  "subseq (nz (pending_nums tid (q_pending (requeue_front tid bs q))))
     (nz (map (\<lambda>b. snd (snd b)) (filter nonempty_batch bs) @ pending_nums tid (q_pending q)))"
proof -
  let ?num = "\<lambda>b :: batch. snd (snd b)"
  let ?keep = "map (\<lambda>(txt, st, n). (txt, n)) (filter (\<lambda>(txt, _, _). txt \<noteq> []) bs)"
  let ?st = "pending_or_new q tid"
  have keep: "subseq (map snd ?keep) (map ?num (filter nonempty_batch bs))"
    by (induction bs) (auto simp: nonempty_batch_def case_prod_unfold)
  have old: "nz (pending_nums tid (q_pending q)) = nz (map snd (p_retry ?st) @ [p_last_seq ?st])"
    by (simp add: pending_nums_def pending_or_new_def state_nums_def nz_def split: option.splits)
  have sub: "subseq (map snd (drop k (?keep @ p_retry ?st)) @ [p_last_seq ?st])
      (map ?num (filter nonempty_batch bs) @ map snd (p_retry ?st) @ [p_last_seq ?st])" for k
  proof -
    have "subseq (map snd (drop k (?keep @ p_retry ?st))) (map snd (?keep @ p_retry ?st))"
      by (intro subseq_map suffix_imp_subseq suffix_drop)
    moreover have "subseq (map snd (?keep @ p_retry ?st)) (map ?num (filter nonempty_batch bs) @ map snd (p_retry ?st))"
      using keep by (simp add: list_emb_append_mono)
    ultimately have "subseq (map snd (drop k (?keep @ p_retry ?st)))
        (map ?num (filter nonempty_batch bs) @ map snd (p_retry ?st))"
      by (rule subseq_order.trans)
    from list_emb_append_mono [OF this subseq_order.refl [of "[p_last_seq ?st]"]] show ?thesis by simp
  qed
  have "subseq (nz (state_nums (bound_retry (?st\<lparr>p_retry := ?keep @ p_retry ?st\<rparr>))))
      (nz (map ?num (filter nonempty_batch bs) @ map snd (p_retry ?st) @ [p_last_seq ?st]))"
    unfolding state_nums_bound_retry by (rule subseq_nz [OF sub])
  moreover have "state_nums (s\<lparr>p_status := x\<rparr>) = state_nums s" for s x by (simp add: state_nums_def)
  ultimately show ?thesis
    by (auto simp: requeue_front_def Let_def pending_or_new_def [symmetric] old
        pending_nums_def [where ps = "dput _ _ _"])
qed

text \<open>A drain: the numbers of the popped batch move to what was written and, after a failure, to the
  front of what is pending; numbers may be lost, none appears.\<close>

lemma numbers_drain:
  assumes fl: "q_flight q = f # fs" and e: "finish_drain em rl ws orc q = (r, q')"
  shows "k \<noteq> fl_tid f \<Longrightarrow> numbers k q' = numbers k q"
    "\<exists>done_ns back_ns pend. subseq (done_ns @ back_ns) (nz (state_nums (fl_state f)))
      \<and> subseq pend (back_ns @ nz (pending_nums (fl_tid f) (q_pending q)))
      \<and> (\<not> r \<longrightarrow> pend = nz (pending_nums (fl_tid f) (q_pending q)))
      \<and> numbers (fl_tid f) q' = nz (written_nums (fl_tid f) q) @ done_ns @ nz (flight_nums (fl_tid f) fs) @ pend"
proof -
  define d where "d = drain_batches em rl ws orc 0 (fl_tid f) (batches_of (fl_state f)) (q_world q)"
  note eff = finish_drain_effect [OF fl d_def e]
  let ?num = "\<lambda>b :: batch. snd (snd b)"
  have other: "dget (q_pending (requeue_front tid bs q)) k = dget (q_pending q) k" if "k \<noteq> tid" for tid bs
    using that by (simp add: requeue_front_def Let_def)
  show "numbers k q' = numbers k q" if "k \<noteq> fl_tid f"
    using that eff other fl
    by (simp add: numbers_def written_nums_def flight_nums_def pending_nums_def filter_map o_def)
  let ?wrote = "nz (map ?num (r_done d))" and ?handed = "nz (map ?num (filter nonempty_batch (r_back d)))"
  have "?wrote @ ?handed = nz (map ?num (filter nonempty_batch (batches_of (fl_state f))))"
    using drain_batches_split [of em rl ws orc 0 "fl_tid f" "batches_of (fl_state f)" "q_world q"]
    by (metis d_def map_append nz_append)
  also have "subseq \<dots> (nz (state_nums (fl_state f)))"
    by (metis batches_of_nums subseq_filter_left subseq_map subseq_nz)
  finally have moved: "subseq (?wrote @ ?handed) (nz (state_nums (fl_state f)))" .
  have pend: "subseq (nz (pending_nums (fl_tid f) (q_pending q'))) (?handed @ nz (pending_nums (fl_tid f) (q_pending q)))"
    using requeue_nums [of "fl_tid f" "r_back d" q] eff(7) by (auto intro: subseq_drop_many)
  have "numbers (fl_tid f) q' = nz (written_nums (fl_tid f) q) @ ?wrote @ nz (flight_nums (fl_tid f) fs)
      @ nz (pending_nums (fl_tid f) (q_pending q'))"
    by (simp add: numbers_def written_nums_def eff filter_map o_def)
  moreover have "\<not> r \<longrightarrow> nz (pending_nums (fl_tid f) (q_pending q')) = nz (pending_nums (fl_tid f) (q_pending q))"
    by (simp add: eff)
  ultimately show "\<exists>done_ns back_ns pend. subseq (done_ns @ back_ns) (nz (state_nums (fl_state f)))
      \<and> subseq pend (back_ns @ nz (pending_nums (fl_tid f) (q_pending q)))
      \<and> (\<not> r \<longrightarrow> pend = nz (pending_nums (fl_tid f) (q_pending q)))
      \<and> numbers (fl_tid f) q' = nz (written_nums (fl_tid f) q) @ done_ns @ nz (flight_nums (fl_tid f) fs) @ pend"
    using moved pend by blast
qed

subsection \<open>A number names one batch\<close>

lemma subseq_mset: "subseq xs ys \<Longrightarrow> mset xs \<subseteq># mset ys"
proof (induction rule: list_emb.induct)
  case (list_emb_Cons xs ys y)
  then show ?case by (simp add: subset_mset.order_trans)
qed simp_all

lemma subseq_set: "subseq xs ys \<Longrightarrow> set xs \<subseteq> set ys"
  using set_mset_mono [OF subseq_mset] by fastforce

lemma distinct_submset:
  assumes "mset xs \<subseteq># mset ys" and "distinct ys"
  shows "distinct xs"
proof -
  have "count (mset xs) a \<le> 1" for a
    using mset_subset_eq_count [OF assms(1), of a] assms(2)
    by (metis distinct_count_atmost_1 le_trans order_refl zero_le_one)
  moreover have "count (mset xs) a > 0" if "a \<in> set xs" for a using that by (simp add: count_greater_zero_iff)
  ultimately show ?thesis
    unfolding distinct_count_atmost_1 by (metis One_nat_def Suc_leI count_mset_0_iff le_antisym)
qed

lemma numbers_drain_mset:
  assumes "finish_drain em rl ws orc q = (r, q')"
  shows "mset (numbers k q') \<subseteq># mset (numbers k q)"
proof (cases "q_flight q")
  case Nil
  with assms show ?thesis by (simp add: finish_drain_idle)
next
  case (Cons f fs)
  show ?thesis
  proof (cases "k = fl_tid f")
    case False
    with numbers_drain(1) [OF Cons assms] show ?thesis by simp
  next
    case True
    from numbers_drain(2) [OF Cons assms] obtain a b p where
      ab: "subseq (a @ b) (nz (state_nums (fl_state f)))" and p: "subseq p (b @ nz (pending_nums k (q_pending q)))"
      and n: "numbers k q' = nz (written_nums k q) @ a @ nz (flight_nums k fs) @ p"
      unfolding True by blast
    have "mset (a @ p) \<subseteq># mset (a @ b @ nz (pending_nums k (q_pending q)))"
      using subseq_mset [OF p] by simp
    also have "\<dots> \<subseteq># mset (nz (state_nums (fl_state f)) @ nz (pending_nums k (q_pending q)))"
      using subseq_mset [OF ab] by (simp add: mset_subset_eq_mono_add)
    finally have ap: "mset (a @ p) \<subseteq># mset (nz (state_nums (fl_state f)) @ nz (pending_nums k (q_pending q)))" .
    have "mset (numbers k q') = mset (nz (written_nums k q)) + mset (nz (flight_nums k fs)) + mset (a @ p)"
      by (simp add: n)
    moreover have "mset (numbers k q) = mset (nz (written_nums k q)) + mset (nz (flight_nums k fs))
        + mset (nz (state_nums (fl_state f)) @ nz (pending_nums k (q_pending q)))"
      by (simp add: numbers_def flight_nums_def Cons True)
    ultimately show ?thesis using ap by simp
  qed
qed

lemma floor_drain: "finish_drain em rl ws orc q = (r, q') \<Longrightarrow> floor_of q' k = floor_of q k"
  by (cases "q_flight q") (auto simp: finish_drain_idle floor_of_def finish_drain_effect(2))

lemma floor_pop [simp]: "floor_of (flush_pop tr tid q) k = floor_of q k"
  by (simp add: floor_of_def flush_pop_effect)

lemma timer_flush_numbers:
  "numbers k (timer_flush t tid q) = numbers k q" "floor_of (timer_flush t tid q) k = floor_of q k"
proof -
  show "numbers k (timer_flush t tid q) = numbers k q"
    unfolding timer_flush_def numbers_pop by (rule numbers_cong) simp_all
  show "floor_of (timer_flush t tid q) k = floor_of q k"
    by (simp add: timer_flush_def floor_of_def flush_pop_effect)
qed

lemma reader_flush_numbers:
  "numbers k (reader_flush tid q) = numbers k q" "floor_of (reader_flush tid q) k = floor_of q k"
  by (simp_all add: reader_flush_def numbers_pop)

lemma settle_numbers:
  "numbers k (settle_from_timer em rl ws att tid q) = numbers k q"
  "floor_of (settle_from_timer em rl ws att tid q) k = floor_of q k"
  by (rule numbers_cong) (simp_all add: settle_keeps floor_of_def)

lemmas quiet_numbers = timer_flush_numbers reader_flush_numbers settle_numbers

text \<open>No step lowers the highest number issued for a terminal.\<close>

lemma floor_step:
  assumes "qstep em rl ws cfg q q'"
  shows "floor_of q k \<le> floor_of q' k"
  using assms
proof cases
  case (post tid chunk status base au)
  obtain n q2 where e: "enqueue cfg tid chunk status base au q = (n, q2)" by fastforce
  show ?thesis
  proof (cases "tid = [] \<or> chunk = [] \<and> py_strip status = []")
    case True
    then show ?thesis by (simp add: post enqueue_ignored)
  next
    case False
    from e show ?thesis
      by (rule enqueue_effect) (use False e post in \<open>auto simp: max_def\<close>)
  qed
next
  case (drain orc)
  then show ?thesis using floor_drain [of em rl ws orc q] by (cases "finish_drain em rl ws orc q") simp
qed (simp_all add: quiet_numbers)

interpretation queue_floor: monotone_system "qstep em rl ws cfg" "\<lambda>q. floor_of q k"
  by unfold_locales (rule floor_step)

lemma numbers_unique_step:
  assumes ok: "numbers_unique q" and step: "qstep em rl ws cfg q q'"
  shows "numbers_unique q'"
  using step
proof cases
  case (post tid chunk status base au)
  show ?thesis
  proof (cases "tid = [] \<or> chunk = [] \<and> py_strip status = []")
    case True
    with ok show ?thesis by (simp add: post enqueue_ignored)
  next
    case False
    obtain n q2 where e: "enqueue cfg tid chunk status base au q = (n, q2)" by fastforce
    have fl: "\<forall>k. 0 \<le> floor_of q k" using ok by (simp add: numbers_unique_def)
    note eff = numbers_enqueue [OF e _ _ fl]
    have below: "m \<le> floor_of q k" if "m \<in> set (numbers k q)" for m k
      using ok that by (simp add: numbers_unique_def numbers_below_floor_def)
    have "0 \<le> floor_of q2 k \<and> distinct (numbers k q2) \<and> (\<forall>m \<in> set (numbers k q2). m \<le> floor_of q2 k)" for k
      using eff(1) [of k] eff(2) eff(3) [of k] below [of _ k] ok fl [rule_format, of k] False
      by (fastforce simp: numbers_unique_def)
    with e post show ?thesis by (simp add: numbers_unique_def numbers_below_floor_def)
  qed
next
  case (drain orc)
  obtain r q2 where e: "finish_drain em rl ws orc q = (r, q2)" by fastforce
  have m: "mset (numbers k q2) \<subseteq># mset (numbers k q)" for k by (rule numbers_drain_mset [OF e])
  have "set (numbers k q2) \<subseteq> set (numbers k q)" for k using set_mset_mono [OF m] by simp
  then show ?thesis
    using ok e drain floor_drain [OF e] distinct_submset [OF m]
    by (fastforce simp: numbers_unique_def numbers_below_floor_def)
qed (use ok in \<open>simp_all add: quiet_numbers numbers_unique_def numbers_below_floor_def\<close>)

interpretation unique_numbers: invariant_system "\<lambda>q. \<exists>w. q = empty_queue w" "qstep em rl ws cfg" numbers_unique
proof unfold_locales
  show "numbers_unique q" if "\<exists>w. q = empty_queue w" for q
    using that by (auto simp: numbers_unique_def numbers_below_floor_def numbers_def written_nums_def
        flight_nums_def pending_nums_def empty_queue_def floor_of_def)
qed (rule numbers_unique_step)

subsection \<open>Bytes and numbers go out in order\<close>

definition state_text :: "pst \<Rightarrow> string" where
  "state_text st = concat (map fst (p_retry st)) @ dropped_notice (p_dropped st) @ concat (p_chunks st)"

definition written_text :: "string \<Rightarrow> wq \<Rightarrow> string" where
  "written_text tid q = concat (map (\<lambda>x. fst (snd x)) (filter (\<lambda>x. fst x = tid) (h_written q)))"

definition flight_text :: "string \<Rightarrow> flight list \<Rightarrow> string" where
  "flight_text tid fs = concat (map (\<lambda>f. state_text (fl_state f)) (filter (\<lambda>f. fl_tid f = tid) fs))"

definition pending_text :: "string \<Rightarrow> pst dict \<Rightarrow> string" where
  "pending_text tid ps = (case dget ps tid of None \<Rightarrow> [] | Some st \<Rightarrow> state_text st)"

text \<open>The bytes of a terminal from the first written to the last posted.\<close>

definition stream :: "string \<Rightarrow> wq \<Rightarrow> string" where
  "stream tid q = written_text tid q @ flight_text tid (q_flight q) @ pending_text tid (q_pending q)"

definition posted_text :: "string \<Rightarrow> wq \<Rightarrow> string" where
  "posted_text tid q = concat (map snd (filter (\<lambda>p. fst p = tid) (h_posted q)))"

definition nothing_dropped :: "wq \<Rightarrow> bool" where
  "nothing_dropped q = ((\<forall>tid st. dget (q_pending q) tid = Some st \<longrightarrow> p_dropped st = 0)
     \<and> (\<forall>f \<in> set (q_flight q). p_dropped (fl_state f) = 0))"

definition orderly :: "wq \<Rightarrow> bool" where
  "orderly q = (numbers_ordered q \<and> nothing_dropped q \<and> (\<forall>tid. stream tid q = posted_text tid q))"

text \<open>A drain that may fail: no newer batch of the terminal is popped, and what it hands back fits in
  the retry queue.\<close>

definition may_fail :: "wq \<Rightarrow> bool" where
  "may_fail q = (case q_flight q of [] \<Rightarrow> True | f # fs \<Rightarrow>
     (\<forall>g \<in> set fs. fl_tid g \<noteq> fl_tid f)
     \<and> length (p_retry (fl_state f)) + 1 + length (p_retry (pending_or_new q (fl_tid f))) \<le> MAX_RETRY_BATCHES)"

inductive ostep :: "emu \<Rightarrow> rules \<Rightarrow> bool \<Rightarrow> qcfg \<Rightarrow> wq \<Rightarrow> wq \<Rightarrow> bool" for em rl ws cfg where
  o_post: "p_chars (pending_or_new q tid) + int (length chunk) \<le> max_pending_chars cfg \<Longrightarrow>
    ostep em rl ws cfg q (snd (enqueue cfg tid chunk status base au q))"
| o_timer: "ostep em rl ws cfg q (timer_flush t tid q)"
| o_reader: "ostep em rl ws cfg q (reader_flush tid q)"
| o_drain: "finish_drain em rl ws orc q = (r, q') \<Longrightarrow> (r \<Longrightarrow> may_fail q) \<Longrightarrow> ostep em rl ws cfg q q'"
| o_settle: "ostep em rl ws cfg q (settle_from_timer em rl ws att tid q)"

lemma sorted_wrt_subseq: "subseq xs ys \<Longrightarrow> sorted_wrt P ys \<Longrightarrow> sorted_wrt P xs"
proof (induction rule: list_emb.induct)
  case (list_emb_Cons2 x y xs ys)
  then show ?case using subseq_set by fastforce
qed auto

lemma subseq_numbers_drain:
  assumes e: "finish_drain em rl ws orc q = (r, q')" and fail: "r \<Longrightarrow> may_fail q"
  shows "subseq (numbers k q') (numbers k q)"
proof (cases "q_flight q")
  case Nil
  with e show ?thesis by (simp add: finish_drain_idle)
next
  case (Cons f fs)
  show ?thesis
  proof (cases "k = fl_tid f")
    case False
    with numbers_drain(1) [OF Cons e] show ?thesis by simp
  next
    case True
    let ?W = "nz (written_nums k q)" and ?S = "nz (state_nums (fl_state f))" and ?F = "nz (flight_nums k fs)"
      and ?P = "nz (pending_nums k (q_pending q))"
    from numbers_drain(2) [OF Cons e] obtain a b p where
      ab: "subseq (a @ b) ?S" and p: "subseq p (b @ ?P)" and pr: "\<not> r \<longrightarrow> p = ?P"
      and n: "numbers k q' = ?W @ a @ ?F @ p"
      unfolding True by blast
    have old: "numbers k q = ?W @ ?S @ ?F @ ?P" by (simp add: numbers_def flight_nums_def Cons True)
    have "subseq (a @ ?F @ p) (?S @ ?F @ ?P)"
    proof (cases r)
      case True
      then have F: "?F = []"
        using fail Cons \<open>k = fl_tid f\<close> by (auto simp: may_fail_def flight_nums_def filter_empty_conv)
      have "subseq (a @ p) (a @ b @ ?P)" using p by (simp only: subseq_append')
      also have "subseq \<dots> (?S @ ?P)" using list_emb_append_mono [OF ab subseq_order.refl [of ?P]] by simp
      finally show ?thesis by (simp add: F)
    next
      case False
      have "subseq a ?S" using ab by (metis subseq_order.trans subseq_rev_drop_many subseq_order.refl)
      with False pr show ?thesis by (simp add: list_emb_append_mono)
    qed
    then show ?thesis unfolding n old by (simp only: subseq_append')
  qed
qed

lemma numbers_ordered_step:
  assumes ok: "numbers_ordered q" and step: "ostep em rl ws cfg q q'"
  shows "numbers_ordered q'"
  using step
proof cases
  case (o_post tid chunk status base au)
  show ?thesis
  proof (cases "tid = [] \<or> chunk = [] \<and> py_strip status = []")
    case True
    with ok o_post show ?thesis by (simp add: enqueue_ignored)
  next
    case False
    obtain n q2 where e: "enqueue cfg tid chunk status base au q = (n, q2)" by fastforce
    have fl: "\<forall>k. 0 \<le> floor_of q k" using ok by (simp add: numbers_ordered_def)
    note eff = numbers_enqueue [OF e _ _ fl]
    have below: "m \<le> floor_of q k" if "m \<in> set (numbers k q)" for m k
      using ok that by (simp add: numbers_ordered_def numbers_below_floor_def)
    have "0 \<le> floor_of q2 k \<and> sorted_wrt (<) (numbers k q2) \<and> (\<forall>m \<in> set (numbers k q2). m \<le> floor_of q2 k)" for k
      using eff(1) [of k] eff(2) eff(3) [of k] below [of _ k] ok fl [rule_format, of k] False
      by (fastforce simp: numbers_ordered_def sorted_wrt_append)
    with e o_post show ?thesis by (simp add: numbers_ordered_def numbers_below_floor_def)
  qed
next
  case (o_drain orc r)
  have sub: "subseq (numbers k q') (numbers k q)" for k
    by (rule subseq_numbers_drain [OF o_drain(1)]) (rule o_drain(2))
  have "set (numbers k q') \<subseteq> set (numbers k q)" for k by (rule subseq_set [OF sub])
  then show ?thesis
    using ok floor_drain [OF o_drain(1)] sorted_wrt_subseq [OF sub]
    by (fastforce simp: numbers_ordered_def numbers_below_floor_def)
qed (use ok in \<open>simp_all add: quiet_numbers numbers_ordered_def numbers_below_floor_def\<close>)

text \<open>The bytes.\<close>

lemma concat_filter_nonempty: "concat (map fst (filter nonempty_batch bs)) = concat (map fst bs)"
  by (induction bs) (auto simp: nonempty_batch_def)

lemma batches_of_text: "concat (map fst (batches_of st)) = state_text st"
  by (simp add: batches_of_def state_text_def case_prod_unfold o_def)

lemma drain_text:
  assumes "d = drain_batches em rl ws orc i tid bs w"
  shows "concat (map fst (r_done d)) @ concat (map fst (r_back d)) = concat (map fst bs)"
proof -
  have "concat (map fst (r_done d @ filter nonempty_batch (r_back d))) = concat (map fst (filter nonempty_batch bs))"
    using drain_batches_split [of em rl ws orc i tid bs w] assms by metis
  then show ?thesis by (simp add: concat_filter_nonempty)
qed

lemma drain_back_length: "length (r_back (drain_batches em rl ws orc i tid bs w)) \<le> length bs"
proof (induction bs arbitrary: i w)
  case (Cons b bs)
  obtain x y n where b: "b = (x, y, n)" by (cases b)
  obtain r w' fr where a: "attempt_write em rl ws (orc i) tid x y (Some n) False w = (r, w', fr)"
    by (metis prod.exhaust)
  show ?case using Cons [of "Suc i" w] Cons [of "Suc i" w'] a by (auto simp: b Let_def)
qed simp

lemma bound_retry_fits: "length (p_retry st) \<le> MAX_RETRY_BATCHES \<Longrightarrow> bound_retry st = st"
  by (simp add: bound_retry_def)

lemma state_text_retry: "state_text (st\<lparr>p_retry := xs @ p_retry st\<rparr>) = concat (map fst xs) @ state_text st"
  by (simp add: state_text_def)

lemma requeue_text:
  assumes drop: "p_dropped (pending_or_new q tid) = 0"
    and fits: "length bs + length (p_retry (pending_or_new q tid)) \<le> MAX_RETRY_BATCHES"
  shows "pending_text tid (q_pending (requeue_front tid bs q)) = concat (map fst bs) @ pending_text tid (q_pending q)"
    "dget (q_pending (requeue_front tid bs q)) tid = Some st \<Longrightarrow> p_dropped st = 0"
    "k \<noteq> tid \<Longrightarrow> dget (q_pending (requeue_front tid bs q)) k = dget (q_pending q) k"
proof -
  let ?keep = "map (\<lambda>(txt, st, n). (txt, n)) (filter (\<lambda>(txt, _, _). txt \<noteq> []) bs)"
  let ?st = "pending_or_new q tid"
  have keep: "concat (map fst ?keep) = concat (map fst bs)" by (induction bs) (auto simp: case_prod_unfold)
  have br: "bound_retry (?st\<lparr>p_retry := ?keep @ p_retry ?st\<rparr>) = ?st\<lparr>p_retry := ?keep @ p_retry ?st\<rparr>"
    by (rule bound_retry_fits) (simp add: order_trans [OF _ fits])
  have old: "pending_text tid (q_pending q) = state_text ?st"
    by (simp add: pending_text_def pending_or_new_def state_text_def dropped_notice_def split: option.splits)
  have tx: "state_text (?st\<lparr>p_retry := ?keep @ p_retry ?st\<rparr>) = concat (map fst bs) @ state_text ?st"
    unfolding state_text_retry keep ..
  have stat: "state_text (s\<lparr>p_status := x\<rparr>) = state_text s" for s x by (simp add: state_text_def)
  show "pending_text tid (q_pending (requeue_front tid bs q)) = concat (map fst bs) @ pending_text tid (q_pending q)"
    using keep tx stat old unfolding requeue_front_def Let_def pending_or_new_def [symmetric] br
    by (fastforce simp: pending_text_def [where ps = "dput _ _ _"])
  show "p_dropped st = 0" if "dget (q_pending (requeue_front tid bs q)) tid = Some st"
    using that drop unfolding requeue_front_def Let_def pending_or_new_def [symmetric] br
    by (auto simp: pending_or_new_def split: if_splits)
  show "dget (q_pending (requeue_front tid bs q)) k = dget (q_pending q) k" if "k \<noteq> tid"
    using that by (simp add: requeue_front_def Let_def)
qed

lemma nothing_dropped_new: "nothing_dropped q \<Longrightarrow> p_dropped (pending_or_new q tid) = 0"
  by (simp add: nothing_dropped_def pending_or_new_def split: option.splits)

lemma stream_drain:
  assumes ok: "nothing_dropped q" and e: "finish_drain em rl ws orc q = (r, q')" and fail: "r \<Longrightarrow> may_fail q"
  shows "stream k q' = stream k q \<and> nothing_dropped q' \<and> h_posted q' = h_posted q"
proof (cases "q_flight q")
  case Nil
  with e ok show ?thesis by (simp add: finish_drain_idle)
next
  case (Cons f fs)
  define d where "d = drain_batches em rl ws orc 0 (fl_tid f) (batches_of (fl_state f)) (q_world q)"
  note eff = finish_drain_effect [OF Cons d_def e]
  let ?t = "fl_tid f"
  have tx: "concat (map fst (r_done d)) @ concat (map fst (r_back d)) = state_text (fl_state f)"
    using drain_text [OF d_def] by (simp add: batches_of_text)
  have len: "length (r_back d) \<le> length (p_retry (fl_state f)) + 1"
    using drain_back_length [of em rl ws orc 0 ?t "batches_of (fl_state f)" "q_world q"]
    by (simp add: d_def batches_of_def)
  have wr: "written_text k q' = written_text k q @ (if k = ?t then concat (map fst (r_done d)) else [])"
    by (simp add: written_text_def eff filter_map o_def)
  have fl: "flight_text k (q_flight q) = (if k = ?t then state_text (fl_state f) else []) @ flight_text k fs"
    by (simp add: flight_text_def Cons)
  show ?thesis
  proof (cases r)
    case False
    then have "r_back d = []" using eff(1) drain_batches_split d_def by metis
    with tx wr fl eff False ok Cons show ?thesis by (auto simp: stream_def nothing_dropped_def)
  next
    case True
    then have mf: "may_fail q" by (rule fail)
    then have none: "flight_text ?t fs = []" using Cons by (auto simp: may_fail_def flight_text_def filter_empty_conv)
    have fits: "length (r_back d) + length (p_retry (pending_or_new q ?t)) \<le> MAX_RETRY_BATCHES"
      using mf Cons len by (simp add: may_fail_def)
    note rq = requeue_text [OF nothing_dropped_new [OF ok] fits]
    have pend: "q_pending q' = q_pending (requeue_front ?t (r_back d) q)" using True eff by simp
    have "pending_text k (q_pending q') = (if k = ?t then concat (map fst (r_back d)) else []) @ pending_text k (q_pending q)"
      using rq(1) rq(3) [of k] by (cases "k = ?t") (simp_all add: pend pending_text_def)
    then have "stream k q' = stream k q" using wr fl tx none eff(3) by (cases "k = ?t") (simp_all add: stream_def)
    moreover have "p_dropped st = 0" if "dget (q_pending q') j = Some st" for j st
      using that rq(2) rq(3) [of j] ok by (cases "j = ?t") (auto simp: pend nothing_dropped_def)
    then have "nothing_dropped q'" using ok Cons eff(3) by (simp add: nothing_dropped_def)
    ultimately show ?thesis using eff(4) by simp
  qed
qed

lemma grown_fits:
  "p_chars st + int (length chunk) \<le> max_pending_chars cfg \<Longrightarrow>
     p_chunks (grown cfg chunk st) = p_chunks st @ (if chunk = [] then [] else [chunk])
     \<and> p_dropped (grown cfg chunk st) = p_dropped st"
  by (cases "p_chunks st") (auto simp: grown_def bound_pending_def)

lemma stream_enqueue:
  assumes ok: "nothing_dropped q" and e: "enqueue cfg tid chunk status base au q = (n, q')"
    and live: "tid \<noteq> []" "chunk \<noteq> [] \<or> py_strip status \<noteq> []"
    and fits: "p_chars (pending_or_new q tid) + int (length chunk) \<le> max_pending_chars cfg"
  shows "nothing_dropped q' \<and> stream k q' = stream k q @ (if k = tid then chunk else [])
    \<and> posted_text k q' = posted_text k q @ (if k = tid then chunk else [])"
  using e live
proof (rule enqueue_effect)
  fix st
  assume eff: "dget (q_pending q') = (dget (q_pending q))(tid \<mapsto> st)" "p_retry st = p_retry (pending_or_new q tid)"
    "p_chunks st = p_chunks (grown cfg chunk (pending_or_new q tid))"
    "p_dropped st = p_dropped (grown cfg chunk (pending_or_new q tid))" "q_flight q' = q_flight q"
    "h_written q' = h_written q" "h_posted q' = h_posted q @ [(tid, chunk)]"
  note g = grown_fits [OF fits] and d = nothing_dropped_new [OF ok, of tid]
  have "pending_text tid (q_pending q') = pending_text tid (q_pending q) @ chunk"
    using eff g d by (auto simp: pending_text_def state_text_def pending_or_new_def dropped_notice_def split: option.splits)
  moreover have "pending_text k (q_pending q') = pending_text k (q_pending q)" if "k \<noteq> tid"
    using that eff by (simp add: pending_text_def)
  ultimately have "stream k q' = stream k q @ (if k = tid then chunk else [])"
    using eff by (simp add: stream_def written_text_def)
  moreover have "nothing_dropped q'" using ok eff g d by (auto simp: nothing_dropped_def)
  ultimately show ?thesis using eff by (simp add: posted_text_def)
qed

lemma stream_pop:
  "stream k (flush_pop tr tid q) = stream k q" "nothing_dropped q \<Longrightarrow> nothing_dropped (flush_pop tr tid q)"
  by (auto simp: stream_def written_text_def flight_text_def pending_text_def nothing_dropped_def flush_pop_effect
      split: option.splits)

lemma stream_cong:
  assumes "h_written q' = h_written q" "q_flight q' = q_flight q" "q_pending q' = q_pending q"
  shows "stream k q' = stream k q" "nothing_dropped q' = nothing_dropped q"
  using assms by (simp_all add: stream_def written_text_def nothing_dropped_def)

lemma orderly_pop: "orderly q \<Longrightarrow> orderly (flush_pop tr tid q)"
  by (simp add: orderly_def numbers_ordered_def numbers_below_floor_def numbers_pop stream_pop posted_text_def
      flush_pop_effect)

lemma orderly_step:
  assumes ok: "orderly q" and step: "ostep em rl ws cfg q q'"
  shows "orderly q'"
proof -
  have num: "numbers_ordered q'" using numbers_ordered_step [OF _ step] ok by (simp add: orderly_def)
  have "nothing_dropped q' \<and> (\<forall>k. stream k q' = posted_text k q')"
    using step
  proof cases
    case (o_post tid chunk status base au)
    obtain n q2 where e: "enqueue cfg tid chunk status base au q = (n, q2)" by fastforce
    show ?thesis
    proof (cases "tid = [] \<or> chunk = [] \<and> py_strip status = []")
      case True
      with ok o_post show ?thesis by (simp add: enqueue_ignored orderly_def)
    next
      case False
      with stream_enqueue [OF _ e _ _ o_post(2)] ok o_post(1) e show ?thesis by (simp add: orderly_def)
    qed
  next
    case (o_timer t tid)
    have "orderly (q\<lparr>q_soon := (if t = Soon_Timer then remove1 tid (q_soon q) else q_soon q),
        q_tasks := arm tid (q_tasks q)\<rparr>)"
      using ok by (auto simp: orderly_def numbers_ordered_def numbers_below_floor_def numbers_def written_nums_def
          floor_of_def nothing_dropped_def stream_def written_text_def posted_text_def)
    then show ?thesis using orderly_pop by (simp add: o_timer timer_flush_def orderly_def)
  next
    case (o_reader tid)
    then show ?thesis using ok orderly_pop by (auto simp: reader_flush_def orderly_def)
  next
    case (o_drain orc r)
    then show ?thesis using stream_drain [of q em rl ws orc r q'] ok by (simp add: orderly_def posted_text_def)
  next
    case (o_settle att tid)
    have "stream k q' = stream k q" "nothing_dropped q' = nothing_dropped q" "posted_text k q' = posted_text k q" for k
      using stream_cong [of q' q] by (simp_all add: o_settle settle_keeps posted_text_def)
    then show ?thesis using ok by (simp add: orderly_def)
  qed
  with num show ?thesis by (simp add: orderly_def)
qed

lemma orderly_empty: "orderly (empty_queue w)"
  by (simp add: orderly_def numbers_ordered_def numbers_below_floor_def numbers_def written_nums_def flight_nums_def
      pending_nums_def empty_queue_def floor_of_def nothing_dropped_def stream_def written_text_def flight_text_def
      pending_text_def posted_text_def)

interpretation orderly_queue: invariant_system "\<lambda>q. \<exists>w. q = empty_queue w" "ostep em rl ws cfg" orderly
  by unfold_locales (auto simp: orderly_empty orderly_step)

lemma from_empty: "\<exists>v. empty_queue w = empty_queue v"
  by blast

subsection \<open>Properties\<close>

text \<open>C38. Whatever is posted, flushed, settled and refused, and in whatever order, the backlog of a
  terminal stays bounded: no more characters pending than the configured bound, no more than 32
  handed-back batches, and the character count the queue keeps is the number of characters it holds.\<close>

theorem backlog_stays_bounded:
  assumes "(qstep em rl ws (queue_config idle latency bat pend))\<^sup>*\<^sup>* (empty_queue w) q"
    and "dget (q_pending q) tid = Some st"
  shows "p_chars st = int (length (concat (p_chunks st)))
    \<and> int (length (concat (p_chunks st))) \<le> max (max 1024 bat) pend \<and> length (p_retry st) \<le> MAX_RETRY_BATCHES"
proof -
  have "queue_ok (queue_config idle latency bat pend) q"
    using bounded_queue.inv_reachable assms(1) by blast
  with assms(2) show ?thesis by (fastforce simp: queue_ok_def state_ok_def queue_config_def Let_def)
qed

lemma demo_post:
  "enqueue default_config ''t'' ''A'' [] 3 True (empty_queue w) =
     (4, (empty_queue w)\<lparr>q_floor := [(''t'', 4)], q_max := [''t''], q_idle := [''t''], h_posted := [(''t'', ''A'')],
        q_pending := [(''t'', \<lparr>p_retry = [], p_chunks = [''A''], p_chars = 1, p_status = [], p_dropped = 0,
          p_last_seq = 4, p_armed = False\<rparr>)]\<rparr>)"
  by (simp add: enqueue_def open_batch_def new_pending_state_def grown_def bound_pending_def default_config_def
      queue_config_def Let_def empty_queue_def floor_of_def arm_def)

theorem backlog_stays_bounded_witness:
  "int (length (concat (p_chunks (the (dget (q_pending (snd (enqueue default_config ''t'' ''A'' [] 3 True
      (empty_queue (demo_db, demo_mem))))) ''t''))))) = 1"
proof -
  let ?q = "snd (enqueue default_config ''t'' ''A'' [] 3 True (empty_queue (demo_db, demo_mem)))"
  have "(qstep demo_emu demo_rules True (queue_config 4 24 (16 * 1024) (256 * 1024)))\<^sup>*\<^sup>*
      (empty_queue (demo_db, demo_mem)) ?q"
    unfolding default_config_def by (rule r_into_rtranclp) (rule qstep.post)
  from backlog_stays_bounded [OF this] show ?thesis by (simp add: demo_post)
qed

text \<open>A sequence number names one batch for ever: over everything written, being written, handed
  back and pending, no number of a terminal occurs twice, and none is above the highest one issued.\<close>

theorem number_names_one_batch:
  assumes "(qstep em rl ws cfg)\<^sup>*\<^sup>* (empty_queue w) q"
  shows "distinct (numbers tid q) \<and> (\<forall>n \<in> set (numbers tid q). n \<le> floor_of q tid)"
  using unique_numbers.inv_reachable [OF from_empty assms] by (auto simp: numbers_unique_def numbers_below_floor_def)

theorem number_names_one_batch_witness:
  "distinct (numbers ''t'' (snd (enqueue default_config ''t'' ''A'' [] 3 True (empty_queue (demo_db, demo_mem)))))"
proof -
  have "(qstep demo_emu demo_rules True default_config)\<^sup>*\<^sup>* (empty_queue (demo_db, demo_mem))
      (snd (enqueue default_config ''t'' ''A'' [] 3 True (empty_queue (demo_db, demo_mem))))"
    by (rule r_into_rtranclp) (rule qstep.post)
  from number_names_one_batch [OF this] show ?thesis by simp
qed

text \<open>Numbers only rise: after any further activity, the post that opens a terminal's next batch is
  answered with a number above every number issued before, and above the one its caller read from
  the row.\<close>

theorem next_number_is_above:
  assumes start: "(qstep em rl ws cfg)\<^sup>*\<^sup>* (empty_queue w) q" and run: "(qstep em rl ws cfg)\<^sup>*\<^sup>* q q'"
    and post: "tid \<noteq> []" "chunk \<noteq> []" and opens: "p_last_seq (pending_or_new q' tid) = 0"
  shows "fst (enqueue cfg tid chunk status base au q') > floor_of q tid
    \<and> fst (enqueue cfg tid chunk status base au q') > base
    \<and> (\<forall>n \<in> set (numbers tid q'). n < fst (enqueue cfg tid chunk status base au q'))"
proof -
  obtain n q2 where e: "enqueue cfg tid chunk status base au q' = (n, q2)" by fastforce
  have u: "numbers_unique q'" using unique_numbers.inv_reachable [OF _ rtranclp_trans [OF start run]] by blast
  then have fl: "\<forall>k. 0 \<le> floor_of q' k" by (simp add: numbers_unique_def)
  have "floor_of q tid \<le> floor_of q' tid" by (rule queue_floor.run_mono [OF run])
  moreover have "floor_of q' tid < n \<and> base < n"
    using numbers_enqueue(2) [OF e _ _ fl opens] post by simp
  moreover have "\<forall>m \<in> set (numbers tid q'). m \<le> floor_of q' tid"
    using u by (simp add: numbers_unique_def numbers_below_floor_def)
  ultimately show ?thesis using e by fastforce
qed

theorem next_number_is_above_witness:
  "fst (enqueue default_config ''t'' ''A'' [] 3 True (empty_queue (demo_db, demo_mem))) > 3"
  using next_number_is_above [of demo_emu demo_rules True default_config "(demo_db, demo_mem)"
      "empty_queue (demo_db, demo_mem)" "empty_queue (demo_db, demo_mem)" "''t''" "''A''" "[]" 3 True]
  by (simp add: pending_or_new_def empty_queue_def)

text \<open>C18. In a run where no drain fails while a newer batch of its terminal is already popped, and no
  backlog is dropped, the bytes of a terminal are written in exactly the order they were posted, none
  lost and none twice, failures and retries included, and batches go out under strictly increasing
  numbers.\<close>

theorem output_is_written_in_order:
  assumes "(ostep em rl ws cfg)\<^sup>*\<^sup>* (empty_queue w) q"
  shows "written_text tid q @ flight_text tid (q_flight q) @ pending_text tid (q_pending q) = posted_text tid q
    \<and> sorted_wrt (<) (numbers tid q)"
  using orderly_queue.inv_reachable [OF from_empty assms] by (auto simp: orderly_def stream_def numbers_ordered_def)

text \<open>A post, a flush that finds no connection, and the queue it leaves: the batch handed back under its
  number and a callback armed to try again.\<close>

definition demo_posted :: wq where
  "demo_posted = snd (enqueue default_config ''t'' ''A'' [] 3 True (empty_queue (demo_db, demo_mem)))"

definition demo_refused :: wq where
  "demo_refused = snd (finish_drain demo_emu demo_rules True (\<lambda>_. NoConnection) (timer_flush Idle_Timer ''t'' demo_posted))"

lemmas queue_defs =
  enqueue_def open_batch_def new_pending_state_def grown_def bound_pending_def default_config_def queue_config_def
  empty_queue_def floor_of_def arm_def timer_flush_def reader_flush_def flush_pop_def finish_drain_def batches_of_def
  dropped_notice_def attempt_write_def requeue_front_def bound_retry_def last_status_def schedule_settle_def
  on_flush_done_def MAX_RETRY_BATCHES_def

lemma demo_refused_eq:
  "demo_refused = (empty_queue (demo_db, demo_mem))\<lparr>q_floor := [(''t'', 4)], q_soon := [''t''],
     h_posted := [(''t'', ''A'')], q_pending := [(''t'', (new_pending_state 0)\<lparr>p_retry := [(''A'', 4)]\<rparr>)]\<rparr>"
  unfolding demo_refused_def demo_posted_def by (simp add: queue_defs Let_def)

theorem output_is_written_in_order_witness:
  "written_text ''t'' demo_refused @ flight_text ''t'' (q_flight demo_refused) @ pending_text ''t'' (q_pending demo_refused)
     = ''A'' \<and> numbers ''t'' demo_refused = [4]"
proof -
  let ?step = "ostep demo_emu demo_rules True default_config"
  let ?q2 = "timer_flush Idle_Timer ''t'' demo_posted"
  have posted: "?step (empty_queue (demo_db, demo_mem)) demo_posted"
    unfolding demo_posted_def
    by (rule ostep.o_post) (simp add: pending_or_new_def queue_defs Let_def)
  have popped: "?step demo_posted ?q2" by (rule ostep.o_timer)
  have "may_fail ?q2"
    unfolding demo_posted_def by (simp add: may_fail_def pending_or_new_def queue_defs Let_def)
  then have "?step ?q2 demo_refused"
    unfolding demo_refused_def
    by (intro ostep.o_drain [of _ _ _ "\<lambda>_. NoConnection" _ "fst (finish_drain demo_emu demo_rules True (\<lambda>_. NoConnection) ?q2)"])
      simp_all
  with posted popped have "?step\<^sup>*\<^sup>* (empty_queue (demo_db, demo_mem)) demo_refused"
    by (meson rtranclp.rtrancl_refl rtranclp.rtrancl_into_rtrancl)
  from output_is_written_in_order [OF this, of "''t''"] show ?thesis
    by (simp add: demo_refused_eq posted_text_def empty_queue_def numbers_def written_nums_def flight_nums_def
        pending_nums_def state_nums_def nz_def)
qed

end
