(* ===== verification/QueueLiveness.thy ===== *)
theory QueueLiveness
  imports QueueOrder
begin

text \<open>
  Progress of the write queue: a pending batch that only timers touch always has a timer armed for
  it, and draining everything at shutdown ends and leaves nothing behind when no write is refused.
  The last part fixes three traces on which the queue does not do what its comments say.
\<close>

subsection \<open>A pending batch is never forgotten\<close>

definition woken :: "wq \<Rightarrow> string \<Rightarrow> bool" where
  "woken q tid = (tid \<in> set (q_idle q) \<union> set (q_max q) \<union> set (q_soon q))"

definition all_woken :: "wq \<Rightarrow> bool" where
  "all_woken q =
     ((\<forall>tid st. dget (q_pending q) tid = Some st \<longrightarrow>
         woken q tid \<and> (p_armed st \<longrightarrow> tid \<in> set (q_soon q)))
      \<and> (\<forall>f \<in> set (q_flight q). fl_tracked f))"

text \<open>The steps of a process whose readers never flush: posts that schedule, timers, drains and
  settles.\<close>

inductive tstep :: "emu \<Rightarrow> rules \<Rightarrow> bool \<Rightarrow> qcfg \<Rightarrow> wq \<Rightarrow> wq \<Rightarrow> bool" for em rl ws cfg where
  t_post: "tstep em rl ws cfg q (snd (enqueue cfg tid chunk status base True q))"
| t_timer: "tid \<in> set (armed t q) \<Longrightarrow> tstep em rl ws cfg q (timer_flush t tid q)"
| t_drain: "tstep em rl ws cfg q (snd (finish_drain em rl ws orc q))"
| t_settle: "tstep em rl ws cfg q (settle_from_timer em rl ws att tid q)"

lemma grown_armed [simp]: "p_armed (grown cfg chunk st) = p_armed st"
  by (simp add: grown_def)

lemma open_batch_timers:
  assumes "open_batch tid base au q = (st, q1)"
  shows "p_armed st = p_armed (pending_or_new q tid)" "q_pending q1 = q_pending q" "q_flight q1 = q_flight q"
    "q_idle q1 = q_idle q" "q_soon q1 = q_soon q" "set (q_max q) \<subseteq> set (q_max q1)"
  using assms unfolding open_batch_def pending_or_new_def [symmetric]
  by (auto simp: Let_def arm_def split: if_splits)

text \<open>What a scheduling post does to the timers of its terminal.\<close>

lemma enqueue_timers:
  assumes live: "tid \<noteq> []" "chunk \<noteq> [] \<or> py_strip status \<noteq> []"
    and e: "snd (enqueue cfg tid chunk status base True q) = q'"
  shows "\<exists>st. dget (q_pending q') = (dget (q_pending q))(tid \<mapsto> st) \<and> q_flight q' = q_flight q
    \<and> (p_armed st \<longrightarrow> tid \<in> set (q_soon q') \<or> p_armed (pending_or_new q tid))
    \<and> (p_armed st \<or> tid \<in> set (q_idle q'))
    \<and> set (q_idle q) \<subseteq> set (q_idle q') \<and> set (q_max q) \<subseteq> set (q_max q') \<and> set (q_soon q) \<subseteq> set (q_soon q')"
proof -
  obtain st0 q1 where o1: "open_batch tid base True q = (st0, q1)" by fastforce
  have guard: "\<not> (tid = [] \<or> chunk = [] \<and> py_strip status = [])" using live by blast
  define ts where "ts = py_strip status"
  define st2 where "st2 = (if ts = [] then grown cfg chunk st0 else grown cfg chunk st0\<lparr>p_status := ts\<rparr>)"
  define fn where "fn = (p_chars st2 \<ge> max_batch_chars cfg \<or> ts \<in> {''stopped'', ''failed''})"
  define st3 where "st3 = (if fn then st2\<lparr>p_armed := True\<rparr> else st2)"
  let ?q3 = "q1\<lparr>h_posted := h_posted q1 @ [(tid, chunk)], q_pending := dput tid st3 (q_pending q1)\<rparr>"
  have "enqueue cfg tid chunk status base True q = (p_last_seq st3,
      if fn then (if p_armed st2 then ?q3 else ?q3\<lparr>q_soon := q_soon ?q3 @ [tid]\<rparr>)
      else ?q3\<lparr>q_idle := arm tid (q_idle ?q3)\<rparr>)"
    unfolding enqueue_def o1 Let_def st3_def fn_def st2_def ts_def if_not_P [OF guard] by simp
  then have q': "q' = (if fn then (if p_armed st2 then ?q3 else ?q3\<lparr>q_soon := q_soon ?q3 @ [tid]\<rparr>)
      else ?q3\<lparr>q_idle := arm tid (q_idle ?q3)\<rparr>)" using e by simp
  have a2: "p_armed st2 = p_armed (pending_or_new q tid)"
    using open_batch_timers(1) [OF o1] by (simp add: st2_def)
  show ?thesis
    by (rule exI [of _ st3], cases fn; cases "p_armed st2")
      (use open_batch_timers [OF o1] in \<open>auto simp: q' a2 st3_def arm_def\<close>)
qed

lemma woken_mono:
  "woken q k \<Longrightarrow> set (q_idle q) \<subseteq> set (q_idle q') \<Longrightarrow> set (q_max q) \<subseteq> set (q_max q') \<Longrightarrow>
     set (q_soon q) \<subseteq> set (q_soon q') \<Longrightarrow> woken q' k"
  by (auto simp: woken_def)

lemma all_woken_post:
  assumes "all_woken q"
  shows "all_woken (snd (enqueue cfg tid chunk status base True q))"
proof (cases "tid = [] \<or> chunk = [] \<and> py_strip status = []")
  case True
  with assms show ?thesis by (simp add: enqueue_ignored)
next
  case False
  let ?q = "snd (enqueue cfg tid chunk status base True q)"
  from False enqueue_timers [of tid chunk status cfg base q ?q] obtain st where
    st: "dget (q_pending ?q) = (dget (q_pending q))(tid \<mapsto> st)" "q_flight ?q = q_flight q"
      "p_armed st \<longrightarrow> tid \<in> set (q_soon ?q) \<or> p_armed (pending_or_new q tid)" "p_armed st \<or> tid \<in> set (q_idle ?q)"
    and sub: "set (q_idle q) \<subseteq> set (q_idle ?q)" "set (q_max q) \<subseteq> set (q_max ?q)" "set (q_soon q) \<subseteq> set (q_soon ?q)"
    by blast
  have "p_armed (pending_or_new q tid) \<longrightarrow> tid \<in> set (q_soon q)"
    using assms by (auto simp: all_woken_def pending_or_new_def new_pending_state_def split: option.splits)
  with st sub have "woken ?q tid \<and> (p_armed st \<longrightarrow> tid \<in> set (q_soon ?q))" by (auto simp: woken_def)
  then show ?thesis
    using assms st(1,2) sub woken_mono [OF _ sub] unfolding all_woken_def by (auto split: if_splits)
qed

lemma all_woken_timer:
  assumes "all_woken q"
  shows "all_woken (timer_flush t tid q)"
proof -
  let ?q = "q\<lparr>q_soon := (if t = Soon_Timer then remove1 tid (q_soon q) else q_soon q), q_tasks := arm tid (q_tasks q)\<rparr>"
  have timers: "q_idle (flush_pop True tid ?q) = removeAll tid (q_idle q)"
    "q_max (flush_pop True tid ?q) = removeAll tid (q_max q)" "q_soon (flush_pop True tid ?q) = q_soon ?q"
    by (simp_all add: flush_pop_def Let_def split: option.splits)
  have keep: "k \<in> set (q_soon q) \<Longrightarrow> k \<in> set (q_soon ?q)" if "k \<noteq> tid" for k using that by simp
  show ?thesis
    unfolding timer_flush_def all_woken_def woken_def timers flush_pop_effect
    using assms keep by (auto simp: all_woken_def woken_def split: if_splits option.splits)
qed

lemma requeue_front_armed:
  "dget (q_pending (requeue_front tid bs q)) k = Some st \<Longrightarrow>
     (\<exists>st'. dget (q_pending q) k = Some st' \<and> p_armed st' = p_armed st) \<or> (k = tid \<and> \<not> p_armed st)"
  by (auto simp: requeue_front_def Let_def new_pending_state_def bound_retry_def split: if_splits option.splits)

lemma all_woken_drain:
  assumes ok: "all_woken q"
  shows "all_woken (snd (finish_drain em rl ws orc q))"
proof (cases "q_flight q")
  case Nil
  with ok show ?thesis by (simp add: finish_drain_idle)
next
  case (Cons f fs)
  define d where "d = drain_batches em rl ws orc 0 (fl_tid f) (batches_of (fl_state f)) (q_world q)"
  obtain r q' where e: "finish_drain em rl ws orc q = (r, q')" by fastforce
  note eff = finish_drain_effect [OF Cons d_def e]
  have tr: "fl_tracked f" using ok Cons by (simp add: all_woken_def)
  have soon: "q_soon q' = q_soon q @ (if r \<and> dget (q_pending q') (fl_tid f) \<noteq> None then [fl_tid f] else [])"
    using e Cons tr d_def by (auto simp: finish_drain_def Let_def on_flush_done_def split: if_splits)
  have "woken q' k \<and> (p_armed st \<longrightarrow> k \<in> set (q_soon q'))" if st: "dget (q_pending q') k = Some st" for k st
  proof (cases r)
    case False
    then have "q_pending q' = q_pending q" using eff by simp
    with st ok soon eff show ?thesis by (auto simp: all_woken_def woken_def)
  next
    case True
    then have "q_pending q' = q_pending (requeue_front (fl_tid f) (r_back d) q)" using eff by simp
    with st requeue_front_armed [of "fl_tid f" "r_back d" q k st] ok soon True eff(8,9)
    show ?thesis by (auto simp: all_woken_def woken_def)
  qed
  with eff(3) ok Cons e show ?thesis by (simp add: all_woken_def)
qed

interpretation wake_ups: invariant_system "\<lambda>q. \<exists>w. q = empty_queue w" "tstep em rl ws cfg" all_woken
proof unfold_locales
  show "all_woken q" if "\<exists>w. q = empty_queue w" for q using that by (auto simp: all_woken_def empty_queue_def)
next
  fix q q'
  assume ok: "all_woken q" and "tstep em rl ws cfg q q'"
  from this(2) show "all_woken q'"
  proof cases
    case (t_settle att tid)
    with ok show ?thesis by (simp add: all_woken_def woken_def settle_keeps)
  qed (use ok all_woken_post all_woken_timer all_woken_drain in auto)
qed

subsection \<open>Draining everything\<close>

text \<open>No write is refused.\<close>

definition no_faults :: "(nat \<Rightarrow> attempt) \<Rightarrow> bool" where
  "no_faults orc = (\<forall>j. \<exists>ck. orc j = Attempt None ck)"

lemma reader_flush_drain:
  assumes idle: "q_flight q = []" "q_tasks q = []" and calm: "no_faults orc"
    and st: "dget (q_pending q) tid = Some st"
  obtains q' where "finish_drain em rl ws orc (reader_flush tid q) = (False, q')" "q_flight q' = []" "q_tasks q' = []"
    "dget (q_pending q') = (dget (q_pending q))(tid := None)" "length (q_flight (reader_flush tid q)) = 1"
proof -
  let ?f = "\<lparr>fl_tid = tid, fl_state = st, fl_tracked = False\<rparr>"
  have pop: "reader_flush tid q = flush_pop False tid q" using idle by (simp add: reader_flush_def)
  have fl: "q_flight (reader_flush tid q) = [?f]" using idle st by (simp add: pop flush_pop_effect)
  define d where "d = drain_batches em rl ws orc 0 (fl_tid ?f) (batches_of (fl_state ?f)) (q_world (reader_flush tid q))"
  have nr: "\<not> r_raised d" unfolding d_def by (rule drain_no_fault) (use calm in \<open>simp add: no_faults_def\<close>)
  obtain r q' where e: "finish_drain em rl ws orc (reader_flush tid q) = (r, q')" by fastforce
  note eff = finish_drain_effect [OF fl d_def e]
  have "q_tasks q' = []"
    using e fl nr idle st unfolding d_def by (auto simp: finish_drain_def Let_def pop flush_pop_def schedule_settle_def)
  moreover have "q_pending q' = q_pending (flush_pop False tid q)" using eff(7) nr by (simp add: pop)
  then have "dget (q_pending q') = (dget (q_pending q))(tid := None)" by (simp only: flush_pop_effect(5))
  moreover have "finish_drain em rl ws orc (reader_flush tid q) = (False, q')" using e eff(1) nr by simp
  ultimately show thesis using that [of q'] eff(3) fl by (simp only: list.size)
qed

lemma stream_drain_whole:
  assumes e: "finish_drain em rl ws orc q = (False, q')"
  shows "stream k q' = stream k q"
proof (cases "q_flight q")
  case Nil
  with e show ?thesis by (simp add: finish_drain_idle)
next
  case (Cons f fs)
  define d where "d = drain_batches em rl ws orc 0 (fl_tid f) (batches_of (fl_state f)) (q_world q)"
  note eff = finish_drain_effect [OF Cons d_def e]
  have "r_back d = []" using eff(1) drain_batches_split d_def by metis
  then have tx: "concat (map fst (r_done d)) = state_text (fl_state f)" using drain_text [OF d_def] by (simp add: batches_of_text)
  have "written_text k q' = written_text k q @ (if k = fl_tid f then concat (map fst (r_done d)) else [])"
    by (simp add: written_text_def eff(5) filter_map o_def)
  moreover have "q_pending q' = q_pending q" "q_flight q' = fs" using eff by simp_all
  ultimately show ?thesis using tx Cons by (auto simp: stream_def flight_text_def)
qed

lemma flush_each_drains:
  assumes "q_flight q = []" "q_tasks q = []" "no_faults orc"
  shows "\<exists>q'. flush_each em rl ws orc tids q = Inr q' \<and> q_flight q' = [] \<and> q_tasks q' = [] \<and> (\<forall>k. stream k q' = stream k q)
    \<and> dget (q_pending q') = (dget (q_pending q)) |` (- set tids)"
  using assms
proof (induction tids arbitrary: q)
  case Nil
  then show ?case by simp
next
  case (Cons tid tids)
  show ?case
  proof (cases "dget (q_pending q) tid")
    case None
    let ?q = "reader_flush tid q"
    have q: "q_flight ?q = []" "q_tasks ?q = []" "dget (q_pending ?q) = dget (q_pending q)"
      using Cons.prems None by (auto simp: reader_flush_def flush_pop_effect) (simp add: flush_pop_def)
    have "stream k ?q = stream k q" for k using Cons.prems by (simp add: reader_flush_def stream_pop)
    with Cons.IH [OF q(1,2) Cons.prems(3)] q Cons.prems(1) None show ?thesis
      by (auto simp: Let_def restrict_map_def fun_eq_iff)
  next
    case (Some st)
    from reader_flush_drain [OF Cons.prems(1,2,3) Some, of em rl ws] obtain q' where
      q': "finish_drain em rl ws orc (reader_flush tid q) = (False, q')" "q_flight q' = []" "q_tasks q' = []"
        "dget (q_pending q') = (dget (q_pending q))(tid := None)" and one: "length (q_flight (reader_flush tid q)) = 1"
      by blast
    have "stream k q' = stream k q" for k using stream_drain_whole [OF q'(1), of k] Cons.prems by (simp add: reader_flush_def stream_pop)
    with Cons.IH [OF q'(2,3) Cons.prems(3)] q' one Cons.prems(1) show ?thesis
      by (auto simp: Let_def restrict_map_def fun_eq_iff)
  qed
qed

subsection \<open>Properties\<close>

text \<open>While output is flushed by timers only, every terminal with a pending batch has a timer or a
  callback armed that will flush it, also after any number of refused writes: no batch is stranded.\<close>

theorem pending_batch_has_a_timer:
  assumes "(tstep em rl ws cfg)\<^sup>*\<^sup>* (empty_queue w) q" and "dget (q_pending q) tid = Some st"
  shows "tid \<in> set (q_idle q) \<union> set (q_max q) \<union> set (q_soon q)"
  using wake_ups.inv_reachable [OF from_empty assms(1)] assms(2) by (auto simp: all_woken_def woken_def)

theorem pending_batch_has_a_timer_witness:
  "''t'' \<in> set (q_idle demo_refused) \<union> set (q_max demo_refused) \<union> set (q_soon demo_refused)"
proof (rule pending_batch_has_a_timer)
  let ?step = "tstep demo_emu demo_rules True default_config"
  have posted: "?step (empty_queue (demo_db, demo_mem)) demo_posted" unfolding demo_posted_def by (rule tstep.t_post)
  have "?step demo_posted (timer_flush Idle_Timer ''t'' demo_posted)"
    by (rule tstep.t_timer) (simp add: demo_posted_def armed_def queue_defs Let_def)
  moreover have "?step (timer_flush Idle_Timer ''t'' demo_posted) demo_refused"
    unfolding demo_refused_def by (rule tstep.t_drain)
  ultimately show "?step\<^sup>*\<^sup>* (empty_queue (demo_db, demo_mem)) demo_refused"
    using posted by (meson rtranclp.rtrancl_refl rtranclp.rtrancl_into_rtrancl)
  show "dget (q_pending demo_refused) ''t'' = Some ((new_pending_state 0)\<lparr>p_retry := [(''A'', 4)]\<rparr>)"
    by (simp add: demo_refused_eq)
qed

text \<open>C39. The drain at shutdown ends and loses nothing: with no task in flight and no write refused, two rounds of \<open>flush_all\<close> are enough, after which nothing is pending, nothing is in
  flight, and for every terminal exactly what the queue held for it has been written behind what was written before: the batches handed back, then the notice of dropped
  characters if any were dropped, then the chunks. If moreover the queue was orderly, nothing dropped from its backlog and nothing overtaken so far, then everything that was posted has been
  written, in order. Two rounds therefore also make the shutdown drain answer that it drained.\<close>

theorem flush_all_drains:
  assumes "q_flight q = []" and "q_tasks q = []" and "no_faults orc"
  shows "\<exists>q'. flush_all em rl ws orc (Suc (Suc n)) q = Some (Inr q') \<and> q_pending q' = [] \<and> q_flight q' = []
    \<and> (\<forall>tid. written_text tid q' = written_text tid q @ (case dget (q_pending q) tid of None \<Rightarrow> []
        | Some st \<Rightarrow> concat (map fst (p_retry st)) @ dropped_notice (p_dropped st) @ concat (p_chunks st)))
    \<and> (orderly q \<longrightarrow> (\<forall>tid. written_text tid q' = posted_text tid q))
    \<and> drain_terminal_output_writes em rl ws orc (Suc (Suc n)) q"
proof -
  have result: ?thesis if q': "flush_all em rl ws orc (Suc (Suc n)) q = Some (Inr q')" "q_pending q' = []" "q_flight q' = []" "\<And>k. stream k q' = stream k q" for q'
  proof -
    have "written_text tid q' = stream tid q" for tid using q'(2-4) by (simp add: stream_def flight_text_def pending_text_def)
    then show ?thesis using q' assms(1)
      by (auto simp: drain_terminal_output_writes_def orderly_def stream_def flight_text_def pending_text_def state_text_def split: option.split)
  qed
  from flush_each_drains [OF assms, of em rl ws "map fst (q_pending q)"] obtain q' where
    q': "flush_each em rl ws orc (map fst (q_pending q)) q = Inr q'" "q_flight q' = []" "\<And>k. stream k q' = stream k q"
      and pend: "dget (q_pending q') = (dget (q_pending q)) |` (- set (map fst (q_pending q)))"
    by blast
  have "dget (q_pending q') = Map.empty"
    unfolding pend by (auto simp: restrict_map_def fun_eq_iff map_of_eq_None_iff)
  then have none: "q_pending q' = []" by simp
  show ?thesis
  proof (cases "q_pending q = []")
    case True
    with assms show ?thesis by (intro result [of q]) simp_all
  next
    case False
    with q' none show ?thesis by (intro result [of q']) simp_all
  qed
qed

theorem flush_all_drains_witness:
  "\<exists>q'. flush_all demo_emu demo_rules True (\<lambda>_. Attempt None (demo_clk 9)) 2 demo_refused = Some (Inr q')
     \<and> written_text ''t'' q' = ''A''"
proof -
  let ?step = "ostep demo_emu demo_rules True default_config"
  have "orderly demo_refused"
    by (auto simp: demo_refused_eq empty_queue_def orderly_def numbers_ordered_def numbers_below_floor_def numbers_def
        written_nums_def flight_nums_def pending_nums_def state_nums_def nz_def floor_of_def nothing_dropped_def
        stream_def written_text_def flight_text_def pending_text_def state_text_def dropped_notice_def posted_text_def)
  then have "\<exists>q'. flush_all demo_emu demo_rules True (\<lambda>_. Attempt None (demo_clk 9)) (Suc (Suc 0)) demo_refused = Some (Inr q')
     \<and> written_text ''t'' q' = posted_text ''t'' demo_refused"
    using flush_all_drains [of demo_refused "\<lambda>_. Attempt None (demo_clk 9)" demo_emu demo_rules True 0]
    by (auto simp: demo_refused_eq empty_queue_def no_faults_def)
  then show ?thesis by (simp add: demo_refused_eq posted_text_def empty_queue_def numeral_2_eq_2)
qed

subsection \<open>Traces on which the queue goes wrong\<close>

text \<open>The parts of the traces that write: one write of the terminal's tail, at a time when the row is
  due.\<close>

definition demo_ok :: "int \<Rightarrow> nat \<Rightarrow> attempt" where
  "demo_ok at i = Attempt None (demo_clk at)"

definition demo_plain :: emu where
  "demo_plain = \<lparr>have_pyte = False, accepts = (\<lambda>_. False), screen_text = (\<lambda>_. None)\<rparr>"

text \<open>A is posted and popped; B is posted and popped behind it; the write of A is refused; B is written;
  A is tried again and written.\<close>

definition both_popped :: wq where
  "both_popped = timer_flush Idle_Timer ''t'' (snd (enqueue default_config ''t'' ''B'' [] 3 True
     (timer_flush Idle_Timer ''t'' demo_posted)))"

definition older_refused :: wq where
  "older_refused = snd (finish_drain demo_plain demo_rules True (\<lambda>_. NoConnection) both_popped)"

definition newer_written :: wq where
  "newer_written = snd (finish_drain demo_plain demo_rules True (demo_ok 5) older_refused)"

definition older_retried :: wq where
  "older_retried = snd (finish_drain demo_plain demo_rules True (demo_ok 5000) (timer_flush Soon_Timer ''t'' newer_written))"

definition row_of :: "wq \<Rightarrow> string \<times> int" where
  "row_of q = (case dget (d_rows (fst (q_world q))) ''t'' of None \<Rightarrow> ([], 0) | Some r \<Rightarrow> (t_output r, t_output_seq r))"

lemma demo_posted_eq:
  "demo_posted = (empty_queue (demo_db, demo_mem))\<lparr>q_floor := [(''t'', 4)], q_max := [''t''], q_idle := [''t''],
     h_posted := [(''t'', ''A'')], q_pending := [(''t'', (new_pending_state 4)\<lparr>p_chunks := [''A''], p_chars := 1\<rparr>)]\<rparr>"
  by (simp add: demo_posted_def demo_post new_pending_state_def)

lemma older_refused_eq:
  "older_refused = (empty_queue (demo_db, demo_mem))\<lparr>q_floor := [(''t'', 5)], q_soon := [''t''],
     h_posted := [(''t'', ''A''), (''t'', ''B'')],
     q_flight := [\<lparr>fl_tid = ''t'', fl_state = (new_pending_state 5)\<lparr>p_chunks := [''B''], p_chars := 1\<rparr>, fl_tracked = True\<rparr>],
     q_pending := [(''t'', (new_pending_state 0)\<lparr>p_retry := [(''A'', 4)]\<rparr>)]\<rparr>"
  unfolding older_refused_def both_popped_def demo_posted_eq by (simp add: queue_defs Let_def)

lemma newer_written_eq:
  "newer_written = (empty_queue (demo_db\<lparr>
       d_rows := [(''t'', demo_row\<lparr>t_output := ''oldB'', t_output_seq := 5, t_output_at := ''o'', t_updated_at := ''u''\<rparr>)],
       d_events := [\<lparr>te_terminal = ''t'', te_type = ''terminal_output'', te_body = ''B''\<rparr>]\<rparr>,
     demo_mem\<lparr>m_bufs := [(''t'', \<lparr>b_tail = ''oldB'', b_seq = Some 5, b_flushed_at = 5, b_dirty = False\<rparr>)],
       m_counts := [(''t'', 1)], m_expired := [''a'']\<rparr>))\<lparr>
     q_floor := [(''t'', 5)], q_soon := [''t''], h_posted := [(''t'', ''A''), (''t'', ''B'')],
     q_frames := [\<lparr>f_terminal = ''t'', f_agent = ''a'', f_status = [], f_output = ''B'', f_seq = 5\<rparr>],
     h_written := [(''t'', ''B'', [], 5)],
     q_pending := [(''t'', (new_pending_state 0)\<lparr>p_retry := [(''A'', 4)]\<rparr>)]\<rparr>"
  unfolding newer_written_def older_refused_eq by (simp add: queue_defs demo_ok_def demo_plain_def demo_eval)

lemma older_retried_eq:
  "older_retried = (empty_queue (demo_db\<lparr>
       d_rows := [(''t'', demo_row\<lparr>t_output := ''oldBA'', t_output_seq := 4, t_output_at := ''o'', t_updated_at := ''u''\<rparr>)],
       d_events := map (\<lambda>x. \<lparr>te_terminal = ''t'', te_type = ''terminal_output'', te_body = x\<rparr>) [''B'', ''A'']\<rparr>,
     demo_mem\<lparr>m_bufs := [(''t'', \<lparr>b_tail = ''oldBA'', b_seq = Some 4, b_flushed_at = 5000, b_dirty = False\<rparr>)],
       m_counts := [(''t'', 2)], m_expired := [''a'', ''a'']\<rparr>))\<lparr>
     q_floor := [(''t'', 5)], h_posted := [(''t'', ''A''), (''t'', ''B'')],
     q_frames := map (\<lambda>(x, n). \<lparr>f_terminal = ''t'', f_agent = ''a'', f_status = [], f_output = x, f_seq = n\<rparr>)
       [(''B'', 5), (''A'', 4)],
     h_written := [(''t'', ''B'', [], 5), (''t'', ''A'', [], 4)]\<rparr>"
  unfolding older_retried_def newer_written_eq by (simp add: queue_defs demo_ok_def demo_plain_def demo_eval)

text \<open>\<open>attached\<close> is being written when \<open>stopped\<close> is posted.\<close>

definition ending_posted :: wq where
  "ending_posted = snd (enqueue default_config ''t'' [] ''stopped'' 3 True (timer_flush Idle_Timer ''t''
     (snd (enqueue default_config ''t'' ''A'' ''attached'' 3 True (empty_queue (demo_db, demo_mem))))))"

lemma ending_posted_eq:
  "ending_posted = (empty_queue (demo_db, demo_mem))\<lparr>q_floor := [(''t'', 5)], q_max := [''t''], q_soon := [''t''],
     q_tasks := [''t''], h_posted := [(''t'', ''A''), (''t'', [])],
     q_flight := [\<lparr>fl_tid = ''t'', fl_state = (new_pending_state 4)\<lparr>p_chunks := [''A''], p_chars := 1,
       p_status := ''attached''\<rparr>, fl_tracked = True\<rparr>],
     q_pending := [(''t'', (new_pending_state 5)\<lparr>p_status := ''stopped'', p_armed := True\<rparr>)]\<rparr>"
  unfolding ending_posted_def by (simp add: queue_defs Let_def py_string_defs)

text \<open>Two batches of one terminal can be popped at once, and then a refused write reorders them:
  the older batch is handed back, the newer one is written, and the retry writes the older bytes after
  the newer ones and moves the stored sequence back from 5 to 4.\<close>

theorem refused_write_is_overtaken:
  "map snd (h_written older_retried) = [(''B'', [], 5), (''A'', [], 4)]
   \<and> row_of newer_written = (''oldB'', 5) \<and> row_of older_retried = (''oldBA'', 4)
   \<and> posted_text ''t'' older_retried = ''AB''"
  unfolding older_retried_eq newer_written_eq
  by (simp add: row_of_def posted_text_def empty_queue_def demo_row_def)

text \<open>A status handed back by a refused write replaces a newer one: \<open>attached\<close> is being written when
  \<open>stopped\<close> is posted; the refused write puts \<open>attached\<close> over it, and \<open>stopped\<close> is held nowhere.\<close>

theorem refused_status_replaces_newer:
  "let q = snd (finish_drain demo_plain demo_rules True (\<lambda>_. NoConnection) ending_posted)
   in map_option p_status (dget (q_pending ending_posted) ''t'') = Some ''stopped''
      \<and> map_option p_status (dget (q_pending q) ''t'') = Some ''attached'' \<and> q_flight q = []"
  unfolding ending_posted_eq by (simp add: queue_defs Let_def)

text \<open>A reader's flush that is refused strands the batch: it cancelled the timers when it popped the
  batch, and only the done-callback of a timer's own task arms a new one. The handed-back output is
  pending with no timer, callback or task left to write it.\<close>

theorem reader_flush_strands_batch:
  "let q1 = reader_flush ''t'' demo_posted;
       q2 = snd (finish_drain demo_plain demo_rules True (\<lambda>_. NoConnection) q1)
   in map_option p_retry (dget (q_pending q2) ''t'') = Some [(''A'', 4)]
      \<and> q_idle q2 = [] \<and> q_max q2 = [] \<and> q_soon q2 = [] \<and> q_tasks q2 = [] \<and> q_settle q2 = [] \<and> q_flight q2 = []"
  unfolding demo_posted_eq by (simp add: queue_defs Let_def)

end
