(* ===== verification/ChangeFeed.thy ===== *)
theory ChangeFeed
  imports Prelude "HOL-Library.Char_ord" "HOL-Library.List_Lexorder" "HOL-Library.FSet"
begin

text \<open>
  Telling dashboards which tables changed (\<open>service/change_feed.py\<close>).

  A committed transaction reports its writes; each is a change or mere liveness. What is waiting is
  two sets of tables and one timer. Time is an \<^typ>\<open>int\<close> of milliseconds, handed to every operation
  that reads the loop's clock. \<open>loop\<close> says whether a loop is running; without one nothing can be
  scheduled. The operation that sends returns the payload; \<open>h_sent\<close> and \<open>h_since\<close> record the
  payloads sent and the time of the oldest change still waiting, and no operation reads them.
  \<open>written_table\<close>, the regular-expression reader of a statement's text, is not modelled: a statement
  enters as the write it was read as.
\<close>

subsection \<open>Writes\<close>

text \<open>The columns are those an UPDATE sets, \<open>None\<close> when they could not be read, empty for an INSERT
  or a DELETE.\<close>

record cwrite =
  w_table :: string
  w_columns :: "string list option"

definition LIVENESS_WRITES :: "(string list option) dict" where
  "LIVENESS_WRITES =
     [(''bridge_instances'', None),
      (''claimer_leases'', None),
      (''terminal_events'', None),
      (''agents'', Some [''last_seen'', ''status'', ''last_present_at'']),
      (''agent_sessions'', Some [''last_seen'', ''telemetry'']),
      (''environments'', Some [''last_seen'', ''metadata'', ''cwd_roots'']),
      (''terminal_sessions'', Some [''output'', ''output_at'', ''output_seq'', ''updated_at'']),
      (''definition_stores'', Some [''pushed_at''])]"

definition liveness :: "cwrite \<Rightarrow> bool" where
  "liveness w = (case dget LIVENESS_WRITES (w_table w) of
     None \<Rightarrow> False
   | Some None \<Rightarrow> True
   | Some (Some declared) \<Rightarrow>
       (case w_columns w of None \<Rightarrow> False | Some cs \<Rightarrow> cs \<noteq> [] \<and> set cs \<subseteq> set declared))"

definition CLAIM_SCOPES :: "string dict" where
  "CLAIM_SCOPES =
     [(''dispatch_runs'', ''dispatch''),
      (''dispatch_controls'', ''control''),
      (''terminal_controls'', ''terminal-control''),
      (''environment_controls'', ''env-control''),
      (''spawn_requests'', ''spawn'')]"

definition COALESCE :: int where "COALESCE = 250"

definition LIVENESS_COALESCE :: int where "LIVENESS_COALESCE = 10000"

subsection \<open>The feed\<close>

record payload =
  py_seq :: nat
  py_instance :: string
  py_tables :: "string list"
  py_liveness :: "string list"

record feed =
  fd_instance :: string
  fd_seq :: nat
  fd_manager :: bool
  fd_changed :: "string fset"
  fd_liveness :: "string fset"
  fd_handle :: bool
  fd_flush_at :: int
  h_sent :: "payload list"
  h_since :: int

definition new_feed :: "string \<Rightarrow> feed" where
  "new_feed instance = \<lparr>fd_instance = instance, fd_seq = 0, fd_manager = False, fd_changed = {||}, fd_liveness = {||},
     fd_handle = False, fd_flush_at = 0, h_sent = [], h_since = 0\<rparr>"

definition attach :: "feed \<Rightarrow> feed" where
  "attach f = f\<lparr>fd_manager := True\<rparr>"

definition detach :: "feed \<Rightarrow> feed" where
  "detach f = f\<lparr>fd_manager := False, fd_handle := False, fd_changed := {||}, fd_liveness := {||}\<rparr>"

definition feed_pending :: "feed \<Rightarrow> string fset \<times> string fset" where
  "feed_pending f = (fd_changed f, fd_liveness f |-| fd_changed f)"

definition schedule :: "bool \<Rightarrow> int \<Rightarrow> feed \<Rightarrow> feed" where
  "schedule loop now f =
     (if fd_changed f = {||} \<and> fd_liveness f = {||} then f
      else if \<not> loop then f
      else (let due = now + (if fd_changed f \<noteq> {||} then COALESCE else LIVENESS_COALESCE) in
            if fd_handle f \<and> fd_flush_at f \<le> due then f
            else f\<lparr>fd_flush_at := due, fd_handle := True\<rparr>))"

text \<open>The claim scopes a commit wakes, and whether it asks for the resident check: both before, and
  whatever, the dashboard gate.\<close>

definition claim_wakes :: "cwrite list \<Rightarrow> string set" where
  "claim_wakes ws = {s. \<exists>w \<in> set ws. dget CLAIM_SCOPES (w_table w) = Some s}"

definition asks_pi_check :: "cwrite list \<Rightarrow> bool" where
  "asks_pi_check ws = (\<exists>w \<in> set ws. w_table w = ''agents'' \<and> \<not> liveness w)"

definition add_changed :: "int \<Rightarrow> string fset \<Rightarrow> feed \<Rightarrow> feed" where
  "add_changed now ts f = f\<lparr>fd_changed := fd_changed f |\<union>| ts,
     h_since := (if fd_changed f = {||} then now else h_since f)\<rparr>"

definition committed :: "bool \<Rightarrow> int \<Rightarrow> cwrite list \<Rightarrow> feed \<Rightarrow> string set \<times> bool \<times> feed" where
  "committed loop now ws f =
     (claim_wakes ws, asks_pi_check ws,
      if \<not> fd_manager f then f
      else schedule loop now
        ((add_changed now (fset_of_list (map w_table (filter (\<lambda>w. \<not> liveness w) ws))) f)
           \<lparr>fd_liveness := fd_liveness f |\<union>| fset_of_list (map w_table (filter liveness ws))\<rparr>))"

definition derived_moved :: "bool \<Rightarrow> int \<Rightarrow> string \<Rightarrow> feed \<Rightarrow> feed" where
  "derived_moved loop now table f =
     (if \<not> fd_manager f then f else schedule loop now (add_changed now {|table|} f))"

definition agent_status_moved :: "bool \<Rightarrow> int \<Rightarrow> string \<Rightarrow> feed \<Rightarrow> feed" where
  "agent_status_moved loop now agent_id f =
     (if \<not> fd_manager f then f else schedule loop now (add_changed now {|''agents''|} f))"

definition flush :: "feed \<Rightarrow> payload option \<times> feed" where
  "flush f =
     (let (changed, live) = feed_pending f;
          f1 = f\<lparr>fd_handle := False, fd_changed := {||}, fd_liveness := {||}\<rparr> in
      if \<not> fd_manager f1 \<or> (changed = {||} \<and> live = {||}) then (None, f1)
      else (let n = Suc (fd_seq f1);
                p = \<lparr>py_seq = n, py_instance = fd_instance f1, py_tables = sorted_list_of_fset changed,
                     py_liveness = sorted_list_of_fset live\<rparr> in
            (Some p, f1\<lparr>fd_seq := n, h_sent := h_sent f1 @ [p]\<rparr>)))"

subsection \<open>Runs\<close>

text \<open>A run of an attached feed: commits, derived moves, and the timer, which fires no earlier than it
  was set for. The clock never goes back.\<close>

inductive feed_step :: "int \<times> feed \<Rightarrow> int \<times> feed \<Rightarrow> bool" where
  f_tick: "t \<le> t' \<Longrightarrow> feed_step (t, f) (t', f)"
| f_commit: "feed_step (t, f) (t, snd (snd (committed True t ws f)))"
| f_derived: "feed_step (t, f) (t, derived_moved True t table f)"
| f_status: "feed_step (t, f) (t, agent_status_moved True t agent f)"
| f_flush: "fd_manager f \<Longrightarrow> fd_handle f \<Longrightarrow> fd_flush_at f \<le> t \<Longrightarrow> feed_step (t, f) (t, snd (flush f))"

definition feed_ok :: "int \<times> feed \<Rightarrow> bool" where
  "feed_ok s = (let t = fst s; f = snd s in
     map py_seq (h_sent f) = [1..<Suc (fd_seq f)]
     \<and> (fd_changed f \<noteq> {||} \<longrightarrow> fd_handle f \<and> fd_flush_at f \<le> h_since f + COALESCE \<and> h_since f \<le> t)
     \<and> (fd_liveness f \<noteq> {||} \<longrightarrow> fd_handle f \<and> fd_flush_at f \<le> t + LIVENESS_COALESCE)
     \<and> (\<forall>p \<in> set (h_sent f). set (py_tables p) \<inter> set (py_liveness p) = {}))"

text \<open>The tables told to the dashboards or still to be told.\<close>

definition told :: "feed \<Rightarrow> string set" where
  "told f = fset (fd_changed f) \<union> (\<Union>p \<in> set (h_sent f). set (py_tables p))"

subsection \<open>Lemmas\<close>

lemma schedule_keeps [simp]:
  "fd_changed (schedule l t f) = fd_changed f" "fd_liveness (schedule l t f) = fd_liveness f"
  "fd_manager (schedule l t f) = fd_manager f" "fd_seq (schedule l t f) = fd_seq f"
  "h_sent (schedule l t f) = h_sent f" "h_since (schedule l t f) = h_since f"
  by (simp_all add: schedule_def Let_def)

lemma add_changed_simps [simp]:
  "fd_changed (add_changed t ts f) = fd_changed f |\<union>| ts" "fd_liveness (add_changed t ts f) = fd_liveness f"
  "fd_manager (add_changed t ts f) = fd_manager f" "fd_seq (add_changed t ts f) = fd_seq f"
  "h_sent (add_changed t ts f) = h_sent f" "fd_handle (add_changed t ts f) = fd_handle f"
  "fd_flush_at (add_changed t ts f) = fd_flush_at f"
  "h_since (add_changed t ts f) = (if fd_changed f = {||} then t else h_since f)"
  by (simp_all add: add_changed_def)

text \<open>Adding to what waits and scheduling keeps the promise on the timer.\<close>

lemma feed_ok_add:
  assumes ok: "feed_ok (t, f)"
  shows "feed_ok (t, schedule True t ((add_changed t ts f)\<lparr>fd_liveness := fd_liveness f |\<union>| ls\<rparr>))"
  using assms
  by (auto simp: feed_ok_def Let_def schedule_def COALESCE_def LIVENESS_COALESCE_def split: if_splits)

lemma feed_ok_moved:
  assumes ok: "feed_ok (t, f)"
  shows "feed_ok (t, schedule True t (add_changed t ts f))"
  using feed_ok_add [OF ok, where ts = ts and ls = "{||}"] by (simp add: add_changed_def)

lemma feed_ok_flush:
  assumes ok: "feed_ok (t, f)"
  shows "feed_ok (t, snd (flush f))"
  using assms
  by (auto simp: feed_ok_def Let_def flush_def feed_pending_def sorted_list_of_fset_simps split: if_splits)

lemma feed_ok_step: "feed_step s s' \<Longrightarrow> feed_ok s \<Longrightarrow> feed_ok s'"
proof (induction rule: feed_step.induct)
  case (f_tick t t' f)
  then show ?case by (auto simp: feed_ok_def Let_def)
next
  case (f_commit t f ws)
  then show ?case by (simp add: committed_def feed_ok_add)
qed (simp_all add: derived_moved_def agent_status_moved_def feed_ok_moved feed_ok_flush)

interpretation feed_inv: invariant_system "\<lambda>s. \<exists>t i. s = (t, attach (new_feed i))" feed_step feed_ok
proof unfold_locales
  show "feed_ok s" if "\<exists>t i. s = (t, attach (new_feed i))" for s
    using that by (auto simp: feed_ok_def attach_def new_feed_def)
qed (rule feed_ok_step)

lemma told_step: "feed_step s s' \<Longrightarrow> told (snd s) \<subseteq> told (snd s')"
proof (induction rule: feed_step.induct)
  case (f_flush f t)
  then show ?case
    by (auto simp: told_def flush_def feed_pending_def Let_def sorted_list_of_fset_simps)
qed (auto simp: told_def committed_def derived_moved_def agent_status_moved_def)

interpretation feed_told: monotone_system feed_step "\<lambda>s. told (snd s)"
  by unfold_locales (rule told_step)

subsection \<open>Properties\<close>

text \<open>A change is announced within the coalescing window: in every state of an attached feed, if a
  real change is waiting then the flush timer is armed, for no later than 250 ms after the oldest
  waiting change was committed, even when only liveness was waiting on its ten-second window before.\<close>

theorem change_is_due_within_window:
  assumes "feed_step\<^sup>*\<^sup>* (t0, attach (new_feed i)) (t, f)" and "fd_changed f \<noteq> {||}"
  shows "fd_handle f \<and> fd_flush_at f \<le> h_since f + COALESCE \<and> h_since f \<le> t"
proof -
  have "feed_ok (t, f)" by (rule feed_inv.inv_reachable [OF _ assms(1)]) blast
  with assms(2) show ?thesis by (simp add: feed_ok_def Let_def)
qed

definition demo_write :: cwrite where
  "demo_write = \<lparr>w_table = ''messages'', w_columns = Some []\<rparr>"

lemma attach_manager [simp]: "fd_manager (attach f)"
  by (simp add: attach_def)

lemma demo_commit:
  "snd (snd (committed True 7 [demo_write] (attach (new_feed ''i'')))) =
     (attach (new_feed ''i''))\<lparr>fd_changed := {|''messages''|}, fd_handle := True, fd_flush_at := 257, h_since := 7\<rparr>"
  by (simp add: committed_def demo_write_def liveness_def LIVENESS_WRITES_def schedule_def add_changed_def
      attach_def new_feed_def COALESCE_def Let_def)

theorem change_is_due_within_window_witness:
  "fd_flush_at (snd (snd (committed True 7 [demo_write] (attach (new_feed ''i''))))) \<le> 7 + COALESCE"
proof -
  let ?f = "snd (snd (committed True 7 [demo_write] (attach (new_feed ''i''))))"
  have "feed_step\<^sup>*\<^sup>* (7, attach (new_feed ''i'')) (7, ?f)" by (rule r_into_rtranclp) (rule f_commit)
  from change_is_due_within_window [OF this] show ?thesis by (simp add: demo_commit)
qed

text \<open>C40. No change is lost: once a transaction commits a write that is not liveness while a dashboard
  is attached, then after any further commits, moves and flushes its table has been announced as
  changed or is still waiting to be.\<close>

theorem committed_change_is_told:
  assumes "fd_manager f" and "w \<in> set ws" and "\<not> liveness w"
    and "feed_step\<^sup>*\<^sup>* (t, snd (snd (committed True t ws f))) (t', f')"
  shows "w_table w \<in> told f'"
proof -
  have "w_table w \<in> told (snd (snd (committed True t ws f)))"
    using assms(1-3) by (auto simp: committed_def told_def fset_of_list.rep_eq)
  with feed_told.run_mono [OF assms(4)] show ?thesis by auto
qed

theorem committed_change_is_told_witness:
  "''messages'' \<in> told (snd (flush (snd (snd (committed True 7 [demo_write] (attach (new_feed ''i'')))))))"
proof -
  let ?f = "snd (snd (committed True 7 [demo_write] (attach (new_feed ''i''))))"
  have "feed_step (7, ?f) (257, ?f)" by (rule f_tick) simp
  moreover have "feed_step (257, ?f) (257, snd (flush ?f))" by (rule f_flush) (simp_all add: demo_commit)
  ultimately have "feed_step\<^sup>*\<^sup>* (7, ?f) (257, snd (flush ?f))"
    by (meson rtranclp.rtrancl_refl rtranclp.rtrancl_into_rtrancl)
  from committed_change_is_told [OF _ _ _ this, of demo_write] show ?thesis
    by (simp add: demo_write_def liveness_def LIVENESS_WRITES_def attach_def)
qed

text \<open>A client can detect what it missed: the announcements of one feed are numbered 1, 2, 3 and so on
  without a gap, and no announcement names a table both as changed and as mere liveness.\<close>

theorem announcements_are_gap_free:
  assumes "feed_step\<^sup>*\<^sup>* (t0, attach (new_feed i)) (t, f)"
  shows "map py_seq (h_sent f) = [1..<Suc (fd_seq f)]
    \<and> (\<forall>p \<in> set (h_sent f). set (py_tables p) \<inter> set (py_liveness p) = {})"
proof -
  have "feed_ok (t, f)" by (rule feed_inv.inv_reachable [OF _ assms]) blast
  then show ?thesis by (simp add: feed_ok_def Let_def)
qed

theorem announcements_are_gap_free_witness:
  "map py_seq (h_sent (snd (flush (snd (snd (committed True 7 [demo_write] (attach (new_feed ''i'')))))))) = [1]"
proof -
  let ?f = "snd (snd (committed True 7 [demo_write] (attach (new_feed ''i''))))"
  have "feed_step (7, attach (new_feed ''i'')) (7, ?f)" by (rule f_commit)
  moreover have "feed_step (7, ?f) (257, ?f)" by (rule f_tick) simp
  moreover have "feed_step (257, ?f) (257, snd (flush ?f))" by (rule f_flush) (simp_all add: demo_commit)
  ultimately have "feed_step\<^sup>*\<^sup>* (7, attach (new_feed ''i'')) (257, snd (flush ?f))"
    by (meson rtranclp.rtrancl_refl rtranclp.rtrancl_into_rtrancl)
  from announcements_are_gap_free [OF this]
  have "map py_seq (h_sent (snd (flush ?f))) = [1..<Suc (fd_seq (snd (flush ?f)))]" by (rule conjunct1)
  moreover have "fd_seq (snd (flush ?f)) = 1"
    unfolding demo_commit by (simp add: flush_def feed_pending_def attach_def new_feed_def Let_def)
  ultimately show ?thesis by simp
qed

end
