(* ===== verification/DbPool.thy ===== *)
theory DbPool
  imports ChangeFeed
begin

text \<open>
  The connection pool (\<open>service/db_pool.py\<close>) and the report of committed writes it makes to the
  change feed.

  A connection is a number; \<open>pl_conns\<close> says what state it is really in: open, inside a
  transaction, tuned (configured differently from a fresh one), and its running count of rows changed.
  The idle buckets, a dict from busy timeout to a list, are one list of pairs: a bucket is the sublist
  of its timeout, and its last element is popped. A checkout is a handle, an index into \<open>pl_out\<close>.
  Returning a connection awaits a reset, so it is two steps, and anything may happen between them
  (\<open>pl_releasing\<close>). What SQLite and its driver do (rows changed by a statement, an exception) enters as
  arguments. Exceptions are \<open>perr\<close> values.
\<close>

record conn =
  c_path :: string
  c_busy :: int
  c_open :: bool
  c_tx :: bool
  c_tuned :: bool
  c_changes :: nat

record checkout =
  k_conn :: "nat option"
  k_path :: string
  k_busy :: int
  k_dirty :: bool
  k_writes :: "cwrite list"
  k_rows :: nat

record releasing =
  rl_conn :: nat
  rl_path :: string
  rl_busy :: int
  rl_keep :: bool

record dbp =
  pl_conns :: "nat \<Rightarrow> conn"
  pl_next :: nat
  pl_idle :: "(int \<times> nat) list"
  pl_idle_max :: nat
  pl_path :: "string option"
  pl_loop :: "nat option"
  pl_enabled :: bool
  pl_out :: "checkout list"
  pl_releasing :: "releasing list"
  pl_reported :: "cwrite list list"

datatype perr = Connection_Closed | Driver_Error

definition POOL_IDLE_MAX :: nat where "POOL_IDLE_MAX = 8"

definition new_pool :: "nat \<Rightarrow> dbp" where
  "new_pool idle_max = \<lparr>pl_conns = (\<lambda>_. \<lparr>c_path = [], c_busy = 0, c_open = False, c_tx = False, c_tuned = False,
     c_changes = 0\<rparr>), pl_next = 0, pl_idle = [], pl_idle_max = idle_max, pl_path = None, pl_loop = None,
     pl_enabled = False, pl_out = [], pl_releasing = [], pl_reported = []\<rparr>"

definition set_conn :: "nat \<Rightarrow> (conn \<Rightarrow> conn) \<Rightarrow> dbp \<Rightarrow> dbp" where
  "set_conn i g p = p\<lparr>pl_conns := (pl_conns p)(i := g (pl_conns p i))\<rparr>"

definition set_out :: "nat \<Rightarrow> (checkout \<Rightarrow> checkout) \<Rightarrow> dbp \<Rightarrow> dbp" where
  "set_out h g p = p\<lparr>pl_out := (pl_out p)[h := g (pl_out p ! h)]\<rparr>"

subsection \<open>One checkout\<close>

text \<open>A statement, as the pool reads it and as it acts: the write its text names, whether its text may
  change the connection's state, whether it really does, whether it leaves a transaction open, and the
  rows it changes.\<close>

record stmt =
  s_write :: "cwrite option"
  s_state :: bool
  s_tunes :: bool
  s_begins :: bool
  s_rows :: nat

definition note_stmt :: "stmt \<Rightarrow> checkout \<Rightarrow> checkout" where
  "note_stmt s k = k\<lparr>k_dirty := k_dirty k \<or> s_state s,
     k_writes := k_writes k @ (case s_write s of None \<Rightarrow> [] | Some w \<Rightarrow> [w])\<rparr>"

definition run_stmt :: "stmt \<Rightarrow> conn \<Rightarrow> conn" where
  "run_stmt s c = c\<lparr>c_tuned := c_tuned c \<or> s_tunes s, c_tx := c_tx c \<or> s_begins s, c_changes := c_changes c + s_rows s\<rparr>"

text \<open>\<open>execute\<close>, \<open>executemany\<close>, \<open>execute_fetchall\<close> and \<open>execute_insert\<close>: the four are one body. The
  note is made before the target is looked up, so also on a closed handle.\<close>

definition execute :: "nat \<Rightarrow> stmt \<Rightarrow> dbp \<Rightarrow> (perr + unit) \<times> dbp" where
  "execute h s p =
     (let p1 = set_out h (note_stmt s) p in
      case k_conn (pl_out p ! h) of
        None \<Rightarrow> (Inl Connection_Closed, p1)
      | Some i \<Rightarrow> (Inr (), set_conn i (run_stmt s) p1))"

definition report_commit :: "cwrite list \<Rightarrow> dbp \<Rightarrow> dbp" where
  "report_commit ws p = p\<lparr>pl_reported := pl_reported p @ [ws]\<rparr>"

text \<open>Take the noted writes and move the row count forward; report when rows changed and there is
  something to report.\<close>

definition settle_report :: "nat \<Rightarrow> nat \<Rightarrow> cwrite list \<Rightarrow> dbp \<Rightarrow> dbp" where
  "settle_report h i extra p =
     (let k = pl_out p ! h; ws = k_writes k @ extra; now = c_changes (pl_conns p i);
          p1 = set_out h (\<lambda>k. k\<lparr>k_writes := [], k_rows := now\<rparr>) p in
      if now \<noteq> k_rows k \<and> ws \<noteq> [] then report_commit ws p1 else p1)"

definition commit :: "nat \<Rightarrow> bool \<Rightarrow> dbp \<Rightarrow> (perr + unit) \<times> dbp" where
  "commit h accepted p = (case k_conn (pl_out p ! h) of
     None \<Rightarrow> (Inl Connection_Closed, p)
   | Some i \<Rightarrow> if accepted then (Inr (), settle_report h i [] (set_conn i (\<lambda>c. c\<lparr>c_tx := False\<rparr>) p))
              else (Inl Driver_Error, p))"

definition rollback :: "nat \<Rightarrow> bool \<Rightarrow> dbp \<Rightarrow> (perr + unit) \<times> dbp" where
  "rollback h accepted p = (case k_conn (pl_out p ! h) of
     None \<Rightarrow> (Inl Connection_Closed, set_out h (\<lambda>k. k\<lparr>k_writes := []\<rparr>) p)
   | Some i \<Rightarrow>
       (let p1 = (if accepted then set_conn i (\<lambda>c. c\<lparr>c_tx := False\<rparr>) p else p) in
        (if accepted then Inr () else Inl Driver_Error,
         set_out h (\<lambda>k. k\<lparr>k_writes := [], k_rows := c_changes (pl_conns p1 i)\<rparr>) p1)))"

text \<open>A script: SQLite commits what is pending, then runs it outside a transaction. \<open>rows\<close> are the
  rows it changed by the time it ended or failed.\<close>

definition executescript :: "nat \<Rightarrow> bool \<Rightarrow> bool \<Rightarrow> cwrite list \<Rightarrow> nat \<Rightarrow> bool \<Rightarrow> dbp \<Rightarrow> (perr + unit) \<times> dbp" where
  "executescript h state tunes ws rows ends p =
     (let p1 = set_out h (\<lambda>k. k\<lparr>k_dirty := k_dirty k \<or> state\<rparr>) p in
      case k_conn (pl_out p ! h) of
        None \<Rightarrow> (Inl Connection_Closed, p1)
      | Some i \<Rightarrow>
          (let p2 = set_conn i (\<lambda>c. c\<lparr>c_tx := False, c_tuned := c_tuned c \<or> tunes, c_changes := c_changes c + rows\<rparr>) p1 in
           if ends then (Inr (), settle_report h i ws p2) else (Inl Driver_Error, p2)))"

text \<open>Calling a method that installs per-connection behaviour, or setting an attribute other than
  \<open>row_factory\<close>. An attribute is read from the target before the handle is marked, so a closed handle
  is not marked; a set marks it first.\<close>

definition stateful_method :: "nat \<Rightarrow> dbp \<Rightarrow> (perr + unit) \<times> dbp" where
  "stateful_method h p = (case k_conn (pl_out p ! h) of
     None \<Rightarrow> (Inl Connection_Closed, p)
   | Some i \<Rightarrow> (Inr (), set_conn i (\<lambda>c. c\<lparr>c_tuned := True\<rparr>) (set_out h (\<lambda>k. k\<lparr>k_dirty := True\<rparr>) p)))"

definition set_attribute :: "nat \<Rightarrow> string \<Rightarrow> dbp \<Rightarrow> (perr + unit) \<times> dbp" where
  "set_attribute h name p =
     (let p1 = (if name = ''row_factory'' then p else set_out h (\<lambda>k. k\<lparr>k_dirty := True\<rparr>) p) in
      case k_conn (pl_out p ! h) of
        None \<Rightarrow> (Inl Connection_Closed, p1)
      | Some i \<Rightarrow> (Inr (), if name = ''row_factory'' then p1 else set_conn i (\<lambda>c. c\<lparr>c_tuned := True\<rparr>) p1))"

subsection \<open>The pool\<close>

definition idle_count :: "dbp \<Rightarrow> nat" where
  "idle_count p = length (pl_idle p)"

fun close_conns :: "nat list \<Rightarrow> (nat \<Rightarrow> conn) \<Rightarrow> nat \<Rightarrow> conn" where
  "close_conns [] cs = cs"
| "close_conns (i # is) cs = close_conns is (cs(i := (cs i)\<lparr>c_open := False\<rparr>))"

definition retire_idle :: "dbp \<Rightarrow> nat \<times> dbp" where
  "retire_idle p = (idle_count p,
     p\<lparr>pl_conns := close_conns (map snd (pl_idle p)) (pl_conns p), pl_idle := []\<rparr>)"

definition close_idle :: "dbp \<Rightarrow> nat \<times> dbp" where
  "close_idle p = (idle_count p,
     p\<lparr>pl_conns := close_conns (map snd (pl_idle p)) (pl_conns p), pl_idle := []\<rparr>)"

definition enable :: "dbp \<Rightarrow> dbp" where
  "enable p = p\<lparr>pl_enabled := True\<rparr>"

definition aclose :: "dbp \<Rightarrow> dbp" where
  "aclose p = snd (close_idle (p\<lparr>pl_enabled := False\<rparr>))"

definition bind :: "string \<Rightarrow> nat \<Rightarrow> dbp \<Rightarrow> dbp" where
  "bind path loop p =
     (if pl_path p \<noteq> Some path \<or> pl_loop p \<noteq> Some loop
      then (snd (retire_idle p))\<lparr>pl_path := Some path, pl_loop := Some loop\<rparr> else p)"

text \<open>The loop that pops a bucket from its end until it finds a live connection; the argument is the
  idle list reversed.\<close>

fun take_idle :: "int \<Rightarrow> (nat \<Rightarrow> conn) \<Rightarrow> (int \<times> nat) list \<Rightarrow> nat option \<times> (int \<times> nat) list" where
  "take_idle b cs [] = (None, [])"
| "take_idle b cs ((k, i) # rest) =
     (if k = b then (if c_open (cs i) then (Some i, rest) else take_idle b cs rest)
      else (let (r, rest') = take_idle b cs rest in (r, (k, i) # rest')))"

definition open_connection :: "string \<Rightarrow> int \<Rightarrow> dbp \<Rightarrow> nat \<times> dbp" where
  "open_connection path busy p = (pl_next p,
     p\<lparr>pl_next := Suc (pl_next p), pl_conns := (pl_conns p)(pl_next p :=
        \<lparr>c_path = path, c_busy = busy, c_open = True, c_tx = False, c_tuned = False, c_changes = 0\<rparr>)\<rparr>)"

definition check_out :: "nat \<Rightarrow> string \<Rightarrow> int \<Rightarrow> dbp \<Rightarrow> dbp" where
  "check_out i path busy p = p\<lparr>pl_out := pl_out p @ [\<lparr>k_conn = Some i, k_path = path, k_busy = busy, k_dirty = False,
     k_writes = [], k_rows = c_changes (pl_conns p i)\<rparr>]\<rparr>"

text \<open>With pooling disabled the caller gets the connection itself, which the pool never sees again.\<close>

datatype handle = Raw nat | Pooled nat

definition acquire :: "string \<Rightarrow> int \<Rightarrow> nat \<Rightarrow> bool \<Rightarrow> dbp \<Rightarrow> (perr + handle) \<times> dbp" where
  "acquire path busy loop opens p =
     (if \<not> pl_enabled p
      then (if opens then (let (i, p1) = open_connection path busy p in (Inr (Raw i), p1)) else (Inl Driver_Error, p))
      else (let p1 = bind path loop p;
                (found, rest) = take_idle busy (pl_conns p1) (rev (pl_idle p1));
                p2 = p1\<lparr>pl_idle := rev rest\<rparr> in
            case found of
              Some i \<Rightarrow> (Inr (Pooled (length (pl_out p2))), check_out i path busy p2)
            | None \<Rightarrow>
                if opens
                then (let (i, p3) = open_connection path busy p2 in
                      (Inr (Pooled (length (pl_out p3))), check_out i path busy p3))
                else (Inl Driver_Error, p2)))"

text \<open>\<open>close\<close>: the handle is detached first; then \<open>release\<close> decides whether the connection is worth
  resetting and waits for the reset.\<close>

definition close :: "nat \<Rightarrow> dbp \<Rightarrow> dbp" where
  "close h p =
     (let k = pl_out p ! h in
      case k_conn k of
        None \<Rightarrow> p
      | Some i \<Rightarrow> (set_out h (\<lambda>k. k\<lparr>k_conn := None\<rparr>) p)\<lparr>pl_releasing := pl_releasing p @
          [\<lparr>rl_conn = i, rl_path = k_path k, rl_busy = k_busy k,
            rl_keep = (pl_enabled p \<and> \<not> k_dirty k \<and> c_open (pl_conns p i))\<rparr>]\<rparr>)"

datatype reset = Reset_Clean | Reset_Stuck | Reset_Raised

definition release :: "nat \<Rightarrow> reset \<Rightarrow> nat \<Rightarrow> dbp \<Rightarrow> (perr + unit) \<times> dbp" where
  "release n outcome loop p =
     (let r = pl_releasing p ! n; i = rl_conn r;
          p1 = p\<lparr>pl_releasing := take n (pl_releasing p) @ drop (Suc n) (pl_releasing p)\<rparr> in
      if rl_keep r \<and> outcome = Reset_Raised
      then (Inl Driver_Error, set_conn i (\<lambda>c. c\<lparr>c_open := False\<rparr>) p1)
      else (let keep = (rl_keep r \<and> outcome = Reset_Clean);
                p2 = (if keep then set_conn i (\<lambda>c. c\<lparr>c_tx := False\<rparr>) p1 else p1) in
            if \<not> keep \<or> \<not> pl_enabled p2 \<or> pl_loop p2 \<noteq> Some loop \<or> pl_path p2 \<noteq> Some (rl_path r)
               \<or> idle_count p2 \<ge> pl_idle_max p2
            then (Inr (), set_conn i (\<lambda>c. c\<lparr>c_open := False\<rparr>) p2)
            else (Inr (), p2\<lparr>pl_idle := pl_idle p2 @ [(rl_busy r, i)]\<rparr>)))"

subsection \<open>The invariant\<close>

definition held_by :: "dbp \<Rightarrow> nat \<Rightarrow> nat \<Rightarrow> bool" where
  "held_by p h i = (h < length (pl_out p) \<and> k_conn (pl_out p ! h) = Some i)"

definition idle_ids :: "dbp \<Rightarrow> nat set" where
  "idle_ids p = snd ` set (pl_idle p)"

definition returning_ids :: "dbp \<Rightarrow> nat set" where
  "returning_ids p = rl_conn ` set (pl_releasing p)"

text \<open>Every tracked connection is in one place only: idle, held by one handle, or being returned.\<close>

definition exclusive :: "dbp \<Rightarrow> bool" where
  "exclusive p =
     (distinct (map snd (pl_idle p)) \<and> distinct (map rl_conn (pl_releasing p))
      \<and> idle_ids p \<inter> returning_ids p = {}
      \<and> (\<forall>h i. held_by p h i \<longrightarrow> i \<notin> idle_ids p \<and> i \<notin> returning_ids p)
      \<and> (\<forall>h h' i. held_by p h i \<longrightarrow> held_by p h' i \<longrightarrow> h = h')
      \<and> (\<forall>i \<in> idle_ids p \<union> returning_ids p. i < pl_next p)
      \<and> (\<forall>h i. held_by p h i \<longrightarrow> i < pl_next p))"

definition idle_clean :: "dbp \<Rightarrow> bool" where
  "idle_clean p = (length (pl_idle p) \<le> pl_idle_max p
     \<and> (\<forall>b i. (b, i) \<in> set (pl_idle p) \<longrightarrow> \<not> c_tx (pl_conns p i) \<and> \<not> c_tuned (pl_conns p i)
          \<and> pl_path p = Some (c_path (pl_conns p i)) \<and> c_busy (pl_conns p i) = b))"

definition held_marked :: "dbp \<Rightarrow> bool" where
  "held_marked p =
     ((\<forall>h i. held_by p h i \<longrightarrow> (c_tuned (pl_conns p i) \<longrightarrow> k_dirty (pl_out p ! h))
         \<and> c_path (pl_conns p i) = k_path (pl_out p ! h) \<and> c_busy (pl_conns p i) = k_busy (pl_out p ! h))
      \<and> (\<forall>r \<in> set (pl_releasing p). (rl_keep r \<longrightarrow> \<not> c_tuned (pl_conns p (rl_conn r)))
         \<and> c_path (pl_conns p (rl_conn r)) = rl_path r \<and> c_busy (pl_conns p (rl_conn r)) = rl_busy r))"

definition pool_ok :: "dbp \<Rightarrow> bool" where
  "pool_ok p = (exclusive p \<and> idle_clean p \<and> held_marked p)"

lemmas pool_defs = pool_ok_def exclusive_def idle_clean_def held_marked_def held_by_def idle_ids_def returning_ids_def

lemma idle_ids_I: "(b, i) \<in> set (pl_idle p) \<Longrightarrow> i \<in> idle_ids p"
  by (force simp: idle_ids_def)

lemma returning_ids_I: "r \<in> set (pl_releasing p) \<Longrightarrow> rl_conn r \<in> returning_ids p"
  by (simp add: returning_ids_def)

text \<open>A statement that really changes the connection is one whose text says it may.\<close>

inductive pool_step :: "dbp \<Rightarrow> dbp \<Rightarrow> bool" where
  p_enable: "pool_step p (enable p)"
| p_aclose: "pool_step p (aclose p)"
| p_retire: "pool_step p (snd (retire_idle p))"
| p_close_idle: "pool_step p (snd (close_idle p))"
| p_acquire: "pool_step p (snd (acquire path busy loop opens p))"
| p_execute: "h < length (pl_out p) \<Longrightarrow> (s_tunes s \<longrightarrow> s_state s) \<Longrightarrow> pool_step p (snd (execute h s p))"
| p_commit: "h < length (pl_out p) \<Longrightarrow> pool_step p (snd (commit h ok p))"
| p_rollback: "h < length (pl_out p) \<Longrightarrow> pool_step p (snd (rollback h ok p))"
| p_script: "h < length (pl_out p) \<Longrightarrow> (tunes \<longrightarrow> state) \<Longrightarrow> pool_step p (snd (executescript h state tunes ws rows ends p))"
| p_method: "h < length (pl_out p) \<Longrightarrow> pool_step p (snd (stateful_method h p))"
| p_attribute: "h < length (pl_out p) \<Longrightarrow> pool_step p (snd (set_attribute h name p))"
| p_close: "h < length (pl_out p) \<Longrightarrow> pool_step p (close h p)"
| p_release: "n < length (pl_releasing p) \<Longrightarrow> pool_step p (snd (release n outcome loop p))"
| p_die: "pool_step p (set_conn i (\<lambda>c. c\<lparr>c_open := False\<rparr>) p)"

text \<open>What the invariant does not look at.\<close>

lemma pool_ok_cong:
  assumes "pl_idle p' = pl_idle p" "pl_out p' = pl_out p" "pl_releasing p' = pl_releasing p" "pl_next p' = pl_next p"
    "pl_idle_max p' = pl_idle_max p" "pl_path p' = pl_path p"
    "\<And>i. c_tx (pl_conns p' i) = c_tx (pl_conns p i) \<and> c_tuned (pl_conns p' i) = c_tuned (pl_conns p i)
       \<and> c_path (pl_conns p' i) = c_path (pl_conns p i) \<and> c_busy (pl_conns p' i) = c_busy (pl_conns p i)"
  shows "pool_ok p' = pool_ok p"
  using assms by (simp add: pool_defs)

text \<open>A step of a checkout: it changes its own handle and its own connection.\<close>

lemma pool_ok_local:
  assumes ok: "pool_ok p" and h: "h < length (pl_out p)" "k_conn (pl_out p ! h) = Some i"
    and k': "k_conn k' = Some i" "k_path k' = k_path (pl_out p ! h)" "k_busy k' = k_busy (pl_out p ! h)"
    and c': "c_path c' = c_path (pl_conns p i)" "c_busy c' = c_busy (pl_conns p i)" "c_tuned c' \<longrightarrow> k_dirty k'"
  shows "pool_ok (p\<lparr>pl_out := (pl_out p)[h := k'], pl_conns := (pl_conns p)(i := c'), pl_reported := rep\<rparr>)"
proof -
  let ?p = "p\<lparr>pl_out := (pl_out p)[h := k'], pl_conns := (pl_conns p)(i := c'), pl_reported := rep\<rparr>"
  have here: "held_by p h i" using h by (simp add: held_by_def)
  have held: "held_by ?p g j = held_by p g j" for g j
    using h k' by (auto simp: held_by_def nth_list_update)
  have away: "i \<notin> idle_ids p" "i \<notin> returning_ids p"
    using ok here by (auto simp: pool_ok_def exclusive_def)
  have idle_ne: "j \<noteq> i" if "(b, j) \<in> set (pl_idle p)" for b j using away(1) that idle_ids_I by blast
  have rel_ne: "rl_conn r \<noteq> i" if "r \<in> set (pl_releasing p)" for r using away(2) that returning_ids_I by blast
  have alone: "g = h" if "held_by p g i" for g using ok here that by (auto simp: pool_ok_def exclusive_def)
  have ids: "idle_ids ?p = idle_ids p" "returning_ids ?p = returning_ids p"
    by (simp_all add: idle_ids_def returning_ids_def)
  have "exclusive ?p" using ok held ids by (simp add: pool_ok_def exclusive_def)
  moreover have "idle_clean ?p" using ok idle_ne by (auto simp: pool_ok_def idle_clean_def)
  moreover have "held_marked ?p"
  proof -
    have "(c_tuned (pl_conns ?p j) \<longrightarrow> k_dirty (pl_out ?p ! g)) \<and> c_path (pl_conns ?p j) = k_path (pl_out ?p ! g)
        \<and> c_busy (pl_conns ?p j) = k_busy (pl_out ?p ! g)" if g: "held_by p g j" for g j
    proof (cases "g = h")
      case True
      with g h have "j = i" by (simp add: held_by_def)
      with True ok here h k' c' show ?thesis by (simp add: pool_ok_def held_marked_def)
    next
      case False
      with g alone have "j \<noteq> i" by blast
      with False g ok show ?thesis by (simp add: pool_ok_def held_marked_def)
    qed
    with ok rel_ne held show ?thesis unfolding pool_ok_def held_marked_def by auto
  qed
  ultimately show ?thesis by (simp add: pool_ok_def)
qed

lemma pool_ok_closed:
  assumes ok: "pool_ok p" and h: "h < length (pl_out p)" "k_conn (pl_out p ! h) = None" and k': "k_conn k' = None"
  shows "pool_ok (p\<lparr>pl_out := (pl_out p)[h := k']\<rparr>)"
proof -
  let ?p = "p\<lparr>pl_out := (pl_out p)[h := k']\<rparr>"
  have held: "held_by ?p g j = held_by p g j" for g j using h k' by (auto simp: held_by_def nth_list_update)
  have "pl_out ?p ! g = pl_out p ! g" if "held_by p g j" for g j
    using that h by (cases "g = h") (auto simp: held_by_def)
  moreover have "idle_ids ?p = idle_ids p" "returning_ids ?p = returning_ids p"
    by (simp_all add: idle_ids_def returning_ids_def)
  ultimately show ?thesis using ok held unfolding pool_ok_def exclusive_def idle_clean_def held_marked_def by simp
qed

lemma close_conns_simps [simp]:
  "c_tx (close_conns is cs i) = c_tx (cs i)" "c_tuned (close_conns is cs i) = c_tuned (cs i)"
  "c_path (close_conns is cs i) = c_path (cs i)" "c_busy (close_conns is cs i) = c_busy (cs i)"
  by (induction "is" arbitrary: cs) simp_all

subsection \<open>Every operation keeps the invariant\<close>

lemma set_out_eq: "h < length (pl_out p) \<Longrightarrow> set_out h g p = p\<lparr>pl_out := (pl_out p)[h := g (pl_out p ! h)]\<rparr>"
  by (simp add: set_out_def)

lemma settle_report_eq:
  "settle_report h i ws p = p\<lparr>
     pl_out := (pl_out p)[h := (pl_out p ! h)\<lparr>k_writes := [], k_rows := c_changes (pl_conns p i)\<rparr>],
     pl_reported := pl_reported p @ (if c_changes (pl_conns p i) \<noteq> k_rows (pl_out p ! h) \<and> k_writes (pl_out p ! h) @ ws \<noteq> []
       then [k_writes (pl_out p ! h) @ ws] else [])\<rparr>"
  by (cases p) (simp add: settle_report_def Let_def set_out_def report_commit_def)

text \<open>Ending a transaction and reporting it, on a connection changed by \<open>g\<close>.\<close>

lemma pool_ok_settle:
  assumes ok: "pool_ok p" and h: "h < length (pl_out p)" "k_conn (pl_out p ! h) = Some i"
    and g: "c_path (g (pl_conns p i)) = c_path (pl_conns p i)" "c_busy (g (pl_conns p i)) = c_busy (pl_conns p i)"
      "c_tuned (g (pl_conns p i)) \<longrightarrow> k_dirty (pl_out p ! h)"
  shows "pool_ok (settle_report h i ws (set_conn i g p))"
proof -
  let ?n = "c_changes (g (pl_conns p i))"
  let ?rep = "pl_reported p @ (if ?n \<noteq> k_rows (pl_out p ! h) \<and> k_writes (pl_out p ! h) @ ws \<noteq> []
       then [k_writes (pl_out p ! h) @ ws] else [])"
  have "settle_report h i ws (set_conn i g p) = p\<lparr>pl_out := (pl_out p)[h := (pl_out p ! h)\<lparr>k_writes := [], k_rows := ?n\<rparr>],
      pl_conns := (pl_conns p)(i := g (pl_conns p i)), pl_reported := ?rep\<rparr>"
    by (cases p) (simp add: settle_report_eq set_conn_def)
  then show ?thesis using pool_ok_local [OF ok h] h g by simp
qed

text \<open>The operations of a handle, each as the change it makes to its handle and its connection.\<close>

lemma handle_op_ok:
  assumes ok: "pool_ok p" and h: "h < length (pl_out p)"
    and closed: "k_conn (pl_out p ! h) = None \<Longrightarrow> \<exists>k'. k_conn k' = None \<and> q = p\<lparr>pl_out := (pl_out p)[h := k']\<rparr>"
    and live: "\<And>i. k_conn (pl_out p ! h) = Some i \<Longrightarrow> \<exists>k' c' rep. k_conn k' = Some i \<and> k_path k' = k_path (pl_out p ! h)
      \<and> k_busy k' = k_busy (pl_out p ! h) \<and> c_path c' = c_path (pl_conns p i) \<and> c_busy c' = c_busy (pl_conns p i)
      \<and> (c_tuned c' \<longrightarrow> k_dirty k')
      \<and> q = p\<lparr>pl_out := (pl_out p)[h := k'], pl_conns := (pl_conns p)(i := c'), pl_reported := rep\<rparr>"
  shows "pool_ok q"
proof (cases "k_conn (pl_out p ! h)")
  case None
  with closed pool_ok_closed [OF ok h None] show ?thesis by blast
next
  case (Some i)
  from live [OF this] pool_ok_local [OF ok h Some] show ?thesis by blast
qed

lemma held_tuned_dirty:
  "pool_ok p \<Longrightarrow> h < length (pl_out p) \<Longrightarrow> k_conn (pl_out p ! h) = Some i \<Longrightarrow> c_tuned (pl_conns p i) \<Longrightarrow>
     k_dirty (pl_out p ! h)"
  by (auto simp: pool_ok_def held_marked_def held_by_def)

lemma pool_ok_execute:
  assumes ok: "pool_ok p" and h: "h < length (pl_out p)" and s: "s_tunes s \<longrightarrow> s_state s"
  shows "pool_ok (snd (execute h s p))"
proof (rule handle_op_ok [OF ok h])
  let ?k = "note_stmt s (pl_out p ! h)"
  show "\<exists>k'. k_conn k' = None \<and> snd (execute h s p) = p\<lparr>pl_out := (pl_out p)[h := k']\<rparr>" if "k_conn (pl_out p ! h) = None"
    using that by (intro exI [of _ ?k]) (simp add: execute_def set_out_def note_stmt_def)
  show "\<exists>k' c' rep. k_conn k' = Some i \<and> k_path k' = k_path (pl_out p ! h) \<and> k_busy k' = k_busy (pl_out p ! h)
      \<and> c_path c' = c_path (pl_conns p i) \<and> c_busy c' = c_busy (pl_conns p i) \<and> (c_tuned c' \<longrightarrow> k_dirty k')
      \<and> snd (execute h s p) = p\<lparr>pl_out := (pl_out p)[h := k'], pl_conns := (pl_conns p)(i := c'), pl_reported := rep\<rparr>"
    if "k_conn (pl_out p ! h) = Some i" for i
    using that s held_tuned_dirty [OF ok h that]
    by (intro exI [of _ ?k] exI [of _ "run_stmt s (pl_conns p i)"] exI [of _ "pl_reported p"])
      (auto simp: execute_def set_out_def set_conn_def note_stmt_def run_stmt_def)
qed

lemma pool_ok_commit:
  assumes ok: "pool_ok p" and h: "h < length (pl_out p)"
  shows "pool_ok (snd (commit h a p))"
proof (cases "k_conn (pl_out p ! h)")
  case None
  with ok show ?thesis by (simp add: commit_def)
next
  case (Some i)
  show ?thesis
  proof (cases a)
    case False
    with ok Some show ?thesis by (simp add: commit_def)
  next
    case True
    have "pool_ok (settle_report h i [] (set_conn i (\<lambda>c. c\<lparr>c_tx := False\<rparr>) p))"
      using held_tuned_dirty [OF ok h Some] by (intro pool_ok_settle [OF ok h Some]) auto
    with True Some show ?thesis by (simp add: commit_def)
  qed
qed

lemma pool_ok_rollback:
  assumes ok: "pool_ok p" and h: "h < length (pl_out p)"
  shows "pool_ok (snd (rollback h a p))"
proof (rule handle_op_ok [OF ok h])
  show "\<exists>k'. k_conn k' = None \<and> snd (rollback h a p) = p\<lparr>pl_out := (pl_out p)[h := k']\<rparr>" if "k_conn (pl_out p ! h) = None"
    using that by (intro exI [of _ "(pl_out p ! h)\<lparr>k_writes := []\<rparr>"]) (simp add: rollback_def set_out_def)
  show "\<exists>k' c' rep. k_conn k' = Some i \<and> k_path k' = k_path (pl_out p ! h) \<and> k_busy k' = k_busy (pl_out p ! h)
      \<and> c_path c' = c_path (pl_conns p i) \<and> c_busy c' = c_busy (pl_conns p i) \<and> (c_tuned c' \<longrightarrow> k_dirty k')
      \<and> snd (rollback h a p) = p\<lparr>pl_out := (pl_out p)[h := k'], pl_conns := (pl_conns p)(i := c'), pl_reported := rep\<rparr>"
    if "k_conn (pl_out p ! h) = Some i" for i
    using that held_tuned_dirty [OF ok h that]
    by (intro exI [of _ "(pl_out p ! h)\<lparr>k_writes := [], k_rows := c_changes (pl_conns p i)\<rparr>"]
        exI [of _ "(pl_conns p i)\<lparr>c_tx := c_tx (pl_conns p i) \<and> \<not> a\<rparr>"] exI [of _ "pl_reported p"])
      (auto simp: rollback_def set_out_def set_conn_def Let_def)
qed

lemma pool_ok_method:
  assumes ok: "pool_ok p" and h: "h < length (pl_out p)"
  shows "pool_ok (snd (stateful_method h p))" "pool_ok (snd (set_attribute h name p))"
proof -
  let ?k = "(pl_out p ! h)\<lparr>k_dirty := True\<rparr>"
  have both: "pool_ok p \<and> (k_conn (pl_out p ! h) = None \<longrightarrow> pool_ok (p\<lparr>pl_out := (pl_out p)[h := ?k]\<rparr>))
    \<and> (\<forall>i. k_conn (pl_out p ! h) = Some i \<longrightarrow> pool_ok (p\<lparr>pl_out := (pl_out p)[h := ?k],
         pl_conns := (pl_conns p)(i := (pl_conns p i)\<lparr>c_tuned := True\<rparr>)\<rparr>))"
  proof (intro conjI impI allI)
    show "pool_ok (p\<lparr>pl_out := (pl_out p)[h := ?k]\<rparr>)" if "k_conn (pl_out p ! h) = None"
      by (rule pool_ok_closed [OF ok h that]) (simp add: that)
    show "pool_ok (p\<lparr>pl_out := (pl_out p)[h := ?k], pl_conns := (pl_conns p)(i := (pl_conns p i)\<lparr>c_tuned := True\<rparr>)\<rparr>)"
      if "k_conn (pl_out p ! h) = Some i" for i
      using pool_ok_local [OF ok h that, of ?k "(pl_conns p i)\<lparr>c_tuned := True\<rparr>" "pl_reported p"] that by simp
  qed (rule ok)
  then show "pool_ok (snd (stateful_method h p))" "pool_ok (snd (set_attribute h name p))"
    by (auto simp: stateful_method_def set_attribute_def set_out_def set_conn_def Let_def split: option.splits)
qed

lemma pool_ok_script:
  assumes ok: "pool_ok p" and h: "h < length (pl_out p)" and t: "tunes \<longrightarrow> state"
  shows "pool_ok (snd (executescript h state tunes ws rows ends p))"
proof (cases "k_conn (pl_out p ! h)")
  case None
  let ?k = "(pl_out p ! h)\<lparr>k_dirty := k_dirty (pl_out p ! h) \<or> state\<rparr>"
  have "pool_ok (p\<lparr>pl_out := (pl_out p)[h := ?k]\<rparr>)" by (rule pool_ok_closed [OF ok h None]) (simp add: None)
  with None show ?thesis by (simp add: executescript_def set_out_def)
next
  case (Some i)
  let ?k = "(pl_out p ! h)\<lparr>k_dirty := k_dirty (pl_out p ! h) \<or> state\<rparr>"
  let ?g = "\<lambda>c. c\<lparr>c_tx := False, c_tuned := c_tuned c \<or> tunes, c_changes := c_changes c + rows\<rparr>"
  let ?p1 = "set_out h (\<lambda>k. k\<lparr>k_dirty := k_dirty k \<or> state\<rparr>) p"
  have p1: "?p1 = p\<lparr>pl_out := (pl_out p)[h := ?k], pl_conns := (pl_conns p)(i := pl_conns p i), pl_reported := pl_reported p\<rparr>"
    by (cases p) (simp add: set_out_def)
  have ok1: "pool_ok ?p1"
    unfolding p1 using Some held_tuned_dirty [OF ok h Some] by (intro pool_ok_local [OF ok h Some]) auto
  have h1: "h < length (pl_out ?p1)" "k_conn (pl_out ?p1 ! h) = Some i" using h Some by (simp_all add: set_out_def)
  have tuned: "c_tuned (?g (pl_conns ?p1 i)) \<longrightarrow> k_dirty (pl_out ?p1 ! h)"
    using h t held_tuned_dirty [OF ok h Some] by (auto simp: set_out_def)
  have "pool_ok (set_conn i ?g ?p1)"
  proof -
    have "set_conn i ?g ?p1 = ?p1\<lparr>pl_out := (pl_out ?p1)[h := pl_out ?p1 ! h],
        pl_conns := (pl_conns ?p1)(i := ?g (pl_conns ?p1 i)), pl_reported := pl_reported ?p1\<rparr>"
      by (cases p) (simp add: set_conn_def set_out_def)
    then show ?thesis using pool_ok_local [OF ok1 h1, of "pl_out ?p1 ! h" "?g (pl_conns ?p1 i)" "pl_reported ?p1"] h1 tuned
      by simp
  qed
  moreover have "pool_ok (settle_report h i ws (set_conn i ?g ?p1))"
    using tuned by (intro pool_ok_settle [OF ok1 h1]) simp_all
  ultimately show ?thesis using Some by (simp add: executescript_def Let_def)
qed

lemma held_by_close:
  assumes "h < length (pl_out p)"
  shows "held_by (close h p) g j = (held_by p g j \<and> g \<noteq> h)"
  using assms by (auto simp: close_def held_by_def set_out_def Let_def nth_list_update split: option.splits)

lemma pool_ok_close:
  assumes ok: "pool_ok p" and h: "h < length (pl_out p)"
  shows "pool_ok (close h p)"
proof (cases "k_conn (pl_out p ! h)")
  case None
  with ok show ?thesis by (simp add: close_def)
next
  case (Some i)
  let ?r = "\<lparr>rl_conn = i, rl_path = k_path (pl_out p ! h), rl_busy = k_busy (pl_out p ! h),
    rl_keep = (pl_enabled p \<and> \<not> k_dirty (pl_out p ! h) \<and> c_open (pl_conns p i))\<rparr>"
  have here: "held_by p h i" using h Some by (simp add: held_by_def)
  have q: "pl_idle (close h p) = pl_idle p" "pl_releasing (close h p) = pl_releasing p @ [?r]" "pl_next (close h p) = pl_next p"
    "pl_idle_max (close h p) = pl_idle_max p" "pl_path (close h p) = pl_path p" "pl_conns (close h p) = pl_conns p"
    using Some by (simp_all add: close_def set_out_def Let_def)
  have out: "pl_out (close h p) ! g = pl_out p ! g" if "g \<noteq> h" for g
    using that Some by (simp add: close_def set_out_def Let_def)
  have ids: "idle_ids (close h p) = idle_ids p" "returning_ids (close h p) = insert i (returning_ids p)"
    by (auto simp: idle_ids_def returning_ids_def q)
  have fresh: "i \<notin> idle_ids p" "i \<notin> returning_ids p" "i < pl_next p" "\<And>g. held_by p g i \<Longrightarrow> g = h"
    using ok here by (auto simp: pool_ok_def exclusive_def)
  then have "distinct (map rl_conn (pl_releasing (close h p)))"
    using ok by (simp add: pool_ok_def exclusive_def q returning_ids_def)
  then have "exclusive (close h p)"
    using ok fresh unfolding pool_ok_def exclusive_def held_by_close [OF h] ids by (auto simp: q)
  moreover have "idle_clean (close h p)" using ok by (simp add: pool_ok_def idle_clean_def q)
  moreover have "held_marked (close h p)"
    using ok here out unfolding pool_ok_def held_marked_def held_by_close [OF h] q by auto
  ultimately show ?thesis by (simp add: pool_ok_def)
qed

text \<open>Emptying the idle list, repointing the pool, and opening a connection.\<close>

lemma pool_ok_emptied:
  assumes ok: "pool_ok p"
  shows "pool_ok (p\<lparr>pl_conns := close_conns is (pl_conns p), pl_idle := []\<rparr>)"
    "pool_ok (p\<lparr>pl_conns := close_conns is (pl_conns p), pl_idle := [], pl_path := a, pl_loop := b\<rparr>)"
    "pool_ok (p\<lparr>pl_enabled := e, pl_conns := close_conns is (pl_conns p), pl_idle := []\<rparr>)"
  using ok by (auto simp: pool_defs)

lemma pool_ok_bind: "pool_ok p \<Longrightarrow> pool_ok (bind path loop p)"
  by (simp add: bind_def retire_idle_def pool_ok_emptied)

lemma bind_path: "pl_path (bind path loop p) = Some path"
  by (simp add: bind_def)

lemma take_idle_spec:
  assumes "take_idle b cs xs = (r, ys)"
  shows "set ys \<subseteq> set xs \<and> length ys \<le> length xs \<and> (distinct (map snd xs) \<longrightarrow> distinct (map snd ys))
    \<and> (\<forall>i. r = Some i \<longrightarrow> (b, i) \<in> set xs \<and> c_open (cs i) \<and> (distinct (map snd xs) \<longrightarrow> i \<notin> snd ` set ys))"
  using assms
proof (induction b cs xs arbitrary: r ys rule: take_idle.induct)
  case (1 b cs)
  then show ?case by simp
next
  case (2 b cs k i rest)
  show ?case
  proof (cases "k = b \<and> c_open (cs i)")
    case True
    with 2(3) show ?thesis by auto
  next
    case False
    obtain r' ys' where t: "take_idle b cs rest = (r', ys')" by fastforce
    have "r = r' \<and> (ys = ys' \<or> ys = (k, i) # ys')" using 2(3) t False by (auto split: if_splits)
    moreover have "set ys' \<subseteq> set rest \<and> length ys' \<le> length rest \<and> (distinct (map snd rest) \<longrightarrow> distinct (map snd ys'))
      \<and> (\<forall>j. r' = Some j \<longrightarrow> (b, j) \<in> set rest \<and> c_open (cs j) \<and> (distinct (map snd rest) \<longrightarrow> j \<notin> snd ` set ys'))"
      using 2 t False by (cases "k = b") auto
    ultimately show ?thesis by force
  qed
qed

lemma pool_ok_fewer_idle:
  assumes ok: "pool_ok p" and t: "take_idle b cs (rev (pl_idle p)) = (r, rest)"
  shows "pool_ok (p\<lparr>pl_idle := rev rest\<rparr>)"
proof -
  have d: "distinct (map snd (rev (pl_idle p)))" using ok by (simp add: pool_ok_def exclusive_def rev_map [symmetric])
  note sp = take_idle_spec [OF t]
  have sub: "set rest \<subseteq> set (pl_idle p)" "length rest \<le> length (pl_idle p)" "distinct (map snd rest)"
    using sp d by auto
  let ?p = "p\<lparr>pl_idle := rev rest\<rparr>"
  have "idle_ids ?p \<subseteq> idle_ids p" "returning_ids ?p = returning_ids p" "\<And>h i. held_by ?p h i = held_by p h i"
    "distinct (map snd (pl_idle ?p))"
    using sub by (auto simp: idle_ids_def returning_ids_def held_by_def rev_map [symmetric])
  then have "exclusive ?p" using ok unfolding pool_ok_def exclusive_def by (simp add: subset_iff) blast
  moreover have "idle_clean (p\<lparr>pl_idle := rev rest\<rparr>)" using ok sub by (auto simp: pool_ok_def idle_clean_def)
  moreover have "held_marked (p\<lparr>pl_idle := rev rest\<rparr>)" using ok by (simp add: pool_ok_def held_marked_def held_by_def)
  ultimately show ?thesis by (simp add: pool_ok_def)
qed

text \<open>Handing out a connection nobody has.\<close>

lemma pool_ok_check_out:
  assumes ok: "pool_ok p" and i: "i < pl_next p" "i \<notin> idle_ids p" "i \<notin> returning_ids p"
      "\<And>h. \<not> held_by p h i"
    and c: "\<not> c_tuned (pl_conns p i)" "c_path (pl_conns p i) = path" "c_busy (pl_conns p i) = busy"
  shows "pool_ok (check_out i path busy p)"
proof -
  let ?p = "check_out i path busy p"
  have held: "held_by ?p g j = (held_by p g j \<or> (g = length (pl_out p) \<and> j = i))" for g j
    by (auto simp: held_by_def check_out_def nth_append)
  have out: "pl_out ?p ! g = pl_out p ! g" if "held_by p g j" for g j
    using that by (auto simp: held_by_def check_out_def nth_append)
  have new: "pl_out ?p ! length (pl_out p) = \<lparr>k_conn = Some i, k_path = path, k_busy = busy, k_dirty = False,
     k_writes = [], k_rows = c_changes (pl_conns p i)\<rparr>" by (simp add: check_out_def)
  have same: "pl_idle ?p = pl_idle p" "pl_releasing ?p = pl_releasing p" "pl_next ?p = pl_next p"
    "pl_idle_max ?p = pl_idle_max p" "pl_path ?p = pl_path p" "pl_conns ?p = pl_conns p"
    by (simp_all add: check_out_def)
  have "idle_ids ?p = idle_ids p" "returning_ids ?p = returning_ids p"
    by (simp_all add: idle_ids_def returning_ids_def same)
  then have "exclusive ?p" using ok i unfolding pool_ok_def exclusive_def held same by auto
  moreover have "idle_clean ?p" using ok by (simp add: pool_ok_def idle_clean_def same)
  moreover have "held_marked ?p"
    using ok c out new unfolding pool_ok_def held_marked_def held same by auto
  ultimately show ?thesis by (simp add: pool_ok_def)
qed

lemma pool_ok_open:
  assumes ok: "pool_ok p"
  shows "pool_ok (snd (open_connection path busy p))"
proof -
  let ?p = "snd (open_connection path busy p)"
  have ne: "j \<noteq> pl_next p" if "held_by p h j \<or> j \<in> idle_ids p \<or> j \<in> returning_ids p" for h j
    using ok that unfolding pool_ok_def exclusive_def by auto
  have same: "held_by ?p g j = held_by p g j" "idle_ids ?p = idle_ids p" "returning_ids ?p = returning_ids p"
    "pl_next ?p = Suc (pl_next p)" "pl_idle ?p = pl_idle p" "pl_releasing ?p = pl_releasing p" "pl_out ?p = pl_out p"
    "pl_path ?p = pl_path p" "pl_idle_max ?p = pl_idle_max p" for g j
    by (simp_all add: held_by_def open_connection_def idle_ids_def returning_ids_def)
  have conns: "pl_conns ?p j = pl_conns p j" if "j \<noteq> pl_next p" for j using that by (simp add: open_connection_def)
  have "exclusive ?p" using ok unfolding pool_ok_def exclusive_def same by (auto simp: less_Suc_eq)
  moreover have "idle_clean ?p"
    using ok ne idle_ids_I conns unfolding pool_ok_def idle_clean_def same by (metis (no_types, lifting))
  moreover have "held_marked ?p"
    unfolding held_marked_def same
  proof (rule conjI; intro allI ballI impI)
    fix g j
    assume g: "held_by p g j"
    then have "pl_conns ?p j = pl_conns p j" using ne by (intro conns) blast
    with g ok show "(c_tuned (pl_conns ?p j) \<longrightarrow> k_dirty (pl_out p ! g)) \<and> c_path (pl_conns ?p j) = k_path (pl_out p ! g)
        \<and> c_busy (pl_conns ?p j) = k_busy (pl_out p ! g)"
      by (simp add: pool_ok_def held_marked_def)
  next
    fix r
    assume r: "r \<in> set (pl_releasing p)"
    then have "pl_conns ?p (rl_conn r) = pl_conns p (rl_conn r)" using ne returning_ids_I by (intro conns) blast
    with r ok show "(rl_keep r \<longrightarrow> \<not> c_tuned (pl_conns ?p (rl_conn r))) \<and> c_path (pl_conns ?p (rl_conn r)) = rl_path r
        \<and> c_busy (pl_conns ?p (rl_conn r)) = rl_busy r"
      by (simp add: pool_ok_def held_marked_def)
  qed
  ultimately show ?thesis by (simp add: pool_ok_def)
qed

text \<open>A checkout, with what its caller may rely on.\<close>

lemma acquire_effect:
  assumes ok: "pool_ok p" and a: "acquire path busy loop opens p = (res, p')"
  shows "pool_ok p'"
    "res = Inr (Pooled h) \<Longrightarrow> \<exists>i. held_by p' h i \<and> \<not> c_tx (pl_conns p' i) \<and> \<not> c_tuned (pl_conns p' i)
       \<and> c_open (pl_conns p' i) \<and> c_path (pl_conns p' i) = path \<and> c_busy (pl_conns p' i) = busy
       \<and> (\<forall>g. g \<noteq> h \<longrightarrow> \<not> held_by p' g i)"
proof -
  have "pool_ok p' \<and> (res = Inr (Pooled h) \<longrightarrow> (\<exists>i. held_by p' h i \<and> \<not> c_tx (pl_conns p' i) \<and> \<not> c_tuned (pl_conns p' i)
       \<and> c_open (pl_conns p' i) \<and> c_path (pl_conns p' i) = path \<and> c_busy (pl_conns p' i) = busy))"
  proof (cases "pl_enabled p")
    case False
    with a ok pool_ok_open [OF ok, of path busy] show ?thesis
      by (auto simp: acquire_def open_connection_def split: if_splits)
  next
    case en: True
    let ?p1 = "bind path loop p"
    obtain r rest where t: "take_idle busy (pl_conns ?p1) (rev (pl_idle ?p1)) = (r, rest)" by fastforce
    let ?p2 = "?p1\<lparr>pl_idle := rev rest\<rparr>"
    have ok1: "pool_ok ?p1" by (rule pool_ok_bind [OF ok])
    have ok2: "pool_ok ?p2" by (rule pool_ok_fewer_idle [OF ok1 t])
    show ?thesis
    proof (cases r)
      case None
      let ?p3 = "snd (open_connection path busy ?p2)" and ?i = "pl_next ?p2"
      have fresh: "?i \<notin> idle_ids ?p3" "?i \<notin> returning_ids ?p3" "\<not> held_by ?p3 g ?i" for g
        using ok2 by (auto simp: pool_ok_def exclusive_def open_connection_def held_by_def idle_ids_def returning_ids_def)
      have new: "?i < pl_next ?p3" "\<not> c_tuned (pl_conns ?p3 ?i)" "c_path (pl_conns ?p3 ?i) = path"
        "c_busy (pl_conns ?p3 ?i) = busy" by (simp_all add: open_connection_def)
      have "pool_ok (check_out ?i path busy ?p3)"
        using fresh new by (intro pool_ok_check_out [OF pool_ok_open [OF ok2]])
      moreover have "held_by (check_out ?i path busy ?p3) (length (pl_out ?p3)) ?i" by (simp add: check_out_def held_by_def)
      ultimately show ?thesis
        using a en None t ok2
        by (auto simp: acquire_def Let_def open_connection_def check_out_def split: if_splits)
    next
      case (Some i)
      have d: "distinct (map snd (rev (pl_idle ?p1)))" using ok1 by (simp add: pool_ok_def exclusive_def rev_map [symmetric])
      from take_idle_spec [OF t] Some d have i: "(busy, i) \<in> set (pl_idle ?p1)" "c_open (pl_conns ?p1 i)" "i \<notin> snd ` set rest"
        by auto
      then have "i \<in> idle_ids ?p1" by (intro idle_ids_I)
      moreover have same: "returning_ids ?p2 = returning_ids ?p1" "held_by ?p2 g j = held_by ?p1 g j"
        "idle_ids ?p2 = snd ` set rest" "pl_next ?p2 = pl_next ?p1" for g j
        by (simp_all add: returning_ids_def held_by_def idle_ids_def)
      ultimately have away: "i < pl_next ?p2" "i \<notin> idle_ids ?p2" "i \<notin> returning_ids ?p2" "\<not> held_by ?p2 g i" for g
        using ok1 i(3) same unfolding pool_ok_def exclusive_def by auto
      have clean: "\<not> c_tx (pl_conns ?p2 i)" "\<not> c_tuned (pl_conns ?p2 i)" "c_path (pl_conns ?p2 i) = path"
        "c_busy (pl_conns ?p2 i) = busy"
        using ok1 i(1) bind_path [of path loop p] by (auto simp: pool_ok_def idle_clean_def)
      have "pool_ok (check_out i path busy ?p2)"
        using away clean by (intro pool_ok_check_out [OF ok2])
      moreover have "held_by (check_out i path busy ?p2) (length (pl_out ?p2)) i" by (simp add: check_out_def held_by_def)
      ultimately show ?thesis
        using a en Some t clean i(2) by (auto simp: acquire_def Let_def check_out_def)
    qed
  qed
  then show "pool_ok p'" "res = Inr (Pooled h) \<Longrightarrow> \<exists>i. held_by p' h i \<and> \<not> c_tx (pl_conns p' i) \<and> \<not> c_tuned (pl_conns p' i)
       \<and> c_open (pl_conns p' i) \<and> c_path (pl_conns p' i) = path \<and> c_busy (pl_conns p' i) = busy
       \<and> (\<forall>g. g \<noteq> h \<longrightarrow> \<not> held_by p' g i)"
    by (auto simp: pool_ok_def exclusive_def)
qed

lemma pool_ok_touch:
  assumes ok: "pool_ok p" and g: "\<And>c. c_tx (g c) = c_tx c" "\<And>c. c_tuned (g c) = c_tuned c" "\<And>c. c_path (g c) = c_path c"
    "\<And>c. c_busy (g c) = c_busy c"
  shows "pool_ok (set_conn i g p)"
  using ok by (subst pool_ok_cong [where p = p]) (simp_all add: set_conn_def g)

text \<open>Returning: the connection leaves the list of those being returned, and is pooled or closed.\<close>

lemma pool_ok_returned:
  assumes ok: "pool_ok p" and n: "n < length (pl_releasing p)"
  defines "p1 \<equiv> p\<lparr>pl_releasing := take n (pl_releasing p) @ drop (Suc n) (pl_releasing p)\<rparr>"
  shows "pool_ok p1" "rl_conn (pl_releasing p ! n) \<notin> idle_ids p1 \<union> returning_ids p1"
    "\<not> held_by p1 g (rl_conn (pl_releasing p ! n))" "rl_conn (pl_releasing p ! n) < pl_next p1"
proof -
  let ?r = "pl_releasing p ! n" and ?rs = "take n (pl_releasing p) @ drop (Suc n) (pl_releasing p)"
  have split: "pl_releasing p = take n (pl_releasing p) @ ?r # drop (Suc n) (pl_releasing p)"
    by (rule id_take_nth_drop [OF n])
  have d: "distinct (map rl_conn (take n (pl_releasing p) @ ?r # drop (Suc n) (pl_releasing p)))"
    using ok split unfolding pool_ok_def exclusive_def by metis
  then have d1: "distinct (map rl_conn ?rs)" "rl_conn ?r \<notin> rl_conn ` set ?rs" by auto
  have sub: "set ?rs \<subseteq> set (pl_releasing p)" by (auto dest: in_set_takeD in_set_dropD)
  have ret: "returning_ids p1 \<subseteq> returning_ids p" "rl_conn ?r \<notin> returning_ids p1"
    using sub d1(2) by (auto simp: p1_def returning_ids_def)
  have same: "idle_ids p1 = idle_ids p" "held_by p1 h j = held_by p h j" "pl_next p1 = pl_next p" for h j
    by (simp_all add: p1_def idle_ids_def held_by_def)
  have r: "rl_conn ?r \<in> returning_ids p" using n by (simp add: returning_ids_def)
  have "exclusive p1"
    using ok ret(1) d1(1) unfolding pool_ok_def exclusive_def same by (auto simp: p1_def)
  moreover have "idle_clean p1" using ok by (simp add: pool_ok_def idle_clean_def p1_def)
  moreover have "held_marked p1"
    using ok sub unfolding pool_ok_def held_marked_def same by (auto simp: p1_def)
  ultimately show "pool_ok p1" by (simp add: pool_ok_def)
  show "rl_conn ?r \<notin> idle_ids p1 \<union> returning_ids p1" "\<not> held_by p1 g (rl_conn ?r)" "rl_conn ?r < pl_next p1"
    using ok r ret(2) unfolding pool_ok_def exclusive_def same by auto
qed

lemma pool_ok_pooled:
  assumes ok: "pool_ok p" and i: "i \<notin> idle_ids p \<union> returning_ids p" "\<And>g. \<not> held_by p g i" "i < pl_next p"
    and c: "\<not> c_tx (pl_conns p i)" "\<not> c_tuned (pl_conns p i)" "pl_path p = Some (c_path (pl_conns p i))" "c_busy (pl_conns p i) = b"
    and room: "idle_count p < pl_idle_max p"
  shows "pool_ok (p\<lparr>pl_idle := pl_idle p @ [(b, i)]\<rparr>)"
proof -
  let ?p = "p\<lparr>pl_idle := pl_idle p @ [(b, i)]\<rparr>"
  have same: "idle_ids ?p = insert i (idle_ids p)" "returning_ids ?p = returning_ids p" "held_by ?p h j = held_by p h j" for h j
    by (auto simp: idle_ids_def returning_ids_def held_by_def)
  have "distinct (map snd (pl_idle ?p))" using ok i(1) by (auto simp: pool_ok_def exclusive_def idle_ids_def)
  then have "exclusive ?p" using ok i unfolding pool_ok_def exclusive_def same by auto
  moreover have "idle_clean ?p" using ok c room by (auto simp: pool_ok_def idle_clean_def idle_count_def)
  moreover have "held_marked ?p" using ok unfolding pool_ok_def held_marked_def same by simp
  ultimately show ?thesis by (simp add: pool_ok_def)
qed

lemma pool_ok_set_free:
  assumes ok: "pool_ok p" and i: "i \<notin> idle_ids p \<union> returning_ids p" "\<And>g. \<not> held_by p g i"
  shows "pool_ok (set_conn i g p)"
proof -
  have "j \<noteq> i" if "held_by p h j \<or> j \<in> idle_ids p \<or> j \<in> returning_ids p" for h j using that i by auto
  then have c: "held_by p h j \<Longrightarrow> pl_conns (set_conn i g p) j = pl_conns p j"
    "j \<in> idle_ids p \<Longrightarrow> pl_conns (set_conn i g p) j = pl_conns p j"
    "j \<in> returning_ids p \<Longrightarrow> pl_conns (set_conn i g p) j = pl_conns p j" for h j
    by (auto simp: set_conn_def)
  have same: "idle_ids (set_conn i g p) = idle_ids p" "returning_ids (set_conn i g p) = returning_ids p"
    "held_by (set_conn i g p) h j = held_by p h j" "pl_idle (set_conn i g p) = pl_idle p"
    "pl_releasing (set_conn i g p) = pl_releasing p" "pl_out (set_conn i g p) = pl_out p" "pl_next (set_conn i g p) = pl_next p"
    "pl_path (set_conn i g p) = pl_path p" "pl_idle_max (set_conn i g p) = pl_idle_max p" for h j
    by (simp_all add: set_conn_def idle_ids_def returning_ids_def held_by_def)
  have "exclusive (set_conn i g p)" using ok unfolding pool_ok_def exclusive_def same by simp
  moreover have "idle_clean (set_conn i g p)"
    using ok c(2) [OF idle_ids_I] unfolding pool_ok_def idle_clean_def same by auto
  moreover have "held_marked (set_conn i g p)"
    using ok c(1) c(3) [OF returning_ids_I] unfolding pool_ok_def held_marked_def same by auto
  ultimately show ?thesis by (simp add: pool_ok_def)
qed

lemma pool_ok_release:
  assumes ok: "pool_ok p" and n: "n < length (pl_releasing p)"
  shows "pool_ok (snd (release n outcome loop p))"
proof -
  let ?r = "pl_releasing p ! n" and ?i = "rl_conn (pl_releasing p ! n)"
  let ?p1 = "p\<lparr>pl_releasing := take n (pl_releasing p) @ drop (Suc n) (pl_releasing p)\<rparr>"
  note ret = pool_ok_returned [OF ok n]
  have marked: "(rl_keep ?r \<longrightarrow> \<not> c_tuned (pl_conns p ?i)) \<and> c_path (pl_conns p ?i) = rl_path ?r \<and> c_busy (pl_conns p ?i) = rl_busy ?r"
    using ok n by (simp add: pool_ok_def held_marked_def)
  have any: "pool_ok (set_conn ?i g ?p1)" for g by (rule pool_ok_set_free [OF ret(1,2,3)])
  let ?p2 = "set_conn ?i (\<lambda>c. c\<lparr>c_tx := False\<rparr>) ?p1"
  have closed: "pool_ok (set_conn ?i (\<lambda>c. c\<lparr>c_open := False\<rparr>) ?p2)" by (rule pool_ok_touch [OF any]) simp_all
  have pooled: "pool_ok (?p2\<lparr>pl_idle := pl_idle ?p2 @ [(rl_busy ?r, ?i)]\<rparr>)"
    if "rl_keep ?r" "pl_path ?p2 = Some (rl_path ?r)" "idle_count ?p2 < pl_idle_max ?p2"
  proof (rule pool_ok_pooled [OF any])
    show "?i \<notin> idle_ids ?p2 \<union> returning_ids ?p2" "\<And>g. \<not> held_by ?p2 g ?i" "?i < pl_next ?p2"
      using ret(2,3,4) by (simp_all add: set_conn_def idle_ids_def returning_ids_def held_by_def)
  qed (use that marked in \<open>simp_all add: set_conn_def\<close>)
  show ?thesis
    using any closed pooled by (auto simp: release_def Let_def not_le)
qed

lemma pool_ok_step: "pool_ok p \<Longrightarrow> pool_step p p' \<Longrightarrow> pool_ok p'"
proof (erule pool_step.cases)
  fix q path busy loop opens
  assume "pool_ok p" "p = q" "p' = snd (acquire path busy loop opens q)"
  then show "pool_ok p'" using acquire_effect(1) by (metis prod.collapse)
qed (auto simp: enable_def aclose_def retire_idle_def close_idle_def pool_ok_emptied pool_ok_execute pool_ok_commit
    pool_ok_rollback pool_ok_script pool_ok_method pool_ok_close pool_ok_release pool_ok_touch
    pool_ok_cong [where p' = "p\<lparr>pl_enabled := True\<rparr>"])

interpretation pool_inv: invariant_system "\<lambda>p. \<exists>m. p = new_pool m" pool_step pool_ok
proof unfold_locales
  show "pool_ok p" if "\<exists>m. p = new_pool m" for p using that by (auto simp: new_pool_def pool_defs)
qed (rule pool_ok_step)

subsection \<open>What is reported\<close>

fun run_stmts :: "nat \<Rightarrow> stmt list \<Rightarrow> dbp \<Rightarrow> dbp" where
  "run_stmts h [] p = p"
| "run_stmts h (s # ss) p = run_stmts h ss (snd (execute h s p))"

definition writes_of :: "stmt list \<Rightarrow> cwrite list" where
  "writes_of ss = concat (map (\<lambda>s. case s_write s of None \<Rightarrow> [] | Some w \<Rightarrow> [w]) ss)"

lemma run_stmts_effect:
  assumes "h < length (pl_out p)" and "k_conn (pl_out p ! h) = Some i"
  shows "h < length (pl_out (run_stmts h ss p)) \<and> k_conn (pl_out (run_stmts h ss p) ! h) = Some i
    \<and> k_writes (pl_out (run_stmts h ss p) ! h) = k_writes (pl_out p ! h) @ writes_of ss
    \<and> k_rows (pl_out (run_stmts h ss p) ! h) = k_rows (pl_out p ! h)
    \<and> c_changes (pl_conns (run_stmts h ss p) i) = c_changes (pl_conns p i) + sum_list (map s_rows ss)
    \<and> pl_reported (run_stmts h ss p) = pl_reported p"
  using assms
proof (induction ss arbitrary: p)
  case Nil
  then show ?case by (simp add: writes_of_def)
next
  case (Cons s ss)
  let ?p = "snd (execute h s p)"
  have eff: "h < length (pl_out ?p)" "k_conn (pl_out ?p ! h) = Some i"
    "k_writes (pl_out ?p ! h) = k_writes (pl_out p ! h) @ writes_of [s]" "k_rows (pl_out ?p ! h) = k_rows (pl_out p ! h)"
    "c_changes (pl_conns ?p i) = c_changes (pl_conns p i) + s_rows s" "pl_reported ?p = pl_reported p"
    using Cons.prems
    by (simp_all add: execute_def set_out_def set_conn_def note_stmt_def run_stmt_def writes_of_def)
  from Cons.IH [OF eff(1,2)] eff show ?case by (simp add: writes_of_def)
qed

subsection \<open>Properties\<close>

text \<open>C33. In whatever state requests, cancellations, failed resets, repointing and shutdown left the pool,
  a pooled checkout hands out an open connection to the file and with the busy timeout asked for, with
  no transaction open on it, configured like a fresh one, and held by no other handle.\<close>

theorem checkout_is_as_fresh:
  assumes "pool_step\<^sup>*\<^sup>* (new_pool m) p" and "acquire path busy loop opens p = (Inr (Pooled h), p')"
  shows "\<exists>i. held_by p' h i \<and> \<not> c_tx (pl_conns p' i) \<and> \<not> c_tuned (pl_conns p' i)
       \<and> c_open (pl_conns p' i) \<and> c_path (pl_conns p' i) = path \<and> c_busy (pl_conns p' i) = busy
       \<and> (\<forall>g. g \<noteq> h \<longrightarrow> \<not> held_by p' g i)"
proof -
  have "pool_ok p" by (rule pool_inv.inv_reachable [OF _ assms(1)]) blast
  from acquire_effect(2) [OF this assms(2) refl] show ?thesis .
qed

theorem checkout_is_as_fresh_witness:
  "\<exists>i. held_by (snd (acquire ''db'' 5000 1 True (enable (new_pool 8)))) 0 i"
proof -
  let ?r = "acquire ''db'' 5000 1 True (enable (new_pool 8))"
  have "pool_step\<^sup>*\<^sup>* (new_pool 8) (enable (new_pool 8))" by (rule r_into_rtranclp) (rule p_enable)
  moreover have "?r = (Inr (Pooled 0), snd ?r)"
    by (simp add: acquire_def enable_def new_pool_def bind_def retire_idle_def open_connection_def check_out_def Let_def)
  ultimately show ?thesis using checkout_is_as_fresh [of 8 "enable (new_pool 8)" "''db''" 5000 1 True 0 "snd ?r"] by blast
qed

text \<open>What the pool keeps idle is bounded and safe to hand out: at most the configured number of
  connections, each to the pool's current file, none inside a transaction, none tuned, and none held by
  a handle or about to be returned.\<close>

theorem idle_connections_are_clean:
  assumes "pool_step\<^sup>*\<^sup>* (new_pool m) p"
  shows "idle_count p \<le> pl_idle_max p \<and> distinct (map snd (pl_idle p))
    \<and> (\<forall>b i. (b, i) \<in> set (pl_idle p) \<longrightarrow> \<not> c_tx (pl_conns p i) \<and> \<not> c_tuned (pl_conns p i)
         \<and> pl_path p = Some (c_path (pl_conns p i)) \<and> (\<forall>h. \<not> held_by p h i))"
proof -
  have ok: "pool_ok p" by (rule pool_inv.inv_reachable [OF _ assms]) blast
  then have "\<not> held_by p h i" if "(b, i) \<in> set (pl_idle p)" for b h i
    using idle_ids_I [OF that] by (auto simp: pool_ok_def exclusive_def)
  with ok show ?thesis by (auto simp: pool_ok_def idle_clean_def exclusive_def idle_count_def)
qed

theorem idle_connections_are_clean_witness:
  "let p = snd (release 0 Reset_Clean 1 (close 0 (snd (execute 0 \<lparr>s_write = None, s_state = False, s_tunes = False,
             s_begins = True, s_rows = 0\<rparr> (snd (acquire ''db'' 5000 1 True (enable (new_pool 8))))))))
   in pl_idle p = [(5000, 0)] \<and> \<not> c_tx (pl_conns p 0)"
proof -
  let ?s = "\<lparr>s_write = None, s_state = False, s_tunes = False, s_begins = True, s_rows = 0\<rparr>"
  let ?p1 = "snd (acquire ''db'' 5000 1 True (enable (new_pool 8)))"
  let ?p2 = "snd (execute 0 ?s ?p1)"
  let ?p3 = "close 0 ?p2"
  let ?p4 = "snd (release 0 Reset_Clean 1 ?p3)"
  have p1: "length (pl_out ?p1) = 1"
    by (simp add: acquire_def enable_def new_pool_def bind_def retire_idle_def open_connection_def check_out_def Let_def)
  have p2: "length (pl_out ?p2) = 1"
    using p1 by (auto simp: execute_def set_out_def set_conn_def Let_def split: option.splits)
  have eval: "pl_idle ?p4 = [(5000, 0)]" "length (pl_releasing ?p3) = 1"
    by (simp_all add: acquire_def enable_def new_pool_def bind_def retire_idle_def open_connection_def check_out_def Let_def
        execute_def set_out_def set_conn_def note_stmt_def run_stmt_def close_def release_def idle_count_def)
  have "pool_step\<^sup>*\<^sup>* (new_pool 8) ?p4"
  proof -
    have "pool_step (new_pool 8) (enable (new_pool 8))" by (rule p_enable)
    moreover have "pool_step (enable (new_pool 8)) ?p1" by (rule p_acquire)
    moreover have "pool_step ?p1 ?p2" by (rule p_execute; use p1 in simp)
    moreover have "pool_step ?p2 ?p3" by (rule p_close; use p2 in simp)
    moreover have "pool_step ?p3 ?p4" by (rule p_release; use eval(2) in simp)
    ultimately show ?thesis by (meson rtranclp.rtrancl_refl rtranclp.rtrancl_into_rtrancl)
  qed
  from idle_connections_are_clean [OF this] eval show ?thesis by (simp add: Let_def)
qed

text \<open>A transaction is reported exactly once, when it commits and changed rows, with every write its
  statements named, in order; rolled back, or returned without a commit, it is not reported at all.\<close>

theorem commit_reports_its_writes:
  assumes "h < length (pl_out p)" and "k_conn (pl_out p ! h) = Some i" and "k_writes (pl_out p ! h) = []"
    and "k_rows (pl_out p ! h) = c_changes (pl_conns p i)"
  shows "pl_reported (snd (commit h True (run_stmts h ss p))) = pl_reported p @
      (if (\<exists>s \<in> set ss. s_rows s > 0) \<and> writes_of ss \<noteq> [] then [writes_of ss] else [])
    \<and> pl_reported (snd (rollback h a (run_stmts h ss p))) = pl_reported p
    \<and> pl_reported (snd (release n outcome loop (close h (run_stmts h ss p)))) = pl_reported p"
proof -
  have z: "(sum_list (map s_rows ss) = 0) = (\<forall>s \<in> set ss. s_rows s = 0)" by (induction ss) auto
  have c: "pl_reported (close h q) = pl_reported q" "pl_reported (snd (release n outcome loop q)) = pl_reported q" for q
    by (simp_all add: close_def release_def set_out_def set_conn_def Let_def split: option.splits)
  show ?thesis
    using run_stmts_effect [OF assms(1,2), of ss] assms(3,4) z
    by (auto simp: commit_def rollback_def settle_report_eq set_conn_def set_out_def Let_def c)
qed

definition demo_insert :: stmt where
  "demo_insert = \<lparr>s_write = Some \<lparr>w_table = ''messages'', w_columns = Some []\<rparr>, s_state = False, s_tunes = False,
     s_begins = True, s_rows = 1\<rparr>"

definition demo_pool :: dbp where
  "demo_pool = snd (acquire ''db'' 5000 1 True (enable (new_pool 8)))"

lemma demo_pool_out:
  "pl_out demo_pool = [\<lparr>k_conn = Some 0, k_path = ''db'', k_busy = 5000, k_dirty = False, k_writes = [], k_rows = 0\<rparr>]"
  "pl_conns demo_pool 0 = \<lparr>c_path = ''db'', c_busy = 5000, c_open = True, c_tx = False, c_tuned = False, c_changes = 0\<rparr>"
  "pl_reported demo_pool = []"
  by (simp_all add: demo_pool_def acquire_def enable_def new_pool_def bind_def retire_idle_def open_connection_def
      check_out_def Let_def)

theorem commit_reports_its_writes_witness:
  "pl_reported (snd (commit 0 True (run_stmts 0 [demo_insert] demo_pool))) = [writes_of [demo_insert]]"
  using commit_reports_its_writes [of 0 demo_pool 0 "[demo_insert]" True 0 Reset_Clean 1]
  by (simp add: demo_pool_out demo_insert_def writes_of_def)

text \<open>A handle that was closed is dead: it runs no statement, commits nothing, reports nothing and
  changes no connection, even if its connection has been handed to another request since.\<close>

theorem closed_handle_is_dead:
  assumes "h < length (pl_out p)"
  shows "fst (execute h s (close h p)) = Inl Connection_Closed \<and> fst (commit h a (close h p)) = Inl Connection_Closed
    \<and> fst (rollback h a (close h p)) = Inl Connection_Closed
    \<and> pl_conns (snd (execute h s (close h p))) = pl_conns (close h p)
    \<and> pl_reported (snd (commit h a (close h p))) = pl_reported p
    \<and> close h (close h p) = close h p"
proof -
  have "k_conn (pl_out (close h p) ! h) = None"
    using assms by (auto simp: close_def set_out_def Let_def split: option.splits)
  moreover have "pl_reported (close h p) = pl_reported p"
    by (simp add: close_def set_out_def Let_def split: option.splits)
  ultimately show ?thesis
    by (simp add: execute_def commit_def rollback_def set_out_def Let_def) (simp add: close_def)
qed

theorem closed_handle_is_dead_witness:
  "fst (execute 0 demo_insert (close 0 demo_pool)) = Inl Connection_Closed"
  using closed_handle_is_dead [of 0 demo_pool demo_insert True] by (simp add: demo_pool_out)

text \<open>A script that fails can hide a committed write: SQLite commits the pending INSERT before the
  script runs; the script raises, the INSERT is durable, and the rollback that follows forgets its note,
  so no report of it is ever made.\<close>

theorem failed_script_hides_committed_write:
  "let p1 = snd (execute 0 demo_insert demo_pool);
       (r2, p2) = executescript 0 False False [] 0 False p1;
       p3 = snd (rollback 0 True p2);
       p4 = snd (commit 0 True p3)
   in c_tx (pl_conns p1 0) \<and> r2 = Inl Driver_Error \<and> \<not> c_tx (pl_conns p2 0) \<and> c_changes (pl_conns p2 0) = 1
      \<and> pl_reported p4 = []"
  by (simp add: execute_def executescript_def rollback_def commit_def settle_report_eq set_out_def set_conn_def Let_def
      note_stmt_def run_stmt_def demo_insert_def demo_pool_out)

end
