(* ===== verification/StateMirror.thy ===== *)
theory StateMirror
  imports Prelude
begin

text \<open>
  The mirror of what each aify-env published (\<open>service/api_core/agent_state_mirror.py\<close>): per
  publisher, a machine and an instance on it, the records of the agents it holds and how far they can
  be trusted. The mirror is process-local; \<open>StateIngest\<close> keeps the tables behind it.

  A view is a \<open>MappingProxyType\<close> over a dict, replaced as a whole by every operation, so the model
  passes it as a value. The process-wide variable \<open>mirror\<close> is a view, or unreadable for good once the
  process is quarantined.
\<close>

declare split_paired_All [simp del] split_paired_Ex [simp del]

type_synonym pkey = "string \<times> string"

record arec =
  a_id :: string
  a_lifetime :: "string option"
  a_state :: string
  a_busy :: "bool option"

record publisher =
  p_generation :: "int option"
  p_data_applied_at :: "string option"
  p_complete :: bool
  p_unavailable :: bool
  p_rows :: "arec list"
  p_loss :: bool
  p_incarnation :: "string option"
  p_publication :: "int option"
  p_build :: "string option"
  p_restored :: bool
  p_report :: "(string \<times> int option) option"

record projection =
  j_key :: pkey
  j_kind :: string
  j_generation :: int
  j_applied_at :: string
  j_rows :: "arec list"
  j_removed :: "(string \<times> string) list"
  j_incarnation :: string
  j_publication :: int
  j_build :: "string option"

type_synonym pview = "(pkey \<times> publisher) list"

datatype mirror = Readable pview | Unreadable

subsection \<open>Operations\<close>

definition lost_entry :: "publisher option \<Rightarrow> publisher" where
  "lost_entry old = \<lparr>p_generation = Option.bind old p_generation, p_data_applied_at = Option.bind old p_data_applied_at,
     p_complete = False, p_unavailable = True, p_rows = (case old of None \<Rightarrow> [] | Some q \<Rightarrow> p_rows q), p_loss = True,
     p_incarnation = Option.bind old p_incarnation, p_publication = Option.bind old p_publication,
     p_build = Option.bind old p_build, p_restored = False, p_report = None\<rparr>"

definition invalidate :: "pkey \<Rightarrow> pview \<Rightarrow> pview" where
  "invalidate key v = AList.update key (lost_entry (map_of v key)) v"

definition restore_publisher :: "pkey \<Rightarrow> publisher \<Rightarrow> pview \<Rightarrow> bool \<times> pview" where
  "restore_publisher key p v =
     (case map_of v key of Some _ \<Rightarrow> (False, v) | None \<Rightarrow> (True, AList.update key p v))"

definition renew_report :: "pkey \<Rightarrow> string \<Rightarrow> int option \<Rightarrow> pview \<Rightarrow> pview" where
  "renew_report key received_at every v = (case map_of v key of
     None \<Rightarrow> v | Some old \<Rightarrow> AList.update key (old\<lparr>p_report := Some (received_at, every)\<rparr>) v)"

definition retire :: "pkey \<Rightarrow> pview \<Rightarrow> pview" where
  "retire key v = AList.delete key v"

text \<open>\<open>{r.agent_id: r for r in rs}\<close> and \<open>rows.update(...)\<close>: later records replace earlier ones in place.\<close>

definition put_rows :: "arec list \<Rightarrow> (string \<times> arec) list \<Rightarrow> (string \<times> arec) list" where
  "put_rows rs d = fold (\<lambda>r. AList.update (a_id r) r) rs d"

text \<open>An ended lifetime is removed only while the row still has that lifetime.\<close>

definition drop_removed :: "(string \<times> string) list \<Rightarrow> (string \<times> arec) list \<Rightarrow> (string \<times> arec) list" where
  "drop_removed rem d = fold (\<lambda>(aid, lifetime) d. case map_of d aid of
     Some r \<Rightarrow> if a_lifetime r = Some lifetime then AList.delete aid d else d | None \<Rightarrow> d) rem d"

definition replaces :: "projection \<Rightarrow> publisher option \<Rightarrow> bool" where
  "replaces p old = (j_kind p = ''snapshot'' \<or>
     (case old of None \<Rightarrow> True | Some q \<Rightarrow> p_generation q \<noteq> Some (j_generation p)))"

definition fed_rows :: "projection \<Rightarrow> publisher option \<Rightarrow> (string \<times> arec) list" where
  "fed_rows p old = put_rows (j_rows p) (if replaces p old then []
     else drop_removed (j_removed p) (put_rows (p_rows (the old)) []))"

definition feed_unavailable :: "publisher option \<Rightarrow> publisher" where
  "feed_unavailable old = (case old of
     None \<Rightarrow> \<lparr>p_generation = None, p_data_applied_at = None, p_complete = False, p_unavailable = True, p_rows = [],
       p_loss = False, p_incarnation = None, p_publication = None, p_build = None, p_restored = False, p_report = None\<rparr>
   | Some q \<Rightarrow> q\<lparr>p_unavailable := True, p_report := None\<rparr>)"

definition feed_data :: "projection \<Rightarrow> publisher option \<Rightarrow> publisher" where
  "feed_data p old =
     (let complete = (j_kind p = ''snapshot'' \<or> (\<not> replaces p old \<and> p_complete (the old))) in
      \<lparr>p_generation = Some (j_generation p), p_data_applied_at = Some (j_applied_at p), p_complete = complete,
       p_unavailable = False, p_rows = map snd (fed_rows p old), p_loss = False,
       p_incarnation = Some (j_incarnation p), p_publication = Some (j_publication p), p_build = j_build p,
       p_restored = ((case old of None \<Rightarrow> False | Some q \<Rightarrow> p_restored q) \<and> \<not> complete), p_report = None\<rparr>)"

definition feed_mirror :: "projection \<Rightarrow> pview \<Rightarrow> pview" where
  "feed_mirror p v = (let old = map_of v (j_key p) in
     AList.update (j_key p) (if j_kind p = ''unavailable'' then feed_unavailable old else feed_data p old) v)"

text \<open>The fallbacks that run when an operation on the mirror raises. \<open>ok\<close> says whether the plain
  invalidation worked. An unreadable mirror raises on every read.\<close>

definition new_mirror :: "bool \<Rightarrow> mirror" where
  "new_mirror quarantined = (if quarantined then Unreadable else Readable [])"

definition invalidate_all :: "pkey list \<Rightarrow> mirror \<Rightarrow> mirror" where
  "invalidate_all ks m = (case m of Unreadable \<Rightarrow> Unreadable | Readable v \<Rightarrow> Readable (fold invalidate ks v))"

definition invalidate_safe :: "bool \<Rightarrow> pkey \<Rightarrow> mirror \<Rightarrow> mirror" where
  "invalidate_safe ok key m = (case m of
     Unreadable \<Rightarrow> Unreadable
   | Readable v \<Rightarrow> if ok then Readable (invalidate key v)
       else invalidate_all (map fst (filter (\<lambda>(k, p). p_loss p \<and> k \<noteq> key) v) @ [key]) (new_mirror False))"

definition retire_safe :: "pkey \<Rightarrow> pview option \<Rightarrow> mirror \<Rightarrow> mirror" where
  "retire_safe key before m = (case before of
     None \<Rightarrow> Unreadable
   | Some v \<Rightarrow> (case m of Unreadable \<Rightarrow> Unreadable
       | Readable _ \<Rightarrow> invalidate_all (filter (\<lambda>k. k \<noteq> key) (map fst v)) (new_mirror False)))"

text \<open>The status words (\<open>service/status_vocabulary.py\<close>).\<close>

definition VALID_STATUSES :: "string list" where
  "VALID_STATUSES = [''working'', ''shell'', ''online'', ''available'', ''blocked'', ''offline'', ''stopped'',
     ''misconfigured'', ''starting'']"

definition candidate_word :: "string \<Rightarrow> string option" where
  "candidate_word state =
     (if state = ''idle'' then Some ''online'' else if state \<in> set VALID_STATUSES then Some state else None)"

subsection \<open>The records of a publisher\<close>

text \<open>A publisher's record of one agent, and rows that hold one record per agent.\<close>

definition row_at :: "publisher \<Rightarrow> string \<Rightarrow> arec option" where
  "row_at p aid = map_of (map (\<lambda>r. (a_id r, r)) (p_rows p)) aid"

definition keyed_rows :: "(string \<times> arec) list \<Rightarrow> bool" where
  "keyed_rows d = (distinct (map fst d) \<and> (\<forall>k r. map_of d k = Some r \<longrightarrow> a_id r = k))"

definition rows_distinct :: "arec list \<Rightarrow> bool" where
  "rows_distinct rs = distinct (map a_id rs)"

lemmas alist_conv = update_conv' delete_conv'

lemma keyed_rows_Nil [simp]: "keyed_rows []"
  by (simp add: keyed_rows_def)

lemma keyed_rows_update: "keyed_rows d \<Longrightarrow> keyed_rows (AList.update (a_id r) r d)"
  by (auto simp: keyed_rows_def distinct_update update_conv')

lemma keyed_rows_delete: "keyed_rows d \<Longrightarrow> keyed_rows (AList.delete k d)"
  by (auto simp: keyed_rows_def distinct_delete delete_conv')

lemma keyed_put_rows: "keyed_rows d \<Longrightarrow> keyed_rows (put_rows rs d)"
  unfolding put_rows_def by (induction rs arbitrary: d) (simp_all add: keyed_rows_update)

lemma drop_removed_Cons: "drop_removed ((aid, lifetime) # rem) d = drop_removed rem
    (if map_option a_lifetime (map_of d aid) = Some (Some lifetime) then AList.delete aid d else d)"
  by (simp add: drop_removed_def split: option.splits)

lemma keyed_drop_removed: "keyed_rows d \<Longrightarrow> keyed_rows (drop_removed rem d)"
proof (induction rem arbitrary: d)
  case (Cons x rem)
  then show ?case by (cases x) (simp add: drop_removed_Cons keyed_rows_delete)
qed (simp add: drop_removed_def)

lemma keyed_fed_rows: "keyed_rows (fed_rows p old)"
  by (simp add: fed_rows_def keyed_put_rows keyed_drop_removed)

lemma map_of_rows: "keyed_rows d \<Longrightarrow> map (\<lambda>r. (a_id r, r)) (map snd d) = d"
  by (force simp: keyed_rows_def intro!: map_idI)

lemma put_rows_distinct: "rows_distinct rs \<Longrightarrow> map_of (put_rows rs d) = map_of d ++ map_of (map (\<lambda>r. (a_id r, r)) rs)"
  unfolding put_rows_def
proof (induction rs arbitrary: d)
  case (Cons r rs)
  have "a_id r \<notin> fst ` set (map (\<lambda>r. (a_id r, r)) rs)" using Cons.prems by (auto simp: rows_distinct_def)
  then have "map_of (map (\<lambda>r. (a_id r, r)) rs) (a_id r) = None" by (simp add: map_of_eq_None_iff)
  with Cons show ?case by (auto simp: rows_distinct_def update_conv' map_add_def fun_eq_iff split: option.splits)
qed simp

end
