(* ===== verification/StateIngest.thy ===== *)
theory StateIngest
  imports StateMirror
begin

text \<open>
  Ordering and saving what aify-envs publish (\<open>service/api_core/agent_state_ingest.py\<close>), and loading
  it again after a restart (\<open>service/api_core/mirror_restore.py\<close>).

  A publication is ordered against its publisher's saved cursor, saved in one transaction, and then fed
  to the mirror. The mirror step comes after the commit and may fail on its own; what it then leaves is
  part of the model. The saved JSON of a record is opaque text that \<open>decode\<close>, a parameter standing for
  \<open>json.loads\<close> followed by the record validator, reads back.
\<close>

record pbody =
  b_kind :: string
  b_key :: pkey
  b_generation :: int
  b_incarnation :: string
  b_publication :: int
  b_inputs :: string
  b_reason :: "string option"
  b_agents :: "(arec \<times> string) list"
  b_removed :: "(string \<times> string) list"
  b_build :: "string option"
  b_report_every :: "int option"

record crow =
  c_generation :: int
  c_incarnation :: string
  c_publication :: int
  c_digest :: string
  c_kind :: string
  c_inputs :: string
  c_reason :: "string option"
  c_data_generation :: "int option"
  c_data_incarnation :: "string option"
  c_data_publication :: "int option"
  c_data_applied_at :: "string option"
  c_data_inputs :: "string option"
  c_report_received_at :: "string option"
  c_report_every :: "int option"

record srow =
  s_lifetime :: "string option"
  s_json :: string

record idb =
  t_publishers :: "(pkey \<times> crow) list"
  t_rows :: "((pkey \<times> string) \<times> srow) list"

subsection \<open>Ordering\<close>

definition order_refusal :: "crow option \<Rightarrow> pbody \<Rightarrow> string \<Rightarrow> string option" where
  "order_refusal previous b digest = (case previous of
     None \<Rightarrow> None
   | Some c \<Rightarrow>
       if b_generation b > c_generation c then None
       else if b_generation b < c_generation c then Some ''stale''
       else if b_incarnation b \<noteq> c_incarnation c then Some ''conflict''
       else if b_publication b < c_publication c then Some ''stale''
       else if b_publication b = c_publication c then Some (if digest = c_digest c then ''duplicate'' else ''conflict'')
       else if c_kind c = ''retired'' then Some ''retired''
       else None)"

subsection \<open>The transaction\<close>

definition write_cursor :: "string \<Rightarrow> string \<Rightarrow> pbody \<Rightarrow> idb \<Rightarrow> idb" where
  "write_cursor digest applied_at b db =
     (let old = map_of (t_publishers db) (b_key b) in
      db\<lparr>t_publishers := AList.update (b_key b)
        \<lparr>c_generation = b_generation b, c_incarnation = b_incarnation b, c_publication = b_publication b,
         c_digest = digest, c_kind = b_kind b, c_inputs = b_inputs b, c_reason = b_reason b,
         c_data_generation = Option.bind old c_data_generation, c_data_incarnation = Option.bind old c_data_incarnation,
         c_data_publication = Option.bind old c_data_publication, c_data_applied_at = Option.bind old c_data_applied_at,
         c_data_inputs = Option.bind old c_data_inputs,
         c_report_received_at = (if b_kind b \<noteq> ''retired'' then Some applied_at else None),
         c_report_every = b_report_every b\<rparr> (t_publishers db)\<rparr>)"

definition stamp_data :: "string \<Rightarrow> pbody \<Rightarrow> idb \<Rightarrow> idb" where
  "stamp_data applied_at b db = (case map_of (t_publishers db) (b_key b) of
     None \<Rightarrow> db
   | Some c \<Rightarrow> db\<lparr>t_publishers := AList.update (b_key b)
       (c\<lparr>c_data_generation := Some (b_generation b), c_data_incarnation := Some (b_incarnation b),
          c_data_publication := Some (b_publication b), c_data_applied_at := Some applied_at,
          c_data_inputs := Some (b_inputs b)\<rparr>) (t_publishers db)\<rparr>)"

definition delete_rows :: "pkey \<Rightarrow> idb \<Rightarrow> idb" where
  "delete_rows key db = db\<lparr>t_rows := filter (\<lambda>((k, _), _). k \<noteq> key) (t_rows db)\<rparr>"

definition delete_row :: "pkey \<Rightarrow> string \<times> string \<Rightarrow> idb \<Rightarrow> idb" where
  "delete_row key x db = db\<lparr>t_rows := filter
     (\<lambda>((k, aid), s). \<not> (k = key \<and> aid = fst x \<and> s_lifetime s = Some (snd x))) (t_rows db)\<rparr>"

definition insert_row :: "pkey \<Rightarrow> arec \<times> string \<Rightarrow> idb \<Rightarrow> idb" where
  "insert_row key x db = db\<lparr>t_rows := AList.update (key, a_id (fst x))
     \<lparr>s_lifetime = a_lifetime (fst x), s_json = snd x\<rparr> (t_rows db)\<rparr>"

definition write_retirement :: "string \<Rightarrow> pbody \<Rightarrow> idb \<Rightarrow> idb" where
  "write_retirement applied_at b db = stamp_data applied_at b (delete_rows (b_key b) db)"

definition write_data :: "crow option \<Rightarrow> string \<Rightarrow> pbody \<Rightarrow> idb \<Rightarrow> idb" where
  "write_data previous applied_at b db =
     (let cleared = (if b_kind b = ''snapshot'' \<or> Option.bind previous c_data_generation \<noteq> Some (b_generation b)
                     then delete_rows (b_key b) db
                     else fold (delete_row (b_key b)) (b_removed b) db) in
      stamp_data applied_at b (fold (insert_row (b_key b)) (b_agents b) cleared))"

subsection \<open>Applying a publication\<close>

text \<open>Where the process can fail: the statements of the transaction, the projection, the feed of the
  mirror, the plain invalidation that follows a failed feed, the report pair and the retirement.\<close>

record ifaults =
  x_db :: bool
  x_prepare :: bool
  x_feed :: bool
  x_invalidate :: bool
  x_renew :: bool
  x_retire :: bool

definition no_ifaults :: ifaults where
  "no_ifaults = \<lparr>x_db = False, x_prepare = False, x_feed = False, x_invalidate = False, x_renew = False, x_retire = False\<rparr>"

datatype iresult = Raised | Refused string | Applied

definition prepare :: "pbody \<Rightarrow> string \<Rightarrow> projection" where
  "prepare b applied_at = \<lparr>j_key = b_key b, j_kind = b_kind b, j_generation = b_generation b,
     j_applied_at = applied_at, j_rows = map fst (b_agents b), j_removed = b_removed b,
     j_incarnation = b_incarnation b, j_publication = b_publication b, j_build = b_build b\<rparr>"

definition on_view :: "(pview \<Rightarrow> pview) \<Rightarrow> mirror \<Rightarrow> mirror" where
  "on_view f m = (case m of Unreadable \<Rightarrow> Unreadable | Readable v \<Rightarrow> Readable (f v))"

definition readable_view :: "mirror \<Rightarrow> pview option" where
  "readable_view m = (case m of Unreadable \<Rightarrow> None | Readable v \<Rightarrow> Some v)"

definition retire_publisher :: "bool \<Rightarrow> pkey \<Rightarrow> mirror \<Rightarrow> mirror" where
  "retire_publisher raised key m =
     (if raised then retire_safe key (readable_view m) m else on_view (retire key) m)"

definition feed_or_invalidate :: "ifaults \<Rightarrow> string \<Rightarrow> pbody \<Rightarrow> mirror \<Rightarrow> mirror" where
  "feed_or_invalidate x applied_at b m =
     (if x_prepare x \<or> x_feed x then invalidate_safe (\<not> x_invalidate x) (b_key b) m
      else on_view (feed_mirror (prepare b applied_at)) m)"

definition apply_publication ::
  "ifaults \<Rightarrow> string \<Rightarrow> string \<Rightarrow> pbody \<Rightarrow> idb \<times> mirror \<Rightarrow> iresult \<times> idb \<times> mirror" where
  "apply_publication x digest applied_at b s =
     (let (db, m) = s; previous = map_of (t_publishers db) (b_key b) in
      case order_refusal previous b digest of
        Some reason \<Rightarrow> (Refused reason, db, m)
      | None \<Rightarrow>
          if x_db x then (Raised, db, m)
          else (let db1 = write_cursor digest applied_at b db;
                    db2 = (if b_kind b = ''retired'' then write_retirement applied_at b db1
                           else if b_kind b \<noteq> ''unavailable'' then write_data previous applied_at b db1
                           else db1) in
                if b_kind b = ''retired'' then (Applied, db2, retire_publisher (x_retire x) (b_key b) m)
                else (let m1 = feed_or_invalidate x applied_at b m;
                          m2 = (if x_renew x then m1 else on_view (renew_report (b_key b) applied_at (b_report_every b)) m1) in
                      (Applied, db2, m2))))"

subsection \<open>Loading the mirror at start\<close>

definition saved_report :: "crow \<Rightarrow> (string \<times> int option) option" where
  "saved_report c = (case c_report_received_at c of
     None \<Rightarrow> None | Some t \<Rightarrow> if t = [] then None else Some (t, c_report_every c))"

definition restored_publisher :: "(string \<Rightarrow> arec option) \<Rightarrow> crow \<Rightarrow> srow list \<Rightarrow> publisher option" where
  "restored_publisher decode c rows = map_option (\<lambda>records.
     \<lparr>p_generation = c_data_generation c, p_data_applied_at = c_data_applied_at c, p_complete = False,
      p_unavailable = (c_kind c = ''unavailable''), p_rows = records, p_loss = False,
      p_incarnation = c_data_incarnation c, p_publication = c_data_publication c, p_build = None, p_restored = True,
      p_report = saved_report c\<rparr>) (those (map (decode \<circ> s_json) rows))"

definition lost_publisher :: "crow \<Rightarrow> publisher" where
  "lost_publisher c = \<lparr>p_generation = c_data_generation c, p_data_applied_at = c_data_applied_at c, p_complete = False,
     p_unavailable = False, p_rows = [], p_loss = True, p_incarnation = c_data_incarnation c,
     p_publication = c_data_publication c, p_build = None, p_restored = True, p_report = saved_report c\<rparr>"

definition saved_rows :: "idb \<Rightarrow> pkey \<Rightarrow> srow list" where
  "saved_rows db key = map snd (filter (\<lambda>((k, _), _). k = key) (t_rows db))"

definition restore_entry :: "(string \<Rightarrow> arec option) \<Rightarrow> idb \<Rightarrow> pkey \<times> crow \<Rightarrow> pview \<Rightarrow> pview" where
  "restore_entry decode db x v =
     (if c_kind (snd x) = ''retired'' then v
      else snd (restore_publisher (fst x)
        (case restored_publisher decode (snd x) (saved_rows db (fst x)) of
           Some p \<Rightarrow> p | None \<Rightarrow> lost_publisher (snd x)) v))"

definition restore_mirror :: "(string \<Rightarrow> arec option) \<Rightarrow> bool \<Rightarrow> idb \<Rightarrow> mirror \<Rightarrow> mirror" where
  "restore_mirror decode tables_unreadable db m =
     (if tables_unreadable then Unreadable else on_view (fold (restore_entry decode db) (t_publishers db)) m)"

subsection \<open>What the mirror and the tables agree on\<close>

text \<open>A record as the mirror holds it and as the table does.\<close>

definition same_record :: "(string \<Rightarrow> arec option) \<Rightarrow> arec \<Rightarrow> srow \<Rightarrow> bool" where
  "same_record decode r s = (decode (s_json s) = Some r \<and> s_lifetime s = a_lifetime r)"

definition agrees :: "(string \<Rightarrow> arec option) \<Rightarrow> (string \<rightharpoonup> arec) \<Rightarrow> (string \<rightharpoonup> srow) \<Rightarrow> bool" where
  "agrees decode d t = (\<forall>aid. rel_option (same_record decode) (d aid) (t aid))"

definition saved :: "idb \<Rightarrow> pkey \<Rightarrow> string \<rightharpoonup> srow" where
  "saved db key aid = map_of (t_rows db) (key, aid)"

definition body_ok :: "(string \<Rightarrow> arec option) \<Rightarrow> pbody \<Rightarrow> bool" where
  "body_ok decode b = (b_kind b \<in> {''snapshot'', ''changes'', ''unavailable'', ''retired''}
     \<and> distinct (map (a_id \<circ> fst) (b_agents b)) \<and> (\<forall>(r, js) \<in> set (b_agents b). decode js = Some r))"

definition tables_ok :: "idb \<Rightarrow> bool" where
  "tables_ok db = (distinct (map fst (t_rows db)) \<and> distinct (map fst (t_publishers db)))"

lemma map_of_filter_key: "map_of (filter (\<lambda>(k, _). P k) xs) k = (if P k then map_of xs k else None)"
  by (induction xs) auto

lemma saved_delete_rows: "saved (delete_rows key db) k = (if k = key then Map.empty else saved db k)"
proof -
  have "filter (\<lambda>((k, _), _). k \<noteq> key) (t_rows db) = filter (\<lambda>(k, _). fst k \<noteq> key) (t_rows db)"
    by (rule filter_cong) auto
  then show ?thesis by (auto simp: saved_def delete_rows_def map_of_filter_key fun_eq_iff)
qed

lemma map_of_filter_entry:
  assumes "distinct (map fst xs)"
  shows "map_of (filter P xs) k = (case map_of xs k of Some v \<Rightarrow> if P (k, v) then Some v else None | None \<Rightarrow> None)"
  using assms by (induction xs) (auto simp: map_of_eq_None_iff split: option.splits)

lemma saved_delete_row:
  assumes "tables_ok db"
  shows "saved (delete_row key x db) k aid = (if k = key \<and> aid = fst x \<and> map_option s_lifetime (saved db k aid) = Some (Some (snd x))
    then None else saved db k aid)"
  using assms by (auto simp: saved_def delete_row_def tables_ok_def map_of_filter_entry simp del: map_of_eq_Some_iff
      split: option.splits)

lemma saved_insert_row: "saved (insert_row key x db) k aid = (if k = key \<and> aid = a_id (fst x)
    then Some \<lparr>s_lifetime = a_lifetime (fst x), s_json = snd x\<rparr> else saved db k aid)"
  by (auto simp: saved_def insert_row_def update_conv')

lemma tables_ok_writes:
  assumes "tables_ok db"
  shows "tables_ok (delete_rows key db)" "tables_ok (delete_row key x db)" "tables_ok (insert_row key y db)"
    "tables_ok (write_cursor digest t b db)" "tables_ok (stamp_data t b db)"
  using assms
  by (auto simp: tables_ok_def delete_rows_def delete_row_def insert_row_def write_cursor_def stamp_data_def Let_def
      distinct_update distinct_map_filter split: option.splits)

lemma write_keeps:
  "t_publishers (delete_rows key db) = t_publishers db" "t_publishers (delete_row key x db) = t_publishers db"
  "t_publishers (insert_row key y db) = t_publishers db"
  "saved (stamp_data t b db) = saved db" "saved (write_cursor digest t b db) = saved db"
  by (auto simp: delete_rows_def delete_row_def insert_row_def stamp_data_def write_cursor_def saved_def fun_eq_iff Let_def
      split: option.splits)

lemma fold_publishers:
  "t_publishers (fold (insert_row key) xs db) = t_publishers db" "t_publishers (fold (delete_row key) rem db) = t_publishers db"
  by (induction xs arbitrary: db, auto simp: write_keeps) (induction rem arbitrary: db, auto simp: write_keeps)

lemma fold_delete_keeps:
  assumes "tables_ok db"
  shows "tables_ok (fold (delete_row key) rem db) \<and> t_publishers (fold (delete_row key) rem db) = t_publishers db
    \<and> (\<forall>k. k \<noteq> key \<longrightarrow> saved (fold (delete_row key) rem db) k = saved db k)"
  using assms
proof (induction rem arbitrary: db)
  case (Cons x rem)
  from Cons.IH [OF tables_ok_writes(2) [OF Cons.prems, of key x]] Cons.prems show ?case
    by (auto simp: write_keeps saved_delete_row fun_eq_iff)
qed simp

lemma fold_insert_keeps:
  assumes "tables_ok db"
  shows "tables_ok (fold (insert_row key) xs db) \<and> t_publishers (fold (insert_row key) xs db) = t_publishers db
    \<and> (\<forall>k. k \<noteq> key \<longrightarrow> saved (fold (insert_row key) xs db) k = saved db k)"
  using assms
proof (induction xs arbitrary: db)
  case (Cons y xs)
  from Cons.IH [OF tables_ok_writes(3) [OF Cons.prems, of key y]] show ?case
    by (auto simp: write_keeps saved_insert_row fun_eq_iff)
qed simp

lemma agrees_removed:
  assumes "agrees decode (map_of d) (saved db key)" and "tables_ok db"
  shows "agrees decode (map_of (drop_removed rem d)) (saved (fold (delete_row key) rem db) key)"
  using assms
proof (induction rem arbitrary: d db)
  case Nil
  then show ?case by (simp add: drop_removed_def)
next
  case (Cons x rem)
  obtain aid l where x: "x = (aid, l)" by (cases x)
  let ?db = "delete_row key x db"
  let ?d = "if map_option a_lifetime (map_of d aid) = Some (Some l) then AList.delete aid d else d"
  have "agrees decode (map_of ?d) (saved ?db key)"
    unfolding agrees_def
  proof
    fix a
    have "rel_option (same_record decode) (map_of d a) (saved db key a)" using Cons.prems(1) by (simp add: agrees_def)
    then show "rel_option (same_record decode) (map_of ?d a) (saved ?db key a)"
      using Cons.prems(2)
      by (cases "map_of d a"; cases "saved db key a")
        (auto simp: x saved_delete_row delete_conv' same_record_def)
  qed
  then show ?case
    using Cons.IH [of ?d ?db] tables_ok_writes(2) [OF Cons.prems(2)] by (simp add: x drop_removed_Cons)
qed

lemma agrees_put:
  assumes "agrees decode (map_of d) (saved db key)" and "\<forall>(r, js) \<in> set xs. decode js = Some r" and "tables_ok db"
  shows "agrees decode (map_of (put_rows (map fst xs) d)) (saved (fold (insert_row key) xs db) key)"
  using assms
proof (induction xs arbitrary: d db)
  case Nil
  then show ?case by (simp add: put_rows_def)
next
  case (Cons x xs)
  obtain r js where x: "x = (r, js)" by (cases x)
  have a: "agrees decode (map_of (AList.update (a_id r) r d)) (saved (insert_row key x db) key)"
    using Cons.prems by (auto simp: agrees_def x saved_insert_row update_conv' same_record_def)
  have "\<forall>(r, js) \<in> set xs. decode js = Some r" using Cons.prems(2) by simp
  then show ?case
    using Cons.IH [OF a _ tables_ok_writes(3) [OF Cons.prems(3)]] by (simp add: x put_rows_def)
qed

text \<open>The saved tables after an applied publication, for its own key and for the others.\<close>

definition saved_after :: "string \<Rightarrow> string \<Rightarrow> pbody \<Rightarrow> idb \<Rightarrow> idb" where
  "saved_after digest applied_at b db = (let db1 = write_cursor digest applied_at b db in
     if b_kind b = ''retired'' then write_retirement applied_at b db1
     else if b_kind b \<noteq> ''unavailable'' then write_data (map_of (t_publishers db) (b_key b)) applied_at b db1
     else db1)"

definition mirror_after :: "ifaults \<Rightarrow> string \<Rightarrow> pbody \<Rightarrow> mirror \<Rightarrow> mirror" where
  "mirror_after x applied_at b m =
     (if b_kind b = ''retired'' then retire_publisher (x_retire x) (b_key b) m
      else (let m1 = feed_or_invalidate x applied_at b m in
            if x_renew x then m1 else on_view (renew_report (b_key b) applied_at (b_report_every b)) m1))"

lemma apply_cases:
  assumes "apply_publication x digest t b (db, m) = (r, db', m')"
  obtains (refused) reason where "r = Refused reason" "db' = db" "m' = m"
      "order_refusal (map_of (t_publishers db) (b_key b)) b digest = Some reason"
    | (raised) "r = Raised" "db' = db" "m' = m"
    | (applied) "r = Applied" "order_refusal (map_of (t_publishers db) (b_key b)) b digest = None"
      "db' = saved_after digest t b db" "m' = mirror_after x t b m"
  using assms
  by (auto simp: apply_publication_def saved_after_def mirror_after_def Let_def split: option.splits if_splits)

lemma cursor_after:
  "map_of (t_publishers (write_cursor digest t b db)) k =
     (if k = b_key b then Some (the (map_of (t_publishers (write_cursor digest t b db)) (b_key b)))
      else map_of (t_publishers db) k)"
  by (auto simp: write_cursor_def Let_def update_conv')

lemma stamp_cursor: "map_of (t_publishers (stamp_data t b db)) k =
    (if k = b_key b then map_option (\<lambda>c. c\<lparr>c_data_generation := Some (b_generation b),
       c_data_incarnation := Some (b_incarnation b), c_data_publication := Some (b_publication b),
       c_data_applied_at := Some t, c_data_inputs := Some (b_inputs b)\<rparr>) (map_of (t_publishers db) k)
     else map_of (t_publishers db) k)"
  by (auto simp: stamp_data_def update_conv' split: option.splits)

text \<open>The rows an applied data publication leaves in the table, against the ones the feed leaves.\<close>

lemma write_data_effect:
  assumes "tables_ok db" and "body_ok decode b"
  shows "tables_ok (write_data prev t b db)"
    and "map_of (t_publishers (write_data prev t b db)) k = map_of (t_publishers (stamp_data t b db)) k"
    and "k \<noteq> b_key b \<Longrightarrow> saved (write_data prev t b db) k = saved db k"
    and "(b_kind b = ''snapshot'' \<or> Option.bind prev c_data_generation \<noteq> Some (b_generation b))
      \<or> agrees decode (map_of d) (saved db (b_key b)) \<Longrightarrow>
      agrees decode (map_of (put_rows (map fst (b_agents b))
        (if b_kind b = ''snapshot'' \<or> Option.bind prev c_data_generation \<noteq> Some (b_generation b) then []
         else drop_removed (b_removed b) d))) (saved (write_data prev t b db) (b_key b))"
proof -
  let ?c = "b_kind b = ''snapshot'' \<or> Option.bind prev c_data_generation \<noteq> Some (b_generation b)"
  let ?cl = "if ?c then delete_rows (b_key b) db else fold (delete_row (b_key b)) (b_removed b) db"
  have cl: "tables_ok ?cl" "t_publishers ?cl = t_publishers db" "k \<noteq> b_key b \<Longrightarrow> saved ?cl k = saved db k" for k
    using fold_delete_keeps [OF assms(1), of "b_key b" "b_removed b"] assms(1)
    by (auto simp: tables_ok_writes write_keeps saved_delete_rows simp del: split_paired_All)
  have w: "write_data prev t b db = stamp_data t b (fold (insert_row (b_key b)) (b_agents b) ?cl)"
    by (simp add: write_data_def)
  have js: "\<forall>(r, js) \<in> set (b_agents b). decode js = Some r" using assms(2) by (simp add: body_ok_def)
  note ins = fold_insert_keeps [OF cl(1)]
  show "tables_ok (write_data prev t b db)" unfolding w using ins tables_ok_writes(5) by blast
  show "map_of (t_publishers (write_data prev t b db)) k = map_of (t_publishers (stamp_data t b db)) k"
    unfolding w using ins cl(2) by (simp add: stamp_cursor)
  show "saved (write_data prev t b db) k = saved db k" if "k \<noteq> b_key b"
    unfolding w using ins cl(3) that by (simp add: write_keeps del: split_paired_All)
  show "agrees decode (map_of (put_rows (map fst (b_agents b)) (if ?c then [] else drop_removed (b_removed b) d)))
      (saved (write_data prev t b db) (b_key b))" if "?c \<or> agrees decode (map_of d) (saved db (b_key b))"
  proof -
    have "agrees decode (map_of (if ?c then [] else drop_removed (b_removed b) d)) (saved ?cl (b_key b))"
      using that agrees_removed [OF _ assms(1), of decode d "b_key b" "b_removed b"]
      by (cases ?c) (simp_all add: agrees_def saved_delete_rows)
    with agrees_put [OF _ js cl(1)] show ?thesis unfolding w by (simp add: write_keeps)
  qed
qed

subsection \<open>The invariant of the ingest\<close>

definition entry_ok :: "(string \<Rightarrow> arec option) \<Rightarrow> idb \<Rightarrow> pkey \<Rightarrow> publisher \<Rightarrow> bool" where
  "entry_ok decode db key p = (p_complete p \<longrightarrow> rows_distinct (p_rows p) \<and> agrees decode (row_at p) (saved db key)
     \<and> p_generation p = Option.bind (map_of (t_publishers db) key) c_data_generation)"

definition is_retired :: "idb \<Rightarrow> pkey \<Rightarrow> bool" where
  "is_retired db key = (\<exists>c. map_of (t_publishers db) key = Some c \<and> c_kind c = ''retired'')"

definition held :: "idb \<Rightarrow> pkey \<Rightarrow> bool" where
  "held db key = (\<exists>c. map_of (t_publishers db) key = Some c \<and> c_kind c \<noteq> ''retired'')"

definition rows_owned :: "idb \<Rightarrow> bool" where
  "rows_owned db = (\<forall>key aid. saved db key aid \<noteq> None \<longrightarrow> map_of (t_publishers db) key \<noteq> None)"

definition ingest_ok :: "(string \<Rightarrow> arec option) \<Rightarrow> bool \<Rightarrow> idb \<times> mirror \<Rightarrow> bool" where
  "ingest_ok decode hard s = (let (db, m) = s in tables_ok db
     \<and> rows_owned db
     \<and> (\<forall>key. is_retired db key \<longrightarrow> saved db key = Map.empty)
     \<and> (\<forall>v. m = Readable v \<longrightarrow>
          (\<forall>key p. map_of v key = Some p \<longrightarrow> entry_ok decode db key p \<and> \<not> is_retired db key)
        \<and> (\<not> hard \<longrightarrow> (\<forall>key. held db key \<longrightarrow> map_of v key \<noteq> None))))"

text \<open>What happens to the service: publications arrive, the process may fail in any of the ways above,
  and it restarts. \<open>hard\<close> allows the one failure that throws the whole mirror away, an invalidation
  that itself raises.\<close>

inductive ingest_step :: "(string \<Rightarrow> arec option) \<Rightarrow> bool \<Rightarrow> idb \<times> mirror \<Rightarrow> idb \<times> mirror \<Rightarrow> bool" for decode hard where
  publication: "body_ok decode b \<Longrightarrow> x_invalidate x \<longrightarrow> hard \<Longrightarrow>
    ingest_step decode hard s (snd (apply_publication x digest applied_at b s))"
| restart: "ingest_step decode hard (db, m) (db, restore_mirror decode unreadable db (Readable []))"

lemma fold_invalidate:
  "k \<notin> set ks \<Longrightarrow> map_of (fold invalidate ks v) k = map_of v k"
  "k \<in> set ks \<Longrightarrow> \<exists>p. map_of (fold invalidate ks v) k = Some p \<and> \<not> p_complete p"
proof -
  have *: "k \<notin> set ks \<Longrightarrow> map_of (fold invalidate ks v) k = map_of v k" for ks v
    by (induction ks arbitrary: v) (auto simp: invalidate_def update_conv')
  then show "k \<notin> set ks \<Longrightarrow> map_of (fold invalidate ks v) k = map_of v k" .
  show "k \<in> set ks \<Longrightarrow> \<exists>p. map_of (fold invalidate ks v) k = Some p \<and> \<not> p_complete p"
  proof (induction ks arbitrary: v)
    case (Cons a ks)
    show ?case
    proof (cases "k \<in> set ks")
      case False
      with Cons.prems have "map_of (fold invalidate (a # ks) v) k = Some (lost_entry (map_of v k))"
        using * by (auto simp: invalidate_def update_conv')
      then show ?thesis by (simp add: lost_entry_def)
    qed (use Cons.IH in simp)
  qed simp
qed

lemma fold_reset: "map_of (fold invalidate ks []) k = Some p \<Longrightarrow> k \<in> set ks \<and> \<not> p_complete p"
  using fold_invalidate [of k ks "[]"] by (cases "k \<in> set ks") auto

lemma entry_ok_lost [simp]: "\<not> p_complete p \<Longrightarrow> entry_ok decode db key p"
  by (simp add: entry_ok_def)

lemma cursor_kind:
  assumes "map_of (t_publishers (saved_after digest t b db)) (b_key b) = Some c"
  shows "c_kind c = b_kind b \<and> c_generation c = b_generation b \<and> c_publication c = b_publication b
    \<and> c_incarnation c = b_incarnation b \<and> c_digest c = digest"
proof -
  have w: "map_of (t_publishers (write_cursor digest t b db)) (b_key b) = Some c' \<Longrightarrow> c_kind c' = b_kind b
      \<and> c_generation c' = b_generation b \<and> c_publication c' = b_publication b \<and> c_incarnation c' = b_incarnation b
      \<and> c_digest c' = digest" for c'
    by (auto simp: write_cursor_def Let_def update_conv')
  have d: "map_of (t_publishers (write_data prev t b d)) (b_key b) = map_of (t_publishers (stamp_data t b d)) (b_key b)" for prev d
    by (simp add: write_data_def stamp_cursor write_keeps fold_publishers Let_def)
  from assms w show ?thesis
    by (auto simp: saved_after_def Let_def write_retirement_def d stamp_cursor write_keeps split: if_splits)
qed

lemma cursor_exists: "\<exists>c. map_of (t_publishers (saved_after digest t b db)) (b_key b) = Some c"
  by (auto simp: saved_after_def Let_def write_retirement_def write_data_def stamp_cursor write_keeps write_cursor_def
      update_conv' fold_publishers)

lemma cursor_other: "k \<noteq> b_key b \<Longrightarrow> map_of (t_publishers (saved_after digest t b db)) k = map_of (t_publishers db) k"
  by (auto simp: saved_after_def Let_def write_retirement_def write_data_def stamp_cursor write_keeps write_cursor_def
      update_conv' fold_publishers)

lemma saved_after_other:
  assumes "tables_ok db" and "body_ok decode b" and "k \<noteq> b_key b"
  shows "saved (saved_after digest t b db) k = saved db k"
  using assms write_data_effect(3) [OF tables_ok_writes(4) [OF assms(1)] assms(2,3)]
  by (auto simp: saved_after_def Let_def write_retirement_def write_keeps saved_delete_rows)

lemma saved_after_tables:
  assumes "tables_ok db" and "body_ok decode b"
  shows "tables_ok (saved_after digest t b db)"
  using assms write_data_effect(1) [OF tables_ok_writes(4) [OF assms(1)] assms(2)]
  by (auto simp: saved_after_def Let_def write_retirement_def tables_ok_writes)

lemma saved_after_retired: "b_kind b = ''retired'' \<Longrightarrow> saved (saved_after digest t b db) (b_key b) = Map.empty"
  by (simp add: saved_after_def Let_def write_retirement_def write_keeps saved_delete_rows)

lemma saved_after_unavailable:
  assumes "b_kind b = ''unavailable''"
  shows "saved (saved_after digest t b db) = saved db"
    and "Option.bind (map_of (t_publishers (saved_after digest t b db)) (b_key b)) c_data_generation
      = Option.bind (map_of (t_publishers db) (b_key b)) c_data_generation"
  using assms by (simp_all add: saved_after_def Let_def write_keeps) (simp add: write_cursor_def Let_def update_conv')

lemma row_at_keeps [simp]: "row_at (p\<lparr>p_report := r\<rparr>) = row_at p" "row_at (p\<lparr>p_unavailable := u\<rparr>) = row_at p"
  "row_at (p\<lparr>p_unavailable := u, p_report := r\<rparr>) = row_at p"
  by (simp_all add: row_at_def fun_eq_iff)

lemma entry_ok_report [simp]: "entry_ok decode db k (p\<lparr>p_report := r\<rparr>) = entry_ok decode db k p"
  by (simp add: entry_ok_def)

lemma entry_ok_unavailable:
  assumes "b_kind b = ''unavailable''" and "\<And>q. old = Some q \<Longrightarrow> entry_ok decode db (b_key b) q"
  shows "entry_ok decode (saved_after digest t b db) (b_key b) (feed_unavailable old)"
  using assms(2) saved_after_unavailable [OF assms(1), of digest t db]
  by (auto simp: feed_unavailable_def entry_ok_def split: option.splits)

text \<open>A complete publisher that is fed the publication just saved agrees with the table again.\<close>

lemma entry_ok_data:
  assumes "b_kind b \<noteq> ''unavailable''" and "b_kind b \<noteq> ''retired''" and "tables_ok db" and "body_ok decode b"
    and "\<And>q. old = Some q \<Longrightarrow> entry_ok decode db (b_key b) q"
  shows "entry_ok decode (saved_after digest t b db) (b_key b) (feed_data (prepare b t) old)"
proof (cases "p_complete (feed_data (prepare b t) old)")
  case True
  let ?p = "prepare b t" and ?prev = "map_of (t_publishers db) (b_key b)" and ?db1 = "write_cursor digest t b db"
  have db': "saved_after digest t b db = write_data ?prev t b ?db1" using assms(1,2) by (simp add: saved_after_def)
  have k: "keyed_rows (fed_rows ?p old)" by (rule keyed_fed_rows)
  then have row: "row_at (feed_data ?p old) = map_of (fed_rows ?p old)" "rows_distinct (p_rows (feed_data ?p old))"
    using map_of_rows [OF k] by (auto simp: row_at_def feed_data_def rows_distinct_def keyed_rows_def fun_eq_iff comp_def)
      (metis (no_types, lifting) fst_conv list.map_comp map_eq_conv comp_apply)
  have "agrees decode (map_of (fed_rows ?p old)) (saved (write_data ?prev t b ?db1) (b_key b))"
  proof (cases "b_kind b = ''snapshot''")
    case True
    with write_data_effect(4) [OF tables_ok_writes(4) [OF assms(3)] assms(4)] show ?thesis
      by (simp add: fed_rows_def replaces_def prepare_def)
  next
    case False
    with True obtain q where q: "old = Some q" "\<not> replaces ?p old" "p_complete q"
      by (auto simp: feed_data_def replaces_def prepare_def Let_def split: option.splits)
    then have gen: "p_generation q = Some (b_generation b)" by (simp add: replaces_def prepare_def)
    from assms(5) [OF q(1)] q(3) have e: "agrees decode (row_at q) (saved db (b_key b))" "rows_distinct (p_rows q)"
      "p_generation q = Option.bind ?prev c_data_generation" by (simp_all add: entry_ok_def)
    have "map_of (put_rows (p_rows q) []) = row_at q" using put_rows_distinct [OF e(2), of "[]"]
      by (simp add: row_at_def fun_eq_iff)
    with e(1) have "agrees decode (map_of (put_rows (p_rows q) [])) (saved ?db1 (b_key b))" by (simp add: write_keeps)
    with write_data_effect(4) [OF tables_ok_writes(4) [OF assms(3)] assms(4), of ?prev "put_rows (p_rows q) []"] False gen e(3) q
    show ?thesis by (simp add: fed_rows_def prepare_def)
  qed
  moreover have "Option.bind (map_of (t_publishers (write_data ?prev t b ?db1)) (b_key b)) c_data_generation = Some (b_generation b)"
    by (simp add: write_data_def stamp_cursor write_keeps fold_publishers Let_def write_cursor_def update_conv')
  moreover have "p_generation (feed_data ?p old) = Some (b_generation b)" by (simp add: feed_data_def prepare_def Let_def)
  ultimately show ?thesis unfolding entry_ok_def db' row(1) using row(2) by simp
qed simp

text \<open>What a publication leaves in the mirror: the other publishers as they were or lost, its own fed,
  lost or retired.\<close>

definition fed_entry :: "string \<Rightarrow> pbody \<Rightarrow> publisher option \<Rightarrow> publisher" where
  "fed_entry t b old = (if b_kind b = ''unavailable'' then feed_unavailable old else feed_data (prepare b t) old)"

lemma feed_or_invalidate_entries:
  assumes "feed_or_invalidate x t b (Readable v) = Readable v'"
  shows "map_of v' (b_key b) = Some p \<Longrightarrow> \<not> p_complete p \<or> p = fed_entry t b (map_of v (b_key b))"
    and "map_of v' (b_key b) \<noteq> None"
    and "k \<noteq> b_key b \<Longrightarrow> map_of v' k = Some p \<Longrightarrow> \<exists>q. map_of v k = Some q \<and> (p = q \<or> \<not> p_complete p)"
    and "\<not> x_invalidate x \<Longrightarrow> map_of v k \<noteq> None \<Longrightarrow> map_of v' k \<noteq> None"
    and "\<not> x_prepare x \<Longrightarrow> \<not> x_feed x \<Longrightarrow> map_of v' (b_key b) = Some (fed_entry t b (map_of v (b_key b)))"
proof -
  let ?ks = "map fst (filter (\<lambda>(k, p). p_loss p \<and> k \<noteq> b_key b) v) @ [b_key b]"
  note eq = assms [unfolded feed_or_invalidate_def invalidate_safe_def on_view_def invalidate_all_def new_mirror_def]
  have reset: "map_of (fold invalidate ?ks []) k = Some p \<Longrightarrow> \<not> p_complete p \<and> (k \<noteq> b_key b \<longrightarrow> map_of v k \<noteq> None)" for k p
    using fold_reset [of ?ks k p] by (force simp: map_of_eq_None_iff image_iff)
  have reset_own: "map_of (fold invalidate ?ks []) (b_key b) \<noteq> None"
    using fold_invalidate(2) [of "b_key b" ?ks "[]"] by auto
  show "map_of v' (b_key b) = Some p \<Longrightarrow> \<not> p_complete p \<or> p = fed_entry t b (map_of v (b_key b))"
    using eq reset by (auto simp: invalidate_def update_conv' lost_entry_def feed_mirror_def prepare_def fed_entry_def Let_def
        split: if_splits)
  show "map_of v' (b_key b) \<noteq> None"
    using eq reset_own by (auto simp: invalidate_def update_conv' feed_mirror_def prepare_def Let_def split: if_splits)
  show "\<exists>q. map_of v k = Some q \<and> (p = q \<or> \<not> p_complete p)" if "k \<noteq> b_key b" "map_of v' k = Some p"
    using eq that reset [of k p] by (auto simp: invalidate_def update_conv' feed_mirror_def prepare_def Let_def split: if_splits)
  show "\<not> x_invalidate x \<Longrightarrow> map_of v k \<noteq> None \<Longrightarrow> map_of v' k \<noteq> None"
    using eq by (auto simp: invalidate_def update_conv' feed_mirror_def prepare_def Let_def split: if_splits)
  show "\<not> x_prepare x \<Longrightarrow> \<not> x_feed x \<Longrightarrow> map_of v' (b_key b) = Some (fed_entry t b (map_of v (b_key b)))"
    using eq by (auto simp: update_conv' feed_mirror_def prepare_def fed_entry_def Let_def split: if_splits)
qed

lemma renew_report_entries:
  "map_of (renew_report key t e v) k = map_option (\<lambda>p. if k = key then p\<lparr>p_report := Some (t, e)\<rparr> else p) (map_of v k)"
  by (cases "map_of v k") (auto simp: renew_report_def update_conv' split: option.splits)

lemma retire_entries:
  assumes "retire_publisher r key (Readable v) = Readable v'"
  shows "map_of v' key = None"
    and "map_of v' k = Some p \<Longrightarrow> \<exists>q. map_of v k = Some q \<and> (p = q \<or> \<not> p_complete p)"
    and "k \<noteq> key \<Longrightarrow> map_of v k \<noteq> None \<Longrightarrow> map_of v' k \<noteq> None"
proof -
  let ?ks = "filter (\<lambda>k. k \<noteq> key) (map fst v)"
  note eq = assms [unfolded retire_publisher_def retire_safe_def on_view_def invalidate_all_def new_mirror_def readable_view_def]
  have lost: "map_of (fold invalidate ?ks []) k = Some p \<Longrightarrow> k \<noteq> key \<and> map_of v k \<noteq> None \<and> \<not> p_complete p" for k p
    using fold_reset [of ?ks k p] by (auto simp: map_of_eq_None_iff)
  have some: "k \<noteq> key \<Longrightarrow> map_of v k \<noteq> None \<Longrightarrow> \<exists>p. map_of (fold invalidate ?ks []) k = Some p \<and> \<not> p_complete p" for k
    using fold_invalidate(2) [of k ?ks "[]"] by (auto simp: map_of_eq_None_iff)
  show "map_of v' key = None" using eq lost [of key] by (cases "map_of v' key") (auto simp: retire_def delete_conv' split: if_splits)
  show "\<exists>q. map_of v k = Some q \<and> (p = q \<or> \<not> p_complete p)" if "map_of v' k = Some p"
    using eq that lost [of k p] by (auto simp: retire_def delete_conv' split: if_splits)
  show "k \<noteq> key \<Longrightarrow> map_of v k \<noteq> None \<Longrightarrow> map_of v' k \<noteq> None"
    using eq some [of k] by (auto simp: retire_def delete_conv' split: if_splits)
qed

lemma mirror_after_entries:
  assumes "mirror_after x t b (Readable v) = Readable v'"
  shows "map_of v' (b_key b) = Some p \<Longrightarrow> b_kind b \<noteq> ''retired''
      \<and> (\<not> p_complete p \<or> (\<exists>r. p = (fed_entry t b (map_of v (b_key b)))\<lparr>p_report := r\<rparr>))"
    and "b_kind b \<noteq> ''retired'' \<Longrightarrow> map_of v' (b_key b) \<noteq> None"
    and "k \<noteq> b_key b \<Longrightarrow> map_of v' k = Some p \<Longrightarrow> \<exists>q. map_of v k = Some q \<and> (p = q \<or> \<not> p_complete p)"
    and "\<not> x_invalidate x \<Longrightarrow> k \<noteq> b_key b \<Longrightarrow> map_of v k \<noteq> None \<Longrightarrow> map_of v' k \<noteq> None"
proof -
  have ret: "b_kind b = ''retired'' \<Longrightarrow> retire_publisher (x_retire x) (b_key b) (Readable v) = Readable v'"
    using assms by (simp add: mirror_after_def)
  obtain v1 where v1: "b_kind b \<noteq> ''retired'' \<Longrightarrow> feed_or_invalidate x t b (Readable v) = Readable v1"
    "b_kind b \<noteq> ''retired'' \<Longrightarrow> v' = (if x_renew x then v1 else renew_report (b_key b) t (b_report_every b) v1)"
    using assms by (cases "feed_or_invalidate x t b (Readable v)")
      (auto simp: mirror_after_def on_view_def Let_def split: if_splits)
  note f = feed_or_invalidate_entries [OF v1(1)]
  have id: "p = p\<lparr>p_report := p_report p\<rparr>" for p :: publisher by simp
  show "b_kind b \<noteq> ''retired'' \<and> (\<not> p_complete p \<or> (\<exists>r. p = (fed_entry t b (map_of v (b_key b)))\<lparr>p_report := r\<rparr>))"
    if m: "map_of v' (b_key b) = Some p"
  proof -
    from m have nr: "b_kind b \<noteq> ''retired''" using retire_entries(1) [OF ret] by auto
    have "\<exists>q r. map_of v1 (b_key b) = Some q \<and> p = q\<lparr>p_report := r\<rparr>"
    proof (cases "x_renew x")
      case True
      then show ?thesis using m v1(2) [OF nr] id [of p] by (intro exI [of _ p] exI [of _ "p_report p"]) auto
    next
      case False
      then show ?thesis using m v1(2) [OF nr] by (auto simp: renew_report_entries)
    qed
    then obtain q r where q: "map_of v1 (b_key b) = Some q" "p = q\<lparr>p_report := r\<rparr>" by blast
    with f(1) [OF nr q(1)] nr show ?thesis by auto
  qed
  show "b_kind b \<noteq> ''retired'' \<Longrightarrow> map_of v' (b_key b) \<noteq> None"
    using v1(2) f(2) by (auto simp: renew_report_entries split: if_splits)
  show "\<exists>q. map_of v k = Some q \<and> (p = q \<or> \<not> p_complete p)" if "k \<noteq> b_key b" "map_of v' k = Some p"
    using retire_entries(2) [OF ret, of k p] v1(2) f(3) [of k p] that
    by (cases "b_kind b = ''retired''") (auto simp: renew_report_entries split: if_splits)
  show "\<not> x_invalidate x \<Longrightarrow> k \<noteq> b_key b \<Longrightarrow> map_of v k \<noteq> None \<Longrightarrow> map_of v' k \<noteq> None"
    using retire_entries(3) [OF ret, of k] v1(2) f(4) [of k]
    by (cases "b_kind b = ''retired''") (auto simp: renew_report_entries split: if_splits)
qed

lemma restore_entry_cases:
  "c_kind (snd x) = ''retired'' \<Longrightarrow> restore_entry decode db x v = v"
  "c_kind (snd x) \<noteq> ''retired'' \<Longrightarrow> \<exists>p. \<not> p_complete p \<and> (\<forall>k. map_of (restore_entry decode db x v) k
     = (if k = fst x \<and> map_of v k = None then Some p else map_of v k))"
proof -
  show "c_kind (snd x) = ''retired'' \<Longrightarrow> restore_entry decode db x v = v" by (simp add: restore_entry_def)
  let ?p = "case restored_publisher decode (snd x) (saved_rows db (fst x)) of Some p \<Rightarrow> p | None \<Rightarrow> lost_publisher (snd x)"
  assume "c_kind (snd x) \<noteq> ''retired''"
  moreover have "\<not> p_complete ?p"
    by (auto simp: restored_publisher_def lost_publisher_def split: option.splits)
  ultimately show "\<exists>p. \<not> p_complete p \<and> (\<forall>k. map_of (restore_entry decode db x v) k
     = (if k = fst x \<and> map_of v k = None then Some p else map_of v k))"
    by (intro exI [of _ ?p]) (auto simp: restore_entry_def restore_publisher_def update_conv' split: option.splits)
qed

lemma restore_entry_step:
  "map_of (restore_entry decode db x v) k = Some p \<Longrightarrow>
     map_of v k = Some p \<or> (\<not> p_complete p \<and> k = fst x \<and> c_kind (snd x) \<noteq> ''retired'')"
  "map_of v k \<noteq> None \<Longrightarrow> map_of (restore_entry decode db x v) k \<noteq> None"
  "c_kind (snd x) \<noteq> ''retired'' \<Longrightarrow> k = fst x \<Longrightarrow> map_of (restore_entry decode db x v) k \<noteq> None"
proof -
  note one = restore_entry_cases [where x = x and decode = decode and db = db and v = v]
  let ?v = "restore_entry decode db x v"
  have "map_of ?v k = map_of v k \<or> (\<exists>p. \<not> p_complete p \<and> map_of ?v k = Some p \<and> k = fst x \<and> c_kind (snd x) \<noteq> ''retired'')"
    and "c_kind (snd x) \<noteq> ''retired'' \<Longrightarrow> k = fst x \<Longrightarrow> map_of ?v k \<noteq> None"
    using one by (cases "c_kind (snd x) = ''retired''"; metis option.distinct(1))+
  then show "map_of ?v k = Some p \<Longrightarrow> map_of v k = Some p \<or> (\<not> p_complete p \<and> k = fst x \<and> c_kind (snd x) \<noteq> ''retired'')"
    "map_of v k \<noteq> None \<Longrightarrow> map_of ?v k \<noteq> None" "c_kind (snd x) \<noteq> ''retired'' \<Longrightarrow> k = fst x \<Longrightarrow> map_of ?v k \<noteq> None"
    by auto
qed

lemma restore_entries:
  "map_of (fold (restore_entry decode db) xs v) k = Some p \<Longrightarrow> map_of v k = Some p
     \<or> (\<not> p_complete p \<and> (\<exists>c. (k, c) \<in> set xs \<and> c_kind c \<noteq> ''retired''))"
  "map_of v k \<noteq> None \<Longrightarrow> map_of (fold (restore_entry decode db) xs v) k \<noteq> None"
  "(k, c) \<in> set xs \<Longrightarrow> c_kind c \<noteq> ''retired'' \<Longrightarrow> map_of (fold (restore_entry decode db) xs v) k \<noteq> None"
proof (induction xs arbitrary: v)
  case (Cons x xs)
  {
    case 1
    then have f: "map_of (fold (restore_entry decode db) xs (restore_entry decode db x v)) k = Some p" by simp
    from Cons.IH(1) [OF f] show ?case
    proof
      assume "map_of (restore_entry decode db x v) k = Some p"
      from restore_entry_step(1) [OF this] show ?case by (cases x) auto
    qed auto
  next
    case 2
    with Cons.IH(2) restore_entry_step(2) show ?case by simp
  next
    case 3
    with Cons.IH(2) [of "restore_entry decode db x v"] Cons.IH(3) restore_entry_step(3) [of "(k, c)" k decode db v]
    show ?case by (cases "(k, c) = x") (auto simp del: not_None_eq)
  }
qed simp_all

lemma ingest_ok_restart:
  assumes "ingest_ok decode hard (db, m)"
  shows "ingest_ok decode hard (db, restore_mirror decode u db (Readable []))"
proof -
  have d: "distinct (map fst (t_publishers db))" and r: "\<forall>key. is_retired db key \<longrightarrow> saved db key = Map.empty" and t: "tables_ok db"
    and c: "rows_owned db" using assms by (auto simp: ingest_ok_def tables_ok_def)
  have "entry_ok decode db k p \<and> \<not> is_retired db k"
    if "map_of (fold (restore_entry decode db) (t_publishers db) []) k = Some p" for k p
    using restore_entries(1) [OF that] d by (auto simp: is_retired_def dest!: map_of_SomeD dest: eq_key_imp_eq_value)
  moreover have "held db k \<Longrightarrow> map_of (fold (restore_entry decode db) (t_publishers db) []) k \<noteq> None" for k
    using restore_entries(3) [of k] by (auto simp: held_def dest: map_of_SomeD)
  ultimately show ?thesis using r t c by (auto simp: ingest_ok_def restore_mirror_def on_view_def)
qed

lemma ingest_ok_applied:
  assumes ok: "ingest_ok decode hard (db, m)" and b: "body_ok decode b" and x: "x_invalidate x \<longrightarrow> hard"
  shows "ingest_ok decode hard (saved_after digest t b db, mirror_after x t b m)"
proof -
  let ?db = "saved_after digest t b db"
  have t: "tables_ok db" and r: "\<And>key. is_retired db key \<Longrightarrow> saved db key = Map.empty"
    using ok by (auto simp: ingest_ok_def)
  have ret: "is_retired ?db k \<longleftrightarrow> (if k = b_key b then b_kind b = ''retired'' else is_retired db k)" for k
  proof (cases "k = b_key b")
    case True
    have "map_of (t_publishers ?db) (b_key b) \<noteq> None"
      by (auto simp: saved_after_def Let_def write_retirement_def write_data_def stamp_cursor write_keeps write_cursor_def
          update_conv' fold_publishers)
    with True cursor_kind [of digest t b db] show ?thesis by (auto simp: is_retired_def)
  qed (simp add: is_retired_def cursor_other)
  have held: "held ?db k \<longleftrightarrow> (if k = b_key b then b_kind b \<noteq> ''retired'' \<and> held ?db k else held db k)" for k
    using cursor_kind [of digest t b db] by (auto simp: held_def cursor_other)
  have rows: "is_retired ?db k \<Longrightarrow> saved ?db k = Map.empty" for k
    using ret [of k] r saved_after_retired saved_after_other [OF t b] by (cases "k = b_key b") auto
  have "rows_owned db" using ok by (simp add: ingest_ok_def)
  then have cur: "rows_owned ?db" unfolding rows_owned_def
    using cursor_exists [of digest t b db] saved_after_other [OF t b] cursor_other [of _ b digest t db]
    by (metis option.distinct(1))
  have entries: "entry_ok decode ?db k p \<and> \<not> is_retired ?db k"
    if m: "m = Readable v" "mirror_after x t b m = Readable v'" "map_of v' k = Some p" for v v' k p
  proof -
    have old: "map_of v k = Some q \<Longrightarrow> entry_ok decode db k q \<and> \<not> is_retired db k" for k q
      using ok m(1) by (auto simp: ingest_ok_def)
    note e = mirror_after_entries [OF m(2) [unfolded m(1)]]
    show ?thesis
    proof (cases "k = b_key b")
      case True
      with e(1) m(3) have nr: "b_kind b \<noteq> ''retired''"
        and p: "\<not> p_complete p \<or> (\<exists>r. p = (fed_entry t b (map_of v (b_key b)))\<lparr>p_report := r\<rparr>)" by auto
      have "entry_ok decode ?db (b_key b) (fed_entry t b (map_of v (b_key b)))"
        unfolding fed_entry_def using entry_ok_unavailable entry_ok_data [OF _ nr t b] old by auto
      with p nr True ret show ?thesis by auto
    next
      case False
      from e(3) [OF False m(3)] obtain q where q: "map_of v k = Some q" "p = q \<or> \<not> p_complete p" by blast
      have "entry_ok decode ?db k q"
        using old [OF q(1)] False saved_after_other [OF t b False] by (simp add: entry_ok_def cursor_other)
      with q old [OF q(1)] False ret show ?thesis by auto
    qed
  qed
  have dom: "map_of v' k \<noteq> None"
    if m: "m = Readable v" "mirror_after x t b m = Readable v'" and h: "\<not> hard" "held ?db k" for v v' k
  proof (cases "k = b_key b")
    case True
    with h(2) held [of k] mirror_after_entries(2) [OF m(2) [unfolded m(1)]] show ?thesis by auto
  next
    case False
    with ok m(1) h held [of k] have "map_of v k \<noteq> None" by (auto simp: ingest_ok_def)
    with mirror_after_entries(4) [OF m(2) [unfolded m(1)] _ False] x h(1) show ?thesis by auto
  qed
  show ?thesis
  proof (cases m)
    case (Readable v)
    with rows entries dom cur saved_after_tables [OF t b] show ?thesis by (auto simp: ingest_ok_def)
  next
    case Unreadable
    then have "mirror_after x t b m = Unreadable"
      by (auto simp: mirror_after_def retire_publisher_def retire_safe_def readable_view_def on_view_def feed_or_invalidate_def
          invalidate_safe_def Let_def)
    with rows cur saved_after_tables [OF t b] show ?thesis by (auto simp: ingest_ok_def)
  qed
qed

lemma ingest_ok_step:
  assumes "ingest_ok decode hard s" and "ingest_step decode hard s s'"
  shows "ingest_ok decode hard s'"
  using assms(2)
proof cases
  case (publication b x digest t)
  obtain db m where s: "s = (db, m)" by (cases s)
  obtain r db' m' where a: "apply_publication x digest t b (db, m) = (r, db', m')" by (metis prod_cases3)
  from a show ?thesis
    by (cases rule: apply_cases) (use assms(1) publication ingest_ok_applied s a in auto)
next
  case (restart db m u)
  with assms(1) ingest_ok_restart show ?thesis by simp
qed

definition empty_ingest :: "idb \<times> mirror" where
  "empty_ingest = (\<lparr>t_publishers = [], t_rows = []\<rparr>, Readable [])"

interpretation ingest: invariant_system "\<lambda>s. s = empty_ingest" "ingest_step decode hard" "ingest_ok decode hard" for decode hard
proof
  show "ingest_ok decode hard s" if "s = empty_ingest" for s
    using that by (auto simp: ingest_ok_def empty_ingest_def tables_ok_def saved_def held_def is_retired_def rows_owned_def)
qed (rule ingest_ok_step)

subsection \<open>Order\<close>

text \<open>The publications of a key that its cursor has passed: everything in an earlier generation, and the
  generation's own up to the last one applied.\<close>

definition passed :: "pkey \<Rightarrow> idb \<times> mirror \<Rightarrow> (int \<times> int) set" where
  "passed key s = (case map_of (t_publishers (fst s)) key of
     None \<Rightarrow> {}
   | Some c \<Rightarrow> {(g, n). g < c_generation c \<or> (g = c_generation c \<and> n \<le> c_publication c)})"

lemma passed_applied: "passed (b_key b) (saved_after digest t b db, m)
    = {(g, n). g < b_generation b \<or> (g = b_generation b \<and> n \<le> b_publication b)}"
  using cursor_exists [of digest t b db] cursor_kind [of digest t b db] by (auto simp: passed_def)

lemma passed_step:
  assumes "ingest_step decode hard s s'"
  shows "passed key s \<subseteq> passed key s'"
  using assms
proof cases
  case (publication b x digest t)
  obtain db m where s: "s = (db, m)" by (cases s)
  obtain r db' m' where a: "apply_publication x digest t b (db, m) = (r, db', m')" by (metis prod_cases3)
  from a show ?thesis
  proof (cases rule: apply_cases)
    case applied
    show ?thesis
    proof (cases "key = b_key b")
      case True
      with applied(2,3) publication s a show ?thesis
        using passed_applied [of b digest t db m'] by (auto simp: passed_def order_refusal_def split: option.splits if_splits)
    next
      case False
      with applied publication s a show ?thesis by (simp add: passed_def cursor_other)
    qed
  qed (use publication s a in \<open>auto\<close>)
next
  case restart
  then show ?thesis by (simp add: passed_def)
qed

interpretation cursor: monotone_system "ingest_step decode hard" "passed key" for decode hard key
  by unfold_locales (rule passed_step)

lemma passed_refused: "(b_generation b, b_publication b) \<in> passed (b_key b) (db, m) \<Longrightarrow>
    fst (apply_publication x digest t b (db, m)) \<noteq> Applied"
proof -
  assume "(b_generation b, b_publication b) \<in> passed (b_key b) (db, m)"
  then obtain c where c: "map_of (t_publishers db) (b_key b) = Some c"
    "b_generation b < c_generation c \<or> b_generation b = c_generation c \<and> b_publication b \<le> c_publication c"
    by (auto simp: passed_def split: option.splits)
  have "order_refusal (Some c) b digest \<noteq> None" using c(2) by (elim disjE) (simp_all add: order_refusal_def)
  then obtain reason where "order_refusal (Some c) b digest = Some reason" by blast
  with c show ?thesis by (simp add: apply_publication_def)
qed

subsection \<open>Properties\<close>

text \<open>C5. What is served as complete is what is saved: after any publications, failures at any point and
  restarts, a publisher the mirror calls complete holds, for every agent, exactly the record in the saved
  table, and a publisher that retired is in neither.\<close>

theorem complete_mirror_is_saved_state:
  assumes "(ingest_step decode hard)\<^sup>*\<^sup>* empty_ingest (db, Readable v)"
  shows "(\<forall>key p. map_of v key = Some p \<and> p_complete p \<longrightarrow>
        (\<forall>aid. map_option Some (row_at p aid) = map_option (decode \<circ> s_json) (map_of (t_rows db) (key, aid))))
    \<and> (\<forall>key c. map_of (t_publishers db) key = Some c \<and> c_kind c = ''retired'' \<longrightarrow>
        map_of v key = None \<and> (\<forall>aid. map_of (t_rows db) (key, aid) = None))"
proof -
  have ok: "ingest_ok decode hard (db, Readable v)" using ingest.inv_reachable [OF refl assms] .
  have "map_option Some (row_at p aid) = map_option (decode \<circ> s_json) (saved db key aid)"
    if "map_of v key = Some p" "p_complete p" for key p aid
  proof -
    from ok that have "rel_option (same_record decode) (row_at p aid) (saved db key aid)"
      by (auto simp: ingest_ok_def entry_ok_def agrees_def)
    then show ?thesis by (cases rule: option.rel_cases) (auto simp: same_record_def)
  qed
  moreover have "map_of v key = None \<and> (\<forall>aid. saved db key aid = None)" if "is_retired db key" for key
    using ok that by (cases "map_of v key") (auto simp: ingest_ok_def)
  ultimately show ?thesis unfolding saved_def is_retired_def by blast
qed

text \<open>A host that publishes one idle agent, and the world after its snapshot was applied.\<close>

definition demo_agent :: "bool \<Rightarrow> arec" where
  "demo_agent busy = \<lparr>a_id = ''a'', a_lifetime = Some ''l1'', a_state = (if busy then ''working'' else ''idle''), a_busy = Some busy\<rparr>"

definition demo_decode :: "string \<Rightarrow> arec option" where
  "demo_decode js = (if js = ''busy'' then Some (demo_agent True) else if js = ''idle'' then Some (demo_agent False) else None)"

definition demo_snapshot :: "string \<Rightarrow> int \<Rightarrow> bool \<Rightarrow> pbody" where
  "demo_snapshot inst n busy = \<lparr>b_kind = ''snapshot'', b_key = (''m'', inst), b_generation = 1, b_incarnation = ''i'',
     b_publication = n, b_inputs = ''{}'', b_reason = None, b_agents = [(demo_agent busy, if busy then ''busy'' else ''idle'')],
     b_removed = [], b_build = None, b_report_every = Some 10000\<rparr>"

definition publish :: "ifaults \<Rightarrow> pbody \<Rightarrow> idb \<times> mirror \<Rightarrow> idb \<times> mirror" where
  "publish x b s = snd (apply_publication x (nat_str (nat (b_publication b))) ''t0'' b s)"

definition demo_world :: "idb \<times> mirror" where
  "demo_world = publish no_ifaults (demo_snapshot ''one'' 1 False) empty_ingest"

definition view_of :: "mirror \<Rightarrow> pview" where
  "view_of m = (case m of Readable v \<Rightarrow> v | Unreadable \<Rightarrow> [])"

lemma demo_body_ok: "body_ok demo_decode (demo_snapshot i n b)"
  by (simp add: body_ok_def demo_snapshot_def demo_decode_def demo_agent_def)

lemma demo_world_run: "(ingest_step demo_decode False)\<^sup>*\<^sup>* empty_ingest demo_world"
  unfolding demo_world_def publish_def
  by (intro r_into_rtranclp ingest_step.publication demo_body_ok) (simp add: no_ifaults_def)

lemma demo_world_eval:
  "demo_world = (fst demo_world, Readable (view_of (snd demo_world)))"
  "map_of (view_of (snd demo_world)) (''m'', ''one'') \<noteq> None"
  "p_complete (the (map_of (view_of (snd demo_world)) (''m'', ''one'')))"
  "map_of (t_rows (fst demo_world)) ((''m'', ''one''), ''a'') = Some \<lparr>s_lifetime = Some ''l1'', s_json = ''idle''\<rparr>"
  "fst (apply_publication no_ifaults ''1'' ''t0'' (demo_snapshot ''one'' 1 False) empty_ingest) = Applied"
  by code_simp+

theorem complete_mirror_is_saved_state_witness:
  "\<exists>p. map_of (view_of (snd demo_world)) (''m'', ''one'') = Some p \<and> row_at p ''a'' = Some (demo_agent False)"
proof -
  obtain p where p: "map_of (view_of (snd demo_world)) (''m'', ''one'') = Some p" "p_complete p"
    using demo_world_eval(2,3) by auto
  have run: "(ingest_step demo_decode False)\<^sup>*\<^sup>* empty_ingest (fst demo_world, Readable (view_of (snd demo_world)))"
    using demo_world_run demo_world_eval(1) by simp
  have "map_option Some (row_at p ''a'') = map_option (demo_decode \<circ> s_json) (map_of (t_rows (fst demo_world)) ((''m'', ''one''), ''a''))"
    using complete_mirror_is_saved_state [OF run] p by blast
  then show ?thesis using p demo_world_eval(4) by (auto simp: demo_decode_def)
qed

text \<open>C32. A publication takes effect at most once and never out of order: once one was applied, neither it nor
  any other publication of its publisher with an earlier or equal position is applied again, whatever is
  published and however often the service restarts in between.\<close>

theorem publications_apply_in_order:
  assumes "apply_publication x digest t b (db, m) = (Applied, db1, m1)" and "(ingest_step decode hard)\<^sup>*\<^sup>* (db1, m1) (db2, m2)"
    and "b_key c = b_key b" and "b_generation c < b_generation b \<or> (b_generation c = b_generation b \<and> b_publication c \<le> b_publication b)"
  shows "fst (apply_publication x' digest' t' c (db2, m2)) \<noteq> Applied"
proof -
  from assms(1) have "db1 = saved_after digest t b db" by (cases rule: apply_cases) auto
  then have "(b_generation c, b_publication c) \<in> passed (b_key b) (db1, m1)" using assms(4) by (simp add: passed_applied)
  with cursor.run_mono [OF assms(2), of "b_key b"] have "(b_generation c, b_publication c) \<in> passed (b_key c) (db2, m2)"
    using assms(3) by auto
  then show ?thesis by (rule passed_refused)
qed

theorem publications_apply_in_order_witness:
  "fst (apply_publication no_ifaults ''again'' ''t9'' (demo_snapshot ''one'' 1 True) demo_world) \<noteq> Applied"
proof -
  have a: "apply_publication no_ifaults ''1'' ''t0'' (demo_snapshot ''one'' 1 False) empty_ingest
      = (Applied, fst demo_world, snd demo_world)"
    by code_simp
  then have "apply_publication no_ifaults ''1'' ''t0'' (demo_snapshot ''one'' 1 False) (fst empty_ingest, snd empty_ingest)
      = (Applied, fst demo_world, snd demo_world)" by simp
  from publications_apply_in_order [OF this rtranclp.rtrancl_refl, where c = "demo_snapshot ''one'' 1 True" and x' = no_ifaults
      and digest' = "''again''" and t' = "''t9''"]
  show ?thesis by (simp add: demo_snapshot_def)
qed

text \<open>A snapshot recovers a publisher from anything: applied without a failure of the mirror, it leaves its
  publisher complete, neither lost nor unavailable nor restored, with exactly the snapshot's records and
  the report it announced.\<close>

theorem snapshot_recovers_publisher:
  assumes "apply_publication x digest t b (db, Readable v) = (Applied, db', Readable v')"
    and "b_kind b = ''snapshot''" and "distinct (map (a_id \<circ> fst) (b_agents b))"
    and "\<not> x_prepare x" and "\<not> x_feed x" and "\<not> x_renew x"
  shows "\<exists>p. map_of v' (b_key b) = Some p \<and> p_complete p \<and> \<not> p_loss p \<and> \<not> p_unavailable p \<and> \<not> p_restored p
    \<and> (\<forall>aid. row_at p aid = map_of (map (\<lambda>r. (a_id r, r)) (map fst (b_agents b))) aid)
    \<and> p_report p = Some (t, b_report_every b)"
proof -
  let ?p = "feed_data (prepare b t) (map_of v (b_key b))"
  from assms(1) have "mirror_after x t b (Readable v) = Readable v'" by (cases rule: apply_cases) auto
  then have v': "map_of v' (b_key b) = Some (?p\<lparr>p_report := Some (t, b_report_every b)\<rparr>)"
    using assms(2,4-6) by (auto simp: mirror_after_def feed_or_invalidate_def on_view_def renew_report_entries feed_mirror_def
        update_conv' prepare_def Let_def)
  have "row_at ?p = map_of (put_rows (map fst (b_agents b)) [])"
    using map_of_rows [OF keyed_fed_rows, of "prepare b t" "map_of v (b_key b)"] assms(2)
    by (simp add: row_at_def fun_eq_iff feed_data_def fed_rows_def replaces_def prepare_def Let_def)
  also have "\<dots> = map_of (map (\<lambda>r. (a_id r, r)) (map fst (b_agents b)))"
    using put_rows_distinct [of "map fst (b_agents b)" "[]"] assms(3) by (simp add: rows_distinct_def comp_def)
  finally have "row_at ?p = map_of (map (\<lambda>r. (a_id r, r)) (map fst (b_agents b)))" .
  moreover have "p_complete ?p \<and> \<not> p_loss ?p \<and> \<not> p_unavailable ?p \<and> \<not> p_restored ?p"
    using assms(2) by (simp add: feed_data_def prepare_def Let_def)
  ultimately show ?thesis unfolding v' by simp
qed

theorem snapshot_recovers_publisher_witness:
  "\<exists>v p. snd (publish no_ifaults (demo_snapshot ''one'' 2 True) (fst demo_world, Readable (invalidate (''m'', ''one'') (view_of (snd demo_world)))))
      = Readable v \<and> map_of v (''m'', ''one'') = Some p \<and> p_complete p \<and> \<not> p_loss p \<and> row_at p ''a'' = Some (demo_agent True)"
proof -
  let ?s = "(fst demo_world, Readable (invalidate (''m'', ''one'') (view_of (snd demo_world))))"
  let ?b = "demo_snapshot ''one'' 2 True"
  let ?r = "apply_publication no_ifaults ''2'' ''t0'' ?b ?s"
  have r: "?r = (Applied, fst (snd ?r), Readable (view_of (snd (snd ?r))))" by code_simp
  have "snd (publish no_ifaults ?b ?s) = Readable (view_of (snd (snd ?r)))" by code_simp
  with snapshot_recovers_publisher [OF r] show ?thesis
    by (fastforce simp: demo_snapshot_def no_ifaults_def demo_agent_def)
qed

end
