(* ===== verification/OperationalView.thy ===== *)
theory OperationalView
  imports StateIngest "HOL-Library.List_Lexorder" "HOL-Library.Char_ord"
begin

text \<open>
  What the service may conclude about an agent from the mirror: \<open>service/api_core/report_age.py\<close>,
  \<open>service/api_core/operational_view.py\<close>, the readers' way in of \<open>switched_view.py\<close> and the status
  words of \<open>service/status_vocabulary.py\<close>.

  The claim gate, the send-time hold, the reminder, the stranded guard and the orphan reaper all read
  one view of the agent. Timestamps are ISO text; \<open>parse\<close> stands for \<open>datetime.fromisoformat\<close> with the
  zone applied and gives microseconds, or nothing for text it refuses or that has no zone.
\<close>

declare split_paired_All [simp del] split_paired_Ex [simp del]

subsection \<open>How long since a publisher was heard\<close>

definition MISSED_REPORTS :: int where "MISSED_REPORTS = 3"
definition REPORT_EVERY_MS_BOUNDS :: "int \<times> int" where "REPORT_EVERY_MS_BOUNDS = (1000, 3600000)"
definition LEGACY_RECEIPT_LIMIT_S :: int where "LEGACY_RECEIPT_LIMIT_S = 180"

text \<open>The elapsed microseconds, or the class that says why there is no answer.\<close>

definition elapsed :: "(string \<Rightarrow> int option) \<Rightarrow> string option \<Rightarrow> string \<Rightarrow> string + int" where
  "elapsed parse since at = (case (Option.bind since parse, parse at) of
     (Some start, Some end') \<Rightarrow> if end' - start < 0 then Inl ''future'' else Inr (end' - start)
   | _ \<Rightarrow> Inl ''invalid-clock'')"

definition legacy_receipt_age :: "(string \<Rightarrow> int option) \<Rightarrow> string option \<Rightarrow> string \<Rightarrow> string" where
  "legacy_receipt_age parse data_applied_at at = (case elapsed parse data_applied_at at of
     Inl word \<Rightarrow> word
   | Inr us \<Rightarrow> if us < LEGACY_RECEIPT_LIMIT_S * 1000000 then ''fresh'' else ''stale'')"

definition is_report_interval :: "int option \<Rightarrow> bool" where
  "is_report_interval e = (case e of None \<Rightarrow> False
     | Some n \<Rightarrow> fst REPORT_EVERY_MS_BOUNDS \<le> n \<and> n \<le> snd REPORT_EVERY_MS_BOUNDS)"

definition report_age :: "(string \<Rightarrow> int option) \<Rightarrow> publisher \<Rightarrow> string \<Rightarrow> string" where
  "report_age parse p at = (case p_report p of
     None \<Rightarrow> ''not-reporting''
   | Some (received_at, every) \<Rightarrow>
       if \<not> is_report_interval every then ''not-reporting''
       else (case elapsed parse (Some received_at) at of
               Inl word \<Rightarrow> word
             | Inr us \<Rightarrow> if us < MISSED_REPORTS * the every * 1000 then ''fresh'' else ''stale''))"

subsection \<open>Holders\<close>

definition PROMOTABLE :: "string list" where
  "PROMOTABLE = [''idle'', ''shell'', ''starting'', ''available'']"

abbreviation FRESH :: string where "FRESH \<equiv> ''fresh''"

record holder =
  h_availability :: string
  h_busy :: "bool option"
  h_state :: string
  h_lifetime :: "string option"
  h_applied_at :: "string option"

record holders =
  hs_holders :: "holder list"
  hs_unreadable :: bool

record messaging =
  m_run_occupied :: bool
  m_run_running :: bool
  m_operator_stopped :: bool
  m_wake_handle_absent :: bool
  m_delivery_path_missing :: string
  m_usage_limited_until :: "string option"

record view =
  v_status :: string
  v_last_known :: "(string \<times> string) option"
  v_deliverable :: bool
  v_eligibility :: string
  v_busy :: "bool option"
  v_holds_delivery :: "bool option"
  v_run_occupied :: bool
  v_usage_limited_until :: "string option"

record binding =
  bd_view :: "pview option"
  bd_at :: string
  bd_loss :: bool

definition bind_mirror :: "string \<Rightarrow> mirror \<Rightarrow> binding" where
  "bind_mirror at m = (case m of
     Readable v \<Rightarrow> \<lparr>bd_view = Some v, bd_at = at, bd_loss = False\<rparr>
   | Unreadable \<Rightarrow> \<lparr>bd_view = None, bd_at = [], bd_loss = True\<rparr>)"

definition availability_of :: "(string \<Rightarrow> int option) \<Rightarrow> publisher \<Rightarrow> string \<Rightarrow> string" where
  "availability_of parse p at =
     (if p_loss p then ''lost'' else if p_unavailable p then ''unavailable'' else if p_restored p then ''restored''
      else if \<not> p_complete p then ''incomplete'' else report_age parse p at)"

definition rows_of :: "string \<Rightarrow> publisher \<Rightarrow> arec list" where
  "rows_of agent_id p = filter (\<lambda>r. a_id r = agent_id) (p_rows p)"

text \<open>The publishers on the agent's machine, and whether a live one lists the agent.\<close>

definition candidates :: "string \<Rightarrow> pview \<Rightarrow> publisher list" where
  "candidates machine v = map snd (filter (\<lambda>((mid, _), _). mid = machine) v)"

definition covered :: "(string \<Rightarrow> int option) \<Rightarrow> string \<Rightarrow> string \<Rightarrow> publisher list \<Rightarrow> bool" where
  "covered parse at agent_id ps =
     (\<exists>p \<in> set ps. availability_of parse p at = FRESH \<and> rows_of agent_id p \<noteq> [])"

fun add_holders :: "(string \<Rightarrow> int option) \<Rightarrow> string \<Rightarrow> string \<Rightarrow> bool \<Rightarrow> publisher list \<Rightarrow> holders \<Rightarrow> holders" where
  "add_holders parse at aid cov [] hs = hs"
| "add_holders parse at aid cov (p # ps) hs =
     (if cov \<and> report_age parse p at = ''stale'' then add_holders parse at aid cov ps hs
      else add_holders parse at aid cov ps
        \<lparr>hs_holders = hs_holders hs @ map (\<lambda>r. \<lparr>h_availability = availability_of parse p at, h_busy = a_busy r,
            h_state = a_state r, h_lifetime = a_lifetime r, h_applied_at = p_data_applied_at p\<rparr>) (rows_of aid p),
         hs_unreadable = (hs_unreadable hs \<or> (availability_of parse p at \<noteq> FRESH \<and> rows_of aid p = []))\<rparr>)"

definition holders_of :: "(string \<Rightarrow> int option) \<Rightarrow> binding \<Rightarrow> string \<Rightarrow> string \<Rightarrow> holders" where
  "holders_of parse bd machine agent_id = (case bd_view bd of
     None \<Rightarrow> \<lparr>hs_holders = [], hs_unreadable = True\<rparr>
   | Some v \<Rightarrow>
       if bd_loss bd then \<lparr>hs_holders = [], hs_unreadable = True\<rparr>
       else (let ps = candidates machine v in
             add_holders parse (bd_at bd) agent_id (covered parse (bd_at bd) agent_id ps) ps
               \<lparr>hs_holders = [], hs_unreadable = False\<rparr>))"

subsection \<open>The view\<close>

definition fresh_holders :: "holders \<Rightarrow> holder list" where
  "fresh_holders hs = filter (\<lambda>h. h_availability h = FRESH) (hs_holders hs)"

definition busy_of :: "holders \<Rightarrow> string \<times> bool option" where
  "busy_of hs =
     (let fresh = fresh_holders hs;
          all_fresh = (hs_holders hs \<noteq> [] \<and> \<not> hs_unreadable hs \<and> length fresh = length (hs_holders hs)) in
      if \<exists>h \<in> set fresh. h_busy h = Some True then (if all_fresh then ''known'' else ''unknown'', Some True)
      else if \<not> all_fresh then (''unknown'', None)
      else if \<exists>h \<in> set fresh. h_busy h \<noteq> Some False then (''unknown'', None)
      else (''known'', Some False))"

definition status_word :: "string \<Rightarrow> string" where
  "status_word state = (case candidate_word state of None \<Rightarrow> ''unknown''
     | Some w \<Rightarrow> if w = [] then ''unknown'' else w)"

text \<open>\<open>max(applied, key=...)\<close> keeps the first of the latest.\<close>

fun latest :: "holder \<Rightarrow> holder list \<Rightarrow> holder" where
  "latest best [] = best"
| "latest best (h # hs) = latest (if the (h_applied_at h) > the (h_applied_at best) then h else best) hs"

definition last_known :: "holders \<Rightarrow> (string \<times> string) option" where
  "last_known hs = (case filter (\<lambda>h. h_applied_at h \<noteq> None \<and> h_applied_at h \<noteq> Some []) (hs_holders hs) of
     [] \<Rightarrow> None
   | h # rest \<Rightarrow> (let l = latest h rest in Some (status_word (h_state l), the (h_applied_at l))))"

definition PROMOTABLE_WORDS :: "string list" where
  "PROMOTABLE_WORDS = List.map_filter candidate_word PROMOTABLE"

definition USAGE_BLOCKABLE_WORDS :: "string list" where
  "USAGE_BLOCKABLE_WORDS = PROMOTABLE_WORDS @ [''working'']"

definition GONE_WORDS :: "string list" where
  "GONE_WORDS = [''offline'', ''stopped'']"

text \<open>The word, the last known record and the usage limit it serves.\<close>

definition comms_word :: "holders \<Rightarrow> messaging \<Rightarrow> string \<times> (string \<times> string) option \<times> string option" where
  "comms_word hs m =
     (let fresh = fresh_holders hs in
      if m_operator_stopped m then (''stopped'', None, None)
      else if m_wake_handle_absent m then (''offline'', None, None)
      else if fst (busy_of hs) = ''unknown'' then (''unknown'', last_known hs, None)
      else if length fresh > 1 then (''unknown'', None, None)
      else (let state = h_state (hd fresh);
                word = (if m_run_running m \<and> state \<in> set PROMOTABLE then ''working'' else status_word state) in
            if m_usage_limited_until m \<noteq> None \<and> word \<in> set USAGE_BLOCKABLE_WORDS
            then (''blocked'', None, m_usage_limited_until m) else (word, None, None)))"

definition comms_view :: "holders \<Rightarrow> messaging \<Rightarrow> view" where
  "comms_view hs m =
     (let (eligibility, busy) = busy_of hs; (word, known, limited) = comms_word hs m in
      \<lparr>v_status = word, v_last_known = known, v_deliverable = (m_delivery_path_missing m = []),
       v_eligibility = eligibility, v_busy = busy,
       v_holds_delivery = (if busy = Some True then Some True else if eligibility = ''known'' then Some False else None),
       v_run_occupied = m_run_occupied m, v_usage_limited_until = (if word = ''blocked'' then limited else None)\<rparr>)"

subsection \<open>The readers\<close>

datatype gate = Withhold | Steer | Hold | Proceed

definition claim_decision :: "view \<Rightarrow> bool \<Rightarrow> gate" where
  "claim_decision v steerable_run =
     (if v_eligibility v \<noteq> ''known'' then Withhold
      else if v_busy v = Some True then (if steerable_run then Steer else Hold)
      else Proceed)"

definition send_time_hold :: "view \<Rightarrow> bool \<Rightarrow> bool \<Rightarrow> bool" where
  "send_time_hold v queue_if_busy occupied =
     (if v_eligibility v \<noteq> ''known'' then True else queue_if_busy \<and> (occupied \<or> v_busy v = Some True))"

definition reminder_paused :: "view \<Rightarrow> bool" where
  "reminder_paused v = (v_busy v \<noteq> Some False \<or> v_eligibility v \<noteq> ''known'' \<or> v_run_occupied v)"

definition stranded_protected :: "view \<Rightarrow> bool" where
  "stranded_protected v = (v_busy v \<noteq> Some False \<or> v_eligibility v \<noteq> ''known'')"

datatype orphan = Protect | Gone | Idle_Target

definition orphan_safety :: "view \<Rightarrow> orphan" where
  "orphan_safety v =
     (if v_busy v = Some True then Protect
      else if v_status v \<in> set GONE_WORDS then Gone
      else if v_eligibility v \<noteq> ''known'' then Protect
      else Idle_Target)"

definition promoted :: "string \<Rightarrow> bool \<Rightarrow> string" where
  "promoted word run_running = (if run_running \<and> word \<in> set PROMOTABLE_WORDS then ''working'' else word)"

definition NON_LIVE_AGENT_STATUSES :: "string list" where
  "NON_LIVE_AGENT_STATUSES = [''offline'', ''stopped'', ''misconfigured'']"

definition is_live_agent_status :: "string \<Rightarrow> bool" where
  "is_live_agent_status status = (let value = norm_word status in
     value \<noteq> [] \<and> \<not> (\<exists>dead \<in> set NON_LIVE_AGENT_STATUSES. prefix dead value))"

definition counts_live :: "string \<Rightarrow> bool" where
  "counts_live word = (word \<noteq> ''unknown'' \<and> is_live_agent_status word)"

text \<open>\<open>switched_view._holders\<close> and \<open>eligibility_view\<close>: an agent that cannot be placed is unknown.\<close>

definition agent_holders :: "(string \<Rightarrow> int option) \<Rightarrow> string \<Rightarrow> string \<Rightarrow> binding \<Rightarrow> holders" where
  "agent_holders parse machine_id agent_id bd =
     (let machine = py_strip machine_id; aid = py_strip agent_id in
      if machine = [] \<or> aid = [] then \<lparr>hs_holders = [], hs_unreadable = True\<rparr> else holders_of parse bd machine aid)"

definition no_messaging :: "bool \<Rightarrow> messaging" where
  "no_messaging occupied = \<lparr>m_run_occupied = occupied, m_run_running = False, m_operator_stopped = False,
     m_wake_handle_absent = False, m_delivery_path_missing = [], m_usage_limited_until = None\<rparr>"

definition eligibility_view :: "(string \<Rightarrow> int option) \<Rightarrow> string \<Rightarrow> string \<Rightarrow> binding \<Rightarrow> bool \<Rightarrow> view" where
  "eligibility_view parse machine_id agent_id bd run_occupied =
     comms_view (agent_holders parse machine_id agent_id bd) (no_messaging run_occupied)"

definition last_known_api :: "view \<Rightarrow> (string \<times> string) option" where
  "last_known_api v = (if v_status v \<noteq> ''unknown'' then None else v_last_known v)"

subsection \<open>What the gates conclude\<close>

definition skipped :: "(string \<Rightarrow> int option) \<Rightarrow> string \<Rightarrow> bool \<Rightarrow> publisher \<Rightarrow> bool" where
  "skipped parse at cov p = (cov \<and> report_age parse p at = ''stale'')"

definition holder_of :: "(string \<Rightarrow> int option) \<Rightarrow> string \<Rightarrow> publisher \<Rightarrow> arec \<Rightarrow> holder" where
  "holder_of parse at p r = \<lparr>h_availability = availability_of parse p at, h_busy = a_busy r, h_state = a_state r,
     h_lifetime = a_lifetime r, h_applied_at = p_data_applied_at p\<rparr>"

lemma add_holders_eq:
  "hs_holders (add_holders parse at aid cov ps hs) = hs_holders hs @
     concat (map (\<lambda>p. map (holder_of parse at p) (rows_of aid p)) (filter (\<lambda>p. \<not> skipped parse at cov p) ps))"
  "hs_unreadable (add_holders parse at aid cov ps hs) \<longleftrightarrow> hs_unreadable hs \<or>
     (\<exists>p \<in> set ps. \<not> skipped parse at cov p \<and> availability_of parse p at \<noteq> FRESH \<and> rows_of aid p = [])"
  by (induction ps arbitrary: hs) (auto simp: skipped_def holder_of_def)

lemma fresh_all: "length (fresh_holders hs) = length (hs_holders hs) \<longleftrightarrow> (\<forall>h \<in> set (hs_holders hs). h_availability h = FRESH)"
proof -
  have "length (filter P xs) = length xs \<longleftrightarrow> (\<forall>x \<in> set xs. P x)" for P :: "holder \<Rightarrow> bool" and xs
  proof (induction xs)
    case (Cons a xs)
    have "length (filter P xs) \<noteq> Suc (length xs)" using length_filter_le [of P xs] by linarith
    with Cons show ?case by simp
  qed simp
  then show ?thesis by (simp add: fresh_holders_def)
qed

text \<open>Known idle: there is a holder, and every holder is fresh and reports that the agent is not busy.\<close>

definition known_idle :: "holders \<Rightarrow> bool" where
  "known_idle hs = (hs_holders hs \<noteq> [] \<and> \<not> hs_unreadable hs
     \<and> (\<forall>h \<in> set (hs_holders hs). h_availability h = FRESH \<and> h_busy h = Some False))"

lemma known_idle_iff: "busy_of hs = (''known'', Some False) \<longleftrightarrow> known_idle hs"
proof (cases "\<forall>h \<in> set (hs_holders hs). h_availability h = FRESH")
  case True
  then have "fresh_holders hs = hs_holders hs" by (simp add: fresh_holders_def)
  then show ?thesis using True by (auto simp: busy_of_def known_idle_def Let_def split: if_splits)
next
  case False
  then have "length (fresh_holders hs) \<noteq> length (hs_holders hs)" by (simp only: fresh_all not_False_eq_True)
  then show ?thesis using False by (auto simp: busy_of_def known_idle_def Let_def split: if_splits)
qed

lemma busy_of_cases:
  obtains (busy) "busy_of hs = (''known'', Some True)" | (busy_unknown) "busy_of hs = (''unknown'', Some True)"
    | (unknown) "busy_of hs = (''unknown'', None)" | (idle) "busy_of hs = (''known'', Some False)"
proof -
  have "fst (busy_of hs) = ''known'' \<or> fst (busy_of hs) = ''unknown''" by (simp add: busy_of_def Let_def)
  moreover have "snd (busy_of hs) = None \<Longrightarrow> fst (busy_of hs) = ''unknown''"
    "snd (busy_of hs) = Some False \<Longrightarrow> fst (busy_of hs) = ''known''" by (auto simp: busy_of_def Let_def split: if_splits)
  ultimately show ?thesis using that by (cases "busy_of hs"; cases "snd (busy_of hs)") auto
qed

lemma view_facts [simp]:
  "v_eligibility (comms_view hs m) = fst (busy_of hs)" "v_busy (comms_view hs m) = snd (busy_of hs)"
  "v_run_occupied (comms_view hs m) = m_run_occupied m" "v_status (comms_view hs m) = fst (comms_word hs m)"
  by (simp_all add: comms_view_def split: prod.splits)

lemma claim_proceeds_iff: "claim_decision (comms_view hs m) s = Proceed \<longleftrightarrow> known_idle hs"
  unfolding known_idle_iff [symmetric] by (cases rule: busy_of_cases [of hs]) (simp_all add: claim_decision_def)

lemma gates_of:
  "stranded_protected (comms_view hs m) \<longleftrightarrow> \<not> known_idle hs"
  "reminder_paused (comms_view hs m) \<longleftrightarrow> \<not> known_idle hs \<or> m_run_occupied m"
  "send_time_hold (comms_view hs m) q occ \<longleftrightarrow> fst (busy_of hs) = ''unknown'' \<or> q \<and> (occ \<or> \<not> known_idle hs)"
  unfolding known_idle_iff [symmetric]
  by (cases rule: busy_of_cases [of hs]; simp add: stranded_protected_def reminder_paused_def send_time_hold_def)+

text \<open>A saved record of the agent on its machine, judged by the mirror of a reachable state: its publisher
  is in the mirror and, unless it fell silent or cannot be trusted, is held.\<close>

lemma saved_row_held:
  assumes "ingest_ok decode False (db, Readable v)" and "map_of (t_rows db) ((mid, inst), aid) = Some row"
  obtains p where "map_of v (mid, inst) = Some p"
    and "p_complete p \<Longrightarrow> \<exists>r \<in> set (rows_of aid p). decode (s_json row) = Some r"
proof -
  let ?k = "(mid, inst)"
  have row: "saved db ?k aid = Some row" using assms(2) by (simp add: saved_def)
  with assms(1) have "map_of (t_publishers db) ?k \<noteq> None" and nr: "\<not> is_retired db ?k"
    by (auto simp: ingest_ok_def rows_owned_def)
  then have "held db ?k" by (auto simp: held_def is_retired_def)
  with assms(1) obtain p where p: "map_of v ?k = Some p" "entry_ok decode db ?k p" by (fastforce simp: ingest_ok_def)
  show ?thesis
  proof (rule that [OF p(1)])
    assume "p_complete p"
    with p(2) have "rel_option (same_record decode) (row_at p aid) (saved db ?k aid)"
      by (auto simp: entry_ok_def agrees_def)
    with row obtain r where "row_at p aid = Some r" "decode (s_json row) = Some r"
      by (auto simp: option_rel_Some2 same_record_def)
    then show "\<exists>r \<in> set (rows_of aid p). decode (s_json row) = Some r"
      by (auto simp: row_at_def rows_of_def dest!: map_of_SomeD)
  qed
qed

lemma fresh_complete: "availability_of parse p at = FRESH \<Longrightarrow> p_complete p"
  by (auto simp: availability_of_def split: if_splits)

lemma candidates_I: "map_of v (mid, inst) = Some p \<Longrightarrow> p \<in> set (candidates mid v)"
  by (force simp: candidates_def dest: map_of_SomeD)

text \<open>Known: there is a holder and every holder is fresh.\<close>

definition all_known :: "holders \<Rightarrow> bool" where
  "all_known hs = (hs_holders hs \<noteq> [] \<and> \<not> hs_unreadable hs \<and> (\<forall>h \<in> set (hs_holders hs). h_availability h = FRESH))"

lemma busy_of_known: "fst (busy_of hs) = ''known'' \<Longrightarrow> all_known hs"
  by (auto simp: busy_of_def all_known_def fresh_all [symmetric] Let_def split: if_splits)

lemma busy_of_busy: "snd (busy_of hs) = Some True \<Longrightarrow> \<exists>h \<in> set (hs_holders hs). h_availability h = FRESH \<and> h_busy h = Some True"
  by (auto simp: busy_of_def fresh_holders_def Let_def split: if_splits)

lemma all_known_row:
  assumes "all_known (holders_of parse (bind_mirror at (Readable v)) mid aid)" and "p \<in> set (candidates mid v)"
    and "report_age parse p at \<noteq> ''stale''"
  shows "availability_of parse p at = FRESH"
    and "r \<in> set (rows_of aid p) \<Longrightarrow> holder_of parse at p r \<in> set (hs_holders (holders_of parse (bind_mirror at (Readable v)) mid aid))"
proof -
  let ?cov = "covered parse at aid (candidates mid v)"
  have keep: "\<not> skipped parse at ?cov p" using assms(3) by (simp add: skipped_def)
  show h: "holder_of parse at p r \<in> set (hs_holders (holders_of parse (bind_mirror at (Readable v)) mid aid))" if "r \<in> set (rows_of aid p)" for r
    using that assms(2) keep by (auto simp: holders_of_def bind_mirror_def Let_def add_holders_eq)
  have "availability_of parse p at = FRESH \<or> rows_of aid p \<noteq> []"
    using assms(1,2) keep by (auto simp: all_known_def holders_of_def bind_mirror_def Let_def add_holders_eq)
  moreover from h assms(1) have "\<forall>r \<in> set (rows_of aid p). availability_of parse p at = FRESH" by (fastforce simp: all_known_def holder_of_def)
  ultimately show "availability_of parse p at = FRESH" by (cases "rows_of aid p") auto
qed

lemma holder_from:
  assumes "h \<in> set (hs_holders (holders_of parse (bind_mirror at (Readable v)) mid aid))"
  shows "\<exists>p \<in> set (candidates mid v). \<exists>r \<in> set (rows_of aid p). h = holder_of parse at p r"
  using assms by (auto simp: holders_of_def bind_mirror_def Let_def add_holders_eq)

text \<open>C20. Work is handed to an agent only over hosts whose word is current. After any publications, mirror failures
  short of a failing invalidation and restarts, if the claim gate lets a run through, then a host in contact
  lists the agent, and every record of it that any host on its machine ever saved and did not withdraw is
  in the mirror, unless its host has been silent for three of its intervals. If the gate opens fully, each of these records says that the agent
  is not busy; if it opens for steering only, a host in contact says that the agent is busy, and there is a run to claim that may be steered into its turn.\<close>

theorem claim_needs_idle_hosts:
  assumes "(ingest_step decode False)\<^sup>*\<^sup>* empty_ingest (db, Readable v)"
    and "claim_decision (eligibility_view parse machine agent_id (bind_mirror at (Readable v)) occupied) steerable = g" and "g = Proceed \<or> g = Steer"
  shows "(\<exists>p \<in> set (candidates (py_strip machine) v). availability_of parse p at = FRESH \<and> rows_of (py_strip agent_id) p \<noteq> [])
    \<and> (\<forall>inst row. map_of (t_rows db) ((py_strip machine, inst), py_strip agent_id) = Some row \<longrightarrow>
        (\<exists>p. map_of v (py_strip machine, inst) = Some p \<and> (report_age parse p at = ''stale''
          \<or> (\<exists>r \<in> set (rows_of (py_strip agent_id) p). decode (s_json row) = Some r \<and> (g = Proceed \<longrightarrow> a_busy r = Some False)))))
    \<and> (g = Steer \<longrightarrow> steerable \<and> (\<exists>p \<in> set (candidates (py_strip machine) v). availability_of parse p at = FRESH
        \<and> (\<exists>r \<in> set (rows_of (py_strip agent_id) p). a_busy r = Some True)))"
proof -
  let ?m = "py_strip machine" and ?a = "py_strip agent_id"
  let ?hs = "holders_of parse (bind_mirror at (Readable v)) ?m ?a" and ?as = "agent_holders parse machine agent_id (bind_mirror at (Readable v))"
  have ok: "ingest_ok decode False (db, Readable v)" using ingest.inv_reachable [OF refl assms(1)] .
  have known: "fst (busy_of ?as) = ''known''"
    using assms(2,3) by (auto simp: eligibility_view_def claim_decision_def split: if_splits)
  then have as: "?as = ?hs" using busy_of_known [OF known] by (auto simp: agent_holders_def all_known_def Let_def split: if_splits)
  have all: "all_known ?hs" using busy_of_known [OF known] as by simp
  then obtain h where h: "h \<in> set (hs_holders ?hs)" "h_availability h = FRESH" by (auto simp: all_known_def) (meson list.set_sel(1))
  have ex: "\<exists>p \<in> set (candidates ?m v). availability_of parse p at = FRESH \<and> rows_of ?a p \<noteq> []"
    using holder_from [OF h(1)] h(2) by (force simp: holder_of_def)
  have idle: "h_busy h = Some False" if "g = Proceed" "h \<in> set (hs_holders ?hs)" for h
    using assms(2) that as unfolding eligibility_view_def by (auto simp: claim_proceeds_iff known_idle_def)
  have "\<exists>p. map_of v (?m, inst) = Some p \<and> (report_age parse p at = ''stale''
      \<or> (\<exists>r \<in> set (rows_of ?a p). decode (s_json row) = Some r \<and> (g = Proceed \<longrightarrow> a_busy r = Some False)))"
    if "map_of (t_rows db) ((?m, inst), ?a) = Some row" for inst row
  proof (rule saved_row_held [OF ok that])
    fix p assume p: "map_of v (?m, inst) = Some p"
      and r: "p_complete p \<Longrightarrow> \<exists>r \<in> set (rows_of ?a p). decode (s_json row) = Some r"
    show ?thesis
    proof (cases "report_age parse p at = ''stale''")
      case False
      note row = all_known_row [OF all candidates_I [OF p] False]
      obtain r where "r \<in> set (rows_of ?a p)" "decode (s_json row) = Some r" using r fresh_complete [OF row(1)] by blast
      moreover from this have "g = Proceed \<Longrightarrow> a_busy r = Some False" using idle row(2) by (fastforce simp: holder_of_def)
      ultimately show ?thesis using p by blast
    qed (use p in blast)
  qed
  moreover have "steerable \<and> (\<exists>p \<in> set (candidates ?m v). availability_of parse p at = FRESH \<and> (\<exists>r \<in> set (rows_of ?a p). a_busy r = Some True))" if "g = Steer"
  proof -
    have st: "steerable" "snd (busy_of ?hs) = Some True"
      using assms(2) that as by (auto simp: eligibility_view_def claim_decision_def split: if_splits)
    obtain h where h: "h \<in> set (hs_holders ?hs)" "h_availability h = FRESH" "h_busy h = Some True" using busy_of_busy [OF st(2)] by blast
    from holder_from [OF h(1)] h(2,3) st(1) show ?thesis by (force simp: holder_of_def)
  qed
  ultimately show ?thesis using ex by blast
qed

theorem claim_needs_idle_hosts_witness:
  "claim_decision (eligibility_view (\<lambda>_. Some 0) '' m '' ''a'' (bind_mirror ''t1'' (snd demo_world)) True) False = Proceed
    \<and> (\<exists>p. map_of (view_of (snd demo_world)) (''m'', ''one'') = Some p \<and> report_age (\<lambda>_. Some 0) p ''t1'' = FRESH)"
proof -
  let ?v = "view_of (snd demo_world)"
  have run: "(ingest_step demo_decode False)\<^sup>*\<^sup>* empty_ingest (fst demo_world, Readable ?v)"
    using demo_world_run demo_world_eval(1) by simp
  have c: "claim_decision (eligibility_view (\<lambda>_. Some 0) '' m '' ''a'' (bind_mirror ''t1'' (Readable ?v)) True) False = Proceed"
    by code_simp
  have m: "py_strip '' m '' = ''m''" "py_strip ''a'' = ''a''" "snd demo_world = Readable ?v" by code_simp+
  obtain p where "map_of ?v (''m'', ''one'') = Some p"
    using claim_needs_idle_hosts [OF run c] demo_world_eval(4) m(1,2) by fastforce
  moreover have "report_age (\<lambda>_. Some 0) (the (map_of ?v (''m'', ''one''))) ''t1'' = FRESH" by code_simp
  ultimately show ?thesis using c m(3) by auto
qed

text \<open>The gates fail closed and agree with each other. Whatever the hosts say and whatever comms knows of
  its own runs, the stranded-run guard and the claim gate open on exactly the same evidence; an unpaused reminder,
  an unheld console and a reaped idle run all need that evidence or a stop comms itself knows of; and where
  eligibility is unknown nothing is claimed, steered, sent to a console or failed as stranded.\<close>

theorem gates_fail_closed:
  "(claim_decision (comms_view hs m) s = Proceed \<longleftrightarrow> \<not> stranded_protected (comms_view hs m))
    \<and> (\<not> reminder_paused (comms_view hs m) \<longleftrightarrow> claim_decision (comms_view hs m) s = Proceed \<and> \<not> m_run_occupied m)
    \<and> (orphan_safety (comms_view hs m) = Idle_Target \<longrightarrow> claim_decision (comms_view hs m) s = Proceed)
    \<and> (\<not> send_time_hold (comms_view hs m) q occ \<longrightarrow> claim_decision (comms_view hs m) s = Proceed
        \<or> claim_decision (comms_view hs m) s = (if s then Steer else Hold) \<and> \<not> q)
    \<and> (v_eligibility (comms_view hs m) \<noteq> ''known'' \<longrightarrow> claim_decision (comms_view hs m) s = Withhold
        \<and> stranded_protected (comms_view hs m) \<and> reminder_paused (comms_view hs m) \<and> send_time_hold (comms_view hs m) q occ
        \<and> orphan_safety (comms_view hs m) \<noteq> Idle_Target)"
  unfolding gates_of claim_proceeds_iff known_idle_iff [symmetric]
  by (cases rule: busy_of_cases [of hs]; simp add: orphan_safety_def claim_decision_def)

theorem gates_fail_closed_witness:
  "v_eligibility (comms_view \<lparr>hs_holders = [], hs_unreadable = True\<rparr> (no_messaging False)) \<noteq> ''known''
    \<and> claim_decision (comms_view \<lparr>hs_holders = [], hs_unreadable = True\<rparr> (no_messaging False)) True = Withhold"
proof -
  have "v_eligibility (comms_view \<lparr>hs_holders = [], hs_unreadable = True\<rparr> (no_messaging False)) \<noteq> ''known''" by code_simp
  then show ?thesis
    using gates_fail_closed [of "\<lparr>hs_holders = [], hs_unreadable = True\<rparr>" "no_messaging False" True] by blast
qed

lemma gone_consts:
  "''blocked'' \<notin> set GONE_WORDS" "''working'' \<notin> set GONE_WORDS" "''unknown'' \<notin> set GONE_WORDS"
  "''stopped'' \<in> set GONE_WORDS" "''offline'' \<in> set GONE_WORDS"
  by (simp_all add: GONE_WORDS_def)

lemma gone_not_blockable: "w \<in> set USAGE_BLOCKABLE_WORDS \<Longrightarrow> w \<notin> set GONE_WORDS"
proof -
  have "set USAGE_BLOCKABLE_WORDS \<inter> set GONE_WORDS = {}" by code_simp
  then show "w \<in> set USAGE_BLOCKABLE_WORDS \<Longrightarrow> w \<notin> set GONE_WORDS" by blast
qed

lemma promotable_not_gone: "st \<in> set PROMOTABLE \<Longrightarrow> status_word st \<notin> set GONE_WORDS"
proof -
  have "list_all (\<lambda>st. status_word st \<notin> set GONE_WORDS) PROMOTABLE" by code_simp
  then show "st \<in> set PROMOTABLE \<Longrightarrow> status_word st \<notin> set GONE_WORDS" by (simp add: list_all_iff)
qed

lemma comms_word_gone: "fst (comms_word hs m) \<in> set GONE_WORDS \<longleftrightarrow> m_operator_stopped m \<or> m_wake_handle_absent m
    \<or> (fst (busy_of hs) \<noteq> ''unknown'' \<and> length (fresh_holders hs) \<le> 1 \<and> status_word (h_state (hd (fresh_holders hs))) \<in> set GONE_WORDS)"
  using gone_not_blockable promotable_not_gone unfolding comms_word_def Let_def
  by (simp add: gone_consts if_distrib [of fst] del: set_map cong: if_cong)

text \<open>comms' own view of a run never protects that run from being reaped: what the reaper decides depends
  on the hosts' records and on the operator's stop or the missing wake handle alone, not on whether the run is
  claimed or running, nor on the quota, although all of these change the word that is shown.\<close>

theorem reaper_ignores_own_run:
  assumes "m_operator_stopped m' = m_operator_stopped m" and "m_wake_handle_absent m' = m_wake_handle_absent m"
  shows "orphan_safety (comms_view hs m') = orphan_safety (comms_view hs m)"
proof -
  have "fst (comms_word hs m') \<in> set GONE_WORDS \<longleftrightarrow> fst (comms_word hs m) \<in> set GONE_WORDS"
    unfolding comms_word_gone using assms by simp
  then show ?thesis by (simp add: orphan_safety_def)
qed

theorem reaper_ignores_own_run_witness:
  "orphan_safety (comms_view \<lparr>hs_holders = [\<lparr>h_availability = FRESH, h_busy = Some False, h_state = ''idle'', h_lifetime = None,
      h_applied_at = Some ''t''\<rparr>], hs_unreadable = False\<rparr> (no_messaging True\<lparr>m_run_running := True\<rparr>)) = Idle_Target"
  using reaper_ignores_own_run [where m = "no_messaging False" and m' = "no_messaging True\<lparr>m_run_running := True\<rparr>" and
      hs = "\<lparr>hs_holders = [\<lparr>h_availability = FRESH, h_busy = Some False, h_state = ''idle'', h_lifetime = None,
        h_applied_at = Some ''t''\<rparr>], hs_unreadable = False\<rparr>"]
  by (simp add: no_messaging_def orphan_safety_def busy_of_def fresh_holders_def comms_word_def status_word_def
      candidate_word_def GONE_WORDS_def)

text \<open>A machine whose host \<open>one\<close> lists the agent idle and whose host \<open>two\<close> lists it busy. A publication of
  \<open>one\<close> whose feed and invalidation both fail, then its next snapshot.\<close>

definition two_hosts :: "idb \<times> mirror" where
  "two_hosts = publish no_ifaults (demo_snapshot ''two'' 1 True) demo_world"

definition after_failed_invalidation :: "idb \<times> mirror" where
  "after_failed_invalidation = publish no_ifaults (demo_snapshot ''one'' 3 False)
     (publish (no_ifaults\<lparr>x_feed := True, x_invalidate := True\<rparr>) (demo_snapshot ''one'' 2 False) two_hosts)"

text \<open>An invalidation that itself fails forgets the healthy peers. The mirror is replaced by one that holds
  the failing publisher and the losses known before it, so a host that reports the agent busy is no longer
  in it; after the failing host's next snapshot the claim gate lets a run through to an agent that is saved,
  and was just served, as busy.\<close>

theorem failed_invalidation_forgets_peers:
  "claim_decision (eligibility_view (\<lambda>_. Some 0) ''m'' ''a'' (bind_mirror ''t1'' (snd two_hosts)) False) False = Hold
    \<and> map_of (t_rows (fst after_failed_invalidation)) ((''m'', ''two''), ''a'') = Some \<lparr>s_lifetime = Some ''l1'', s_json = ''busy''\<rparr>
    \<and> claim_decision (eligibility_view (\<lambda>_. Some 0) ''m'' ''a'' (bind_mirror ''t1'' (snd after_failed_invalidation)) False) False = Proceed"
  by (intro conjI) code_simp+

end
