(* ===== verification/Json.thy ===== *)
theory Json
  imports Prelude
begin

text \<open>
  JSON values as \<open>json.loads\<close> gives them: an object keeps its fields in the order of the text, a number with
  a point or an exponent is a decimal \<open>m * 10 ^ e\<close>, and \<open>JConstant\<close> is one of NaN and the infinities. Python's truth
  of such a value decides the flags of a runtime configuration.
\<close>

datatype json = JNull | JBool bool | JInt int | JFloat int int | JConstant | JStr string | JList "json list"
  | JObj "(string \<times> json) list"

fun truthy :: "json \<Rightarrow> bool" where
  "truthy JNull = False"
| "truthy (JBool b) = b"
| "truthy (JInt n) = (n \<noteq> 0)"
| "truthy (JFloat m e) = (m \<noteq> 0)"
| "truthy JConstant = True"
| "truthy (JStr s) = (s \<noteq> [])"
| "truthy (JList js) = (js \<noteq> [])"
| "truthy (JObj fs) = (fs \<noteq> [])"

text \<open>\<open>value.get(key)\<close> on a value known to be a dict; a value that is none reads as an empty dict.\<close>

definition jget :: "json \<Rightarrow> string \<Rightarrow> json" where
  "jget j k = (case j of JObj fs \<Rightarrow> (case map_of fs k of Some x \<Rightarrow> x | None \<Rightarrow> JNull) | _ \<Rightarrow> JNull)"

text \<open>\<open>str(value or "")\<close> as far as a reader that looks for a URL scheme can tell: the text of a number, a list
  or an object begins with none.\<close>

definition jtext :: "json \<Rightarrow> string" where
  "jtext j = (case j of JStr s \<Rightarrow> s | _ \<Rightarrow> [])"

end
