(* ===== verification/Publication.thy ===== *)
theory Publication
  imports OperationalView Json "HOL-Library.Monad_Syntax"
begin

text \<open>
  Reading a published document: the decoder and the validators of
  \<open>service/api_core/agent_state_ingest.py\<close>, and the detaching of the validated fields that
  \<open>StateIngest\<close> orders and saves.

  A document is whatever JSON a host sent. \<open>parse\<close> stands for \<open>json.loads\<close> on the decoded bytes; its result keeps
  an object's fields as a list, so that the hook that refuses duplicate keys is part of the model, and has
  a constructor for the constants NaN and Infinity, which the other hook refuses. A validator either passes or
  raises: \<open>Invalid\<close> is \<open>InvalidPublication\<close>, which the route answers with 422; \<open>Internal\<close> is any other exception,
  such as the \<open>KeyError\<close> of a field that is not there.
\<close>

datatype verror = Invalid string | Internal string

type_synonym checked = "verror + unit"

subsection \<open>Checks\<close>

definition require :: "bool \<Rightarrow> string \<Rightarrow> checked" where
  "require c message = (if c then Inr () else Inl (Invalid message))"

text \<open>Statements in order: the first that raises is the outcome.\<close>

fun checks :: "checked list \<Rightarrow> checked" where
  "checks [] = Inr ()"
| "checks (c # cs) = (case c of Inl e \<Rightarrow> Inl e | Inr _ \<Rightarrow> checks cs)"

text \<open>\<open>value[key]\<close> and \<open>value.get(key)\<close>.\<close>

definition item :: "json \<Rightarrow> string \<Rightarrow> verror + json" where
  "item j k = (case j of
     JObj fs \<Rightarrow> (case map_of fs k of Some x \<Rightarrow> Inr x | None \<Rightarrow> Inl (Internal ''KeyError''))
   | _ \<Rightarrow> Inl (Internal ''TypeError''))"

definition get_field :: "json \<Rightarrow> string \<Rightarrow> verror + json" where
  "get_field j k = (case j of
     JObj fs \<Rightarrow> Inr (case map_of fs k of Some x \<Rightarrow> x | None \<Rightarrow> JNull)
   | _ \<Rightarrow> Inl (Internal ''AttributeError''))"

definition on :: "verror + json \<Rightarrow> (json \<Rightarrow> checked) \<Rightarrow> checked" where
  "on x f = (case x of Inl e \<Rightarrow> Inl e | Inr j \<Rightarrow> f j)"

definition unless_null :: "(json \<Rightarrow> checked) \<Rightarrow> json \<Rightarrow> checked" where
  "unless_null f j = (if j = JNull then Inr () else f j)"

definition has_field :: "json \<Rightarrow> string \<Rightarrow> bool" where
  "has_field j k = (case j of JObj fs \<Rightarrow> k \<in> fst ` set fs | _ \<Rightarrow> False)"

definition object :: "json \<Rightarrow> string list \<Rightarrow> string list \<Rightarrow> checked" where
  "object j required optional = (case j of
     JObj fs \<Rightarrow> require (list_all (\<lambda>k. k \<in> set (map fst fs)) required \<and> list_all (\<lambda>k. k \<in> set (required @ optional)) (map fst fs))
                  ''missing or unknown fields''
   | _ \<Rightarrow> Inl (Invalid ''expected object''))"

definition text_value :: "json \<Rightarrow> checked" where
  "text_value j = require (case j of JStr s \<Rightarrow> s \<noteq> [] | _ \<Rightarrow> False) ''expected nonempty string''"

definition SAFE_INTEGER :: int where "SAFE_INTEGER = 9007199254740991"

definition integer_value :: "int \<Rightarrow> json \<Rightarrow> checked" where
  "integer_value minimum j =
     require (case j of JInt n \<Rightarrow> minimum \<le> n \<and> n \<le> SAFE_INTEGER | _ \<Rightarrow> False) ''expected safe integer''"

definition flag :: "json \<Rightarrow> checked" where
  "flag j = require (case j of JBool _ \<Rightarrow> True | _ \<Rightarrow> False) ''expected boolean''"

definition word_value :: "string list \<Rightarrow> json \<Rightarrow> checked" where
  "word_value vocabulary j = require (case j of JStr s \<Rightarrow> s \<in> set vocabulary | _ \<Rightarrow> False) ''unrecognised vocabulary''"

definition build_value :: "json \<Rightarrow> checked" where
  "build_value j = require (case j of
     JStr s \<Rightarrow> 1 \<le> length s \<and> length s \<le> 200 \<and> list_all (\<lambda>c. 33 \<le> (of_char c :: nat) \<and> of_char c \<le> (126 :: nat)) s | _ \<Rightarrow> False)
     ''expected build string''"

definition report_every :: "json \<Rightarrow> checked" where
  "report_every j = require (is_report_interval (case j of JInt n \<Rightarrow> Some n | _ \<Rightarrow> None))
     ''expected reportEveryMs within bounds''"

subsection \<open>Decoding\<close>

text \<open>The two hooks, applied at every level of the document.\<close>

fun hooked :: "json \<Rightarrow> bool" where
  "hooked (JList js) = list_all hooked js"
| "hooked (JObj fs) = (distinct (map fst fs) \<and> list_all (\<lambda>(_, j). hooked j) fs)"
| "hooked JConstant = False"
| "hooked _ = True"

definition decode_document :: "(string \<Rightarrow> json option) \<Rightarrow> string \<Rightarrow> verror + json" where
  "decode_document parse raw = (case parse raw of
     Some j \<Rightarrow> if hooked j then Inr j else Inl (Invalid ''invalid UTF8 JSON'')
   | None \<Rightarrow> Inl (Invalid ''invalid UTF8 JSON''))"

subsection \<open>One record\<close>

definition STATES :: "string list" where
  "STATES = [''unknown'', ''stopped'', ''misconfigured'', ''working'', ''blocked'', ''shell'', ''idle'', ''starting'',
     ''available'', ''offline'']"

definition CAUSES :: "string list" where
  "CAUSES = [''unrecognised'', ''operator-stop'', ''conflict'', ''config'', ''identity-unknown'', ''screen'', ''turn-open'',
     ''at-prompt'', ''starting'', ''startable'', ''absent'', ''turn-unknown'']"

definition PROCESS_STATES :: "string list" where
  "PROCESS_STATES = [''running'', ''starting'', ''exited'', ''none'', ''unknown'']"

definition VERIFIED :: "string list" where
  "VERIFIED = [''yes'', ''no'', ''unknown'']"

definition check_definition :: "json \<Rightarrow> checked" where
  "check_definition d = checks [object d [''storeId'', ''incarnation'', ''revision''] [],
     on (item d ''storeId'') text_value, on (item d ''incarnation'') (integer_value 1),
     on (item d ''revision'') (integer_value 1)]"

definition check_launch :: "json \<Rightarrow> checked" where
  "check_launch launch = checks [object launch [''cwd'', ''definition''] [],
     on (item launch ''cwd'') (unless_null text_value), on (item launch ''definition'') (unless_null check_definition)]"

definition check_process :: "json \<Rightarrow> checked" where
  "check_process process = checks [object process [''state'', ''verified'', ''pid''] [],
     on (item process ''state'') (word_value PROCESS_STATES), on (item process ''verified'') (word_value VERIFIED),
     on (item process ''pid'') (unless_null (integer_value 1))]"

definition check_busy_if :: "json \<Rightarrow> checked" where
  "check_busy_if b = checks [object b [''strict'', ''verifiedRenewal''] [],
     (case b of JObj fs \<Rightarrow> checks (map (flag \<circ> snd) fs) | _ \<Rightarrow> Inl (Internal ''AttributeError''))]"

definition check_turn :: "json \<Rightarrow> checked" where
  "check_turn turn = checks [object turn [''open'', ''startedAtUs'', ''lastEventAtUs'', ''awaitingInput'', ''busyIf''] [''ageMs''],
     (if has_field turn ''ageMs'' then on (item turn ''ageMs'') (integer_value 0) else Inr ()),
     on (item turn ''open'') flag, on (item turn ''awaitingInput'') flag,
     on (item turn ''startedAtUs'') (integer_value 0), on (item turn ''lastEventAtUs'') (integer_value 0),
     on (item turn ''busyIf'') check_busy_if]"

definition check_record :: "json \<Rightarrow> checked" where
  "check_record r = checks [
     object r [''agentId'', ''lifetime'', ''state'', ''stateCause'', ''busy'', ''process'', ''turn''] [''name'', ''role'', ''launch''],
     on (get_field r ''name'') (unless_null text_value), on (get_field r ''role'') (unless_null text_value),
     on (get_field r ''launch'') (unless_null check_launch),
     on (item r ''agentId'') text_value, on (item r ''lifetime'') (unless_null text_value),
     on (item r ''state'') (word_value STATES), on (item r ''stateCause'') (word_value CAUSES),
     on (item r ''busy'') flag, on (item r ''process'') check_process, on (item r ''turn'') (unless_null check_turn)]"

subsection \<open>The publication\<close>

definition RETIREMENT_REASONS :: "string list" where "RETIREMENT_REASONS = [''shutdown'']"

definition common :: "string list" where
  "common = [''kind'', ''machineId'', ''instance'', ''generation'', ''incarnationId'', ''publication'', ''inputs'']"

definition check_shape :: "json \<Rightarrow> json \<Rightarrow> checked" where
  "check_shape body kind =
     (if kind = JStr ''unavailable'' then
        checks [object body (common @ [''reason'']) [''build'', ''reportEveryMs''], on (item body ''reason'') text_value]
      else if kind = JStr ''retired'' then
        checks [object body (common @ [''reason'']) [''build''], on (item body ''reason'') (word_value RETIREMENT_REASONS)]
      else if kind = JStr ''snapshot'' then
        checks [object body (common @ [''complete'', ''agents'']) [''removed'', ''build'', ''reportEveryMs''],
          on (item body ''complete'') (\<lambda>c. require (c = JBool True) ''snapshot must be complete'')]
      else object body (common @ [''agents'', ''removed'']) [''build'', ''reportEveryMs''])"

definition check_inputs :: "json \<Rightarrow> checked" where
  "check_inputs j = require (case j of JObj fs \<Rightarrow> list_all (\<lambda>(_, v). case v of JStr _ \<Rightarrow> True | _ \<Rightarrow> False) fs | _ \<Rightarrow> False)
     ''inputs must be string object''"

text \<open>\<open>body.get('removed', [])\<close>.\<close>

definition removed_of :: "json \<Rightarrow> verror + json" where
  "removed_of body = (if has_field body ''removed'' then item body ''removed'' else Inr (JList []))"

fun check_records :: "json list \<Rightarrow> string list \<Rightarrow> checked" where
  "check_records [] ids = Inr ()"
| "check_records (r # rs) ids = (case check_record r of Inl e \<Rightarrow> Inl e
     | Inr _ \<Rightarrow> (case item r ''agentId'' of
         Inr (JStr aid) \<Rightarrow> if aid \<in> set ids then Inl (Invalid ''duplicate agentId'') else check_records rs (aid # ids)
       | _ \<Rightarrow> Inl (Internal ''TypeError'')))"

definition check_removed :: "json \<Rightarrow> checked" where
  "check_removed r = checks [object r [''agentId'', ''lifetime''] [], on (item r ''agentId'') text_value,
     on (item r ''lifetime'') text_value]"

definition is_list :: "json \<Rightarrow> bool" where
  "is_list j = (case j of JList _ \<Rightarrow> True | _ \<Rightarrow> False)"

definition elements :: "json \<Rightarrow> json list" where
  "elements j = (case j of JList js \<Rightarrow> js | _ \<Rightarrow> [])"

definition check_rows :: "json \<Rightarrow> checked" where
  "check_rows body = on (item body ''agents'') (\<lambda>agents. on (removed_of body) (\<lambda>removed. checks [
     require (is_list agents \<and> is_list removed) ''expected row arrays'',
     check_records (elements agents) [], checks (map check_removed (elements removed))]))"

definition validate :: "json \<Rightarrow> checked" where
  "validate body = (case body of
     JObj _ \<Rightarrow> on (get_field body ''kind'') (\<lambda>kind. checks [
       word_value [''snapshot'', ''changes'', ''unavailable'', ''retired''] kind,
       check_shape body kind,
       (if has_field body ''build'' then on (item body ''build'') build_value else Inr ()),
       (if has_field body ''reportEveryMs'' then on (item body ''reportEveryMs'') report_every else Inr ()),
       on (item body ''machineId'') text_value, on (item body ''instance'') text_value,
       on (item body ''incarnationId'') text_value,
       on (item body ''generation'') (integer_value 1), on (item body ''publication'') (integer_value 1),
       on (item body ''inputs'') check_inputs,
       (if kind = JStr ''unavailable'' \<or> kind = JStr ''retired'' then Inr () else check_rows body)])
   | _ \<Rightarrow> Inl (Invalid ''expected publication object''))"

subsection \<open>Detaching the validated fields\<close>

text \<open>A field read as the type its column or dataclass field has; \<open>None\<close> is a value of another type.\<close>

definition str_field :: "json \<Rightarrow> string \<Rightarrow> string option" where
  "str_field j k = (case item j k of Inr (JStr s) \<Rightarrow> Some s | _ \<Rightarrow> None)"

definition int_field :: "json \<Rightarrow> string \<Rightarrow> int option" where
  "int_field j k = (case item j k of Inr (JInt n) \<Rightarrow> Some n | _ \<Rightarrow> None)"

definition opt_str_field :: "json \<Rightarrow> string \<Rightarrow> string option option" where
  "opt_str_field j k = (case get_field j k of Inr JNull \<Rightarrow> Some None | Inr (JStr s) \<Rightarrow> Some (Some s) | _ \<Rightarrow> None)"

definition opt_int_field :: "json \<Rightarrow> string \<Rightarrow> int option option" where
  "opt_int_field j k = (case get_field j k of Inr JNull \<Rightarrow> Some None | Inr (JInt n) \<Rightarrow> Some (Some n) | _ \<Rightarrow> None)"

definition list_field :: "json \<Rightarrow> string \<Rightarrow> json list option" where
  "list_field j k = (if has_field j k then (case item j k of Inr (JList js) \<Rightarrow> Some js | _ \<Rightarrow> None) else Some [])"

definition record_of :: "json \<Rightarrow> arec option" where
  "record_of r = do {
     aid \<leftarrow> str_field r ''agentId''; lifetime \<leftarrow> opt_str_field r ''lifetime''; state \<leftarrow> str_field r ''state'';
     busy \<leftarrow> (case item r ''busy'' of Inr (JBool b) \<Rightarrow> Some b | _ \<Rightarrow> None);
     Some \<lparr>a_id = aid, a_lifetime = lifetime, a_state = state, a_busy = Some busy\<rparr> }"

definition removed_pair :: "json \<Rightarrow> (string \<times> string) option" where
  "removed_pair r = do { aid \<leftarrow> str_field r ''agentId''; lifetime \<leftarrow> str_field r ''lifetime''; Some (aid, lifetime) }"

definition publication_of :: "(json \<Rightarrow> string) \<Rightarrow> json \<Rightarrow> pbody option" where
  "publication_of dumps body = do {
     kind \<leftarrow> str_field body ''kind''; machine \<leftarrow> str_field body ''machineId''; inst \<leftarrow> str_field body ''instance'';
     generation \<leftarrow> int_field body ''generation''; incarnation \<leftarrow> str_field body ''incarnationId'';
     publication \<leftarrow> int_field body ''publication'';
     inputs \<leftarrow> (case item body ''inputs'' of Inr j \<Rightarrow> Some (dumps j) | Inl _ \<Rightarrow> None);
     reason \<leftarrow> opt_str_field body ''reason'';
     agents \<leftarrow> list_field body ''agents''; records \<leftarrow> those (map record_of agents);
     removed \<leftarrow> list_field body ''removed''; pairs \<leftarrow> those (map removed_pair removed);
     build \<leftarrow> opt_str_field body ''build''; every \<leftarrow> opt_int_field body ''reportEveryMs'';
     Some \<lparr>b_kind = kind, b_key = (machine, inst), b_generation = generation, b_incarnation = incarnation,
       b_publication = publication, b_inputs = inputs, b_reason = reason, b_agents = zip records (map dumps agents),
       b_removed = pairs, b_build = build, b_report_every = every\<rparr> }"

text \<open>A saved record read back at a restart: \<open>restored_record\<close>.\<close>

definition restored_record :: "(string \<Rightarrow> json option) \<Rightarrow> string \<Rightarrow> arec option" where
  "restored_record loads record_json = (case loads record_json of
     Some j \<Rightarrow> if check_record j = Inr () then record_of j else None
   | None \<Rightarrow> None)"

text \<open>\<open>AgentStateStore.apply\<close>: decode, validate, detach, and only then order and save.\<close>

definition apply_document :: "ifaults \<Rightarrow> (string \<Rightarrow> json option) \<Rightarrow> (json \<Rightarrow> string) \<Rightarrow> (string \<Rightarrow> string) \<Rightarrow> string \<Rightarrow> string
    \<Rightarrow> idb \<times> mirror \<Rightarrow> (verror + iresult) \<times> idb \<times> mirror" where
  "apply_document x parse dumps sha256 document applied_at s =
     (case decode_document parse document of
        Inl e \<Rightarrow> (Inl e, s)
      | Inr body \<Rightarrow> (case validate body of
          Inl e \<Rightarrow> (Inl e, s)
        | Inr _ \<Rightarrow> (case publication_of dumps body of
            None \<Rightarrow> (Inl (Internal ''TypeError''), s)
          | Some b \<Rightarrow> (let (r, s') = apply_publication x (sha256 document) applied_at b s in (Inr r, s')))))"

subsection \<open>What a passed check says\<close>

lemma checks_Cons_iff [simp]: "checks (c # cs) = Inr () \<longleftrightarrow> c = Inr () \<and> checks cs = Inr ()"
  by (cases c) auto

declare checks.simps(2) [simp del]

lemma checks_map_iff: "checks (map f xs) = Inr () \<longleftrightarrow> (\<forall>x \<in> set xs. f x = Inr ())"
  by (induction xs) auto

lemma require_iff [simp]: "require c m = Inr () \<longleftrightarrow> c"
  by (simp add: require_def)

lemma on_iff: "on x f = Inr () \<longleftrightarrow> (\<exists>j. x = Inr j \<and> f j = Inr ())"
  by (cases x) (simp_all add: on_def)

lemma object_iff: "object j req opt = Inr () \<longleftrightarrow>
    (\<exists>fs. j = JObj fs \<and> set req \<subseteq> fst ` set fs \<and> fst ` set fs \<subseteq> set req \<union> set opt)"
  by (cases j) (auto simp: object_def list_all_iff)

lemma item_iff: "item j k = Inr x \<longleftrightarrow> (\<exists>fs. j = JObj fs \<and> map_of fs k = Some x)"
  by (cases j) (auto simp: item_def split: option.splits)

lemma value_iff:
  "text_value j = Inr () \<longleftrightarrow> (\<exists>s. j = JStr s \<and> s \<noteq> [])"
  "integer_value n j = Inr () \<longleftrightarrow> (\<exists>i. j = JInt i \<and> n \<le> i \<and> i \<le> SAFE_INTEGER)"
  "flag j = Inr () \<longleftrightarrow> (\<exists>b. j = JBool b)"
  "word_value ws j = Inr () \<longleftrightarrow> (\<exists>s. j = JStr s \<and> s \<in> set ws)"
  "report_every j = Inr () \<longleftrightarrow> (\<exists>i. j = JInt i \<and> is_report_interval (Some i))"
  by (cases j; simp add: text_value_def integer_value_def flag_def word_value_def report_every_def is_report_interval_def)+

lemma unless_null_iff: "unless_null f j = Inr () \<longleftrightarrow> j = JNull \<or> f j = Inr ()"
  by (auto simp: unless_null_def)

lemmas passed_iffs = on_iff object_iff item_iff value_iff unless_null_iff checks_map_iff

subsection \<open>Refusals\<close>

definition proper :: "checked \<Rightarrow> bool" where
  "proper c = (\<forall>m. c \<noteq> Inl (Internal m))"

lemma proper_Nil [simp]: "proper (checks [])" "proper (Inr ())" "proper (Inl (Invalid m))"
  by (simp_all add: proper_def)

lemma proper_Cons: "proper c \<Longrightarrow> (c = Inr () \<Longrightarrow> proper (checks cs)) \<Longrightarrow> proper (checks (c # cs))"
  by (cases c) (auto simp: proper_def checks.simps(2))

lemma proper_list: "(\<And>c. c \<in> set cs \<Longrightarrow> proper c) \<Longrightarrow> proper (checks cs)"
  by (induction cs) (auto intro: proper_Cons)

lemma proper_leaves [simp]:
  "proper (require c m)" "proper (text_value j)" "proper (integer_value n j)" "proper (flag j)" "proper (word_value ws j)"
  "proper (build_value j)" "proper (report_every j)" "proper (check_inputs j)" "proper (object j req opt)"
  by (auto simp: proper_def require_def text_value_def integer_value_def flag_def word_value_def build_value_def
      report_every_def check_inputs_def object_def split: json.splits)

lemma proper_unless_null [simp]: "(\<And>x. proper (f x)) \<Longrightarrow> proper (unless_null f j)"
  by (simp add: unless_null_def)

lemma proper_on_item [simp]: "has_field j k \<Longrightarrow> (\<And>x. proper (f x)) \<Longrightarrow> proper (on (item j k) f)"
  by (cases j) (auto simp: has_field_def on_def item_def map_of_eq_None_iff split: option.splits)

lemma object_has: "object j req opt = Inr () \<Longrightarrow> k \<in> set req \<Longrightarrow> has_field j k"
  by (auto simp: object_iff has_field_def)

lemma on_Inr [simp]: "on (Inr j) f = f j"
  by (simp add: on_def)

lemma proper_on_get [simp]: "has_field j ''agentId'' \<Longrightarrow> (\<And>x. proper (f x)) \<Longrightarrow> proper (on (get_field j k) f)"
  by (cases j) (auto simp: has_field_def on_def get_field_def)

text \<open>Statements that read the fields of an object after its shape was checked.\<close>

lemma proper_object: "(\<And>c. (\<And>k. k \<in> set req \<Longrightarrow> has_field j k) \<Longrightarrow> c \<in> set cs \<Longrightarrow> proper c)
    \<Longrightarrow> proper (checks (object j req opt # cs))"
  by (rule proper_Cons) (auto intro!: proper_list dest: object_has)

lemma proper_checks_of [simp]:
  "proper (check_definition j)" "proper (check_process j)" "proper (check_removed j)"
  by (auto simp: check_definition_def check_process_def check_removed_def intro!: proper_object)

lemma proper_check_launch [simp]: "proper (check_launch j)"
  by (auto simp: check_launch_def intro!: proper_object)

lemma proper_check_busy_if [simp]: "proper (check_busy_if j)"
  unfolding check_busy_if_def
  by (rule proper_Cons) (auto simp: object_iff intro!: proper_list)

lemma proper_check_turn [simp]: "proper (check_turn j)"
  by (auto simp: check_turn_def intro!: proper_object)

lemma proper_check_record [simp]: "proper (check_record j)"
  by (auto simp: check_record_def intro!: proper_object)

lemma record_id: "check_record r = Inr () \<Longrightarrow> \<exists>aid. item r ''agentId'' = Inr (JStr aid)"
  by (auto simp: check_record_def passed_iffs)

lemma proper_check_records [simp]: "proper (check_records rs ids)"
proof (induction rs ids rule: check_records.induct)
  case (2 r rs ids)
  show ?case
  proof (cases "check_record r")
    case (Inl e)
    with proper_check_record [of r] show ?thesis by (simp add: proper_def)
  next
    case (Inr u)
    then obtain aid where "item r ''agentId'' = Inr (JStr aid)" using record_id [of r] by auto
    with 2 Inr show ?thesis by simp
  qed
qed simp

lemma proper_check_rows: "has_field body ''agents'' \<Longrightarrow> proper (check_rows body)"
  unfolding check_rows_def removed_of_def
  by (intro proper_on_item; cases "has_field body ''removed''") (auto intro!: proper_on_item proper_list)

lemma check_shape_fields:
  assumes "check_shape body kind = Inr ()" and "word_value [''snapshot'', ''changes'', ''unavailable'', ''retired''] kind = Inr ()"
  shows "k \<in> set common \<Longrightarrow> has_field body k"
    and "kind \<noteq> JStr ''unavailable'' \<Longrightarrow> kind \<noteq> JStr ''retired'' \<Longrightarrow> has_field body ''agents''"
  using assms by (auto simp: check_shape_def intro: object_has split: if_splits)

lemma proper_check_shape [simp]: "proper (check_shape body kind)"
  by (auto simp: check_shape_def intro!: proper_object)

lemma proper_validate: "proper (validate body)"
proof (cases body)
  case (JObj fs)
  let ?kind = "case map_of fs ''kind'' of None \<Rightarrow> JNull | Some x \<Rightarrow> x"
  show ?thesis
    unfolding validate_def JObj json.case get_field_def on_Inr
    using check_shape_fields [where body = "JObj fs" and kind = ?kind] proper_check_rows [of "JObj fs"]
    by (intro proper_Cons) (simp_all add: common_def)
qed (simp_all add: validate_def)

subsection \<open>Detaching never fails\<close>

lemma get_item: "item j k = Inr x \<Longrightarrow> get_field j k = Inr x" "item j k = Inr x \<Longrightarrow> has_field j k"
  by (auto simp: item_iff get_field_def) (force simp: item_iff has_field_def dest: map_of_SomeD)

lemma get_absent: "\<not> has_field j k \<Longrightarrow> has_field j k' \<Longrightarrow> get_field j k = Inr JNull"
  by (cases j) (auto simp: has_field_def get_field_def map_of_eq_None_iff [THEN iffD2])

lemma record_of_total:
  assumes "check_record r = Inr ()"
  shows "\<exists>a. record_of r = Some a \<and> str_field r ''agentId'' = Some (a_id a)"
proof -
  from assms obtain aid l st b where "item r ''agentId'' = Inr (JStr aid)" "item r ''lifetime'' = Inr l"
      "l = JNull \<or> (\<exists>s. l = JStr s)" "item r ''state'' = Inr (JStr st)" "item r ''busy'' = Inr (JBool b)"
    by (auto simp: check_record_def on_iff value_iff unless_null_iff)
  then show ?thesis
    using get_item(1) [of r "''lifetime''"] by (auto simp: record_of_def str_field_def opt_str_field_def)
qed

lemma check_records_ids:
  assumes "check_records rs ids = Inr ()"
  shows "\<exists>as. those (map record_of rs) = Some as \<and> distinct (map a_id as) \<and> a_id ` set as \<inter> set ids = {}
    \<and> (\<forall>r \<in> set rs. check_record r = Inr ())"
  using assms
proof (induction rs ids rule: check_records.induct)
  case (2 r rs ids)
  then have ok: "check_record r = Inr ()" by (auto split: sum.splits)
  then obtain a where a: "record_of r = Some a" "str_field r ''agentId'' = Some (a_id a)" using record_of_total by blast
  then have "item r ''agentId'' = Inr (JStr (a_id a))" by (auto simp: str_field_def split: sum.splits json.splits)
  with 2 ok obtain as where "those (map record_of rs) = Some as" "distinct (map a_id as)"
      "a_id ` set as \<inter> set (a_id a # ids) = {}" "\<forall>r \<in> set rs. check_record r = Inr ()" "a_id a \<notin> set ids"
    by (auto split: if_splits)
  with a ok show ?case by auto
qed simp

lemma removed_pairs: "\<forall>r \<in> set rs. check_removed r = Inr () \<Longrightarrow> \<exists>ps. those (map removed_pair rs) = Some ps"
proof (induction rs)
  case (Cons r rs)
  then have "\<exists>p. removed_pair r = Some p" by (auto simp: check_removed_def on_iff value_iff removed_pair_def str_field_def)
  with Cons show ?case by auto
qed simp

lemma those_zip:
  "those (map f xs) = Some ys \<Longrightarrow> \<forall>(y, x) \<in> set (zip ys xs). f x = Some y"
  "those (map f xs) = Some ys \<Longrightarrow> length ys = length xs"
  by (induction xs arbitrary: ys; fastforce split: option.splits)+

text \<open>An optional field that is absent or passed its check reads as nothing or as a value of its type.\<close>

lemma optional_fields:
  assumes "has_field j k'" and "has_field j k \<Longrightarrow> on (item j k) f = Inr ()"
  shows "(\<And>x. f x = Inr () \<Longrightarrow> \<exists>s. x = JStr s) \<Longrightarrow> \<exists>v. opt_str_field j k = Some v"
    and "(\<And>x. f x = Inr () \<Longrightarrow> \<exists>n. x = JInt n \<and> P n) \<Longrightarrow> \<exists>v. opt_int_field j k = Some v \<and> (v = None \<or> (\<exists>n. v = Some n \<and> P n))"
proof -
  have a: "get_field j k = Inr JNull" if "\<not> has_field j k" using get_absent [OF that assms(1)] .
  have p: "\<exists>x. get_field j k = Inr x \<and> f x = Inr ()" if "has_field j k"
    using assms(2) [OF that] get_item(1) by (auto simp: on_iff)
  show "\<exists>v. opt_str_field j k = Some v" if "\<And>x. f x = Inr () \<Longrightarrow> \<exists>s. x = JStr s"
    using a p that by (cases "has_field j k") (fastforce simp: opt_str_field_def)+
  show "\<exists>v. opt_int_field j k = Some v \<and> (v = None \<or> (\<exists>n. v = Some n \<and> P n))" if "\<And>x. f x = Inr () \<Longrightarrow> \<exists>n. x = JInt n \<and> P n"
    using a p that by (cases "has_field j k") (fastforce simp: opt_int_field_def)+
qed

lemma build_is_text: "build_value j = Inr () \<Longrightarrow> \<exists>s. j = JStr s"
  by (cases j) (simp_all add: build_value_def)

lemma is_list_iff: "is_list j \<longleftrightarrow> (\<exists>js. j = JList js)"
  by (cases j) (simp_all add: is_list_def)

lemma object_lacks: "object j req opt = Inr () \<Longrightarrow> k \<notin> set req \<Longrightarrow> k \<notin> set opt \<Longrightarrow> \<not> has_field j k"
  by (fastforce simp: object_iff has_field_def)

lemma check_rows_lists:
  assumes "check_rows body = Inr ()"
  shows "\<exists>rs as ps. list_field body ''agents'' = Some rs \<and> those (map record_of rs) = Some as \<and> distinct (map a_id as)
    \<and> (\<forall>r \<in> set rs. check_record r = Inr ()) \<and> (\<exists>xs. list_field body ''removed'' = Some xs \<and> those (map removed_pair xs) = Some ps)"
proof -
  from assms obtain rs xs where rs: "item body ''agents'' = Inr (JList rs)" "removed_of body = Inr (JList xs)"
      "check_records rs [] = Inr ()" "\<forall>x \<in> set xs. check_removed x = Inr ()"
    by (auto simp: check_rows_def on_iff is_list_iff elements_def checks_map_iff)
  from check_records_ids [OF rs(3)] removed_pairs [OF rs(4)] get_item(2) [OF rs(1)] rs(1,2) show ?thesis
    by (auto simp: list_field_def removed_of_def split: if_splits)
qed

lemma shape_reason:
  assumes "check_shape body kind = Inr ()" and "has_field body ''kind''"
  shows "\<exists>v. opt_str_field body ''reason'' = Some v"
proof (rule optional_fields(1) [OF assms(2), where f = "\<lambda>x. if \<exists>s. x = JStr s then Inr () else Inl (Invalid [])"])
  show "on (item body ''reason'') (\<lambda>x. if \<exists>s. x = JStr s then Inr () else Inl (Invalid [])) = Inr ()"
    if "has_field body ''reason''"
    using assms(1) that unfolding check_shape_def
    by (auto simp: on_iff value_iff common_def split: if_splits dest: object_lacks [where k = "''reason''"])
qed (auto split: if_splits)

lemma shape_no_rows:
  assumes "check_shape body kind = Inr ()" and "kind = JStr ''unavailable'' \<or> kind = JStr ''retired''"
  shows "list_field body ''agents'' = Some []" and "list_field body ''removed'' = Some []"
proof -
  obtain opt where o: "object body (common @ [''reason'']) opt = Inr ()" "set opt \<subseteq> {''build'', ''reportEveryMs''}"
    using assms by (auto simp: check_shape_def)
  have "k \<in> {''agents'', ''removed''} \<Longrightarrow> \<not> has_field body k" for k
    by (rule object_lacks [OF o(1)]) (use o(2) in \<open>auto simp: common_def\<close>)
  then show "list_field body ''agents'' = Some []" "list_field body ''removed'' = Some []" by (simp_all add: list_field_def)
qed

lemma validated_detaches:
  assumes "validate body = Inr ()"
  shows "\<exists>b rs as. publication_of dumps body = Some b \<and> b_kind b \<in> {''snapshot'', ''changes'', ''unavailable'', ''retired''}
    \<and> list_field body ''agents'' = Some rs \<and> those (map record_of rs) = Some as \<and> b_agents b = zip as (map dumps rs)
    \<and> distinct (map a_id as) \<and> (\<forall>r \<in> set rs. check_record r = Inr ())
    \<and> 1 \<le> b_generation b \<and> b_generation b \<le> SAFE_INTEGER \<and> 1 \<le> b_publication b \<and> b_publication b \<le> SAFE_INTEGER
    \<and> (b_report_every b = None \<or> is_report_interval (b_report_every b))"
proof -
  obtain fs where fs: "body = JObj fs" using assms by (cases body) (auto simp: validate_def)
  define kind where "kind = (case map_of fs ''kind'' of None \<Rightarrow> JNull | Some x \<Rightarrow> x)"
  have g: "get_field body ''kind'' = Inr kind" by (simp add: fs get_field_def kind_def)
  have v: "word_value [''snapshot'', ''changes'', ''unavailable'', ''retired''] kind = Inr ()" "check_shape body kind = Inr ()"
    "has_field body ''build'' \<Longrightarrow> on (item body ''build'') build_value = Inr ()"
    "has_field body ''reportEveryMs'' \<Longrightarrow> on (item body ''reportEveryMs'') report_every = Inr ()"
    "kind \<noteq> JStr ''unavailable'' \<Longrightarrow> kind \<noteq> JStr ''retired'' \<Longrightarrow> check_rows body = Inr ()"
    using assms unfolding validate_def g on_Inr by (auto simp: fs split: if_splits)
  obtain m i c n p u where f: "item body ''machineId'' = Inr (JStr m)" "item body ''instance'' = Inr (JStr i)"
      "item body ''incarnationId'' = Inr (JStr c)" "item body ''generation'' = Inr (JInt n)" "1 \<le> n" "n \<le> SAFE_INTEGER"
      "item body ''publication'' = Inr (JInt p)" "1 \<le> p" "p \<le> SAFE_INTEGER" "item body ''inputs'' = Inr u"
    using assms unfolding validate_def g on_Inr fs json.case by (auto simp: on_iff value_iff)
  have k: "has_field body ''kind''" using check_shape_fields(1) [OF v(2,1)] by (simp add: common_def)
  obtain kw where kw: "kind = JStr kw" "kw \<in> {''snapshot'', ''changes'', ''unavailable'', ''retired''}"
    using v(1) by (auto simp: value_iff)
  then have ik: "item body ''kind'' = Inr (JStr kw)" using k g by (auto simp: item_def get_field_def has_field_def fs map_of_eq_None_iff
        split: option.splits)
  obtain b where b: "opt_str_field body ''build'' = Some b"
    using optional_fields(1) [OF k v(3) build_is_text] by blast
  obtain e where e: "opt_int_field body ''reportEveryMs'' = Some e" "e = None \<or> is_report_interval e"
    using optional_fields(2) [OF k v(4), of "\<lambda>n. is_report_interval (Some n)"] by (auto simp: value_iff)
  obtain r where r: "opt_str_field body ''reason'' = Some r" using shape_reason [OF v(2) k] ..
  obtain rs as xs ps where rows: "list_field body ''agents'' = Some rs" "those (map record_of rs) = Some as" "distinct (map a_id as)"
      "\<forall>r \<in> set rs. check_record r = Inr ()" "list_field body ''removed'' = Some xs" "those (map removed_pair xs) = Some ps"
    using check_rows_lists [OF v(5)] shape_no_rows [OF v(2)] by (cases "kind = JStr ''unavailable'' \<or> kind = JStr ''retired''") auto
  show ?thesis
    using rows kw e f by (simp add: publication_of_def str_field_def int_field_def ik f b e(1) r)
qed

text \<open>Nothing a host sends can make the ingest fail in an unforeseen way or leave a trace unless it is valid as
  a whole: whatever the document holds, it is either refused as invalid, with the saved tables and the
  mirror as they were, or validated, detached and ordered as a publication.\<close>

theorem documents_refused_or_ordered:
  "(\<exists>message. apply_document x parse dumps sha256 document t s = (Inl (Invalid message), s))
    \<or> (\<exists>body b r s'. decode_document parse document = Inr body \<and> validate body = Inr () \<and> publication_of dumps body = Some b
        \<and> apply_publication x (sha256 document) t b s = (r, s') \<and> apply_document x parse dumps sha256 document t s = (Inr r, s'))"
proof (cases "decode_document parse document")
  case (Inl e)
  then show ?thesis by (auto simp: apply_document_def decode_document_def split: option.splits if_splits)
next
  case (Inr body)
  show ?thesis
  proof (cases "validate body")
    case (Inl e)
    with proper_validate [of body] obtain m where "e = Invalid m" by (cases e) (auto simp: proper_def)
    with Inl Inr show ?thesis by (simp add: apply_document_def)
  next
    case v: (Inr u)
    then obtain b where "publication_of dumps body = Some b" using validated_detaches [of body] by auto
    with v Inr show ?thesis
      by (cases "apply_publication x (sha256 document) t b s") (auto simp: apply_document_def)
  qed
qed

text \<open>C36. A validated publication has the types everything behind it relies on. Every field that is saved or
  mirrored can be detached with its type, agents are named once, the counters fit a JSON-safe integer and the
  announced interval its bounds; and if JSON reads back what it wrote, every record written to the table is restored
  after a restart as the record the mirror was fed.\<close>

theorem validated_publication_is_typed:
  assumes "validate body = Inr ()" and "\<forall>rs. list_field body ''agents'' = Some rs \<longrightarrow> (\<forall>r \<in> set rs. loads (dumps r) = Some r)"
  shows "\<exists>b. publication_of dumps body = Some b \<and> body_ok (restored_record loads) b
    \<and> 1 \<le> b_generation b \<and> b_generation b \<le> SAFE_INTEGER \<and> 1 \<le> b_publication b \<and> b_publication b \<le> SAFE_INTEGER
    \<and> (b_report_every b = None \<or> is_report_interval (b_report_every b))"
proof -
  obtain b rs as where b: "publication_of dumps body = Some b" "b_kind b \<in> {''snapshot'', ''changes'', ''unavailable'', ''retired''}"
      "list_field body ''agents'' = Some rs" "those (map record_of rs) = Some as" "b_agents b = zip as (map dumps rs)"
      "distinct (map a_id as)" "\<forall>r \<in> set rs. check_record r = Inr ()"
      "1 \<le> b_generation b" "b_generation b \<le> SAFE_INTEGER" "1 \<le> b_publication b" "b_publication b \<le> SAFE_INTEGER"
      "b_report_every b = None \<or> is_report_interval (b_report_every b)"
    using validated_detaches [OF assms(1), of dumps] by blast
  have len: "length as = length rs" using those_zip(2) [OF b(4)] .
  have "restored_record loads js = Some a" if "(a, js) \<in> set (zip as (map dumps rs))" for a js
  proof -
    from that obtain r where r: "(a, r) \<in> set (zip as rs)" "js = dumps r" by (auto simp: zip_map2)
    then have "record_of r = Some a" using those_zip(1) [OF b(4)] by blast
    moreover have "r \<in> set rs" using r(1) by (rule set_zip_rightD)
    ultimately show ?thesis using assms(2) b(3,7) r(2) by (simp add: restored_record_def)
  qed
  moreover have "map (a_id \<circ> fst) (zip as (map dumps rs)) = map a_id as"
    using len by (metis length_map map_fst_zip map_map)
  ultimately have "body_ok (restored_record loads) b" using b(2,5,6) by (auto simp: body_ok_def)
  with b show ?thesis by blast
qed

definition demo_record_json :: json where
  "demo_record_json = JObj [(''agentId'', JStr ''a''), (''lifetime'', JStr ''l1''), (''state'', JStr ''idle''),
     (''stateCause'', JStr ''at-prompt''), (''busy'', JBool False),
     (''process'', JObj [(''state'', JStr ''running''), (''verified'', JStr ''yes''), (''pid'', JInt 41)]), (''turn'', JNull)]"

definition demo_publication_json :: json where
  "demo_publication_json = JObj [(''kind'', JStr ''snapshot''), (''machineId'', JStr ''m''), (''instance'', JStr ''one''),
     (''generation'', JInt 1), (''incarnationId'', JStr ''i''), (''publication'', JInt 4), (''inputs'', JObj []),
     (''complete'', JBool True), (''agents'', JList [demo_record_json]), (''reportEveryMs'', JInt 10000)]"

theorem validated_publication_is_typed_witness:
  "\<exists>b. publication_of (\<lambda>_. ''{}'') demo_publication_json = Some b \<and> body_ok (restored_record (\<lambda>_. Some demo_record_json)) b
    \<and> b_agents b = [(demo_agent False, ''{}'')]"
proof -
  have "validate demo_publication_json = Inr ()" by code_simp
  moreover have "list_field demo_publication_json ''agents'' = Some [demo_record_json]" by code_simp
  ultimately obtain b where "publication_of (\<lambda>_. ''{}'') demo_publication_json = Some b"
      "body_ok (restored_record (\<lambda>_. Some demo_record_json)) b"
    using validated_publication_is_typed [of demo_publication_json "\<lambda>_. Some demo_record_json" "\<lambda>_. ''{}''"] by auto
  moreover have "map_option b_agents (publication_of (\<lambda>_. ''{}'') demo_publication_json) = Some [(demo_agent False, ''{}'')]" by code_simp
  ultimately show ?thesis by auto
qed

end
