(* ===== verification/UText.thy ===== *)
theory UText
  imports Prelude
begin

text \<open>
  Python text over the whole of Unicode. Message subjects and bodies are written by agents and may
  hold any code point, so here a \<open>str\<close> is the list of its code points. The theory has the
  string operations the dispatch text uses (\<open>strip\<close>, \<open>replace\<close>, \<open>rfind\<close>, \<open>join\<close>),
  the character classes \<open>\s\<close> and \<open>\d\<close> of the \<open>re\<close> module, and the lemmas about lines that stand
  for patterns anchored by \<open>^\<close> and \<open>$\<close> under \<open>re.MULTILINE\<close>: those anchors only look at the
  newline character, so such a pattern is a predicate on the pieces between newlines.
\<close>

type_synonym ustr = "int list"

definition lit :: "string \<Rightarrow> ustr" where
  "lit s = map of_char s"

abbreviation LF :: int where "LF \<equiv> 10"

definition u_space :: "int \<Rightarrow> bool" where
  "u_space c = ((9 \<le> c \<and> c \<le> 13) \<or> (28 \<le> c \<and> c \<le> 32) \<or> c = 133 \<or> c = 160 \<or> c = 5760
     \<or> (8192 \<le> c \<and> c \<le> 8202) \<or> c = 8232 \<or> c = 8233 \<or> c = 8239 \<or> c = 8287 \<or> c = 12288)"

lemmas u_space_numeral [simp] = u_space_def [of "numeral n" for n]

text \<open>The zeros of the decimal digit blocks of Unicode 15, ten code points each: the class \<open>\d\<close>.\<close>

definition digit_zeros :: "int list" where
  "digit_zeros = [48, 1632, 1776, 1984, 2406, 2534, 2662, 2790, 2918, 3046, 3174, 3302, 3430, 3558,
     3664, 3792, 3872, 4160, 4240, 6112, 6160, 6470, 6608, 6784, 6800, 6992, 7088, 7232, 7248, 42528,
     43216, 43264, 43472, 43504, 43600, 44016, 65296, 66720, 68912, 69734, 69872, 69942, 70096, 70384,
     70736, 70864, 71248, 71360, 71472, 71904, 72016, 72784, 73040, 73120, 73552, 92768, 92864, 93008,
     120782, 120792, 120802, 120812, 120822, 123200, 123632, 124144, 125264, 130032]"

definition u_digit :: "int \<Rightarrow> bool" where
  "u_digit c = (\<exists>z \<in> set digit_zeros. z \<le> c \<and> c < z + 10)"

definition u_lstrip :: "ustr \<Rightarrow> ustr" where "u_lstrip s = dropWhile u_space s"
definition u_rstrip :: "ustr \<Rightarrow> ustr" where "u_rstrip s = rev (dropWhile u_space (rev s))"
definition u_strip :: "ustr \<Rightarrow> ustr" where "u_strip s = u_rstrip (u_lstrip s)"

text \<open>\<open>str.lower\<close>, for letters up to U+00FF; others are left as they are.\<close>

definition u_lower :: "ustr \<Rightarrow> ustr" where
  "u_lower = map (\<lambda>c. if (65 \<le> c \<and> c \<le> 90) \<or> (192 \<le> c \<and> c \<le> 222 \<and> c \<noteq> 215) then c + 32 else c)"

text \<open>\<open>x or d\<close>, and \<open>str.replace\<close>, left to right and without overlaps.\<close>

definition u_or :: "ustr \<Rightarrow> ustr \<Rightarrow> ustr" where
  "u_or s d = (if s = [] then d else s)"

function replace_all :: "ustr \<Rightarrow> ustr \<Rightarrow> ustr \<Rightarrow> ustr" where
  "replace_all old new [] = []"
| "replace_all old new (c # cs) =
     (if old \<noteq> [] \<and> prefix old (c # cs) then new @ replace_all old new (drop (length old) (c # cs))
      else c # replace_all old new cs)"
  by pat_completeness auto
termination by (relation "measure (\<lambda>(_, _, s). length s)") auto

text \<open>\<open>str.rfind\<close>: the last position at which \<open>sub\<close> occurs.\<close>

definition rfind :: "ustr \<Rightarrow> ustr \<Rightarrow> nat option" where
  "rfind sub s = find (\<lambda>k. prefix sub (drop k s)) (rev [0..<Suc (length s)])"

fun add_char :: "int \<Rightarrow> ustr list \<Rightarrow> ustr list" where
  "add_char c [] = [[c]]"
| "add_char c (l # ls) = (if c = LF then [] # l # ls else (c # l) # ls)"

primrec u_lines :: "ustr \<Rightarrow> ustr list" where
  "u_lines [] = [[]]"
| "u_lines (c # cs) = add_char c (u_lines cs)"

fun join_lines :: "ustr list \<Rightarrow> ustr" where
  "join_lines [] = []"
| "join_lines [l] = l"
| "join_lines (l # l2 # ls) = l @ LF # join_lines (l2 # ls)"

subsection \<open>Lines\<close>

lemma u_lines_ne [simp]: "u_lines s \<noteq> []"
proof (induction s)
  case (Cons c cs)
  then show ?case by (cases "u_lines cs") auto
qed simp

lemma u_lines_Cons [simp]: "u_lines (c # cs)
    = (if c = LF then [] # u_lines cs else (c # hd (u_lines cs)) # tl (u_lines cs))"
  using u_lines_ne [of cs] by (cases "u_lines cs") (auto simp del: u_lines_ne)

declare u_lines.simps(2) [simp del]

lemma u_lines_nl: "u_lines (a @ LF # b) = u_lines a @ u_lines b"
  by (induction a) auto

lemma u_lines_single: "LF \<notin> set s \<Longrightarrow> u_lines s = [s]"
  by (induction s) auto

lemma lines_no_nl: "l \<in> set (u_lines s) \<Longrightarrow> LF \<notin> set l"
proof (induction s arbitrary: l)
  case (Cons c cs)
  have "hd (u_lines cs) \<in> set (u_lines cs)" by simp
  with Cons show ?case by (auto split: if_splits dest: list.set_sel(2) [rotated])
qed simp

lemma u_lines_append: "u_lines (a @ b)
    = butlast (u_lines a) @ (last (u_lines a) @ hd (u_lines b)) # tl (u_lines b)"
proof (induction a)
  case (Cons c cs)
  show ?case
  proof (cases "tl (u_lines cs) = []")
    case True
    then have "u_lines cs = [hd (u_lines cs)]" by (metis list.collapse u_lines_ne)
    then obtain x where "u_lines cs = [x]" by blast
    with Cons show ?thesis by simp
  next
    case False
    then obtain x y ys where "u_lines cs = x # y # ys" by (metis list.collapse u_lines_ne)
    with Cons show ?thesis by simp
  qed
qed simp

lemma u_lines_join: "ls \<noteq> [] \<Longrightarrow> u_lines (join_lines ls) = concat (map u_lines ls)"
  by (induction ls rule: join_lines.induct) (simp_all add: u_lines_nl)

lemma join_lines_Cons: "ls \<noteq> [] \<Longrightarrow> join_lines (l # ls) = l @ LF # join_lines ls"
  by (cases ls) auto

lemma join_u_lines [simp]: "join_lines (u_lines s) = s"
proof (induction s)
  case (Cons c cs)
  show ?case
  proof (cases "tl (u_lines cs) = []")
    case True
    then have one: "u_lines cs = [hd (u_lines cs)]" by (metis list.collapse u_lines_ne)
    then have "hd (u_lines cs) = cs" using Cons.IH by (metis join_lines.simps(2))
    with one show ?thesis by (auto simp: join_lines_Cons)
  next
    case False
    then obtain x y ys where "u_lines cs = x # y # ys" by (metis list.collapse u_lines_ne)
    with Cons show ?thesis by auto
  qed
qed simp

lemma u_lines_join_lines: "ls \<noteq> [] \<Longrightarrow> \<forall>l \<in> set ls. LF \<notin> set l \<Longrightarrow> u_lines (join_lines ls) = ls"
  by (induction ls rule: join_lines.induct) (simp_all add: u_lines_single u_lines_nl)

lemma set_join_lines: "set (join_lines ls) \<subseteq> insert LF (\<Union> (set ` set ls))"
  by (induction ls rule: join_lines.induct) auto

lemma sublist_join:
  assumes "sublist p (join_lines ls)" and "LF \<notin> set p" and "p \<noteq> []"
  shows "\<exists>l \<in> set ls. sublist p l"
  using assms(1)
proof (induction ls rule: join_lines.induct)
  case 1
  with assms(3) show ?case by simp
next
  case (2 l)
  then show ?case by simp
next
  case (3 l l2 ls)
  from "3.prems" consider "sublist p l" | "sublist p (LF # join_lines (l2 # ls))"
    | a b where "p = a @ b" "suffix a l" "prefix b (LF # join_lines (l2 # ls))" "b \<noteq> []"
    by (fastforce simp: sublist_append)
  then show ?case
  proof cases
    case 1
    then show ?thesis by simp
  next
    case 2
    then have "sublist p (join_lines (l2 # ls))"
      using assms(2,3) by (auto simp: sublist_Cons_right prefix_Cons)
    with "3.IH" show ?thesis by auto
  next
    case 3
    then have "LF \<in> set p" by (auto simp: prefix_Cons)
    with assms(2) show ?thesis by simp
  qed
qed

subsection \<open>Stripping\<close>

lemma u_strip_ends:
  assumes "u_strip s \<noteq> []"
  shows "\<not> u_space (hd (u_strip s)) \<and> \<not> u_space (last (u_strip s))"
proof -
  let ?m = "u_lstrip s"
  obtain t where t: "?m = u_rstrip ?m @ t" unfolding u_rstrip_def
    by (metis rev_append rev_rev_ident takeWhile_dropWhile_id)
  have ne: "u_rstrip ?m \<noteq> []" using assms by (simp add: u_strip_def)
  with t have "hd (u_rstrip ?m) = hd ?m" by (metis hd_append2)
  moreover have "\<not> u_space (hd ?m)" using t ne
    by (metis append_is_Nil_conv hd_dropWhile u_lstrip_def)
  moreover have "\<not> u_space (last (u_rstrip ?m))" using ne
    by (metis hd_dropWhile last_rev rev_is_Nil_conv u_rstrip_def)
  ultimately show ?thesis by (simp add: u_strip_def)
qed

lemma u_strip_id:
  assumes "s = [] \<or> (\<not> u_space (hd s) \<and> \<not> u_space (last s))"
  shows "u_strip s = s"
proof (cases "s = []")
  case False
  with assms have "u_lstrip s = s" by (cases s) (auto simp: u_lstrip_def)
  moreover have "u_rstrip s = s" using False assms by (cases s rule: rev_cases) (auto simp: u_rstrip_def)
  ultimately show ?thesis by (simp add: u_strip_def)
qed (simp add: u_strip_def u_lstrip_def u_rstrip_def)

lemma u_strip_idem [simp]: "u_strip (u_strip s) = u_strip s"
  using u_strip_ends u_strip_id by blast

lemma u_rstrip_prefix: "prefix (u_rstrip s) s"
  unfolding u_rstrip_def by (metis prefixI rev_append rev_rev_ident takeWhile_dropWhile_id)

lemma u_strip_subset: "set (u_strip s) \<subseteq> set s"
  unfolding u_strip_def u_rstrip_def u_lstrip_def by (auto dest!: set_dropWhileD)

lemma length_u_rstrip: "length (u_rstrip s) \<le> length s"
  by (simp add: u_rstrip_prefix prefix_length_le)

subsection \<open>Replacing\<close>

lemma prefix_replace_all:
  assumes "prefix p (replace_all old new s)" and "new \<noteq> []" and "hd new \<notin> set p"
  shows "prefix p s"
  using assms(1,3)
proof (induction s arbitrary: p)
  case (Cons c cs)
  show ?case
  proof (cases "old \<noteq> [] \<and> prefix old (c # cs)")
    case True
    with Cons.prems assms(2) show ?thesis by (cases p; cases new) auto
  next
    case False
    then show ?thesis using Cons by (cases p) auto
  qed
qed simp

text \<open>Replacing leaves no occurrence of the pattern and adds none of another one, when the
  replacement begins and ends with characters that the pattern does not have.\<close>

lemma replace_all_free:
  assumes "p = old \<or> \<not> sublist p s" and "p \<noteq> []" and "new \<noteq> []" and "hd new \<notin> set p" and "last new \<notin> set p"
    and "\<not> sublist p new"
  shows "\<not> sublist p (replace_all old new s)"
  using assms(1)
proof (induction s rule: measure_induct_rule [of length])
  case (less s)
  show ?case
  proof (cases s)
    case Nil
    with assms(2) show ?thesis by simp
  next
    case (Cons c cs)
    have sub: "p = old \<or> \<not> sublist p t" if "sublist t s" for t
      using less.prems that sublist_order.order.trans by blast
    show ?thesis
    proof (cases "old \<noteq> [] \<and> prefix old s")
      case True
      let ?r = "replace_all old new (drop (length old) s)"
      have r: "\<not> sublist p ?r" using less.IH [of "drop (length old) s"] sub Cons True by simp
      have "replace_all old new s = new @ ?r" using True Cons by simp
      moreover have "False" if "p = a @ b" "suffix a new" "prefix b ?r" for a b
      proof (cases "a = []")
        case True
        with that r show ?thesis by (simp add: prefix_imp_sublist)
      next
        case False
        with that(2) have "last a = last new" by (metis last_appendR suffix_def)
        with that(1) False assms(5) show ?thesis by (metis last_in_set UnI1 set_append)
      qed
      ultimately show ?thesis using assms(6) r by (auto simp: sublist_append)
    next
      case False
      then have e: "replace_all old new s = c # replace_all old new cs" using Cons by auto
      have "\<not> prefix p (c # replace_all old new cs)"
      proof
        assume "prefix p (c # replace_all old new cs)"
        then obtain t where t: "p = c # t" "prefix t (replace_all old new cs)"
          using assms(2) by (cases p) auto
        then have "prefix t cs" using prefix_replace_all assms(3,4) by (metis list.set_intros(2))
        with t have "prefix p s" using Cons by simp
        then show False using less.prems False assms(2) by (auto simp: prefix_imp_sublist)
      qed
      moreover have "\<not> sublist p (replace_all old new cs)"
        using less.IH [of cs] sub [of cs] Cons by (auto simp: sublist_Cons_right)
      ultimately show ?thesis by (simp add: e sublist_Cons_right)
    qed
  qed
qed

lemma replace_all_id: "\<not> sublist old s \<Longrightarrow> replace_all old new s = s"
  by (induction old new s rule: replace_all.induct)
    (auto simp: sublist_Cons_right)

lemma set_replace_all: "set (replace_all old new s) \<subseteq> set s \<union> set new"
proof (induction old new s rule: replace_all.induct)
  case (2 old new c cs)
  then show ?case using set_drop_subset [of "length old" "c # cs"] by (auto simp del: drop_Cons)
qed simp

subsection \<open>The last occurrence\<close>

lemma rfind_end: "rfind sub (pre @ sub) = Some (length pre)"
proof -
  let ?P = "\<lambda>k. prefix sub (drop k (pre @ sub))"
  have "find ?P (rev [0..<Suc n]) = Some (length pre)" if "length pre \<le> n" "n \<le> length (pre @ sub)" for n
    using that
  proof (induction n)
    case (Suc n)
    then show ?case
    proof (cases "length pre = Suc n")
      case False
      then have "\<not> ?P (Suc n)" using Suc.prems by (auto dest: prefix_length_le)
      with Suc False show ?thesis by simp
    qed simp
  qed simp
  from this [of "length (pre @ sub)"] show ?thesis by (simp add: rfind_def)
qed

end
