(* ===== verification/DispatchText.thy ===== *)
theory DispatchText
  imports UText
begin

text \<open>
  The text of dispatches: \<open>service/api_core/dispatch_text.py\<close>, \<open>dispatch_buffer.py\<close>, the text
  helpers of \<open>serialization.py\<close> and \<open>_dispatch_source_message_ids\<close> of \<open>claim_gating.py\<close>.

  While an agent is busy, dispatches from one sender are folded into one queued run whose body is a
  buffer of numbered items between two markers. The same module later reads that body back: it counts
  the items to number the next one and to enforce the cap, and it recovers the message ids whose read
  receipts the claim writes. Bodies and subjects are written by other agents, so the text put into the
  buffer is made inert first. The theory models the rendering and the reading and proves that one
  undoes the other, and what an agent's text can and cannot do to it.
\<close>

subsection \<open>Helpers of serialization.py\<close>

abbreviation ELLIPSIS :: int where "ELLIPSIS \<equiv> 8230"
abbreviation EM_DASH :: int where "EM_DASH \<equiv> 8212"
abbreviation QUOTE :: int where "QUOTE \<equiv> 34"
abbreviation APOSTROPHE :: int where "APOSTROPHE \<equiv> 39"

definition clip_text :: "ustr \<Rightarrow> int \<Rightarrow> ustr" where
  "clip_text s limit = (let v = u_strip s in
     if int (length v) \<le> limit then v
     else u_rstrip (take (nat (max (limit - 1) 0)) v) @ [ELLIPSIS])"

definition control :: "int \<Rightarrow> bool" where
  "control c = ((0 \<le> c \<and> c \<le> 31) \<or> c = 127)"

text \<open>\<open>_CONTROL_RUN_RE.sub(" ", s)\<close>; the flag says that the previous character was in the run.\<close>

fun collapse_controls :: "bool \<Rightarrow> ustr \<Rightarrow> ustr" where
  "collapse_controls r [] = []"
| "collapse_controls r (c # cs) =
     (if control c then (if r then collapse_controls True cs else 32 # collapse_controls True cs)
      else c # collapse_controls False cs)"

definition quote_untrusted_subject :: "ustr \<Rightarrow> int \<Rightarrow> ustr" where
  "quote_untrusted_subject s limit =
     (let t = u_or (clip_text (u_strip (collapse_controls False s)) limit) (lit ''(no subject)'') in
      [QUOTE] @ replace_all [QUOTE] [APOSTROPHE] t @ [QUOTE])"

fun dedupe :: "ustr list \<Rightarrow> ustr list \<Rightarrow> ustr list" where
  "dedupe seen [] = []"
| "dedupe seen (v # vs) = (if v = [] \<or> v \<in> set seen then dedupe seen vs else v # dedupe (v # seen) vs)"

definition dedupe_preserve :: "ustr list \<Rightarrow> ustr list" where
  "dedupe_preserve vs = dedupe [] vs"

subsection \<open>Markers\<close>

definition MERGED_DISPATCH_HEADER :: ustr where
  "MERGED_DISPATCH_HEADER = lit ''[AIFY PENDING DISPATCHES]''"

definition MERGED_DISPATCH_FOOTER :: ustr where
  "MERGED_DISPATCH_FOOTER = lit ''[/AIFY PENDING DISPATCHES]''"

text \<open>A line that \<open>^=== ITEM \d+ ===$\<close> matches, and one that \<open>^MessageId:\<close> does.\<close>

definition item_marker :: "ustr \<Rightarrow> bool" where
  "item_marker l = (let r = drop 9 l in
     prefix (lit ''=== ITEM '') l \<and> takeWhile u_digit r \<noteq> [] \<and> dropWhile u_digit r = lit '' ==='')"

abbreviation id_field :: "ustr \<Rightarrow> bool" where
  "id_field l \<equiv> prefix (lit ''MessageId:'') l"

definition neutral_item :: "ustr \<Rightarrow> ustr" where
  "neutral_item l = (if item_marker l then replace_all (lit ''==='') (lit ''---'') l else l)"

definition neutral_id :: "ustr \<Rightarrow> ustr" where
  "neutral_id l = (if id_field l then lit ''> '' @ l else l)"

definition neutralise_buffer_markers :: "ustr \<Rightarrow> ustr" where
  "neutralise_buffer_markers text =
     (let n1 = replace_all MERGED_DISPATCH_FOOTER (lit ''(/AIFY PENDING DISPATCHES)'') text;
          n2 = replace_all MERGED_DISPATCH_HEADER (lit ''(AIFY PENDING DISPATCHES)'') n1;
          n3 = join_lines (map neutral_item (u_lines n2)) in
      join_lines (map neutral_id (u_lines n3)))"

definition pending_dispatch_count :: "ustr \<Rightarrow> nat" where
  "pending_dispatch_count body =
     (if prefix MERGED_DISPATCH_HEADER body then length (filter item_marker (u_lines body))
      else if u_strip body \<noteq> [] then 1 else 0)"

subsection \<open>Rendering\<close>

record ditem =
  i_from :: ustr
  i_type :: ustr
  i_subject :: ustr
  i_body :: ustr
  i_priority :: ustr
  i_message_id :: ustr
  i_in_reply_to :: ustr
  i_requested_at :: ustr

definition full_text_line :: "ustr \<Rightarrow> ustr" where
  \<open>full_text_line mid = lit ''Full text: comms_inbox(agentId="<you>", messageId="'' @ mid @ lit ''") '' @ [EM_DASH]
     @ lit '' a dispatched message is already marked read, so a plain comms_inbox will NOT list it.''\<close>

definition item_head :: "nat \<Rightarrow> ditem \<Rightarrow> ustr list" where
  "item_head n i =
     [lit ''=== ITEM '' @ lit (nat_str n) @ lit '' ==='',
      lit ''From: '' @ u_or (i_from i) (lit ''unknown''),
      lit ''Type: '' @ u_or (i_type i) (lit ''request''),
      lit ''Subject: '' @ quote_untrusted_subject (neutralise_buffer_markers (i_subject i)) 240,
      lit ''Priority: '' @ u_or (i_priority i) (lit ''normal'')]
     @ (if i_requested_at i = [] then [] else [lit ''At: '' @ i_requested_at i])"

definition item_text :: "ditem \<Rightarrow> ustr list" where
  "item_text i = (if i_message_id i \<noteq> []
     then [lit ''MessageId: '' @ i_message_id i, full_text_line (i_message_id i)]
       @ (let preview = clip_text (neutralise_buffer_markers (i_body i)) 240 in
          if preview = [] then [] else [lit ''Body preview:'', preview])
     else (if i_in_reply_to i = [] then [] else [lit ''InReplyTo: '' @ i_in_reply_to i])
       @ [lit ''Body:'', u_strip (neutralise_buffer_markers (i_body i))])"

definition render_pending_dispatch_item :: "nat \<Rightarrow> ditem \<Rightarrow> ustr" where
  "render_pending_dispatch_item n i = u_strip (join_lines (item_head n i @ item_text i))"

definition build_pending_dispatch_subject :: "int \<Rightarrow> ustr \<Rightarrow> ustr" where
  "build_pending_dispatch_subject count latest_subject =
     (let latest = quote_untrusted_subject latest_subject 80 in
      if count \<le> 1 then latest
      else lit ''Pending updates ('' @ lit (nat_str (nat count)) @ lit ''); latest: '' @ latest)"

definition DISPATCH_BUFFER_CAP :: nat where
  "DISPATCH_BUFFER_CAP = 10"

definition buffer_intro :: "ustr list" where
  "buffer_intro =
     [lit ''Additional dispatches arrived while another run was active (cap: ''
        @ lit (nat_str DISPATCH_BUFFER_CAP) @ lit '' items).'',
      lit ''Process the buffered items in order. For message-backed items, use comms_inbox(...) if you need the full original text.'']"

text \<open>\<open>_append_pending_dispatch_body\<close>: the existing run gives the first item when its body is not a
  buffer yet. \<open>None\<close> is the refusal at the cap, or of a buffer that has no footer.\<close>

definition append_pending_dispatch_body :: "ditem \<Rightarrow> ditem \<Rightarrow> (ustr \<times> nat) option" where
  "append_pending_dispatch_body existing item =
     (let existing_body = i_body existing in
      if prefix MERGED_DISPATCH_HEADER existing_body
      then (let current_count = pending_dispatch_count existing_body in
            if current_count \<ge> DISPATCH_BUFFER_CAP then None
            else (case rfind MERGED_DISPATCH_FOOTER existing_body of
                    None \<Rightarrow> None
                  | Some k \<Rightarrow> Some (take k existing_body @ [LF, LF]
                      @ render_pending_dispatch_item (Suc current_count) item @ [LF]
                      @ drop k existing_body, Suc current_count)))
      else Some (u_strip (join_lines ([MERGED_DISPATCH_HEADER] @ buffer_intro @ [[],
             render_pending_dispatch_item 1 (existing\<lparr>i_priority := u_or (i_priority existing) (lit ''normal'')\<rparr>), [],
             render_pending_dispatch_item 2 item, MERGED_DISPATCH_FOOTER])), 2))"

subsection \<open>Reading a body back\<close>

text \<open>A line that \<open>^MessageId:[ \t]*(\S+)[ \t]*$\<close> matches, and its group.\<close>

definition id_of_line :: "ustr \<Rightarrow> ustr option" where
  "id_of_line l =
     (let r = dropWhile (\<lambda>c. c = 32 \<or> c = 9) (drop 10 l); tok = takeWhile (\<lambda>c. \<not> u_space c) r in
      if id_field l \<and> tok \<noteq> [] \<and> list_all (\<lambda>c. c = 32 \<or> c = 9) (dropWhile (\<lambda>c. \<not> u_space c) r)
      then Some (u_strip tok) else None)"

definition field_ids :: "ustr \<Rightarrow> ustr list" where
  "field_ids body = List.map_filter id_of_line (u_lines body)"

definition dispatch_source_message_ids :: "ustr \<Rightarrow> ustr \<Rightarrow> ustr list" where
  "dispatch_source_message_ids message_id body =
     (let primary = u_strip message_id in
      dedupe_preserve ((if primary = [] then [] else [primary])
        @ (if prefix MERGED_DISPATCH_HEADER body then field_ids body else [])))"

subsection \<open>Inert text\<close>

text \<open>Text no line of which is a structural one.\<close>

definition inert :: "ustr \<Rightarrow> bool" where
  "inert t = (\<forall>l \<in> set (u_lines t). \<not> item_marker l \<and> \<not> id_field l)"

definition unframed :: "ustr \<Rightarrow> bool" where
  "unframed t = (\<not> sublist MERGED_DISPATCH_HEADER t \<and> \<not> sublist MERGED_DISPATCH_FOOTER t)"

lemmas marker_defs = MERGED_DISPATCH_HEADER_def MERGED_DISPATCH_FOOTER_def

lemma item_marker_head: "item_marker l \<Longrightarrow> prefix (lit ''=== ITEM '') l"
  by (simp add: item_marker_def Let_def)

lemma neutral_item_inert: "\<not> item_marker (neutral_item l)"
proof (cases "item_marker l")
  case True
  then obtain t where "l = lit ''=== ITEM '' @ t" by (meson item_marker_head prefixE)
  with True show ?thesis by (auto simp: neutral_item_def item_marker_def lit_def Let_def)
qed (simp add: neutral_item_def)

lemma neutral_id_inert: "\<not> id_field (neutral_id l)" "\<not> item_marker l \<Longrightarrow> \<not> item_marker (neutral_id l)"
  by (auto simp: neutral_id_def item_marker_def lit_def Let_def)

lemma no_nl_neutral: "LF \<notin> set l \<Longrightarrow> LF \<notin> set (neutral_item l)" "LF \<notin> set l \<Longrightarrow> LF \<notin> set (neutral_id l)"
  using set_replace_all [of "lit ''==='' " "lit ''---''" l]
  by (auto simp: neutral_item_def neutral_id_def lit_def)

lemma lines_map: "(\<And>l. LF \<notin> set l \<Longrightarrow> LF \<notin> set (f l)) \<Longrightarrow>
    u_lines (join_lines (map f (u_lines s))) = map f (u_lines s)"
  by (rule u_lines_join_lines) (auto dest: lines_no_nl)

lemma sublist_lines: "l \<in> set (u_lines s) \<Longrightarrow> sublist l s"
proof -
  have "sublist l (join_lines ls)" if "l \<in> set ls" for ls
    using that
  proof (induction ls rule: join_lines.induct)
    case (3 l1 l2 ls)
    then show ?case
      by (auto simp: sublist_append sublist_Cons_right)
  qed auto
  then show "l \<in> set (u_lines s) \<Longrightarrow> sublist l s" by (metis join_u_lines)
qed

lemma neutralise_lines: "u_lines (neutralise_buffer_markers t)
    = map (neutral_id \<circ> neutral_item) (u_lines (replace_all MERGED_DISPATCH_HEADER (lit ''(AIFY PENDING DISPATCHES)'')
        (replace_all MERGED_DISPATCH_FOOTER (lit ''(/AIFY PENDING DISPATCHES)'') t)))"
  by (simp add: neutralise_buffer_markers_def Let_def lines_map no_nl_neutral)

lemma neutralise_inert: "inert (neutralise_buffer_markers t)"
  by (auto simp: inert_def neutralise_lines neutral_item_inert neutral_id_inert)

text \<open>The two line substitutions bring no bracket, so they complete no frame marker.\<close>

lemma neutral_line_unframed:
  assumes "\<not> sublist p l" and "p \<noteq> []" and "hd p = 91" and "45 \<notin> set p"
  shows "\<not> sublist p ((neutral_id \<circ> neutral_item) l)"
proof -
  have "\<not> sublist p (lit ''---'')" using assms by (cases p) (auto simp: lit_def sublist_Cons_right)
  then have "\<not> sublist p (neutral_item l)"
    using replace_all_free [of p "lit ''===''" l "lit ''---''"] assms by (auto simp: neutral_item_def lit_def)
  then show ?thesis
    using assms by (cases p) (auto simp: neutral_id_def lit_def sublist_Cons_right)
qed

lemma neutralise_unframed: "unframed (neutralise_buffer_markers t)"
proof -
  let ?n1 = "replace_all MERGED_DISPATCH_FOOTER (lit ''(/AIFY PENDING DISPATCHES)'') t"
  let ?n2 = "replace_all MERGED_DISPATCH_HEADER (lit ''(AIFY PENDING DISPATCHES)'') ?n1"
  have f1: "\<not> sublist MERGED_DISPATCH_FOOTER ?n1"
    by (rule replace_all_free) (auto simp: marker_defs lit_def sublist_Cons_right)
  have f2: "\<not> sublist MERGED_DISPATCH_FOOTER ?n2"
    by (rule replace_all_free) (use f1 in \<open>auto simp: marker_defs lit_def sublist_Cons_right\<close>)
  have h2: "\<not> sublist MERGED_DISPATCH_HEADER ?n2"
    by (rule replace_all_free) (auto simp: marker_defs lit_def sublist_Cons_right)
  have "\<not> sublist p (neutralise_buffer_markers t)"
    if p: "\<not> sublist p ?n2" "LF \<notin> set p" "p \<noteq> []" "hd p = 91" "45 \<notin> set p" for p
  proof
    assume "sublist p (neutralise_buffer_markers t)"
    then have "sublist p (join_lines (u_lines (neutralise_buffer_markers t)))" by simp
    from sublist_join [OF this p(2,3)] obtain l where
      "l \<in> set (u_lines ?n2)" "sublist p ((neutral_id \<circ> neutral_item) l)" by (auto simp: neutralise_lines)
    with neutral_line_unframed p sublist_lines show False by (meson sublist_order.order.trans)
  qed
  from this [OF h2] this [OF f2] show ?thesis by (simp add: unframed_def marker_defs lit_def)
qed

lemma neutralise_id: "inert t \<Longrightarrow> unframed t \<Longrightarrow> neutralise_buffer_markers t = t"
proof -
  assume t: "inert t" "unframed t"
  have "map (neutral_id \<circ> neutral_item) (u_lines t) = u_lines t"
    using t(1) by (intro map_idI) (auto simp: inert_def neutral_id_def neutral_item_def)
  with t(2) have "u_lines (neutralise_buffer_markers t) = u_lines t"
    by (simp add: neutralise_lines unframed_def replace_all_id)
  then show ?thesis by (metis join_u_lines)
qed

subsection \<open>Stripping and clipping inert text\<close>

text \<open>Text with no whitespace at its ends, which is what stripping leaves alone.\<close>

definition trimmed :: "ustr \<Rightarrow> bool" where
  "trimmed s = (s = [] \<or> (\<not> u_space (hd s) \<and> \<not> u_space (last s)))"

lemma trimmed_strip: "u_strip s = s \<longleftrightarrow> trimmed s"
  using u_strip_ends [of s] u_strip_id [of s] by (auto simp: trimmed_def)

lemma replace_all_ends:
  assumes "new \<noteq> []" and "s \<noteq> []"
  shows "replace_all old new s \<noteq> []" and "hd (replace_all old new s) \<in> {hd s, hd new}"
    and "last (replace_all old new s) \<in> {last s, last new}"
proof -
  have ne: "replace_all old new s \<noteq> []" if "s \<noteq> []" for s using that assms(1) by (cases s) auto
  then show "replace_all old new s \<noteq> []" using assms(2) .
  show "hd (replace_all old new s) \<in> {hd s, hd new}" using assms by (cases s) auto
  show "last (replace_all old new s) \<in> {last s, last new}" using assms(2)
  proof (induction s rule: measure_induct_rule [of length])
    case (less s)
    then obtain c cs where s: "s = c # cs" by (cases s) auto
    show ?case
    proof (cases "old \<noteq> [] \<and> prefix old s")
      case True
      let ?d = "drop (length old) s"
      have e: "replace_all old new s = new @ replace_all old new ?d" using True s by simp
      show ?thesis
      proof (cases "?d = []")
        case False
        then have "last ?d = last s" by (metis append_take_drop_id last_appendR)
        moreover have "length ?d < length s" using True s by simp
        ultimately show ?thesis using less.IH [of ?d] False e ne by auto
      qed (use e in simp)
    next
      case False
      then have e: "replace_all old new s = c # replace_all old new cs" using s by auto
      show ?thesis using less.IH [of cs] ne [of cs] s e by (cases "cs = []") auto
    qed
  qed
qed

lemma trimmed_replace: "trimmed s \<Longrightarrow> new \<noteq> [] \<Longrightarrow> trimmed new \<Longrightarrow> trimmed (replace_all old new s)"
  using replace_all_ends [of new s old] by (cases "s = []") (auto simp: trimmed_def)

lemma hd_join: "ls \<noteq> [] \<Longrightarrow> hd ls \<noteq> [] \<Longrightarrow> join_lines ls \<noteq> [] \<and> hd (join_lines ls) = hd (hd ls)"
  by (cases ls rule: join_lines.cases) auto

lemma join_ne: "join_lines (l # l2 # ls) \<noteq> []"
  by simp

lemma last_join: "ls \<noteq> [] \<Longrightarrow> last ls \<noteq> [] \<Longrightarrow> join_lines ls \<noteq> [] \<and> last (join_lines ls) = last (last ls)"
  by (induction ls rule: join_lines.induct) auto

lemma trimmed_lines:
  assumes "trimmed s" and "s \<noteq> []"
  shows "hd (u_lines s) \<noteq> []" "hd (hd (u_lines s)) = hd s" "last (u_lines s) \<noteq> []" "last (last (u_lines s)) = last s"
proof -
  have nl: "hd s \<noteq> LF" "last s \<noteq> LF" using assms by (auto simp: trimmed_def)
  show hd: "hd (u_lines s) \<noteq> []" using nl(1) assms(2) by (cases s) auto
  show "hd (hd (u_lines s)) = hd s" using hd_join [of "u_lines s"] hd by simp
  show last: "last (u_lines s) \<noteq> []"
    using nl(2) assms(2) u_lines_append [of "butlast s" "[last s]"] by simp
  show "last (last (u_lines s)) = last s" using last_join [of "u_lines s"] last by simp
qed

lemma trimmed_map_lines:
  assumes "trimmed s" and "\<And>l. l \<noteq> [] \<Longrightarrow> \<not> u_space (hd l) \<Longrightarrow> f l \<noteq> [] \<and> \<not> u_space (hd (f l))"
    and "\<And>l. l \<noteq> [] \<Longrightarrow> \<not> u_space (last l) \<Longrightarrow> f l \<noteq> [] \<and> \<not> u_space (last (f l))" and "f [] = []"
  shows "trimmed (join_lines (map f (u_lines s)))"
proof (cases "s = []")
  case False
  let ?ls = "map f (u_lines s)"
  note e = trimmed_lines [OF assms(1) False]
  have "hd ?ls \<noteq> [] \<and> \<not> u_space (hd (hd ?ls))" using assms(1,2) e False by (simp add: hd_map trimmed_def)
  moreover have "last ?ls \<noteq> [] \<and> \<not> u_space (last (last ?ls))" using assms(1,3) e False by (simp add: last_map trimmed_def)
  ultimately show ?thesis using hd_join [of ?ls] last_join [of ?ls] by (simp add: trimmed_def)
qed (use assms(4) in \<open>simp add: trimmed_def\<close>)

lemma trimmed_neutralise: "trimmed s \<Longrightarrow> trimmed (neutralise_buffer_markers s)"
proof -
  assume s: "trimmed s"
  let ?n2 = "replace_all MERGED_DISPATCH_HEADER (lit ''(AIFY PENDING DISPATCHES)'')
    (replace_all MERGED_DISPATCH_FOOTER (lit ''(/AIFY PENDING DISPATCHES)'') s)"
  have "trimmed ?n2" by (intro trimmed_replace s) (auto simp: lit_def  trimmed_def)
  moreover have "neutral_item l \<noteq> [] \<and> \<not> u_space (hd (neutral_item l))" if "l \<noteq> []" "\<not> u_space (hd l)" for l
    using that replace_all_ends [of "lit ''---''" l "lit ''===''"] by (auto simp: neutral_item_def lit_def )
  moreover have "neutral_item l \<noteq> [] \<and> \<not> u_space (last (neutral_item l))" if "l \<noteq> []" "\<not> u_space (last l)" for l
    using that replace_all_ends [of "lit ''---''" l "lit ''===''"] by (auto simp: neutral_item_def lit_def )
  moreover have "neutral_item [] = []" "neutral_id [] = []"
    by (auto simp: neutral_item_def neutral_id_def item_marker_def lit_def)
  moreover have "neutral_id l \<noteq> [] \<and> \<not> u_space (hd (neutral_id l))" if "l \<noteq> []" "\<not> u_space (hd l)" for l
    using that by (auto simp: neutral_id_def lit_def )
  moreover have "neutral_id l \<noteq> [] \<and> \<not> u_space (last (neutral_id l))" if "l \<noteq> []" "\<not> u_space (last l)" for l
    using that by (auto simp: neutral_id_def lit_def)
  ultimately show ?thesis unfolding neutralise_buffer_markers_def Let_def
    by (intro trimmed_map_lines) blast+
qed

text \<open>Cutting a text short and marking the cut gives no line a structural reading it had not.\<close>

lemma inert_cut:
  assumes "inert t" and "prefix p t"
  shows "inert (p @ [ELLIPSIS])"
proof -
  obtain q where q: "t = p @ q" using assms(2) by (auto simp: prefix_def)
  have t: "\<not> item_marker l \<and> \<not> id_field l"
    if "l \<in> set (butlast (u_lines p) @ [last (u_lines p) @ hd (u_lines q)])" for l
    using assms(1) that by (auto simp: inert_def q u_lines_append)
  have "\<not> id_field (last (u_lines p) @ [ELLIPSIS])"
  proof
    assume "id_field (last (u_lines p) @ [ELLIPSIS])"
    then have "id_field (last (u_lines p))" by (auto simp: prefix_append lit_def append_eq_Cons_conv prefix_Cons)
    then have "id_field (last (u_lines p) @ hd (u_lines q))" by (simp add: prefix_append)
    with t show False by simp
  qed
  moreover have "\<not> item_marker (last (u_lines p) @ [ELLIPSIS])"
  proof
    let ?l = "last (u_lines p) @ [ELLIPSIS]"
    assume m: "item_marker ?l"
    then have "suffix (lit '' ==='') ?l" unfolding item_marker_def Let_def
      by (metis suffix_dropWhile suffix_drop suffix_order.trans)
    then have "last (lit '' ==='') = ELLIPSIS" by (auto simp: suffix_def lit_def)
    then show False by (simp add: lit_def)
  qed
  ultimately show ?thesis using t by (auto simp: inert_def u_lines_append)
qed

lemma clip_inert: "inert t \<Longrightarrow> trimmed t \<Longrightarrow> inert (clip_text t n)"
proof -
  assume t: "inert t" "trimmed t"
  have "prefix (u_rstrip (take m t)) t" for m
    using u_rstrip_prefix prefix_order.trans take_is_prefix by blast
  with t show ?thesis by (simp add: clip_text_def trimmed_strip [THEN iffD2] inert_cut)
qed

lemma clip_trimmed: "trimmed t \<Longrightarrow> trimmed (clip_text t n)"
proof -
  assume t: "trimmed t"
  let ?p = "\<lambda>m. u_rstrip (take m t)"
  have "hd (?p m @ [ELLIPSIS]) = (if ?p m = [] then ELLIPSIS else hd t)" for m
    by (metis (no_types, lifting) append_Nil hd_append list.sel(1) prefix_def prefix_order.trans take_is_prefix u_rstrip_prefix)
  moreover have "\<not> u_space (hd t)" if "?p m \<noteq> []" for m using that t by (auto simp: u_rstrip_def trimmed_def)
  ultimately show ?thesis using t
    by (auto simp: clip_text_def Let_def trimmed_strip [THEN iffD2] trimmed_def [of "_ @ _"])
qed

subsection \<open>One item\<close>

text \<open>How many item lines a text has, and which message ids it names; both are sums over its lines.\<close>

abbreviation marks :: "ustr \<Rightarrow> nat" where
  "marks t \<equiv> length (filter item_marker (u_lines t))"

lemma marks_nl: "marks (a @ LF # b) = marks a + marks b"
  by (simp add: u_lines_nl)

lemma field_ids_nl: "field_ids (a @ LF # b) = field_ids a @ field_ids b"
  by (simp add: field_ids_def u_lines_nl map_filter_def)

lemma counts_join:
  assumes "ls \<noteq> []"
  shows "marks (join_lines ls) = sum_list (map marks ls)" "field_ids (join_lines ls) = concat (map field_ids ls)"
  using assms
  by (induction ls rule: join_lines.induct) (simp_all only: join_lines.simps marks_nl field_ids_nl, simp_all)

lemma id_of_line_none: "\<not> id_field l \<Longrightarrow> id_of_line l = None"
  by (simp add: id_of_line_def Let_def)

lemma inert_counts: "inert t \<Longrightarrow> marks t = 0" "inert t \<Longrightarrow> field_ids t = []"
  by (auto simp: inert_def field_ids_def map_filter_def id_of_line_none filter_empty_conv)

text \<open>What a sender and the service put in the fields of an item: one-line fields, a message id
  without whitespace, and a body without whitespace at its ends.\<close>

definition item_ok :: "ditem \<Rightarrow> bool" where
  "item_ok i = (LF \<notin> set (i_from i) \<and> LF \<notin> set (i_type i) \<and> LF \<notin> set (i_priority i)
     \<and> LF \<notin> set (i_in_reply_to i) \<and> LF \<notin> set (i_requested_at i)
     \<and> (\<forall>c \<in> set (i_message_id i). \<not> u_space c) \<and> u_strip (i_body i) = i_body i)"

lemma nat_str_digits: "c \<in> set (nat_str n) \<Longrightarrow> \<exists>d < 10. c = digit_char d"
proof (induction n rule: nat_str.induct)
  case (1 n)
  from "1.prems" show ?case
    by (subst (asm) nat_str.simps) (auto split: if_splits dest: "1.IH" intro: exI [of _ "n mod 10"])
qed

lemma u_digit_ascii: "48 \<le> c \<Longrightarrow> c < 58 \<Longrightarrow> u_digit c"
  unfolding u_digit_def by (rule bexI [of _ 48]) (simp_all add: digit_zeros_def)

lemma lit_nat_str: "list_all u_digit (lit (nat_str n))" "lit (nat_str n) \<noteq> []" "LF \<notin> set (lit (nat_str n))"
proof -
  have c: "\<exists>d < 10. x = 48 + int d" if x: "x \<in> set (lit (nat_str n))" for x
  proof -
    from x obtain d where "d < 10" "x = of_char (digit_char d)" using nat_str_digits by (fastforce simp: lit_def)
    then have "x = int (of_char (digit_char d))" by (simp add: of_nat_of_char)
    with \<open>d < 10\<close> show ?thesis by (auto simp: digit_char_def)
  qed
  show "lit (nat_str n) \<noteq> []" by (subst nat_str.simps) (simp add: lit_def)
  show "list_all u_digit (lit (nat_str n))"
    using c u_digit_ascii by (fastforce simp: list_all_iff)
  show "LF \<notin> set (lit (nat_str n))" using c by fastforce
qed

lemma item_marker_rendered: "item_marker (lit ''=== ITEM '' @ lit (nat_str n) @ lit '' ==='')"
proof -
  let ?d = "lit (nat_str n)"
  have "\<not> u_digit 32" by (simp add: u_digit_def digit_zeros_def)
  moreover have "lit '' ==='' = 32 # lit ''===''" by (simp add: lit_def)
  ultimately have "takeWhile u_digit (?d @ lit '' ==='') = ?d" "dropWhile u_digit (?d @ lit '' ==='') = lit '' ===''"
    using lit_nat_str(1) [of n] by (auto simp: list_all_iff takeWhile_append dropWhile_append)
  then show ?thesis using lit_nat_str(2) [of n] by (auto simp: item_marker_def Let_def lit_def)
qed

lemma collapse_no_control: "c \<in> set (collapse_controls r s) \<Longrightarrow> \<not> control c"
  by (induction r s rule: collapse_controls.induct) (auto simp: control_def split: if_splits)

lemma clip_chars: "c \<in> set (clip_text s n) \<Longrightarrow> c \<in> set s \<or> c = ELLIPSIS"
  using u_strip_subset [of s] set_mono_prefix [OF u_rstrip_prefix]
  by (auto simp: clip_text_def Let_def split: if_splits dest: in_set_takeD)

lemma quote_chars: "c \<in> set (quote_untrusted_subject s n) \<Longrightarrow> \<not> control c"
proof -
  let ?t = "u_or (clip_text (u_strip (collapse_controls False s)) n) (lit ''(no subject)'')"
  have "\<not> control x" if "x \<in> set ?t" for x
    using that collapse_no_control [of x False s] u_strip_subset [of "collapse_controls False s"]
    by (auto simp: u_or_def split: if_splits dest!: clip_chars) (auto simp: control_def lit_def)
  moreover assume "c \<in> set (quote_untrusted_subject s n)"
  then have "c \<in> set ?t \<or> c = QUOTE \<or> c = APOSTROPHE"
    using set_replace_all [of "[QUOTE]" "[APOSTROPHE]" ?t] by (auto simp: quote_untrusted_subject_def Let_def)
  ultimately show ?thesis by (auto simp: control_def)
qed

text \<open>The lines of an item that are not its marker, its id line or its body.\<close>

definition plain_line :: "ustr \<Rightarrow> bool" where
  "plain_line l = (LF \<notin> set l \<and> \<not> item_marker l \<and> \<not> id_field l)"

lemma plain_line_inert: "plain_line l \<Longrightarrow> inert l"
  by (simp add: plain_line_def inert_def u_lines_single)

lemma item_head_lines:
  assumes "item_ok i"
  shows "\<exists>rest. item_head n i = (lit ''=== ITEM '' @ lit (nat_str n) @ lit '' ==='') # rest \<and> list_all plain_line rest"
proof -
  have "LF \<notin> set (quote_untrusted_subject s m)" for s m
    using quote_chars [of LF s m] by (auto simp: control_def)
  with assms show ?thesis
    by (auto simp: item_head_def item_ok_def plain_line_def item_marker_def lit_def u_or_def Let_def)
qed

lemma id_line:
  assumes "\<forall>c \<in> set mid. \<not> u_space c" and "mid \<noteq> []"
  shows "id_of_line (lit ''MessageId: '' @ mid) = Some mid" "\<not> item_marker (lit ''MessageId: '' @ mid)"
    "LF \<notin> set mid"
proof -
  have "takeWhile (\<lambda>c. \<not> u_space c) mid = mid" "dropWhile (\<lambda>c. \<not> u_space c) mid = []" using assms(1) by auto
  moreover have "u_strip mid = mid" using assms by (intro u_strip_id) auto
  moreover have "dropWhile (\<lambda>c. c = 32 \<or> c = 9) mid = mid" using assms by (cases mid) auto
  ultimately show "id_of_line (lit ''MessageId: '' @ mid) = Some mid"
    using assms(2) by (simp add: id_of_line_def lit_def Let_def del: takeWhile_eq_all_conv dropWhile_eq_Nil_conv)
  show "\<not> item_marker (lit ''MessageId: '' @ mid)" by (simp add: item_marker_def lit_def Let_def)
  show "LF \<notin> set mid" using assms(1) by force
qed

text \<open>What the parser sees of an item's lines below its head: one id line if it has a message id.\<close>

lemma item_text_counts:
  assumes "item_ok i"
  shows "filter item_marker (concat (map u_lines (item_text i))) = []"
    and "List.map_filter id_of_line (concat (map u_lines (item_text i))) = (if i_message_id i = [] then [] else [i_message_id i])"
proof -
  let ?b = "neutralise_buffer_markers (i_body i)"
  have b: "inert ?b" "trimmed ?b"
    using assms trimmed_neutralise by (auto simp: item_ok_def trimmed_strip neutralise_inert)
  then have bodies: "inert (clip_text ?b 240)" "inert (u_strip ?b)"
    by (auto simp: clip_inert trimmed_strip [THEN iffD2])
  have plain: "inert (lit ''Body preview:'')" "inert (lit ''Body:'')" "i_in_reply_to i \<noteq> [] \<Longrightarrow> inert (lit ''InReplyTo: '' @ i_in_reply_to i)"
    "i_message_id i \<noteq> [] \<Longrightarrow> inert (full_text_line (i_message_id i))"
    using assms id_line(3) [of "i_message_id i"]
    by (auto intro!: plain_line_inert simp: plain_line_def item_ok_def item_marker_def lit_def full_text_line_def Let_def)
  note counts = bodies plain [THEN inert_counts(1)] plain [THEN inert_counts(2)] bodies [THEN inert_counts(1)] bodies [THEN inert_counts(2)]
  have id: "i_message_id i \<noteq> [] \<Longrightarrow> u_lines (lit ''MessageId: '' @ i_message_id i) = [lit ''MessageId: '' @ i_message_id i]"
    using assms id_line(3) [of "i_message_id i"] by (intro u_lines_single) (auto simp: item_ok_def lit_def)
  show "filter item_marker (concat (map u_lines (item_text i))) = []"
    using counts id assms id_line(2) [of "i_message_id i"] by (auto simp: item_text_def Let_def item_ok_def)
  show "List.map_filter id_of_line (concat (map u_lines (item_text i))) = (if i_message_id i = [] then [] else [i_message_id i])"
    using counts id assms id_line(1) [of "i_message_id i"]
    by (auto simp: item_text_def Let_def item_ok_def field_ids_def map_filter_def)
qed

lemma item_text_last:
  assumes "item_ok i"
  shows "item_text i \<noteq> []" and "trimmed (last (item_text i))"
    and "last (item_text i) = [] \<Longrightarrow> \<exists>ls. item_text i = ls @ [lit ''Body:'', []]"
proof -
  have t: "trimmed (neutralise_buffer_markers (i_body i))"
    using assms trimmed_neutralise by (simp add: item_ok_def trimmed_strip)
  have "trimmed (full_text_line m)" for m by (simp add: full_text_line_def lit_def trimmed_def)
  with clip_trimmed [OF t] t show "trimmed (last (item_text i))"
    by (simp add: item_text_def Let_def trimmed_strip [THEN iffD2])
  show "item_text i \<noteq> []" by (simp add: item_text_def)
  show "\<exists>ls. item_text i = ls @ [lit ''Body:'', []]" if e: "last (item_text i) = []"
    using e by (auto simp: item_text_def Let_def full_text_line_def lit_def split: if_splits)
qed

lemma join_snoc_empty: "ls \<noteq> [] \<Longrightarrow> join_lines (ls @ [[]]) = join_lines ls @ [LF]"
  by (induction ls rule: join_lines.induct) auto

text \<open>Stripping an item drops at most the newline before an empty body.\<close>

lemma render_join:
  assumes "item_ok i"
  shows "join_lines (item_head n i @ item_text i) = render_pending_dispatch_item n i
    \<or> join_lines (item_head n i @ item_text i) = render_pending_dispatch_item n i @ [LF]"
proof -
  let ?L = "item_head n i @ item_text i"
  note lst = item_text_last [OF assms]
  have hd: "hd (join_lines ls) = 61 \<and> join_lines ls \<noteq> []" if "ls = item_head n i @ xs" for ls xs
    using that hd_join [of ls] by (simp add: item_head_def lit_def)
  show ?thesis
  proof (cases "last (item_text i) = []")
    case True
    with lst(3) obtain ls where ls: "item_text i = ls @ [lit ''Body:'', []]" by blast
    let ?M = "item_head n i @ ls @ [lit ''Body:'']"
    have "trimmed (join_lines ?M)" using hd [of ?M] last_join [of ?M] by (simp add: trimmed_def lit_def)
    moreover have "join_lines ?L = join_lines ?M @ [LF]" using ls join_snoc_empty [of ?M] by simp
    moreover have "u_strip (t @ [LF]) = u_strip t" if "trimmed t" "t \<noteq> []" for t
      using that by (cases t) (auto simp: trimmed_def u_strip_def u_lstrip_def u_rstrip_def)
    ultimately show ?thesis using hd [of ?M]
      by (simp add: render_pending_dispatch_item_def trimmed_strip [THEN iffD2])
  next
    case False
    then have "trimmed (join_lines ?L)"
      using hd [of ?L] last_join [of ?L] lst by (simp add: trimmed_def)
    then show ?thesis by (simp add: render_pending_dispatch_item_def trimmed_strip [THEN iffD2])
  qed
qed

lemma render_counts:
  assumes "item_ok i"
  shows "marks (render_pending_dispatch_item n i) = 1"
    and "field_ids (render_pending_dispatch_item n i) = (if i_message_id i = [] then [] else [i_message_id i])"
proof -
  let ?t = "join_lines (item_head n i @ item_text i)"
  obtain rest where h: "item_head n i = (lit ''=== ITEM '' @ lit (nat_str n) @ lit '' ==='') # rest"
    and r: "list_all plain_line rest" using item_head_lines [OF assms] by blast
  have rest: "concat (map u_lines rest) = rest"
    using r by (induction rest) (auto simp: plain_line_def u_lines_single)
  have m: "LF \<notin> set (lit ''=== ITEM '' @ lit (nat_str n) @ lit '' ==='')"
    using lit_nat_str(3) by (auto simp: lit_def)
  have "u_lines ?t = (lit ''=== ITEM '' @ lit (nat_str n) @ lit '' ==='') # rest @ concat (map u_lines (item_text i))"
    using u_lines_join [of "item_head n i @ item_text i"] h rest u_lines_single [OF m] by simp
  moreover have "filter item_marker rest = []" "List.map_filter id_of_line rest = []"
    using r by (auto simp: list_all_iff plain_line_def filter_empty_conv map_filter_def id_of_line_none)
  moreover have "id_of_line (lit ''=== ITEM '' @ x) = None" for x by (rule id_of_line_none) (simp add: lit_def)
  ultimately have "marks ?t = 1" "field_ids ?t = (if i_message_id i = [] then [] else [i_message_id i])"
    using item_text_counts [OF assms] item_marker_rendered [of n]
    by (auto simp: field_ids_def map_filter_def)
  moreover have "marks (s @ [LF]) = marks s" "field_ids (s @ [LF]) = field_ids s" for s
    using marks_nl [of s "[]"] field_ids_nl [of s "[]"] by (auto simp: item_marker_def lit_def field_ids_def map_filter_def id_of_line_def)
  ultimately show "marks (render_pending_dispatch_item n i) = 1"
    "field_ids (render_pending_dispatch_item n i) = (if i_message_id i = [] then [] else [i_message_id i])"
    using render_join [OF assms, of n] by metis+
qed

subsection \<open>The buffer\<close>

text \<open>A buffer of \<open>n\<close> items that names the ids \<open>ids\<close>.\<close>

definition buffer :: "nat \<Rightarrow> ustr list \<Rightarrow> ustr \<Rightarrow> bool" where
  "buffer n ids b = (\<exists>p. b = p @ LF # MERGED_DISPATCH_FOOTER \<and> prefix MERGED_DISPATCH_HEADER p
     \<and> marks p = n \<and> field_ids p = ids)"

lemma footer_counts: "marks MERGED_DISPATCH_FOOTER = 0" "field_ids MERGED_DISPATCH_FOOTER = []"
  "marks [] = 0" "field_ids [] = []"
proof -
  have "inert MERGED_DISPATCH_FOOTER" "inert []"
    by (auto intro!: plain_line_inert simp: plain_line_def item_marker_def marker_defs lit_def Let_def)
  then show "marks MERGED_DISPATCH_FOOTER = 0" "field_ids MERGED_DISPATCH_FOOTER = []" "marks [] = 0" "field_ids [] = []"
    by (auto simp only: inert_counts)
qed

lemma buffer_reads:
  assumes "buffer n ids b"
  shows "prefix MERGED_DISPATCH_HEADER b" "pending_dispatch_count b = n" "field_ids b = ids"
  using assms marks_nl field_ids_nl footer_counts
  by (auto simp: buffer_def pending_dispatch_count_def prefix_append)

lemma item_ok_priority: "item_ok i \<Longrightarrow> item_ok (i\<lparr>i_priority := u_or (i_priority i) (lit ''normal'')\<rparr>)"
  by (auto simp: item_ok_def u_or_def lit_def)

abbreviation id_list :: "ditem \<Rightarrow> ustr list" where
  "id_list i \<equiv> (if i_message_id i = [] then [] else [i_message_id i])"

lemma append_to_buffer:
  assumes "buffer n ids (i_body r)" and "item_ok i"
  shows "n \<ge> DISPATCH_BUFFER_CAP \<Longrightarrow> append_pending_dispatch_body r i = None"
    and "n < DISPATCH_BUFFER_CAP \<Longrightarrow>
      \<exists>b. append_pending_dispatch_body r i = Some (b, Suc n) \<and> buffer (Suc n) (ids @ id_list i) b"
proof -
  note rd = buffer_reads [OF assms(1)]
  show "n \<ge> DISPATCH_BUFFER_CAP \<Longrightarrow> append_pending_dispatch_body r i = None"
    by (simp add: append_pending_dispatch_body_def rd)
  from assms(1) obtain p where p: "i_body r = p @ LF # MERGED_DISPATCH_FOOTER" "prefix MERGED_DISPATCH_HEADER p"
    "marks p = n" "field_ids p = ids" by (auto simp: buffer_def)
  let ?t = "render_pending_dispatch_item (Suc n) i"
  let ?p' = "p @ LF # [] @ LF # [] @ LF # ?t"
  have f: "rfind MERGED_DISPATCH_FOOTER (p @ LF # MERGED_DISPATCH_FOOTER) = Some (Suc (length p))"
    using rfind_end [of MERGED_DISPATCH_FOOTER "p @ [LF]"] by simp
  have "prefix MERGED_DISPATCH_HEADER ?p'" using p(2) by (simp add: prefix_append)
  moreover have "marks ?p' = Suc n" "field_ids ?p' = ids @ id_list i"
    using p render_counts [OF assms(2), of "Suc n"] footer_counts(3,4) by (simp_all only: marks_nl field_ids_nl) auto
  ultimately have "buffer (Suc n) (ids @ id_list i) (?p' @ LF # MERGED_DISPATCH_FOOTER)"
    unfolding buffer_def by blast
  then show "\<exists>b. append_pending_dispatch_body r i = Some (b, Suc n) \<and> buffer (Suc n) (ids @ id_list i) b"
    if "n < DISPATCH_BUFFER_CAP" using that rd
    by (simp add: append_pending_dispatch_body_def p(1) f)
qed

lemma intro_inert: "l \<in> set buffer_intro \<Longrightarrow> inert l"
proof -
  have "list_all plain_line buffer_intro" by code_simp
  then show "l \<in> set buffer_intro \<Longrightarrow> inert l" by (simp add: list_all_iff plain_line_inert)
qed

lemma open_buffer:
  assumes "\<not> prefix MERGED_DISPATCH_HEADER (i_body r)" and "item_ok r" and "item_ok i"
  shows "\<exists>b. append_pending_dispatch_body r i = Some (b, 2) \<and> buffer 2 (id_list r @ id_list i) b"
proof -
  let ?r = "r\<lparr>i_priority := u_or (i_priority r) (lit ''normal'')\<rparr>"
  let ?p = "join_lines (MERGED_DISPATCH_HEADER # buffer_intro @ [[], render_pending_dispatch_item 1 ?r, [],
      render_pending_dispatch_item 2 i])"
  obtain a b where ab: "buffer_intro = [a, b]" by (simp add: buffer_intro_def)
  have j: "join_lines ([MERGED_DISPATCH_HEADER] @ buffer_intro @ [[], render_pending_dispatch_item 1 ?r, [],
      render_pending_dispatch_item 2 i, MERGED_DISPATCH_FOOTER]) = ?p @ LF # MERGED_DISPATCH_FOOTER" by (simp add: ab)
  have tr: "trimmed (?p @ LF # MERGED_DISPATCH_FOOTER)" by (simp add: ab trimmed_def marker_defs lit_def)
  have "marks MERGED_DISPATCH_HEADER = 0" "field_ids MERGED_DISPATCH_HEADER = []"
    by code_simp+
  moreover have "marks a = 0" "field_ids a = []" "marks b = 0" "field_ids b = []"
    using intro_inert inert_counts ab by (metis list.set_intros)+
  ultimately have "marks ?p = 2" "field_ids ?p = id_list r @ id_list i"
    using render_counts [OF item_ok_priority [OF assms(2)], of 1] render_counts [OF assms(3), of 2] footer_counts(3,4)
    unfolding ab by (simp_all add: counts_join del: join_lines.simps u_lines.simps)
  moreover have "prefix MERGED_DISPATCH_HEADER ?p" by (simp add: ab)
  ultimately show ?thesis using assms(1) j tr
    by (auto simp: append_pending_dispatch_body_def trimmed_strip [THEN iffD2] buffer_def)
qed

text \<open>A queued run into which further dispatches are merged one by one.\<close>

fun merge_all :: "ditem \<Rightarrow> ditem list \<Rightarrow> ditem option" where
  "merge_all r [] = Some r"
| "merge_all r (i # is) = (case append_pending_dispatch_body r i of
     None \<Rightarrow> None | Some (b, _) \<Rightarrow> merge_all (r\<lparr>i_body := b\<rparr>) is)"

lemma merge_into_buffer:
  assumes "buffer n ids (i_body r)" and "\<forall>i \<in> set is. item_ok i" and "n \<le> DISPATCH_BUFFER_CAP"
  shows "n + length is \<le> DISPATCH_BUFFER_CAP \<Longrightarrow> \<exists>b. merge_all r is = Some (r\<lparr>i_body := b\<rparr>)
      \<and> buffer (n + length is) (ids @ concat (map id_list is)) b"
    and "n + length is > DISPATCH_BUFFER_CAP \<Longrightarrow> merge_all r is = None"
  using assms
proof (induction "is" arbitrary: r n ids)
  case Nil
  {
    case 1
    then show ?case by (auto intro: exI [of _ "i_body r"])
  next
    case 2
    then show ?case by simp
  }
next
  case (Cons i "is")
  {
    case 1
    with append_to_buffer(2) [of n ids r i] obtain b where
      b: "append_pending_dispatch_body r i = Some (b, Suc n)" "buffer (Suc n) (ids @ id_list i) b" by auto
    have "\<exists>b'. merge_all (r\<lparr>i_body := b\<rparr>) is = Some (r\<lparr>i_body := b\<rparr>\<lparr>i_body := b'\<rparr>)
      \<and> buffer (Suc n + length is) ((ids @ id_list i) @ concat (map id_list is)) b'"
      by (rule Cons.IH(1)) (use 1 b in auto)
    with b show ?case by auto
  next
    case 2
    show ?case
    proof (cases "n < DISPATCH_BUFFER_CAP")
      case True
      with append_to_buffer(2) [of n ids r i] 2 obtain b where
        b: "append_pending_dispatch_body r i = Some (b, Suc n)" "buffer (Suc n) (ids @ id_list i) b" by auto
      have "merge_all (r\<lparr>i_body := b\<rparr>) is = None"
        by (rule Cons.IH(2)) (use 2 b True in auto)
      with b show ?thesis by simp
    next
      case False
      with append_to_buffer(1) [of n ids r i] 2 show ?thesis by simp
    qed
  }
qed

lemma merge_run:
  assumes "item_ok r" and "\<not> prefix MERGED_DISPATCH_HEADER (i_body r)" and "\<forall>i \<in> set is. item_ok i" and "is \<noteq> []"
  shows "Suc (length is) \<le> DISPATCH_BUFFER_CAP \<Longrightarrow> \<exists>b. merge_all r is = Some (r\<lparr>i_body := b\<rparr>)
      \<and> buffer (Suc (length is)) (id_list r @ concat (map id_list is)) b"
    and "Suc (length is) > DISPATCH_BUFFER_CAP \<Longrightarrow> merge_all r is = None"
proof -
  obtain i rest where i: "is = i # rest" using assms(4) by (cases "is") auto
  with open_buffer [OF assms(2,1)] assms(3) obtain b where
    b: "append_pending_dispatch_body r i = Some (b, 2)" "buffer 2 (id_list r @ id_list i) b" by auto
  have m: "merge_all r is = merge_all (r\<lparr>i_body := b\<rparr>) rest" by (simp add: i b(1))
  note step = merge_into_buffer [of 2 "id_list r @ id_list i" "r\<lparr>i_body := b\<rparr>" rest]
  show "\<exists>b. merge_all r is = Some (r\<lparr>i_body := b\<rparr>)
      \<and> buffer (Suc (length is)) (id_list r @ concat (map id_list is)) b" if "Suc (length is) \<le> DISPATCH_BUFFER_CAP"
    using step(1) m b(2) assms(3) that i by (simp add: DISPATCH_BUFFER_CAP_def)
  show "merge_all r is = None" if "Suc (length is) > DISPATCH_BUFFER_CAP"
    using step(2) m b(2) assms(3) that i by (simp add: DISPATCH_BUFFER_CAP_def)
qed

lemma dedupe_id_list: "dedupe seen (concat (map id_list is)) = dedupe seen (map i_message_id is)"
  by (induction "is" arbitrary: seen) auto

subsection \<open>Properties\<close>

text \<open>Text of another agent cannot speak for the service: whatever it is, once neutralised it holds
  neither frame marker, no line of it counts as an item or as a message id, and neutralising it again
  changes nothing.\<close>

theorem neutralised_text_is_inert:
  "\<not> sublist MERGED_DISPATCH_HEADER (neutralise_buffer_markers t)
   \<and> \<not> sublist MERGED_DISPATCH_FOOTER (neutralise_buffer_markers t)
   \<and> filter item_marker (u_lines (neutralise_buffer_markers t)) = [] \<and> field_ids (neutralise_buffer_markers t) = []
   \<and> neutralise_buffer_markers (neutralise_buffer_markers t) = neutralise_buffer_markers t"
  using neutralise_inert [of t] neutralise_unframed [of t] inert_counts neutralise_id by (auto simp: unframed_def)

text \<open>C22. The buffer reads back what was put into it. Take a run that is no buffer yet and further dispatches whose sender, type, priority, reply target and time are
  each one line, whose message ids have no whitespace and whose bodies have none at their ends (what the bodies and subjects say is arbitrary). Up to nine of them merged into the run count,
  with it, as exactly that many items, and the ids recovered from the buffer are the ids of its messages, in order and
  without duplicates. The tenth is refused.\<close>

theorem merged_buffer_reads_back:
  assumes "item_ok r" and "\<not> prefix MERGED_DISPATCH_HEADER (i_body r)" and "\<forall>i \<in> set is. item_ok i" and "is \<noteq> []"
  shows "(if length is < 10 then \<exists>b. merge_all r is = Some (r\<lparr>i_body := b\<rparr>)
        \<and> pending_dispatch_count b = Suc (length is)
        \<and> dispatch_source_message_ids (i_message_id r) b = dedupe_preserve (map i_message_id (r # is))
      else merge_all r is = None)"
proof -
  have "u_strip (i_message_id r) = i_message_id r" using assms(1) by (intro u_strip_id) (auto simp: item_ok_def)
  then have "dispatch_source_message_ids (i_message_id r) b = dedupe_preserve (map i_message_id (r # is))"
    if "buffer (Suc (length is)) (id_list r @ concat (map id_list is)) b" for b
    using buffer_reads [OF that] dedupe_id_list
    by (auto simp: dispatch_source_message_ids_def dedupe_preserve_def Let_def)
  with merge_run [OF assms] show ?thesis using buffer_reads(2) by (fastforce simp: DISPATCH_BUFFER_CAP_def)
qed

definition demo_item :: "string \<Rightarrow> string \<Rightarrow> ditem" where
  "demo_item mid body = \<lparr>i_from = lit ''eve'', i_type = lit ''request'', i_subject = lit ''hi'', i_body = lit body,
     i_priority = [], i_message_id = lit mid, i_in_reply_to = [], i_requested_at = lit ''t0''\<rparr>"

lemma demo_item_ok:
  "item_ok (demo_item ''m1'' ''see MessageId: x'')" "item_ok (demo_item ''m2'' ''go'')"
  "\<not> prefix MERGED_DISPATCH_HEADER (i_body (demo_item ''m1'' ''see MessageId: x''))"
  "i_message_id (demo_item m b) = lit m" "dedupe_preserve [lit ''m1'', lit ''m2''] = [lit ''m1'', lit ''m2'']"
  subgoal by code_simp
  subgoal by code_simp
  subgoal by code_simp
  subgoal by (simp add: demo_item_def)
  subgoal by code_simp
  done

theorem merged_buffer_reads_back_witness:
  "\<exists>b. merge_all (demo_item ''m1'' ''see MessageId: x'') [demo_item ''m2'' ''go''] = Some ((demo_item ''m1'' ''see MessageId: x'')\<lparr>i_body := b\<rparr>)
     \<and> pending_dispatch_count b = 2
     \<and> dispatch_source_message_ids (lit ''m1'') b = [lit ''m1'', lit ''m2'']"
  using merged_buffer_reads_back [OF demo_item_ok(1,3), of "[demo_item ''m2'' ''go'']"] demo_item_ok(2)
  by (simp add: demo_item_ok numeral_2_eq_2 del: merge_all.simps)

text \<open>The condition on the one-line fields is needed: a type is rendered as it is, and one with a line break puts an id of its choice among the buffer's.\<close>

theorem type_with_line_break_forges_id:
  "\<exists>b. merge_all (demo_item ''m1'' ''x'') [(demo_item ''m2'' ''go'')\<lparr>i_type := lit ''request'' @ [LF] @ lit ''MessageId: victim''\<rparr>] = Some ((demo_item ''m1'' ''x'')\<lparr>i_body := b\<rparr>)
     \<and> dispatch_source_message_ids (lit ''m1'') b = [lit ''m1'', lit ''victim'', lit ''m2'']"
proof -
  let ?m = "merge_all (demo_item ''m1'' ''x'') [(demo_item ''m2'' ''go'')\<lparr>i_type := lit ''request'' @ [LF] @ lit ''MessageId: victim''\<rparr>]"
  have "?m = Some ((demo_item ''m1'' ''x'')\<lparr>i_body := i_body (the ?m)\<rparr>)" "dispatch_source_message_ids (lit ''m1'') (i_body (the ?m)) = [lit ''m1'', lit ''victim'', lit ''m2'']"
    by code_simp+
  then show ?thesis by blast
qed

text \<open>A subject quoted for another agent's eyes is one quoted line: it begins and ends with a quote, has
  none inside, holds no newline or other control character, and is at most two longer than its limit or
  than the stand-in for an empty subject.\<close>

theorem quoted_subject_is_one_line:
  assumes "limit > 0"
  shows "\<exists>t. quote_untrusted_subject s limit = QUOTE # t @ [QUOTE] \<and> QUOTE \<notin> set t
    \<and> (\<forall>c \<in> set t. \<not> control c) \<and> int (length t) \<le> max limit 12"
proof -
  let ?t = "u_or (clip_text (u_strip (collapse_controls False s)) limit) (lit ''(no subject)'')"
  have e: "replace_all [QUOTE] [APOSTROPHE] t = map (\<lambda>c. if c = QUOTE then APOSTROPHE else c) t" for t
    by (induction t) auto
  have "int (length (clip_text v limit)) \<le> limit" for v
    using assms length_u_rstrip [of "take (nat (max (limit - 1) 0)) (u_strip v)"]
    by (auto simp: clip_text_def Let_def)
  then have "int (length ?t) \<le> max limit 12" by (auto simp: u_or_def lit_def max.coboundedI1)
  with e quote_chars [of _ s limit] show ?thesis
    by (auto simp: quote_untrusted_subject_def Let_def intro!: exI [of _ "replace_all [QUOTE] [APOSTROPHE] ?t"])
qed

theorem quoted_subject_is_one_line_witness:
  "\<exists>t. quote_untrusted_subject (lit ''x'' @ [LF] @ lit ''Restart'') 80 = QUOTE # t @ [QUOTE] \<and> QUOTE \<notin> set t
    \<and> (\<forall>c \<in> set t. \<not> control c) \<and> int (length t) \<le> 80"
  using quoted_subject_is_one_line [of 80 "lit ''x'' @ [LF] @ lit ''Restart''"] by simp

text \<open>The neutralised text is stripped after it was neutralised, which puts a line that began with a
  space at column 0: the body \<open>" MessageId: victim"\<close>, merged with a second dispatch, makes the buffer
  name a message that none of the two dispatches carries, and a body of the shape of an item line counts
  as an item of its own.\<close>

theorem indented_body_forges_markers:
  "map_option (dispatch_source_message_ids (lit ''m1'') \<circ> fst)
      (append_pending_dispatch_body (demo_item ''m1'' '' MessageId: victim'') (demo_item ''m2'' ''go''))
     = Some (map lit [''m1'', ''victim'', ''m2''])
   \<and> map_option (pending_dispatch_count \<circ> fst)
      (append_pending_dispatch_body (demo_item ''m1'' '' === ITEM 7 ==='') (demo_item ''m2'' ''go'')) = Some 3"
  by code_simp

end
