(* ===== verification/Runtime.thy ===== *)
theory Runtime
  imports Json
begin

text \<open>
  Which runtime an agent has and how work reaches it: \<open>service/api_core/runtime.py\<close>, the capability
  predicates of \<open>service/api_core/capabilities.py\<close>, \<open>service/api_core/execution_mode.py\<close>, the channel sets of
  \<open>service/api_core/channel_delivery.py\<close>, the adapters of \<open>service/runtimes/\<close> and the machine identities of
  \<open>service/api_core/serialization.py\<close>.

  The words come from \<open>service/contracts/vocabulary.json\<close>. A refusal of \<open>_agent_execution_mode\<close> is a constructor per
  return statement; the texts shown to an operator are not modelled.
\<close>

subsection \<open>Vocabulary\<close>

definition RUNTIME_ALIASES :: "(string \<times> string) list" where
  "RUNTIME_ALIASES = [(''claude'', ''claude-code''), (''claude-code'', ''claude-code''), (''claude_code'', ''claude-code''),
     (''codex'', ''codex''), (''hermes'', ''hermes''), (''hermes-agent'', ''hermes''), (''hermes_agent'', ''hermes''),
     (''oh-my-pi'', ''pi''), (''oh_my_pi'', ''pi''), (''opencode'', ''opencode''), (''omp'', ''pi''), (''pi'', ''pi''),
     (''pi-agent'', ''pi''), (''pi_agent'', ''pi''), (''generic'', ''generic'')]"

definition LAUNCHABLE_RUNTIMES :: "string list" where
  "LAUNCHABLE_RUNTIMES = [''claude-code'', ''codex'', ''hermes'', ''opencode'', ''pi'']"

definition SESSION_MODES :: "string list" where
  "SESSION_MODES = [''resident'', ''managed'']"

definition or_else :: "string \<Rightarrow> string \<Rightarrow> string" where
  "or_else s d = (if s = [] then d else s)"

definition normalize_runtime :: "string \<Rightarrow> string" where
  "normalize_runtime runtime =
     (let key = norm_word (or_else runtime ''generic'') in
      case map_of RUNTIME_ALIASES key of Some r \<Rightarrow> r | None \<Rightarrow> or_else key ''generic'')"

definition normalize_session_mode :: "string \<Rightarrow> string" where
  "normalize_session_mode mode =
     (let value = norm_word (or_else mode ''resident'') in if value \<in> set SESSION_MODES then value else ''resident'')"

definition normalize_launch_mode :: "string \<Rightarrow> string" where
  "normalize_launch_mode mode = or_else (norm_word (or_else mode ''detached'')) ''detached''"

definition STOP_MARKERS :: "(string \<times> string) list" where
  "STOP_MARKERS = [(''status'', ''stopped''), (''agentStatus'', ''stopped''), (''launchMode'', ''none'')]"

text \<open>The first field of a request that carries a stop marker, if any.\<close>

fun stop_marker_refusal :: "(string \<times> string option) list \<Rightarrow> string option" where
  "stop_marker_refusal [] = None"
| "stop_marker_refusal ((field, value) # fs) =
     (if value \<noteq> None \<and> Some (norm_word (the value)) = map_of STOP_MARKERS field then Some field
      else stop_marker_refusal fs)"

subsection \<open>Adapters\<close>

record adapter =
  ad_name :: string
  ad_resident :: bool
  ad_managed :: bool
  ad_steering :: bool
  ad_interrupt :: bool
  ad_delivery :: string

definition ClaudeAdapter :: adapter where
  "ClaudeAdapter = \<lparr>ad_name = ''claude-code'', ad_resident = True, ad_managed = True, ad_steering = True,
     ad_interrupt = True, ad_delivery = ''managed-via-wrapper''\<rparr>"

definition CodexAdapter :: adapter where
  "CodexAdapter = \<lparr>ad_name = ''codex'', ad_resident = True, ad_managed = True, ad_steering = True,
     ad_interrupt = True, ad_delivery = ''managed-via-wrapper''\<rparr>"

definition HermesAdapter :: adapter where
  "HermesAdapter = \<lparr>ad_name = ''hermes'', ad_resident = True, ad_managed = True, ad_steering = True,
     ad_interrupt = True, ad_delivery = ''managed-via-wrapper''\<rparr>"

definition OpencodeAdapter :: adapter where
  "OpencodeAdapter = \<lparr>ad_name = ''opencode'', ad_resident = False, ad_managed = True, ad_steering = True,
     ad_interrupt = True, ad_delivery = ''managed''\<rparr>"

definition PiAdapter :: adapter where
  "PiAdapter = \<lparr>ad_name = ''pi'', ad_resident = False, ad_managed = True, ad_steering = True,
     ad_interrupt = True, ad_delivery = ''managed''\<rparr>"

definition REGISTRY :: "(string \<times> adapter) list" where
  "REGISTRY = [(''claude-code'', ClaudeAdapter), (''codex'', CodexAdapter), (''hermes'', HermesAdapter),
     (''pi'', PiAdapter), (''opencode'', OpencodeAdapter)]"

definition ALIASES :: "(string \<times> string) list" where
  "ALIASES = [(''claude'', ''claude-code''), (''claude_code'', ''claude-code''), (''hermes-agent'', ''hermes''),
     (''hermes_agent'', ''hermes''), (''oh-my-pi'', ''pi''), (''oh_my_pi'', ''pi''), (''omp'', ''pi''),
     (''pi-agent'', ''pi''), (''pi_agent'', ''pi'')]"

text \<open>\<open>None\<close> is the \<open>ValueError\<close> of a runtime no adapter knows.\<close>

definition adapter_for :: "string \<Rightarrow> adapter option" where
  "adapter_for name =
     (let key = norm_word name; canonical = (case map_of ALIASES key of Some c \<Rightarrow> c | None \<Rightarrow> key) in map_of REGISTRY canonical)"

definition starts_with :: "string \<Rightarrow> string \<Rightarrow> bool" where
  "starts_with p s = (take (length p) s = p)"

definition ws_url :: "string \<Rightarrow> bool" where
  "ws_url s = (starts_with ''ws://'' s \<or> starts_with ''wss://'' s)"

definition has_hermes_gateway_url :: "json \<Rightarrow> bool" where
  "has_hermes_gateway_url rc = ws_url (norm_word (jtext (jget rc ''gatewayUrl'')))"

definition has_codex_live_app_server :: "json \<Rightarrow> bool" where
  "has_codex_live_app_server rc = ws_url (norm_word (jtext (jget rc ''appServerUrl'')))"

text \<open>The per-runtime overrides of \<open>is_resident_ready\<close>. An empty configuration is falsy.\<close>

definition is_resident_ready :: "adapter \<Rightarrow> json \<Rightarrow> bool" where
  "is_resident_ready ad rc =
     (if ad_name ad = ''claude-code'' then truthy rc \<and> jget rc ''channelEnabled'' = JBool True
      else if ad_name ad = ''hermes'' then truthy rc \<and> ws_url (py_lower (py_strip (jtext (jget rc ''gatewayUrl''))))
      else ad_resident ad)"

definition default_capabilities_for :: "string \<Rightarrow> string \<Rightarrow> json \<Rightarrow> string list" where
  "default_capabilities_for runtime session_mode rc =
     (let runtime_n = normalize_runtime runtime; mode = normalize_session_mode session_mode in
      case adapter_for runtime_n of
        None \<Rightarrow> []
      | Some ad \<Rightarrow>
          (if mode = ''resident'' then (if ad_resident ad \<and> is_resident_ready ad rc then [''resident-run''] else [])
           else if ad_managed ad then [''managed-run''] else [])
        @ (if ad_resident ad \<or> ad_managed ad then [''resume''] else [])
        @ (if ad_interrupt ad then [''interrupt''] else [])
        @ (if ad_steering ad \<and> \<not> (runtime_n = ''hermes'' \<and> mode = ''managed'' \<and> \<not> truthy (jget rc ''channelEnabled''))
           then [''steer''] else [])
        @ (if mode \<noteq> ''resident'' \<and> ad_managed ad then [''spawn''] else []))"

subsection \<open>What an agent row can do\<close>

record agent_row =
  ag_id :: string
  ag_runtime :: string
  ag_session_mode :: string
  ag_session_handle :: string
  ag_launch_mode :: string
  ag_capabilities :: "string list"
  ag_config :: json

definition without :: "string list \<Rightarrow> string list \<Rightarrow> string list" where
  "without cs caps = filter (\<lambda>c. c \<notin> set cs) caps"

text \<open>\<open>for cap in cs: if cap not in capabilities: capabilities = [*capabilities, cap]\<close>.\<close>

definition with_caps :: "string list \<Rightarrow> string list \<Rightarrow> string list" where
  "with_caps cs caps = fold (\<lambda>c acc. if c \<in> set acc then acc else acc @ [c]) cs caps"

definition RESIDENT_CAPS :: "string list" where
  "RESIDENT_CAPS = [''resident-run'', ''interrupt'', ''steer'']"

definition row_capabilities :: "agent_row \<Rightarrow> string list" where
  "row_capabilities a =
     (let caps = ag_capabilities a; runtime = normalize_runtime (ag_runtime a);
          mode = normalize_session_mode (ag_session_mode a); rc = ag_config a in
      if runtime = ''pi'' then
        (if mode = ''resident'' then without RESIDENT_CAPS caps
         else with_caps [''managed-run'', ''resume'', ''interrupt'', ''steer'', ''spawn''] caps)
      else if runtime = ''opencode'' \<and> mode = ''resident'' then without RESIDENT_CAPS caps
      else if runtime = ''hermes'' then
        (if mode = ''managed'' then
           (if truthy (jget rc ''channelEnabled'')
            then with_caps [''managed-run'', ''resume'', ''interrupt'', ''spawn'', ''steer''] caps
            else with_caps [''managed-run'', ''resume'', ''interrupt'', ''spawn''] (without [''steer''] caps))
         else if has_hermes_gateway_url rc then with_caps [''resident-run'', ''resume'', ''interrupt'', ''steer''] caps
         else without RESIDENT_CAPS caps)
      else if runtime = ''claude-code'' \<and> mode = ''resident'' then
        (if jget rc ''channelEnabled'' \<noteq> JBool True then without RESIDENT_CAPS caps else with_caps RESIDENT_CAPS caps)
      else caps)"

subsection \<open>How a dispatch reaches it\<close>

definition CHANNEL_MANAGED_RUNTIMES :: "string list" where "CHANNEL_MANAGED_RUNTIMES = [''claude-code'']"
definition CHANNEL_FLAG_GATED_RUNTIMES :: "string list" where "CHANNEL_FLAG_GATED_RUNTIMES = [''hermes'']"
definition CHANNEL_CLAIM_RUNTIMES :: "string list" where
  "CHANNEL_CLAIM_RUNTIMES = CHANNEL_MANAGED_RUNTIMES @ [''codex'', ''hermes'']"

definition channel_flag_enabled :: "json \<Rightarrow> bool" where
  "channel_flag_enabled rc = truthy (jget rc ''channelEnabled'')"

definition channel_managed_eligible :: "string \<Rightarrow> json \<Rightarrow> bool" where
  "channel_managed_eligible runtime rc =
     (let r = normalize_runtime runtime in
      if r \<in> set CHANNEL_MANAGED_RUNTIMES \<or> r \<in> set CHANNEL_FLAG_GATED_RUNTIMES then channel_flag_enabled rc else False)"

text \<open>The setting \<open>managed_via_wrapper\<close>: a flag for all runtimes, a list of them, or anything else.\<close>

datatype wrapper_setting = WFlag bool | WList "string list" | WOther

definition managed_via_wrapper_for_runtime :: "wrapper_setting \<Rightarrow> string \<Rightarrow> bool" where
  "managed_via_wrapper_for_runtime val runtime =
     (let r = normalize_runtime runtime in
      if r = ''claude-code'' \<or> r = ''pi'' then False
      else (case adapter_for r of
        None \<Rightarrow> False
      | Some ad \<Rightarrow>
          if ad_delivery ad \<noteq> ''managed-via-wrapper'' then False
          else (case val of WFlag b \<Rightarrow> b | WList items \<Rightarrow> r \<in> norm_word ` set (filter (\<lambda>i. i \<noteq> []) items) | WOther \<Rightarrow> False)))"

datatype refusal = Runtime_Mismatch | Not_Launchable | Launch_Disabled | No_Managed_Run | Pi_Presence | Opencode_Presence
  | Claude_No_Channel | Codex_No_App_Server | Hermes_No_Gateway | No_Resident_Run | Codex_No_Handle | Hermes_No_Handle

definition missing_resident_run :: "string \<Rightarrow> json \<Rightarrow> refusal" where
  "missing_resident_run runtime rc =
     (if runtime = ''claude-code'' \<and> \<not> truthy (jget rc ''channelEnabled'') then Claude_No_Channel
      else if runtime = ''codex'' \<and> \<not> has_codex_live_app_server rc then Codex_No_App_Server
      else if runtime = ''hermes'' \<and> \<not> ws_url (py_strip (jtext (jget rc ''gatewayUrl''))) then Hermes_No_Gateway
      else No_Resident_Run)"

definition agent_execution_mode :: "agent_row \<Rightarrow> string \<Rightarrow> wrapper_setting option \<Rightarrow> refusal + string" where
  "agent_execution_mode a requested_runtime settings =
     (let runtime = normalize_runtime (ag_runtime a); mode = normalize_session_mode (ag_session_mode a);
          handle = py_strip (ag_session_handle a); rc = ag_config a; caps = row_capabilities a;
          disabled = (normalize_launch_mode (ag_launch_mode a) = ''none'') in
      if requested_runtime \<noteq> [] \<and> normalize_runtime requested_runtime \<noteq> runtime then Inl Runtime_Mismatch
      else if runtime \<notin> set LAUNCHABLE_RUNTIMES then Inl Not_Launchable
      else if mode = ''managed'' then
        (if disabled then Inl Launch_Disabled
         else if settings \<noteq> None \<and> managed_via_wrapper_for_runtime (the settings) runtime then Inr ''channel''
         else if caps \<noteq> [] \<and> ''managed-run'' \<notin> set caps \<and> \<not> channel_managed_eligible runtime rc then Inl No_Managed_Run
         else if runtime \<in> set CHANNEL_MANAGED_RUNTIMES then Inr ''channel''
         else if runtime \<in> set CHANNEL_FLAG_GATED_RUNTIMES \<and> channel_managed_eligible runtime rc then Inr ''channel''
         else Inr ''managed'')
      else if runtime = ''pi'' then Inl Pi_Presence
      else if runtime = ''opencode'' then Inl Opencode_Presence
      else if ''resident-run'' \<notin> set caps then Inl (missing_resident_run runtime rc)
      else if runtime = ''codex'' \<and> handle = [] then Inl Codex_No_Handle
      else if runtime = ''hermes'' \<and> handle = [] \<and> \<not> ws_url (py_strip (jtext (jget rc ''gatewayUrl''))) then Inl Hermes_No_Handle
      else if disabled then Inl Launch_Disabled
      else Inr ''resident'')"

subsection \<open>Machine identities\<close>

definition normalize_machine_id :: "string \<Rightarrow> string" where
  "normalize_machine_id machine_id = norm_word machine_id"

text \<open>\<open>s.partition(":")\<close>: the platform and the host.\<close>

definition platform_of :: "string \<Rightarrow> string" where
  "platform_of s = takeWhile (\<lambda>c. c \<noteq> CHR '':'') s"

definition host_of :: "string \<Rightarrow> string" where
  "host_of s = drop 1 (dropWhile (\<lambda>c. c \<noteq> CHR '':'') s)"

definition fam :: "string \<Rightarrow> string" where
  "fam f = (if f = ''linux'' \<or> starts_with ''wsl'' f then ''linux'' else f)"

definition machine_ids_same_host :: "string \<Rightarrow> string \<Rightarrow> bool" where
  "machine_ids_same_host a b =
     (let na = normalize_machine_id a; nb = normalize_machine_id b in
      if na = nb then True
      else if na = [] \<or> nb = [] then False
      else if host_of na = [] \<or> host_of na \<noteq> host_of nb then False
      else fam (platform_of na) = fam (platform_of nb))"

subsection \<open>Normal forms\<close>

lemma dropWhile_idem: "dropWhile P (dropWhile P xs) = dropWhile P xs"
  by (induction xs) auto

lemma hd_strip: "py_strip s \<noteq> [] \<Longrightarrow> \<not> is_space (hd (py_strip s)) \<and> \<not> is_space (last (py_strip s))"
proof -
  let ?l = "dropWhile is_space s"
  assume ne: "py_strip s \<noteq> []"
  have last: "\<not> is_space (last (py_strip s))"
    using ne hd_dropWhile [of is_space "rev ?l"] by (auto simp: py_strip_def py_rstrip_def py_lstrip_def last_rev)
  obtain w where "rev ?l = w @ dropWhile is_space (rev ?l)" by (metis takeWhile_dropWhile_id)
  then have split: "?l = py_strip s @ rev w"
    by (metis py_lstrip_def py_rstrip_def py_strip_def rev_append rev_rev_ident)
  then have "?l \<noteq> []" using ne by simp
  then have "\<not> is_space (hd ?l)" by (rule hd_dropWhile)
  then show ?thesis using split ne last by (metis hd_append2)
qed

definition upper :: "char \<Rightarrow> bool" where
  "upper c = ((65 \<le> (of_char c :: nat) \<and> of_char c \<le> (90 :: nat)) \<or>
     (192 \<le> (of_char c :: nat) \<and> of_char c \<le> (222 :: nat) \<and> of_char c \<noteq> (215 :: nat)))"

lemma lower_char_eq: "lower_char c = (if upper c then char_of ((of_char c :: nat) + 32) else c)"
  by (simp add: lower_char_def upper_def Let_def)

lemma of_lower: "upper c \<Longrightarrow> (of_char (lower_char c) :: nat) = of_char c + 32"
  by (auto simp: lower_char_eq) (auto simp: upper_def)

lemma is_space_lower: "is_space (lower_char c) = is_space c"
proof (cases "upper c")
  case True
  then show ?thesis using of_lower [OF True] by (auto simp: is_space_def Let_def upper_def)
qed (simp add: lower_char_eq)

lemma lower_idem: "lower_char (lower_char c) = lower_char c"
proof (cases "upper c")
  case True
  then have "\<not> upper (lower_char c)" using of_lower [OF True] by (auto simp: upper_def)
  then show ?thesis by (simp add: lower_char_eq [of "lower_char c"])
qed (simp add: lower_char_eq)

lemma strip_id: "s = [] \<or> (\<not> is_space (hd s) \<and> \<not> is_space (last s)) \<Longrightarrow> py_strip s = s"
proof -
  assume "s = [] \<or> (\<not> is_space (hd s) \<and> \<not> is_space (last s))"
  then have "dropWhile is_space s = s" "dropWhile is_space (rev s) = rev s"
    unfolding dropWhile_eq_self_iff by (auto simp: hd_rev)
  then show ?thesis by (simp add: py_strip_def py_rstrip_def py_lstrip_def)
qed

lemma norm_word_idem [simp]: "norm_word (norm_word s) = norm_word s"
proof -
  have "py_strip (py_lower (py_strip s)) = py_lower (py_strip s)"
    using hd_strip [of s] by (cases "py_strip s = []") (auto simp: py_lower_def hd_map last_map is_space_lower intro!: strip_id)
  then show ?thesis by (simp add: norm_word_def py_lower_def lower_idem comp_def)
qed

lemma aliases_normal: "map_of RUNTIME_ALIASES k = Some r \<Longrightarrow> norm_word r = r \<and> map_of RUNTIME_ALIASES r = Some r \<and> r \<noteq> []"
proof -
  have "list_all (\<lambda>(_, r). norm_word r = r \<and> map_of RUNTIME_ALIASES r = Some r \<and> r \<noteq> []) RUNTIME_ALIASES" by code_simp
  then show "map_of RUNTIME_ALIASES k = Some r \<Longrightarrow> norm_word r = r \<and> map_of RUNTIME_ALIASES r = Some r \<and> r \<noteq> []"
    by (auto simp: list_all_iff dest!: map_of_SomeD)
qed

lemma norm_generic: "norm_word ''generic'' = ''generic''" "map_of RUNTIME_ALIASES ''generic'' = Some ''generic''"
  by code_simp+

lemma normalize_runtime_idem: "normalize_runtime (normalize_runtime r) = normalize_runtime r"
proof (cases "map_of RUNTIME_ALIASES (norm_word (or_else r ''generic''))")
  case None
  then show ?thesis
    by (auto simp: normalize_runtime_def or_else_def norm_generic Let_def split: if_splits)
next
  case (Some x)
  with aliases_normal [OF Some] show ?thesis by (simp add: normalize_runtime_def or_else_def Let_def)
qed

subsection \<open>Properties\<close>

text \<open>What identifies a host for routing: its name and its platform family, or the whole identity where it names no
  host.\<close>

definition host_key :: "string \<Rightarrow> string + string \<times> string" where
  "host_key m = (let n = normalize_machine_id m in if host_of n = [] then Inl n else Inr (fam (platform_of n), host_of n))"

text \<open>The tolerant comparison of machine identities is an equivalence: it holds exactly when the two have the same
  routing key, so it is reflexive, symmetric and transitive, it tells platforms other than Linux apart, and
  an identity that names no host matches only itself.\<close>

theorem same_host_is_key_equality: "machine_ids_same_host a b \<longleftrightarrow> host_key a = host_key b"
  by (auto simp: machine_ids_same_host_def host_key_def Let_def) (auto simp: host_of_def)

lemma alias_tables:
  assumes "norm_word k = k" and "k \<noteq> []"
  shows "adapter_for (case map_of RUNTIME_ALIASES k of Some r \<Rightarrow> r | None \<Rightarrow> k) = adapter_for k"
proof (cases "k \<in> fst ` set RUNTIME_ALIASES")
  case True
  have "list_all (\<lambda>(k, r). adapter_for r = adapter_for k) RUNTIME_ALIASES" by code_simp
  moreover obtain r where "map_of RUNTIME_ALIASES k = Some r" using True by (metis map_of_eq_None_iff not_None_eq)
  ultimately show ?thesis by (auto simp: list_all_iff dest!: map_of_SomeD)
next
  case False
  then have "map_of RUNTIME_ALIASES k = None" by (simp add: map_of_eq_None_iff)
  then show ?thesis by simp
qed

text \<open>The two alias tables agree: an adapter is found for a runtime exactly as for its normal form, whatever spelling,
  case or surrounding space a caller used, and normalising again changes nothing.\<close>

theorem adapters_respect_normal_form:
  "adapter_for (normalize_runtime r) = adapter_for r \<and> normalize_runtime (normalize_runtime r) = normalize_runtime r"
proof -
  have e: "adapter_for [] = None" "adapter_for ''generic'' = None" by code_simp+
  have n: "adapter_for (norm_word x) = adapter_for x" for x by (simp add: adapter_for_def)
  show ?thesis
  proof (cases "norm_word r = []")
    case True
    then have "normalize_runtime r = ''generic''" "adapter_for r = None"
      using n [of r] e by (auto simp: normalize_runtime_def or_else_def norm_generic RUNTIME_ALIASES_def Let_def)
    then show ?thesis using e normalize_runtime_idem by metis
  next
    case False
    then have "r \<noteq> []" by auto
    then have "adapter_for (normalize_runtime r) = adapter_for (norm_word r)"
      using alias_tables [of "norm_word r"] False by (auto simp: normalize_runtime_def or_else_def Let_def split: option.splits)
    then show ?thesis using n normalize_runtime_idem by simp
  qed
qed

text \<open>Work is routed only where it can arrive: a mode is chosen only for a launchable runtime whose launch the
  operator did not disable and which is the one asked for; managed sessions are reached by the channel or
  the managed route and resident ones by the resident route, which needs the resident capability and, for codex,
  a session handle.\<close>

theorem execution_mode_is_deliverable:
  assumes "agent_execution_mode a requested settings = Inr mode"
  shows "normalize_launch_mode (ag_launch_mode a) \<noteq> ''none''
    \<and> normalize_runtime (ag_runtime a) \<in> set LAUNCHABLE_RUNTIMES
    \<and> (requested = [] \<or> normalize_runtime requested = normalize_runtime (ag_runtime a))
    \<and> (if normalize_session_mode (ag_session_mode a) = ''managed'' then mode \<in> {''channel'', ''managed''}
       else mode = ''resident'' \<and> ''resident-run'' \<in> set (row_capabilities a)
         \<and> normalize_runtime (ag_runtime a) \<notin> {''pi'', ''opencode''}
         \<and> (normalize_runtime (ag_runtime a) = ''codex'' \<longrightarrow> py_strip (ag_session_handle a) \<noteq> []))"
  using assms by (simp add: agent_execution_mode_def Let_def split: if_splits)

definition demo_codex :: agent_row where
  "demo_codex = \<lparr>ag_id = ''a'', ag_runtime = ''Codex'', ag_session_mode = ''resident'', ag_session_handle = ''t1'',
     ag_launch_mode = ''detached'', ag_capabilities = [''resident-run''], ag_config = JObj []\<rparr>"

theorem execution_mode_is_deliverable_witness:
  "agent_execution_mode demo_codex '' codex'' None = Inr ''resident'' \<and> ''resident-run'' \<in> set (row_capabilities demo_codex)"
proof -
  have m: "agent_execution_mode demo_codex '' codex'' None = Inr ''resident''" by code_simp
  have "normalize_session_mode (ag_session_mode demo_codex) \<noteq> ''managed''" by code_simp
  with execution_mode_is_deliverable [OF m] m show ?thesis by auto
qed

end
