(* ===== verification/DispatchRuns.thy ===== *)
theory DispatchRuns
  imports DispatchText Runtime "HOL-Library.List_Lexorder" "HOL-Library.Char_ord" "HOL-Library.Product_Lexorder"
begin

text \<open>
  The dispatch runs: what a send writes, and every way a run moves on before or instead of being worked.
  \<open>service/api_core/dispatch_runs.py\<close> creates runs, merges a send into a queued one or steers it into an
  active one; \<open>dispatch_state.py\<close> and \<open>active_run_lookup.py\<close> read which run is active; \<open>active_run_discard.py\<close> and
  \<open>recovery_writes.py\<close> fail or requeue a run whose owner is gone; \<open>dispatch_run_state.py\<close> answers, cancels and
  withdraws runs; \<open>claim_gating.py\<close> and \<open>claim_receipt_release.py\<close> write and take back read receipts.

  A table is a list of rows in rowid order, and a NULL timestamp is \<open>None\<close>; other columns treat NULL and the empty
  text alike, as their readers do. \<open>ORDER BY\<close> is a stable sort. New ids come from a counter, standing for the
  clock and the random part that the code takes to be fresh. Of an event the model keeps the run and the
  kind, not the text. Columns that no modelled operation reads (a run's summary, error text, handoff and external ids, and
  of controls and bridges what the records below do not name) are left out. Letters above U+00FF are not folded by \<open>lower()\<close>.
\<close>

declare split_paired_All [simp del] split_paired_Ex [simp del]

subsection \<open>Rows\<close>

record drun =
  r_id :: string
  r_message_id :: ustr
  r_from :: ustr
  r_target :: string
  r_dispatch_mode :: string
  r_execution_mode :: string
  r_requested_runtime :: string
  r_runtime :: string
  r_type :: ustr
  r_subject :: ustr
  r_body :: ustr
  r_priority :: ustr
  r_in_reply_to :: ustr
  r_status :: string
  r_claim_machine :: string
  r_claim_bridge :: string
  r_result :: ustr
  r_require_reply :: bool
  r_queue_if_busy :: bool
  r_steer_if_busy :: bool
  r_requested_at :: ustr
  r_claimed_at :: "ustr option"
  r_started_at :: "ustr option"
  r_finished_at :: "ustr option"

record dcontrol =
  k_id :: string
  k_run :: string
  k_from :: ustr
  k_source :: ustr
  k_action :: string
  k_body :: ustr
  k_status :: string

record bridge =
  br_kind :: string
  br_terminal :: string
  br_superseded_by :: string
  br_last_seen :: ustr
  br_machine :: string
  br_runtime :: string
  br_session_mode :: string
  br_session_handle :: string
  br_started_at :: ustr

record dstate =
  d_runs :: "drun list"
  d_events :: "(string \<times> string) list"
  d_controls :: "dcontrol list"
  d_items :: "(ustr \<times> string) list"
  d_messages :: "ustr list"
  d_receipts :: "((ustr \<times> string) \<times> ustr) list"
  d_bridges :: "((string \<times> string) \<times> bridge) list"
  d_next :: nat

text \<open>What the operations read besides the run tables: the clock, the reader of timestamps (0 for what it cannot
  read), the agent rows, the bridge an agent's runtime state names, the status and the bridge of a managed agent's
  environment if it has one, and the setting \<open>active_run_stale_minutes\<close>.\<close>

record denv =
  e_now :: ustr
  e_clock :: int
  e_epoch :: "ustr \<Rightarrow> int"
  e_agent :: "string \<Rightarrow> agent_row option"
  e_agent_bridge :: "string \<Rightarrow> string"
  e_env :: "string \<Rightarrow> (string \<times> string) option"
  e_stale_minutes :: int

definition run_of :: "string \<Rightarrow> dstate \<Rightarrow> drun option" where
  "run_of i d = find (\<lambda>r. r_id r = i) (d_runs d)"

text \<open>\<open>UPDATE dispatch_runs SET ... WHERE id = ? AND ...\<close>, and how many rows it changed.\<close>

definition update_run :: "string \<Rightarrow> (drun \<Rightarrow> bool) \<Rightarrow> (drun \<Rightarrow> drun) \<Rightarrow> dstate \<Rightarrow> dstate" where
  "update_run i P f d = d\<lparr>d_runs := map (\<lambda>r. if r_id r = i \<and> P r then f r else r) (d_runs d)\<rparr>"

definition rowcount :: "string \<Rightarrow> (drun \<Rightarrow> bool) \<Rightarrow> dstate \<Rightarrow> nat" where
  "rowcount i P d = length (filter (\<lambda>r. r_id r = i \<and> P r) (d_runs d))"

definition append_dispatch_event :: "string \<Rightarrow> string \<Rightarrow> dstate \<Rightarrow> dstate" where
  "append_dispatch_event run kind d = d\<lparr>d_events := d_events d @ [(run, kind)]\<rparr>"

definition events_of_kind :: "string \<Rightarrow> string \<Rightarrow> dstate \<Rightarrow> nat" where
  "events_of_kind run kind d = length (filter (\<lambda>e. e = (run, kind)) (d_events d))"

subsection \<open>Which run is active\<close>

definition is_active :: "drun \<Rightarrow> bool" where
  "is_active r = (r_status r = ''claimed'' \<or> r_status r = ''running'')"

text \<open>\<open>COALESCE(started_at, claimed_at, requested_at)\<close>.\<close>

definition activity_time :: "drun \<Rightarrow> ustr" where
  "activity_time r = (case r_started_at r of Some t \<Rightarrow> t
     | None \<Rightarrow> (case r_claimed_at r of Some t \<Rightarrow> t | None \<Rightarrow> r_requested_at r))"

definition first_by :: "(drun \<Rightarrow> ustr) \<Rightarrow> drun list \<Rightarrow> drun option" where
  "first_by key rs = (case sort_key key rs of [] \<Rightarrow> None | r # _ \<Rightarrow> Some r)"

record dispatch_view =
  dv_active :: "drun option"
  dv_queued :: nat

definition dispatch_state_for_agent :: "string \<Rightarrow> dstate \<Rightarrow> dispatch_view" where
  "dispatch_state_for_agent a d =
     \<lparr>dv_active = first_by activity_time (filter (\<lambda>r. r_target r = a \<and> is_active r) (d_runs d)),
      dv_queued = length (filter (\<lambda>r. r_target r = a \<and> r_status r = ''queued'') (d_runs d))\<rparr>"

text \<open>The many-agent form: one sorted read, the first row per agent kept by \<open>setdefault\<close>, and one grouped
  count.\<close>

fun setdefault :: "(string \<times> drun) list \<Rightarrow> drun \<Rightarrow> (string \<times> drun) list" where
  "setdefault m r = (if map_of m (r_target r) = None then m @ [(r_target r, r)] else m)"

definition queued_counts :: "string list \<Rightarrow> dstate \<Rightarrow> (string \<times> nat) list" where
  "queued_counts agents d =
     (let rs = filter (\<lambda>r. r_target r \<in> set agents \<and> r_status r = ''queued'') (d_runs d) in
      map (\<lambda>a. (a, length (filter (\<lambda>r. r_target r = a) rs))) (remdups (map r_target rs)))"

definition dispatch_state_map :: "string list \<Rightarrow> dstate \<Rightarrow> (string \<times> dispatch_view) list" where
  "dispatch_state_map agents d =
     (if agents = [] then []
      else (let rows = sort_key (\<lambda>r. (r_target r, activity_time r))
                  (filter (\<lambda>r. r_target r \<in> set agents \<and> is_active r) (d_runs d));
                active = foldl setdefault [] rows; queued = queued_counts agents d in
            map (\<lambda>a. (a, \<lparr>dv_active = map_of active a,
              dv_queued = (case map_of queued a of Some n \<Rightarrow> n | None \<Rightarrow> 0)\<rparr>)) agents))"

definition blocking_active_run :: "string \<Rightarrow> string \<Rightarrow> dstate \<Rightarrow> drun option" where
  "blocking_active_run a exclude d = (case dv_active (dispatch_state_for_agent a d) of
     None \<Rightarrow> None
   | Some r \<Rightarrow> if exclude \<noteq> [] \<and> r_id r = exclude then None else Some r)"

definition find_mergeable_queued_run :: "string \<Rightarrow> ustr \<Rightarrow> dstate \<Rightarrow> drun option" where
  "find_mergeable_queued_run recipient sender d =
     first_by r_requested_at (filter (\<lambda>r. r_target r = recipient \<and> r_from r = sender \<and> r_status r = ''queued'') (d_runs d))"

subsection \<open>Controls\<close>

definition append_dispatch_control :: "string \<Rightarrow> ustr \<Rightarrow> string \<Rightarrow> ustr \<Rightarrow> ustr \<Rightarrow> dstate \<Rightarrow> string \<times> dstate" where
  "append_dispatch_control run sender action body source d =
     (let cid = ''ctl_'' @ nat_str (d_next d);
          c = \<lparr>k_id = cid, k_run = run, k_from = sender, k_source = source, k_action = action, k_body = body,
               k_status = ''pending''\<rparr> in
      (cid, append_dispatch_event run (''control:'' @ action) (d\<lparr>d_controls := d_controls d @ [c], d_next := Suc (d_next d)\<rparr>)))"

definition open_control :: "dcontrol \<Rightarrow> bool" where
  "open_control c = (k_status c = ''pending'' \<or> k_status c = ''claimed'')"

definition fail_pending_controls_for_run :: "string \<Rightarrow> dstate \<Rightarrow> dstate" where
  "fail_pending_controls_for_run run d =
     (let cs = filter (\<lambda>c. k_run c = run \<and> open_control c) (d_controls d) in
      d\<lparr>d_controls := map (\<lambda>c. if k_run c = run \<and> open_control c then c\<lparr>k_status := ''failed''\<rparr> else c) (d_controls d),
        d_events := d_events d @ map (\<lambda>c. (run, ''control:'' @ k_action c @ '':failed'')) cs\<rparr>)"

subsection \<open>Read receipts of a claim\<close>

definition run_source_ids :: "drun \<Rightarrow> ustr list" where
  "run_source_ids r = dispatch_source_message_ids (r_message_id r) (r_body r)"

text \<open>\<open>INSERT OR IGNORE\<close>: a receipt that is there keeps its time.\<close>

fun insert_receipts :: "ustr list \<Rightarrow> string \<Rightarrow> ustr \<Rightarrow> ((ustr \<times> string) \<times> ustr) list \<Rightarrow> nat \<times> ((ustr \<times> string) \<times> ustr) list" where
  "insert_receipts [] agent at rs = (0, rs)"
| "insert_receipts (m # ms) agent at rs =
     (if map_of rs (m, agent) = None then (let (n, rs') = insert_receipts ms agent at (rs @ [((m, agent), at)]) in (Suc n, rs'))
      else insert_receipts ms agent at rs)"

definition mark_dispatch_source_messages_read :: "drun \<Rightarrow> string \<Rightarrow> ustr \<Rightarrow> dstate \<Rightarrow> nat \<times> dstate" where
  "mark_dispatch_source_messages_read r agent read_at d =
     (let (n, rs) = insert_receipts (filter (\<lambda>m. m \<in> set (d_messages d)) (run_source_ids r)) agent read_at (d_receipts d)
      in (n, d\<lparr>d_receipts := rs\<rparr>))"

definition release_claim_receipts :: "drun \<Rightarrow> dstate \<Rightarrow> nat \<times> dstate" where
  "release_claim_receipts r d =
     (let target = py_strip (r_target r); stamp = u_strip (case r_claimed_at r of Some t \<Rightarrow> t | None \<Rightarrow> []);
          ids = run_source_ids r; gone = (\<lambda>((m, a), t). a = target \<and> t = stamp \<and> m \<in> set ids) in
      if target = [] \<or> stamp = [] \<or> ids = [] then (0, d)
      else (length (filter gone (d_receipts d)), d\<lparr>d_receipts := filter (\<lambda>x. \<not> gone x) (d_receipts d)\<rparr>))"

subsection \<open>Giving up on an active run\<close>

definition UNDELIVERED_CLAIM_REQUEUE_LIMIT :: nat where "UNDELIVERED_CLAIM_REQUEUE_LIMIT = 3"
definition ACTIVE_RUN_BRIDGE_STALE_SECONDS :: int where "ACTIVE_RUN_BRIDGE_STALE_SECONDS = 120"

definition requeue_instead_of_failing_undelivered_claim :: "string \<Rightarrow> dstate \<Rightarrow> dstate option" where
  "requeue_instead_of_failing_undelivered_claim i d = (case run_of i d of
     None \<Rightarrow> None
   | Some r \<Rightarrow>
       if norm_word (r_status r) \<noteq> ''claimed'' then None
       else if events_of_kind i ''delivered'' d > 0 then None
       else if events_of_kind i ''requeued_orphaned_claim'' d \<ge> UNDELIVERED_CLAIM_REQUEUE_LIMIT then None
       else (let P = (\<lambda>r. r_status r = ''claimed'');
                 d1 = update_run i P (\<lambda>r. r\<lparr>r_status := ''queued'', r_claim_bridge := [], r_claim_machine := [],
                        r_claimed_at := Some []\<rparr>) d;
                 d2 = (if rowcount i P d > 0 then snd (release_claim_receipts r d1) else d1) in
             Some (append_dispatch_event i ''requeued_orphaned_claim'' d2)))"

definition fail_run :: "ustr \<Rightarrow> string \<Rightarrow> dstate \<Rightarrow> dstate" where
  "fail_run at i d = update_run i (\<lambda>_. True) (\<lambda>r. r\<lparr>r_status := ''failed'', r_finished_at := Some at\<rparr>) d"

definition discard_superseded_active_run :: "denv \<Rightarrow> string \<Rightarrow> drun \<Rightarrow> dstate \<Rightarrow> dstate option" where
  "discard_superseded_active_run e a r d =
     (let owner = py_strip (r_claim_bridge r) in
      if owner = [] then None
      else (case map_of (d_bridges d) (owner, a) of
        None \<Rightarrow> None
      | Some b \<Rightarrow>
          if py_strip (br_superseded_by b) = [] then None
          else Some (fail_pending_controls_for_run (r_id r)
            (append_dispatch_event (r_id r) ''auto_heal'' (fail_run (e_now e) (r_id r) d)))))"

definition fail_stale_active_run :: "denv \<Rightarrow> drun \<Rightarrow> dstate \<Rightarrow> dstate" where
  "fail_stale_active_run e r d = (case requeue_instead_of_failing_undelivered_claim (r_id r) d of
     Some d' \<Rightarrow> d'
   | None \<Rightarrow> fail_pending_controls_for_run (r_id r)
       (append_dispatch_event (r_id r) ''auto_heal'' (fail_run (e_now e) (r_id r) d)))"

text \<open>Whether an active run can no longer be served; the tests are in the order of the code.\<close>

definition unowned_expired :: "denv \<Rightarrow> drun \<Rightarrow> bool" where
  "unowned_expired e r =
     (let started = (case r_started_at r of Some t \<Rightarrow> t | None \<Rightarrow> []);
          claimed = (case r_claimed_at r of Some t \<Rightarrow> t | None \<Rightarrow> []);
          since = e_epoch e (u_strip (u_or (u_or started claimed) (r_requested_at r))) in
      norm_word (r_dispatch_mode r) = ''terminal'' \<and> since \<noteq> 0
        \<and> e_clock e - since > max 300 ((if e_stale_minutes e = 0 then 30 else e_stale_minutes e) * 60))"

definition owner_lost :: "denv \<Rightarrow> string \<Rightarrow> drun \<Rightarrow> dstate \<Rightarrow> bool" where
  "owner_lost e a r d =
     (let owner = py_strip (r_claim_bridge r); channel = (norm_word (or_else (r_execution_mode r) ''managed'') = ''channel'');
          b = map_of (d_bridges d) (owner, a); current = py_strip (e_agent_bridge e a);
          managed = (case e_agent e a of None \<Rightarrow> False | Some row \<Rightarrow> normalize_session_mode (ag_session_mode row) = ''managed'') in
      (managed \<and> (case e_env e a of None \<Rightarrow> False
        | Some (status, eb) \<Rightarrow> status \<notin> {''online'', ''degraded''} \<or> (eb \<noteq> [] \<and> eb \<noteq> owner \<and> \<not> channel)))
      \<or> (current \<noteq> [] \<and> current \<noteq> owner \<and> \<not> channel \<and> (case b of None \<Rightarrow> False | Some x \<Rightarrow> py_strip (br_superseded_by x) \<noteq> []))
      \<or> (case b of None \<Rightarrow> False | Some x \<Rightarrow> e_epoch e (br_last_seen x) \<noteq> 0
           \<and> e_clock e - e_epoch e (br_last_seen x) > ACTIVE_RUN_BRIDGE_STALE_SECONDS))"

definition discard_unclaimable_active_run :: "denv \<Rightarrow> string \<Rightarrow> drun \<Rightarrow> dstate \<Rightarrow> dstate option" where
  "discard_unclaimable_active_run e a r d =
     (if (if py_strip (r_claim_bridge r) = [] then unowned_expired e r else owner_lost e a r d)
      then Some (fail_stale_active_run e r d) else None)"

definition discard_unusable_active_run :: "denv \<Rightarrow> string \<Rightarrow> drun \<Rightarrow> dstate \<Rightarrow> dstate option" where
  "discard_unusable_active_run e a r d = (case discard_superseded_active_run e a r d of
     Some d' \<Rightarrow> Some d'
   | None \<Rightarrow> discard_unclaimable_active_run e a r d)"

subsection \<open>Creating runs\<close>

definition PRIORITY_ORDER :: "(ustr \<times> int) list" where
  "PRIORITY_ORDER = [(lit ''low'', -1), (lit ''normal'', 0), (lit ''high'', 1), (lit ''urgent'', 2)]"

definition UNRANKED_PRIORITY :: int where "UNRANKED_PRIORITY = -2"

definition priority_key :: "ustr \<Rightarrow> ustr" where
  "priority_key p = u_or (u_lower (u_strip (u_or p (lit ''normal'')))) (lit ''normal'')"

definition priority_rank :: "ustr \<Rightarrow> int" where
  "priority_rank k = (case map_of PRIORITY_ORDER k of Some n \<Rightarrow> n | None \<Rightarrow> UNRANKED_PRIORITY)"

definition stronger_priority :: "ustr \<Rightarrow> ustr \<Rightarrow> ustr" where
  "stronger_priority left right =
     (let l = priority_key left; r = priority_key right in if priority_rank l \<ge> priority_rank r then l else r)"

record send =
  s_from :: ustr
  s_type :: ustr
  s_subject :: ustr
  s_body :: ustr
  s_priority :: ustr
  s_in_reply_to :: ustr
  s_mode :: string
  s_execution :: string
  s_runtime :: string
  s_message_id :: ustr
  s_sources :: "(string \<times> ustr) list"
  s_steer :: bool
  s_queue_if_busy :: bool
  s_require_reply :: bool
  s_allow_merge :: bool
  s_label :: ustr

definition dispatch_message_id_for_recipient :: "string \<Rightarrow> send \<Rightarrow> ustr" where
  "dispatch_message_id_for_recipient recipient s =
     u_strip (case map_of (s_sources s) recipient of Some m \<Rightarrow> m | None \<Rightarrow> s_message_id s)"

datatype outcome = Steered string string "string option" | Rejected nat | Merged string nat | Queued string

text \<open>A row as the two \<open>INSERT\<close>s write it; the columns they leave out have their defaults.\<close>

definition new_run :: "denv \<Rightarrow> send \<Rightarrow> string \<Rightarrow> string \<Rightarrow> ustr \<Rightarrow> drun" where
  "new_run e s recipient i source = \<lparr>r_id = i, r_message_id = source, r_from = s_from s, r_target = recipient,
     r_dispatch_mode = norm_word (s_mode s), r_execution_mode = s_execution s, r_requested_runtime = s_runtime s, r_runtime = [],
     r_type = s_type s, r_subject = s_subject s, r_body = neutralise_buffer_markers (s_body s), r_priority = s_priority s,
     r_in_reply_to = s_in_reply_to s, r_status = ''queued'', r_claim_machine = [], r_claim_bridge = [], r_result = [],
     r_require_reply = s_require_reply s, r_queue_if_busy = s_queue_if_busy s, r_steer_if_busy = s_steer s,
     r_requested_at = e_now e, r_claimed_at = None, r_started_at = None, r_finished_at = None\<rparr>"

definition insert_run :: "drun \<Rightarrow> string \<Rightarrow> dstate \<Rightarrow> dstate" where
  "insert_run r kind d = append_dispatch_event (r_id r) kind (d\<lparr>d_runs := d_runs d @ [r], d_next := Suc (d_next d)\<rparr>)"

definition fresh_run_id :: "dstate \<Rightarrow> string" where
  "fresh_run_id d = ''run_'' @ nat_str (d_next d)"

text \<open>The active run a steer may be injected into, after one that cannot be served was discarded.\<close>

definition steer_target :: "denv \<Rightarrow> string \<Rightarrow> dstate \<Rightarrow> drun option \<times> dstate" where
  "steer_target e recipient d = (case dv_active (dispatch_state_for_agent recipient d) of
     None \<Rightarrow> (None, d)
   | Some r \<Rightarrow> (case discard_unusable_active_run e recipient r d of
       None \<Rightarrow> (Some r, d)
     | Some d' \<Rightarrow> (dv_active (dispatch_state_for_agent recipient d'), d')))"

definition can_steer :: "denv \<Rightarrow> send \<Rightarrow> string \<Rightarrow> drun \<Rightarrow> bool" where
  "can_steer e s recipient r =
     (let caps = (case e_agent e recipient of None \<Rightarrow> [] | Some row \<Rightarrow> row_capabilities row);
          runtime = normalize_runtime (or_else (case e_agent e recipient of None \<Rightarrow> [] | Some row \<Rightarrow> ag_runtime row) (s_runtime s));
          via_claim = (runtime = ''hermes'' \<and> norm_word (or_else (r_execution_mode r) ''managed'') \<in> {''channel'', ''resident''}) in
      ''steer'' \<in> set caps \<and> \<not> via_claim)"

definition steer_body :: "send \<Rightarrow> ustr" where
  "steer_body s = lit ''[Message from '' @ s_label s @ lit '']'' @ [LF] @ lit ''Subject: ''
     @ quote_untrusted_subject (s_subject s) 240 @ [LF, LF] @ s_body s"

definition steer_into :: "denv \<Rightarrow> send \<Rightarrow> string \<Rightarrow> ustr \<Rightarrow> drun \<Rightarrow> dstate \<Rightarrow> outcome \<times> dstate" where
  "steer_into e s recipient source r d =
     (let (cid, d1) = append_dispatch_control (r_id r) (s_from s) ''steer'' (steer_body s) source d in
      if source = [] then (Steered (r_id r) cid None, d1)
      else (let i = fresh_run_id d1;
                c = (new_run e s recipient i source)\<lparr>r_dispatch_mode := ''steer'', r_status := ''delivered'',
                      r_queue_if_busy := False, r_steer_if_busy := False\<rparr> in
            (Steered (r_id r) cid (Some i), insert_run c ''steered'' d1)))"

definition as_item :: "drun \<Rightarrow> ditem" where
  "as_item r = \<lparr>i_from = r_from r, i_type = r_type r, i_subject = r_subject r, i_body = r_body r, i_priority = r_priority r,
     i_message_id = r_message_id r, i_in_reply_to = r_in_reply_to r, i_requested_at = r_requested_at r\<rparr>"

definition send_item :: "denv \<Rightarrow> send \<Rightarrow> ustr \<Rightarrow> ditem" where
  "send_item e s source = \<lparr>i_from = s_from s, i_type = s_type s, i_subject = s_subject s, i_body = s_body s,
     i_priority = s_priority s, i_message_id = source, i_in_reply_to = s_in_reply_to s, i_requested_at = e_now e\<rparr>"

definition merged_row :: "send \<Rightarrow> drun \<Rightarrow> ustr \<Rightarrow> nat \<Rightarrow> drun \<Rightarrow> drun" where
  "merged_row s q body n r = r\<lparr>r_subject := build_pending_dispatch_subject (int n) (s_subject s), r_body := body,
     r_priority := stronger_priority (r_priority q) (s_priority s),
     r_dispatch_mode := (if norm_word (r_dispatch_mode q) = ''require_start'' \<or> norm_word (s_mode s) = ''require_start''
       then ''require_start'' else r_dispatch_mode q),
     r_type := s_type s, r_require_reply := (r_require_reply q \<or> s_require_reply s),
     r_queue_if_busy := (r_queue_if_busy q \<or> s_queue_if_busy s), r_steer_if_busy := (r_steer_if_busy q \<or> s_steer s)\<rparr>"

definition queue_fresh :: "denv \<Rightarrow> send \<Rightarrow> string \<Rightarrow> ustr \<Rightarrow> dstate \<Rightarrow> outcome \<times> dstate" where
  "queue_fresh e s recipient source d =
     (let i = fresh_run_id d in (Queued i, insert_run (new_run e s recipient i source) ''queued'' d))"

definition is_queued :: "drun \<Rightarrow> bool" where
  "is_queued r = (r_status r = ''queued'')"

text \<open>\<open>mid\<close> is what other requests do between the read of the queued run and the guarded update.\<close>

definition merge_or_queue :: "(dstate \<Rightarrow> dstate) \<Rightarrow> denv \<Rightarrow> send \<Rightarrow> string \<Rightarrow> ustr \<Rightarrow> dstate \<Rightarrow> outcome \<times> dstate" where
  "merge_or_queue mid e s recipient source d =
     (case (if s_allow_merge s then find_mergeable_queued_run recipient (s_from s) d else None) of
        None \<Rightarrow> queue_fresh e s recipient source d
      | Some q \<Rightarrow> (case append_pending_dispatch_body (as_item q) (send_item e s source) of
          None \<Rightarrow> (Rejected (pending_dispatch_count (r_body q)), append_dispatch_event (r_id q) ''buffer_full'' d)
        | Some (body, n) \<Rightarrow>
            (let d1 = mid d in
             if rowcount (r_id q) is_queued d1 > 0
             then (let d2 = update_run (r_id q) is_queued (merged_row s q body n) d1;
                       d3 = (if source = [] \<or> source \<in> fst ` set (d_items d2) then d2
                             else d2\<lparr>d_items := d_items d2 @ [(source, r_id q)]\<rparr>) in
                   (Merged (r_id q) n, append_dispatch_event (r_id q) ''merged'' d3))
             else queue_fresh e s recipient source d1)))"

definition create_dispatch_run :: "(dstate \<Rightarrow> dstate) \<Rightarrow> denv \<Rightarrow> send \<Rightarrow> string \<Rightarrow> dstate \<Rightarrow> outcome \<times> dstate" where
  "create_dispatch_run mid e s recipient d =
     (let source = dispatch_message_id_for_recipient recipient s in
      if s_steer s then
        (let (t, d1) = steer_target e recipient d in
         case t of
           Some r \<Rightarrow> if can_steer e s recipient r then steer_into e s recipient source r d1
                     else merge_or_queue mid e s recipient source d1
         | None \<Rightarrow> merge_or_queue mid e s recipient source d1)
      else merge_or_queue mid e s recipient source d)"

fun create_dispatch_runs :: "denv \<Rightarrow> send \<Rightarrow> string list \<Rightarrow> dstate \<Rightarrow> outcome list \<times> dstate" where
  "create_dispatch_runs e s [] d = ([], d)"
| "create_dispatch_runs e s (a # as) d =
     (let (r, d1) = create_dispatch_run id e s a d; (rs, d2) = create_dispatch_runs e s as d1 in (r # rs, d2))"

subsection \<open>Answering, cancelling and withdrawing\<close>

definition dispatch_requires_reply :: "bool option \<Rightarrow> bool \<Rightarrow> bool" where
  "dispatch_requires_reply explicit dflt = (case explicit of None \<Rightarrow> dflt | Some b \<Rightarrow> b)"

definition message_type_expects_reply :: "string \<Rightarrow> bool" where
  "message_type_expects_reply t = (norm_word t \<in> {''request'', ''review'', ''error''})"

definition answered_now :: "drun \<Rightarrow> string \<Rightarrow> string \<Rightarrow> bool" where
  "answered_now r current_status execution_mode =
     (let status = norm_word current_status; mode = norm_word execution_mode in
      status \<in> {''queued'', ''delivered''}
      \<or> (mode \<in> {''channel'', ''resident''} \<and> status \<in> {''claimed'', ''running''})
      \<or> (norm_word (r_dispatch_mode r) = ''terminal'' \<and> status \<in> {''claimed'', ''running''}))"

definition mark_dispatch_run_answered :: "denv \<Rightarrow> string \<Rightarrow> ustr \<Rightarrow> string \<Rightarrow> string \<Rightarrow> dstate \<Rightarrow> dstate" where
  "mark_dispatch_run_answered e i reply current_status execution_mode d =
     update_run i (\<lambda>_. True) (\<lambda>r. if answered_now r current_status execution_mode
       then r\<lparr>r_result := reply, r_status := ''completed'',
              r_finished_at := (case r_finished_at r of None \<Rightarrow> Some (e_now e) | f \<Rightarrow> f)\<rparr>
       else r\<lparr>r_result := reply\<rparr>) d"

definition cancel_run :: "denv \<Rightarrow> drun \<Rightarrow> drun" where
  "cancel_run e r = r\<lparr>r_status := ''cancelled'', r_finished_at := Some (e_now e)\<rparr>"

definition cancel_queued_dispatch_run :: "denv \<Rightarrow> string \<Rightarrow> dstate \<Rightarrow> bool \<times> dstate" where
  "cancel_queued_dispatch_run e i d =
     (if rowcount i is_queued d \<noteq> 1 then (False, update_run i is_queued (cancel_run e) d)
      else (True, append_dispatch_event i ''cancelled'' (update_run i is_queued (cancel_run e) d)))"

definition clean_ids :: "ustr list \<Rightarrow> ustr list" where
  "clean_ids ms = dedupe_preserve (filter (\<lambda>m. m \<noteq> []) (map u_strip ms))"

function chunks :: "nat \<Rightarrow> 'a list \<Rightarrow> 'a list list" where
  "chunks n xs = (if xs = [] \<or> n = 0 then [] else take n xs # chunks n (drop n xs))"
  by pat_completeness auto
termination by (relation "measure (length \<circ> snd)") auto

text \<open>One chunk of the cancellation: the queued runs of these messages.\<close>

definition cancel_chunk :: "denv \<Rightarrow> ustr list \<Rightarrow> string list \<times> dstate \<Rightarrow> string list \<times> dstate" where
  "cancel_chunk e ms acc =
     (let (done_ids, d) = acc; ids = map r_id (filter (\<lambda>r. is_queued r \<and> r_message_id r \<in> set ms) (d_runs d)) in
      if ids = [] then acc
      else (done_ids @ ids, fold (\<lambda>i. append_dispatch_event i ''cancelled'') ids
        (d\<lparr>d_runs := map (\<lambda>r. if r_id r \<in> set ids then cancel_run e r else r) (d_runs d)\<rparr>)))"

definition cancel_queued_dispatch_runs_for_message_ids :: "nat \<Rightarrow> denv \<Rightarrow> ustr list \<Rightarrow> dstate \<Rightarrow> string list \<times> dstate" where
  "cancel_queued_dispatch_runs_for_message_ids chunk_size e ms d = fold (cancel_chunk e) (chunks chunk_size (clean_ids ms)) ([], d)"

definition owes_reply :: "ustr list \<Rightarrow> drun \<Rightarrow> bool" where
  "owes_reply ms r = (r_message_id r \<in> set ms \<and> r_status r = ''delivered'' \<and> r_require_reply r \<and> r_result r = [])"

definition withdraw_chunk :: "denv \<Rightarrow> ustr list \<Rightarrow> string list \<times> dstate \<Rightarrow> string list \<times> dstate" where
  "withdraw_chunk e ms acc =
     (let (done_ids, d) = acc; ids = map r_id (filter (owes_reply ms) (d_runs d)) in
      (done_ids @ ids, fold (\<lambda>i. append_dispatch_event i ''reply_withdrawn'') ids
        (d\<lparr>d_runs := map (\<lambda>r. if owes_reply ms r then (cancel_run e r)\<lparr>r_require_reply := False\<rparr> else r) (d_runs d)\<rparr>)))"

definition withdraw_delivered_reply_contracts_for_message_ids :: "nat \<Rightarrow> denv \<Rightarrow> ustr list \<Rightarrow> dstate \<Rightarrow> string list \<times> dstate" where
  "withdraw_delivered_reply_contracts_for_message_ids chunk_size e ms d =
     fold (withdraw_chunk e) (chunks chunk_size (clean_ids ms)) ([], d)"

subsection \<open>Reading many agents at once\<close>

lemma setdefault_get: "map_of (foldl setdefault m rs) a = (case map_of m a of Some r \<Rightarrow> Some r | None \<Rightarrow> find (\<lambda>r. r_target r = a) rs)"
  by (induction rs arbitrary: m) (auto simp: map_add_def split: option.splits)

lemma find_filter: "find P xs = (case filter P xs of [] \<Rightarrow> None | x # _ \<Rightarrow> Some x)"
  by (induction xs) auto

lemma insort_pair:
  assumes "f x = (c, g x)" and "\<forall>y \<in> set ys. f y = (c, g y)"
  shows "insort_key f x ys = insort_key g x ys"
  using assms by (induction ys) auto

lemma sort_pair: "\<forall>x \<in> set xs. f x = (c, g x) \<Longrightarrow> sort_key f xs = sort_key g xs"
proof (induction xs)
  case (Cons x xs)
  then show ?case by (simp add: insort_pair)
qed simp

lemma map_of_counts: "map_of (map (\<lambda>a. (a, f a)) as) a = (if a \<in> set as then Some (f a) else None)"
  by (induction as) auto

text \<open>Reading the dispatch state of many agents at once is the same as reading each alone: the shared sorted query
  with the first row kept per agent, and the grouped count, give every agent the active run and the queue length
  of its own query.\<close>

theorem state_map_is_per_agent:
  assumes "a \<in> set agents"
  shows "map_of (dispatch_state_map agents d) a = Some (dispatch_state_for_agent a d)"
proof -
  let ?A = "filter (\<lambda>r. r_target r \<in> set agents \<and> is_active r) (d_runs d)"
  let ?Q = "filter (\<lambda>r. r_target r \<in> set agents \<and> r_status r = ''queued'') (d_runs d)"
  have "filter (\<lambda>r. r_target r = a) (sort_key (\<lambda>r. (r_target r, activity_time r)) ?A)
      = sort_key activity_time (filter (\<lambda>r. r_target r = a) ?A)"
    by (simp only: filter_sort) (rule sort_pair [where c = a], auto)
  moreover have "filter (\<lambda>r. r_target r = a) ?A = filter (\<lambda>r. r_target r = a \<and> is_active r) (d_runs d)"
    using assms by (auto intro: filter_cong)
  ultimately have act: "map_of (foldl setdefault [] (sort_key (\<lambda>r. (r_target r, activity_time r)) ?A)) a
      = dv_active (dispatch_state_for_agent a d)"
    by (simp add: setdefault_get find_filter dispatch_state_for_agent_def first_by_def)
  have q: "filter (\<lambda>r. r_target r = a) ?Q = filter (\<lambda>r. r_target r = a \<and> r_status r = ''queued'') (d_runs d)"
    using assms by (auto intro: filter_cong)
  have "(case map_of (queued_counts agents d) a of Some n \<Rightarrow> n | None \<Rightarrow> 0) = length (filter (\<lambda>r. r_target r = a) ?Q)"
    by (auto simp: queued_counts_def map_of_counts Let_def filter_empty_conv)
  then have cnt: "(case map_of (queued_counts agents d) a of Some n \<Rightarrow> n | None \<Rightarrow> 0) = dv_queued (dispatch_state_for_agent a d)"
    unfolding q by (simp add: dispatch_state_for_agent_def)
  have "agents \<noteq> []" using assms by auto
  then have "map_of (dispatch_state_map agents d) a = Some \<lparr>dv_active = dv_active (dispatch_state_for_agent a d),
      dv_queued = dv_queued (dispatch_state_for_agent a d)\<rparr>"
    using assms act cnt by (simp add: dispatch_state_map_def Let_def map_of_counts)
  then show ?thesis by simp
qed

definition demo_env :: denv where
  "demo_env = \<lparr>e_now = lit ''2026-01-01T00:00:09Z'', e_clock = 1000, e_epoch = (\<lambda>_. 900), e_agent = (\<lambda>_. None),
     e_agent_bridge = (\<lambda>_. []), e_env = (\<lambda>_. None), e_stale_minutes = 30\<rparr>"

definition demo_send :: send where
  "demo_send = \<lparr>s_from = lit ''boss'', s_type = lit ''request'', s_subject = lit ''do'', s_body = lit ''it'', s_priority = lit ''high'',
     s_in_reply_to = [], s_mode = ''start_if_possible'', s_execution = ''managed'', s_runtime = [], s_message_id = lit ''m1'',
     s_sources = [], s_steer = False, s_queue_if_busy = False, s_require_reply = True, s_allow_merge = True, s_label = lit ''boss''\<rparr>"

definition no_dispatch :: dstate where
  "no_dispatch = \<lparr>d_runs = [], d_events = [], d_controls = [], d_items = [], d_messages = [lit ''m1''], d_receipts = [],
     d_bridges = [], d_next = 0\<rparr>"

definition demo_sent :: dstate where
  "demo_sent = snd (create_dispatch_run id demo_env demo_send ''a'' no_dispatch)"

lemma demo_sent_runs: "d_runs demo_sent = [new_run demo_env demo_send ''a'' ''run_0'' (lit ''m1'')]"
  by code_simp

theorem state_map_is_per_agent_witness:
  "map_option dv_queued (map_of (dispatch_state_map [''b'', ''a''] demo_sent) ''a'') = Some 1"
  using state_map_is_per_agent [of "''a''" "[''b'', ''a'']" demo_sent]
  by (simp add: dispatch_state_for_agent_def demo_sent_runs new_run_def)

subsection \<open>Chunked statements\<close>

lemma concat_chunks: "0 < n \<Longrightarrow> concat (chunks n xs) = xs"
proof (induction n xs rule: chunks.induct)
  case (1 n xs)
  then show ?case by (subst chunks.simps) (auto simp: append_take_drop_id)
qed

declare chunks.simps [simp del]

lemma fold_events: "d_runs (fold (\<lambda>i. append_dispatch_event i k) ids d) = d_runs d"
  by (induction ids arbitrary: d) (simp_all add: append_dispatch_event_def)

definition cancelled_rows :: "denv \<Rightarrow> ustr list \<Rightarrow> drun list \<Rightarrow> drun list" where
  "cancelled_rows e ms = map (\<lambda>r. if is_queued r \<and> r_message_id r \<in> set ms then cancel_run e r else r)"

definition cancelled_ids :: "ustr list \<Rightarrow> drun list \<Rightarrow> string set" where
  "cancelled_ids ms rs = r_id ` {r \<in> set rs. is_queued r \<and> r_message_id r \<in> set ms}"

lemma cancel_run_simps [simp]: "r_id (cancel_run e r) = r_id r" "r_message_id (cancel_run e r) = r_message_id r"
  "\<not> is_queued (cancel_run e r)"
  by (simp_all add: cancel_run_def is_queued_def)

lemma ids_of_cancelled [simp]: "map r_id (cancelled_rows e ms rs) = map r_id rs"
  by (simp add: cancelled_rows_def)

lemma cancel_chunk_rows:
  assumes "distinct (map r_id (d_runs d))"
  shows "d_runs (snd (cancel_chunk e ms (acc, d))) = cancelled_rows e ms (d_runs d)"
    and "set (fst (cancel_chunk e ms (acc, d))) = set acc \<union> cancelled_ids ms (d_runs d)"
proof -
  let ?P = "\<lambda>r. is_queued r \<and> r_message_id r \<in> set ms"
  have id: "r_id r \<in> set (map r_id (filter ?P (d_runs d))) \<longleftrightarrow> ?P r" if "r \<in> set (d_runs d)" for r
    using assms that by (auto simp: distinct_map inj_on_def)
  have *: "map (\<lambda>r. if r_id r \<in> set (map r_id (filter ?P (d_runs d))) then cancel_run e r else r) (d_runs d) = cancelled_rows e ms (d_runs d)"
    unfolding cancelled_rows_def by (rule map_cong) (use id in simp_all)
  have none: "filter ?P (d_runs d) = [] \<Longrightarrow> cancelled_rows e ms (d_runs d) = d_runs d"
    unfolding cancelled_rows_def by (rule map_idI) (auto simp: filter_empty_conv)
  show "d_runs (snd (cancel_chunk e ms (acc, d))) = cancelled_rows e ms (d_runs d)"
    using none by (auto simp: cancel_chunk_def Let_def fold_events * simp del: set_map set_filter)
  show "set (fst (cancel_chunk e ms (acc, d))) = set acc \<union> cancelled_ids ms (d_runs d)"
    by (auto simp: cancel_chunk_def Let_def cancelled_ids_def filter_empty_conv)
qed

lemma cancelled_rows_append: "cancelled_rows e (ms @ ms') rs = cancelled_rows e ms' (cancelled_rows e ms rs)"
  by (auto simp: cancelled_rows_def)

lemma cancelled_ids_append: "cancelled_ids (ms @ ms') rs = cancelled_ids ms rs \<union> cancelled_ids ms' (cancelled_rows e ms rs)"
  by (auto simp: cancelled_ids_def cancelled_rows_def image_iff)

lemma cancel_chunks:
  assumes "distinct (map r_id (d_runs d))"
  shows "d_runs (snd (fold (cancel_chunk e) cs (acc, d))) = cancelled_rows e (concat cs) (d_runs d)
    \<and> set (fst (fold (cancel_chunk e) cs (acc, d))) = set acc \<union> cancelled_ids (concat cs) (d_runs d)"
  using assms
proof (induction cs arbitrary: acc d)
  case (Cons c cs)
  obtain acc' d' where s: "cancel_chunk e c (acc, d) = (acc', d')" by (cases "cancel_chunk e c (acc, d)")
  from cancel_chunk_rows [OF Cons.prems, of e c acc] s have r: "d_runs d' = cancelled_rows e c (d_runs d)"
      "set acc' = set acc \<union> cancelled_ids c (d_runs d)" by simp_all
  with Cons.IH [of d' acc'] Cons.prems show ?case
    by (simp add: s r cancelled_rows_append cancelled_ids_append [where e = e] Un_assoc)
qed (auto simp: cancelled_rows_def cancelled_ids_def)

text \<open>Cancelling in chunks is cancelling at once: whatever the chunk size, the queued runs of the named messages
  become cancelled, every other run keeps its row, and the ids reported are exactly those.\<close>

theorem chunked_cancel_is_whole:
  assumes "0 < chunk_size" and "distinct (map r_id (d_runs d))"
  shows "d_runs (snd (cancel_queued_dispatch_runs_for_message_ids chunk_size e ms d))
      = map (\<lambda>r. if is_queued r \<and> r_message_id r \<in> set (clean_ids ms) then cancel_run e r else r) (d_runs d)
    \<and> set (fst (cancel_queued_dispatch_runs_for_message_ids chunk_size e ms d))
      = r_id ` {r \<in> set (d_runs d). is_queued r \<and> r_message_id r \<in> set (clean_ids ms)}"
  using cancel_chunks [OF assms(2), of e "chunks chunk_size (clean_ids ms)" "[]"] concat_chunks [OF assms(1), of "clean_ids ms"]
  unfolding cancel_queued_dispatch_runs_for_message_ids_def cancelled_rows_def cancelled_ids_def by simp

theorem chunked_cancel_is_whole_witness:
  "set (fst (cancel_queued_dispatch_runs_for_message_ids 1 demo_env [lit ''m0'', lit '' m1''] demo_sent)) = {''run_0''}"
proof -
  have c: "clean_ids [lit ''m0'', lit '' m1''] = [lit ''m0'', lit ''m1'']" by code_simp
  have d: "distinct (map r_id (d_runs demo_sent))" by (simp add: demo_sent_runs)
  let ?r = "new_run demo_env demo_send ''a'' ''run_0'' (lit ''m1'')"
  have r: "is_queued ?r" "r_message_id ?r = lit ''m1''" "r_id ?r = ''run_0''" by (simp_all add: new_run_def is_queued_def)
  have "set (fst (cancel_queued_dispatch_runs_for_message_ids 1 demo_env [lit ''m0'', lit '' m1''] demo_sent))
      = r_id ` {r \<in> {?r}. is_queued r \<and> r_message_id r \<in> {lit ''m0'', lit ''m1''}}"
    using chunked_cancel_is_whole [OF _ d, of 1 demo_env "[lit ''m0'', lit '' m1'']", THEN conjunct2]
    by (simp add: c demo_sent_runs)
  also have "{r \<in> {?r}. is_queued r \<and> r_message_id r \<in> {lit ''m0'', lit ''m1''}} = {?r}" using r by blast
  finally show ?thesis using r by simp
qed

subsection \<open>Receipts\<close>

lemma insert_receipts_new:
  "\<exists>new. insert_receipts ms agent at rs = (length new, rs @ map (\<lambda>m. ((m, agent), at)) new) \<and> set new \<subseteq> set ms"
proof (induction ms arbitrary: rs)
  case (Cons m ms)
  show ?case
  proof (cases "map_of rs (m, agent) = None")
    case True
    from Cons.IH [of "rs @ [((m, agent), at)]"] obtain new where
      "insert_receipts ms agent at (rs @ [((m, agent), at)]) = (length new, (rs @ [((m, agent), at)]) @ map (\<lambda>m. ((m, agent), at)) new)"
      "set new \<subseteq> set ms" by blast
    with True show ?thesis by (intro exI [of _ "m # new"]) auto
  next
    case False
    with Cons.IH [of rs] show ?thesis by auto
  qed
qed simp

text \<open>C37. Taking a claim back takes back its receipts and no other. If no receipt of the agent for the run's messages
  carries the very time of the claim, then releasing right after marking deletes as many receipts as were written
  and leaves the receipts as they were.\<close>

theorem release_undoes_mark:
  assumes "py_strip (r_target r) = r_target r" and "r_target r \<noteq> []" and "u_strip t = t" and "t \<noteq> []"
    and "\<forall>m \<in> set (run_source_ids r). ((m, r_target r), t) \<notin> set (d_receipts d)"
  shows "release_claim_receipts (r\<lparr>r_status := ''claimed'', r_claimed_at := Some t\<rparr>)
      (snd (mark_dispatch_source_messages_read r (r_target r) t d))
    = (fst (mark_dispatch_source_messages_read r (r_target r) t d), d)"
proof -
  let ?c = "r\<lparr>r_status := ''claimed'', r_claimed_at := Some t\<rparr>"
  let ?gone = "\<lambda>((m, a), u). a = r_target r \<and> u = t \<and> m \<in> set (run_source_ids r)"
  have ids: "run_source_ids ?c = run_source_ids r" by (simp add: run_source_ids_def)
  obtain new where new: "insert_receipts (filter (\<lambda>m. m \<in> set (d_messages d)) (run_source_ids r)) (r_target r) t (d_receipts d)
        = (length new, d_receipts d @ map (\<lambda>m. ((m, r_target r), t)) new)" "set new \<subseteq> set (run_source_ids r)"
    using insert_receipts_new [of "filter (\<lambda>m. m \<in> set (d_messages d)) (run_source_ids r)" "r_target r" t "d_receipts d"] by auto
  have mark: "mark_dispatch_source_messages_read r (r_target r) t d
      = (length new, d\<lparr>d_receipts := d_receipts d @ map (\<lambda>m. ((m, r_target r), t)) new\<rparr>)"
    by (simp add: mark_dispatch_source_messages_read_def new(1))
  have old: "filter ?gone (d_receipts d) = []" using assms(5) by (auto simp: filter_empty_conv)
  have "filter (\<lambda>x. \<not> ?gone x) (d_receipts d) = d_receipts d" using old by (auto simp: filter_id_conv filter_empty_conv)
  moreover have "filter ?gone (map (\<lambda>m. ((m, r_target r), t)) new) = map (\<lambda>m. ((m, r_target r), t)) new"
    using new(2) by (auto simp: filter_id_conv)
  moreover have "filter (\<lambda>x. \<not> ?gone x) (map (\<lambda>m. ((m, r_target r), t)) new) = []"
    using new(2) by (auto simp: filter_empty_conv)
  ultimately show ?thesis
    using assms(1-4) old new(2) unfolding mark release_claim_receipts_def ids
    by (cases "run_source_ids r = []") (simp_all add: Let_def del: filter_map)
qed

definition demo_run :: drun where
  "demo_run = new_run demo_env demo_send ''a'' ''run_0'' (lit ''m1'')"

lemma demo_source_ids: "run_source_ids demo_run = [lit ''m1'']"
  by code_simp

theorem release_undoes_mark_witness:
  "release_claim_receipts (demo_run\<lparr>r_status := ''claimed'', r_claimed_at := Some (lit ''t'')\<rparr>)
      (snd (mark_dispatch_source_messages_read demo_run ''a'' (lit ''t'') demo_sent)) = (1, demo_sent)"
proof -
  have t: "r_target demo_run = ''a''" "py_strip ''a'' = ''a''" "u_strip (lit ''t'') = lit ''t''" "lit ''t'' \<noteq> []"
    "d_receipts demo_sent = []" "fst (mark_dispatch_source_messages_read demo_run ''a'' (lit ''t'') demo_sent) = 1"
    by code_simp+
  from release_undoes_mark [of demo_run "lit ''t''" demo_sent] show ?thesis by (simp add: t)
qed

text \<open>A receipt earned in the same second is taken back too. Times are whole seconds, so a receipt the agent earned
  by reading its inbox in the second of the claim is not told apart from the claim's own: marking writes nothing,
  releasing deletes the earned receipt, and the message is unread again.\<close>

theorem release_takes_an_earned_receipt:
  "let earned = demo_sent\<lparr>d_receipts := [((lit ''m1'', ''a''), lit ''t'')]\<rparr>;
       claimed = demo_run\<lparr>r_status := ''claimed'', r_claimed_at := Some (lit ''t'')\<rparr> in
   mark_dispatch_source_messages_read demo_run ''a'' (lit ''t'') earned = (0, earned)
   \<and> release_claim_receipts claimed earned = (1, demo_sent)"
  by code_simp

subsection \<open>What a send leaves\<close>

lemma append_event_simps [simp]:
  "d_runs (append_dispatch_event i k d) = d_runs d" "d_items (append_dispatch_event i k d) = d_items d"
  "d_controls (append_dispatch_event i k d) = d_controls d" "d_bridges (append_dispatch_event i k d) = d_bridges d"
  "d_receipts (append_dispatch_event i k d) = d_receipts d" "d_next (append_dispatch_event i k d) = d_next d"
  by (simp_all add: append_dispatch_event_def)

lemma rowcount_pos: "0 < rowcount i P d \<longleftrightarrow> (\<exists>r \<in> set (d_runs d). r_id r = i \<and> P r)"
  by (auto simp: rowcount_def filter_empty_conv)

lemma first_by_Some: "first_by k rs = Some r \<Longrightarrow> r \<in> set rs"
proof -
  have "set (sort_key k rs) = set rs" by simp
  then show "first_by k rs = Some r \<Longrightarrow> r \<in> set rs" unfolding first_by_def by (cases "sort_key k rs") auto
qed

lemma mergeable_spec:
  assumes "find_mergeable_queued_run a f d = Some q"
  shows "q \<in> set (d_runs d)" and "r_target q = a" and "r_from q = f" and "is_queued q"
  using assms by (auto simp: find_mergeable_queued_run_def is_queued_def dest: first_by_Some)

lemma append_count_bound: "append_pending_dispatch_body q i = Some (b, n) \<Longrightarrow> n \<le> DISPATCH_BUFFER_CAP"
  by (auto simp: append_pending_dispatch_body_def DISPATCH_BUFFER_CAP_def Let_def split: if_splits option.splits)

text \<open>What other requests may do to a row between the read and the guarded update: anything but change whose it
  is.\<close>

definition keeps_owners :: "dstate \<Rightarrow> dstate \<Rightarrow> bool" where
  "keeps_owners d d' = (distinct (map r_id (d_runs d)) \<longrightarrow> (\<forall>r \<in> set (d_runs d). \<forall>r' \<in> set (d_runs d'). r_id r' = r_id r \<longrightarrow> r_from r' = r_from r \<and> r_target r' = r_target r))"

lemma update_run_ids: "(\<And>r. r_id (f r) = r_id r) \<Longrightarrow> map r_id (d_runs (update_run i P f d)) = map r_id (d_runs d)"
  by (simp add: update_run_def comp_def if_distrib cong: if_cong)

lemma fail_controls_runs [simp]: "d_runs (fail_pending_controls_for_run i d) = d_runs d"
  by (simp add: fail_pending_controls_for_run_def Let_def)

lemma release_runs [simp]: "d_runs (snd (release_claim_receipts r d)) = d_runs d"
  by (simp add: release_claim_receipts_def Let_def)

lemma requeue_ids: "requeue_instead_of_failing_undelivered_claim i d = Some d' \<Longrightarrow> map r_id (d_runs d') = map r_id (d_runs d)"
  by (auto simp: requeue_instead_of_failing_undelivered_claim_def Let_def update_run_ids split: option.splits if_splits)

lemma fail_run_ids [simp]: "map r_id (d_runs (fail_run t i d)) = map r_id (d_runs d)"
  by (simp add: fail_run_def update_run_ids)

lemma discard_ids: "discard_unusable_active_run e a r d = Some d' \<Longrightarrow> map r_id (d_runs d') = map r_id (d_runs d)"
  by (auto simp: discard_unusable_active_run_def discard_superseded_active_run_def discard_unclaimable_active_run_def
      fail_stale_active_run_def Let_def requeue_ids split: option.splits if_splits)

lemma steer_target_ids: "map r_id (d_runs (snd (steer_target e a d))) = map r_id (d_runs d)"
  by (auto simp: steer_target_def discard_ids split: option.splits)

text \<open>Where the text of an accepted send is, in the tables \<open>d\<close> it leaves; \<open>seen\<close> are the tables in which it looked for a run to join, \<open>present\<close> those in which it then wrote.\<close>

definition carried :: "denv \<Rightarrow> send \<Rightarrow> string \<Rightarrow> ustr \<Rightarrow> outcome \<Rightarrow> dstate \<Rightarrow> dstate \<Rightarrow> dstate \<Rightarrow> bool" where
  "carried e s a source out seen present d = (case out of
     Queued i \<Rightarrow> (\<exists>r \<in> set (d_runs d). r_id r = i \<and> is_queued r \<and> r_target r = a \<and> r_from r = s_from s
       \<and> r_message_id r = source \<and> r_body r = neutralise_buffer_markers (s_body s))
   | Merged i n \<Rightarrow> n \<le> DISPATCH_BUFFER_CAP \<and> (source = [] \<or> source \<in> fst ` set (d_items present) \<or> (source, i) \<in> set (d_items d))
       \<and> (\<exists>q \<in> set (d_runs seen). \<exists>r \<in> set (d_runs d). r_id q = i \<and> is_queued q \<and> r_target q = a \<and> r_from q = s_from s
       \<and> r_id r = i \<and> is_queued r \<and> r_target r = a \<and> r_from r = s_from s
       \<and> append_pending_dispatch_body (as_item q) (send_item e s source) = Some (r_body r, n))
   | Steered i c contract \<Rightarrow> (\<exists>r \<in> set (d_runs d). r_id r = i \<and> r_target r = a \<and> is_active r)
       \<and> (\<exists>k \<in> set (d_controls d). k_id k = c \<and> k_run k = i \<and> k_status k = ''pending'' \<and> k_source k = source \<and> k_body k = steer_body s)
       \<and> (source \<noteq> [] \<longrightarrow> (\<exists>r \<in> set (d_runs d). contract = Some (r_id r) \<and> r_status r = ''delivered'' \<and> r_target r = a \<and> r_from r = s_from s
            \<and> r_message_id r = source \<and> r_require_reply r = s_require_reply s))
   | Rejected n \<Rightarrow> False)"

lemma queue_fresh_carried: "queue_fresh e s a source d = (out, d') \<Longrightarrow> carried e s a source out seen present d'"
  by (auto simp: queue_fresh_def carried_def insert_run_def new_run_def is_queued_def Let_def)

lemma merge_or_queue_carried:
  assumes "merge_or_queue mid e s a source d = (out, d')" and "keeps_owners d (mid d)" and "distinct (map r_id (d_runs d))"
  shows "(\<exists>n q. out = Rejected n \<and> d_runs d' = d_runs d \<and> find_mergeable_queued_run a (s_from s) d = Some q \<and> append_pending_dispatch_body (as_item q) (send_item e s source) = None)
    \<or> carried e s a source out d (mid d) d'"
proof (cases "if s_allow_merge s then find_mergeable_queued_run a (s_from s) d else None")
  case None
  with assms(1) show ?thesis using queue_fresh_carried by (simp add: merge_or_queue_def)
next
  case sm: (Some q)
  then have q: "find_mergeable_queued_run a (s_from s) d = Some q" by (auto split: if_splits)
  note q' = mergeable_spec [OF q]
  show ?thesis
  proof (cases "append_pending_dispatch_body (as_item q) (send_item e s source)")
    case None
    with assms(1) sm q show ?thesis by (auto simp: merge_or_queue_def)
  next
    case (Some m)
    then obtain b n where b: "append_pending_dispatch_body (as_item q) (send_item e s source) = Some (b, n)" by (cases m) auto
    show ?thesis
    proof (cases "rowcount (r_id q) is_queued (mid d) > 0")
      case False
      then have "queue_fresh e s a source (mid d) = (out, d')"
        using assms(1) unfolding merge_or_queue_def sm option.case b prod.case Let_def by simp
      then show ?thesis using queue_fresh_carried by blast
    next
      case True
      then obtain r where r: "r \<in> set (d_runs (mid d))" "r_id r = r_id q" "is_queued r" by (auto simp: rowcount_pos)
      with assms(2,3) q' have own: "r_from r = s_from s" "r_target r = a" by (auto simp: keeps_owners_def)
      define d2 where "d2 = update_run (r_id q) is_queued (merged_row s q b n) (mid d)"
      have d': "out = Merged (r_id q) n" "d' = append_dispatch_event (r_id q) ''merged''
          (if source = [] \<or> source \<in> fst ` set (d_items d2) then d2 else d2\<lparr>d_items := d_items d2 @ [(source, r_id q)]\<rparr>)"
        using assms(1) True unfolding merge_or_queue_def sm option.case b prod.case Let_def d2_def [symmetric]
        by (simp_all only: if_True prod.inject)
      have "d_items d2 = d_items (mid d)" by (simp add: d2_def update_run_def)
      then have runs: "d_runs d' = d_runs d2" and items: "source = [] \<or> source \<in> fst ` set (d_items (mid d)) \<or> (source, r_id q) \<in> set (d_items d')"
        unfolding d' by auto
      have "merged_row s q b n r \<in> set (d_runs d2)" using r by (force simp: d2_def update_run_def)
      then have "\<exists>r \<in> set (d_runs d'). r_id r = r_id q \<and> is_queued r \<and> r_target r = a \<and> r_from r = s_from s
          \<and> append_pending_dispatch_body (as_item q) (send_item e s source) = Some (r_body r, n)"
        unfolding runs using r own b by (intro bexI [of _ "merged_row s q b n r"]) (auto simp: merged_row_def is_queued_def)
      with d'(1) items append_count_bound [OF b] q' show ?thesis by (auto simp: carried_def)
    qed
  qed
qed

lemma active_spec:
  assumes "dv_active (dispatch_state_for_agent a d) = Some r"
  shows "r \<in> set (d_runs d)" and "r_target r = a" and "is_active r"
  using assms by (auto simp: dispatch_state_for_agent_def dest: first_by_Some)

lemma steer_target_spec:
  assumes "steer_target e a d = (Some r, d1)"
  shows "r \<in> set (d_runs d1) \<and> r_target r = a \<and> is_active r"
  using assms active_spec by (auto simp: steer_target_def split: option.splits)

lemma steer_into_carried:
  assumes "steer_into e s a source r d = (out, d')" and "r \<in> set (d_runs d) \<and> r_target r = a \<and> is_active r"
  shows "carried e s a source out seen present d'"
  using assms by (auto simp: steer_into_def append_dispatch_control_def carried_def insert_run_def new_run_def Let_def split: if_splits)

text \<open>C21. A send is carried or refused, never dropped. For each recipient: the neutralised text is in a fresh queued run of that sender and recipient; or
  it is appended, within the cap, to the buffer of a queued run of the same sender and recipient as it was read, that run is still queued when it is written, and the
  item index has the message under that run (unless the index had the message before); or it is in a pending control of a run of the recipient that is active,
  with a delivered run that keeps the message's reply contract. A send is refused only because the buffer of the run it would join is full, and then leaves the runs as
  it found them, apart from an unusable active run that a steer discards first. This holds even if the run being merged into is
  claimed between the read and the write.\<close>

theorem send_is_carried:
  assumes "create_dispatch_run mid e s a d = (out, d')" and "\<forall>x. keeps_owners x (mid x)"
    and "distinct (map r_id (d_runs d))" and "seen = (if s_steer s then snd (steer_target e a d) else d)"
  shows "carried e s a (dispatch_message_id_for_recipient a s) out seen (mid seen) d'
    \<or> (\<exists>n q. out = Rejected n \<and> d_runs d' = d_runs seen \<and> find_mergeable_queued_run a (s_from s) seen = Some q
        \<and> append_pending_dispatch_body (as_item q) (send_item e s (dispatch_message_id_for_recipient a s)) = None)"
proof (cases "s_steer s")
  case True
  obtain t d1 where t: "steer_target e a d = (t, d1)" by (cases "steer_target e a d")
  have seen: "seen = d1" using assms(4) True t by simp
  show ?thesis
  proof (cases "\<exists>r. t = Some r \<and> can_steer e s a r")
    case T: True
    then obtain r where r: "t = Some r" "can_steer e s a r" by blast
    then have "steer_into e s a (dispatch_message_id_for_recipient a s) r d1 = (out, d')" using assms(1) True t by (simp add: create_dispatch_run_def Let_def)
    then show ?thesis using steer_into_carried steer_target_spec t r(1) by blast
  next
    case False
    then have "merge_or_queue mid e s a (dispatch_message_id_for_recipient a s) d1 = (out, d')"
      using assms(1) True t by (auto simp: create_dispatch_run_def Let_def split: option.splits if_splits)
    from merge_or_queue_carried [OF this] assms(2,3) steer_target_ids [of e a d] t seen show ?thesis by auto
  qed
next
  case False
  with assms(1) have "merge_or_queue mid e s a (dispatch_message_id_for_recipient a s) d = (out, d')"
    by (simp add: create_dispatch_run_def Let_def)
  from merge_or_queue_carried [OF this] assms(2,3,4) False show ?thesis by auto
qed

definition claim_all :: "dstate \<Rightarrow> dstate" where
  "claim_all d = d\<lparr>d_runs := map (\<lambda>r. r\<lparr>r_status := ''claimed''\<rparr>) (d_runs d)\<rparr>"

theorem send_is_carried_witness:
  "\<exists>out d'. create_dispatch_run claim_all demo_env (demo_send\<lparr>s_message_id := lit ''m2''\<rparr>) ''a'' demo_sent = (out, d')
    \<and> out = Queued ''run_1'' \<and> carried demo_env (demo_send\<lparr>s_message_id := lit ''m2''\<rparr>) ''a'' (lit ''m2'') out demo_sent (claim_all demo_sent) d'"
proof -
  let ?s = "demo_send\<lparr>s_message_id := lit ''m2''\<rparr>"
  obtain out d' where c: "create_dispatch_run claim_all demo_env ?s ''a'' demo_sent = (out, d')"
    by (cases "create_dispatch_run claim_all demo_env ?s ''a'' demo_sent")
  have k: "\<forall>x. keeps_owners x (claim_all x)"
    by (auto simp: keeps_owners_def claim_all_def distinct_map inj_on_def)
  have ids: "distinct (map r_id (d_runs demo_sent))" by (simp add: demo_sent_runs)
  have "fst (create_dispatch_run claim_all demo_env ?s ''a'' demo_sent) = Queued ''run_1''" by code_simp
  with c have out: "out = Queued ''run_1''" by simp
  have m: "dispatch_message_id_for_recipient ''a'' ?s = lit ''m2''" by code_simp
  have "\<not> s_steer ?s" by code_simp
  then show ?thesis using send_is_carried [OF c k ids refl] out m c by auto
qed

end
