(* ===== verification/ClaimBlock.thy ===== *)
theory ClaimBlock
  imports DispatchRuns
begin

text \<open>
  Why a bridge may not claim: the guard chain of \<open>service/api_core/claim_block_reason.py\<close> on the request of
  \<open>service/models.py\<close>, and the reading of a Hermes console that is still resuming a session, with the escape sequences of
  \<open>service/terminal_diagnostics.py\<close>. Of the payload a refusal carries, the model keeps the reason.

  The environment of a managed agent comes with its status as \<open>service/env_status.py\<close> derives it. The wrapper terminal
  that is active for the agent, if any, and its output are inputs.
\<close>

declare split_paired_All [simp del] split_paired_Ex [simp del]

record claim_req =
  q_agent :: string
  q_machine :: string
  q_bridge :: string
  q_kind :: string
  q_modes :: "string list"

definition supported_modes :: "claim_req \<Rightarrow> string list" where
  "supported_modes q = filter (\<lambda>m. m \<noteq> []) (map norm_word (q_modes q))"

definition is_sidecar :: "claim_req \<Rightarrow> bool" where
  "is_sidecar q = (norm_word (q_kind q) = ''channel-sidecar'')"

subsection \<open>The text of a console\<close>

definition ESC :: char where "ESC = CHR 0x1B"

text \<open>What follows the first string terminator, and the first bell or string terminator.\<close>

fun after_st :: "string \<Rightarrow> string option" where
  "after_st (c # d # xs) = (if c = ESC \<and> d = CHR 0x5C then Some xs else after_st (d # xs))"
| "after_st xs = None"

fun after_osc :: "string \<Rightarrow> string option" where
  "after_osc [] = None"
| "after_osc (c # xs) = (if c = CHR 0x07 then Some xs
     else if c = ESC \<and> xs \<noteq> [] \<and> hd xs = CHR 0x5C then Some (tl xs) else after_osc xs)"

definition between :: "nat \<Rightarrow> nat \<Rightarrow> char \<Rightarrow> bool" where
  "between lo hi c = (lo \<le> of_char c \<and> of_char c \<le> hi)"

definition after_csi :: "string \<Rightarrow> string option" where
  "after_csi xs = (case dropWhile (between 0x20 0x2F) (dropWhile (between 0x30 0x3F) xs) of
     [] \<Rightarrow> None
   | c # ys \<Rightarrow> if between 0x40 0x7E c then Some ys else None)"

definition ascii_alnum :: "char \<Rightarrow> bool" where
  "ascii_alnum c = (between 0x30 0x39 c \<or> between 0x41 0x5A c \<or> between 0x61 0x7A c)"

text \<open>What follows an escape sequence at the head of a text, the alternatives in the order of the pattern.\<close>

fun ansi_rest :: "string \<Rightarrow> string option" where
  "ansi_rest (c # d # xs) =
     (if c \<noteq> ESC then None
      else if d = CHR '']'' then after_osc xs
      else if d = CHR ''['' then after_csi xs
      else if d \<in> set ''PX^_'' then after_st xs
      else if d = CHR ''('' \<or> d = CHR '')'' then (if xs \<noteq> [] \<and> ascii_alnum (hd xs) then Some (tl xs) else None)
      else if d = CHR ''='' \<or> d = CHR ''>'' then Some xs
      else None)"
| "ansi_rest xs = None"

lemma after_st_length: "after_st xs = Some ys \<Longrightarrow> length ys < length xs"
  by (induction xs rule: after_st.induct) (auto split: if_splits)

lemma after_osc_length: "after_osc xs = Some ys \<Longrightarrow> length ys < length xs"
  by (induction xs) (auto split: if_splits simp: less_Suc_eq)

lemma after_csi_length: "after_csi xs = Some ys \<Longrightarrow> length ys < length xs"
proof -
  assume "after_csi xs = Some ys"
  then obtain c where "dropWhile (between 0x20 0x2F) (dropWhile (between 0x30 0x3F) xs) = c # ys"
    by (auto simp: after_csi_def split: list.splits if_splits)
  then have "Suc (length ys) \<le> length (dropWhile (between 0x30 0x3F) xs)" by (metis length_Cons length_dropWhile_le)
  then show ?thesis using length_dropWhile_le [of "between 0x30 0x3F" xs] by linarith
qed

lemma ansi_rest_length: "ansi_rest xs = Some ys \<Longrightarrow> length ys < length xs"
proof (cases xs rule: ansi_rest.cases)
  case (1 c d zs)
  assume "ansi_rest xs = Some ys"
  with 1 have "ys = zs \<or> after_osc zs = Some ys \<or> after_csi zs = Some ys \<or> after_st zs = Some ys \<or> ys = tl zs"
    by (simp only: ansi_rest.simps split: if_splits) auto
  then have "length ys \<le> length zs" using after_osc_length after_csi_length after_st_length by fastforce
  with 1 show ?thesis by simp
qed simp_all

function (sequential) ansi_blank :: "string \<Rightarrow> string" where
  "ansi_blank [] = []"
| "ansi_blank (c # xs) = (case ansi_rest (c # xs) of
     Some ys \<Rightarrow> CHR '' '' # ansi_blank ys
   | None \<Rightarrow> c # ansi_blank xs)"
  by pat_completeness auto
termination by (relation "measure length") (auto dest: ansi_rest_length)

fun squeeze :: "string \<Rightarrow> string" where
  "squeeze [] = []"
| "squeeze (c # xs) = (if is_space c then (if xs \<noteq> [] \<and> is_space (hd xs) then squeeze xs else CHR '' '' # squeeze xs) else c # squeeze xs)"

definition terminal_text_compact :: "string \<Rightarrow> string" where
  "terminal_text_compact text = norm_word (squeeze (ansi_blank text))"

text \<open>\<open>\<w>\<close> on the first 256 code points.\<close>

definition word_char :: "char \<Rightarrow> bool" where
  "word_char c = (ascii_alnum c \<or> c = CHR ''_'' \<or> (of_char c :: nat) \<in> {170, 178, 179, 181, 185, 186, 188, 189, 190}
     \<or> (between 192 255 c \<and> (of_char c :: nat) \<noteq> 215 \<and> (of_char c :: nat) \<noteq> 247))"

definition token_at :: "string \<Rightarrow> string \<Rightarrow> nat \<Rightarrow> bool" where
  "token_at w xs i = (starts_with w (drop i xs) \<and> (i = 0 \<or> \<not> word_char (xs ! (i - 1)))
     \<and> (i + length w = length xs \<or> \<not> word_char (xs ! (i + length w))))"

definition last_token_index :: "string \<Rightarrow> string \<Rightarrow> int" where
  "last_token_index w xs = (case filter (token_at w xs) [0..<length xs] of [] \<Rightarrow> -1 | is \<Rightarrow> int (last is))"

definition hermes_terminal_still_resuming :: "string \<Rightarrow> bool" where
  "hermes_terminal_still_resuming text =
     (let compact = terminal_text_compact text; resume_idx = last_token_index ''resuming'' compact in
      compact \<noteq> [] \<and> resume_idx \<ge> 0 \<and> last_token_index ''ready'' compact < resume_idx)"

subsection \<open>The guard chain\<close>

text \<open>The active wrapper terminal of the agent, empty if it has none, and the output of its row.\<close>

record wrapper_terminal =
  w_terminal :: string
  w_output :: "string option"

definition wrapper_terminal_block :: "string \<Rightarrow> wrapper_terminal \<Rightarrow> string \<Rightarrow> string option" where
  "wrapper_terminal_block runtime w bridge_terminal =
     (if w_terminal w = [] then Some ''managed_wrapper_terminal_unavailable''
      else if bridge_terminal \<noteq> w_terminal w then Some ''managed_wrapper_terminal_mismatch''
      else if runtime = ''hermes'' \<and> (case w_output w of None \<Rightarrow> False | Some text \<Rightarrow> hermes_terminal_still_resuming text)
      then Some ''managed_wrapper_terminal_not_ready''
      else None)"

definition environment_block :: "claim_req \<Rightarrow> bool \<Rightarrow> (string \<times> string) option \<Rightarrow> string option" where
  "environment_block q own_bridge env = (case env of
     None \<Rightarrow> None
   | Some (status, bridge) \<Rightarrow>
       if bridge \<noteq> [] \<and> bridge \<noteq> q_bridge q \<and> \<not> own_bridge then Some ''environment_bridge_not_current''
       else if status \<noteq> [] \<and> status \<notin> {''online'', ''degraded''} then Some ''environment_not_online''
       else None)"

definition bridge_claim_block_reason ::
  "denv \<Rightarrow> wrapper_setting \<Rightarrow> wrapper_terminal \<Rightarrow> claim_req \<Rightarrow> agent_row \<Rightarrow> dstate \<Rightarrow> string option" where
  "bridge_claim_block_reason e settings w q row d =
     (let b = map_of (d_bridges d) (q_bridge q, q_agent q);
          runtime = normalize_runtime (or_else (ag_runtime row) ''generic'');
          channel = (''channel'' \<in> set (supported_modes q) \<and> runtime \<in> set CHANNEL_CLAIM_RUNTIMES);
          child = (channel \<and> (case b of None \<Rightarrow> False | Some x \<Rightarrow> py_strip (br_kind x) = ''managed-wrapper-child''));
          sidecar = (channel \<and> is_sidecar q);
          managed = (normalize_session_mode (or_else (ag_session_mode row) ''resident'') = ''managed'');
          current = py_strip (e_agent_bridge e (q_agent q)); env = e_env e (q_agent q);
          wrapped = (''channel'' \<in> set (supported_modes q) \<and> runtime \<in> {''codex'', ''hermes''}
            \<and> managed_via_wrapper_for_runtime settings runtime \<and> \<not> sidecar) in
      if q_bridge q = [] then None
      else if (case b of None \<Rightarrow> False | Some x \<Rightarrow> py_strip (br_superseded_by x) \<noteq> []) then Some ''bridge_superseded''
      else if runtime \<notin> {''codex'', ''opencode'', ''pi'', ''hermes''} then None
      else if (\<not> managed \<or> env = None) \<and> current \<noteq> [] \<and> current \<noteq> q_bridge q \<and> \<not> sidecar then Some ''bridge_not_current''
      else if \<not> managed then None
      else if wrapped \<and> \<not> child then Some ''managed_wrapper_child_required''
      else (case (if wrapped then wrapper_terminal_block runtime w (case b of None \<Rightarrow> [] | Some x \<Rightarrow> py_strip (br_terminal x)) else None) of
          Some reason \<Rightarrow> Some reason
        | None \<Rightarrow> environment_block q (child \<or> sidecar) env))"

lemma unblocked_not_superseded:
  assumes "bridge_claim_block_reason e st w q row d = None" and "q_bridge q \<noteq> []"
    and "map_of (d_bridges d) (q_bridge q, q_agent q) = Some b"
  shows "py_strip (br_superseded_by b) = []"
  using assms by (simp add: bridge_claim_block_reason_def Let_def split: if_splits)

end
