(* ===== verification/DispatchClaim.thy ===== *)
theory DispatchClaim
  imports ClaimBlock OperationalView
begin

text \<open>
  Claiming work: the attempt of \<open>service/dispatch_claim.py\<close> that the claim endpoint repeats, with the run
  selection of \<open>service/api_core/claim_run_selection.py\<close> and the steerable-run test of
  \<open>service/api_core/claim_gating.py\<close>. One attempt is one \<open>BEGIN IMMEDIATE\<close> transaction, so attempts are
  steps that do not interleave.

  The verdicts of two parts are inputs: whether a live resident bridge is adopted as the driver, and whether a live
  console owns the agent's session. So is the view of
  \<open>OperationalView\<close>, or nothing when reading it raised. Of what a claim writes, the driver state of the agent, the time of
  its session, the cached status and the broadcast are outside the run tables and not modelled.
\<close>

declare split_paired_All [simp del] split_paired_Ex [simp del]

definition CHANNEL_CLAIMED_MODES :: "string list" where "CHANNEL_CLAIMED_MODES = [''channel'', ''resident'']"

record claim_env =
  c_env :: denv
  c_tombstone :: bool
  c_machine :: string
  c_status :: string
  c_driver :: string
  c_adopts :: bool
  c_wrapper :: wrapper_terminal
  c_console_blocks :: bool
  c_view :: "view option"
  c_settings :: wrapper_setting

datatype claim_result = Removed | Not_Found | No_Run | Stopped | Release | Blocked string | Claimed drun

definition CLAIM_LIMIT :: nat where "CLAIM_LIMIT = 25"

definition run_mode :: "drun \<Rightarrow> string" where
  "run_mode r = norm_word (or_else (r_execution_mode r) ''managed'')"

definition unsupported :: "string list \<Rightarrow> drun \<Rightarrow> bool" where
  "unsupported modes r = (modes \<noteq> [] \<and> run_mode r \<notin> set modes)"

definition wrong_runtime :: "string \<Rightarrow> string \<Rightarrow> bool" where
  "wrong_runtime requested runtime = (requested \<noteq> [] \<and> normalize_runtime requested \<noteq> runtime)"

subsection \<open>Choosing a run\<close>

text \<open>\<open>ORDER BY requested_at ASC LIMIT 25\<close>.\<close>

definition oldest :: "drun list \<Rightarrow> drun list" where
  "oldest rs = take CLAIM_LIMIT (sort_key r_requested_at rs)"

definition has_claimable_steerable_run :: "agent_row \<Rightarrow> string list \<Rightarrow> string \<Rightarrow> dstate \<Rightarrow> bool" where
  "has_claimable_steerable_run row modes runtime d =
     (''steer'' \<in> set (row_capabilities row) \<and> ag_id row \<noteq> [] \<and>
      (\<exists>r \<in> set (oldest (filter (\<lambda>r. r_target r = ag_id row \<and> is_queued r) (d_runs d))).
         \<not> r_queue_if_busy r \<and> r_steer_if_busy r \<and> run_mode r \<in> set CHANNEL_CLAIMED_MODES \<and> \<not> unsupported modes r
         \<and> \<not> wrong_runtime (py_strip (r_requested_runtime r)) runtime))"

definition final_status :: "drun \<Rightarrow> string" where
  "final_status r = (if norm_word (r_dispatch_mode r) = ''require_start'' then ''failed'' else ''cancelled'')"

text \<open>A run that can never be executed as asked is ended on the way, with an event that says so.\<close>

definition skip_run :: "denv \<Rightarrow> string \<Rightarrow> drun \<Rightarrow> dstate \<Rightarrow> dstate" where
  "skip_run e status r d = append_dispatch_event (r_id r) ''skipped''
     (update_run (r_id r) (\<lambda>_. True) (\<lambda>x. x\<lparr>r_status := status, r_finished_at := Some (e_now e)\<rparr>) d)"

fun select_claimable_run ::
  "denv \<Rightarrow> agent_row \<Rightarrow> string \<Rightarrow> wrapper_setting \<Rightarrow> bool \<Rightarrow> string list \<Rightarrow> drun list \<Rightarrow> dstate \<Rightarrow> drun option \<times> dstate" where
  "select_claimable_run e row runtime settings hold modes [] d = (None, d)"
| "select_claimable_run e row runtime settings hold modes (r # rs) d =
     (if hold \<and> (r_queue_if_busy r \<or> \<not> r_steer_if_busy r) then select_claimable_run e row runtime settings hold modes rs d
      else if unsupported modes r then select_claimable_run e row runtime settings hold modes rs d
      else if norm_word (r_dispatch_mode r) = ''message_only''
      then select_claimable_run e row runtime settings hold modes rs (skip_run e ''cancelled'' r d)
      else if wrong_runtime (r_requested_runtime r) runtime then select_claimable_run e row runtime settings hold modes rs d
      else (case agent_execution_mode row (r_requested_runtime r) (Some settings) of
          Inl _ \<Rightarrow> select_claimable_run e row runtime settings hold modes rs (skip_run e (final_status r) r d)
        | Inr mode \<Rightarrow>
            if or_else (r_execution_mode r) mode \<noteq> mode
            then select_claimable_run e row runtime settings hold modes rs (skip_run e (final_status r) r d)
            else (Some r, d)))"

subsection \<open>The bridge that asks\<close>

text \<open>A live poll of a superseded channel sidecar revives its own row.\<close>

definition unsupersede :: "denv \<Rightarrow> claim_req \<Rightarrow> dstate \<Rightarrow> dstate" where
  "unsupersede e q d =
     (if is_sidecar q \<and> q_bridge q \<noteq> []
      then d\<lparr>d_bridges := map (\<lambda>(k, b). if k = (q_bridge q, q_agent q) \<and> br_superseded_by b \<noteq> []
             then (k, b\<lparr>br_superseded_by := [], br_last_seen := e_now e\<rparr>) else (k, b)) (d_bridges d)\<rparr>
      else d)"

text \<open>The poll is the heartbeat: a sidecar's row is made if no bridge has its id.\<close>

definition sidecar_columns :: "claim_req \<Rightarrow> agent_row \<Rightarrow> bridge \<Rightarrow> bridge" where
  "sidecar_columns q row b = b\<lparr>br_kind := ''channel-sidecar'',
     br_machine := or_else (normalize_machine_id (q_machine q)) (br_machine b),
     br_runtime := normalize_runtime (or_else (ag_runtime row) ''generic''),
     br_session_mode := normalize_session_mode (or_else (ag_session_mode row) ''managed'')\<rparr>"

definition heartbeat :: "denv \<Rightarrow> claim_req \<Rightarrow> agent_row \<Rightarrow> dstate \<Rightarrow> dstate" where
  "heartbeat e q row d =
     (if q_bridge q = [] then d
      else if map_of (d_bridges d) (q_bridge q, q_agent q) \<noteq> None
      then d\<lparr>d_bridges := map (\<lambda>(k, b). if k = (q_bridge q, q_agent q)
             then (k, (if is_sidecar q then sidecar_columns q row b else b)\<lparr>br_last_seen := e_now e\<rparr>) else (k, b)) (d_bridges d)\<rparr>
      else if is_sidecar q \<and> q_bridge q \<notin> (fst \<circ> fst) ` set (d_bridges d)
      then d\<lparr>d_bridges := d_bridges d @ [((q_bridge q, q_agent q), sidecar_columns q row
             \<lparr>br_kind = [], br_terminal = [], br_superseded_by = [], br_last_seen = e_now e, br_machine = [], br_runtime = [],
              br_session_mode = [], br_session_handle = [], br_started_at = []\<rparr>)]\<rparr>
      else d)"

subsection \<open>A run that is already active\<close>

definition owner_heartbeating :: "denv \<Rightarrow> string \<Rightarrow> string \<Rightarrow> dstate \<Rightarrow> bool" where
  "owner_heartbeating e owner a d = (case map_of (d_bridges d) (owner, a) of
     None \<Rightarrow> False
   | Some b \<Rightarrow> py_strip (br_superseded_by b) = [] \<and> e_epoch e (br_last_seen b) \<noteq> 0
       \<and> e_clock e - e_epoch e (br_last_seen b) < ACTIVE_RUN_BRIDGE_STALE_SECONDS)"

definition active_since :: "denv \<Rightarrow> drun \<Rightarrow> int" where
  "active_since e r = e_epoch e (u_or (u_or (case r_started_at r of Some t \<Rightarrow> t | None \<Rightarrow> [])
     (case r_claimed_at r of Some t \<Rightarrow> t | None \<Rightarrow> [])) (r_requested_at r))"

definition stale_seconds :: "denv \<Rightarrow> string \<Rightarrow> int" where
  "stale_seconds e owner = (if owner \<noteq> [] then ACTIVE_RUN_BRIDGE_STALE_SECONDS
     else max 300 ((if e_stale_minutes e = 0 then 30 else e_stale_minutes e) * 60))"

text \<open>Why the active run still blocks a claim, or nothing when it is stale.\<close>

definition active_run_blocks :: "denv \<Rightarrow> claim_req \<Rightarrow> drun \<Rightarrow> dstate \<Rightarrow> string option" where
  "active_run_blocks e q r d =
     (let owner = py_strip (r_claim_bridge r); stale = stale_seconds e owner;
          age = (if active_since e r \<noteq> 0 then e_clock e - active_since e r else stale + 1) in
      if owner \<noteq> [] \<and> owner = q_bridge q then Some ''active_run''
      else if owner \<noteq> [] \<and> owner_heartbeating e owner (q_agent q) d then Some ''active_run_owner_bridge_still_heartbeating''
      else if age < stale then Some ''active_run_owned_by_previous_bridge''
      else None)"

definition heal_active_run :: "denv \<Rightarrow> drun \<Rightarrow> dstate \<Rightarrow> dstate" where
  "heal_active_run e r d = fail_pending_controls_for_run (r_id r)
     (append_dispatch_event (r_id r) ''auto_heal'' (fail_run (e_now e) (r_id r) d))"

subsection \<open>The attempt\<close>

definition claim_gate :: "claim_env \<Rightarrow> agent_row \<Rightarrow> string list \<Rightarrow> string \<Rightarrow> dstate \<Rightarrow> gate" where
  "claim_gate c row modes runtime d = (case c_view c of
     None \<Rightarrow> Withhold
   | Some v \<Rightarrow> claim_decision v (if v_eligibility v = ''known'' \<and> v_busy v = Some True
       then has_claimable_steerable_run row modes runtime d else False))"

definition claimable :: "string \<Rightarrow> drun \<Rightarrow> bool" where
  "claimable a r = (r_target r = a \<and> is_queued r \<and> r_result r = [])"

definition claimed_row :: "denv \<Rightarrow> claim_req \<Rightarrow> string \<Rightarrow> drun \<Rightarrow> drun" where
  "claimed_row e q runtime r = r\<lparr>r_status := ''claimed'', r_claimed_at := Some (e_now e), r_claim_machine := q_machine q,
     r_claim_bridge := q_bridge q, r_runtime := runtime\<rparr>"

definition take_run :: "denv \<Rightarrow> claim_req \<Rightarrow> string \<Rightarrow> drun \<Rightarrow> dstate \<Rightarrow> claim_result \<times> dstate" where
  "take_run e q runtime r d =
     (let d1 = update_run (r_id r) (\<lambda>_. True) (claimed_row e q runtime) d;
          (n, d2) = mark_dispatch_source_messages_read r (q_agent q) (e_now e) d1;
          d3 = append_dispatch_event (r_id r) ''claimed'' d2 in
      (Claimed r, if n > 1 then append_dispatch_event (r_id r) ''read_receipts'' d3 else d3))"

definition pick_run :: "claim_env \<Rightarrow> claim_req \<Rightarrow> agent_row \<Rightarrow> dstate \<Rightarrow> claim_result \<times> dstate" where
  "pick_run c q row d =
     (let e = c_env c; runtime = normalize_runtime (or_else (ag_runtime row) ''generic''); modes = supported_modes q;
          gate = claim_gate c row modes runtime d in
      if gate = Withhold \<or> gate = Hold then (No_Run, d)
      else (case select_claimable_run e row runtime (c_settings c) (gate = Steer) modes
              (oldest (filter (claimable (q_agent q)) (d_runs d))) d of
          (None, d1) \<Rightarrow> (No_Run, d1)
        | (Some r, d1) \<Rightarrow> take_run e q runtime r d1))"

definition releases :: "claim_env \<Rightarrow> claim_req \<Rightarrow> agent_row \<Rightarrow> bool" where
  "releases c q row = (is_sidecar q \<and> normalize_session_mode (or_else (ag_session_mode row) ''resident'') \<noteq> ''managed''
     \<and> norm_word (c_driver c) \<noteq> ''driving'' \<and> \<not> c_adopts c)"

definition console_blocks :: "claim_env \<Rightarrow> claim_req \<Rightarrow> agent_row \<Rightarrow> bool" where
  "console_blocks c q row = (c_console_blocks c \<and>
     \<not> (normalize_runtime (or_else (ag_runtime row) ''generic'') \<in> set CHANNEL_CLAIM_RUNTIMES \<and> ''channel'' \<in> set (supported_modes q)))"

definition claim_dispatch_once :: "claim_env \<Rightarrow> claim_req \<Rightarrow> dstate \<Rightarrow> claim_result \<times> dstate" where
  "claim_dispatch_once c q d = (case e_agent (c_env c) (q_agent q) of
     None \<Rightarrow> (if c_tombstone c then Removed else Not_Found, d)
   | Some row \<Rightarrow>
       if q_machine q \<noteq> [] \<and> c_machine c \<noteq> [] \<and> \<not> machine_ids_same_host (c_machine c) (q_machine q) then (No_Run, d)
       else if norm_word (c_status c) = ''stopped'' then (Stopped, d)
       else if releases c q row then (Release, d)
       else (let d1 = unsupersede (c_env c) q d in
             case bridge_claim_block_reason (c_env c) (c_settings c) (c_wrapper c) q row d1 of Some why \<Rightarrow> (Blocked why, d1)
             | None \<Rightarrow> (let d2 = heartbeat (c_env c) q row d1; active = dv_active (dispatch_state_for_agent (q_agent q) d2) in
                   case (case active of None \<Rightarrow> None | Some r \<Rightarrow> active_run_blocks (c_env c) q r d2) of
                     Some why \<Rightarrow> (Blocked why, d2)
                   | None \<Rightarrow>
                       (let d3 = (case active of None \<Rightarrow> d2 | Some r \<Rightarrow> heal_active_run (c_env c) r d2) in
                        if console_blocks c q row then (Blocked ''console_owner_active'', d3)
                        else pick_run c q row d3))))"

subsection \<open>Quiet changes\<close>

text \<open>A change of the rows that keeps whose they are and makes none active.\<close>

definition calm :: "(drun \<Rightarrow> drun) \<Rightarrow> bool" where
  "calm f = (\<forall>r. r_id (f r) = r_id r \<and> r_target (f r) = r_target r \<and> (is_active (f r) \<longrightarrow> is_active r))"

definition quiet :: "dstate \<Rightarrow> dstate \<Rightarrow> bool" where
  "quiet d d' = (d_next d \<le> d_next d' \<and> (\<exists>f. calm f \<and> d_runs d' = map f (d_runs d)))"

lemma quiet_same: "d_runs d' = d_runs d \<Longrightarrow> d_next d \<le> d_next d' \<Longrightarrow> quiet d d'"
  unfolding quiet_def by (intro conjI exI [of _ "\<lambda>r. r"]) (simp_all add: calm_def)

lemma quiet_refl [simp]: "quiet d d"
  by (simp add: quiet_same)

lemma quiet_trans: "quiet d d' \<Longrightarrow> quiet d' d'' \<Longrightarrow> quiet d d''"
proof -
  assume a: "quiet d d'" and b: "quiet d' d''"
  from a obtain f where f: "calm f" "d_runs d' = map f (d_runs d)" "d_next d \<le> d_next d'" unfolding quiet_def by blast
  from b obtain g where g: "calm g" "d_runs d'' = map g (d_runs d')" "d_next d' \<le> d_next d''" unfolding quiet_def by blast
  have "calm (g \<circ> f)" using f(1) g(1) unfolding calm_def comp_apply by metis
  then show "quiet d d''" unfolding quiet_def using f(2,3) g(2,3) by (intro conjI exI [of _ "g \<circ> f"]) simp_all
qed

lemma quiet_update: "calm f \<Longrightarrow> quiet d (update_run i P f d)"
  unfolding quiet_def update_run_def
  by (intro conjI exI [of _ "\<lambda>r. if r_id r = i \<and> P r then f r else r"]) (simp_all add: calm_def)

lemma quiet_event [simp]: "quiet d (append_dispatch_event i k d') \<longleftrightarrow> quiet d d'"
  by (simp add: quiet_def)

lemma quiet_controls [simp]: "quiet d (fail_pending_controls_for_run i d') \<longleftrightarrow> quiet d d'"
  by (simp add: quiet_def fail_pending_controls_for_run_def Let_def)

lemma quiet_release [simp]: "quiet d (snd (release_claim_receipts r d')) \<longleftrightarrow> quiet d d'"
  by (simp add: quiet_def release_claim_receipts_def Let_def)

lemma calm_status: "s \<notin> {''claimed'', ''running''} \<Longrightarrow> calm (\<lambda>r. r\<lparr>r_status := s, r_finished_at := t\<rparr>)"
  by (simp add: calm_def is_active_def)

lemma quiet_fail [simp]: "quiet d (fail_run t i d)"
  unfolding fail_run_def by (rule quiet_update) (simp add: calm_status)

lemma quiet_requeue: "requeue_instead_of_failing_undelivered_claim i d = Some d' \<Longrightarrow> quiet d d'"
  by (auto simp: requeue_instead_of_failing_undelivered_claim_def Let_def calm_def is_active_def intro!: quiet_update
      split: option.splits if_splits)

lemma quiet_discard: "discard_unusable_active_run e a r d = Some d' \<Longrightarrow> quiet d d'"
  by (auto simp: discard_unusable_active_run_def discard_superseded_active_run_def discard_unclaimable_active_run_def
      fail_stale_active_run_def Let_def quiet_requeue split: option.splits if_splits)

lemma quiet_steer_target: "quiet d (snd (steer_target e a d))"
  by (auto simp: steer_target_def quiet_discard split: option.splits)

lemma quiet_skip: "s \<notin> {''claimed'', ''running''} \<Longrightarrow> quiet d (skip_run e s r d)"
  unfolding skip_run_def quiet_event by (intro quiet_update calm_status)

lemma quiet_select: "quiet d (snd (select_claimable_run e row rt st hold modes rs d))"
proof (induction rs arbitrary: d)
  case (Cons r rs)
  have "quiet d (snd (select_claimable_run e row rt st hold modes rs (skip_run e s r d)))" if "s \<in> {''cancelled'', ''failed''}" for s
    using that by (intro quiet_trans [OF quiet_skip Cons.IH]) auto
  then show ?case using Cons.IH by (auto simp: final_status_def split: sum.splits)
qed simp

lemma quiet_bridges [simp]: "quiet d (unsupersede e q d)" "quiet d (heartbeat e q row d)"
  by (simp_all add: unsupersede_def heartbeat_def quiet_same)

lemma quiet_heal: "quiet d (heal_active_run e r d)"
  by (simp add: heal_active_run_def)

lemma quiet_fold_events: "quiet d (fold (\<lambda>i. append_dispatch_event i k) ids d') \<longleftrightarrow> quiet d d'"
  by (induction ids arbitrary: d') simp_all

lemma quiet_map: "calm f \<Longrightarrow> quiet d (d\<lparr>d_runs := map (\<lambda>r. if P r then f r else r) (d_runs d)\<rparr>)"
  unfolding quiet_def by (intro conjI exI [of _ "\<lambda>r. if P r then f r else r"]) (simp_all add: calm_def)

lemma calm_cancel: "calm (cancel_run e)" "calm (\<lambda>r. (cancel_run e r)\<lparr>r_require_reply := False\<rparr>)"
  by (simp_all add: calm_def cancel_run_def is_active_def)

lemma quiet_chunks:
  "quiet d (snd (fold (cancel_chunk e) cs (acc, d)))" "quiet d (snd (fold (withdraw_chunk e) cs (acc, d)))"
proof -
  have c: "quiet d (snd (cancel_chunk e ms (acc, d)))" "quiet d (snd (withdraw_chunk e ms (acc, d)))" for ms acc d
    by (auto simp: cancel_chunk_def withdraw_chunk_def Let_def quiet_fold_events intro!: quiet_map calm_cancel)
  show "quiet d (snd (fold (cancel_chunk e) cs (acc, d)))"
  proof (induction cs arbitrary: acc d)
    case (Cons m cs)
    then show ?case using quiet_trans [OF c(1) [of d m acc]] by (cases "cancel_chunk e m (acc, d)") auto
  qed simp
  show "quiet d (snd (fold (withdraw_chunk e) cs (acc, d)))"
  proof (induction cs arbitrary: acc d)
    case (Cons m cs)
    then show ?case using quiet_trans [OF c(2) [of d m acc]] by (cases "withdraw_chunk e m (acc, d)") auto
  qed simp
qed

subsection \<open>One active run per agent\<close>

definition active_of :: "string \<Rightarrow> drun list \<Rightarrow> drun list" where
  "active_of a rs = filter (\<lambda>r. r_target r = a \<and> is_active r) rs"

definition runs_ok :: "dstate \<Rightarrow> bool" where
  "runs_ok d = (distinct (map r_id (d_runs d)) \<and> (\<forall>i \<in> set (map r_id (d_runs d)). \<exists>k < d_next d. i = ''run_'' @ nat_str k))"

definition dispatch_ok :: "dstate \<Rightarrow> bool" where
  "dispatch_ok d = (runs_ok d \<and> (\<forall>a. length (active_of a (d_runs d)) \<le> 1))"

lemma nat_str_inj: "nat_str m = nat_str n \<Longrightarrow> m = n"
proof -
  define val where "val = foldl (\<lambda>v c. v * 10 + ((of_char c :: nat) - 48)) 0"
  have digit: "(of_char (digit_char k) :: nat) - 48 = k" if "k < 10" for k using that by (simp add: digit_char_def)
  have "val (nat_str n) = n" for n
  proof (induction n rule: nat_str.induct)
    case (1 n)
    then show ?case by (subst nat_str.simps) (auto simp: val_def digit)
  qed
  then show "nat_str m = nat_str n \<Longrightarrow> m = n" by metis
qed

lemma calm_ids: "calm f \<Longrightarrow> map r_id (map f rs) = map r_id rs"
  by (simp add: calm_def)

lemma calm_active: "calm f \<Longrightarrow> length (active_of a (map f rs)) \<le> length (active_of a rs)"
proof (induction rs)
  case (Cons r rs)
  have "r_target (f r) = r_target r" "is_active (f r) \<Longrightarrow> is_active r" using Cons.prems unfolding calm_def by blast+
  with Cons show ?case by (auto simp: active_of_def)
qed (simp add: active_of_def)

lemma quiet_ok: "quiet d d' \<Longrightarrow> dispatch_ok d \<Longrightarrow> dispatch_ok d'"
proof -
  assume q: "quiet d d'" and ok: "dispatch_ok d"
  from q obtain f where f: "calm f" "d_runs d' = map f (d_runs d)" "d_next d \<le> d_next d'" unfolding quiet_def by blast
  have ids: "map r_id (d_runs d') = map r_id (d_runs d)" unfolding f(2) by (rule calm_ids [OF f(1)])
  have "length (active_of a (d_runs d')) \<le> 1" for a
    using calm_active [OF f(1), of a "d_runs d"] ok unfolding f(2) dispatch_ok_def by (meson le_trans)
  moreover have "runs_ok d'" using ok f(3) unfolding dispatch_ok_def runs_ok_def ids by (meson order_less_le_trans)
  ultimately show "dispatch_ok d'" by (simp add: dispatch_ok_def)
qed

lemma dispatch_ok_others [simp]: "dispatch_ok (append_dispatch_event i k d) = dispatch_ok d" "dispatch_ok (d\<lparr>d_items := x\<rparr>) = dispatch_ok d"
  "dispatch_ok (d\<lparr>d_receipts := y\<rparr>) = dispatch_ok d"
  by (simp_all add: dispatch_ok_def runs_ok_def)

lemma insert_ok:
  assumes "dispatch_ok d" and "r_id r = fresh_run_id d" and "\<not> is_active r"
  shows "dispatch_ok (insert_run r k d)"
proof -
  have "fresh_run_id d \<notin> set (map r_id (d_runs d))"
    using assms(1) nat_str_inj unfolding dispatch_ok_def runs_ok_def fresh_run_id_def by (metis append_same_eq nat_neq_iff same_append_eq)
  then have "runs_ok (insert_run r k d)"
    using assms(1,2) by (fastforce simp: runs_ok_def dispatch_ok_def insert_run_def fresh_run_id_def less_Suc_eq)
  moreover have "active_of a (d_runs (insert_run r k d)) = active_of a (d_runs d)" for a
    using assms(3) by (simp add: active_of_def insert_run_def)
  ultimately show ?thesis using assms(1) by (simp add: dispatch_ok_def)
qed

lemma new_run_simps [simp]: "r_id (new_run e s a i m) = i" "\<not> is_active (new_run e s a i m)"
  by (simp_all add: new_run_def is_active_def)

lemma queue_fresh_ok: "dispatch_ok d \<Longrightarrow> dispatch_ok (snd (queue_fresh e s a m d))"
  by (simp add: queue_fresh_def Let_def insert_ok)

lemma merge_or_queue_ok: "dispatch_ok d \<Longrightarrow> dispatch_ok (snd (merge_or_queue id e s a m d))"
proof -
  assume ok: "dispatch_ok d"
  have "calm (merged_row s q b n)" for q b n by (simp add: calm_def merged_row_def is_active_def)
  then have m: "dispatch_ok (update_run i is_queued (merged_row s q b n) d)" for i q b n
    using ok by (blast intro: quiet_ok quiet_update)
  with m ok queue_fresh_ok show ?thesis
    by (auto simp: merge_or_queue_def Let_def split: option.splits prod.splits)
qed

lemma steer_into_ok: "dispatch_ok d \<Longrightarrow> dispatch_ok (snd (steer_into e s a m r d))"
proof -
  assume ok: "dispatch_ok d"
  obtain c d1 where c: "append_dispatch_control (r_id r) (s_from s) ''steer'' (steer_body s) m d = (c, d1)"
    by (cases "append_dispatch_control (r_id r) (s_from s) ''steer'' (steer_body s) m d")
  then have "quiet d d1" by (auto simp: append_dispatch_control_def Let_def intro: quiet_same)
  with ok have "dispatch_ok d1" by (rule quiet_ok [rotated])
  then show ?thesis using insert_ok [of d1] by (simp add: steer_into_def c Let_def is_active_def new_run_def)
qed

lemma send_ok: "dispatch_ok d \<Longrightarrow> dispatch_ok (snd (create_dispatch_run id e s a d))"
proof -
  assume ok: "dispatch_ok d"
  obtain t d1 where t: "steer_target e a d = (t, d1)" by (cases "steer_target e a d")
  have "dispatch_ok d1" using quiet_ok [OF quiet_steer_target [of d e a] ok] t by simp
  with ok show ?thesis
    using merge_or_queue_ok steer_into_ok by (auto simp: create_dispatch_run_def t Let_def split: option.splits)
qed

subsection \<open>A claim\<close>

lemma select_spec:
  assumes "select_claimable_run e row rt st hold modes rs d = (Some r, d')" and "distinct (map r_id rs)"
  shows "r \<in> set rs" and "hold \<Longrightarrow> r_steer_if_busy r \<and> \<not> r_queue_if_busy r"
    and "filter (\<lambda>x. r_id x = r_id r) (d_runs d') = filter (\<lambda>x. r_id x = r_id r) (d_runs d)"
    and "\<exists>mode. agent_execution_mode row (r_requested_runtime r) (Some st) = Inr mode"
proof -
  have skip: "filter (\<lambda>x. r_id x = i) (d_runs (skip_run e s y d)) = filter (\<lambda>x. r_id x = i) (d_runs d)" if "r_id y \<noteq> i" for s y i d
    using that by (induction "d_runs d") (auto simp: skip_run_def update_run_def filter_map comp_def if_distrib cong: if_cong intro!: map_idI)
  have "r \<in> set rs \<and> (hold \<longrightarrow> r_steer_if_busy r \<and> \<not> r_queue_if_busy r)
      \<and> filter (\<lambda>x. r_id x = r_id r) (d_runs d') = filter (\<lambda>x. r_id x = r_id r) (d_runs d)
      \<and> (\<exists>mode. agent_execution_mode row (r_requested_runtime r) (Some st) = Inr mode)"
    using assms
  proof (induction rs arbitrary: d)
    case (Cons y rs)
    have next_case: ?case if "select_claimable_run e row rt st hold modes rs (skip_run e s y d) = (Some r, d')" for s
      using Cons.IH [OF that] Cons.prems(2) skip [of y "r_id r" s d] by (auto simp: image_iff)
    have same_case: ?case if "select_claimable_run e row rt st hold modes rs d = (Some r, d')"
      using Cons.IH [OF that] Cons.prems(2) by auto
    from Cons.prems(1) show ?case
      by (simp split: if_splits sum.splits) (use next_case same_case in auto)
  qed simp
  then show "r \<in> set rs" "hold \<Longrightarrow> r_steer_if_busy r \<and> \<not> r_queue_if_busy r"
    "filter (\<lambda>x. r_id x = r_id r) (d_runs d') = filter (\<lambda>x. r_id x = r_id r) (d_runs d)"
    "\<exists>mode. agent_execution_mode row (r_requested_runtime r) (Some st) = Inr mode" by blast+
qed

lemma take_run_runs: "d_runs (snd (take_run e q rt r d)) = d_runs (update_run (r_id r) (\<lambda>_. True) (claimed_row e q rt) d)"
  "d_next (snd (take_run e q rt r d)) = d_next d"
  by (simp_all add: take_run_def mark_dispatch_source_messages_read_def update_run_def Let_def split: prod.splits)

lemma claim_one_row:
  assumes "filter (\<lambda>x. r_id x = i) rs = [r]" and "active_of a rs = []" and "r_target r = a"
    and "is_active (h r)" and "r_target (h r) = a"
  shows "active_of b (map (\<lambda>x. if r_id x = i then h x else x) rs) = (if b = a then [h r] else active_of b rs)"
proof -
  obtain us vs where rs: "rs = us @ r # vs" "r_id r = i" "\<forall>x \<in> set us. r_id x \<noteq> i" "filter (\<lambda>x. r_id x = i) vs = []"
    using assms(1) by (auto simp: filter_eq_Cons_iff)
  then have same: "map (\<lambda>x. if r_id x = i then h x else x) us = us" "map (\<lambda>x. if r_id x = i then h x else x) vs = vs"
    by (auto simp: filter_empty_conv intro!: map_idI)
  show ?thesis using assms(2-) rs(1,2) same by (auto simp: active_of_def split: if_splits)
qed

lemma take_run_ok:
  assumes "dispatch_ok d" and "filter (\<lambda>x. r_id x = r_id r) (d_runs d) = [r]" and "active_of a (d_runs d) = []" and "r_target r = a"
  shows "dispatch_ok (snd (take_run e q rt r d))"
    and "active_of a (d_runs (snd (take_run e q rt r d))) = [claimed_row e q rt r]"
proof -
  have runs: "d_runs (snd (take_run e q rt r d)) = map (\<lambda>x. if r_id x = r_id r then claimed_row e q rt x else x) (d_runs d)"
    by (simp add: take_run_runs update_run_def)
  have act: "active_of b (d_runs (snd (take_run e q rt r d))) = (if b = a then [claimed_row e q rt r] else active_of b (d_runs d))" for b
    unfolding runs by (rule claim_one_row [OF assms(2-4)]) (simp_all add: claimed_row_def is_active_def assms(4))
  then show "active_of a (d_runs (snd (take_run e q rt r d))) = [claimed_row e q rt r]" by simp
  have "map r_id (d_runs (snd (take_run e q rt r d))) = map r_id (d_runs d)"
    unfolding runs by (simp add: claimed_row_def)
  then have "runs_ok (snd (take_run e q rt r d))" using assms(1) by (simp add: runs_ok_def dispatch_ok_def take_run_runs(2) del: map_map)
  then show "dispatch_ok (snd (take_run e q rt r d))" using assms(1) act by (simp add: dispatch_ok_def)
qed

lemma filter_id: "distinct (map r_id rs) \<Longrightarrow> r \<in> set rs \<Longrightarrow> filter (\<lambda>x. r_id x = r_id r) rs = [r]"
proof (induction rs)
  case (Cons y rs)
  have "filter (\<lambda>x. r_id x = r_id y) rs = []" using Cons.prems(1) by (auto simp: filter_empty_conv image_iff)
  with Cons show ?case by (auto simp: image_iff)
qed simp

lemma pick_run_spec:
  assumes "pick_run c q row d = (res, d')" and ok: "dispatch_ok d" and idle: "active_of (q_agent q) (d_runs d) = []"
  shows "dispatch_ok d'" and "res = Claimed r \<Longrightarrow> r \<in> set (d_runs d) \<and> claimable (q_agent q) r
    \<and> active_of (q_agent q) (d_runs d') = [claimed_row (c_env c) q (normalize_runtime (or_else (ag_runtime row) ''generic'')) r]
    \<and> (\<exists>v. c_view c = Some v \<and> v_eligibility v = ''known'' \<and> (v_busy v = Some True \<longrightarrow> r_steer_if_busy r \<and> \<not> r_queue_if_busy r))
    \<and> (\<exists>mode. agent_execution_mode row (r_requested_runtime r) (Some (c_settings c)) = Inr mode)"
proof -
  let ?rt = "normalize_runtime (or_else (ag_runtime row) ''generic'')" and ?modes = "supported_modes q"
  let ?g = "claim_gate c row ?modes ?rt d" and ?rs = "oldest (filter (claimable (q_agent q)) (d_runs d))"
  let ?sel = "select_claimable_run (c_env c) row ?rt (c_settings c) (?g = Steer) ?modes ?rs d"
  have dist: "distinct (map r_id (d_runs d))" using ok by (simp add: dispatch_ok_def runs_ok_def)
  have "distinct (map r_id (filter (claimable (q_agent q)) (d_runs d)))" using dist by (rule distinct_map_filter)
  then have "distinct (map r_id (sort_key r_requested_at (filter (claimable (q_agent q)) (d_runs d))))"
    by (simp add: distinct_map)
  then have drs: "distinct (map r_id ?rs)" unfolding oldest_def take_map [symmetric] by (rule distinct_take)
  have qs: "quiet d (snd ?sel)" by (rule quiet_select)
  have main: "dispatch_ok d' \<and> (\<forall>r. res = Claimed r \<longrightarrow> r \<in> set (d_runs d) \<and> claimable (q_agent q) r
    \<and> active_of (q_agent q) (d_runs d') = [claimed_row (c_env c) q ?rt r]
    \<and> (?g = Steer \<longrightarrow> r_steer_if_busy r \<and> \<not> r_queue_if_busy r)
    \<and> (\<exists>mode. agent_execution_mode row (r_requested_runtime r) (Some (c_settings c)) = Inr mode)) \<or> ?g = Withhold \<or> ?g = Hold"
  proof (cases ?sel)
    case (Pair o1 d1)
    show ?thesis
    proof (cases o1)
      case None
      with Pair assms(1) qs ok show ?thesis by (auto simp: pick_run_def Let_def intro: quiet_ok split: if_splits)
    next
      case (Some r)
      with Pair have sel: "?sel = (Some r, d1)" by simp
      have r: "r \<in> set (d_runs d)" "claimable (q_agent q) r"
        using select_spec(1) [OF sel drs] by (auto simp: oldest_def dest: in_set_takeD)
      have ok1: "dispatch_ok d1" using qs ok sel by (metis quiet_ok snd_conv)
      have f1: "filter (\<lambda>x. r_id x = r_id r) (d_runs d1) = [r]"
        using select_spec(3) [OF sel drs] filter_id [OF dist r(1)] by simp
      obtain f where f: "calm f" "d_runs d1 = map f (d_runs d)" using qs sel unfolding quiet_def by auto
      have "active_of (q_agent q) (d_runs d1) = []" using calm_active [OF f(1), of "q_agent q" "d_runs d"] idle by (simp add: f(2))
      note t = take_run_ok [OF ok1 f1 this, of "c_env c" q ?rt]
      have "?g = Withhold \<or> ?g = Hold \<or> (res, d') = take_run (c_env c) q ?rt r d1"
        using assms(1) sel by (auto simp: pick_run_def Let_def split: if_splits)
      moreover have "fst (take_run (c_env c) q ?rt r d1) = Claimed r" by (simp add: take_run_def Let_def split: prod.splits)
      ultimately show ?thesis
        using t r select_spec(2,4) [OF sel drs] by (auto simp: claimable_def prod_eq_iff)
    qed
  qed
  have stuck: "res = No_Run \<and> d' = d" if "?g = Withhold \<or> ?g = Hold" using that assms(1) by (auto simp: pick_run_def Let_def)
  show "dispatch_ok d'" using main stuck ok by auto
  assume res: "res = Claimed r"
  then have g: "?g = Proceed \<or> ?g = Steer" using stuck by (cases ?g) auto
  then obtain v where v: "c_view c = Some v" by (cases "c_view c") (auto simp: claim_gate_def)
  have "v_eligibility v = ''known''" "v_busy v = Some True \<Longrightarrow> ?g = Steer"
    using g v by (auto simp: claim_gate_def claim_decision_def split: if_splits)
  with main res g v show "r \<in> set (d_runs d) \<and> claimable (q_agent q) r
    \<and> active_of (q_agent q) (d_runs d') = [claimed_row (c_env c) q ?rt r]
    \<and> (\<exists>v. c_view c = Some v \<and> v_eligibility v = ''known'' \<and> (v_busy v = Some True \<longrightarrow> r_steer_if_busy r \<and> \<not> r_queue_if_busy r))
    \<and> (\<exists>mode. agent_execution_mode row (r_requested_runtime r) (Some (c_settings c)) = Inr mode)" by auto
qed

lemma active_lookup: "dv_active (dispatch_state_for_agent a d) = None \<longleftrightarrow> active_of a (d_runs d) = []"
  "dv_active (dispatch_state_for_agent a d) = Some r \<Longrightarrow> r \<in> set (active_of a (d_runs d))"
proof -
  let ?rs = "active_of a (d_runs d)"
  have v: "dv_active (dispatch_state_for_agent a d) = first_by activity_time ?rs"
    by (simp add: dispatch_state_for_agent_def active_of_def)
  have s: "set (sort_key activity_time ?rs) = set ?rs" by simp
  show "dv_active (dispatch_state_for_agent a d) = None \<longleftrightarrow> ?rs = []"
    using s unfolding v first_by_def by (cases "sort_key activity_time ?rs") auto
  show "dv_active (dispatch_state_for_agent a d) = Some r \<Longrightarrow> r \<in> set ?rs"
    using s unfolding v first_by_def by (cases "sort_key activity_time ?rs") auto
qed

lemma heal_runs: "d_runs (heal_active_run e x d)
    = map (\<lambda>r. if r_id r = r_id x then r\<lparr>r_status := ''failed'', r_finished_at := Some (e_now e)\<rparr> else r) (d_runs d)"
  by (simp add: heal_active_run_def fail_run_def update_run_def fail_pending_controls_for_run_def Let_def)

lemma heal_queued: "r \<in> set (d_runs (heal_active_run e x d)) \<Longrightarrow> is_queued r \<Longrightarrow> r \<in> set (d_runs d)"
  by (auto simp: heal_runs is_queued_def split: if_splits)

lemma heal_clears:
  assumes "dispatch_ok d" and "x \<in> set (active_of a (d_runs d))"
  shows "active_of a (d_runs (heal_active_run e x d)) = []"
proof -
  have "length (active_of a (d_runs d)) \<le> 1" using assms(1) by (simp add: dispatch_ok_def)
  then have "active_of a (d_runs d) = [x]" using assms(2) by (cases "active_of a (d_runs d)") auto
  then have "set (active_of a (d_runs d)) = {x}" by simp
  then have only: "y = x" if "y \<in> set (d_runs d)" "r_target y = a" "is_active y" for y
    using that unfolding active_of_def set_filter by blast
  have "\<not> is_active (y\<lparr>r_status := ''failed'', r_finished_at := t\<rparr>)" for y t by (simp add: is_active_def)
  then show ?thesis using only unfolding active_of_def heal_runs by (force simp: filter_empty_conv)
qed

lemma bridges_skip [simp]: "d_bridges (skip_run e s r d) = d_bridges d"
  by (simp add: skip_run_def update_run_def)

lemma bridges_heal [simp]: "d_bridges (heal_active_run e x d) = d_bridges d"
  by (simp add: heal_active_run_def fail_run_def update_run_def fail_pending_controls_for_run_def Let_def)

lemma bridges_select [simp]: "d_bridges (snd (select_claimable_run e row rt st hold modes rs d)) = d_bridges d"
  by (induction rs arbitrary: d) (auto split: sum.splits)

lemma bridges_take [simp]: "d_bridges (snd (take_run e q rt r d)) = d_bridges d"
  by (simp add: take_run_def mark_dispatch_source_messages_read_def update_run_def Let_def split: prod.splits)

lemma bridges_pick [simp]: "d_bridges (snd (pick_run c q row d)) = d_bridges d"
proof -
  let ?rt = "normalize_runtime (or_else (ag_runtime row) ''generic'')" and ?modes = "supported_modes q"
  let ?sel = "select_claimable_run (c_env c) row ?rt (c_settings c) (claim_gate c row ?modes ?rt d = Steer) ?modes
    (oldest (filter (claimable (q_agent q)) (d_runs d))) d"
  obtain o1 d1 where sel: "?sel = (o1, d1)" by (cases ?sel)
  then have "d_bridges d1 = d_bridges d" by (metis bridges_select snd_conv)
  then show ?thesis unfolding pick_run_def Let_def sel by (cases o1) simp_all
qed

lemma map_of_map_key: "map_of (map (\<lambda>(k, b). if k = i then (k, f b) else (k, b)) xs) i = map_option f (map_of xs i)"
  by (induction xs) auto

lemma heartbeat_superseded:
  assumes "map_of (d_bridges (heartbeat e q row d)) (q_bridge q, q_agent q) = Some b" and "q_bridge q \<noteq> []"
  shows "br_superseded_by b = [] \<or> (\<exists>x. map_of (d_bridges d) (q_bridge q, q_agent q) = Some x \<and> br_superseded_by b = br_superseded_by x)"
  using assms by (auto simp: heartbeat_def sidecar_columns_def map_of_map_key map_add_def split: if_splits option.splits)

lemma bridges_runs [simp]: "d_runs (unsupersede e q d) = d_runs d" "d_runs (heartbeat e q row d) = d_runs d"
  "d_next (unsupersede e q d) = d_next d" "d_next (heartbeat e q row d) = d_next d"
  by (simp_all add: unsupersede_def heartbeat_def)

lemma claim_cases:
  assumes "claim_dispatch_once c q d = (res, d')" and ok: "dispatch_ok d"
  shows "(\<not> (\<exists>r. res = Claimed r) \<and> dispatch_ok d')
    \<or> (\<exists>row d3. e_agent (c_env c) (q_agent q) = Some row \<and> norm_word (c_status c) \<noteq> ''stopped''
        \<and> bridge_claim_block_reason (c_env c) (c_settings c) (c_wrapper c) q row (unsupersede (c_env c) q d) = None
        \<and> d_bridges d3 = d_bridges (heartbeat (c_env c) q row (unsupersede (c_env c) q d))
        \<and> pick_run c q row d3 = (res, d') \<and> dispatch_ok d3 \<and> active_of (q_agent q) (d_runs d3) = []
        \<and> (\<forall>r. is_queued r \<longrightarrow> r \<in> set (d_runs d3) \<longrightarrow> r \<in> set (d_runs d)))"
proof (cases "e_agent (c_env c) (q_agent q)")
  case None
  then show ?thesis using assms by (auto simp: claim_dispatch_once_def split: if_splits)
next
  case (Some row)
  let ?d2 = "heartbeat (c_env c) q row (unsupersede (c_env c) q d)"
  have ok1: "dispatch_ok (unsupersede (c_env c) q d)" and ok2: "dispatch_ok ?d2"
    using ok quiet_bridges by (blast intro: quiet_ok quiet_trans)+
  let ?a = "dv_active (dispatch_state_for_agent (q_agent q) ?d2)"
  let ?d3 = "case ?a of None \<Rightarrow> ?d2 | Some r \<Rightarrow> heal_active_run (c_env c) r ?d2"
  have d3: "dispatch_ok ?d3 \<and> active_of (q_agent q) (d_runs ?d3) = []
      \<and> (\<forall>r. is_queued r \<longrightarrow> r \<in> set (d_runs ?d3) \<longrightarrow> r \<in> set (d_runs d))"
  proof (cases ?a)
    case None
    then show ?thesis using ok2 active_lookup(1) [of "q_agent q" ?d2] by simp
  next
    case (Some x)
    note act = this
    have "dispatch_ok (heal_active_run (c_env c) x ?d2)" by (rule quiet_ok [OF quiet_heal ok2])
    moreover have "active_of (q_agent q) (d_runs (heal_active_run (c_env c) x ?d2)) = []"
      by (rule heal_clears [OF ok2 active_lookup(2) [OF act]])
    ultimately show ?thesis using act heal_queued [of _ "c_env c" x ?d2] by auto
  qed
  from assms(1) consider
      "\<not> (\<exists>r. res = Claimed r)" "d' \<in> {d, unsupersede (c_env c) q d, ?d2, ?d3}"
    | "norm_word (c_status c) \<noteq> ''stopped''"
        "bridge_claim_block_reason (c_env c) (c_settings c) (c_wrapper c) q row (unsupersede (c_env c) q d) = None"
        "pick_run c q row ?d3 = (res, d')"
    unfolding claim_dispatch_once_def Let_def Some by (auto split: option.splits if_splits)
  then show ?thesis
  proof cases
    case 1
    then show ?thesis using ok ok1 ok2 d3 by auto
  next
    case 2
    moreover have "d_bridges ?d3 = d_bridges ?d2" by (simp split: option.splits)
    ultimately show ?thesis using d3 Some by blast
  qed
qed

lemma claim_ok: "dispatch_ok d \<Longrightarrow> dispatch_ok (snd (claim_dispatch_once c q d))"
  using claim_cases [of c q d] pick_run_spec(1) by (cases "claim_dispatch_once c q d") fastforce

subsection \<open>The life of the run tables\<close>

text \<open>What the modelled operations do to the run tables, in any order and with any inputs.\<close>

inductive dispatch_step :: "dstate \<Rightarrow> dstate \<Rightarrow> bool" where
  send: "dispatch_step d (snd (create_dispatch_runs e s as d))"
| claim: "dispatch_step d (snd (claim_dispatch_once c q d))"
| answer: "dispatch_step d (mark_dispatch_run_answered e i reply st mode d)"
| cancel: "dispatch_step d (snd (cancel_queued_dispatch_run e i d))"
| cancel_many: "dispatch_step d (snd (cancel_queued_dispatch_runs_for_message_ids n e ms d))"
| withdraw: "dispatch_step d (snd (withdraw_delivered_reply_contracts_for_message_ids n e ms d))"
| requeue: "requeue_instead_of_failing_undelivered_claim i d = Some d' \<Longrightarrow> dispatch_step d d'"
| discard: "discard_unusable_active_run e a r d = Some d' \<Longrightarrow> dispatch_step d d'"

lemma sends_ok: "dispatch_ok d \<Longrightarrow> dispatch_ok (snd (create_dispatch_runs e s as d))"
proof (induction as arbitrary: d)
  case (Cons a as)
  then show ?case using send_ok by (auto simp: Let_def split: prod.splits) (metis snd_conv)+
qed simp

lemma quiet_answer: "quiet d (mark_dispatch_run_answered e i reply st mode d)"
  unfolding mark_dispatch_run_answered_def by (rule quiet_update) (simp add: calm_def is_active_def)

lemma quiet_cancel: "quiet d (snd (cancel_queued_dispatch_run e i d))"
  by (simp add: cancel_queued_dispatch_run_def quiet_update calm_cancel)

interpretation dispatches: invariant_system "\<lambda>d. d_runs d = []" dispatch_step dispatch_ok
proof unfold_locales
  show "d_runs d = [] \<Longrightarrow> dispatch_ok d" for d by (simp add: dispatch_ok_def runs_ok_def active_of_def)
  show "dispatch_ok d \<Longrightarrow> dispatch_step d d' \<Longrightarrow> dispatch_ok d'" for d d'
    by (rotate_tac, induction rule: dispatch_step.induct)
      (auto simp: sends_ok claim_ok cancel_queued_dispatch_runs_for_message_ids_def
        withdraw_delivered_reply_contracts_for_message_ids_def
        intro: quiet_ok quiet_answer quiet_cancel quiet_chunks quiet_requeue quiet_discard)
qed

definition demo_view :: view where
  "demo_view = \<lparr>v_status = ''idle'', v_last_known = None, v_deliverable = True, v_eligibility = ''known'', v_busy = Some False,
     v_holds_delivery = Some False, v_run_occupied = False, v_usage_limited_until = None\<rparr>"

definition demo_claim_env :: claim_env where
  "demo_claim_env = \<lparr>c_env = demo_env\<lparr>e_agent := (\<lambda>_. Some demo_codex)\<rparr>, c_tombstone = False, c_machine = [], c_status = ''idle'',
     c_driver = [], c_adopts = False, c_wrapper = \<lparr>w_terminal = [], w_output = None\<rparr>, c_console_blocks = False, c_view = Some demo_view, c_settings = WFlag False\<rparr>"

definition demo_claim :: claim_req where
  "demo_claim = \<lparr>q_agent = ''a'', q_machine = ''linux:h'', q_bridge = ''b1'', q_kind = ''mcp'', q_modes = [''resident'']\<rparr>"

definition demo_resident :: dstate where
  "demo_resident = snd (create_dispatch_runs demo_env (demo_send\<lparr>s_execution := ''resident''\<rparr>) [''a''] no_dispatch)"

definition demo_claimed :: dstate where
  "demo_claimed = snd (claim_dispatch_once demo_claim_env demo_claim demo_resident)"

lemma demo_claimed_reached: "dispatch_step\<^sup>*\<^sup>* no_dispatch demo_claimed"
  unfolding demo_claimed_def demo_resident_def
  by (rule rtranclp.rtrancl_into_rtrancl [OF r_into_rtranclp]) (rule dispatch_step.send, rule dispatch_step.claim)

text \<open>C3. A claim hands over one queued run, once. The run returned was queued for the agent that asks and not yet answered;
  the agent was not stopped, its view was known, and if it was busy the run is one that may be steered; after the
  claim it is the only active run of the agent, held by the bridge that asked, which is not a superseded one; and no
  claim made next, by whatever bridge, returns it again.\<close>

theorem claim_takes_one_queued_run:
  assumes "dispatch_ok d" and "claim_dispatch_once c q d = (Claimed r, d')"
  shows "r \<in> set (d_runs d) \<and> r_target r = q_agent q \<and> is_queued r \<and> r_result r = [] \<and> norm_word (c_status c) \<noteq> ''stopped''
    \<and> (\<exists>v. c_view c = Some v \<and> v_eligibility v = ''known'' \<and> (v_busy v = Some True \<longrightarrow> r_steer_if_busy r \<and> \<not> r_queue_if_busy r))
    \<and> (\<exists>rt. filter (\<lambda>x. r_target x = q_agent q \<and> is_active x) (d_runs d') = [claimed_row (c_env c) q rt r])
    \<and> (\<forall>b. q_bridge q \<noteq> [] \<and> map_of (d_bridges d') (q_bridge q, q_agent q) = Some b \<longrightarrow> py_strip (br_superseded_by b) = [])
    \<and> (\<forall>c' q' r' d''. claim_dispatch_once c' q' d' = (Claimed r', d'') \<longrightarrow> r_id r' \<noteq> r_id r)"
proof -
  have claimed: "r \<in> set (d_runs d) \<and> claimable (q_agent q) r \<and> norm_word (c_status c) \<noteq> ''stopped'' \<and> dispatch_ok d'
    \<and> (\<exists>v. c_view c = Some v \<and> v_eligibility v = ''known'' \<and> (v_busy v = Some True \<longrightarrow> r_steer_if_busy r \<and> \<not> r_queue_if_busy r))
    \<and> (\<exists>rt. active_of (q_agent q) (d_runs d') = [claimed_row (c_env c) q rt r])
    \<and> (\<forall>b. q_bridge q \<noteq> [] \<and> map_of (d_bridges d') (q_bridge q, q_agent q) = Some b \<longrightarrow> py_strip (br_superseded_by b) = [])"
    if c: "claim_dispatch_once c q d = (Claimed r, d')" and ok: "dispatch_ok d" for c q d r d'
  proof -
    from claim_cases [OF c ok] obtain row d3 where p: "pick_run c q row d3 = (Claimed r, d')" "dispatch_ok d3"
      "active_of (q_agent q) (d_runs d3) = []" "norm_word (c_status c) \<noteq> ''stopped''"
      "\<forall>r. is_queued r \<longrightarrow> r \<in> set (d_runs d3) \<longrightarrow> r \<in> set (d_runs d)"
      "bridge_claim_block_reason (c_env c) (c_settings c) (c_wrapper c) q row (unsupersede (c_env c) q d) = None"
      "d_bridges d3 = d_bridges (heartbeat (c_env c) q row (unsupersede (c_env c) q d))" by blast
    have "d_bridges d' = d_bridges d3" using bridges_pick [of c q row d3] p(1) by simp
    then have own: "py_strip (br_superseded_by b) = []"
      if "q_bridge q \<noteq> []" "map_of (d_bridges d') (q_bridge q, q_agent q) = Some b" for b
      using that p(7) heartbeat_superseded [of "c_env c" q row "unsupersede (c_env c) q d" b] unblocked_not_superseded [OF p(6) that(1)] by fastforce
    note spec = pick_run_spec(2) [OF p(1-3) refl]
    have "r \<in> set (d_runs d)" using spec p(5) unfolding claimable_def by blast
    then show ?thesis using spec pick_run_spec(1) [OF p(1-3)] p(4) own by blast
  qed
  note first = claimed [OF assms(2,1)]
  then obtain rt where one: "active_of (q_agent q) (d_runs d') = [claimed_row (c_env c) q rt r]" by blast
  then have "claimed_row (c_env c) q rt r \<in> set (active_of (q_agent q) (d_runs d'))" by simp
  then have row: "claimed_row (c_env c) q rt r \<in> set (d_runs d')" "\<not> is_queued (claimed_row (c_env c) q rt r)"
    "r_id (claimed_row (c_env c) q rt r) = r_id r"
    by (auto simp: active_of_def is_active_def is_queued_def claimed_row_def)
  have ids: "inj_on r_id (set (d_runs d'))" using first by (simp add: dispatch_ok_def runs_ok_def distinct_map)
  have "r_id r' \<noteq> r_id r" if "claim_dispatch_once c' q' d' = (Claimed r', d'')" for c' q' r' d''
    using claimed [OF that] first row ids unfolding claimable_def by (metis inj_onD)
  with first show ?thesis unfolding claimable_def active_of_def by blast
qed

theorem claim_takes_one_queued_run_witness:
  "\<exists>r. claim_dispatch_once demo_claim_env demo_claim demo_resident = (Claimed r, demo_claimed) \<and> r_id r = ''run_0'' \<and> is_queued r
     \<and> (\<forall>c q r' d''. claim_dispatch_once c q demo_claimed = (Claimed r', d'') \<longrightarrow> r_id r' \<noteq> ''run_0'')"
proof -
  let ?c = "claim_dispatch_once demo_claim_env demo_claim demo_resident"
  have "(case fst ?c of Claimed r \<Rightarrow> r_id r = ''run_0'' | _ \<Rightarrow> False)" by code_simp
  then obtain r where r: "?c = (Claimed r, demo_claimed)" "r_id r = ''run_0''"
    unfolding demo_claimed_def by (cases ?c) (auto split: claim_result.splits)
  have "dispatch_step\<^sup>*\<^sup>* no_dispatch demo_resident" unfolding demo_resident_def by (blast intro: dispatch_step.send)
  then have ok: "dispatch_ok demo_resident" by (rule dispatches.inv_reachable [rotated]) (simp add: no_dispatch_def)
  show ?thesis using claim_takes_one_queued_run [OF ok r(1)] r by auto
qed

text \<open>The claim path fails an undelivered run. A claim that finds the agent's run claimed by a bridge that has since gone
  silent marks it failed, although the run was never delivered and the requeue guard, asked about the same
  run, would have put it back in the queue.\<close>

theorem claim_fails_undelivered_run:
  "let late = demo_claim_env\<lparr>c_env := (c_env demo_claim_env)\<lparr>e_clock := 1100\<rparr>\<rparr>;
       (res, d') = claim_dispatch_once late (demo_claim\<lparr>q_bridge := ''b2''\<rparr>) demo_claimed in
   events_of_kind ''run_0'' ''delivered'' demo_claimed = 0
   \<and> map_option (\<lambda>d. map r_status (d_runs d)) (requeue_instead_of_failing_undelivered_claim ''run_0'' demo_claimed) = Some [''queued'']
   \<and> res = No_Run \<and> map r_status (d_runs d') = [''failed'']"
  by code_simp

end
