(* ===== verification/Bridges.thy ===== *)
theory Bridges
  imports DispatchClaim
begin

text \<open>
  Which bridge drives an agent: the registration of a bridge and what it supersedes
  (\<open>service/api_core/bridge_registration.py\<close>, \<open>bridge_supersede.py\<close>), the gate in front of it
  (\<open>same_mode_bridge_gate.py\<close>), and whose id may become an agent's owner (\<open>ownership_authority.py\<close>) with the liveness of an
  environment it is judged by (\<open>service/env_status.py\<close>).

  A bridge row is keyed by its id; the key of the model holds the agent too, as the readers ask for both. Inputs are: which
  stamps SQLite takes to be older than five minutes, the lease of a resident bridge from the settings, and how \<open>fromisoformat\<close> reads
  a stamp (\<open>None\<close> when it raises, else the time and whether it has a zone). The virtual terminals of
  a superseded bridge and the columns no modelled reader asks for are left out.
\<close>

declare split_paired_All [simp del] split_paired_Ex [simp del]

subsection \<open>Registration\<close>

record registration =
  rg_bridge :: string
  rg_agent :: string
  rg_machine :: string
  rg_runtime :: string
  rg_session_mode :: string
  rg_session_handle :: string
  rg_terminal :: string
  rg_wrapper_child :: bool
  rg_started_at :: ustr
  rg_stale :: "ustr \<Rightarrow> bool"

definition rg_kind :: "registration \<Rightarrow> string" where
  "rg_kind g = (if rg_wrapper_child g then ''managed-wrapper-child'' else [])"

definition registered_row :: "denv \<Rightarrow> registration \<Rightarrow> bridge" where
  "registered_row e g = \<lparr>br_kind = rg_kind g, br_terminal = py_strip (rg_terminal g), br_superseded_by = [], br_last_seen = e_now e,
     br_machine = normalize_machine_id (rg_machine g), br_runtime = rg_runtime g, br_session_mode = rg_session_mode g,
     br_session_handle = py_strip (rg_session_handle g), br_started_at = rg_started_at g\<rparr>"

text \<open>\<open>INSERT OR REPLACE\<close>, on the primary key.\<close>

definition insert_bridge :: "string \<times> string \<Rightarrow> bridge \<Rightarrow> dstate \<Rightarrow> dstate" where
  "insert_bridge k b d = d\<lparr>d_bridges := filter (\<lambda>(k', x). fst k' \<noteq> fst k) (d_bridges d) @ [(k, b)]\<rparr>"

definition complementary_pair :: "registration \<Rightarrow> bool" where
  "complementary_pair g = (let new_kind = or_else (rg_kind g) ''managed-resident'' in
     (new_kind = ''managed-wrapper-child'' \<and> rg_session_mode g = ''managed'') \<or> new_kind = ''channel-sidecar'')"

definition same_wrapper_owner :: "registration \<Rightarrow> bridge \<Rightarrow> bool" where
  "same_wrapper_owner g b = (br_runtime b = rg_runtime g \<and> br_session_mode b = rg_session_mode g
     \<and> br_session_handle b = py_strip (rg_session_handle g) \<and> rg_kind g = ''managed-wrapper-child''
     \<and> br_kind b = ''managed-wrapper-child'' \<and> br_terminal b = py_strip (rg_terminal g))"

definition supersedes :: "registration \<Rightarrow> (string \<times> string) \<times> bridge \<Rightarrow> bool" where
  "supersedes g kb = (case kb of ((i, a), b) \<Rightarrow>
     a = rg_agent g \<and> br_machine b = normalize_machine_id (rg_machine g) \<and> i \<noteq> rg_bridge g \<and> br_superseded_by b = []
     \<and> \<not> (rg_session_mode g = ''resident'' \<and> br_kind b = ''channel-sidecar'')
     \<and> \<not> (complementary_pair g \<and> br_session_mode b = ''managed'' \<and> br_kind b \<in> {''channel-sidecar'', ''managed-wrapper-child''}
          \<and> br_kind b \<noteq> or_else (rg_kind g) ''managed-resident'')
     \<and> (rg_stale g (br_last_seen b) \<or> \<not> same_wrapper_owner g b))"

definition owned_by :: "string \<Rightarrow> string \<Rightarrow> string list \<Rightarrow> drun \<Rightarrow> bool" where
  "owned_by a machine ids r = (r_target r = a \<and> is_active r \<and> r_claim_machine r = machine \<and> r_claim_bridge r \<in> set ids)"

definition fail_active_runs_for_superseded_bridges :: "denv \<Rightarrow> string \<Rightarrow> string \<Rightarrow> string list \<Rightarrow> dstate \<Rightarrow> string list \<times> dstate" where
  "fail_active_runs_for_superseded_bridges e a machine ids d =
     (let runs = map r_id (filter (owned_by a machine ids) (d_runs d)) in
      (runs, fold (\<lambda>i d. append_dispatch_event i ''failed'' (fail_run (e_now e) i d)) runs d))"

definition record_bridge_registration :: "denv \<Rightarrow> registration \<Rightarrow> dstate \<Rightarrow> dstate" where
  "record_bridge_registration e g d =
     (let d1 = insert_bridge (rg_bridge g, rg_agent g) (registered_row e g) d;
          ids = map (fst \<circ> fst) (filter (supersedes g) (d_bridges d1)) in
      if ids = [] then d1
      else (let d2 = d1\<lparr>d_bridges := map (\<lambda>(k, b). if fst k \<in> set ids then (k, b\<lparr>br_superseded_by := rg_bridge g\<rparr>) else (k, b)) (d_bridges d1)\<rparr> in
            snd (fail_active_runs_for_superseded_bridges e (rg_agent g) (normalize_machine_id (rg_machine g)) ids d2)))"

subsection \<open>The gate\<close>

definition lease_cutoff :: "int \<Rightarrow> int" where
  "lease_cutoff lease = max 15 (if lease = 0 then 150 else lease)"

definition is_fresh :: "denv \<Rightarrow> int \<Rightarrow> bridge \<Rightarrow> bool" where
  "is_fresh e lease b = (e_epoch e (br_last_seen b) \<noteq> 0 \<and> e_clock e - e_epoch e (br_last_seen b) \<le> lease_cutoff lease)"

definition rival :: "registration \<Rightarrow> (string \<times> string) \<times> bridge \<Rightarrow> bool" where
  "rival g kb = (case kb of ((i, a), b) \<Rightarrow>
     a = rg_agent g \<and> br_machine b = normalize_machine_id (rg_machine g) \<and> i \<noteq> py_strip (rg_bridge g) \<and> br_session_mode b = ''resident''
     \<and> br_kind b \<noteq> ''channel-sidecar'' \<and> br_superseded_by b = [])"

text \<open>\<open>ORDER BY last_seen DESC\<close>, then the first one inside the lease.\<close>

definition fresh_same_mode_bridge_conflict :: "denv \<Rightarrow> int \<Rightarrow> registration \<Rightarrow> dstate \<Rightarrow> ((string \<times> string) \<times> bridge) option" where
  "fresh_same_mode_bridge_conflict e lease g d =
     (if normalize_session_mode (rg_session_mode g) \<noteq> ''resident'' then None
      else find (\<lambda>kb. is_fresh e lease (snd kb)) (rev (sort_key (\<lambda>kb. br_last_seen (snd kb)) (rev (filter (rival g) (d_bridges d))))))"

datatype gate_refusal = Newer_Process_Holds | Live_Bridge_Holds

definition takes_over :: "registration \<Rightarrow> bridge \<Rightarrow> bool" where
  "takes_over g b = (let h = py_strip (rg_session_handle g) in h \<noteq> [] \<and> h = py_strip (br_session_handle b))"

definition enforce_same_mode_bridge_gate :: "denv \<Rightarrow> int \<Rightarrow> bool \<Rightarrow> bool \<Rightarrow> registration \<Rightarrow> dstate \<Rightarrow> gate_refusal + dstate" where
  "enforce_same_mode_bridge_gate e lease known force g d =
     (if \<not> known \<or> rg_bridge g = [] \<or> force then Inr d
      else (case fresh_same_mode_bridge_conflict e lease g d of
          None \<Rightarrow> Inr d
        | Some (k, b) \<Rightarrow>
            if takes_over g b
            then (let incoming = e_epoch e (rg_started_at g); held = e_epoch e (br_started_at b) in
                  if incoming \<noteq> 0 \<and> held \<noteq> 0 \<and> incoming < held then Inl Newer_Process_Holds
                  else if filter (\<lambda>r. r_target r = rg_agent g \<and> is_active r) (d_runs d) = []
                  then Inr (d\<lparr>d_bridges := map (\<lambda>(k', x). if fst k' = fst k then (k', x\<lparr>br_superseded_by := rg_bridge g\<rparr>) else (k', x)) (d_bridges d)\<rparr>)
                  else Inl Live_Bridge_Holds)
            else Inl Live_Bridge_Holds))"

text \<open>The gate and then the registration, as the ordinary path of \<open>_register_agent\<close> has them. The handle that is stored is the sanitised
  one, or none when another agent holds it; the gate reads the one the request names.\<close>

definition register_bridge :: "denv \<Rightarrow> int \<Rightarrow> bool \<Rightarrow> bool \<Rightarrow> registration \<Rightarrow> string \<Rightarrow> dstate \<Rightarrow> gate_refusal + dstate" where
  "register_bridge e lease known force g stored_handle d = (case enforce_same_mode_bridge_gate e lease known force g d of
     Inl x \<Rightarrow> Inl x
   | Inr d1 \<Rightarrow> Inr (if rg_bridge g = [] then d1 else record_bridge_registration e (g\<lparr>rg_session_handle := stored_handle\<rparr>) d1))"

subsection \<open>Environments\<close>

definition ENVIRONMENT_HEARTBEAT_STATUSES :: "string list" where "ENVIRONMENT_HEARTBEAT_STATUSES = [''online'', ''degraded'']"
definition SPAWN_CLAIMER_FRESH_SECONDS :: int where "SPAWN_CLAIMER_FRESH_SECONDS = 90"
definition BRIDGE_STAMP_SKEW_TOLERANCE_SECONDS :: int where "BRIDGE_STAMP_SKEW_TOLERANCE_SECONDS = 120"

text \<open>What \<open>fromisoformat\<close> gives: a time in seconds, read as UTC, and whether the text names a zone.\<close>

type_synonym stamp_reader = "ustr \<Rightarrow> (int \<times> bool) option"

definition age_window :: "int \<Rightarrow> int" where
  "age_window s = max 15 (if s = 0 then 90 else s)"

datatype stamp_state = Fresh | Stale | Absent | Invalid

definition bridge_stamp_state :: "stamp_reader \<Rightarrow> int \<Rightarrow> int \<Rightarrow> ustr \<Rightarrow> stamp_state" where
  "bridge_stamp_state parse now offline_seconds stamp =
     (if u_strip stamp = [] then Absent
      else (case parse (u_strip stamp) of
          None \<Rightarrow> Invalid
        | Some (t, _) \<Rightarrow>
            if now - t < - BRIDGE_STAMP_SKEW_TOLERANCE_SECONDS then Invalid
            else if now - t \<le> age_window offline_seconds then Fresh else Stale))"

definition environment_has_live_bridge :: "stamp_reader \<Rightarrow> int \<Rightarrow> int \<Rightarrow> ustr \<Rightarrow> bool option \<Rightarrow> bool" where
  "environment_has_live_bridge parse now offline_seconds stamp rows_say_live =
     (case bridge_stamp_state parse now offline_seconds stamp of Fresh \<Rightarrow> True | Absent \<Rightarrow> rows_say_live = Some True | _ \<Rightarrow> False)"

record environment =
  en_status :: string
  en_bridge :: string
  en_last_seen :: ustr

text \<open>A stamp that cannot be read, or that has no zone (subtracting it from an aware time raises), leaves the status alone.\<close>

definition environment_effective_status :: "stamp_reader \<Rightarrow> int \<Rightarrow> int \<Rightarrow> environment \<Rightarrow> string" where
  "environment_effective_status parse now offline_seconds n =
     (let status = or_else (en_status n) ''online'' in
      if status \<in> set ENVIRONMENT_HEARTBEAT_STATUSES
      then (case parse (en_last_seen n) of
          Some (t, True) \<Rightarrow> if now - t > age_window offline_seconds then ''offline'' else status
        | _ \<Rightarrow> status)
      else status)"

definition live_environment_bridge_ids :: "stamp_reader \<Rightarrow> int \<Rightarrow> int \<Rightarrow> environment list \<Rightarrow> string set" where
  "live_environment_bridge_ids parse now offline_seconds ns =
     (py_strip \<circ> en_bridge) ` set (filter (\<lambda>n. py_strip (en_bridge n) \<noteq> []
        \<and> environment_effective_status parse now offline_seconds n = ''online'') ns)"

subsection \<open>Who owns an agent\<close>

definition registration_owner_bridge_id :: "string \<Rightarrow> string \<Rightarrow> bool \<Rightarrow> string \<Rightarrow> string" where
  "registration_owner_bridge_id bridge_id session_mode wrapper_child existing =
     (let requested = py_strip bridge_id; mode = norm_word session_mode; kept = py_strip existing in
      if mode = ''managed'' \<or> wrapper_child then kept else if requested \<noteq> [] then requested else kept)"

definition preserved_environment_state :: "string \<Rightarrow> bool \<Rightarrow> (string \<times> string) list \<Rightarrow> (string \<times> string) list" where
  "preserved_environment_state session_mode wrapper_child existing =
     (if \<not> (norm_word session_mode = ''managed'' \<or> wrapper_child) then []
      else filter (\<lambda>(k, v). v \<noteq> []) (map (\<lambda>k. (k, py_strip (case map_of existing k of Some v \<Rightarrow> v | None \<Rightarrow> []))) [''bridgeInstanceId'', ''environmentId'']))"

definition patched_owner_bridge_id :: "string \<Rightarrow> string \<Rightarrow> string \<Rightarrow> string set \<Rightarrow> string" where
  "patched_owner_bridge_id session_mode current incoming live =
     (let mode = norm_word session_mode; cur = py_strip current; inc = py_strip incoming in
      if mode \<noteq> ''managed'' then inc
      else if cur = [] then inc
      else if inc = [] \<or> inc = cur then cur
      else if inc \<in> py_strip ` live - {[]} then inc
      else cur)"

subsection \<open>One driver\<close>

lemma fold_fail_runs:
  "d_runs (fold (\<lambda>i d. append_dispatch_event i k (fail_run t i d)) js d)
     = map (\<lambda>r. if r_id r \<in> set js then r\<lparr>r_status := ''failed'', r_finished_at := Some t\<rparr> else r) (d_runs d)"
proof (induction js arbitrary: d)
  case (Cons i js)
  have "d_runs (append_dispatch_event i k (fail_run t i d)) = map (\<lambda>r. if r_id r = i then r\<lparr>r_status := ''failed'', r_finished_at := Some t\<rparr> else r) (d_runs d)"
    by (simp add: fail_run_def update_run_def)
  with Cons show ?case by (auto simp: fun_eq_iff)
qed simp

lemma fold_fail_others: "d_bridges (fold (\<lambda>i d. append_dispatch_event i k (fail_run t i d)) js d) = d_bridges d"
  "d_next (fold (\<lambda>i d. append_dispatch_event i k (fail_run t i d)) js d) = d_next d"
  by (induction js arbitrary: d) (simp_all add: fail_run_def update_run_def)

lemma fail_active_spec:
  assumes "fail_active_runs_for_superseded_bridges e a machine ids d = (failed, d')"
  shows "d_bridges d' = d_bridges d" and "d_next d' = d_next d"
    and "d_runs d' = map (\<lambda>r. if r_id r \<in> set failed then r\<lparr>r_status := ''failed'', r_finished_at := Some (e_now e)\<rparr> else r) (d_runs d)"
    and "failed = map r_id (filter (owned_by a machine ids) (d_runs d))"
  using assms by (auto simp: fail_active_runs_for_superseded_bridges_def Let_def fold_fail_runs fold_fail_others)

definition superseded_ids :: "denv \<Rightarrow> registration \<Rightarrow> dstate \<Rightarrow> string list" where
  "superseded_ids e g d = map (fst \<circ> fst) (filter (supersedes g) (d_bridges (insert_bridge (rg_bridge g, rg_agent g) (registered_row e g) d)))"

lemma registration_rows:
  "d_bridges (record_bridge_registration e g d) = map (\<lambda>(k, b). if fst k \<in> set (superseded_ids e g d) then (k, b\<lparr>br_superseded_by := rg_bridge g\<rparr>) else (k, b))
     (filter (\<lambda>(k, x). fst k \<noteq> rg_bridge g) (d_bridges d) @ [((rg_bridge g, rg_agent g), registered_row e g)])"
  "d_runs (record_bridge_registration e g d) = map (\<lambda>r. if r_id r \<in> set (map r_id (filter (owned_by (rg_agent g) (normalize_machine_id (rg_machine g)) (superseded_ids e g d)) (d_runs d)))
     then r\<lparr>r_status := ''failed'', r_finished_at := Some (e_now e)\<rparr> else r) (d_runs d)"
  "d_next (record_bridge_registration e g d) = d_next d"
proof -
  let ?d1 = "insert_bridge (rg_bridge g, rg_agent g) (registered_row e g) d"
  let ?ids = "superseded_ids e g d"
  have one: "d_bridges ?d1 = filter (\<lambda>(k, x). fst k \<noteq> rg_bridge g) (d_bridges d) @ [((rg_bridge g, rg_agent g), registered_row e g)]"
    "d_runs ?d1 = d_runs d" "d_next ?d1 = d_next d" by (simp_all add: insert_bridge_def)
  let ?m = "\<lambda>(k, b). if fst k \<in> set ?ids then (k, b\<lparr>br_superseded_by := rg_bridge g\<rparr>) else (k, b)"
  let ?d2 = "?d1\<lparr>d_bridges := map ?m (d_bridges ?d1)\<rparr>"
  have empty: "map ?m xs = xs" "owned_by a m ?ids = (\<lambda>_. False)" if "?ids = []" for xs a m
    using that by (auto intro!: map_idI simp: owned_by_def fun_eq_iff)
  have r: "record_bridge_registration e g d = (if ?ids = [] then ?d1
      else snd (fail_active_runs_for_superseded_bridges e (rg_agent g) (normalize_machine_id (rg_machine g)) ?ids ?d2))"
    by (simp add: record_bridge_registration_def superseded_ids_def Let_def)
  obtain failed d3 where f: "fail_active_runs_for_superseded_bridges e (rg_agent g) (normalize_machine_id (rg_machine g)) ?ids ?d2 = (failed, d3)" by fastforce
  note spec = fail_active_spec [OF f]
  show "d_bridges (record_bridge_registration e g d) = map ?m
      (filter (\<lambda>(k, x). fst k \<noteq> rg_bridge g) (d_bridges d) @ [((rg_bridge g, rg_agent g), registered_row e g)])"
    unfolding r using empty(1) spec(1) one(1) f by simp
  show "d_runs (record_bridge_registration e g d) = map (\<lambda>r. if r_id r \<in> set (map r_id (filter (owned_by (rg_agent g) (normalize_machine_id (rg_machine g)) ?ids) (d_runs d)))
     then r\<lparr>r_status := ''failed'', r_finished_at := Some (e_now e)\<rparr> else r) (d_runs d)"
    unfolding r using empty(2) spec(3,4) one(2) f by (simp add: map_idI)
  show "d_next (record_bridge_registration e g d) = d_next d" unfolding r using spec(2) one(3) f by simp
qed

lemma quiet_registration: "quiet d (record_bridge_registration e g d)"
proof -
  have "calm (\<lambda>r. if r_id r \<in> X then r\<lparr>r_status := ''failed'', r_finished_at := t\<rparr> else r)" for X t
    by (simp add: calm_def is_active_def)
  then show ?thesis unfolding quiet_def registration_rows(2,3) by blast
qed

text \<open>A row that is still not superseded was there before and was none to supersede.\<close>

lemma unsuperseded_row:
  assumes "rg_bridge g \<noteq> []" and "((i, a), b) \<in> set (d_bridges (record_bridge_registration e g d))" and "br_superseded_by b = []" and "i \<noteq> rg_bridge g"
  shows "\<not> supersedes g ((i, a), b)"
proof -
  let ?rows = "filter (\<lambda>(k, x). fst k \<noteq> rg_bridge g) (d_bridges d) @ [((rg_bridge g, rg_agent g), registered_row e g)]"
  from assms(1-3) have row: "((i, a), b) \<in> set ?rows" "i \<notin> set (superseded_ids e g d)"
    unfolding registration_rows(1) by (auto split: if_splits)
  show ?thesis
  proof
    assume "supersedes g ((i, a), b)"
    then have "((i, a), b) \<in> set (filter (supersedes g) ?rows)" using row(1) by (simp only: set_filter mem_Collect_eq)
    then have "i \<in> set (superseded_ids e g d)" by (force simp: superseded_ids_def insert_bridge_def)
    with row(2) show False ..
  qed
qed

lemma bridge_not_own: "rg_bridge g \<notin> set (superseded_ids e g d)"
  by (auto simp: superseded_ids_def supersedes_def)

lemma registered_row_stands: "map_of (d_bridges (record_bridge_registration e g d)) (rg_bridge g, rg_agent g) = Some (registered_row e g)"
proof -
  let ?m = "\<lambda>(k, b). if fst k \<in> set (superseded_ids e g d) then (k, b\<lparr>br_superseded_by := rg_bridge g\<rparr>) else (k, b)"
  have "map_of (map ?m (filter (\<lambda>(k, x). fst k \<noteq> rg_bridge g) (d_bridges d))) (rg_bridge g, rg_agent g) = None"
    by (force simp: map_of_eq_None_iff split: if_splits)
  then show ?thesis unfolding registration_rows(1) using bridge_not_own by (simp add: map_add_def)
qed

lemma newly_superseded:
  assumes "distinct (map (fst \<circ> fst) (d_bridges d))" and "((j, a), x) \<in> set (d_bridges d)" and "br_superseded_by x = []"
    and "((j, a), y) \<in> set (d_bridges (record_bridge_registration e g d))" and "br_superseded_by y \<noteq> []"
  shows "j \<in> set (superseded_ids e g d)"
proof -
  from assms(4) obtain y0 where y0: "((j, a), y0) \<in> set (filter (\<lambda>(k, x). fst k \<noteq> rg_bridge g) (d_bridges d) @ [((rg_bridge g, rg_agent g), registered_row e g)])"
    "j \<in> set (superseded_ids e g d) \<or> y = y0" unfolding registration_rows(1) by (auto split: if_splits)
  have "y0 = registered_row e g \<or> ((j, a), y0) \<in> set (d_bridges d)" using y0(1) by auto
  moreover have "((j, a), y0) \<in> set (d_bridges d) \<Longrightarrow> y0 = x"
    using assms(1,2) by (auto simp: distinct_map dest!: inj_onD [where x = "((j, a), y0)" and y = "((j, a), x)"])
  ultimately have "br_superseded_by y0 = []" using assms(3) by (auto simp: registered_row_def)
  then show ?thesis using y0(2) assms(5) by auto
qed

lemma surviving_run:
  assumes "r \<in> set (d_runs (record_bridge_registration e g d))" and "is_active r" and "r_target r = rg_agent g"
    and "r_claim_machine r = normalize_machine_id (rg_machine g)"
  shows "r_claim_bridge r \<notin> set (superseded_ids e g d)"
proof -
  let ?own = "owned_by (rg_agent g) (normalize_machine_id (rg_machine g)) (superseded_ids e g d)"
  have "r \<in> set (d_runs d)" "r_id r \<notin> set (map r_id (filter ?own (d_runs d)))"
    using assms(1,2) unfolding registration_rows(2) by (auto simp: is_active_def split: if_splits)
  then have "\<not> ?own r" by auto
  then show ?thesis using assms(2-) by (simp add: owned_by_def)
qed

text \<open>C16. A registration leaves one driver. After a bridge registered for an agent on a machine its row stands, not superseded; every other
  bridge of the agent there that is not superseded is a channel sidecar beside a resident session or beside a wrapper child, or a
  wrapper child of the same owner seen in the last five minutes beside a wrapper child; beside any other bridge there is none; and no
  run of the agent on that machine stays claimed or running by a bridge that this registration superseded.\<close>

theorem registration_leaves_one_driver:
  assumes "rg_bridge g \<noteq> []" and "d' = record_bridge_registration e g d" and "distinct (map (fst \<circ> fst) (d_bridges d))"
  shows "map_of (d_bridges d') (rg_bridge g, rg_agent g) = Some (registered_row e g)
    \<and> (\<forall>i b. ((i, rg_agent g), b) \<in> set (d_bridges d') \<and> br_machine b = normalize_machine_id (rg_machine g) \<and> br_superseded_by b = [] \<and> i \<noteq> rg_bridge g
        \<longrightarrow> (rg_session_mode g = ''resident'' \<and> br_kind b = ''channel-sidecar'')
          \<or> (rg_wrapper_child g \<and> (br_kind b = ''channel-sidecar'' \<or> (same_wrapper_owner g b \<and> \<not> rg_stale g (br_last_seen b)))))
    \<and> (\<forall>r \<in> set (d_runs d'). \<forall>j x y. r_target r = rg_agent g \<and> is_active r \<and> r_claim_machine r = normalize_machine_id (rg_machine g)
        \<and> ((j, rg_agent g), x) \<in> set (d_bridges d) \<and> br_superseded_by x = [] \<and> ((j, rg_agent g), y) \<in> set (d_bridges d') \<and> br_superseded_by y \<noteq> []
        \<longrightarrow> r_claim_bridge r \<noteq> j)"
proof -
  let ?d = "record_bridge_registration e g d"
  have others: "(rg_session_mode g = ''resident'' \<and> br_kind b = ''channel-sidecar'')
      \<or> (rg_wrapper_child g \<and> (br_kind b = ''channel-sidecar'' \<or> (same_wrapper_owner g b \<and> \<not> rg_stale g (br_last_seen b))))"
    if "((i, rg_agent g), b) \<in> set (d_bridges ?d)" "br_machine b = normalize_machine_id (rg_machine g)" "br_superseded_by b = []" "i \<noteq> rg_bridge g" for i b
    using unsuperseded_row [OF assms(1) that(1,3,4)] that
    by (auto simp: supersedes_def complementary_pair_def same_wrapper_owner_def rg_kind_def or_else_def split: if_splits)
  have runs: "r_claim_bridge r \<noteq> j"
    if "r \<in> set (d_runs ?d)" "r_target r = rg_agent g" "is_active r" "r_claim_machine r = normalize_machine_id (rg_machine g)"
      "((j, rg_agent g), x) \<in> set (d_bridges d)" "br_superseded_by x = []" "((j, rg_agent g), y) \<in> set (d_bridges ?d)" "br_superseded_by y \<noteq> []" for r j x y
    using surviving_run [OF that(1,3,2,4)] newly_superseded [OF assms(3) that(5-8)] by blast
  show ?thesis unfolding assms(2) using registered_row_stands others runs by blast
qed

definition demo_registration :: registration where
  "demo_registration = \<lparr>rg_bridge = ''b2'', rg_agent = ''a'', rg_machine = ''linux:h'', rg_runtime = ''codex'', rg_session_mode = ''resident'',
     rg_session_handle = ''s1'', rg_terminal = [], rg_wrapper_child = False, rg_started_at = [], rg_stale = (\<lambda>_. False)\<rparr>"

definition demo_bridge :: bridge where
  "demo_bridge = registered_row demo_env demo_registration"

text \<open>An agent whose run is claimed by \<open>b1\<close>, with a channel sidecar beside it.\<close>

definition demo_driven :: dstate where
  "demo_driven = demo_claimed\<lparr>d_bridges := [((''b1'', ''a''), demo_bridge), ((''c1'', ''a''), demo_bridge\<lparr>br_kind := ''channel-sidecar''\<rparr>)]\<rparr>"

theorem registration_leaves_one_driver_witness:
  "map (\<lambda>(k, b). (fst k, br_superseded_by b)) (d_bridges (record_bridge_registration demo_env demo_registration demo_driven))
     = [(''b1'', ''b2''), (''c1'', []), (''b2'', [])]
   \<and> map r_status (d_runs demo_driven) = [''claimed'']
   \<and> filter (\<lambda>r. is_active r \<and> r_target r = ''a'' \<and> r_claim_machine r = ''linux:h'' \<and> r_claim_bridge r = ''b1'')
        (d_runs (record_bridge_registration demo_env demo_registration demo_driven)) = []"
proof -
  let ?d = "record_bridge_registration demo_env demo_registration demo_driven"
  have h: "rg_bridge demo_registration \<noteq> []" "distinct (map (fst \<circ> fst) (d_bridges demo_driven))"
    "normalize_machine_id (rg_machine demo_registration) = ''linux:h''" "rg_agent demo_registration = ''a''"
    "d_bridges demo_driven = [((''b1'', ''a''), demo_bridge), ((''c1'', ''a''), demo_bridge\<lparr>br_kind := ''channel-sidecar''\<rparr>)]"
    "br_superseded_by demo_bridge = []" "map r_status (d_runs demo_driven) = [''claimed'']"
    "d_bridges ?d = [((''b1'', ''a''), demo_bridge\<lparr>br_superseded_by := ''b2''\<rparr>), ((''c1'', ''a''), demo_bridge\<lparr>br_kind := ''channel-sidecar''\<rparr>),
       ((''b2'', ''a''), demo_bridge)]" by code_simp+
  have "r_claim_bridge r \<noteq> ''b1''" if "r \<in> set (d_runs ?d)" "is_active r" "r_target r = ''a''" "r_claim_machine r = ''linux:h''" for r
    using registration_leaves_one_driver [OF h(1) refl h(2), of demo_env] that h(3-6,8) by fastforce
  then show ?thesis using h(6,7,8) by (auto simp: filter_empty_conv)
qed

subsection \<open>Taking a session over\<close>

text \<open>A live resident bridge is replaced only by its own session, at rest. When a registration that does not force is accepted although a
  resident bridge of the agent on the machine is inside its lease, it resumes the session that bridge holds, it is not
  an older process than the one that holds it (as far as both starts are known), and the agent had no run claimed or running;
  the registration ends no run.\<close>

theorem live_bridge_is_replaced_only_at_rest:
  assumes "register_bridge e lease True False g stored_handle d = Inr d'" and "rg_bridge g \<noteq> []"
    and "fresh_same_mode_bridge_conflict e lease g d = Some ((i, a), b)"
  shows "py_strip (rg_session_handle g) \<noteq> [] \<and> py_strip (rg_session_handle g) = py_strip (br_session_handle b)
    \<and> \<not> (e_epoch e (rg_started_at g) \<noteq> 0 \<and> e_epoch e (br_started_at b) \<noteq> 0 \<and> e_epoch e (rg_started_at g) < e_epoch e (br_started_at b))
    \<and> (\<forall>r \<in> set (d_runs d). r_target r = rg_agent g \<longrightarrow> \<not> is_active r) \<and> d_runs d' = d_runs d"
proof -
  let ?d1 = "d\<lparr>d_bridges := map (\<lambda>(k', x). if fst k' = i then (k', x\<lparr>br_superseded_by := rg_bridge g\<rparr>) else (k', x)) (d_bridges d)\<rparr>"
  have ok: "takes_over g b" "\<not> (e_epoch e (rg_started_at g) \<noteq> 0 \<and> e_epoch e (br_started_at b) \<noteq> 0 \<and> e_epoch e (rg_started_at g) < e_epoch e (br_started_at b))"
    "filter (\<lambda>r. r_target r = rg_agent g \<and> is_active r) (d_runs d) = []" "d' = record_bridge_registration e (g\<lparr>rg_session_handle := stored_handle\<rparr>) ?d1"
    using assms by (auto simp: register_bridge_def enforce_same_mode_bridge_gate_def Let_def split: if_splits)
  from ok(3) have idle: "\<forall>r \<in> set (d_runs d). r_target r = rg_agent g \<longrightarrow> \<not> is_active r" by (auto simp: filter_empty_conv)
  then have "filter (owned_by (rg_agent g) m ids) (d_runs ?d1) = []" for m ids by (auto simp: filter_empty_conv owned_by_def)
  then have "d_runs d' = d_runs d" unfolding ok(4) registration_rows(2) by simp
  then show ?thesis using ok(1,2) idle unfolding takes_over_def Let_def by blast
qed

definition demo_resting :: dstate where
  "demo_resting = no_dispatch\<lparr>d_bridges := [((''b1'', ''a''), demo_bridge)]\<rparr>"

theorem live_bridge_is_replaced_only_at_rest_witness:
  "\<exists>d'. register_bridge demo_env 150 True False demo_registration ''s1'' demo_resting = Inr d' \<and> d_runs d' = d_runs demo_resting
     \<and> map (\<lambda>(k, b). (fst k, br_superseded_by b)) (d_bridges d') = [(''b1'', ''b2''), (''b2'', [])]
     \<and> register_bridge demo_env 150 True False demo_registration ''s1'' demo_driven = Inl Live_Bridge_Holds"
proof -
  have c: "fresh_same_mode_bridge_conflict demo_env 150 demo_registration demo_resting = Some ((''b1'', ''a''), demo_bridge)"
    "rg_bridge demo_registration \<noteq> []" by code_simp+
  have "(case register_bridge demo_env 150 True False demo_registration ''s1'' demo_resting of Inl _ \<Rightarrow> False
      | Inr d' \<Rightarrow> map (\<lambda>(k, b). (fst k, br_superseded_by b)) (d_bridges d') = [(''b1'', ''b2''), (''b2'', [])])"
    "register_bridge demo_env 150 True False demo_registration ''s1'' demo_driven = Inl Live_Bridge_Holds" by code_simp+
  moreover from this(1) obtain d' where d': "register_bridge demo_env 150 True False demo_registration ''s1'' demo_resting = Inr d'"
    by (auto split: sum.splits)
  ultimately show ?thesis using live_bridge_is_replaced_only_at_rest [OF d' c(2,1)] by auto
qed

subsection \<open>The owner of a managed agent\<close>

datatype owner_request = Registers string bool | Patches string "environment list" int

text \<open>What becomes of the owner recorded for an agent that stays managed.\<close>

definition next_owner :: "stamp_reader \<Rightarrow> string \<Rightarrow> owner_request \<Rightarrow> string" where
  "next_owner parse owner q = (case q of
     Registers bridge child \<Rightarrow> registration_owner_bridge_id bridge ''managed'' child owner
   | Patches incoming ns now \<Rightarrow> patched_owner_bridge_id ''managed'' owner incoming (live_environment_bridge_ids parse now 90 ns))"

lemma py_strip_strip [simp]: "py_strip (py_strip s) = py_strip s"
  using hd_strip [of s] by (intro strip_id) blast

lemma managed_word: "norm_word ''managed'' = ''managed''"
  by code_simp

definition online_claim :: "stamp_reader \<Rightarrow> string \<Rightarrow> owner_request \<Rightarrow> bool" where
  "online_claim parse owner q = (case q of Registers _ _ \<Rightarrow> False
     | Patches incoming ns now \<Rightarrow> py_strip incoming = owner \<and> (\<exists>n \<in> set ns. py_strip (en_bridge n) = owner
         \<and> environment_effective_status parse now 90 n = ''online''))"

lemma next_owner_cases:
  assumes "py_strip owner = owner" and "owner \<noteq> []"
  shows "next_owner parse owner q = owner \<or> online_claim parse (next_owner parse owner q) q"
    and "py_strip (next_owner parse owner q) = next_owner parse owner q" and "next_owner parse owner q \<noteq> []"
proof -
  have "py_strip ` live_environment_bridge_ids parse now 90 ns = live_environment_bridge_ids parse now 90 ns" for now ns
    unfolding live_environment_bridge_ids_def image_image comp_def by simp
  then show "next_owner parse owner q = owner \<or> online_claim parse (next_owner parse owner q) q"
    "py_strip (next_owner parse owner q) = next_owner parse owner q" "next_owner parse owner q \<noteq> []"
    using assms by (auto simp: next_owner_def registration_owner_bridge_id_def patched_owner_bridge_id_def managed_word online_claim_def
        live_environment_bridge_ids_def Let_def split: owner_request.split)
qed

lemma owners_traced:
  "py_strip owner = owner \<Longrightarrow> owner \<noteq> [] \<Longrightarrow>
   py_strip (foldl (next_owner parse) owner qs) = foldl (next_owner parse) owner qs \<and> foldl (next_owner parse) owner qs \<noteq> []
   \<and> (foldl (next_owner parse) owner qs = owner \<or> (\<exists>q \<in> set qs. online_claim parse (foldl (next_owner parse) owner qs) q))"
proof (induction qs rule: rev_induct)
  case (snoc q qs)
  then show ?case using next_owner_cases [of "foldl (next_owner parse) owner qs" parse q] by auto
qed simp

lemma online_recent:
  assumes "environment_effective_status parse now 90 n = ''online''"
  shows "or_else (en_status n) ''online'' = ''online'' \<and> (\<forall>t. parse (en_last_seen n) = Some (t, True) \<longrightarrow> now - t \<le> 90)"
  using assms by (auto simp: environment_effective_status_def ENVIRONMENT_HEARTBEAT_STATUSES_def age_window_def Let_def split: if_splits option.splits prod.splits bool.splits)

text \<open>A managed agent changes hands only to a live environment. However registrations and patches of its runtime state follow one another,
  the owner recorded for a managed agent is the first one, or was named by a patch while an environment with that bridge was
  online: its status said so, and its last heartbeat, if it can be read, was not older than 90 seconds.\<close>

theorem owner_changes_only_to_live_environment:
  assumes "py_strip owner = owner" and "owner \<noteq> []" and "foldl (next_owner parse) owner qs = final"
  shows "final = owner \<or> (\<exists>incoming ns now n. Patches incoming ns now \<in> set qs \<and> n \<in> set ns \<and> py_strip (en_bridge n) = final \<and> py_strip incoming = final
    \<and> or_else (en_status n) ''online'' = ''online'' \<and> (\<forall>t. parse (en_last_seen n) = Some (t, True) \<longrightarrow> now - t \<le> 90))"
proof -
  have "final = owner \<or> (\<exists>q \<in> set qs. online_claim parse final q)" using owners_traced [OF assms(1,2)] assms(3) by blast
  then show ?thesis
  proof
    assume "\<exists>q \<in> set qs. online_claim parse final q"
    then obtain q where q: "q \<in> set qs" "online_claim parse final q" ..
    obtain incoming ns now n where "Patches incoming ns now \<in> set qs" "py_strip incoming = final" "n \<in> set ns" "py_strip (en_bridge n) = final"
      "environment_effective_status parse now 90 n = ''online''" using q by (cases q rule: owner_request.exhaust) (auto simp: online_claim_def)
    then show ?thesis using online_recent by blast
  qed simp
qed

definition demo_clock :: stamp_reader where
  "demo_clock s = (if s = lit ''t0'' then Some (0, True) else if s = lit ''naive'' then Some (0, False) else None)"

definition demo_environment :: environment where
  "demo_environment = \<lparr>en_status = ''online'', en_bridge = ''envb'', en_last_seen = lit ''t0''\<rparr>"

theorem owner_changes_only_to_live_environment_witness:
  "foldl (next_owner demo_clock) ''old'' [Patches ''side'' [demo_environment] 60, Patches ''envb'' [demo_environment] 600, Registers ''side'' True] = ''old''
   \<and> (\<exists>n :: environment. py_strip (en_bridge n) = foldl (next_owner demo_clock) ''old'' [Patches ''envb'' [demo_environment] 60, Registers ''side'' False]
        \<and> or_else (en_status n) ''online'' = ''online'')"
proof -
  have o: "foldl (next_owner demo_clock) ''old'' [Patches ''envb'' [demo_environment] 60, Registers ''side'' False] = ''envb''"
    "foldl (next_owner demo_clock) ''old'' [Patches ''side'' [demo_environment] 60, Patches ''envb'' [demo_environment] 600, Registers ''side'' True] = ''old''"
    "py_strip ''old'' = ''old''" by code_simp+
  have ne: "''old'' \<noteq> []" "''envb'' \<noteq> ''old''" by code_simp+
  from owner_changes_only_to_live_environment [OF o(3) ne(1) o(1)] have "\<exists>n :: environment. py_strip (en_bridge n) = ''envb'' \<and> or_else (en_status n) ''online'' = ''online''"
    by (elim disjE exE conjE) (use ne(2) in blast)+
  then show ?thesis using o by simp
qed

text \<open>A heartbeat without a zone never ages. An environment whose last heartbeat names no zone, or cannot be read, stays online
  however late it is, and its bridge may take agents over; the stamp of a bridge, read the same late, is stale or invalid.\<close>

theorem unzoned_heartbeat_never_ages:
  "environment_effective_status demo_clock 1000000 90 (demo_environment\<lparr>en_last_seen := lit ''naive''\<rparr>) = ''online''
   \<and> environment_effective_status demo_clock 1000000 90 (demo_environment\<lparr>en_last_seen := lit ''?''\<rparr>) = ''online''
   \<and> next_owner demo_clock ''old'' (Patches ''envb'' [demo_environment\<lparr>en_last_seen := lit ''naive''\<rparr>] 1000000) = ''envb''
   \<and> bridge_stamp_state demo_clock 1000000 90 (lit ''naive'') = Stale \<and> bridge_stamp_state demo_clock 1000000 90 (lit ''?'') = Invalid"
  by code_simp

end
