(* ===== verification/RunPatch.thy ===== *)
theory RunPatch
  imports Bridges
begin

text \<open>
  What a bridge, or the operator, reports of a run: \<open>update_dispatch_run\<close> of
  \<open>service/routers/dispatch_messages/dispatch.py\<close>, the settlement of a run that ended
  (\<open>service/api_core/dispatch_run_settlement.py\<close>) and the parts of it that write the run tables: the handoff and the
  dashboard reply (\<open>dispatch_sweeps.py\<close>, \<open>dashboard_run_report.py\<close>) and the closing of steered contracts
  (\<open>reconcilers/dispatch_lifecycle.py\<close>).

  The row is read before the write transaction begins, so the report works on a row that may be out of date: \<open>update_dispatch_run\<close>
  takes the row it read and the tables as they are when it writes. The ids of the messages the settlement writes, and
  the columns \<open>summary\<close> and \<open>handoff_message_id\<close> that decide whether it writes them, are inputs; the
  messages themselves, the run a handoff starts for its reader (a send of its own), the report to the dashboard of
  a manager's run, the reminders, the agent's status and the broadcast are not modelled.
\<close>

declare split_paired_All [simp del] split_paired_Ex [simp del]

definition DISPATCH_TERMINAL_STATUSES :: "string list" where
  "DISPATCH_TERMINAL_STATUSES = [''completed'', ''failed'', ''cancelled'']"

definition is_finished :: "drun \<Rightarrow> bool" where
  "is_finished r = (r_status r \<in> set DISPATCH_TERMINAL_STATUSES)"

record run_patch =
  u_status :: string
  u_summary :: "ustr option"
  u_error :: "ustr option"
  u_result :: "ustr option"
  u_thread :: "ustr option"
  u_turn :: "ustr option"
  u_runtime :: "string option"
  u_require_reply :: "bool option"
  u_agent_status :: "string option"
  u_append :: bool
  u_event :: string

record settlement =
  m_handoff_id :: ustr
  m_handed_off :: bool
  m_summary :: ustr
  m_dashboard_id :: ustr

subsection \<open>Settling a run that ended\<close>

definition already_mirrored :: "settlement \<Rightarrow> drun \<Rightarrow> bool" where
  "already_mirrored m r = (if norm_word (r_status r) \<in> {''failed'', ''cancelled''} then m_handed_off m \<or> u_strip (r_result r) \<noteq> []
     else u_strip (r_result r) \<noteq> [])"

definition is_delivery_only_claude_run :: "settlement \<Rightarrow> drun \<Rightarrow> bool" where
  "is_delivery_only_claude_run m r = (normalize_runtime (r_runtime r) = ''claude-code'' \<and> norm_word (r_status r) = ''completed''
     \<and> (prefix (lit ''Delivered to Claude resident session'') (u_strip (m_summary m))
        \<or> prefix (lit ''Delivered to Claude channel session'') (u_strip (m_summary m))))"

text \<open>The id of the message that was written, or the empty text, and the tables.\<close>

definition mirror_missing_dispatch_handoff :: "settlement \<Rightarrow> drun \<Rightarrow> dstate \<Rightarrow> ustr \<times> dstate" where
  "mirror_missing_dispatch_handoff m r d =
     (if \<not> r_require_reply r \<or> already_mirrored m r \<or> is_delivery_only_claude_run m r
         \<or> norm_word (r_status r) \<notin> set DISPATCH_TERMINAL_STATUSES then ([], d)
      else (m_handoff_id m, append_dispatch_event (r_id r) ''handoff''
        (if norm_word (r_status r) \<in> {''failed'', ''cancelled''} then d
         else update_run (r_id r) (\<lambda>_. True) (\<lambda>x. x\<lparr>r_result := m_handoff_id m\<rparr>) d)))"

definition mirror_dashboard_run_summary_to_chat :: "settlement \<Rightarrow> bool \<Rightarrow> drun \<Rightarrow> dstate \<Rightarrow> ustr \<times> dstate" where
  "mirror_dashboard_run_summary_to_chat m operator_closed r d =
     (if operator_closed \<or> u_strip (r_from r) \<noteq> lit ''dashboard'' \<or> norm_word (r_status r) \<noteq> ''completed'' \<or> u_strip (r_result r) \<noteq> []
         \<or> is_delivery_only_claude_run m r
         \<or> (case run_of (r_id r) d of Some x \<Rightarrow> u_strip (r_result x) \<noteq> [] | None \<Rightarrow> False)
         \<or> events_of_kind (r_id r) ''operator_closed'' d > 0
         \<or> u_strip (m_summary m) = [] \<or> py_strip (r_target r) = [] then ([], d)
      else (m_dashboard_id m, append_dispatch_event (r_id r) ''handoff''
        (update_run (r_id r) (\<lambda>_. True) (\<lambda>x. x\<lparr>r_result := m_dashboard_id m\<rparr>) d)))"

text \<open>The join of runs and controls on the message: one row per pair, and no row for a run without a message.\<close>

definition steered_contracts :: "drun \<Rightarrow> dstate \<Rightarrow> string list" where
  "steered_contracts parent d =
     concat (map (\<lambda>r. map (\<lambda>c. r_id r) (filter (\<lambda>c. k_run c = r_id parent \<and> k_source c = r_message_id r) (d_controls d)))
       (filter (\<lambda>r. r_message_id r \<noteq> [] \<and> r_dispatch_mode r = ''steer'' \<and> r_status r = ''delivered''
          \<and> r_from r = u_strip (r_from parent) \<and> r_target r = py_strip (r_target parent) \<and> r_result r = []) (d_runs d)))"

definition close_steered_contracts_for_parent_run :: "denv \<Rightarrow> drun \<Rightarrow> ustr \<Rightarrow> dstate \<Rightarrow> dstate" where
  "close_steered_contracts_for_parent_run e parent result_id d =
     (let res = u_strip result_id; ids = steered_contracts parent d in
      if res = [] \<or> py_strip (r_id parent) = [] \<or> u_strip (r_from parent) = [] \<or> py_strip (r_target parent) = [] then d
      else (let d1 = fold (\<lambda>i d. append_dispatch_event i ''handoff'' (mark_dispatch_run_answered e i res ''delivered'' [] d)) ids d in
            if ids \<noteq> [] then append_dispatch_event (r_id parent) ''handoff'' d1 else d1))"

definition settle_terminated_dispatch_run :: "denv \<Rightarrow> settlement \<Rightarrow> string \<Rightarrow> string option \<Rightarrow> bool \<Rightarrow> dstate \<Rightarrow> dstate" where
  "settle_terminated_dispatch_run e m i effective operator_closed d =
     (case effective of None \<Rightarrow> d | Some status \<Rightarrow>
      if status \<notin> set DISPATCH_TERMINAL_STATUSES then d
      else (let d1 = fail_pending_controls_for_run i d in
            case run_of i d1 of None \<Rightarrow> d1
            | Some refreshed \<Rightarrow>
                (let (mirrored, d2) = mirror_missing_dispatch_handoff m refreshed d1;
                     (dashboard, d3) = mirror_dashboard_run_summary_to_chat m operator_closed refreshed d2 in
                 close_steered_contracts_for_parent_run e refreshed
                   (u_strip (u_or (u_or (r_result refreshed) mirrored) dashboard)) d3)))"

subsection \<open>The report\<close>

definition effective_status :: "run_patch \<Rightarrow> drun \<Rightarrow> string option" where
  "effective_status u row =
     (let current = norm_word (r_status row); requested = norm_word (u_status u) in
      if requested = [] \<or> (current \<in> set DISPATCH_TERMINAL_STATUSES \<and> requested \<noteq> current) then None else Some requested)"

text \<open>The columns of the outcome: status, start and end. Summary and error text are written with them.\<close>

definition outcome_columns :: "denv \<Rightarrow> run_patch \<Rightarrow> drun \<Rightarrow> drun \<Rightarrow> drun" where
  "outcome_columns e u row r = (case effective_status u row of None \<Rightarrow> r
     | Some s \<Rightarrow> r\<lparr>r_status := s,
         r_started_at := (if s = ''running'' \<and> (r_started_at row = None \<or> r_started_at row = Some []) then Some (e_now e) else r_started_at r),
         r_finished_at := (if s \<in> set DISPATCH_TERMINAL_STATUSES then Some (e_now e) else r_finished_at r)\<rparr>)"

definition has_outcome :: "run_patch \<Rightarrow> drun \<Rightarrow> bool" where
  "has_outcome u row = (effective_status u row \<noteq> None \<or> u_summary u \<noteq> None \<or> u_error u \<noteq> None)"

definition new_result :: "run_patch \<Rightarrow> drun \<Rightarrow> ustr option" where
  "new_result u row = (case u_result u of None \<Rightarrow> None
     | Some m \<Rightarrow> if u_strip m \<noteq> [] \<or> u_strip (r_result row) = [] then Some (u_strip m) else None)"

definition other_columns :: "run_patch \<Rightarrow> drun \<Rightarrow> drun \<Rightarrow> drun" where
  "other_columns u row r = r\<lparr>r_result := (case new_result u row of Some m \<Rightarrow> m | None \<Rightarrow> r_result r),
     r_runtime := (case u_runtime u of Some t \<Rightarrow> t | None \<Rightarrow> r_runtime r),
     r_require_reply := (case u_require_reply u of Some b \<Rightarrow> b | None \<Rightarrow> r_require_reply r)\<rparr>"

definition has_others :: "run_patch \<Rightarrow> drun \<Rightarrow> bool" where
  "has_others u row = (new_result u row \<noteq> None \<or> u_thread u \<noteq> None \<or> u_turn u \<noteq> None \<or> u_runtime u \<noteq> None \<or> u_require_reply u \<noteq> None)"

definition operator_close :: "run_patch \<Rightarrow> bool" where
  "operator_close u = (py_strip (u_event u) = ''operator_closed'')"

text \<open>The write: the tables after it, and whether the answer says that the run had already ended.\<close>

definition update_dispatch_run :: "denv \<Rightarrow> settlement \<Rightarrow> run_patch \<Rightarrow> drun \<Rightarrow> dstate \<Rightarrow> bool \<times> dstate" where
  "update_dispatch_run e m u row d =
     (let i = r_id row; closing = operator_close u;
          open_row = (\<lambda>r. \<not> is_finished r);
          closed_now = (closing \<and> has_outcome u row \<and> rowcount i open_row d = 1);
          refused = (closing \<and> has_outcome u row \<and> \<not> closed_now);
          effective = (if refused then None else effective_status u row);
          d1 = (if closing \<and> has_outcome u row then update_run i open_row (outcome_columns e u row) d else d);
          d2 = (if closing then (if has_others u row then update_run i (\<lambda>_. True) (other_columns u row) d1 else d1)
                else if has_outcome u row \<or> has_others u row
                then settle_terminated_dispatch_run e m i effective False
                       (update_run i (\<lambda>_. True) (\<lambda>r. other_columns u row (outcome_columns e u row r)) d1)
                else d1);
          d3 = (if closed_now then settle_terminated_dispatch_run e m i effective True d2 else d2);
          d4 = (if u_append u then append_dispatch_event i (or_else (u_event u) ''info'') d3 else d3) in
      (closing \<and> (refused \<or> norm_word (r_status row) \<in> set DISPATCH_TERMINAL_STATUSES), d4))"

datatype patch_error = Stop_Marker string | No_Such_Run

text \<open>The handler with nothing in between: the row it reads is the row it writes.\<close>

definition patch_run :: "denv \<Rightarrow> settlement \<Rightarrow> string \<Rightarrow> run_patch \<Rightarrow> dstate \<Rightarrow> patch_error + bool \<times> dstate" where
  "patch_run e m i u d = (case stop_marker_refusal [(''agentStatus'', u_agent_status u)] of
     Some why \<Rightarrow> Inl (Stop_Marker why)
   | None \<Rightarrow> (case run_of i d of None \<Rightarrow> Inl No_Such_Run | Some row \<Rightarrow> Inr (update_dispatch_run e m u row d)))"

subsection \<open>Rows by id\<close>

lemma find_map_id: "(\<And>r. r_id (f r) = r_id r) \<Longrightarrow> find (\<lambda>r. r_id r = i) (map f rs) = map_option f (find (\<lambda>r. r_id r = i) rs)"
  by (induction rs) auto

lemma run_of_update:
  assumes "\<And>r. r_id (f r) = r_id r"
  shows "run_of i (update_run j P f d) = map_option (\<lambda>r. if r_id r = j \<and> P r then f r else r) (run_of i d)"
  unfolding run_of_def update_run_def by (simp add: find_map_id assms)

lemma run_of_id: "run_of i d = Some r \<Longrightarrow> r_id r = i \<and> r \<in> set (d_runs d)"
  by (auto simp: run_of_def find_Some_iff)

lemma run_of_others [simp]: "run_of i (append_dispatch_event j k d) = run_of i d" "run_of i (fail_pending_controls_for_run j d) = run_of i d"
  by (simp_all add: run_of_def append_dispatch_event_def fail_pending_controls_for_run_def Let_def)

lemma run_of_answer_other: "j \<noteq> i \<Longrightarrow> run_of i (mark_dispatch_run_answered e j res st mode d) = run_of i d"
  unfolding mark_dispatch_run_answered_def
  by (subst run_of_update) (cases "run_of i d"; auto dest: run_of_id)+

lemma run_of_answers: "i \<notin> set ids
   \<Longrightarrow> run_of i (fold (\<lambda>j d. append_dispatch_event j k (mark_dispatch_run_answered e j res st mode d)) ids d) = run_of i d"
  by (induction ids arbitrary: d) (auto simp: run_of_answer_other)

text \<open>The times and the status of a row: what an outcome is.\<close>

definition outcome_of :: "drun \<Rightarrow> string \<times> ustr option \<times> ustr option" where
  "outcome_of r = (r_status r, r_started_at r, r_finished_at r)"

definition outcome_at :: "string \<Rightarrow> dstate \<Rightarrow> (string \<times> ustr option \<times> ustr option) option" where
  "outcome_at i d = map_option outcome_of (run_of i d)"

lemma outcome_at_update:
  assumes "\<And>r. r_id (f r) = r_id r" and "\<And>r. r_id r = j \<Longrightarrow> P r \<Longrightarrow> outcome_of (f r) = outcome_of r"
  shows "outcome_at i (update_run j P f d) = outcome_at i d"
  unfolding outcome_at_def run_of_update [OF assms(1)] by (cases "run_of i d") (simp_all add: assms(2))

lemma outcome_at_events [simp]: "outcome_at i (append_dispatch_event j k d) = outcome_at i d"
  "outcome_at i (fail_pending_controls_for_run j d) = outcome_at i d"
  by (simp_all add: outcome_at_def)

lemma outcome_at_mirrors [simp]: "outcome_at i (snd (mirror_missing_dispatch_handoff m r d)) = outcome_at i d"
  "outcome_at i (snd (mirror_dashboard_run_summary_to_chat m b r d)) = outcome_at i d"
  by (simp_all add: mirror_missing_dispatch_handoff_def mirror_dashboard_run_summary_to_chat_def outcome_at_update outcome_of_def)

lemma outcome_at_others: "outcome_at i (update_run j P (other_columns u row) d) = outcome_at i d"
  by (rule outcome_at_update) (simp_all add: other_columns_def outcome_of_def)

lemma finished_outcome: "run_of i d = Some r \<Longrightarrow> outcome_at i d' = outcome_at i d \<Longrightarrow> \<exists>r'. run_of i d' = Some r' \<and> outcome_of r' = outcome_of r"
  by (auto simp: outcome_at_def)

lemma finished_not_steered:
  assumes "distinct (map r_id (d_runs d))" and "run_of i d = Some r" and "is_finished r"
  shows "i \<notin> set (steered_contracts parent d)"
proof
  assume "i \<in> set (steered_contracts parent d)"
  then obtain x where "x \<in> set (d_runs d)" "r_id x = i" "r_status x = ''delivered''" by (auto simp: steered_contracts_def)
  moreover have "r_id r = i" "r \<in> set (d_runs d)" using run_of_id [OF assms(2)] by auto
  ultimately have "x = r" using assms(1) by (auto simp: distinct_map dest: inj_onD)
  with \<open>r_status x = ''delivered''\<close> assms(3) show False by (simp add: is_finished_def DISPATCH_TERMINAL_STATUSES_def)
qed

lemma ids_kept:
  "map r_id (d_runs (update_run j P (\<lambda>x. x\<lparr>r_result := y\<rparr>) d)) = map r_id (d_runs d)"
  "map r_id (d_runs (fail_pending_controls_for_run j d)) = map r_id (d_runs d)"
  "map r_id (d_runs (snd (mirror_missing_dispatch_handoff m r d))) = map r_id (d_runs d)"
  "map r_id (d_runs (snd (mirror_dashboard_run_summary_to_chat m b r d))) = map r_id (d_runs d)"
  by (auto simp: update_run_def fail_pending_controls_for_run_def mirror_missing_dispatch_handoff_def
      mirror_dashboard_run_summary_to_chat_def append_dispatch_event_def Let_def)

text \<open>Settling changes the outcome of no run that ended before.\<close>

lemma settle_keeps_outcome:
  assumes "distinct (map r_id (d_runs d))" and "run_of i d = Some r" and "is_finished r"
  shows "outcome_at i (settle_terminated_dispatch_run e m j eff b d) = outcome_at i d"
proof (cases "run_of j (fail_pending_controls_for_run j d)")
  case (Some x)
  let ?d1 = "fail_pending_controls_for_run j d"
  let ?d2 = "snd (mirror_missing_dispatch_handoff m x ?d1)"
  let ?d3 = "snd (mirror_dashboard_run_summary_to_chat m b x ?d2)"
  have o3: "outcome_at i ?d3 = outcome_at i d" by simp
  then obtain r' where r': "run_of i ?d3 = Some r'" "outcome_of r' = outcome_of r" using finished_outcome [OF assms(2)] by blast
  then have "is_finished r'" using assms(3) by (simp add: is_finished_def outcome_of_def)
  moreover have "distinct (map r_id (d_runs ?d3))" using assms(1) by (simp only: ids_kept)
  ultimately have no: "i \<notin> set (steered_contracts x ?d3)" using finished_not_steered r'(1) by blast
  have "outcome_at i (close_steered_contracts_for_parent_run e x res ?d3) = outcome_at i d" for res
    using no o3 by (simp add: close_steered_contracts_for_parent_run_def Let_def outcome_at_def run_of_answers)
  then show ?thesis using Some by (simp add: settle_terminated_dispatch_run_def Let_def split_beta split: option.split)
qed (simp add: settle_terminated_dispatch_run_def Let_def split: option.split)

lemma norm_finished: "s \<in> set DISPATCH_TERMINAL_STATUSES \<Longrightarrow> norm_word s = s"
proof -
  have "\<forall>s \<in> set DISPATCH_TERMINAL_STATUSES. norm_word s = s" by code_simp
  then show "s \<in> set DISPATCH_TERMINAL_STATUSES \<Longrightarrow> norm_word s = s" by blast
qed

lemma update_none: "rowcount i P d = 0 \<Longrightarrow> update_run i P f d = d"
  by (cases d) (auto simp: rowcount_def update_run_def filter_empty_conv intro!: map_idI)

lemma closed_row_stays:
  assumes "distinct (map r_id (d_runs d))" and "run_of i d = Some r" and "is_finished r" and "operator_close u" and "r_id row = i"
  shows "outcome_at i (snd (update_dispatch_run e m u row d)) = outcome_at i d"
    and "has_outcome u row \<Longrightarrow> fst (update_dispatch_run e m u row d)"
proof -
  have "\<not> (r_id x = i \<and> \<not> is_finished x)" if "x \<in> set (d_runs d)" for x
    using that run_of_id [OF assms(2)] assms(1,3) by (auto simp: distinct_map dest: inj_onD)
  then have zero: "rowcount i (\<lambda>r. \<not> is_finished r) d = 0" by (auto simp: rowcount_def filter_empty_conv)
  show "outcome_at i (snd (update_dispatch_run e m u row d)) = outcome_at i d"
    using assms(4,5) zero by (simp add: update_dispatch_run_def Let_def update_none outcome_at_others)
  show "has_outcome u row \<Longrightarrow> fst (update_dispatch_run e m u row d)"
    using assms(4,5) zero by (simp add: update_dispatch_run_def Let_def)
qed

lemma outcome_columns_finished: "is_finished r \<Longrightarrow> r_status (outcome_columns e u r r) = r_status r"
  by (auto simp: outcome_columns_def effective_status_def is_finished_def norm_finished Let_def split: if_splits)

lemma patched_ids: "r_id (outcome_columns e u row r) = r_id r" "r_id (other_columns u row r) = r_id r" "r_status (other_columns u row r) = r_status r"
  by (simp_all add: outcome_columns_def other_columns_def split: option.split)

lemma reported_row_stays:
  assumes "distinct (map r_id (d_runs d))" and "run_of i d = Some r" and "is_finished r" and "\<not> operator_close u"
  shows "\<exists>r'. run_of i (snd (update_dispatch_run e m u r d)) = Some r' \<and> r_status r' = r_status r"
proof -
  let ?f = "\<lambda>x. other_columns u r (outcome_columns e u r x)"
  let ?d1 = "update_run i (\<lambda>_. True) ?f d"
  have i: "r_id r = i" using run_of_id [OF assms(2)] by simp
  have r1: "run_of i ?d1 = Some (?f r)" using assms(2) i by (subst run_of_update) (simp_all add: patched_ids)
  have st: "r_status (?f r) = r_status r" using assms(3) by (simp add: patched_ids outcome_columns_finished)
  have "distinct (map r_id (d_runs ?d1))" using assms(1) by (simp add: update_run_def comp_def patched_ids if_distrib cong: if_cong)
  then have "outcome_at i (settle_terminated_dispatch_run e m i eff False ?d1) = outcome_at i ?d1" for eff
    using settle_keeps_outcome [OF _ r1] st assms(3) by (simp add: is_finished_def)
  then have "\<exists>r'. run_of i (settle_terminated_dispatch_run e m i eff False ?d1) = Some r' \<and> r_status r' = r_status r" for eff
    using finished_outcome [OF r1] st by (fastforce simp: outcome_of_def)
  then show ?thesis using assms(2,4) i by (simp add: update_dispatch_run_def Let_def)
qed

text \<open>C23. What has ended stays ended. A report on a run that has ended leaves its status as it was, whatever status it names; and an
  operator's close of a run that ended after the close had read it (the row it holds is out of date) leaves status, start
  and end of the run as they were, and says that it had already ended.\<close>

theorem ended_run_keeps_its_outcome:
  assumes "distinct (map r_id (d_runs d))" and "run_of i d = Some r" and "is_finished r"
  shows "(\<forall>x d'. patch_run e m i u d = Inr (x, d') \<longrightarrow> (\<exists>r'. run_of i d' = Some r' \<and> r_status r' = r_status r))
    \<and> (\<forall>row. operator_close u \<and> r_id row = i \<longrightarrow>
         (\<exists>r'. run_of i (snd (update_dispatch_run e m u row d)) = Some r' \<and> outcome_of r' = outcome_of r)
         \<and> (has_outcome u row \<longrightarrow> fst (update_dispatch_run e m u row d)))"
proof -
  have closed: "(\<exists>r'. run_of i (snd (update_dispatch_run e m u row d)) = Some r' \<and> outcome_of r' = outcome_of r)
      \<and> (has_outcome u row \<longrightarrow> fst (update_dispatch_run e m u row d))" if "operator_close u" "r_id row = i" for row
    using closed_row_stays [OF assms that] finished_outcome [OF assms(2)] by blast
  have "\<exists>r'. run_of i d' = Some r' \<and> r_status r' = r_status r" if p: "patch_run e m i u d = Inr (x, d')" for x d'
  proof -
    have "d' = snd (update_dispatch_run e m u r d)" using p assms(2) by (auto simp: patch_run_def split: option.splits)
    then show ?thesis
      using reported_row_stays [OF assms] closed [of r] run_of_id [OF assms(2)] by (cases "operator_close u") (auto simp: outcome_of_def)
  qed
  with closed show ?thesis by blast
qed

definition demo_report :: run_patch where
  "demo_report = \<lparr>u_status = ''Failed'', u_summary = None, u_error = None, u_result = None, u_thread = None, u_turn = None,
     u_runtime = None, u_require_reply = None, u_agent_status = None, u_append = True, u_event = ''failed''\<rparr>"

definition demo_settlement :: settlement where
  "demo_settlement = \<lparr>m_handoff_id = lit ''h1'', m_handed_off = False, m_summary = [], m_dashboard_id = []\<rparr>"

definition demo_row :: drun where
  "demo_row = hd (d_runs demo_claimed)"

definition demo_failed :: dstate where
  "demo_failed = snd (update_dispatch_run demo_env demo_settlement demo_report demo_row demo_claimed)"

definition demo_close :: run_patch where
  "demo_close = demo_report\<lparr>u_status := ''completed'', u_event := ''operator_closed''\<rparr>"

theorem ended_run_keeps_its_outcome_witness:
  "map r_status (d_runs demo_failed) = [''failed''] \<and> r_status demo_row = ''claimed''
   \<and> fst (update_dispatch_run demo_env demo_settlement demo_close demo_row demo_failed)
   \<and> (\<exists>r'. run_of ''run_0'' (snd (update_dispatch_run demo_env demo_settlement demo_close demo_row demo_failed)) = Some r'
        \<and> r_status r' = ''failed'')"
proof -
  have f: "map r_status (d_runs demo_failed) = [''failed'']" "r_status demo_row = ''claimed''" "operator_close demo_close"
    "r_id demo_row = ''run_0''" "has_outcome demo_close demo_row" "distinct (map r_id (d_runs demo_failed))" by code_simp+
  have "map_option (\<lambda>r. r_status r) (run_of ''run_0'' demo_failed) = Some ''failed''" by code_simp
  then obtain r where r: "run_of ''run_0'' demo_failed = Some r" "r_status r = ''failed''" by auto
  have "is_finished r" using r(2) by (simp add: is_finished_def DISPATCH_TERMINAL_STATUSES_def)
  from ended_run_keeps_its_outcome [OF f(6) r(1) this, of demo_env demo_settlement demo_close] f r(2)
  show ?thesis by (auto simp: outcome_of_def)
qed

subsection \<open>Reports and the one active run\<close>

declare quiet_trans [trans]

lemma quiet_active_update:
  assumes "\<And>r. r_id (f r) = r_id r \<and> r_target (f r) = r_target r" and "\<forall>r \<in> set (d_runs d). r_id r = i \<and> P r \<longrightarrow> is_active r"
  shows "quiet d (update_run i P f d)"
proof -
  have "calm (\<lambda>r. if r_id r = i \<and> P r \<and> is_active r then f r else r)" using assms(1) by (auto simp: calm_def)
  moreover have "d_runs (update_run i P f d) = map (\<lambda>r. if r_id r = i \<and> P r \<and> is_active r then f r else r) (d_runs d)"
    using assms(2) by (auto simp: update_run_def)
  ultimately show ?thesis by (auto simp: quiet_def update_run_def)
qed

lemma quiet_mirrors: "quiet d (snd (mirror_missing_dispatch_handoff m r d))" "quiet d (snd (mirror_dashboard_run_summary_to_chat m b r d))"
proof -
  have "quiet d (update_run j P (\<lambda>x. x\<lparr>r_result := y\<rparr>) d)" for j P y by (rule quiet_update) (simp add: calm_def is_active_def)
  then show "quiet d (snd (mirror_missing_dispatch_handoff m r d))" "quiet d (snd (mirror_dashboard_run_summary_to_chat m b r d))"
    by (simp_all add: mirror_missing_dispatch_handoff_def mirror_dashboard_run_summary_to_chat_def)
qed

lemma quiet_close: "quiet d (close_steered_contracts_for_parent_run e r res d)"
proof -
  have "quiet d (fold (\<lambda>i d. append_dispatch_event i k (mark_dispatch_run_answered e i x st mode d)) ids d)" for k x st mode ids
  proof (induction ids arbitrary: d)
    case (Cons i ids)
    have "quiet d (append_dispatch_event i k (mark_dispatch_run_answered e i x st mode d))" by (simp add: quiet_answer)
    from quiet_trans [OF this Cons.IH] show ?case by simp
  qed simp
  then show ?thesis by (simp add: close_steered_contracts_for_parent_run_def Let_def)
qed

lemma quiet_settle: "quiet d (settle_terminated_dispatch_run e m i eff b d)"
proof (cases "run_of i (fail_pending_controls_for_run i d)")
  case (Some x)
  let ?d1 = "fail_pending_controls_for_run i d"
  let ?d2 = "snd (mirror_missing_dispatch_handoff m x ?d1)"
  have "quiet d ?d1" by simp
  also note quiet_mirrors(1) [of ?d1 m x]
  also note quiet_mirrors(2) [of ?d2 m b x]
  also note quiet_close
  finally show ?thesis using Some
    by (simp add: settle_terminated_dispatch_run_def Let_def split_beta split: option.split)
qed (simp add: settle_terminated_dispatch_run_def Let_def split: option.split)

text \<open>A report is sound when it calls a run claimed or running only while the run is claimed or running.\<close>

definition sound_report :: "run_patch \<Rightarrow> drun \<Rightarrow> dstate \<Rightarrow> bool" where
  "sound_report u row d = (effective_status u row \<in> {Some ''claimed'', Some ''running''} \<longrightarrow>
     (\<forall>r \<in> set (d_runs d). r_id r = r_id row \<longrightarrow> is_active r))"

lemma quiet_outcome:
  assumes "sound_report u row d"
  shows "quiet d (update_run (r_id row) P (outcome_columns e u row) d)"
    and "quiet d (update_run (r_id row) P (\<lambda>r. other_columns u row (outcome_columns e u row r)) d)"
proof -
  have keep: "r_id (outcome_columns e u row r) = r_id r \<and> r_target (outcome_columns e u row r) = r_target r"
    "r_id (other_columns u row r) = r_id r \<and> r_target (other_columns u row r) = r_target r \<and> is_active (other_columns u row r) = is_active r" for r
    by (simp_all add: outcome_columns_def other_columns_def is_active_def split: option.split)
  have "quiet d (update_run (r_id row) P (outcome_columns e u row) d) \<and> quiet d (update_run (r_id row) P (\<lambda>r. other_columns u row (outcome_columns e u row r)) d)"
  proof (cases "effective_status u row \<in> {Some ''claimed'', Some ''running''}")
    case True
    then have "\<forall>r \<in> set (d_runs d). r_id r = r_id row \<and> P r \<longrightarrow> is_active r" using assms by (auto simp: sound_report_def)
    then show ?thesis using keep by (auto intro!: quiet_active_update)
  next
    case False
    then have "is_active (outcome_columns e u row r) \<Longrightarrow> is_active r" for r
      by (auto simp: outcome_columns_def is_active_def split: option.splits)
    then show ?thesis using keep by (auto intro!: quiet_update simp: calm_def)
  qed
  then show "quiet d (update_run (r_id row) P (outcome_columns e u row) d)"
    "quiet d (update_run (r_id row) P (\<lambda>r. other_columns u row (outcome_columns e u row r)) d)" by blast+
qed

lemma quiet_report: "sound_report u row d \<Longrightarrow> quiet d (snd (update_dispatch_run e m u row d))"
proof -
  assume s: "sound_report u row d"
  have others: "quiet d' (update_run i P (other_columns u row) d')" for i P d'
    by (rule quiet_update) (simp add: calm_def other_columns_def is_active_def)
  let ?open = "\<lambda>r. \<not> is_finished r"
  define d1 where "d1 = (if has_outcome u row then update_run (r_id row) ?open (outcome_columns e u row) d else d)"
  define d2 where "d2 = (if has_others u row then update_run (r_id row) (\<lambda>_. True) (other_columns u row) d1 else d1)"
  have "quiet d d1" using quiet_outcome(1) [OF s] by (simp add: d1_def)
  then have d2: "quiet d d2" using quiet_trans [OF _ others] by (simp add: d2_def)
  have closed: "quiet d (settle_terminated_dispatch_run e m i eff b d2)" for i eff b by (rule quiet_trans [OF d2 quiet_settle])
  have reported: "quiet d (settle_terminated_dispatch_run e m i eff b
      (update_run (r_id row) (\<lambda>_. True) (\<lambda>r. other_columns u row (outcome_columns e u row r)) d))" for i eff b
    by (rule quiet_trans [OF quiet_outcome(2) [OF s] quiet_settle])
  show ?thesis
  proof (cases "operator_close u")
    case True
    then have "snd (update_dispatch_run e m u row d) \<in> (\<lambda>x. if u_append u then append_dispatch_event (r_id row) (or_else (u_event u) ''info'') x else x)
        ` ({d2} \<union> range (\<lambda>eff. settle_terminated_dispatch_run e m (r_id row) eff True d2))"
      by (simp add: update_dispatch_run_def Let_def d1_def d2_def)
    then show ?thesis using d2 closed by auto
  next
    case False
    then show ?thesis using reported by (simp add: update_dispatch_run_def Let_def)
  qed
qed

inductive life_step :: "dstate \<Rightarrow> dstate \<Rightarrow> bool" where
  tables: "dispatch_step d d' \<Longrightarrow> life_step d d'"
| register: "life_step d (record_bridge_registration e g d)"
| gate: "enforce_same_mode_bridge_gate e lease known force g d = Inr d' \<Longrightarrow> life_step d d'"
| report: "sound_report u row d \<Longrightarrow> life_step d (snd (update_dispatch_run e m u row d))"

lemma quiet_gate: "enforce_same_mode_bridge_gate e lease known force g d = Inr d' \<Longrightarrow> quiet d d'"
  by (auto simp: enforce_same_mode_bridge_gate_def Let_def intro!: quiet_same split: if_splits option.splits)

interpretation lives: invariant_system "\<lambda>d. d_runs d = []" life_step dispatch_ok
proof unfold_locales
  show "d_runs d = [] \<Longrightarrow> dispatch_ok d" for d by (rule dispatches.inv_init)
  show "dispatch_ok d \<Longrightarrow> life_step d d' \<Longrightarrow> dispatch_ok d'" for d d'
    by (rotate_tac, induction rule: life_step.induct) (auto intro: dispatches.inv_step quiet_ok quiet_report quiet_registration quiet_gate)
qed

text \<open>One active run. From an empty run table, however sends, claims, answers, cancellations, withdrawals, requeues,
  discards, registrations of bridges and reports (on rows read before, out of date or not) follow one another, run ids stay distinct and
  no agent ever has two runs that are claimed or running, as long as no report calls a run claimed or running that is neither.\<close>

theorem one_active_run_with_reports:
  assumes "d_runs d = []" and "life_step\<^sup>*\<^sup>* d d'"
  shows "distinct (map r_id (d_runs d')) \<and> (\<forall>a. length (filter (\<lambda>r. r_target r = a \<and> is_active r) (d_runs d')) \<le> 1)"
  using lives.inv_reachable [OF assms] by (simp add: dispatch_ok_def runs_ok_def active_of_def)

definition demo_running :: dstate where
  "demo_running = snd (update_dispatch_run demo_env demo_settlement (demo_report\<lparr>u_status := ''running''\<rparr>) demo_row demo_claimed)"

theorem one_active_run_with_reports_witness:
  "map r_status (d_runs demo_running) = [''running''] \<and> life_step\<^sup>*\<^sup>* no_dispatch demo_running
    \<and> length (filter (\<lambda>r. r_target r = ''a'' \<and> is_active r) (d_runs demo_running)) \<le> 1"
proof -
  have "map r_status (d_runs demo_running) = [''running'']" "d_runs no_dispatch = []"
    "\<forall>r \<in> set (d_runs demo_claimed). r_id r = r_id demo_row \<longrightarrow> is_active r" by code_simp+
  moreover from this have "life_step demo_claimed demo_running"
    unfolding demo_running_def by (intro life_step.report) (simp add: sound_report_def)
  moreover have "life_step\<^sup>*\<^sup>* no_dispatch demo_claimed"
    using demo_claimed_reached by (rule mono_rtranclp [rule_format, rotated]) (rule life_step.tables)
  ultimately show ?thesis using one_active_run_with_reports [of no_dispatch demo_running] by (auto intro: rtranclp.rtrancl_into_rtrancl)
qed

definition demo_steered :: dstate where
  "demo_steered = snd (steer_into demo_env demo_send ''a'' (lit ''m2'') demo_row demo_claimed)"

text \<open>A failure notice answers steered contracts. When a run fails, the notice that tells its sender so is recorded as the
  answer of the contracts the same sender steered into the run, which then count as completed.\<close>

theorem failure_notice_answers_steered_contract:
  "map (\<lambda>r. (r_status r, r_result r)) (d_runs demo_steered) = [(''claimed'', []), (''delivered'', [])]
   \<and> (let d' = snd (update_dispatch_run demo_env demo_settlement demo_report demo_row demo_steered) in
      map (\<lambda>r. (r_status r, r_result r)) (d_runs d') = [(''failed'', []), (''completed'', lit ''h1'')])"
  by code_simp

end
