(* ===== verification/LongPoll.thy ===== *)
theory LongPoll
  imports RunPatch Json
begin

text \<open>
  Held claim requests: \<open>service/longpoll.py\<close> with the five emptiness tests of
  \<open>service/api_core/claim_emptiness.py\<close>, and the claim route of \<open>service/routers/dispatch_messages/dispatch.py\<close> that puts
  the claim attempt of \<open>DispatchClaim\<close> under them.

  Between two awaits a coroutine runs alone, so every stretch of code between two awaits is one operation here and one step of
  the relation: the attempt's transaction, the code after an attempt up to the next wait, and the code after a wait. Other
  requests, \<open>notify\<close>, the caller leaving and the passing of time are steps in between. The monotonic clock is read in
  milliseconds, once per stretch. Of the answer to a claim the fields the emptiness test reads are kept.

  An attempt is a parameter of the relation, with whatever it does to the shared state when it answers or raises.
  \<open>p_log\<close>, the outcomes of a request's attempts in order, is a history the code does not keep.
\<close>

declare split_paired_All [simp del] split_paired_Ex [simp del]

subsection \<open>Nothing to do\<close>

definition dispatch_claim_is_empty :: "json \<Rightarrow> bool" where
  "dispatch_claim_is_empty result = (jget result ''run'' = JNull \<and> \<not> truthy (jget result ''stopped'')
     \<and> \<not> truthy (jget result ''release'') \<and> \<not> truthy (jget result ''blockedBy''))"

definition dispatch_controls_is_empty :: "json \<Rightarrow> bool" where
  "dispatch_controls_is_empty result = (jget result ''controls'' = JList [])"

definition terminal_controls_is_empty :: "json \<Rightarrow> bool" where
  "terminal_controls_is_empty result = (jget result ''controls'' = JList [])"

definition has_key :: "json \<Rightarrow> string \<Rightarrow> bool" where
  "has_key j k = (case j of JObj fs \<Rightarrow> k \<in> fst ` set fs | _ \<Rightarrow> False)"

definition environment_control_is_empty :: "json \<Rightarrow> bool" where
  "environment_control_is_empty result = (jget result ''control'' = JNull \<and> \<not> has_key result ''controlId'')"

definition spawn_request_is_empty :: "json \<Rightarrow> bool" where
  "spawn_request_is_empty result = (jget result ''spawnRequest'' = JNull \<and> \<not> truthy (jget result ''blockedBy'')
     \<and> has_key result ''spawnRequest'')"

subsection \<open>The bus\<close>

type_synonym bus = "(string \<times> nat \<times> bool) list"

definition GLOBAL_SCOPE :: string where "GLOBAL_SCOPE = ''*''"

definition hears :: "string \<Rightarrow> string \<Rightarrow> bool" where
  "hears scope s = (if scope \<noteq> GLOBAL_SCOPE then s = scope \<or> s = GLOBAL_SCOPE else True)"

definition notify :: "string \<Rightarrow> bus \<Rightarrow> nat \<times> bus" where
  "notify scope b =
     (length (filter (\<lambda>(s, i, fired). hears scope s \<and> \<not> fired) b),
      map (\<lambda>(s, i, fired). (s, i, fired \<or> hears scope s)) b)"

definition enlist :: "string \<Rightarrow> nat \<Rightarrow> bus \<Rightarrow> bus" where
  "enlist scope i b = b @ [(scope, i, False)]"

definition discharge :: "nat \<Rightarrow> bus \<Rightarrow> bus" where
  "discharge i b = filter (\<lambda>(s, j, fired). j \<noteq> i) b"

definition fired :: "nat \<Rightarrow> bus \<Rightarrow> bool" where
  "fired i b = (\<exists>(s, j, f) \<in> set b. j = i \<and> f)"

subsection \<open>One held request\<close>

definition MAX_WAIT :: int where "MAX_WAIT = 25000"

datatype 'r outcome = Result 'r | Lock_Error | Other_Error

text \<open>\<open>_try\<close>: contention counts as the given result, if one is given; \<open>None\<close> is an error that is raised.\<close>

definition try_attempt :: "'r option \<Rightarrow> 'r outcome \<Rightarrow> 'r option" where
  "try_attempt lock_result oc = (case oc of Result r \<Rightarrow> Some r | Lock_Error \<Rightarrow> lock_result | Other_Error \<Rightarrow> None)"

datatype 'r phase = Trying | Tried "'r outcome" | Waiting | Returned 'r | Raised

record ('q, 'r) poll =
  p_request :: 'q
  p_wait_ms :: int
  p_scope :: string
  p_fallback :: int
  p_phase :: "'r phase"
  p_deadline :: "int option"
  p_result :: "'r option"
  p_slept_at :: int
  p_until :: int
  p_waited :: int
  p_gone :: bool
  p_log :: "'r outcome list"

definition new_poll :: "'q \<Rightarrow> int \<Rightarrow> string \<Rightarrow> int \<Rightarrow> ('q, 'r) poll" where
  "new_poll q wait_ms scope fallback = \<lparr>p_request = q, p_wait_ms = wait_ms, p_scope = scope, p_fallback = fallback, p_phase = Trying,
     p_deadline = None, p_result = None, p_slept_at = 0, p_until = 0, p_waited = 0, p_gone = False, p_log = []\<rparr>"

text \<open>The head of the loop: give up, or sleep until the timer, a notice or the caller leaving.\<close>

definition loop_head :: "int \<Rightarrow> 'r \<Rightarrow> ('q, 'r) poll \<Rightarrow> ('q, 'r) poll" where
  "loop_head now r p = (case p_deadline p of None \<Rightarrow> p | Some deadline \<Rightarrow>
     (let remaining = deadline - now in
      if remaining \<le> 0 \<or> p_gone p then p\<lparr>p_phase := Returned r, p_result := Some r\<rparr>
      else p\<lparr>p_phase := Waiting, p_result := Some r, p_slept_at := now, p_until := now + min remaining (p_fallback p)\<rparr>))"

text \<open>From the end of an attempt to the next await; the first result also decides whether to wait at all.\<close>

definition after_attempt :: "('r \<Rightarrow> bool) \<Rightarrow> 'r option \<Rightarrow> int \<Rightarrow> 'r outcome \<Rightarrow> ('q, 'r) poll \<Rightarrow> ('q, 'r) poll" where
  "after_attempt is_empty lock_result now oc p = (case try_attempt lock_result oc of
     None \<Rightarrow> p\<lparr>p_phase := Raised\<rparr>
   | Some r \<Rightarrow> (case p_deadline p of
        None \<Rightarrow>
          if p_wait_ms p \<le> 0 \<or> \<not> is_empty r then p\<lparr>p_phase := Returned r, p_result := Some r\<rparr>
          else loop_head now r (p\<lparr>p_deadline := Some (now + min (p_wait_ms p) MAX_WAIT)\<rparr>)
      | Some _ \<Rightarrow>
          if \<not> is_empty r then p\<lparr>p_phase := Returned r, p_result := Some r\<rparr> else loop_head now r p))"

definition note_waited :: "int \<Rightarrow> ('q, 'r) poll \<Rightarrow> ('q, 'r) poll" where
  "note_waited t p = p\<lparr>p_waited := p_waited p + max 0 t\<rparr>"

definition after_wait :: "int \<Rightarrow> ('q, 'r) poll \<Rightarrow> ('q, 'r) poll" where
  "after_wait now p =
     (let p1 = note_waited (now - p_slept_at p) p in
      if p_gone p then (case p_result p of Some r \<Rightarrow> p1\<lparr>p_phase := Returned r\<rparr> | None \<Rightarrow> p1) else p1\<lparr>p_phase := Trying\<rparr>)"

text \<open>What of a request's time counts as work.\<close>

definition attributable_ms :: "int \<Rightarrow> int \<Rightarrow> int" where
  "attributable_ms total_ms waited = max 0 (total_ms - waited)"

subsection \<open>Requests held side by side\<close>

record ('q, 'r, 's) held =
  h_polls :: "nat \<rightharpoonup> ('q, 'r) poll"
  h_bus :: bus
  h_now :: int
  h_db :: 's

definition set_poll :: "nat \<Rightarrow> ('q, 'r) poll \<Rightarrow> ('q, 'r, 's) held \<Rightarrow> ('q, 'r, 's) held" where
  "set_poll i p w = w\<lparr>h_polls := (h_polls w)(i \<mapsto> p)\<rparr>"

text \<open>The code after an attempt, with the future it puts on the bus when it goes to sleep.\<close>

definition go_on :: "('r \<Rightarrow> bool) \<Rightarrow> 'r option \<Rightarrow> nat \<Rightarrow> 'r outcome \<Rightarrow> ('q, 'r) poll \<Rightarrow> ('q, 'r, 's) held \<Rightarrow> ('q, 'r, 's) held" where
  "go_on is_empty lock_result i oc p w =
     (let p1 = after_attempt is_empty lock_result (h_now w) oc p; w1 = set_poll i p1 w in
      if p_phase p1 = Waiting then w1\<lparr>h_bus := enlist (p_scope p1) i (h_bus w1)\<rparr> else w1)"

definition wake_up :: "nat \<Rightarrow> ('q, 'r) poll \<Rightarrow> ('q, 'r, 's) held \<Rightarrow> ('q, 'r, 's) held" where
  "wake_up i p w = (set_poll i (after_wait (h_now w) p) w)\<lparr>h_bus := discharge i (h_bus w)\<rparr>"

definition may_wake :: "nat \<Rightarrow> ('q, 'r) poll \<Rightarrow> ('q, 'r, 's) held \<Rightarrow> bool" where
  "may_wake i p w = (fired i (h_bus w) \<or> p_gone p \<or> p_until p \<le> h_now w)"

inductive held_step ::
  "('q \<Rightarrow> 's \<Rightarrow> 'r outcome \<Rightarrow> 's \<Rightarrow> bool) \<Rightarrow> ('s \<Rightarrow> 's \<Rightarrow> bool) \<Rightarrow> ('r \<Rightarrow> bool) \<Rightarrow> 'r option \<Rightarrow> nat
   \<Rightarrow> ('q, 'r, 's) held \<Rightarrow> ('q, 'r, 's) held \<Rightarrow> bool"
  for attempt other is_empty lock_result lag where
  arrive: "h_polls w i = None \<Longrightarrow> 0 \<le> fallback \<Longrightarrow> held_step attempt other is_empty lock_result lag w (set_poll i (new_poll q wait_ms scope fallback) w)"
| transact: "h_polls w i = Some p \<Longrightarrow> p_phase p = Trying \<Longrightarrow> attempt (p_request p) (h_db w) oc d
    \<Longrightarrow> held_step attempt other is_empty lock_result lag w (set_poll i (p\<lparr>p_phase := Tried oc, p_log := p_log p @ [oc]\<rparr>) (w\<lparr>h_db := d\<rparr>))"
| go_on: "h_polls w i = Some p \<Longrightarrow> p_phase p = Tried oc
    \<Longrightarrow> held_step attempt other is_empty lock_result lag w (go_on is_empty lock_result i oc p w)"
| wake: "h_polls w i = Some p \<Longrightarrow> p_phase p = Waiting \<Longrightarrow> may_wake i p w
    \<Longrightarrow> held_step attempt other is_empty lock_result lag w (wake_up i p w)"
| leave: "h_polls w i = Some p \<Longrightarrow> held_step attempt other is_empty lock_result lag w (set_poll i (p\<lparr>p_gone := True\<rparr>) w)"
| notice: "held_step attempt other is_empty lock_result lag w (w\<lparr>h_bus := snd (notify scope (h_bus w))\<rparr>)"
| other: "other (h_db w) d \<Longrightarrow> held_step attempt other is_empty lock_result lag w (w\<lparr>h_db := d\<rparr>)"
| tick: "h_now w \<le> t \<Longrightarrow> (\<forall>i p. h_polls w i = Some p \<and> p_phase p = Waiting \<longrightarrow> t \<le> max (h_now w) (p_until p + int lag))
    \<Longrightarrow> held_step attempt other is_empty lock_result lag w (w\<lparr>h_now := t\<rparr>)"

subsection \<open>The claim route\<close>

text \<open>The answers of a claim, as far as the emptiness test reads them; what the route raises has none.\<close>

definition claim_reply :: "claim_result \<Rightarrow> json" where
  "claim_reply res = (case res of
     No_Run \<Rightarrow> JObj [(''ok'', JBool True), (''run'', JNull)]
   | Stopped \<Rightarrow> JObj [(''ok'', JBool True), (''run'', JNull), (''stopped'', JBool True)]
   | Release \<Rightarrow> JObj [(''ok'', JBool True), (''run'', JNull), (''release'', JBool True)]
   | Blocked why \<Rightarrow> JObj [(''ok'', JBool True), (''run'', JNull), (''blockedBy'', JObj [(''reason'', JStr why)])]
   | Claimed r \<Rightarrow> JObj [(''ok'', JBool True), (''run'', JObj [(''id'', JStr (r_id r))])]
   | _ \<Rightarrow> JNull)"

text \<open>One attempt. It answers, or raises with its transaction undone, or raises after its transaction was committed: the
  answer to a claimed run is put together by reads that follow the commit.\<close>

inductive claim_attempt :: "claim_req \<Rightarrow> dstate \<Rightarrow> claim_result outcome \<Rightarrow> dstate \<Rightarrow> bool" where
  answered: "claim_dispatch_once c q d = (res, d') \<Longrightarrow> res \<noteq> Removed \<Longrightarrow> res \<noteq> Not_Found \<Longrightarrow> claim_attempt q d (Result res) d'"
| unknown_agent: "claim_dispatch_once c q d = (res, d') \<Longrightarrow> res = Removed \<or> res = Not_Found \<Longrightarrow> claim_attempt q d Other_Error d"
| undone: "oc = Lock_Error \<or> oc = Other_Error \<Longrightarrow> claim_attempt q d oc d"
| reply_failed: "claim_dispatch_once c q d = (Claimed r, d') \<Longrightarrow> oc = Lock_Error \<or> oc = Other_Error \<Longrightarrow> claim_attempt q d oc d'"

definition claim_empty :: "claim_result \<Rightarrow> bool" where
  "claim_empty res = dispatch_claim_is_empty (claim_reply res)"

text \<open>Others may do anything to the run tables in between.\<close>

abbreviation claim_step :: "nat \<Rightarrow> (claim_req, claim_result, dstate) held \<Rightarrow> (claim_req, claim_result, dstate) held \<Rightarrow> bool" where
  "claim_step \<equiv> held_step claim_attempt (\<lambda>_ _. True) claim_empty (Some No_Run)"

subsection \<open>What a request has seen\<close>

definition idle_log :: "('r \<Rightarrow> bool) \<Rightarrow> 'r option \<Rightarrow> 'r outcome list \<Rightarrow> bool" where
  "idle_log is_empty lock_result log = (\<forall>oc \<in> set log. \<exists>r. try_attempt lock_result oc = Some r \<and> is_empty r)"

definition log_ok :: "('r \<Rightarrow> bool) \<Rightarrow> 'r option \<Rightarrow> ('q, 'r) poll \<Rightarrow> bool" where
  "log_ok is_empty lock_result p = (case p_phase p of
     Trying \<Rightarrow> idle_log is_empty lock_result (p_log p)
   | Waiting \<Rightarrow> p_log p \<noteq> [] \<and> idle_log is_empty lock_result (p_log p) \<and> p_result p = try_attempt lock_result (last (p_log p))
   | Tried oc \<Rightarrow> p_log p \<noteq> [] \<and> last (p_log p) = oc \<and> idle_log is_empty lock_result (butlast (p_log p))
   | Returned r \<Rightarrow> p_log p \<noteq> [] \<and> try_attempt lock_result (last (p_log p)) = Some r \<and> idle_log is_empty lock_result (butlast (p_log p))
   | Raised \<Rightarrow> p_log p \<noteq> [] \<and> try_attempt lock_result (last (p_log p)) = None \<and> idle_log is_empty lock_result (butlast (p_log p)))"

lemma idle_last: "l \<noteq> [] \<Longrightarrow> idle_log E L (butlast l) \<Longrightarrow> try_attempt L (last l) = Some r \<Longrightarrow> E r \<Longrightarrow> idle_log E L l"
  by (cases l rule: rev_cases) (auto simp: idle_log_def)

lemma idle_butlast: "idle_log E L l \<Longrightarrow> idle_log E L (butlast l)"
  by (auto simp: idle_log_def dest: in_set_butlastD)

lemma loop_head_log:
  "p_deadline p \<noteq> None \<Longrightarrow> p_log p \<noteq> [] \<Longrightarrow> idle_log E L (p_log p) \<Longrightarrow> try_attempt L (last (p_log p)) = Some r
   \<Longrightarrow> log_ok E L (loop_head now r p)"
  by (auto simp: loop_head_def log_ok_def Let_def idle_butlast)

lemma after_attempt_log: "log_ok E L p \<Longrightarrow> p_phase p = Tried oc \<Longrightarrow> log_ok E L (after_attempt E L now oc p)"
proof -
  assume ok: "log_ok E L p" and t: "p_phase p = Tried oc"
  then have l: "p_log p \<noteq> []" "last (p_log p) = oc" "idle_log E L (butlast (p_log p))" by (simp_all add: log_ok_def)
  show ?thesis
  proof (cases "try_attempt L oc")
    case None
    then show ?thesis using l by (simp add: after_attempt_def log_ok_def)
  next
    case (Some r)
    have "log_ok E L (loop_head now r (p\<lparr>p_deadline := Some d\<rparr>))" "p_deadline p \<noteq> None \<Longrightarrow> log_ok E L (loop_head now r p)" if "E r" for d
      using idle_last [OF l(1,3), of r] l(1,2) Some that by (auto intro!: loop_head_log)
    then show ?thesis using l Some by (auto simp: after_attempt_def log_ok_def split: option.splits)
  qed
qed

lemma after_wait_log: "log_ok E L p \<Longrightarrow> p_phase p = Waiting \<Longrightarrow> log_ok E L (after_wait now p)"
  by (auto simp: log_ok_def after_wait_def note_waited_def Let_def idle_butlast split: option.splits)

subsection \<open>How long a request has waited\<close>

definition wait_limit :: "('q, 'r) poll \<Rightarrow> int" where
  "wait_limit p = min (p_wait_ms p) MAX_WAIT"

definition time_ok :: "int \<Rightarrow> int \<Rightarrow> ('q, 'r) poll \<Rightarrow> bool" where
  "time_ok lag now p = (0 \<le> p_fallback p \<and> (case p_deadline p of
     None \<Rightarrow> p_waited p = 0 \<and> p_phase p \<noteq> Waiting
   | Some d \<Rightarrow> 0 < p_wait_ms p \<and> p_waited p \<le> now - (d - wait_limit p) \<and> p_waited p \<le> wait_limit p + lag
       \<and> (p_phase p = Waiting \<longrightarrow> p_waited p \<le> p_slept_at p - (d - wait_limit p) \<and> p_slept_at p \<le> now
            \<and> p_until p \<le> d \<and> p_slept_at p \<le> p_until p \<and> p_until p \<le> p_slept_at p + p_fallback p \<and> now \<le> p_until p + lag)))"

lemma loop_head_time:
  "0 \<le> lag \<Longrightarrow> p_phase p \<noteq> Waiting \<Longrightarrow> time_ok lag now p \<Longrightarrow> time_ok lag now (loop_head now r p)"
  by (auto simp: loop_head_def time_ok_def wait_limit_def Let_def split: option.splits)

lemma time_ended: "time_ok lag now p \<Longrightarrow> x \<noteq> Waiting \<Longrightarrow> time_ok lag now (p\<lparr>p_phase := x\<rparr>)"
  "time_ok lag now (p\<lparr>p_result := y\<rparr>) = time_ok lag now p" "time_ok lag now (p\<lparr>p_log := z\<rparr>) = time_ok lag now p"
  "time_ok lag now (p\<lparr>p_gone := b\<rparr>) = time_ok lag now p"
  by (auto simp: time_ok_def wait_limit_def split: option.splits)

lemma after_attempt_time: "0 \<le> lag \<Longrightarrow> p_phase p = Tried oc \<Longrightarrow> time_ok lag now p \<Longrightarrow> time_ok lag now (after_attempt E L now oc p)"
proof -
  assume a: "0 \<le> lag" "p_phase p = Tried oc" "time_ok lag now p"
  have "time_ok lag now (p\<lparr>p_deadline := Some (now + min (p_wait_ms p) MAX_WAIT)\<rparr>)" if "p_deadline p = None" "0 < p_wait_ms p"
    using that a by (simp add: time_ok_def wait_limit_def MAX_WAIT_def)
  then have "p_deadline p = None \<Longrightarrow> 0 < p_wait_ms p
      \<Longrightarrow> time_ok lag now (loop_head now r (p\<lparr>p_deadline := Some (now + min (p_wait_ms p) MAX_WAIT)\<rparr>))" for r
    using a by (intro loop_head_time) simp_all
  moreover have "time_ok lag now (loop_head now r p)" for r using a by (intro loop_head_time) simp_all
  ultimately show ?thesis using a(3) by (auto simp: after_attempt_def time_ended split: option.splits)
qed

lemma after_wait_time: "p_phase p = Waiting \<Longrightarrow> p_result p \<noteq> None \<Longrightarrow> time_ok lag now p \<Longrightarrow> time_ok lag now (after_wait now p)"
  by (auto simp: time_ok_def after_wait_def note_waited_def wait_limit_def Let_def split: option.splits)

lemma tick_time: "time_ok lag now p \<Longrightarrow> now \<le> t \<Longrightarrow> p_phase p = Waiting \<longrightarrow> t \<le> max now (p_until p + lag) \<Longrightarrow> time_ok lag t p"
  by (auto simp: time_ok_def split: option.splits)

subsection \<open>Who is on the bus\<close>

definition sleeps :: "('q, 'r, 's) held \<Rightarrow> nat \<Rightarrow> string \<Rightarrow> bool" where
  "sleeps w i s = (case h_polls w i of None \<Rightarrow> False | Some p \<Rightarrow> p_phase p = Waiting \<and> p_scope p = s)"

definition bus_ok :: "('q, 'r, 's) held \<Rightarrow> bool" where
  "bus_ok w = (distinct (map (\<lambda>(s, i, f). i) (h_bus w))
     \<and> (\<forall>s i. (\<exists>f. (s, i, f) \<in> set (h_bus w)) \<longleftrightarrow> sleeps w i s))"

definition held_ok :: "('r \<Rightarrow> bool) \<Rightarrow> 'r option \<Rightarrow> int \<Rightarrow> ('q, 'r, 's) held \<Rightarrow> bool" where
  "held_ok is_empty lock_result lag w =
     (bus_ok w \<and> (\<forall>i p. h_polls w i = Some p \<longrightarrow> log_ok is_empty lock_result p \<and> time_ok lag (h_now w) p))"

lemma loop_head_scope [simp]: "p_scope (loop_head now r p) = p_scope p"
  by (simp add: loop_head_def Let_def split: option.splits)

lemma after_attempt_scope [simp]: "p_scope (after_attempt E L now oc p) = p_scope p"
  by (simp add: after_attempt_def split: option.splits)

lemma after_wait_scope [simp]: "p_scope (after_wait now p) = p_scope p"
  by (simp add: after_wait_def note_waited_def Let_def split: option.splits)

lemma notify_entries: "(s, i, f) \<in> set (snd (notify scope b)) \<longleftrightarrow> (\<exists>g. (s, i, g) \<in> set b \<and> f = (g \<or> hears scope s))"
  by (force simp: notify_def)

lemma notify_ids: "map (\<lambda>(s, i, f). i) (snd (notify scope b)) = map (\<lambda>(s, i, f). i) b"
  by (simp add: notify_def comp_def split_beta)

lemma set_poll_simps [simp]: "h_polls (set_poll i p w) = (h_polls w)(i \<mapsto> p)" "h_bus (set_poll i p w) = h_bus w"
  "h_now (set_poll i p w) = h_now w" "h_db (set_poll i p w) = h_db w"
  by (simp_all add: set_poll_def)

lemma sleeps_simps [simp]: "sleeps (set_poll i p w) j s = (if j = i then p_phase p = Waiting \<and> p_scope p = s else sleeps w j s)"
  "sleeps (w\<lparr>h_bus := b\<rparr>) = sleeps w" "sleeps (w\<lparr>h_db := d\<rparr>) = sleeps w" "sleeps (w\<lparr>h_now := t\<rparr>) = sleeps w"
  by (auto simp: sleeps_def fun_eq_iff)

lemma sleeps_poll: "h_polls w i = Some p \<Longrightarrow> sleeps w i s = (p_phase p = Waiting \<and> p_scope p = s)"
  by (simp add: sleeps_def)

text \<open>Requests that stay awake, or asleep on their scope, leave the bus right.\<close>

lemma bus_awake:
  assumes "bus_ok w" and "\<forall>s. \<not> sleeps w i s" and "p_phase p \<noteq> Waiting"
  shows "bus_ok (set_poll i p w)"
  using assms by (auto simp: bus_ok_def)

lemma bus_stays:
  assumes "bus_ok w" and "h_polls w i = Some q" and "p_phase p = p_phase q" and "p_scope p = p_scope q"
  shows "bus_ok (set_poll i p w)"
  using assms by (auto simp: bus_ok_def sleeps_poll)

lemma bus_sleep:
  assumes "bus_ok w" and "\<forall>s. \<not> sleeps w i s" and "p_phase p = Waiting"
  shows "bus_ok ((set_poll i p w)\<lparr>h_bus := enlist (p_scope p) i (h_bus w)\<rparr>)"
proof -
  have none: "(s, i, f) \<notin> set (h_bus w)" for s f using assms(1,2) unfolding bus_ok_def by blast
  then have "i \<notin> set (map (\<lambda>(s, i, f). i) (h_bus w))" by auto
  then have "distinct (map (\<lambda>(s, i, f). i) (enlist (p_scope p) i (h_bus w)))" using assms(1) by (simp add: bus_ok_def enlist_def)
  moreover have "(\<exists>f. (s, j, f) \<in> set (enlist (p_scope p) i (h_bus w))) = sleeps (set_poll i p w) j s" for s j
    using assms none by (auto simp: bus_ok_def enlist_def)
  ultimately show ?thesis by (simp add: bus_ok_def)
qed

lemma bus_wake:
  assumes "bus_ok w" and "p_phase p \<noteq> Waiting"
  shows "bus_ok ((set_poll i p w)\<lparr>h_bus := discharge i (h_bus w)\<rparr>)"
proof -
  have "distinct (map (\<lambda>(s, i, f). i) (discharge i (h_bus w)))"
    using assms(1) unfolding bus_ok_def discharge_def by (intro distinct_map_filter) blast
  moreover have "(\<exists>f. (s, j, f) \<in> set (discharge i (h_bus w))) = sleeps (set_poll i p w) j s" for s j
    using assms by (auto simp: bus_ok_def discharge_def)
  ultimately show ?thesis by (simp add: bus_ok_def)
qed

lemma bus_notice: "bus_ok w \<Longrightarrow> bus_ok (w\<lparr>h_bus := snd (notify scope (h_bus w))\<rparr>)"
  by (simp add: bus_ok_def notify_ids notify_entries)

lemma held_ok_step:
  assumes "held_step attempt other E L lag w w'" and "held_ok E L (int lag) w"
  shows "held_ok E L (int lag) w'"
  using assms
proof (induction rule: held_step.induct)
  case (arrive w i fallback q wait_ms scope)
  then show ?case by (auto simp: held_ok_def new_poll_def log_ok_def idle_log_def time_ok_def sleeps_def intro!: bus_awake)
next
  case (transact w i p oc d)
  then have p: "bus_ok w" "log_ok E L p" "time_ok (int lag) (h_now w) p" by (auto simp: held_ok_def)
  have "bus_ok (w\<lparr>h_db := d\<rparr>)" using p(1) by (simp add: bus_ok_def)
  then have "bus_ok (set_poll i (p\<lparr>p_phase := Tried oc, p_log := p_log p @ [oc]\<rparr>) (w\<lparr>h_db := d\<rparr>))"
    using transact.hyps by (intro bus_awake) (auto simp: sleeps_poll)
  moreover have "log_ok E L (p\<lparr>p_phase := Tried oc, p_log := p_log p @ [oc]\<rparr>)" using p(2) transact.hyps by (simp add: log_ok_def)
  moreover have "time_ok (int lag) (h_now w) (p\<lparr>p_phase := Tried oc, p_log := p_log p @ [oc]\<rparr>)" using p(3) by (simp add: time_ended)
  ultimately show ?case using transact.prems by (auto simp: held_ok_def)
next
  case (go_on w i p oc)
  then have p: "bus_ok w" "log_ok E L p" "time_ok (int lag) (h_now w) p" by (auto simp: held_ok_def)
  let ?p = "after_attempt E L (h_now w) oc p"
  have "bus_ok (go_on E L i oc p w)"
    using bus_awake [OF p(1), of i ?p] bus_sleep [OF p(1), of i ?p] go_on.hyps by (auto simp: go_on_def Let_def sleeps_poll)
  moreover have "log_ok E L ?p" "time_ok (int lag) (h_now w) ?p"
    using after_attempt_log after_attempt_time [of "int lag"] p(2,3) go_on.hyps(2) by auto
  moreover have "h_polls (go_on E L i oc p w) = (h_polls w)(i \<mapsto> ?p)" "h_now (go_on E L i oc p w) = h_now w"
    by (simp_all add: go_on_def Let_def)
  ultimately show ?case using go_on.prems by (auto simp: held_ok_def)
next
  case (wake w i p)
  then have p: "bus_ok w" "log_ok E L p" "time_ok (int lag) (h_now w) p" by (auto simp: held_ok_def)
  let ?p = "after_wait (h_now w) p"
  have r: "p_result p \<noteq> None" using p(2) wake.hyps(2) last_in_set [of "p_log p"] by (fastforce simp: log_ok_def idle_log_def)
  then have "p_phase ?p \<noteq> Waiting" by (auto simp: after_wait_def note_waited_def Let_def)
  then have "bus_ok (wake_up i p w)" unfolding wake_up_def by (rule bus_wake [OF p(1)])
  moreover have "log_ok E L ?p" "time_ok (int lag) (h_now w) ?p" using after_wait_log after_wait_time p(2,3) r wake.hyps(2) by blast+
  ultimately show ?case using wake.prems by (auto simp: held_ok_def wake_up_def)
next
  case (leave w i p)
  then have "bus_ok (set_poll i (p\<lparr>p_gone := True\<rparr>) w)" by (intro bus_stays) (auto simp: held_ok_def)
  moreover have "log_ok E L (p\<lparr>p_gone := True\<rparr>) = log_ok E L p" by (simp add: log_ok_def split: phase.split)
  ultimately show ?case using leave by (auto simp: held_ok_def time_ended)
next
  case (notice w scope)
  then show ?case using bus_notice by (auto simp: held_ok_def)
next
  case (other w d)
  then show ?case by (auto simp: held_ok_def bus_ok_def)
next
  case (tick w t)
  then show ?case using tick_time by (fastforce simp: held_ok_def bus_ok_def)
qed

subsection \<open>Held claims\<close>

lemma claim_empty_iff: "res \<noteq> Removed \<Longrightarrow> res \<noteq> Not_Found \<Longrightarrow> claim_empty res \<longleftrightarrow> res = No_Run"
  by (cases res) (auto simp: claim_empty_def dispatch_claim_is_empty_def claim_reply_def jget_def)

definition no_polls :: "(claim_req, claim_result, dstate) held \<Rightarrow> bool" where
  "no_polls w = (h_polls w = (\<lambda>_. None) \<and> h_bus w = [])"

definition real_outcomes :: "(claim_req, claim_result, dstate) held \<Rightarrow> bool" where
  "real_outcomes w = (\<forall>i p. h_polls w i = Some p \<longrightarrow> Result Removed \<notin> set (p_log p) \<and> Result Not_Found \<notin> set (p_log p))"

lemma logs_after [simp]: "p_log (after_attempt E L now oc p) = p_log p" "p_log (after_wait now p) = p_log p"
  by (simp_all add: after_attempt_def after_wait_def loop_head_def note_waited_def Let_def split: option.splits)

lemma go_on_simps [simp]: "h_polls (go_on E L i oc p w) = (h_polls w)(i \<mapsto> after_attempt E L (h_now w) oc p)" "h_db (go_on E L i oc p w) = h_db w"
  by (simp_all add: go_on_def Let_def)

lemma wake_up_simps [simp]: "h_polls (wake_up i p w) = (h_polls w)(i \<mapsto> after_wait (h_now w) p)" "h_db (wake_up i p w) = h_db w"
  by (simp_all add: wake_up_def)

lemma real_outcomes_step: "claim_step lag w w' \<Longrightarrow> real_outcomes w \<Longrightarrow> real_outcomes w'"
proof (induction rule: held_step.induct)
  case (transact w i p oc d)
  have "oc \<noteq> Result Removed \<and> oc \<noteq> Result Not_Found" using transact.hyps(3) by (cases rule: claim_attempt.cases) auto
  then show ?case using transact by (auto simp: real_outcomes_def)
qed (auto simp: real_outcomes_def new_poll_def)

interpretation held_claims: invariant_system no_polls "claim_step lag"
  "\<lambda>w. held_ok claim_empty (Some No_Run) (int lag) w \<and> real_outcomes w" for lag
proof unfold_locales
  show "held_ok claim_empty (Some No_Run) (int lag) w \<and> real_outcomes w" if "no_polls w" for w
    using that by (auto simp: no_polls_def held_ok_def bus_ok_def sleeps_def real_outcomes_def)
  show "held_ok claim_empty (Some No_Run) (int lag) w' \<and> real_outcomes w'"
    if "held_ok claim_empty (Some No_Run) (int lag) w \<and> real_outcomes w" "claim_step lag w w'" for w w'
    using that held_ok_step real_outcomes_step by blast
qed

lemma idle_entries:
  assumes "idle_log claim_empty (Some No_Run) l" and "Result Removed \<notin> set l" and "Result Not_Found \<notin> set l" and "oc \<in> set l"
  shows "oc = Result No_Run \<or> oc = Lock_Error"
proof (cases oc)
  case (Result r)
  with assms show ?thesis using claim_empty_iff [of r] by (force simp: idle_log_def try_attempt_def)
qed (use assms(1,4) in \<open>auto simp: idle_log_def try_attempt_def\<close>)

text \<open>C9. A held claim returns the answer it was given. Whatever requests are held together, in every order of their attempts, notices,
  timers, departures and any other changes of the run tables: an answer of an attempt other than "nothing to do" (a claimed run, a stop, a release or a
  block) was the last attempt of its request, all earlier ones answered "nothing to do" or met a locked database, and it is
  what the request returns, or is about to; and whatever a request returns is the answer of its last attempt, or "nothing to do" where that
  attempt met a locked database. An attempt that fails after its transaction was committed has given no answer, and its run is lost to
  the request.\<close>

theorem held_claim_returns_its_answer:
  assumes "no_polls w" and "(claim_step lag)\<^sup>*\<^sup>* w w'" and "h_polls w' i = Some p"
  shows "(\<forall>res. Result res \<in> set (p_log p) \<and> res \<noteq> No_Run \<longrightarrow>
        (p_phase p = Tried (Result res) \<or> p_phase p = Returned res) \<and> last (p_log p) = Result res
        \<and> (\<forall>oc \<in> set (butlast (p_log p)). oc = Result No_Run \<or> oc = Lock_Error))
    \<and> (\<forall>r. p_phase p = Returned r \<longrightarrow> p_log p \<noteq> [] \<and> (last (p_log p) = Result r \<or> (r = No_Run \<and> last (p_log p) = Lock_Error)))"
proof (intro conjI allI impI)
  from held_claims.inv_reachable [OF assms(1,2)] assms(3)
  have ok: "log_ok claim_empty (Some No_Run) p" "Result Removed \<notin> set (p_log p)" "Result Not_Found \<notin> set (p_log p)"
    by (auto simp: held_ok_def real_outcomes_def)
  show "p_log p \<noteq> []" "last (p_log p) = Result r \<or> (r = No_Run \<and> last (p_log p) = Lock_Error)" if "p_phase p = Returned r" for r
    using ok(1) that by (auto simp: log_ok_def try_attempt_def split: outcome.splits)
  fix res assume res: "Result res \<in> set (p_log p) \<and> res \<noteq> No_Run"
  have "\<not> idle_log claim_empty (Some No_Run) (p_log p)" using idle_entries [OF _ ok(2,3), of "Result res"] res by auto
  then have l: "p_log p \<noteq> []" "idle_log claim_empty (Some No_Run) (butlast (p_log p))" "p_phase p \<noteq> Trying" "p_phase p \<noteq> Waiting"
    using ok(1) by (auto simp: log_ok_def split: phase.splits)
  show rest: "\<forall>oc \<in> set (butlast (p_log p)). oc = Result No_Run \<or> oc = Lock_Error"
    using idle_entries [OF l(2)] ok(2,3) by (auto dest: in_set_butlastD)
  have "set (p_log p) = insert (last (p_log p)) (set (butlast (p_log p)))" using l(1) by (cases "p_log p" rule: rev_cases) auto
  then show "last (p_log p) = Result res" using rest res by auto
  then show "p_phase p = Tried (Result res) \<or> p_phase p = Returned res" using ok(1) l by (auto simp: log_ok_def try_attempt_def split: phase.splits)
qed

definition demo_held :: "(claim_req, claim_result, dstate) held" where
  "demo_held = \<lparr>h_polls = (\<lambda>_. None), h_bus = [], h_now = 0, h_db = no_dispatch\<rparr>"

definition demo_asked :: "int \<Rightarrow> (claim_req, claim_result, dstate) held" where
  "demo_asked wait_ms = set_poll 0 (new_poll demo_claim wait_ms ''dispatch'' 3000) (demo_held\<lparr>h_db := demo_resident\<rparr>)"

lemma demo_asked_reached: "(claim_step lag)\<^sup>*\<^sup>* demo_held (demo_asked wait_ms)"
proof -
  have "claim_step lag demo_held (demo_held\<lparr>h_db := demo_resident\<rparr>)" by (rule held_step.other) (rule TrueI)
  moreover have "claim_step lag (demo_held\<lparr>h_db := demo_resident\<rparr>) (demo_asked wait_ms)"
    unfolding demo_asked_def by (rule held_step.arrive) (simp_all add: demo_held_def)
  ultimately show ?thesis by (rule converse_rtranclp_into_rtranclp [OF _ r_into_rtranclp])
qed

lemma demo_claim_result: "\<exists>r. claim_dispatch_once demo_claim_env demo_claim demo_resident = (Claimed r, demo_claimed)"
proof -
  let ?c = "claim_dispatch_once demo_claim_env demo_claim demo_resident"
  have "(case fst ?c of Claimed r \<Rightarrow> True | _ \<Rightarrow> False)" by code_simp
  then show ?thesis unfolding demo_claimed_def by (cases ?c) (auto split: claim_result.splits)
qed

lemma demo_transacted:
  assumes "claim_attempt demo_claim demo_resident oc demo_claimed"
  shows "(claim_step lag)\<^sup>*\<^sup>* demo_held (set_poll 0 ((new_poll demo_claim wait_ms ''dispatch'' 3000)\<lparr>p_phase := Tried oc, p_log := [oc]\<rparr>)
    (demo_held\<lparr>h_db := demo_claimed\<rparr>))"
proof -
  have "claim_step lag (demo_asked wait_ms) (set_poll 0 ((new_poll demo_claim wait_ms ''dispatch'' 3000)\<lparr>p_phase := Tried oc,
      p_log := p_log (new_poll demo_claim wait_ms ''dispatch'' 3000) @ [oc]\<rparr>) ((demo_asked wait_ms)\<lparr>h_db := demo_claimed\<rparr>))"
    by (rule held_step.transact) (use assms in \<open>simp_all add: demo_asked_def new_poll_def demo_held_def\<close>)
  then have "claim_step lag (demo_asked wait_ms) (set_poll 0 ((new_poll demo_claim wait_ms ''dispatch'' 3000)\<lparr>p_phase := Tried oc, p_log := [oc]\<rparr>)
    (demo_held\<lparr>h_db := demo_claimed\<rparr>))" by (simp add: demo_asked_def set_poll_def new_poll_def)
  then show ?thesis by (rule rtranclp.rtrancl_into_rtrancl [OF demo_asked_reached])
qed

theorem held_claim_returns_its_answer_witness:
  "\<exists>w p r. (claim_step 5)\<^sup>*\<^sup>* demo_held w \<and> h_polls w 0 = Some p \<and> p_phase p = Tried (Result (Claimed r))
     \<and> last (p_log p) = Result (Claimed r)"
proof -
  obtain r where r: "claim_dispatch_once demo_claim_env demo_claim demo_resident = (Claimed r, demo_claimed)" using demo_claim_result ..
  then have "claim_attempt demo_claim demo_resident (Result (Claimed r)) demo_claimed" by (rule claim_attempt.answered) simp_all
  from demo_transacted [OF this, of 5 20000]
  obtain w p where w: "(claim_step 5)\<^sup>*\<^sup>* demo_held w" "h_polls w 0 = Some p" "p_phase p = Tried (Result (Claimed r))" "p_log p = [Result (Claimed r)]"
    by (simp add: set_poll_def)
  have "no_polls demo_held" by (simp add: no_polls_def demo_held_def no_dispatch_def)
  from held_claim_returns_its_answer [OF this w(1,2)] w show ?thesis by auto
qed

text \<open>No attempt for a caller who has left. From the moment the caller is known to have gone, unless an attempt is already
  under way, the request makes no further attempt, whoever else is notified and however long it goes on.\<close>

theorem no_attempt_after_caller_left:
  assumes "(claim_step lag)\<^sup>*\<^sup>* w w'" and "h_polls w i = Some p" and "p_gone p" and "p_phase p \<noteq> Trying"
  shows "\<exists>p'. h_polls w' i = Some p' \<and> p_log p' = p_log p \<and> p_phase p' \<noteq> Trying"
proof -
  have "\<exists>p'. h_polls w' i = Some p' \<and> p_log p' = p_log p \<and> p_gone p' \<and> p_phase p' \<noteq> Trying"
    using assms(1)
  proof (induction rule: rtranclp_induct)
    case base
    then show ?case using assms by blast
  next
    case (step y z)
    then obtain p' where p': "h_polls y i = Some p'" "p_log p' = p_log p" "p_gone p'" "p_phase p' \<noteq> Trying" by blast
    have gone: "p_gone (after_attempt E L now oc p') \<and> p_phase (after_attempt E L now oc p') \<noteq> Trying" for E L now and oc :: "claim_result outcome"
      using p'(3,4) by (auto simp: after_attempt_def loop_head_def Let_def split: option.splits)
    have woken: "p_gone (after_wait now p') \<and> p_phase (after_wait now p') \<noteq> Trying" for now
      using p'(3,4) by (auto simp: after_wait_def note_waited_def Let_def split: option.splits)
    from step.hyps(2) show ?case by (cases rule: held_step.cases) (use p' gone woken in auto)
  qed
  then show ?thesis by blast
qed

theorem no_attempt_after_caller_left_witness:
  "\<exists>w w' p p'. (claim_step 0)\<^sup>*\<^sup>* demo_held w \<and> h_polls w 0 = Some p \<and> p_gone p \<and> length (p_log p) = 1
     \<and> claim_step 0 w w' \<and> h_polls w' 0 = Some p' \<and> length (p_log p') = 1 \<and> p_phase p' \<noteq> Trying"
proof -
  obtain r where r: "claim_dispatch_once demo_claim_env demo_claim demo_resident = (Claimed r, demo_claimed)" using demo_claim_result ..
  then have "claim_attempt demo_claim demo_resident Lock_Error demo_claimed" by (rule claim_attempt.reply_failed) simp
  note t = demo_transacted [OF this, of 0 20000]
  let ?p = "(new_poll demo_claim 20000 ''dispatch'' 3000)\<lparr>p_phase := Tried Lock_Error, p_log := [Lock_Error :: claim_result outcome]\<rparr>"
  let ?w = "set_poll 0 (?p\<lparr>p_gone := True\<rparr>) (set_poll 0 ?p (demo_held\<lparr>h_db := demo_claimed\<rparr>))"
  let ?w' = "go_on claim_empty (Some No_Run) 0 Lock_Error (?p\<lparr>p_gone := True\<rparr>) ?w"
  have w: "(claim_step 0)\<^sup>*\<^sup>* demo_held ?w"
    by (rule rtranclp.rtrancl_into_rtrancl [OF t held_step.leave]) simp
  have p: "h_polls ?w 0 = Some (?p\<lparr>p_gone := True\<rparr>)" by (simp add: set_poll_def)
  have s: "claim_step 0 ?w ?w'" by (rule held_step.go_on [OF p]) simp
  obtain p' where "h_polls ?w' 0 = Some p'" "p_log p' = [Lock_Error]" "p_phase p' \<noteq> Trying"
    using no_attempt_after_caller_left [OF r_into_rtranclp [of "claim_step 0", OF s] p] by auto
  then show ?thesis using w p s
    by (intro exI [of _ ?w] exI [of _ ?w'] exI [of _ "?p\<lparr>p_gone := True\<rparr>"] exI [of _ p']) simp
qed

text \<open>Contention after the commit loses the run. A claim whose transaction was committed, and whose answer then meets a
  locked database, counts as "nothing to do": the request returns no run while the run stays claimed by its
  bridge.\<close>

theorem contention_after_commit_loses_run:
  "\<exists>w p. (claim_step 0)\<^sup>*\<^sup>* demo_held w \<and> h_polls w 0 = Some p \<and> p_phase p = Returned No_Run
     \<and> map (\<lambda>r. (r_status r, r_claim_bridge r)) (d_runs (h_db w)) = [(''claimed'', ''b1'')]"
proof -
  obtain r where "claim_dispatch_once demo_claim_env demo_claim demo_resident = (Claimed r, demo_claimed)" using demo_claim_result ..
  then have "claim_attempt demo_claim demo_resident Lock_Error demo_claimed" by (rule claim_attempt.reply_failed) simp
  note t = demo_transacted [OF this, of 0 0]
  let ?p = "(new_poll demo_claim 0 ''dispatch'' 3000)\<lparr>p_phase := Tried Lock_Error, p_log := [Lock_Error :: claim_result outcome]\<rparr>"
  let ?w = "set_poll 0 ?p (demo_held\<lparr>h_db := demo_claimed\<rparr>)"
  have w: "(claim_step 0)\<^sup>*\<^sup>* demo_held (go_on claim_empty (Some No_Run) 0 Lock_Error ?p ?w)"
    by (rule rtranclp.rtrancl_into_rtrancl [OF t held_step.go_on]) simp_all
  have "map (\<lambda>r. (r_status r, r_claim_bridge r)) (d_runs demo_claimed) = [(''claimed'', ''b1'')]" by code_simp
  then have c: "map (\<lambda>r. (r_status r, r_claim_bridge r)) (d_runs (h_db (go_on claim_empty (Some No_Run) 0 Lock_Error ?p ?w))) = [(''claimed'', ''b1'')]"
    by simp
  have h: "h_polls (go_on claim_empty (Some No_Run) 0 Lock_Error ?p ?w) 0 = Some (after_attempt claim_empty (Some No_Run) 0 Lock_Error ?p)"
    by (simp add: demo_held_def)
  have ph: "p_phase (after_attempt claim_empty (Some No_Run) 0 Lock_Error ?p) = Returned No_Run"
    by (simp add: after_attempt_def try_attempt_def new_poll_def)
  show ?thesis by (rule exI, rule exI, rule conjI [OF w conjI [OF h conjI [OF ph c]]])
qed

subsection \<open>Notices and timers\<close>

lemma fired_after: "distinct (map (\<lambda>(s, i, f). i) b) \<Longrightarrow> (s, i, f) \<in> set b \<Longrightarrow> fired i b = f"
  by (induction b) (force simp: fired_def)+

lemma notify_count:
  assumes "distinct (map (\<lambda>(s, i, f). i) b)"
  shows "fst (notify scope b) = card {i. fired i (snd (notify scope b)) \<and> \<not> fired i b}"
proof -
  let ?P = "\<lambda>(s :: string, i :: nat, f). hears scope s \<and> \<not> f"
  have "distinct (map (\<lambda>(s, i, f). i) (filter ?P b))" using assms by (rule distinct_map_filter)
  from distinct_card [OF this] have "length (filter ?P b) = card (set (map (\<lambda>(s, i, f). i) (filter ?P b)))" by simp
  also have "set (map (\<lambda>(s, i, f). i) (filter ?P b)) = {i. fired i (snd (notify scope b)) \<and> \<not> fired i b}"
  proof (rule set_eqI, rule iffI)
    fix i assume "i \<in> set (map (\<lambda>(s, i, f). i) (filter ?P b))"
    then obtain s where s: "(s, i, False) \<in> set b" "hears scope s" by auto
    then have "\<not> fired i b" using fired_after [OF assms] by blast
    moreover have "(s, i, True) \<in> set (snd (notify scope b))" using s notify_entries by blast
    ultimately show "i \<in> {i. fired i (snd (notify scope b)) \<and> \<not> fired i b}" by (force simp: fired_def)
  next
    fix i assume "i \<in> {i. fired i (snd (notify scope b)) \<and> \<not> fired i b}"
    then obtain s g where "(s, i, g) \<in> set b" "g \<or> hears scope s" "\<not> fired i b" by (auto simp: fired_def notify_entries)
    moreover from this have "\<not> g" using fired_after [OF assms] by blast
    ultimately show "i \<in> set (map (\<lambda>(s, i, f). i) (filter ?P b))" by force
  qed
  finally show ?thesis by (simp add: notify_def)
qed

text \<open>A request that met a locked database and sleeps for the next attempt.\<close>

definition demo_asleep :: "(claim_req, claim_result, dstate) held" where
  "demo_asleep = go_on claim_empty (Some No_Run) 0 Lock_Error
     ((new_poll demo_claim 20000 ''dispatch'' 3000)\<lparr>p_phase := Tried Lock_Error, p_log := [Lock_Error]\<rparr>)
     (set_poll 0 ((new_poll demo_claim 20000 ''dispatch'' 3000)\<lparr>p_phase := Tried Lock_Error, p_log := [Lock_Error]\<rparr>) (demo_held\<lparr>h_db := demo_claimed\<rparr>))"

lemma demo_asleep_reached: "no_polls demo_held" "(claim_step 0)\<^sup>*\<^sup>* demo_held demo_asleep"
proof -
  show "no_polls demo_held" by (simp add: no_polls_def demo_held_def no_dispatch_def)
  obtain r where "claim_dispatch_once demo_claim_env demo_claim demo_resident = (Claimed r, demo_claimed)" using demo_claim_result ..
  then have "claim_attempt demo_claim demo_resident Lock_Error demo_claimed" by (rule claim_attempt.reply_failed) simp
  note t = demo_transacted [OF this, of 0 20000]
  show "(claim_step 0)\<^sup>*\<^sup>* demo_held demo_asleep"
    unfolding demo_asleep_def by (rule rtranclp.rtrancl_into_rtrancl [OF t held_step.go_on]) simp_all
qed

lemma demo_asleep_poll:
  "\<exists>p. h_polls demo_asleep 0 = Some p \<and> p_phase p = Waiting \<and> p_scope p = ''dispatch'' \<and> p_until p = 3000 \<and> p_wait_ms p = 20000
     \<and> h_now demo_asleep = 0 \<and> h_bus demo_asleep = [(''dispatch'', 0, False)]"
  by (simp add: demo_asleep_def go_on_def after_attempt_def loop_head_def try_attempt_def new_poll_def enlist_def demo_held_def MAX_WAIT_def
      Let_def claim_empty_iff)

text \<open>A notice reaches every sleeper. In every reachable state a notice on a scope lets each request asleep on that scope, or
  on the global one, go on (and a global notice every sleeper); it wakes no other request, and the number it returns is the number of
  requests it woke.\<close>

theorem notice_wakes_its_sleepers:
  assumes "no_polls w" and "(claim_step lag)\<^sup>*\<^sup>* w w'"
  shows "(\<forall>i p. h_polls w' i = Some p \<and> p_phase p = Waiting \<and> (p_scope p = scope \<or> p_scope p = GLOBAL_SCOPE \<or> scope = GLOBAL_SCOPE)
        \<longrightarrow> may_wake i p (w'\<lparr>h_bus := snd (notify scope (h_bus w'))\<rparr>))
    \<and> (\<forall>i. fired i (snd (notify scope (h_bus w'))) \<and> \<not> fired i (h_bus w')
        \<longrightarrow> (\<exists>p. h_polls w' i = Some p \<and> p_phase p = Waiting \<and> hears scope (p_scope p)))
    \<and> fst (notify scope (h_bus w')) = card {i. fired i (snd (notify scope (h_bus w'))) \<and> \<not> fired i (h_bus w')}"
proof -
  have b: "bus_ok w'" using held_claims.inv_reachable [OF assms] by (simp add: held_ok_def)
  then have d: "distinct (map (\<lambda>(s, i, f). i) (h_bus w'))" by (simp add: bus_ok_def)
  have woken: "may_wake i p (w'\<lparr>h_bus := snd (notify scope (h_bus w'))\<rparr>)"
    if i: "h_polls w' i = Some p" "p_phase p = Waiting" "p_scope p = scope \<or> p_scope p = GLOBAL_SCOPE \<or> scope = GLOBAL_SCOPE" for i p
  proof -
    have "sleeps w' i (p_scope p)" using i by (simp add: sleeps_def)
    then obtain f where "(p_scope p, i, f) \<in> set (h_bus w')" using b unfolding bus_ok_def by blast
    moreover have "hears scope (p_scope p)" using i(3) by (auto simp: hears_def)
    ultimately have "(p_scope p, i, True) \<in> set (snd (notify scope (h_bus w')))" using notify_entries by blast
    then show ?thesis by (force simp: may_wake_def fired_def)
  qed
  have only: "\<exists>p. h_polls w' i = Some p \<and> p_phase p = Waiting \<and> hears scope (p_scope p)"
    if "fired i (snd (notify scope (h_bus w')))" "\<not> fired i (h_bus w')" for i
  proof -
    from that(1) obtain s g where s: "(s, i, g) \<in> set (h_bus w')" "g \<or> hears scope s" by (auto simp: fired_def notify_entries)
    then have "hears scope s" using that(2) fired_after [OF d] by blast
    moreover have "sleeps w' i s" using b s(1) unfolding bus_ok_def by blast
    ultimately show ?thesis by (auto simp: sleeps_def split: option.splits)
  qed
  show ?thesis using woken only notify_count [OF d] by blast
qed

theorem notice_wakes_its_sleepers_witness:
  "\<exists>p. h_polls demo_asleep 0 = Some p \<and> \<not> may_wake 0 p demo_asleep
     \<and> may_wake 0 p (demo_asleep\<lparr>h_bus := snd (notify ''dispatch'' (h_bus demo_asleep))\<rparr>) \<and> fst (notify ''dispatch'' (h_bus demo_asleep)) = 1"
proof -
  obtain p where p: "h_polls demo_asleep 0 = Some p" "p_phase p = Waiting" "p_scope p = ''dispatch''" "p_until p = 3000"
    "h_now demo_asleep = 0" "h_bus demo_asleep = [(''dispatch'', 0, False)]" using demo_asleep_poll by blast
  have "\<not> p_gone p" using p(1) by (simp add: demo_asleep_def after_attempt_def loop_head_def try_attempt_def new_poll_def claim_empty_iff
      demo_held_def MAX_WAIT_def Let_def) auto
  then have "\<not> may_wake 0 p demo_asleep" using p by (simp add: may_wake_def fired_def)
  moreover have "may_wake 0 p (demo_asleep\<lparr>h_bus := snd (notify ''dispatch'' (h_bus demo_asleep))\<rparr>)"
    using notice_wakes_its_sleepers [OF demo_asleep_reached, of "''dispatch''"] p(1-3) by blast
  moreover have "fst (notify ''dispatch'' (h_bus demo_asleep)) = 1" using p(6) by (simp add: notify_def hears_def)
  ultimately show ?thesis using p(1) by blast
qed

text \<open>C34. Waiting is bounded. However long requests are held, a sleeping one has a timer no later than its deadline and
  no more than the fallback interval after it fell asleep, and the time a request has spent asleep, which is left out of its
  work time, never passes the wait it asked for, nor 25 seconds, by more than the delay of one timer.\<close>

theorem waiting_is_bounded:
  assumes "no_polls w" and "(claim_step lag)\<^sup>*\<^sup>* w w'" and "h_polls w' i = Some p"
  shows "p_waited p \<le> max 0 (min (p_wait_ms p) 25000) + int lag
    \<and> (p_phase p = Waiting \<longrightarrow> p_until p \<le> p_slept_at p + p_fallback p \<and> (\<exists>d. p_deadline p = Some d \<and> p_until p \<le> d)
         \<and> h_now w' \<le> p_until p + int lag)"
proof -
  have "time_ok (int lag) (h_now w') p" using held_claims.inv_reachable [OF assms(1,2)] assms(3) by (auto simp: held_ok_def)
  then show ?thesis by (auto simp: time_ok_def wait_limit_def MAX_WAIT_def split: option.splits)
qed

theorem waiting_is_bounded_witness:
  "\<exists>p. h_polls demo_asleep 0 = Some p \<and> p_phase p = Waiting \<and> p_waited p \<le> 20000 \<and> (\<exists>d. p_deadline p = Some d \<and> p_until p \<le> d)"
proof -
  obtain p where p: "h_polls demo_asleep 0 = Some p" "p_phase p = Waiting" "p_wait_ms p = 20000" using demo_asleep_poll by blast
  then show ?thesis using waiting_is_bounded [OF demo_asleep_reached p(1)] by auto
qed

end
