(* ===== verification/Workspace.thy ===== *)
theory Workspace
  imports UText
begin

text \<open>
  Where an agent may be started: \<open>service/api_core/workspace.py\<close>, with \<open>posixpath.normpath\<close> as it calls it and the
  path style of \<open>service/api_core/capabilities.py\<close>. A workspace is checked against the folders an environment offers
  (\<open>cwdRoots\<close>), where \<open>..\<close> is resolved, and against the launch roots its host reported, where it is refused.

  The meaning of a path is the list of names \<open>place\<close> gives it, without the file system, as the code reads it too. Texts
  shown to a reader (the sentence of \<open>add_fix\<close>) are left out.
\<close>

declare split_paired_All [simp del] split_paired_Ex [simp del]

abbreviation SL :: int where "SL \<equiv> 47"
abbreviation BS :: int where "BS \<equiv> 92"

subsection \<open>Segments\<close>

primrec u_split :: "int \<Rightarrow> ustr \<Rightarrow> ustr list" where
  "u_split sep [] = [[]]"
| "u_split sep (c # cs) = (if c = sep then [] # u_split sep cs else (c # hd (u_split sep cs)) # tl (u_split sep cs))"

fun u_join :: "ustr \<Rightarrow> ustr list \<Rightarrow> ustr" where
  "u_join sep [] = []"
| "u_join sep [l] = l"
| "u_join sep (l # l2 # ls) = l @ sep @ u_join sep (l2 # ls)"

definition rstrip_char :: "int \<Rightarrow> ustr \<Rightarrow> ustr" where
  "rstrip_char c s = rev (dropWhile (\<lambda>x. x = c) (rev s))"

text \<open>\<open>replace("\\", "/")\<close>.\<close>

definition slashed :: "ustr \<Rightarrow> ustr" where
  "slashed s = map (\<lambda>c. if c = BS then SL else c) s"

abbreviation DOT :: ustr where "DOT \<equiv> [46]"
abbreviation DOTS :: ustr where "DOTS \<equiv> [46, 46]"

subsection \<open>\<open>posixpath.normpath\<close>\<close>

definition lead :: "ustr \<Rightarrow> nat" where
  "lead s = (if prefix [SL, SL] s \<and> \<not> prefix [SL, SL, SL] s then 2 else if prefix [SL] s then 1 else 0)"

definition norm_step :: "bool \<Rightarrow> ustr list \<Rightarrow> ustr \<Rightarrow> ustr list" where
  "norm_step absolute new seg =
     (if seg = [] \<or> seg = DOT then new
      else if seg \<noteq> DOTS \<or> (\<not> absolute \<and> new = []) \<or> (new \<noteq> [] \<and> last new = DOTS) then new @ [seg]
      else if new \<noteq> [] then butlast new
      else new)"

definition normpath :: "ustr \<Rightarrow> ustr" where
  "normpath s = (if s = [] then DOT
     else (let n = lead s; new = foldl (norm_step (n > 0)) [] (u_split SL s); path = replicate n SL @ u_join [SL] new in
           if path = [] then DOT else path))"

definition lexical_key :: "ustr \<Rightarrow> ustr" where
  "lexical_key s = (if s = [] then s else normpath s)"

subsection \<open>The environment's roots\<close>

record host =
  h_id :: ustr
  h_os :: ustr
  h_kind :: ustr
  h_machine :: ustr
  h_roots :: "ustr list"
  h_launch_roots :: "ustr list"

definition clean_roots :: "host \<Rightarrow> ustr list" where
  "clean_roots h = filter (\<lambda>r. r \<noteq> []) (map u_strip (h_roots h))"

definition ascii_letter :: "int \<Rightarrow> bool" where
  "ascii_letter c = ((65 \<le> c \<and> c \<le> 90) \<or> (97 \<le> c \<and> c \<le> 122))"

definition drive_root :: "ustr \<Rightarrow> bool" where
  "drive_root r = (length r \<ge> 3 \<and> ascii_letter (r ! 0) \<and> r ! 1 = 58 \<and> (r ! 2 = BS \<or> r ! 2 = SL))"

definition environment_uses_windows_paths :: "host \<Rightarrow> bool" where
  "environment_uses_windows_paths h =
     (let text = u_lower (u_join [32] [h_id h, h_os h, h_kind h, h_machine h]) in
      sublist (lit ''win32'') text \<or> sublist (lit ''windows'') text \<or> (\<exists>r \<in> set (clean_roots h). drive_root r))"

definition normalize_workspace_for_environment :: "host \<Rightarrow> ustr \<Rightarrow> ustr" where
  "normalize_workspace_for_environment h workspace =
     (let value = u_strip workspace in
      if value = [] then [] else if environment_uses_windows_paths h then value else slashed value)"

definition path_key :: "bool \<Rightarrow> ustr \<Rightarrow> ustr" where
  "path_key fold_it s = (let k = rstrip_char SL (lexical_key (slashed s)) in if fold_it then u_lower k else k)"

definition under_key :: "ustr \<Rightarrow> ustr \<Rightarrow> bool" where
  "under_key root_key key = (key = root_key \<or> prefix (root_key @ [SL]) key)"

text \<open>\<open>None\<close> is the refusal with status 400.\<close>

definition workspace_root_for :: "host \<Rightarrow> ustr \<Rightarrow> ustr option" where
  "workspace_root_for h workspace =
     (let value = normalize_workspace_for_environment h workspace; roots = clean_roots h;
          fold_it = environment_uses_windows_paths h in
      if value = [] \<or> roots = [] then Some (if roots = [] then [] else hd roots)
      else find (\<lambda>r. under_key (path_key fold_it r) (path_key fold_it value)) roots)"

definition workspace_for_environment :: "host \<Rightarrow> ustr \<Rightarrow> ustr \<Rightarrow> (ustr \<times> ustr) option" where
  "workspace_for_environment h requested fallback =
     (let roots = clean_roots h; first = (if roots = [] then [] else hd roots);
          asked = normalize_workspace_for_environment h (u_or requested fallback);
          workspace = u_or asked first in
      case (case workspace_root_for h workspace of
          Some root \<Rightarrow> Some (workspace, root)
        | None \<Rightarrow>
            if requested \<noteq> [] then None
            else (let w = normalize_workspace_for_environment h first in map_option (\<lambda>root. (w, root)) (workspace_root_for h w))) of
        None \<Rightarrow> None
      | Some (w, root) \<Rightarrow> Some (u_or w root, root))"

subsection \<open>Launch roots\<close>

definition normalise_root :: "bool \<Rightarrow> ustr \<Rightarrow> ustr" where
  "normalise_root windows value =
     (let s = slashed value; text = u_or (rstrip_char SL s) (if prefix [SL] s then [SL] else []) in
      if windows then u_lower text else text)"

definition dotted :: "ustr \<Rightarrow> bool" where
  "dotted s = (DOT \<in> set (u_split SL s) \<or> DOTS \<in> set (u_split SL s))"

definition workspace_within_roots :: "bool \<Rightarrow> ustr \<Rightarrow> ustr list \<Rightarrow> bool" where
  "workspace_within_roots windows workspace roots =
     (let target = normalise_root windows workspace in
      target \<noteq> [] \<and> \<not> dotted target
      \<and> (\<exists>r \<in> set roots. let base = normalise_root windows r in
           base \<noteq> [] \<and> (target = base \<or> prefix (if base = [SL] then [SL] else base @ [SL]) target)))"

definition js_space :: "int \<Rightarrow> bool" where
  "js_space c = ((9 \<le> c \<and> c \<le> 13) \<or> c = 32 \<or> c = 160 \<or> c = 5760 \<or> (8192 \<le> c \<and> c \<le> 8202) \<or> c = 8232 \<or> c = 8233
     \<or> c = 8239 \<or> c = 8287 \<or> c = 12288 \<or> c = 65279)"

definition js_trim :: "ustr \<Rightarrow> ustr" where
  "js_trim s = rev (dropWhile js_space (rev (dropWhile js_space s)))"

datatype root_refusal = No_Folder | Unc_Path | No_Drive | Not_Absolute | Dot_Segment

fun squeeze_slashes :: "ustr \<Rightarrow> ustr" where
  "squeeze_slashes (c # d # cs) = (if c = SL \<and> d = SL then squeeze_slashes (d # cs) else c # squeeze_slashes (d # cs))"
| "squeeze_slashes cs = cs"

definition upper_letter :: "int \<Rightarrow> int" where
  "upper_letter c = (if 97 \<le> c \<and> c \<le> 122 then c - 32 else c)"

text \<open>\<open>_WINDOWS_DRIVE.fullmatch\<close>: the drive letter and the rest, or nothing.\<close>

definition drive_match :: "ustr \<Rightarrow> (int \<times> ustr) option" where
  "drive_match s = (case s of
     d # c # rest \<Rightarrow> if ascii_letter d \<and> c = 58 \<and> (rest = [] \<or> (hd rest = SL \<and> set rest \<inter> {10, 13, 8232, 8233} = {}))
                    then Some (d, rest) else None
   | _ \<Rightarrow> None)"

definition is_top :: "bool \<Rightarrow> ustr \<Rightarrow> bool" where
  "is_top windows root = (if windows then length root = 3 \<and> 65 \<le> root ! 0 \<and> root ! 0 \<le> 90 \<and> root ! 1 = 58 \<and> root ! 2 = SL
     else root = [SL])"

definition parse_launch_root :: "bool \<Rightarrow> ustr \<Rightarrow> root_refusal + ustr" where
  "parse_launch_root windows text =
     (let typed = js_trim text; s = slashed typed in
      if typed = [] then Inl No_Folder
      else case (if windows then (if prefix [SL, SL] s then Inl Unc_Path
                   else (case drive_match s of None \<Rightarrow> Inl No_Drive | Some (d, rest) \<Rightarrow> Inr (upper_letter d # 58 # u_or rest [SL])))
                 else if \<not> prefix [SL] typed then Inl Not_Absolute else Inr typed) of
          Inl e \<Rightarrow> Inl e
        | Inr raw \<Rightarrow> (let root = squeeze_slashes raw in
            if dotted root then Inl Dot_Segment else Inr (if is_top windows root then root else rstrip_char SL root)))"

datatype add_hint_result = Command ustr | Unquotable | Hint_Refused root_refusal

definition unquotable_char :: "int \<Rightarrow> bool" where
  "unquotable_char c = (c \<in> {34, 96, 36, 37, 33, 127} \<or> (0 \<le> c \<and> c \<le> 31))"

text \<open>The command is \<open>aify-env roots add\<close> with the root in double quotes; the model keeps the root.\<close>

definition add_hint :: "bool \<Rightarrow> ustr \<Rightarrow> add_hint_result" where
  "add_hint windows folder = (case parse_launch_root windows folder of
     Inl e \<Rightarrow> Hint_Refused e
   | Inr root \<Rightarrow> if (\<exists>c \<in> set folder. unquotable_char c) \<or> (\<not> windows \<and> BS \<in> set folder) then Unquotable else Command root)"

definition outside_launch_roots :: "ustr \<Rightarrow> host \<Rightarrow> bool" where
  "outside_launch_roots workspace h =
     (h_launch_roots h \<noteq> [] \<and> \<not> workspace_within_roots (environment_uses_windows_paths h) workspace (h_launch_roots h))"

subsection \<open>Splitting and joining\<close>

lemma u_split_ne [simp]: "u_split sep s \<noteq> []"
  by (induction s) auto

lemma u_split_sep: "u_split sep (a @ sep # b) = u_split sep a @ u_split sep b"
  by (induction a) auto

lemma u_split_none: "sep \<notin> set s \<Longrightarrow> u_split sep s = [s]"
  by (induction s) auto

lemma u_split_parts: "l \<in> set (u_split sep s) \<Longrightarrow> sep \<notin> set l"
proof (induction s arbitrary: l)
  case (Cons c cs)
  have "hd (u_split sep cs) \<in> set (u_split sep cs)" by simp
  with Cons show ?case by (auto split: if_splits dest: list.set_sel(2) [rotated])
qed simp

lemma u_split_join: "ls \<noteq> [] \<Longrightarrow> \<forall>l \<in> set ls. sep \<notin> set l \<Longrightarrow> u_split sep (u_join [sep] ls) = ls"
  by (induction "[sep]" ls rule: u_join.induct) (simp_all add: u_split_none u_split_sep)

lemma u_join_split: "u_join [sep] (u_split sep s) = s"
proof (induction s)
  case (Cons c cs)
  obtain l ls where l: "u_split sep cs = l # ls" by (cases "u_split sep cs") simp_all
  with Cons show ?case by (cases ls) auto
qed simp

lemma u_join_append: "xs \<noteq> [] \<Longrightarrow> ys \<noteq> [] \<Longrightarrow> u_join sep (xs @ ys) = u_join sep xs @ sep @ u_join sep ys"
proof (induction sep xs rule: u_join.induct)
  case (2 sep l)
  then show ?case by (cases ys) auto
qed simp_all

lemma u_join_ends:
  assumes "ls \<noteq> []" and "\<forall>l \<in> set ls. l \<noteq> [] \<and> sep \<notin> set l"
  shows "u_join [sep] ls \<noteq> []" and "hd (u_join [sep] ls) \<noteq> sep" and "last (u_join [sep] ls) \<noteq> sep"
  using assms by (induction "[sep]" ls rule: u_join.induct) auto

text \<open>A path below another is one whose names go on from the other's.\<close>

lemma join_under:
  assumes "\<forall>l \<in> set cs. l \<noteq> [] \<and> sep \<notin> set l" and "\<forall>l \<in> set ds. l \<noteq> [] \<and> sep \<notin> set l" and "cs \<noteq> []" and "ds \<noteq> []"
  shows "u_join [sep] ds = u_join [sep] cs \<or> prefix (u_join [sep] cs @ [sep]) (u_join [sep] ds) \<longleftrightarrow> prefix cs ds"
proof
  assume "u_join [sep] ds = u_join [sep] cs \<or> prefix (u_join [sep] cs @ [sep]) (u_join [sep] ds)"
  then show "prefix cs ds"
  proof
    assume "u_join [sep] ds = u_join [sep] cs"
    then have "u_split sep (u_join [sep] ds) = u_split sep (u_join [sep] cs)" by simp
    then show "prefix cs ds" using assms by (simp add: u_split_join)
  next
    assume "prefix (u_join [sep] cs @ [sep]) (u_join [sep] ds)"
    then obtain z where "u_join [sep] ds = u_join [sep] cs @ sep # z" by (auto simp: prefix_def)
    then have "u_split sep (u_join [sep] ds) = u_split sep (u_join [sep] cs) @ u_split sep z" by (simp add: u_split_sep)
    then show "prefix cs ds" using assms by (simp add: u_split_join)
  qed
next
  assume "prefix cs ds"
  then obtain zs where "ds = cs @ zs" by (auto simp: prefix_def)
  then show "u_join [sep] ds = u_join [sep] cs \<or> prefix (u_join [sep] cs @ [sep]) (u_join [sep] ds)"
    using assms(3) by (cases zs) (auto simp: u_join_append)
qed

subsection \<open>The place of a path\<close>

text \<open>Where a path leads from the top, name by name.\<close>

definition walk :: "ustr list \<Rightarrow> ustr \<Rightarrow> ustr list" where
  "walk d seg = (if seg = [] \<or> seg = DOT then d else if seg = DOTS then butlast d else d @ [seg])"

definition place :: "ustr \<Rightarrow> ustr list" where
  "place s = foldl walk [] (u_split SL s)"

definition real_names :: "ustr list \<Rightarrow> bool" where
  "real_names ds = (\<forall>d \<in> set ds. d \<noteq> [] \<and> d \<noteq> DOT \<and> d \<noteq> DOTS \<and> SL \<notin> set d)"

lemma walk_names: "real_names ds \<Longrightarrow> SL \<notin> set seg \<Longrightarrow> real_names (walk ds seg)"
  by (auto simp: real_names_def walk_def dest: in_set_butlastD)

lemma foldl_walk_names: "real_names ds \<Longrightarrow> \<forall>s \<in> set segs. SL \<notin> set s \<Longrightarrow> real_names (foldl walk ds segs)"
  by (induction segs arbitrary: ds) (simp_all add: walk_names)

lemma place_names: "real_names (place s)"
  unfolding place_def by (rule foldl_walk_names) (auto simp: real_names_def dest: u_split_parts)

lemma norm_step_walk: "real_names ds \<Longrightarrow> norm_step True ds seg = walk ds seg"
proof -
  assume "real_names ds"
  then have "ds \<noteq> [] \<Longrightarrow> last ds \<noteq> DOTS" by (simp add: real_names_def)
  then show ?thesis by (auto simp: norm_step_def walk_def)
qed

lemma foldl_norm_walk:
  "real_names ds \<Longrightarrow> \<forall>s \<in> set segs. SL \<notin> set s \<Longrightarrow> foldl (norm_step True) ds segs = foldl walk ds segs"
  by (induction segs arbitrary: ds) (simp_all add: norm_step_walk walk_names)

lemma normpath_place: "lead s > 0 \<Longrightarrow> normpath s = replicate (lead s) SL @ u_join [SL] (place s)"
proof -
  assume l: "lead s > 0"
  then have "s \<noteq> []" by (auto simp: lead_def split: if_splits)
  moreover have "foldl (norm_step True) [] (u_split SL s) = place s"
    unfolding place_def by (rule foldl_norm_walk) (auto simp: real_names_def dest: u_split_parts)
  ultimately show ?thesis using l by (simp add: normpath_def Let_def)
qed

lemma rstrip_char_id: "s = [] \<or> last s \<noteq> c \<Longrightarrow> rstrip_char c s = s"
  by (cases s rule: rev_cases) (auto simp: rstrip_char_def)

lemma rstrip_replicate: "rstrip_char c (replicate n c) = []"
  by (simp add: rstrip_char_def rev_replicate dropWhile_replicate)

lemma path_key_place:
  assumes "lead (slashed s) = 1"
  shows "path_key False s = (if place (slashed s) = [] then [] else SL # u_join [SL] (place (slashed s)))"
proof -
  let ?p = "place (slashed s)"
  have ne: "slashed s \<noteq> []" using assms by (auto simp: lead_def split: if_splits)
  have names: "\<forall>l \<in> set ?p. l \<noteq> [] \<and> SL \<notin> set l" using place_names [of "slashed s"] by (simp add: real_names_def)
  have k: "lexical_key (slashed s) = SL # u_join [SL] ?p" using ne assms by (simp add: lexical_key_def normpath_place)
  show ?thesis
  proof (cases "?p = []")
    case True
    then show ?thesis using k rstrip_replicate [of SL 1] by (simp add: path_key_def)
  next
    case False
    from u_join_ends(1,3) [OF this names] have "last (SL # u_join [SL] ?p) \<noteq> SL" by simp
    then show ?thesis using False k by (simp add: path_key_def rstrip_char_id)
  qed
qed

lemma under_key_place:
  assumes "lead (slashed r) = 1" and "lead (slashed w) = 1"
  shows "under_key (path_key False r) (path_key False w) \<longleftrightarrow> prefix (place (slashed r)) (place (slashed w))"
proof -
  let ?r = "place (slashed r)" and ?w = "place (slashed w)"
  have names: "\<forall>l \<in> set (place (slashed x)). l \<noteq> [] \<and> SL \<notin> set l" for x
    using place_names [of "slashed x"] by (simp add: real_names_def)
  show ?thesis
  proof (cases "?r = [] \<or> ?w = []")
    case True
    then show ?thesis using assms by (auto simp: under_key_def path_key_place)
  next
    case False
    then show ?thesis
      using join_under [OF names names, of r w] assms by (auto simp: under_key_def path_key_place)
  qed
qed

lemma find_cong_set: "(\<And>x. x \<in> set xs \<Longrightarrow> P x = Q x) \<Longrightarrow> find P xs = find Q xs"
  by (induction xs) auto

text \<open>C15. The workspace check is containment. On a host without Windows paths, when the workspace and the offered roots are
  absolute (with one leading slash), the root found is the first root whose folder contains the folder the workspace
  leads to once \<open>.\<close>, \<open>..\<close> and doubled slashes are resolved; if the host offers roots and none contains it, the workspace is refused. A host
  that offers no roots at all admits every workspace, with no root.\<close>

theorem workspace_check_is_containment:
  assumes "\<not> environment_uses_windows_paths h" and "lead (slashed (u_strip w)) = 1"
    and "\<forall>r \<in> set (clean_roots h). lead (slashed r) = 1"
  shows "workspace_root_for h w = (if clean_roots h = [] then Some [] else find (\<lambda>r. prefix (place (slashed r)) (place (slashed (u_strip w)))) (clean_roots h))"
proof -
  have ss: "slashed (slashed x) = slashed x" for x by (simp add: slashed_def)
  have ne: "u_strip w \<noteq> []" using assms(2) by (auto simp: lead_def slashed_def)
  then have v: "normalize_workspace_for_environment h w = slashed (u_strip w)" "slashed (u_strip w) \<noteq> []"
    using assms(1) by (simp_all add: normalize_workspace_for_environment_def slashed_def)
  have "under_key (path_key False r) (path_key False (slashed (u_strip w)))
      = prefix (place (slashed r)) (place (slashed (u_strip w)))" if "r \<in> set (clean_roots h)" for r
    using under_key_place [of r "slashed (u_strip w)"] assms(2,3) that by (simp add: ss)
  then show ?thesis using assms(1) v by (simp add: workspace_root_for_def Let_def cong: find_cong_set)
qed

definition demo_host :: host where
  "demo_host = \<lparr>h_id = lit ''env'', h_os = lit ''linux'', h_kind = [], h_machine = lit ''linux:h'',
     h_roots = [lit ''/srv/repo'', lit ''/home/''], h_launch_roots = []\<rparr>"

theorem workspace_check_is_containment_witness:
  "workspace_root_for demo_host (lit ''/srv/repo/../../home//bob'') = Some (lit ''/home/'')
   \<and> workspace_root_for demo_host (lit ''/srv/repo/../../etc'') = None
   \<and> workspace_root_for (demo_host\<lparr>h_roots := []\<rparr>) (lit ''/srv/repo/../../etc'') = Some []"
proof -
  have n: "\<not> environment_uses_windows_paths (demo_host\<lparr>h_roots := []\<rparr>)" "\<forall>r \<in> set (clean_roots (demo_host\<lparr>h_roots := []\<rparr>)). lead (slashed r) = 1"
    "clean_roots (demo_host\<lparr>h_roots := []\<rparr>) = []" by code_simp+
  have h: "\<not> environment_uses_windows_paths demo_host" "clean_roots demo_host \<noteq> []"
    "\<forall>r \<in> set (clean_roots demo_host). lead (slashed r) = 1" by code_simp+
  have l: "lead (slashed (u_strip (lit ''/srv/repo/../../home//bob''))) = 1" "lead (slashed (u_strip (lit ''/srv/repo/../../etc''))) = 1"
    by code_simp+
  have f: "find (\<lambda>r. prefix (place (slashed r)) (place (slashed (u_strip (lit ''/srv/repo/../../home//bob''))))) (clean_roots demo_host)
      = Some (lit ''/home/'')"
    "find (\<lambda>r. prefix (place (slashed r)) (place (slashed (u_strip (lit ''/srv/repo/../../etc''))))) (clean_roots demo_host) = None"
    by code_simp+
  show ?thesis
    using workspace_check_is_containment [OF h(1) l(1) h(3)] workspace_check_is_containment [OF h(1) l(2) h(3)] workspace_check_is_containment [OF n(1) l(2) n(2)] f h(2) n(3) by simp
qed

subsection \<open>Launch roots as they are stored\<close>

definition single_slashed :: "ustr \<Rightarrow> bool" where
  "single_slashed s = (\<not> sublist [SL, SL] s)"

lemma sublist_two: "sublist [SL, SL] (c # cs) \<longleftrightarrow> (c = SL \<and> cs \<noteq> [] \<and> hd cs = SL) \<or> sublist [SL, SL] cs"
  by (cases cs) (auto simp: sublist_Cons_right)

lemma single_slashed_Cons: "single_slashed (c # cs) \<longleftrightarrow> \<not> (c = SL \<and> cs \<noteq> [] \<and> hd cs = SL) \<and> single_slashed cs"
  by (simp add: single_slashed_def sublist_two)

lemma squeeze_id: "single_slashed s \<Longrightarrow> squeeze_slashes s = s"
  by (induction s rule: squeeze_slashes.induct) (auto simp: single_slashed_Cons)

lemma squeeze_hd: "squeeze_slashes (c # cs) \<noteq> [] \<and> hd (squeeze_slashes (c # cs)) = c"
  by (induction "c # cs" arbitrary: c cs rule: squeeze_slashes.induct) auto

lemma squeeze_single: "single_slashed (squeeze_slashes s)"
proof (induction s rule: squeeze_slashes.induct)
  case (1 c d cs)
  then show ?case using squeeze_hd [of d cs] by (auto simp: single_slashed_Cons)
qed (auto simp: single_slashed_def sublist_two)

lemma rstrip_split: "\<exists>n. s = rstrip_char c s @ replicate n c"
proof (induction s rule: rev_induct)
  case (snoc x xs)
  show ?case
  proof (cases "x = c")
    case True
    then have r: "rstrip_char c (xs @ [x]) = rstrip_char c xs" by (simp add: rstrip_char_def)
    from snoc obtain n where "xs = rstrip_char c xs @ replicate n c" by (rule exE)
    then have n: "rstrip_char c xs @ replicate n c = xs" by (rule sym)
    have "rstrip_char c xs @ replicate (Suc n) c = (rstrip_char c xs @ replicate n c) @ [x]"
      using True by (simp add: replicate_append_same)
    then have "xs @ [x] = rstrip_char c (xs @ [x]) @ replicate (Suc n) c" unfolding r n by (rule sym)
    then show ?thesis by (rule exI)
  next
    case False
    then show ?thesis by (intro exI [of _ 0]) (simp add: rstrip_char_def)
  qed
qed (simp add: rstrip_char_def)

lemma rstrip_last: "rstrip_char c s = [] \<or> last (rstrip_char c s) \<noteq> c"
  using hd_dropWhile [of "\<lambda>x. x = c" "rev s"] unfolding rstrip_char_def last_rev by auto

lemma rstrip_idem [simp]: "rstrip_char c (rstrip_char c s) = rstrip_char c s"
  by (rule rstrip_char_id [OF rstrip_last])

lemma rstrip_past: "b \<noteq> c \<Longrightarrow> rstrip_char c (a @ b # z) = a @ b # rstrip_char c z"
  by (simp add: rstrip_char_def dropWhile_append)

lemma rstrip_prefix: "prefix (rstrip_char c s) s"
  using rstrip_split [of s c] by (metis prefixI)

lemma single_rstrip: "single_slashed s \<Longrightarrow> single_slashed (rstrip_char SL s)"
  using rstrip_prefix [of SL s] unfolding single_slashed_def by (meson prefix_imp_sublist sublist_order.order_trans)

lemma dotted_rstrip: "\<not> dotted s \<Longrightarrow> \<not> dotted (rstrip_char SL s)"
proof -
  obtain n where n: "s = rstrip_char SL s @ replicate n SL" using rstrip_split by blast
  have "set (u_split SL (rstrip_char SL s)) \<subseteq> set (u_split SL s)"
  proof (cases n)
    case (Suc m)
    then have "s = rstrip_char SL s @ SL # replicate m SL" using n by simp
    then have "u_split SL s = u_split SL (rstrip_char SL s) @ u_split SL (replicate m SL)" by (metis u_split_sep)
    then show ?thesis by simp
  qed (use n in simp)
  then show "\<not> dotted s \<Longrightarrow> \<not> dotted (rstrip_char SL s)" by (auto simp: dotted_def)
qed

lemma slashed_id: "BS \<notin> set s \<Longrightarrow> slashed s = s"
  unfolding slashed_def by (rule map_idI) auto

lemma parse_posix:
  assumes "parse_launch_root False t = Inr r"
  shows "r = [SL] \<or> (prefix [SL] r \<and> r \<noteq> [SL] \<and> last r \<noteq> SL)" and "single_slashed r" and "\<not> dotted r"
proof -
  define root where "root = squeeze_slashes (js_trim t)"
  have p: "js_trim t \<noteq> []" "prefix [SL] (js_trim t)" "\<not> dotted root" "r = (if root = [SL] then root else rstrip_char SL root)"
    using assms by (auto simp: parse_launch_root_def root_def is_top_def Let_def split: if_splits)
  then obtain z where z: "js_trim t = SL # z" by (auto simp: prefix_def)
  then obtain y where y: "root = SL # y" using squeeze_hd [of SL z] unfolding root_def by (metis list.collapse)
  have single: "single_slashed root" unfolding root_def by (rule squeeze_single)
  show "single_slashed r" using p(4) single single_rstrip [OF single] by (simp split: if_splits)
  show "\<not> dotted r" using p(3,4) dotted_rstrip [OF p(3)] by (simp split: if_splits)
  show "r = [SL] \<or> (prefix [SL] r \<and> r \<noteq> [SL] \<and> last r \<noteq> SL)"
  proof (cases "root = [SL]")
    case False
    then obtain b x where b: "root = [SL] @ b # x" "b \<noteq> SL" using y single by (cases y) (auto simp: single_slashed_Cons)
    then have "r = [SL] @ b # rstrip_char SL x" using p(4) False rstrip_past [of b SL "[SL]" x] by simp
    moreover have "last r \<noteq> SL" using rstrip_last [of SL root] p(4) False calculation by auto
    ultimately show ?thesis using b(2) by simp
  qed (use p in simp)
qed

lemma squeeze_set: "set (squeeze_slashes s) \<subseteq> set s"
  by (induction s rule: squeeze_slashes.induct) auto

lemma rstrip_set: "set (rstrip_char c s) \<subseteq> set s"
  using rstrip_prefix by (rule set_mono_prefix)

text \<open>Every root of a Windows host is a drive, a colon and a path from its top.\<close>

lemma parse_drive:
  assumes "parse_launch_root True t = Inr r"
  obtains e rest where "slashed (js_trim t) = e # 58 # rest" and "ascii_letter e" and "rest = [] \<or> hd rest = SL"
    and "set rest \<inter> {10, 13, 8232, 8233, BS} = {}" and "\<not> dotted (squeeze_slashes (upper_letter e # 58 # u_or rest [SL]))"
    and "r = (let root = squeeze_slashes (upper_letter e # 58 # u_or rest [SL]) in if is_top True root then root else rstrip_char SL root)"
proof -
  define s where "s = slashed (js_trim t)"
  have bs: "BS \<notin> set s" by (auto simp: s_def slashed_def)
  obtain e rest where m: "drive_match s = Some (e, rest)"
    using assms by (auto simp: parse_launch_root_def s_def Let_def split: if_splits option.splits)
  then have tail: "s = e # 58 # rest" "ascii_letter e" "rest = [] \<or> hd rest = SL" "set rest \<inter> {10, 13, 8232, 8233} = {}"
    by (auto simp: drive_match_def split: list.splits if_splits)
  then show thesis
    using assms m bs by (intro that [of e rest]) (auto simp: parse_launch_root_def s_def Let_def split: if_splits)
qed

lemma parse_windows:
  assumes "parse_launch_root True t = Inr r"
  obtains d z where "r = d # 58 # SL # z" and "65 \<le> d" and "d \<le> 90" and "z = [] \<or> last z \<noteq> SL" and "single_slashed r"
    and "\<not> dotted r" and "set (SL # z) \<inter> {10, 13, 8232, 8233, BS} = {}"
proof -
  from assms obtain e rest where t: "ascii_letter e" "rest = [] \<or> hd rest = SL" "set rest \<inter> {10, 13, 8232, 8233, BS} = {}"
    "\<not> dotted (squeeze_slashes (upper_letter e # 58 # u_or rest [SL]))"
    "r = (let root = squeeze_slashes (upper_letter e # 58 # u_or rest [SL]) in if is_top True root then root else rstrip_char SL root)"
    by (rule parse_drive)
  define root where "root = squeeze_slashes (upper_letter e # 58 # u_or rest [SL])"
  have r: "r = (if is_top True root then root else rstrip_char SL root)" and nd: "\<not> dotted root"
    using t(4,5) by (simp_all add: root_def Let_def)
  have e: "65 \<le> upper_letter e \<and> upper_letter e \<le> 90" using t(1) by (auto simp: ascii_letter_def upper_letter_def)
  obtain u where u: "u_or rest [SL] = SL # u" using t(2) by (cases rest) (auto simp: u_or_def)
  obtain y where y: "squeeze_slashes (SL # u) = SL # y" using squeeze_hd [of SL u] by (cases "squeeze_slashes (SL # u)") auto
  have root: "root = upper_letter e # 58 # SL # y" using y u by (simp add: root_def)
  have sy: "set (SL # y) \<inter> {10, 13, 8232, 8233, BS} = {}"
    using squeeze_set [of "u_or rest [SL]"] t(3) unfolding u y by (auto simp: u_or_def split: if_splits) (use u in \<open>auto simp: u_or_def split: if_splits\<close>)
  have single: "single_slashed root" unfolding root_def by (rule squeeze_single)
  show thesis
  proof (cases "y = []")
    case True
    then have "r = root" using r root e by (simp add: is_top_def)
    then show ?thesis using that [of "upper_letter e" "[]"] root True e single nd sy by simp
  next
    case False
    then obtain b x where b: "y = b # x" "b \<noteq> SL" using single root by (cases y) (auto simp: single_slashed_Cons)
    then have rr: "r = upper_letter e # 58 # SL # b # rstrip_char SL x"
      using r root rstrip_past [of b SL "[upper_letter e, 58, SL]" x] by (simp add: is_top_def)
    have "last (b # rstrip_char SL x) \<noteq> SL" using b(2) rstrip_last [of SL x] by auto
    moreover have "r = rstrip_char SL root" using r root b by (simp add: is_top_def)
    ultimately show ?thesis
      using that [OF rr] e sy b rstrip_set [of SL x] single_rstrip [OF single] dotted_rstrip [OF nd] by auto
  qed
qed

text \<open>A stored launch root is a fixed point of the parser: a root that was read from a typed folder, and that has no
  blanks around it, is read again as itself, on Windows and elsewhere.\<close>

theorem stored_root_reads_back:
  assumes "parse_launch_root w t = Inr r" and "js_trim r = r"
  shows "parse_launch_root w r = Inr r"
proof (cases w)
  case True
  then have "parse_launch_root True t = Inr r" using assms(1) by simp
  then obtain d z where r: "r = d # 58 # SL # z" "65 \<le> d" "d \<le> 90" "z = [] \<or> last z \<noteq> SL" "single_slashed r" "\<not> dotted r"
    "set (SL # z) \<inter> {10, 13, 8232, 8233, BS} = {}" by (rule parse_windows)
  have s: "slashed r = r" using r(1,2,3,7) by (intro slashed_id) auto
  have m: "drive_match r = Some (d, SL # z)" using r by (auto simp: drive_match_def ascii_letter_def)
  have "(if is_top True r then r else rstrip_char SL r) = r"
    using r(1-4) rstrip_char_id [of r SL] by (auto simp: is_top_def)
  moreover have "\<not> prefix [SL, SL] r" using r(1,2) by simp
  moreover have "upper_letter d # 58 # u_or (SL # z) [SL] = r" using r(1-3) by (simp add: u_or_def upper_letter_def)
  ultimately show ?thesis
    using True assms(2) m s squeeze_id [OF r(5)] r(1,6) by (simp add: parse_launch_root_def Let_def split: if_splits)
next
  case False
  with assms(1) have r: "r = [SL] \<or> (prefix [SL] r \<and> r \<noteq> [SL] \<and> last r \<noteq> SL)" "single_slashed r" "\<not> dotted r"
    using parse_posix by auto
  then show ?thesis
    using False assms(2) squeeze_id [OF r(2)] rstrip_char_id [of r SL]
    by (auto simp: parse_launch_root_def is_top_def Let_def)
qed

theorem stored_root_reads_back_witness:
  "parse_launch_root True (lit ''D:/Games/x'') = Inr (lit ''D:/Games/x'')
   \<and> parse_launch_root False (lit ''/srv/x'') = Inr (lit ''/srv/x'')"
proof -
  have "parse_launch_root True (lit '' d:/Games//x/'') = Inr (lit ''D:/Games/x'')" "js_trim (lit ''D:/Games/x'') = lit ''D:/Games/x''"
    by code_simp+
  from stored_root_reads_back [OF this]
  have 1: "parse_launch_root True (lit ''D:/Games/x'') = Inr (lit ''D:/Games/x'')" .
  have "parse_launch_root False (lit ''//srv/x/ '') = Inr (lit ''/srv/x'')" "js_trim (lit ''/srv/x'') = lit ''/srv/x''"
    by code_simp+
  from stored_root_reads_back [OF this] 1 show ?thesis by simp
qed

subsection \<open>The hint and the check\<close>

lemma u_lower_SL: "SL \<notin> set s \<Longrightarrow> SL \<notin> set (u_lower s)"
  by (auto simp: u_lower_def)

lemma u_split_lower: "u_split SL (u_lower s) = map u_lower (u_split SL s)"
proof (induction s)
  case (Cons c cs)
  have "u_split SL cs \<noteq> []" by simp
  with Cons show ?case by (cases "u_split SL cs") (auto simp: u_lower_def)
qed (simp add: u_lower_def)

lemma u_lower_dot: "u_lower s = DOT \<longleftrightarrow> s = DOT" "u_lower s = DOTS \<longleftrightarrow> s = DOTS"
  by (cases s; cases "tl s"; auto simp: u_lower_def split: if_splits)+

lemma dotted_lower: "dotted (u_lower s) = dotted s"
proof -
  have "(x \<in> set (map u_lower ls)) = (x \<in> set ls)" if x: "x = DOT \<or> x = DOTS" for x and ls :: "ustr list"
  proof -
    have "u_lower l = x \<longleftrightarrow> l = x" for l using x by (auto simp: u_lower_dot)
    then have "(\<exists>l \<in> set ls. u_lower l = x) = (\<exists>l \<in> set ls. l = x)" by simp
    then show ?thesis by auto
  qed
  then show ?thesis by (simp add: dotted_def u_split_lower)
qed

lemma hint_root_normal:
  assumes "add_hint w f = Command root" and "js_trim f = f" and "single_slashed (slashed f)"
  shows "normalise_root w f = normalise_root w root \<and> normalise_root w root \<noteq> [] \<and> \<not> dotted (normalise_root w root)"
proof -
  have parsed: "parse_launch_root w f = Inr root" and quotable: "\<not> w \<Longrightarrow> BS \<notin> set f"
    using assms(1) by (auto simp: add_hint_def split: sum.splits if_splits)
  show ?thesis
  proof (cases w)
    case True
    then have p: "parse_launch_root True f = Inr root" using parsed by simp
    from p obtain e rest where t: "slashed (js_trim f) = e # 58 # rest" "rest = [] \<or> hd rest = SL"
      "root = (let q = squeeze_slashes (upper_letter e # 58 # u_or rest [SL]) in if is_top True q then q else rstrip_char SL q)" by (rule parse_drive)
    from p obtain d z where z: "root = d # 58 # SL # z" "65 \<le> d" "d \<le> 90" "\<not> dotted root" "BS \<notin> set z"
      by (rule parse_windows) auto
    have f: "slashed f = e # 58 # rest" using t(1) assms(2) by simp
    have "single_slashed (upper_letter e # 58 # u_or rest [SL])"
      using assms(3) unfolding f by (auto simp: single_slashed_Cons u_or_def)
    then have q: "squeeze_slashes (upper_letter e # 58 # u_or rest [SL]) = upper_letter e # 58 # u_or rest [SL]" by (rule squeeze_id)
    have "rstrip_char SL root = rstrip_char SL ([upper_letter e] @ 58 # u_or rest [SL])" using t(3) q by (simp add: Let_def)
    also have "\<dots> = upper_letter e # 58 # rstrip_char SL rest"
      by (subst rstrip_past) (simp_all add: u_or_def rstrip_char_def)
    finally have rr: "rstrip_char SL root = upper_letter e # 58 # rstrip_char SL rest" .
    have ff: "rstrip_char SL (slashed f) = e # 58 # rstrip_char SL rest" using rstrip_past [of 58 SL "[e]" rest] f by simp
    have "slashed root = root" using z by (intro slashed_id) auto
    then have n: "normalise_root True root = u_lower (rstrip_char SL root)" using rr by (simp add: normalise_root_def u_or_def)
    have "normalise_root True f = u_lower (rstrip_char SL root)"
      using ff rr by (simp add: normalise_root_def u_or_def) (auto simp: u_lower_def upper_letter_def)
    then show ?thesis using True n rr dotted_rstrip [OF z(4)] by (simp add: dotted_lower) (simp add: u_lower_def)
  next
    case False
    with parsed have r: "root = [SL] \<or> (prefix [SL] root \<and> root \<noteq> [SL] \<and> last root \<noteq> SL)" "\<not> dotted root"
      using parse_posix by auto
    have "slashed f = f" using quotable [OF False] by (rule slashed_id)
    moreover from this have "squeeze_slashes f = f" using assms(3) squeeze_id by simp
    ultimately have f: "slashed f = f" "prefix [SL] f" "root = (if f = [SL] then f else rstrip_char SL f)"
      using parsed False assms(2) by (auto simp: parse_launch_root_def is_top_def Let_def split: if_splits)
    have "BS \<notin> set root" using quotable [OF False] f(3) rstrip_set [of SL f] by (auto split: if_splits)
    then have "normalise_root False root = root"
      using r(1) rstrip_char_id [of root SL] rstrip_replicate [of SL 1] by (auto simp: normalise_root_def slashed_id u_or_def)
    moreover have "normalise_root False f = root"
      using f r(1) rstrip_replicate [of SL 1] by (auto simp: normalise_root_def u_or_def split: if_splits)
    ultimately show ?thesis using False r by auto
  qed
qed

text \<open>A folder is inside the root its hint names: when \<open>add_hint\<close> offers a command for a folder written without blanks
  around it and without doubled separators, a host that has added that root starts work in the folder.\<close>

theorem hinted_root_admits_folder:
  assumes "add_hint w f = Command root" and "js_trim f = f" and "single_slashed (slashed f)" and "root \<in> set roots"
  shows "workspace_within_roots w f roots"
  using hint_root_normal [OF assms(1-3)] assms(4) unfolding workspace_within_roots_def Let_def by metis

theorem hinted_root_admits_folder_witness:
  "workspace_within_roots True (lit ''d:/Games/x/'') [lit ''E:/'', lit ''D:/Games/x'']"
proof -
  have "add_hint True (lit ''d:/Games/x/'') = Command (lit ''D:/Games/x'')" "js_trim (lit ''d:/Games/x/'') = lit ''d:/Games/x/''"
    "single_slashed (slashed (lit ''d:/Games/x/''))" by code_simp+
  from hinted_root_admits_folder [OF this] show ?thesis by simp
qed

text \<open>The other spellings: for a folder with a doubled slash the hint names the root with one, and a host that has added
  that root still counts the folder, as it is spelled, as outside.\<close>

theorem hinted_root_misses_doubled_slash:
  "add_hint False (lit ''/srv//x'') = Command (lit ''/srv/x'')
   \<and> \<not> workspace_within_roots False (lit ''/srv//x'') [lit ''/srv/x'']"
  by code_simp

end
