(* ===== verification/BrowserOrigin.thy ===== *)
theory BrowserOrigin
  imports UText "HOL-Library.Monad_Syntax"
begin

text \<open>
  Whether a request that may come from a browser page is served: \<open>service/api_core/browser_origin.py\<close>, the one decision the HTTP
  middleware and the WebSocket ask.

  Two readers are parameters: \<open>urlsplit(text).hostname\<close> (the empty text when there is no host, \<open>None\<close> when it
  raises) and \<open>ipaddress.ip_address\<close>. An error they raise is the result \<open>None\<close> here: the request fails. The theorems hold for
  whatever they answer. The refusal texts and the cleaning of an API key from a URL are not modelled.
\<close>

declare split_paired_All [simp del] split_paired_Ex [simp del]

type_synonym url_reader = "ustr \<Rightarrow> ustr option"

definition DEFAULT_TRUSTED_HOSTS :: "ustr list" where
  "DEFAULT_TRUSTED_HOSTS = [lit ''127.0.0.1'', lit ''::1'', lit ''localhost'', lit ''host.docker.internal'']"

definition NAVIGABLE_PATHS :: "ustr list" where
  "NAVIGABLE_PATHS = [lit ''/api/v1/dashboard'', lit ''/health'', lit ''/ready'', lit ''/version'', lit ''/docs'', lit ''/redoc'',
     lit ''/openapi.json'', lit ''/favicon'']"

definition SAFE_METHODS :: "ustr list" where
  "SAFE_METHODS = [lit ''GET'', lit ''HEAD'', lit ''OPTIONS'']"

text \<open>\<open>rstrip("/")\<close>, and \<open>upper()\<close> for the letters a method has.\<close>

definition rstrip_slashes :: "ustr \<Rightarrow> ustr" where
  "rstrip_slashes s = rev (dropWhile (\<lambda>c. c = 47) (rev s))"

definition u_upper :: "ustr \<Rightarrow> ustr" where
  "u_upper = map (\<lambda>c. if 97 \<le> c \<and> c \<le> 122 then c - 32 else c)"

definition hostname_of :: "url_reader \<Rightarrow> ustr \<Rightarrow> ustr option" where
  "hostname_of url value =
     (let text = u_strip value in
      if text = [] then Some []
      else map_option u_lower (url (if sublist (lit ''//'') text then text else lit ''//'' @ text)))"

definition host_is_an_ip_literal :: "url_reader \<Rightarrow> (ustr \<Rightarrow> bool) \<Rightarrow> ustr \<Rightarrow> bool option" where
  "host_is_an_ip_literal url ip host = map_option (\<lambda>name. name \<noteq> [] \<and> ip name) (hostname_of url host)"

text \<open>\<open>value.split(",")\<close>.\<close>

primrec split_commas :: "ustr \<Rightarrow> ustr list" where
  "split_commas [] = [[]]"
| "split_commas (c # cs) = (if c = 44 then [] # split_commas cs else (c # hd (split_commas cs)) # tl (split_commas cs))"

fun add_hosts :: "url_reader \<Rightarrow> ustr list \<Rightarrow> ustr list \<Rightarrow> ustr list option" where
  "add_hosts url names [] = Some names"
| "add_hosts url names (entry # es) = do {
     name \<leftarrow> hostname_of url (u_strip entry);
     add_hosts url (if name \<noteq> [] \<and> name \<notin> set names then names @ [name] else names) es }"

definition hosts_from_https_sites :: "url_reader \<Rightarrow> ustr \<Rightarrow> ustr list option" where
  "hosts_from_https_sites url value = add_hosts url [] (split_commas value)"

fun add_sites :: "ustr list \<Rightarrow> ustr list \<Rightarrow> ustr list \<Rightarrow> ustr list" where
  "add_sites lowered acc [] = acc"
| "add_sites lowered acc (name # ns) =
     (if u_lower name \<notin> set lowered then add_sites (u_lower name # lowered) (acc @ [name]) ns else add_sites lowered acc ns)"

definition effective_trusted_hosts :: "url_reader \<Rightarrow> ustr list \<Rightarrow> ustr \<Rightarrow> ustr list option" where
  "effective_trusted_hosts url trusted_hosts https_sites =
     (let named = filter (\<lambda>x. x \<noteq> []) (map u_strip trusted_hosts) in
      map_option (add_sites (map u_lower named) named) (hosts_from_https_sites url https_sites))"

definition named_hosts :: "ustr list \<Rightarrow> ustr list" where
  "named_hosts trusted_hosts = map (\<lambda>x. u_lower (u_strip x)) (filter (\<lambda>x. u_strip x \<noteq> []) trusted_hosts)"

definition host_is_trusted :: "url_reader \<Rightarrow> (ustr \<Rightarrow> bool) \<Rightarrow> ustr list \<Rightarrow> ustr \<Rightarrow> bool option" where
  "host_is_trusted url ip trusted_hosts host = do {
     name \<leftarrow> hostname_of url host;
     if name = [] then Some False
     else do {
       literal \<leftarrow> host_is_an_ip_literal url ip host;
       Some (literal \<or> name \<in> set (named_hosts trusted_hosts) \<or> name \<in> set DEFAULT_TRUSTED_HOSTS) } }"

definition path_is_navigable :: "ustr \<Rightarrow> bool" where
  "path_is_navigable path =
     (let text = u_strip path in
      text = [] \<or> text = lit ''/'' \<or> (\<exists>p \<in> set NAVIGABLE_PATHS. text = p \<or> prefix (rstrip_slashes p @ lit ''/'') text))"

definition named_origins :: "ustr list \<Rightarrow> ustr list" where
  "named_origins allowed = map (\<lambda>x. u_lower (rstrip_slashes (u_strip x))) (filter (\<lambda>x. u_strip x \<noteq> [] \<and> u_strip x \<noteq> lit ''*'') allowed)"

definition is_browser_navigation :: "ustr \<Rightarrow> ustr \<Rightarrow> bool" where
  "is_browser_navigation dest method = (u_lower (u_strip dest) = lit ''document'' \<and> u_upper (u_strip (u_or method (lit ''GET''))) \<in> set SAFE_METHODS)"

record browser_request =
  q_method :: ustr
  q_path :: ustr
  q_site :: ustr
  q_dest :: ustr
  q_origin :: ustr
  q_host :: ustr

record origin_policy =
  o_allowed :: "ustr list"
  o_trusted :: "ustr list"

definition browser_request_is_allowed :: "url_reader \<Rightarrow> (ustr \<Rightarrow> bool) \<Rightarrow> origin_policy \<Rightarrow> browser_request \<Rightarrow> bool option" where
  "browser_request_is_allowed url ip pol q =
     (let origin = rstrip_slashes (u_strip (q_origin q)); site = u_lower (u_strip (q_site q));
          named = (u_lower origin \<in> set (named_origins (o_allowed pol))) in
      do {
        trusted \<leftarrow> (if named then Some True else host_is_trusted url ip (o_trusted pol) (q_host q));
        if \<not> trusted then Some False
        else if origin \<noteq> []
        then (if named then Some True
              else do {
                again \<leftarrow> host_is_trusted url ip (o_trusted pol) (q_host q);
                if \<not> again then Some False
                else do {
                  origin_host \<leftarrow> hostname_of url origin;
                  if origin_host = [] then Some False else map_option (\<lambda>h. origin_host = h) (hostname_of url (q_host q)) } })
        else if site = lit ''cross-site'' then Some False
        else if site = lit ''same-site'' then Some (is_browser_navigation (q_dest q) (q_method q) \<and> path_is_navigable (q_path q))
        else Some True })"

subsection \<open>What an allowed request has shown\<close>

definition operator_named :: "origin_policy \<Rightarrow> browser_request \<Rightarrow> bool" where
  "operator_named pol q = (rstrip_slashes (u_strip (q_origin q)) \<noteq> []
     \<and> list_ex (\<lambda>x. u_strip x \<noteq> lit ''*'' \<and> u_lower (rstrip_slashes (u_strip x)) = u_lower (rstrip_slashes (u_strip (q_origin q)))) (o_allowed pol))"

text \<open>No entry of the allowed origins consists of slashes only: blank ones are skipped, but a lone slash would be read as the empty origin.\<close>

definition no_slash_origin :: "origin_policy \<Rightarrow> bool" where
  "no_slash_origin pol = list_all (\<lambda>x. u_strip x \<noteq> [] \<longrightarrow> rstrip_slashes (u_strip x) \<noteq> []) (o_allowed pol)"

lemma lower_empty: "u_lower x = [] \<longleftrightarrow> x = []"
  by (simp add: u_lower_def)

lemma named_is_operator_named:
  assumes "no_slash_origin pol" and "u_lower (rstrip_slashes (u_strip (q_origin q))) \<in> set (named_origins (o_allowed pol))"
  shows "operator_named pol q"
proof -
  from assms(2) obtain x where x: "x \<in> set (o_allowed pol)" "u_strip x \<noteq> []" "u_strip x \<noteq> lit ''*''"
    "u_lower (rstrip_slashes (u_strip (q_origin q))) = u_lower (rstrip_slashes (u_strip x))" by (auto simp: named_origins_def)
  then have "rstrip_slashes (u_strip x) \<noteq> []" using assms(1) by (auto simp: no_slash_origin_def list_all_iff)
  then have "rstrip_slashes (u_strip (q_origin q)) \<noteq> []" using arg_cong [OF x(4), of "\<lambda>y. y = []"] by (simp add: lower_empty)
  moreover have "\<exists>x \<in> set (o_allowed pol). u_strip x \<noteq> lit ''*'' \<and> u_lower (rstrip_slashes (u_strip x)) = u_lower (rstrip_slashes (u_strip (q_origin q)))"
    by (rule bexI [OF _ x(1)]) (intro conjI x(3) x(4) [symmetric])
  ultimately show ?thesis unfolding operator_named_def list_ex_iff by (rule conjI)
qed

lemma trusted_name:
  "host_is_trusted url ip ths host = Some True \<longleftrightarrow>
   (\<exists>name. hostname_of url host = Some name \<and> name \<noteq> [] \<and> (ip name \<or> name \<in> set (named_hosts ths) \<or> name \<in> set DEFAULT_TRUSTED_HOSTS))"
  by (auto simp: host_is_trusted_def host_is_an_ip_literal_def bind_eq_Some_conv)

lemma allowed_cases:
  assumes "browser_request_is_allowed url ip pol q = Some True" and "no_slash_origin pol"
  shows "operator_named pol q \<or> host_is_trusted url ip (o_trusted pol) (q_host q) = Some True"
    and "rstrip_slashes (u_strip (q_origin q)) \<noteq> [] \<Longrightarrow> \<not> operator_named pol q \<Longrightarrow>
      \<exists>h. h \<noteq> [] \<and> hostname_of url (rstrip_slashes (u_strip (q_origin q))) = Some h \<and> hostname_of url (q_host q) = Some h"
    and "rstrip_slashes (u_strip (q_origin q)) = [] \<Longrightarrow> u_lower (u_strip (q_site q)) \<noteq> lit ''cross-site''
      \<and> (u_lower (u_strip (q_site q)) = lit ''same-site'' \<longrightarrow> is_browser_navigation (q_dest q) (q_method q) \<and> path_is_navigable (q_path q))"
  using assms(1) named_is_operator_named [OF assms(2), of q] by (auto simp: browser_request_is_allowed_def Let_def bind_eq_Some_conv split: if_splits)

text \<open>C31. A rebound name gets nothing. As long as no allowed origin consists of slashes only, blank entries being harmless, a request is served only when it carries an origin the operator
  listed, other than the star, or when the host it is addressed to is a literal
  address, one of the default names or a name the operator listed; in the second case, with an origin, the origin's host is that host too; without one, it is not from another
  site, and from a sibling site it is the navigation of a page by a safe method to a path that changes nothing. So a
  page whose name was made to resolve to the service is refused unless its own origin is listed.\<close>

theorem rebound_name_is_refused:
  assumes "browser_request_is_allowed url ip pol q = Some True" and "\<not> operator_named pol q" and "no_slash_origin pol"
  shows "\<exists>name. hostname_of url (q_host q) = Some name \<and> name \<noteq> []
    \<and> (ip name \<or> name \<in> set (named_hosts (o_trusted pol)) \<or> name \<in> set DEFAULT_TRUSTED_HOSTS)
    \<and> (rstrip_slashes (u_strip (q_origin q)) \<noteq> [] \<longrightarrow> hostname_of url (rstrip_slashes (u_strip (q_origin q))) = Some name)
    \<and> (rstrip_slashes (u_strip (q_origin q)) = [] \<longrightarrow> u_lower (u_strip (q_site q)) \<noteq> lit ''cross-site''
        \<and> (u_lower (u_strip (q_site q)) = lit ''same-site'' \<longrightarrow> is_browser_navigation (q_dest q) (q_method q) \<and> path_is_navigable (q_path q)))"
proof -
  have "host_is_trusted url ip (o_trusted pol) (q_host q) = Some True" using allowed_cases(1) [OF assms(1,3)] assms(2) by blast
  then obtain name where n: "hostname_of url (q_host q) = Some name" "name \<noteq> []" "ip name \<or> name \<in> set (named_hosts (o_trusted pol)) \<or> name \<in> set DEFAULT_TRUSTED_HOSTS"
    unfolding trusted_name by blast
  show ?thesis using allowed_cases(2,3) [OF assms(1,3)] assms(2) n by (intro exI [of _ name]) auto
qed

text \<open>A reader of plain names: what follows the slashes, up to a colon or a slash.\<close>

definition demo_url :: url_reader where
  "demo_url s = Some (takeWhile (\<lambda>c. c \<noteq> 58 \<and> c \<noteq> 47) (tl (tl (dropWhile (\<lambda>c. c \<noteq> 47) s))))"

definition demo_policy :: origin_policy where
  "demo_policy = \<lparr>o_allowed = [lit ''https://board.example'', lit '' '', lit ''*''], o_trusted = [lit ''Nas'']\<rparr>"

definition demo_page :: browser_request where
  "demo_page = \<lparr>q_method = lit ''POST'', q_path = lit ''/api/v1/agents'', q_site = lit ''same-origin'', q_dest = [], q_origin = lit ''http://nas:8801'', q_host = lit ''nas:8800''\<rparr>"

theorem rebound_name_is_refused_witness:
  "browser_request_is_allowed demo_url (\<lambda>_. False) demo_policy demo_page = Some True
   \<and> (\<exists>name. hostname_of demo_url (q_host demo_page) = Some name \<and> name \<in> set (named_hosts (o_trusted demo_policy)))
   \<and> browser_request_is_allowed demo_url (\<lambda>_. False) demo_policy (demo_page\<lparr>q_origin := lit ''http://evil'', q_host := lit ''evil''\<rparr>) = Some False"
proof -
  have a: "browser_request_is_allowed demo_url (\<lambda>_. False) demo_policy demo_page = Some True" "\<not> operator_named demo_policy demo_page" "no_slash_origin demo_policy"
    "hostname_of demo_url (q_host demo_page) = Some (lit ''nas'')" "lit ''nas'' \<notin> set DEFAULT_TRUSTED_HOSTS"
    "browser_request_is_allowed demo_url (\<lambda>_. False) demo_policy (demo_page\<lparr>q_origin := lit ''http://evil'', q_host := lit ''evil''\<rparr>) = Some False"
    by code_simp+
  from rebound_name_is_refused [OF a(1,2,3)] a show ?thesis by auto
qed

text \<open>A lone slash among the allowed origins opens the door. It is read as the empty origin, so a request without an origin counts as named
  by the operator and is served on any host.\<close>

theorem slash_origin_skips_host_check:
  "browser_request_is_allowed demo_url (\<lambda>_. False) (demo_policy\<lparr>o_allowed := [lit ''/'']\<rparr>)
      (demo_page\<lparr>q_method := lit ''GET'', q_path := lit ''/api/v1/messages/inbox/x'', q_origin := [], q_host := lit ''evil''\<rparr>) = Some True
   \<and> browser_request_is_allowed demo_url (\<lambda>_. False) (demo_policy\<lparr>o_allowed := []\<rparr>)
      (demo_page\<lparr>q_method := lit ''GET'', q_path := lit ''/api/v1/messages/inbox/x'', q_origin := [], q_host := lit ''evil''\<rparr>) = Some False"
  by code_simp

text \<open>A wildcard names nobody: adding a star to the allowed origins changes no decision.\<close>

theorem wildcard_origin_grants_nothing:
  "browser_request_is_allowed url ip (pol\<lparr>o_allowed := xs @ lit ''*'' # ys\<rparr>) q = browser_request_is_allowed url ip (pol\<lparr>o_allowed := xs @ ys\<rparr>) q"
proof -
  have "u_strip (lit ''*'') = lit ''*''" by code_simp
  then have "named_origins (xs @ lit ''*'' # ys) = named_origins (xs @ ys)" by (simp add: named_origins_def)
  then show ?thesis by (simp add: browser_request_is_allowed_def Let_def cong: if_cong)
qed

subsection \<open>One list for both doors\<close>

lemma u_space_lower: "u_space (if (65 \<le> c \<and> c \<le> 90) \<or> (192 \<le> c \<and> c \<le> 222 \<and> c \<noteq> 215) then c + 32 else c) = u_space c"
  by (auto simp: u_space_def)

lemma lower_lower [simp]: "u_lower (u_lower s) = u_lower s"
  by (auto simp: u_lower_def)

lemma dropWhile_lower: "dropWhile u_space (u_lower s) = u_lower (dropWhile u_space s)"
  unfolding u_lower_def dropWhile_map comp_def u_space_lower ..

lemma strip_lower: "u_strip (u_lower s) = u_lower (u_strip s)"
proof -
  have "rev (u_lower x) = u_lower (rev x)" for x by (simp add: u_lower_def rev_map)
  then show ?thesis by (simp add: u_strip_def u_rstrip_def u_lstrip_def dropWhile_lower)
qed

lemma add_sites_names:
  "set (lowered @ map u_lower acc) = set (map u_lower acc) \<Longrightarrow> set (map u_lower (add_sites lowered acc ns)) = set (map u_lower acc) \<union> set (map u_lower ns)"
proof (induction lowered acc ns rule: add_sites.induct)
  case (2 lowered acc name ns)
  then show ?case by (cases "u_lower name \<in> set lowered") auto
qed simp

lemma named_stripped: "set (named_hosts ths) = set (map u_lower (filter (\<lambda>x. x \<noteq> []) (map u_strip ths)))"
  by (auto simp: named_hosts_def)

lemma add_hosts_names: "add_hosts url acc es = Some hs \<Longrightarrow> n \<in> set hs \<Longrightarrow> n \<in> set acc \<or> (n \<noteq> [] \<and> (\<exists>x. hostname_of url x = Some n))"
proof (induction url acc es arbitrary: hs rule: add_hosts.induct)
  case (2 url names entry es)
  from 2(2) obtain name where n: "hostname_of url (u_strip entry) = Some name"
    "add_hosts url (if name \<noteq> [] \<and> name \<notin> set names then names @ [name] else names) es = Some hs" by (auto simp: bind_eq_Some_conv)
  from 2(1) [OF n(1,2) 2(3)] n(1) show ?case by (auto split: if_splits)
qed simp

lemma empties: "u_lower [] = []" "u_strip [] = []"
  by (simp_all add: u_lower_def u_strip_def u_lstrip_def u_rstrip_def)

lemma hostname_clean: "(\<And>s n. url s = Some n \<Longrightarrow> u_strip n = n) \<Longrightarrow> hostname_of url x = Some n \<Longrightarrow> u_lower n = n \<and> u_strip n = n"
  using empties by (auto simp: hostname_of_def Let_def strip_lower split: if_splits)

text \<open>Both doors trust the same names. A host is trusted under the list the two doors are given exactly when it is trusted under the
  operator's list or is a name the service is served as, as long as no host that is read has blanks around it.\<close>

theorem trusted_hosts_are_the_union:
  assumes "\<forall>s n. url s = Some n \<longrightarrow> u_strip n = n" and "hosts_from_https_sites url sites = Some hs"
    and "effective_trusted_hosts url ths sites = Some eff"
  shows "host_is_trusted url ip eff host = Some True \<longleftrightarrow>
    host_is_trusted url ip ths host = Some True \<or> (\<exists>name. hostname_of url host = Some name \<and> name \<in> set hs)"
proof -
  have clean: "u_lower n = n \<and> u_strip n = n \<and> n \<noteq> []" if "n \<in> set hs" for n
    using add_hosts_names [OF assms(2) [unfolded hosts_from_https_sites_def] that] hostname_clean [of url] assms(1) by auto
  let ?named = "filter (\<lambda>x. x \<noteq> []) (map u_strip ths)"
  have eff: "eff = add_sites (map u_lower ?named) ?named hs" using assms(2,3) by (simp add: effective_trusted_hosts_def Let_def)
  have "set eff \<subseteq> set ?named \<union> set hs" unfolding eff
  proof -
    have "set (add_sites l acc ns) \<subseteq> set acc \<union> set ns" for l acc ns by (induction l acc ns rule: add_sites.induct) auto
    then show "set (add_sites (map u_lower ?named) ?named hs) \<subseteq> set ?named \<union> set hs" .
  qed
  then have stripped: "u_strip x = x \<and> x \<noteq> []" if "x \<in> set eff" for x using that clean by auto
  then have "filter (\<lambda>x. x \<noteq> []) (map u_strip eff) = eff" by (simp add: map_idI filter_id_conv cong: map_cong)
  then have "set (named_hosts eff) = set (map u_lower eff)" by (simp add: named_stripped)
  also have "\<dots> = set (map u_lower ?named) \<union> set (map u_lower hs)" unfolding eff by (rule add_sites_names) simp
  also have "\<dots> = set (named_hosts ths) \<union> set hs" using clean by (simp add: named_stripped map_idI cong: map_cong)
  finally have "set (named_hosts eff) = set (named_hosts ths) \<union> set hs" .
  then show ?thesis unfolding trusted_name using clean by blast
qed

theorem trusted_hosts_are_the_union_witness:
  "\<exists>eff. effective_trusted_hosts (\<lambda>s. Some (u_strip (the (demo_url s)))) [lit ''Nas''] (lit ''box:8443, nas:8443'') = Some eff
     \<and> eff = [lit ''Nas'', lit ''box'']
     \<and> host_is_trusted (\<lambda>s. Some (u_strip (the (demo_url s)))) (\<lambda>_. False) eff (lit ''box'') = Some True"
proof -
  let ?url = "\<lambda>s. Some (u_strip (the (demo_url s)))"
  have h: "hosts_from_https_sites ?url (lit ''box:8443, nas:8443'') = Some [lit ''box'', lit ''nas'']"
    "effective_trusted_hosts ?url [lit ''Nas''] (lit ''box:8443, nas:8443'') = Some [lit ''Nas'', lit ''box'']"
    "hostname_of ?url (lit ''box'') = Some (lit ''box'')" by code_simp+
  have "\<forall>s n. ?url s = Some n \<longrightarrow> u_strip n = n" by auto
  from trusted_hosts_are_the_union [OF this h(1,2), of "\<lambda>_. False" "lit ''box''"] h show ?thesis by auto
qed

end
