(* ===== verification/SendNonce.thy ===== *)
theory SendNonce
  imports UText "HOL-Library.List_Lexorder" "HOL-Library.Product_Lexorder"
begin

text \<open>
  Sending once: what a reused \<open>clientNonce\<close> means (\<open>service/api_core/send_nonce.py\<close>) and how \<open>send_message\<close> of
  \<open>service/routers/dispatch_messages/messages.py\<close> stores the rows of a send, with the two unique indexes of
  \<open>service/db.py\<close> that decide a race.

  The check for an earlier send and the storing are two operations, since the check is only a fast path and other sends may
  come in between. SHA-256 over the canonical form is a parameter, and so are the recipients and the reply parent the request resolves
  to, whether a new destination is refused, the fresh id and the time. What a send starts besides its rows (runs,
  deliveries, notifications) is modelled elsewhere or not at all.
\<close>

declare split_paired_All [simp del] split_paired_Ex [simp del]

record message =
  g_id :: ustr
  g_from :: ustr
  g_to :: ustr
  g_type :: ustr
  g_subject :: ustr
  g_body :: ustr
  g_priority :: ustr
  g_reply_to :: ustr
  g_dispatch :: bool
  g_nonce :: ustr
  g_print :: ustr
  g_primary :: bool
  g_time :: int

record send_request =
  s_from :: ustr
  s_to :: ustr
  s_to_role :: ustr
  s_type :: ustr
  s_subject :: ustr
  s_body :: ustr
  s_priority :: ustr
  s_in_reply_to :: ustr
  s_trigger :: bool
  s_steer :: "bool option"
  s_queue_if_busy :: bool
  s_require_reply :: "bool option"
  s_origin :: ustr
  s_nonce :: ustr

subsection \<open>The identity of a send\<close>

type_synonym canonical =
  "(ustr \<times> ustr \<times> ustr \<times> ustr) \<times> (ustr \<times> ustr \<times> ustr) \<times> bool \<times> bool option \<times> bool \<times> bool option \<times> ustr"

definition canonical_form :: "send_request \<Rightarrow> canonical" where
  "canonical_form q = ((s_type q, s_subject q, s_body q, u_or (s_priority q) (lit ''normal'')), (s_in_reply_to q, s_to q, s_to_role q),
     s_trigger q, s_steer q, s_queue_if_busy q, s_require_reply q, s_origin q)"

definition send_fingerprint :: "(canonical \<Rightarrow> ustr) \<Rightarrow> send_request \<Rightarrow> ustr" where
  "send_fingerprint sha q = sha (canonical_form q)"

definition client_nonce :: "send_request \<Rightarrow> ustr" where
  "client_nonce q = u_strip (s_nonce q)"

subsection \<open>The earlier send of a nonce\<close>

text \<open>\<open>ORDER BY nonce_primary DESC, timestamp ASC, id ASC\<close>.\<close>

definition nonce_rows :: "ustr \<Rightarrow> ustr \<Rightarrow> message list \<Rightarrow> message list" where
  "nonce_rows sender nonce tab =
     sort_key (\<lambda>m. (if g_primary m then 0 else 1 :: int, g_time m, g_id m)) (filter (\<lambda>m. g_from m = sender \<and> g_nonce m = nonce) tab)"

definition logical_send_id :: "message \<Rightarrow> message list \<Rightarrow> ustr" where
  "logical_send_id m rows =
     (let suf = lit ''-'' @ g_to m in
      if length rows > 1 \<and> suffix suf (g_id m) then take (length (g_id m) - length suf) (g_id m) else g_id m)"

datatype prior = Unused | Prior ustr | Mismatch

definition legacy_mismatch :: "send_request \<Rightarrow> ustr \<Rightarrow> message \<Rightarrow> message list \<Rightarrow> bool" where
  "legacy_mismatch q in_reply_to m rows =
     (g_type m \<noteq> s_type q \<or> g_subject m \<noteq> s_subject q \<or> g_body m \<noteq> s_body q \<or> g_priority m \<noteq> u_or (s_priority q) (lit ''normal'')
      \<or> g_reply_to m \<noteq> in_reply_to
      \<or> (s_to q \<noteq> [] \<and> s_to q \<notin> g_to ` set rows)
      \<or> (\<exists>x \<in> set rows. g_to x \<noteq> lit ''dashboard'' \<and> g_dispatch x \<noteq> s_trigger q))"

definition prior_send_for_nonce :: "send_request \<Rightarrow> ustr \<Rightarrow> ustr \<Rightarrow> ustr \<Rightarrow> message list \<Rightarrow> prior" where
  "prior_send_for_nonce q nonce fingerprint in_reply_to tab =
     (case nonce_rows (s_from q) nonce tab of
        [] \<Rightarrow> Unused
      | m # ms \<Rightarrow>
          if g_print m \<noteq> [] then (if g_print m \<noteq> fingerprint then Mismatch else Prior (logical_send_id m (m # ms)))
          else if legacy_mismatch q in_reply_to m (m # ms) then Mismatch
          else Prior (logical_send_id m (m # ms)))"

subsection \<open>Storing a send\<close>

record resolved =
  v_recipients :: "ustr list"
  v_parent :: ustr
  v_refused :: bool
  v_id :: ustr
  v_time :: int

definition row_id :: "resolved \<Rightarrow> ustr \<Rightarrow> ustr" where
  "row_id v r = (if length (v_recipients v) > 1 then v_id v @ lit ''-'' @ r else v_id v)"

definition send_row :: "(canonical \<Rightarrow> ustr) \<Rightarrow> send_request \<Rightarrow> resolved \<Rightarrow> nat \<Rightarrow> ustr \<Rightarrow> message" where
  "send_row sha q v index r = \<lparr>g_id = row_id v r, g_from = s_from q, g_to = r, g_type = s_type q, g_subject = s_subject q, g_body = s_body q,
     g_priority = s_priority q, g_reply_to = v_parent v, g_dispatch = (s_trigger q \<and> r \<noteq> lit ''dashboard''), g_nonce = client_nonce q,
     g_print = (if client_nonce q = [] then [] else send_fingerprint sha q), g_primary = (client_nonce q \<noteq> [] \<and> index = 0), g_time = v_time v\<rparr>"

definition send_rows :: "(canonical \<Rightarrow> ustr) \<Rightarrow> send_request \<Rightarrow> resolved \<Rightarrow> message list" where
  "send_rows sha q v = map (\<lambda>(i, r). send_row sha q v i r) (enumerate 0 (v_recipients v))"

text \<open>The primary key and the two partial unique indexes.\<close>

definition clashes :: "message \<Rightarrow> message list \<Rightarrow> bool" where
  "clashes m tab = (\<exists>x \<in> set tab. g_id x = g_id m
     \<or> (g_nonce m \<noteq> [] \<and> g_nonce x = g_nonce m \<and> g_from x = g_from m \<and> (g_to x = g_to m \<or> (g_primary m \<and> g_primary x))))"

fun store_rows :: "message list \<Rightarrow> nat \<Rightarrow> message list \<Rightarrow> nat \<times> message list" where
  "store_rows [] n tab = (n, tab)"
| "store_rows (m # ms) n tab =
     (if clashes m tab then (if g_primary m then (n, tab) else store_rows ms n tab) else store_rows ms (Suc n) (tab @ [m]))"

datatype send_answer = Sent ustr | Replayed ustr | Nonce_Conflict | Outcome_Unknown | No_Recipients | Refused

definition as_answer :: "send_answer \<Rightarrow> prior \<Rightarrow> send_answer" where
  "as_answer none p = (case p of Prior i \<Rightarrow> Replayed i | Mismatch \<Rightarrow> Nonce_Conflict | Unused \<Rightarrow> none)"

text \<open>The second half of the handler, on the table as it is by then.\<close>

definition store_send :: "(canonical \<Rightarrow> ustr) \<Rightarrow> send_request \<Rightarrow> resolved \<Rightarrow> message list \<Rightarrow> send_answer \<times> message list" where
  "store_send sha q v tab =
     (if v_recipients v = [] then (No_Recipients, tab)
      else if v_refused v then (Refused, tab)
      else (let (n, tab') = store_rows (send_rows sha q v) 0 tab in
            if client_nonce q \<noteq> [] \<and> n = 0
            then (as_answer Outcome_Unknown (prior_send_for_nonce q (client_nonce q) (send_fingerprint sha q) (v_parent v) tab'), tab')
            else (Sent (v_id v), tab')))"

definition check_send :: "(canonical \<Rightarrow> ustr) \<Rightarrow> send_request \<Rightarrow> ustr \<Rightarrow> message list \<Rightarrow> prior" where
  "check_send sha q parent tab =
     (if client_nonce q = [] then Unused else prior_send_for_nonce q (client_nonce q) (send_fingerprint sha q) parent tab)"

definition send_message :: "(canonical \<Rightarrow> ustr) \<Rightarrow> send_request \<Rightarrow> resolved \<Rightarrow> message list \<Rightarrow> send_answer \<times> message list" where
  "send_message sha q v tab = (case check_send sha q (v_parent v) tab of
     Unused \<Rightarrow> store_send sha q v tab
   | p \<Rightarrow> (as_answer Outcome_Unknown p, tab))"

subsection \<open>Any sends, in any order\<close>

text \<open>A send stores when it comes to it, whatever an earlier check had found. Ids are fresh, and a send names a recipient once.\<close>

definition fresh_send :: "resolved \<Rightarrow> message list \<Rightarrow> bool" where
  "fresh_send v tab = (distinct (v_recipients v) \<and> (\<forall>r \<in> set (v_recipients v). row_id v r \<notin> g_id ` set tab))"

inductive store_step :: "(canonical \<Rightarrow> ustr) \<Rightarrow> message list \<Rightarrow> message list \<Rightarrow> bool" for sha where
  "fresh_send v tab \<Longrightarrow> store_step sha tab (snd (store_send sha q v tab))"

subsection \<open>The rows of a nonce\<close>

definition group_of :: "ustr \<Rightarrow> ustr \<Rightarrow> message list \<Rightarrow> message list" where
  "group_of sender nonce tab = filter (\<lambda>m. g_from m = sender \<and> g_nonce m = nonce) tab"

definition nonce_ok :: "(canonical \<Rightarrow> ustr) \<Rightarrow> message list \<Rightarrow> bool" where
  "nonce_ok sha tab = (\<forall>sender nonce. nonce \<noteq> [] \<longrightarrow> group_of sender nonce tab = []
     \<or> (\<exists>q v. group_of sender nonce tab = send_rows sha q v \<and> s_from q = sender \<and> client_nonce q = nonce \<and> v_recipients v \<noteq> []))"

lemma send_rows_Cons: "v_recipients v = r # rs \<Longrightarrow>
   send_rows sha q v = send_row sha q v 0 r # map (\<lambda>(i, r). send_row sha q v i r) (enumerate 1 rs)"
  by (simp add: send_rows_def)

lemma send_rows_nth: "i < length (v_recipients v) \<Longrightarrow> send_rows sha q v ! i = send_row sha q v i (v_recipients v ! i)"
  by (simp add: send_rows_def nth_enumerate_eq)

lemma send_rows_length [simp]: "length (send_rows sha q v) = length (v_recipients v)"
  by (simp add: send_rows_def)

lemma send_rows_set: "m \<in> set (send_rows sha q v) \<Longrightarrow> \<exists>i r. r \<in> set (v_recipients v) \<and> m = send_row sha q v i r"
  by (auto simp: in_set_conv_nth send_rows_nth) (metis nth_mem)

lemma send_row_simps [simp]: "g_from (send_row sha q v i r) = s_from q" "g_nonce (send_row sha q v i r) = client_nonce q"
  "g_id (send_row sha q v i r) = row_id v r" "g_to (send_row sha q v i r) = r" "g_time (send_row sha q v i r) = v_time v"
  "g_primary (send_row sha q v i r) \<longleftrightarrow> client_nonce q \<noteq> [] \<and> i = 0"
  by (simp_all add: send_row_def)

lemma group_append: "group_of a n (xs @ ys) = group_of a n xs @ group_of a n ys"
  by (simp add: group_of_def)

lemma group_send: "group_of a n (send_rows sha q v) = (if s_from q = a \<and> client_nonce q = n then send_rows sha q v else [])"
  by (auto simp: group_of_def filter_empty_conv filter_id_conv dest: send_rows_set)

text \<open>Rows that clash with nothing are all stored; the first row of a send that lost its nonce ends it.\<close>

lemma store_all:
  "\<forall>m \<in> set ms. \<not> clashes m tab \<Longrightarrow> sorted_wrt (\<lambda>a b. \<not> clashes b [a]) ms \<Longrightarrow> store_rows ms n tab = (n + length ms, tab @ ms)"
proof (induction ms arbitrary: n tab)
  case (Cons m ms)
  have "\<forall>x \<in> set ms. \<not> clashes x (tab @ [m])" using Cons.prems by (auto simp: clashes_def)
  with Cons show ?case by simp
qed simp

lemma row_id_inj: "row_id v r = row_id v r' \<Longrightarrow> length (v_recipients v) > 1 \<Longrightarrow> r = r'"
  by (simp add: row_id_def)

lemma send_rows_apart:
  assumes "distinct (v_recipients v)"
  shows "sorted_wrt (\<lambda>a b. \<not> clashes b [a]) (send_rows sha q v)"
  unfolding sorted_wrt_iff_nth_less
proof (intro allI impI)
  fix i j assume ij: "i < j" "j < length (send_rows sha q v)"
  then have "v_recipients v ! i \<noteq> v_recipients v ! j" using assms by (simp add: nth_eq_iff_index_eq)
  moreover have "length (v_recipients v) > 1" using ij by simp
  ultimately show "\<not> clashes (send_rows sha q v ! j) [send_rows sha q v ! i]"
    using ij row_id_inj by (auto simp: clashes_def send_rows_nth)
qed

lemma store_send_rows:
  assumes ok: "nonce_ok sha tab" and fresh: "fresh_send v tab" and go: "v_recipients v \<noteq> []"
  shows "store_rows (send_rows sha q v) 0 tab =
    (if client_nonce q \<noteq> [] \<and> group_of (s_from q) (client_nonce q) tab \<noteq> [] then (0, tab)
     else (length (v_recipients v), tab @ send_rows sha q v))"
proof (cases "client_nonce q \<noteq> [] \<and> group_of (s_from q) (client_nonce q) tab \<noteq> []")
  case True
  then obtain q' v' where g: "group_of (s_from q) (client_nonce q) tab = send_rows sha q' v'" "s_from q' = s_from q" "client_nonce q' = client_nonce q"
    "v_recipients v' \<noteq> []" using ok unfolding nonce_ok_def by blast
  obtain r' rs' where r': "v_recipients v' = r' # rs'" using g(4) by (cases "v_recipients v'") auto
  have "send_row sha q' v' 0 r' \<in> set (group_of (s_from q) (client_nonce q) tab)" using g(1) send_rows_Cons [OF r'] by simp
  then have x: "send_row sha q' v' 0 r' \<in> set tab" by (simp add: group_of_def)
  obtain r rs where r: "v_recipients v = r # rs" using go by (cases "v_recipients v") auto
  have "clashes (send_row sha q v 0 r) tab" unfolding clashes_def using x g(2,3) True by (intro bexI [of _ "send_row sha q' v' 0 r'"]) auto
  then show ?thesis using True send_rows_Cons [OF r, of sha q] by simp
next
  case False
  have "\<not> clashes m tab" if "m \<in> set (send_rows sha q v)" for m
  proof -
    from send_rows_set [OF that] obtain i r where m: "r \<in> set (v_recipients v)" "m = send_row sha q v i r" by blast
    have "\<forall>x \<in> set tab. g_id x \<noteq> row_id v r" using fresh m(1) unfolding fresh_send_def by (metis image_eqI)
    moreover have "x \<notin> set tab" if "client_nonce q \<noteq> []" "g_nonce x = client_nonce q" "g_from x = s_from q" for x
      using False that by (auto simp: group_of_def filter_empty_conv)
    ultimately show ?thesis using m(2) unfolding clashes_def by auto
  qed
  moreover have "sorted_wrt (\<lambda>a b. \<not> clashes b [a]) (send_rows sha q v)" using fresh by (intro send_rows_apart) (simp add: fresh_send_def)
  ultimately show ?thesis using store_all [of "send_rows sha q v" tab 0] False by auto
qed

lemma store_send_table:
  assumes "nonce_ok sha tab" and "fresh_send v tab"
  shows "snd (store_send sha q v tab) = tab \<or>
    (snd (store_send sha q v tab) = tab @ send_rows sha q v \<and> v_recipients v \<noteq> [] \<and> (client_nonce q = [] \<or> group_of (s_from q) (client_nonce q) tab = []))"
  using store_send_rows [OF assms, of q] by (auto simp: store_send_def Let_def split: prod.splits)

lemma store_step_ok: "nonce_ok sha tab \<Longrightarrow> store_step sha tab tab' \<Longrightarrow> nonce_ok sha tab'"
proof -
  assume ok: "nonce_ok sha tab" and "store_step sha tab tab'"
  then obtain q v where t: "tab' = snd (store_send sha q v tab)" "fresh_send v tab" by (auto elim: store_step.cases)
  from store_send_table [OF ok t(2), of q] ok show "nonce_ok sha tab'"
    unfolding t(1) by (elim disjE conjE) (auto simp: nonce_ok_def group_append group_send)
qed

interpretation sends: invariant_system "\<lambda>tab. tab = []" "store_step sha" "nonce_ok sha" for sha
proof
  show "nonce_ok sha tab" if "tab = []" for tab using that by (simp add: nonce_ok_def group_of_def)
  show "nonce_ok sha tab'" if "nonce_ok sha tab" and "store_step sha tab tab'" for tab tab' using that by (rule store_step_ok)
qed

text \<open>A nonce that was used keeps its rows.\<close>

lemma group_kept:
  assumes "(store_step sha)\<^sup>*\<^sup>* tab tab'" and "nonce_ok sha tab" and "nonce \<noteq> []" and "group_of sender nonce tab \<noteq> []"
  shows "group_of sender nonce tab' = group_of sender nonce tab"
  using assms(1)
proof (induction rule: rtranclp_induct)
  case (step y z)
  have ok: "nonce_ok sha y" using sends.inv_run [OF step.hyps(1) assms(2)] .
  from step.hyps(2) obtain q v where t: "z = snd (store_send sha q v y)" "fresh_send v y" by (auto elim: store_step.cases)
  from store_send_table [OF ok t(2), of q] show ?case
    unfolding t(1) using step.IH assms(3,4) by (elim disjE conjE) (auto simp: group_append group_send)
qed simp

subsection \<open>What a second use of the nonce reads\<close>

lemma sort_key_least: "\<forall>y \<in> set xs. k x \<le> k y \<Longrightarrow> sort_key k (x # xs) = x # sort_key k xs"
  by (cases "sort_key k xs") (auto dest!: arg_cong [of _ _ set])

lemma nonce_rows_group: "nonce_rows sender nonce tab =
    sort_key (\<lambda>m. (if g_primary m then 0 else 1 :: int, g_time m, g_id m)) (group_of sender nonce tab)"
  by (simp add: nonce_rows_def group_of_def)

lemma nonce_rows_of_send:
  assumes g: "group_of sender nonce tab = send_rows sha q v" and r: "v_recipients v = r # rs" and n: "client_nonce q \<noteq> []"
  shows "\<exists>ms. nonce_rows sender nonce tab = send_row sha q v 0 r # ms \<and> length ms = length rs"
proof -
  let ?k = "\<lambda>m. (if g_primary m then 0 else 1 :: int, g_time m, g_id m)"
  let ?ms = "map (\<lambda>(i, r). send_row sha q v i r) (enumerate 1 rs)"
  have "\<forall>y \<in> set ?ms. ?k (send_row sha q v 0 r) \<le> ?k y"
    using n by (auto simp: less_eq_prod_def in_set_enumerate_eq)
  then show ?thesis unfolding nonce_rows_group g send_rows_Cons [OF r] by (simp add: sort_key_least del: sort_key_simps)
qed

lemma logical_send_id_of_send:
  assumes "v_recipients v = r # rs" and "length ms = length rs"
  shows "logical_send_id (send_row sha q v 0 r) (send_row sha q v 0 r # ms) = v_id v"
  using assms by (auto simp: logical_send_id_def Let_def row_id_def lit_def suffix_def)

lemma prior_of_send:
  assumes g: "group_of (s_from p) (client_nonce p) tab = send_rows sha q v" and v: "v_recipients v \<noteq> []"
    and n: "client_nonce q \<noteq> []" and sha: "\<And>c. sha c \<noteq> []"
  shows "prior_send_for_nonce p (client_nonce p) (send_fingerprint sha p) parent tab =
    (if send_fingerprint sha p = send_fingerprint sha q then Prior (v_id v) else Mismatch)"
proof -
  obtain r rs where r: "v_recipients v = r # rs" using v by (cases "v_recipients v") auto
  obtain ms where ms: "nonce_rows (s_from p) (client_nonce p) tab = send_row sha q v 0 r # ms" "length ms = length rs"
    using nonce_rows_of_send [OF g r n] by blast
  have pr: "g_print (send_row sha q v 0 r) = send_fingerprint sha q" using n by (simp add: send_row_def)
  show ?thesis unfolding prior_send_for_nonce_def ms(1)
    using logical_send_id_of_send [OF r ms(2), of sha q] sha by (auto simp: pr send_fingerprint_def)
qed

subsection \<open>The properties\<close>

text \<open>A nonce names one send. However sends overlap, whichever recipients they resolve to and however often one is
  retried, the rows stored under a sender's nonce are either none or exactly the rows of one send, one per recipient: two
  sends never mix their rows under one nonce, and no send is stored twice.\<close>

theorem one_send_per_nonce:
  assumes "(store_step sha)\<^sup>*\<^sup>* [] tab" and "nonce \<noteq> []"
  shows "filter (\<lambda>m. g_from m = sender \<and> g_nonce m = nonce) tab = []
    \<or> (\<exists>q v. filter (\<lambda>m. g_from m = sender \<and> g_nonce m = nonce) tab = send_rows sha q v \<and> s_from q = sender \<and> client_nonce q = nonce)"
proof -
  have "nonce_ok sha tab" using sends.inv_run [OF assms(1)] by (simp add: nonce_ok_def group_of_def)
  then show ?thesis using assms(2) unfolding nonce_ok_def group_of_def by blast
qed

text \<open>C12. A retry is answered with the id of the first attempt. Once a send with a nonce has been answered with an id, and
  after any further sends, a request of the same sender under the same nonce stores nothing. If it has the same type, subject, body, priority (none is "normal"),
  reply target, recipient, role and delivery options, it gets that id back, the fan-out's own id and not a row's; if any of them
  differs it is refused as a conflict. The answer is the same when the request found the earlier send up front and when it raced it and lost the insert, even if
  its recipients resolve differently by then. Of SHA-256 it is assumed that digests are not empty and that the two requests do not collide.\<close>

theorem retry_answers_first_id:
  assumes run: "(store_step sha)\<^sup>*\<^sup>* [] tab0" and first: "fresh_send v tab0" "store_send sha q v tab0 = (Sent i, tab1)" "client_nonce q \<noteq> []"
    and later: "(store_step sha)\<^sup>*\<^sup>* tab1 tab2" and same: "s_from q' = s_from q" "client_nonce q' = client_nonce q"
    and sha: "\<And>c. sha c \<noteq> []" "sha (canonical_form q') = sha (canonical_form q) \<Longrightarrow> canonical_form q' = canonical_form q"
    and v': "v_recipients v' \<noteq> []" "\<not> v_refused v'" "fresh_send v' tab2"
  shows "send_message sha q' v' tab2 =
      (if s_type q' = s_type q \<and> s_subject q' = s_subject q \<and> s_body q' = s_body q
          \<and> (if s_priority q' = [] then lit ''normal'' else s_priority q') = (if s_priority q = [] then lit ''normal'' else s_priority q)
          \<and> s_in_reply_to q' = s_in_reply_to q \<and> s_to q' = s_to q \<and> s_to_role q' = s_to_role q \<and> s_trigger q' = s_trigger q \<and> s_steer q' = s_steer q
          \<and> s_queue_if_busy q' = s_queue_if_busy q \<and> s_require_reply q' = s_require_reply q \<and> s_origin q' = s_origin q
       then Replayed i else Nonce_Conflict, tab2)
    \<and> store_send sha q' v' tab2 = send_message sha q' v' tab2"
proof -
  have ok0: "nonce_ok sha tab0" using sends.inv_run [OF run] by (simp add: nonce_ok_def group_of_def)
  have v: "v_recipients v \<noteq> []" using first(2) by (auto simp: store_send_def)
  have t1: "i = v_id v \<and> tab1 = tab0 @ send_rows sha q v \<and> group_of (s_from q) (client_nonce q) tab0 = []"
    using first(2,3) v store_send_rows [OF ok0 first(1) v, of q]
    by (auto simp: store_send_def Let_def as_answer_def split: if_splits prior.splits)
  have st: "store_step sha tab0 tab1" using store_step.intros [OF first(1), of sha q] first(2) by simp
  have ok1: "nonce_ok sha tab1" using store_step_ok [OF ok0 st] .
  have ok2: "nonce_ok sha tab2" using sends.inv_run [OF later ok1] .
  have g1: "group_of (s_from q) (client_nonce q) tab1 = send_rows sha q v" using t1 by (simp add: group_append group_send)
  then have ne: "group_of (s_from q) (client_nonce q) tab1 \<noteq> []" using v by (metis length_0_conv send_rows_length)
  have g2: "group_of (s_from q) (client_nonce q) tab2 = send_rows sha q v" using group_kept [OF later ok1 first(3) ne] g1 by simp
  have pr: "prior_send_for_nonce q' (client_nonce q') (send_fingerprint sha q') (v_parent v') tab2 =
      (if send_fingerprint sha q' = send_fingerprint sha q then Prior i else Mismatch)"
    using prior_of_send [of q' tab2 sha q v "v_parent v'"] g2 v first(3) sha(1) same t1 by simp
  have "store_rows (send_rows sha q' v') 0 tab2 = (0, tab2)"
    using store_send_rows [OF ok2 v'(3,1), of q'] same first(3) ne g1 g2 by simp
  then have answer: "send_message sha q' v' tab2 = (if send_fingerprint sha q' = send_fingerprint sha q then Replayed i else Nonce_Conflict, tab2)"
      "store_send sha q' v' tab2 = send_message sha q' v' tab2"
    using v' pr first(3) same by (simp_all add: send_message_def check_send_def store_send_def as_answer_def)
  have "send_fingerprint sha q' = send_fingerprint sha q \<longleftrightarrow> canonical_form q' = canonical_form q" using sha(2) by (auto simp: send_fingerprint_def)
  then show ?thesis using answer by (simp add: canonical_form_def u_or_def)
qed

definition fan_out :: send_request where
  "fan_out = \<lparr>s_from = lit ''a'', s_to = [], s_to_role = lit ''dev'', s_type = lit ''info'', s_subject = lit ''s'', s_body = lit ''hello'',
     s_priority = [], s_in_reply_to = [], s_trigger = False, s_steer = None, s_queue_if_busy = False, s_require_reply = None, s_origin = [],
     s_nonce = lit '' n1''\<rparr>"

definition to_two :: resolved where
  "to_two = \<lparr>v_recipients = [lit ''b'', lit ''c''], v_parent = [], v_refused = False, v_id = lit ''m1'', v_time = 5\<rparr>"

definition to_one :: resolved where
  "to_one = \<lparr>v_recipients = [lit ''d''], v_parent = [], v_refused = False, v_id = lit ''m2'', v_time = 6\<rparr>"

definition body_digest :: "canonical \<Rightarrow> ustr" where
  "body_digest c = (case c of ((t, s, b, p), _) \<Rightarrow> 0 # b)"

lemmas example_defs = fan_out_def to_two_def to_one_def body_digest_def

lemma fan_out_nonce: "client_nonce fan_out = lit ''n1''"
  by (simp add: client_nonce_def fan_out_def lit_def u_strip_def) code_simp

lemma fan_out_stored: "store_send body_digest fan_out to_two [] = (Sent (lit ''m1''), send_rows body_digest fan_out to_two)"
  using store_send_rows [of body_digest "[]" to_two fan_out]
  by (simp add: nonce_ok_def group_of_def fresh_send_def store_send_def example_defs lit_def)

lemma fan_out_step: "store_step body_digest [] (send_rows body_digest fan_out to_two)"
  using store_step.intros [of to_two "[]" body_digest fan_out] fan_out_stored by (simp add: fresh_send_def example_defs lit_def)

lemma one_send_per_nonce_witness:
  "\<exists>q v. filter (\<lambda>m. g_from m = lit ''a'' \<and> g_nonce m = lit ''n1'') (send_rows body_digest fan_out to_two) = send_rows body_digest q v
     \<and> s_from q = lit ''a'' \<and> client_nonce q = lit ''n1''"
proof -
  have "filter (\<lambda>m. g_from m = lit ''a'' \<and> g_nonce m = lit ''n1'') (send_rows body_digest fan_out to_two) \<noteq> []"
    by (simp add: send_rows_def fan_out_nonce to_two_def) (simp add: fan_out_def)
  then show ?thesis
    using one_send_per_nonce [OF r_into_rtranclp [of "store_step body_digest", OF fan_out_step], of "lit ''n1''" "lit ''a''"] by (auto simp: lit_def)
qed

lemma retry_answers_first_id_witness:
  "send_message body_digest fan_out to_one (send_rows body_digest fan_out to_two) = (Replayed (lit ''m1''), send_rows body_digest fan_out to_two)
   \<and> send_message body_digest (fan_out\<lparr>s_body := lit ''bye''\<rparr>) to_one (send_rows body_digest fan_out to_two) = (Nonce_Conflict, send_rows body_digest fan_out to_two)"
proof
  have fresh: "fresh_send to_one (send_rows body_digest fan_out to_two)"
    by (simp add: fresh_send_def to_two_def to_one_def lit_def send_rows_def send_row_def row_id_def)
  note first = rtranclp.rtrancl_refl _ fan_out_stored _ rtranclp.rtrancl_refl
  have two: "fresh_send to_two []" "client_nonce fan_out \<noteq> []" "\<And>c. body_digest c \<noteq> []" "v_recipients to_one \<noteq> []" "\<not> v_refused to_one"
    by (simp_all add: fresh_send_def fan_out_nonce to_one_def to_two_def body_digest_def lit_def split: prod.split)
  from retry_answers_first_id [OF first refl refl, OF two(1,2,3) _ two(4,5) fresh]
  show "send_message body_digest fan_out to_one (send_rows body_digest fan_out to_two) = (Replayed (lit ''m1''), send_rows body_digest fan_out to_two)" by simp
  let ?q = "fan_out\<lparr>s_body := lit ''bye''\<rparr>"
  have q: "s_from ?q = s_from fan_out" "client_nonce ?q = client_nonce fan_out" "body_digest (canonical_form ?q) \<noteq> body_digest (canonical_form fan_out)" "s_body ?q \<noteq> s_body fan_out"
    by (simp_all add: client_nonce_def canonical_form_def body_digest_def) (simp_all add: fan_out_def lit_def)
  have n: "body_digest (canonical_form ?q) = body_digest (canonical_form fan_out) \<Longrightarrow> canonical_form ?q = canonical_form fan_out" using q(3) by blast
  from retry_answers_first_id [OF first q(1,2), OF two(1,2,3) n two(4,5) fresh] q(4)
  show "send_message body_digest ?q to_one (send_rows body_digest fan_out to_two) = (Nonce_Conflict, send_rows body_digest fan_out to_two)" by simp
qed

end
