(* ===== verification/SpawnRequests.thy ===== *)
theory SpawnRequests
  imports Bridges TerminalStatus
begin

text \<open>
  Spawn requests: from queued to claimed, started, running or settled. The claim (\<open>service/api_core/spawn_requests_io.py\<close>), the
  claimer's report (\<open>service/routers/spawn_requests.py\<close>) with the settlement that makes a running spawn an agent with a
  session (\<open>api_core/running_spawn.py\<close>), the operator's stop (\<open>api_core/agent_sessions.py\<close>), what a dead terminal settles
  (\<open>routers/terminal_lifecycle.py\<close>, \<open>api_core/terminal_output_settlement.py\<close>) and the reconcilers
  (\<open>reconcilers/spawn_lifecycle.py\<close>, \<open>reconcilers/spawn_terminal_settlement.py\<close>); and the host proof both routes ask for
  (\<open>api_core/host_proof.py\<close>).

  A stamp that is \<open>NULL\<close> is the empty text. The spec of a request is there or not; whether an unsettled stop control names a
  terminal is a column of the terminal. Digests are a parameter. The launch of a console for a settled spawn, the
  rewriting of the brief's execution mode, the closing of a dead terminal's runs and the columns no modelled reader asks for are left out.
\<close>

declare split_paired_All [simp del] split_paired_Ex [simp del]

subsection \<open>Tables\<close>

record spawn_row =
  sp_id :: string
  sp_env :: string
  sp_agent :: string
  sp_runtime :: string
  sp_mode :: string
  sp_initial :: ustr
  sp_created_by :: ustr
  sp_subject :: ustr
  sp_priority :: ustr
  sp_status :: string
  sp_claimed_by :: string
  sp_claim_machine :: string
  sp_handle :: string
  sp_session :: string
  sp_error :: ustr
  sp_created_at :: ustr
  sp_updated_at :: ustr
  sp_claimed_at :: ustr
  sp_started_at :: ustr
  sp_finished_at :: ustr
  sp_has_spec :: bool

record session_row =
  se_id :: string
  se_agent :: string
  se_mode :: string
  se_status :: string
  se_owner_bridge :: string
  se_handle :: string
  se_spawn :: string
  se_terminal :: string
  se_terminal_status :: string
  se_started_at :: ustr
  se_last_seen :: ustr
  se_ended_at :: ustr

record terminal_row =
  tm_id :: string
  tm_session :: string
  tm_agent :: string
  tm_bridge :: string
  tm_status :: string
  tm_outgoing_stop :: bool
  tm_created_at :: ustr
  tm_updated_at :: ustr
  tm_stopped_at :: ustr

record spawned_agent =
  sa_status :: string
  sa_runtime :: string
  sa_machine :: string
  sa_handle :: string
  sa_managed_by :: ustr

record env_row = environment +
  nv_id :: string
  nv_machine :: string

record spawn_db =
  x_requests :: "spawn_row list"
  x_sessions :: "session_row list"
  x_terminals :: "terminal_row list"
  x_envs :: "env_row list"
  x_proofs :: "(string \<times> ustr) list"
  x_agents :: "(string \<times> spawned_agent) list"
  x_disp :: dstate
  x_next :: nat

definition request_of :: "string \<Rightarrow> spawn_db \<Rightarrow> spawn_row option" where
  "request_of i x = find (\<lambda>r. sp_id r = i) (x_requests x)"

text \<open>\<open>UPDATE spawn_requests SET ... WHERE ...\<close>.\<close>

definition update_requests :: "(spawn_row \<Rightarrow> bool) \<Rightarrow> (spawn_row \<Rightarrow> spawn_row) \<Rightarrow> spawn_db \<Rightarrow> spawn_db" where
  "update_requests P f x = x\<lparr>x_requests := map (\<lambda>r. if P r then f r else r) (x_requests x)\<rparr>"

definition update_sessions :: "(session_row \<Rightarrow> bool) \<Rightarrow> (session_row \<Rightarrow> session_row) \<Rightarrow> spawn_db \<Rightarrow> spawn_db" where
  "update_sessions P f x = x\<lparr>x_sessions := map (\<lambda>s. if P s then f s else s) (x_sessions x)\<rparr>"

definition is_settled :: "spawn_row \<Rightarrow> bool" where
  "is_settled r = (sp_status r = ''failed'' \<or> sp_status r = ''cancelled'')"

subsection \<open>The host proof\<close>

datatype host_proof_verdict = Refuses string | Accepts "string list"

fun fromkeys :: "string list \<Rightarrow> string list \<Rightarrow> string list" where
  "fromkeys seen [] = []"
| "fromkeys seen (m # ms) = (if m \<in> set seen then fromkeys seen ms else m # fromkeys (m # seen) ms)"

fun judge_machines :: "(ustr \<Rightarrow> ustr) \<Rightarrow> (string \<times> ustr) list \<Rightarrow> ustr \<Rightarrow> string list \<Rightarrow> string list \<Rightarrow> host_proof_verdict" where
  "judge_machines digest proofs presented [] unenrolled = Accepts unenrolled"
| "judge_machines digest proofs presented (m # ms) unenrolled =
     (if m = [] then judge_machines digest proofs presented ms unenrolled
      else (case map_of proofs m of
          None \<Rightarrow> judge_machines digest proofs presented ms (unenrolled @ [m])
        | Some recorded \<Rightarrow>
            if presented = [] \<or> recorded \<noteq> digest presented then Refuses m
            else judge_machines digest proofs presented ms unenrolled))"

definition judge_host_proof :: "(ustr \<Rightarrow> ustr) \<Rightarrow> (string \<times> ustr) list \<Rightarrow> string list \<Rightarrow> ustr \<Rightarrow> host_proof_verdict" where
  "judge_host_proof digest proofs machines presented =
     judge_machines digest proofs presented (fromkeys [] (map normalize_machine_id machines)) []"

definition enroll_host_proof :: "(ustr \<Rightarrow> ustr) \<Rightarrow> host_proof_verdict \<Rightarrow> ustr \<Rightarrow> (string \<times> ustr) list \<Rightarrow> (string \<times> ustr) list" where
  "enroll_host_proof digest verdict presented proofs = (case verdict of
     Accepts ms \<Rightarrow> if presented = [] then proofs else proofs @ map (\<lambda>m. (m, digest presented)) ms
   | Refuses _ \<Rightarrow> proofs)"

definition reset_host_proof :: "string \<Rightarrow> (string \<times> ustr) list \<Rightarrow> (string \<times> ustr) list" where
  "reset_host_proof machine proofs = filter (\<lambda>(m, _). m \<noteq> normalize_machine_id machine) proofs"

subsection \<open>The claim\<close>

record spawn_claim =
  cl_env :: string
  cl_bridge :: string
  cl_machine :: string
  cl_proof :: ustr

datatype claim_answer = Env_Not_Found | Claim_Unproven | Bridge_Not_Current string | Nothing_To_Spawn | Spawn spawn_row

definition claimed_spawn :: "denv \<Rightarrow> spawn_claim \<Rightarrow> spawn_row \<Rightarrow> spawn_row" where
  "claimed_spawn e q r = r\<lparr>sp_status := ''claimed'', sp_claimed_by := cl_bridge q, sp_claim_machine := cl_machine q,
     sp_claimed_at := e_now e, sp_updated_at := e_now e\<rparr>"

definition claim_spawn_request_once :: "(ustr \<Rightarrow> ustr) \<Rightarrow> denv \<Rightarrow> spawn_claim \<Rightarrow> spawn_db \<Rightarrow> claim_answer \<times> spawn_db" where
  "claim_spawn_request_once digest e q x =
     (case find (\<lambda>n. nv_id n = cl_env q) (x_envs x) of
        None \<Rightarrow> (Env_Not_Found, x)
      | Some n \<Rightarrow> (case judge_host_proof digest (x_proofs x) [nv_machine n] (u_strip (cl_proof q)) of
          Refuses _ \<Rightarrow> (Claim_Unproven, x)
        | Accepts _ \<Rightarrow>
            if py_strip (en_bridge n) \<noteq> [] \<and> py_strip (en_bridge n) \<noteq> py_strip (cl_bridge q) then (Bridge_Not_Current (py_strip (en_bridge n)), x)
            else (case sort_key sp_created_at (filter (\<lambda>r. sp_env r = cl_env q \<and> sp_status r = ''queued'') (x_requests x)) of
                [] \<Rightarrow> (Nothing_To_Spawn, x)
              | r # _ \<Rightarrow>
                  (let x1 = update_requests (\<lambda>y. sp_id y = sp_id r \<and> sp_status y = ''queued'') (claimed_spawn e q) x;
                       x2 = x1\<lparr>x_envs := map (\<lambda>n. if nv_id n = cl_env q then n\<lparr>en_last_seen := e_now e\<rparr> else n) (x_envs x1)\<rparr> in
                   (Spawn (claimed_spawn e q r), x2)))))"

subsection \<open>A running spawn\<close>

record spawn_update =
  su_status :: string
  su_bridge :: string
  su_handle :: string
  su_error :: ustr
  su_proof :: ustr
  su_brief :: ustr
  su_execution :: string

definition upsert_agent :: "spawn_row \<Rightarrow> string \<Rightarrow> (string \<times> spawned_agent) list \<Rightarrow> (string \<times> spawned_agent) list" where
  "upsert_agent r handle agents =
     (let a = \<lparr>sa_status = ''idle'', sa_runtime = sp_runtime r, sa_machine = sp_claim_machine r, sa_handle = handle,
                sa_managed_by = u_or (sp_created_by r) (lit ''dashboard'')\<rparr> in
      case map_of agents (sp_agent r) of
        None \<Rightarrow> agents @ [(sp_agent r, a)]
      | Some old \<Rightarrow> map (\<lambda>(i, b). if i = sp_agent r then (i, a\<lparr>sa_machine := or_else (sa_machine a) (sa_machine b)\<rparr>) else (i, b)) agents)"

definition spawned_bridge :: "denv \<Rightarrow> spawn_update \<Rightarrow> spawn_row \<Rightarrow> dstate \<Rightarrow> dstate" where
  "spawned_bridge e u r d = insert_bridge (or_else (su_bridge u) (sp_claimed_by r), sp_agent r)
     \<lparr>br_kind = [], br_terminal = [], br_superseded_by = [], br_last_seen = e_now e, br_machine = sp_claim_machine r, br_runtime = sp_runtime r,
      br_session_mode = ''managed'', br_session_handle = [], br_started_at = []\<rparr> d"

definition upsert_running_agent_session :: "denv \<Rightarrow> spawn_update \<Rightarrow> spawn_row \<Rightarrow> string \<Rightarrow> string \<Rightarrow> ustr \<Rightarrow> spawn_db \<Rightarrow> spawn_db" where
  "upsert_running_agent_session e u r sid handle started_at x =
     (let owner = or_else (su_bridge u) (sp_claimed_by r) in
      if find (\<lambda>s. se_id s = sid) (x_sessions x) = None
      then x\<lparr>x_sessions := x_sessions x @ [\<lparr>se_id = sid, se_agent = sp_agent r, se_mode = or_else (sp_mode r) ''managed-warm'', se_status = ''running'', se_owner_bridge = owner,
             se_handle = handle, se_spawn = sp_id r, se_terminal = [], se_terminal_status = [], se_started_at = u_or started_at (e_now e),
             se_last_seen = e_now e, se_ended_at = []\<rparr>]\<rparr>
      else update_sessions (\<lambda>s. se_id s = sid) (\<lambda>s. s\<lparr>se_mode := or_else (sp_mode r) ''managed-warm'', se_status := ''running'', se_owner_bridge := owner,
             se_handle := handle, se_last_seen := e_now e, se_ended_at := []\<rparr>) x)"

definition SESSION_OPEN :: "string list" where
  "SESSION_OPEN = [''starting'', ''running'', ''recovering'', ''restarting'']"

text \<open>\<open>LIKE 'vterm_%'\<close>: the underscore stands for any character.\<close>

definition is_vterm :: "string \<Rightarrow> bool" where
  "is_vterm i = (prefix ''vterm'' (py_lower i) \<and> length i > 5)"

text \<open>\<open>ORDER BY updated_at DESC, rowid DESC LIMIT 1\<close>: among the latest the one stored last.\<close>

definition migrated_terminal :: "denv \<Rightarrow> spawn_row \<Rightarrow> string \<Rightarrow> spawn_db \<Rightarrow> terminal_row option" where
  "migrated_terminal e r bridge x =
     (case rev (sort_key (\<lambda>t. e_epoch e (u_or (tm_updated_at t) (tm_created_at t)))
         (filter (\<lambda>t. tm_agent t = sp_agent r \<and> tm_bridge t = bridge \<and> \<not> is_vterm (tm_id t)
            \<and> tm_status t \<in> set TERMINAL_LIVE_FILTER_STATUSES \<and> \<not> tm_outgoing_stop t
            \<and> e_epoch e (tm_created_at t) \<ge> e_epoch e (sp_created_at r)) (x_terminals x))) of [] \<Rightarrow> None | t # _ \<Rightarrow> Some t)"

definition migrate_bridge_id_onto_live_terminal :: "denv \<Rightarrow> spawn_row \<Rightarrow> string \<Rightarrow> string \<Rightarrow> spawn_db \<Rightarrow> spawn_db" where
  "migrate_bridge_id_onto_live_terminal e r sid bridge x =
     (case migrated_terminal e r bridge x of
        None \<Rightarrow> x
      | Some t \<Rightarrow>
          if tm_session t = sid then x
          else update_sessions (\<lambda>s. se_id s = sid)
            (\<lambda>s. s\<lparr>se_terminal := tm_id t, se_terminal_status := tm_status t,
               se_status := (if se_status s \<in> set TERMINAL_END_STATUSES then ''running'' else se_status s),
               se_ended_at := (if se_status s \<in> set TERMINAL_END_STATUSES then [] else se_ended_at s)\<rparr>)
            (x\<lparr>x_terminals := map (\<lambda>y. if tm_id y = tm_id t then y\<lparr>tm_session := sid\<rparr> else y) (x_terminals x)\<rparr>))"

definition end_other_sessions :: "denv \<Rightarrow> string \<Rightarrow> string \<Rightarrow> spawn_db \<Rightarrow> spawn_db" where
  "end_other_sessions e a sid = update_sessions (\<lambda>s. se_agent s = a \<and> se_id s \<noteq> sid \<and> se_status s \<in> set SESSION_OPEN)
     (\<lambda>s. s\<lparr>se_status := ''ended'', se_ended_at := u_or (se_ended_at s) (e_now e),
        se_last_seen := u_or (u_or (se_ended_at s) (se_last_seen s)) (e_now e)\<rparr>)"

definition spawn_brief :: "spawn_update \<Rightarrow> spawn_row \<Rightarrow> send" where
  "spawn_brief u r = \<lparr>s_from = u_or (sp_created_by r) (lit ''dashboard''), s_type = lit ''request'',
     s_subject = u_or (sp_subject r) (lit ''Spawn '' @ lit (sp_agent r)), s_body = sp_initial r, s_priority = u_or (sp_priority r) (lit ''normal''),
     s_in_reply_to = [], s_mode = ''start_if_possible'', s_execution = su_execution u, s_runtime = sp_runtime r, s_message_id = su_brief u,
     s_sources = [], s_steer = False, s_queue_if_busy = False, s_require_reply = True, s_allow_merge = True, s_label = []\<rparr>"

definition hand_settled_spawn_to_dispatch :: "denv \<Rightarrow> spawn_update \<Rightarrow> spawn_row \<Rightarrow> dstate \<Rightarrow> dstate" where
  "hand_settled_spawn_to_dispatch e u r d =
     snd (create_dispatch_runs e (spawn_brief u r) [sp_agent r] (d\<lparr>d_messages := d_messages d @ [su_brief u]\<rparr>))"

definition settle_running_spawn :: "denv \<Rightarrow> spawn_update \<Rightarrow> spawn_row \<Rightarrow> ustr \<Rightarrow> string \<Rightarrow> spawn_db \<Rightarrow> string \<times> spawn_db" where
  "settle_running_spawn e u r started_at status x =
     (if status \<noteq> ''running'' then (sp_session r, x)
      else (let sid = or_else (sp_session r) (''sess_'' @ nat_str (x_next x));
                handle = or_else (su_handle u) (sp_handle r);
                bridge = or_else (su_bridge u) (sp_claimed_by r);
                x1 = x\<lparr>x_next := Suc (x_next x), x_agents := upsert_agent r handle (x_agents x), x_disp := spawned_bridge e u r (x_disp x)\<rparr>;
                x2 = upsert_running_agent_session e u r sid handle started_at x1;
                x3 = (if bridge = [] then x2 else migrate_bridge_id_onto_live_terminal e r sid bridge x2);
                x4 = end_other_sessions e (sp_agent r) sid x3;
                x5 = (if sp_status r \<noteq> ''running'' \<and> u_strip (sp_initial r) \<noteq> []
                      then x4\<lparr>x_disp := hand_settled_spawn_to_dispatch e u r (x_disp x4)\<rparr> else x4) in
            (sid, x5)))"

subsection \<open>The claimer's report\<close>

definition SPAWN_REQUEST_PATCHABLE_STATUSES :: "string list" where
  "SPAWN_REQUEST_PATCHABLE_STATUSES = [''claimed'', ''starting'', ''running'', ''failed'', ''cancelled'']"

datatype update_refusal = Bad_Status | No_Such_Request | Already_Settled | Claimed_By_Another | Update_Unproven | Spec_Missing

definition updated_spawn :: "denv \<Rightarrow> spawn_update \<Rightarrow> string \<Rightarrow> string \<Rightarrow> ustr \<Rightarrow> ustr \<Rightarrow> spawn_row \<Rightarrow> spawn_row" where
  "updated_spawn e u status sid started_at finished_at r = r\<lparr>sp_status := status, sp_handle := or_else (su_handle u) (sp_handle r), sp_session := sid,
     sp_error := su_error u, sp_updated_at := e_now e, sp_started_at := started_at, sp_finished_at := finished_at\<rparr>"

definition unproven_update :: "(ustr \<Rightarrow> ustr) \<Rightarrow> spawn_update \<Rightarrow> spawn_row \<Rightarrow> spawn_db \<Rightarrow> bool" where
  "unproven_update digest u r x = (case find (\<lambda>n. nv_id n = sp_env r) (x_envs x) of None \<Rightarrow> False
     | Some n \<Rightarrow> (case judge_host_proof digest (x_proofs x) [nv_machine n] (u_strip (su_proof u)) of Refuses _ \<Rightarrow> True | Accepts _ \<Rightarrow> False))"

definition report_started :: "denv \<Rightarrow> string \<Rightarrow> spawn_row \<Rightarrow> ustr" where
  "report_started e status r = (if status = ''starting'' \<and> sp_started_at r = [] then e_now e else sp_started_at r)"

definition report_finished :: "denv \<Rightarrow> string \<Rightarrow> spawn_row \<Rightarrow> ustr" where
  "report_finished e status r = (if status \<in> {''failed'', ''cancelled''} then e_now e else sp_finished_at r)"

definition update_spawn_request :: "(ustr \<Rightarrow> ustr) \<Rightarrow> denv \<Rightarrow> string \<Rightarrow> spawn_update \<Rightarrow> spawn_db \<Rightarrow> update_refusal + spawn_db" where
  "update_spawn_request digest e i u x =
     (let status = norm_word (su_status u) in
      if status \<notin> set SPAWN_REQUEST_PATCHABLE_STATUSES then Inl Bad_Status
      else (case request_of i x of
          None \<Rightarrow> Inl No_Such_Request
        | Some r \<Rightarrow>
            if norm_word (sp_status r) \<in> {''failed'', ''cancelled''} \<and> status \<noteq> norm_word (sp_status r) then Inl Already_Settled
            else if sp_claimed_by r \<noteq> [] \<and> sp_claimed_by r \<noteq> su_bridge u then Inl Claimed_By_Another
            else if unproven_update digest u r x then Inl Update_Unproven
            else if \<not> sp_has_spec r then Inl Spec_Missing
            else (case settle_running_spawn e u r (report_started e status r) status x of (sid, x1) \<Rightarrow>
                  Inr (update_requests (\<lambda>y. sp_id y = i \<and> \<not> is_settled y)
                    (updated_spawn e u status sid (report_started e status r) (report_finished e status r)) x1))))"

subsection \<open>Other writers\<close>

definition failed_spawn :: "denv \<Rightarrow> ustr \<Rightarrow> ustr \<Rightarrow> spawn_row \<Rightarrow> spawn_row" where
  "failed_spawn e why finished_at r = r\<lparr>sp_status := ''failed'', sp_error := u_or (sp_error r) why, sp_finished_at := u_or (sp_finished_at r) finished_at,
     sp_updated_at := e_now e\<rparr>"

definition SPAWN_PENDING :: "string list" where
  "SPAWN_PENDING = [''queued'', ''claimed'', ''starting'']"

text \<open>A stop or a takeover of the session.\<close>

definition cancel_pending_spawns :: "denv \<Rightarrow> string \<Rightarrow> ustr \<Rightarrow> spawn_db \<Rightarrow> spawn_db" where
  "cancel_pending_spawns e a why = update_requests (\<lambda>r. sp_agent r = a \<and> sp_status r \<in> set SPAWN_PENDING)
     (\<lambda>r. r\<lparr>sp_status := ''cancelled'', sp_error := why, sp_finished_at := e_now e, sp_updated_at := e_now e\<rparr>)"

definition reassign_spawns :: "denv \<Rightarrow> string \<Rightarrow> string \<Rightarrow> string \<Rightarrow> spawn_db \<Rightarrow> spawn_db" where
  "reassign_spawns e a env runtime = update_requests (\<lambda>r. sp_agent r = a \<and> sp_status r \<in> set SPAWN_PENDING)
     (\<lambda>r. r\<lparr>sp_env := env, sp_runtime := runtime, sp_updated_at := e_now e\<rparr>)"

text \<open>A terminal reported dead, and a terminal whose process ended.\<close>

definition fail_spawns_of_dead_terminal :: "denv \<Rightarrow> terminal_row \<Rightarrow> ustr \<Rightarrow> spawn_db \<Rightarrow> spawn_db" where
  "fail_spawns_of_dead_terminal e t why = update_requests (\<lambda>r. sp_agent r = tm_agent t \<and> sp_status r = ''running'' \<and> sp_finished_at r = []
       \<and> (sp_session r = [] \<or> sp_session r = tm_session t)) (failed_spawn e why (e_now e))"

definition fail_spawns_of_exited_terminal :: "denv \<Rightarrow> terminal_row \<Rightarrow> ustr \<Rightarrow> spawn_db \<Rightarrow> spawn_db" where
  "fail_spawns_of_exited_terminal e t why x =
     (if \<exists>s \<in> set (x_terminals x). tm_session s = tm_session t \<and> tm_id s \<noteq> tm_id t
         \<and> norm_word (tm_status s) \<notin> set TERMINAL_END_STATUSES \<and> norm_word (tm_status s) \<noteq> [] then x
      else update_requests (\<lambda>r. sp_session r = tm_session t \<and> sp_status r = ''running'')
        (\<lambda>r. (failed_spawn e why (e_now e) r)\<lparr>sp_error := why\<rparr>) x)"

subsection \<open>Reconcilers\<close>

definition SPAWN_ORPHAN_GRACE_SECONDS :: int where "SPAWN_ORPHAN_GRACE_SECONDS = 180"
definition SPAWN_DEAD_TERMINAL_GRACE_SECONDS :: int where "SPAWN_DEAD_TERMINAL_GRACE_SECONDS = 45"

definition wall_ceiling_seconds :: "int \<Rightarrow> int" where
  "wall_ceiling_seconds minutes = max 1 (if minutes = 0 then 30 else minutes) * 60"

text \<open>The stamp an age is counted from; 0 is a stamp that cannot be read.\<close>

definition claim_epoch :: "denv \<Rightarrow> spawn_row \<Rightarrow> int" where
  "claim_epoch e r = e_epoch e (u_or (sp_claimed_at r) (sp_created_at r))"

definition on_live_bridge :: "string set \<Rightarrow> spawn_row \<Rightarrow> bool" where
  "on_live_bridge live r = (py_strip (sp_claimed_by r) \<noteq> [] \<and> py_strip (sp_claimed_by r) \<in> live)"

definition abandoned :: "denv \<Rightarrow> string set \<Rightarrow> int \<Rightarrow> spawn_row \<Rightarrow> bool" where
  "abandoned e live minutes r =
     (sp_status r \<in> {''claimed'', ''starting'', ''running''} \<and> sp_finished_at r = [] \<and> claim_epoch e r \<noteq> 0
      \<and> \<not> (sp_status r \<noteq> ''claimed'' \<and> on_live_bridge live r \<and> e_clock e - claim_epoch e r < wall_ceiling_seconds minutes)
      \<and> \<not> e_clock e - claim_epoch e r < SPAWN_ORPHAN_GRACE_SECONDS)"

text \<open>The write compares the row with the one that was judged, and spares a running spawn whose session lives on a live bridge.\<close>

definition served_by_session :: "spawn_row \<Rightarrow> spawn_db \<Rightarrow> bool" where
  "served_by_session r x = (\<exists>s \<in> set (x_sessions x). se_id s = sp_session r \<and> se_status s \<in> {''starting'', ''running''})"

definition fail_orphan :: "denv \<Rightarrow> string set \<Rightarrow> ustr \<Rightarrow> spawn_row \<Rightarrow> spawn_db \<Rightarrow> spawn_db" where
  "fail_orphan e live why judged x = update_requests (\<lambda>r. sp_id r = sp_id judged \<and> sp_status r = sp_status judged
       \<and> sp_claimed_by r = py_strip (sp_claimed_by judged) \<and> sp_finished_at r = []
       \<and> \<not> (sp_status judged = ''running'' \<and> py_strip (sp_claimed_by judged) \<in> live \<and> served_by_session r x)) (failed_spawn e why (e_now e)) x"

definition fail_orphaned_running_spawn_requests :: "stamp_reader \<Rightarrow> denv \<Rightarrow> int \<Rightarrow> int \<Rightarrow> ustr \<Rightarrow> spawn_db \<Rightarrow> spawn_db" where
  "fail_orphaned_running_spawn_requests parse e offline_seconds minutes why x =
     (let live = live_environment_bridge_ids parse (e_clock e) offline_seconds (map environment.truncate (x_envs x)) in
      fold (fail_orphan e live why) (filter (abandoned e live minutes) (x_requests x)) x)"

definition ended_terminal :: "terminal_row \<Rightarrow> bool" where
  "ended_terminal t = (py_lower (tm_status t) \<in> set TERMINAL_END_STATUSES)"

definition select_spawns_with_dead_terminals :: "nat \<Rightarrow> spawn_db \<Rightarrow> (spawn_row \<times> terminal_row) list" where
  "select_spawns_with_dead_terminals limit x = take limit (sort_key (sp_created_at \<circ> fst)
     (concat (map (\<lambda>r. map (Pair r) (filter (\<lambda>t. tm_session t = sp_session r \<and> ended_terminal t) (x_terminals x)))
       (filter (\<lambda>r. sp_status r \<in> {''starting'', ''running''} \<and> sp_finished_at r = [] \<and> sp_session r \<noteq> []
          \<and> \<not> (\<exists>t \<in> set (x_terminals x). tm_session t = sp_session r \<and> \<not> ended_terminal t)) (x_requests x)))))"

definition dead_long_enough :: "denv \<Rightarrow> int \<Rightarrow> terminal_row \<Rightarrow> bool" where
  "dead_long_enough e grace t = (let died = e_epoch e (u_or (tm_stopped_at t) (tm_updated_at t)) in
     died \<noteq> 0 \<and> \<not> e_clock e - died < max 1 (if grace = 0 then SPAWN_DEAD_TERMINAL_GRACE_SECONDS else grace))"

definition finalize_spawns_with_dead_terminals :: "denv \<Rightarrow> int \<Rightarrow> nat \<Rightarrow> ustr \<Rightarrow> spawn_db \<Rightarrow> spawn_db" where
  "finalize_spawns_with_dead_terminals e grace limit why x =
     fold (\<lambda>(j, t). update_requests (\<lambda>r. sp_id r = sp_id j \<and> sp_status r \<in> {''starting'', ''running''} \<and> sp_finished_at r = []) (failed_spawn e why (e_now e)))
       (filter (dead_long_enough e grace \<circ> snd) (select_spawns_with_dead_terminals limit x)) x"

text \<open>The session that proves an older running spawn stale: it, its terminal and its own request are live.\<close>

definition current_backing :: "ustr \<Rightarrow> spawn_db \<Rightarrow> session_row \<Rightarrow> bool" where
  "current_backing cutoff x s =
     (se_mode s \<in> {''managed'', ''managed-warm''} \<and> se_status s \<in> {''starting'', ''running'', ''active'', ''idle'', ''recovering''} \<and> se_spawn s \<noteq> []
      \<and> (\<exists>t \<in> set (x_terminals x). tm_id t = se_terminal s \<and> tm_agent t = se_agent s \<and> tm_session t = se_id s
           \<and> tm_status t \<in> set TERMINAL_LIVE_FILTER_STATUSES \<and> tm_updated_at t \<ge> cutoff)
      \<and> (\<exists>r \<in> set (x_requests x). sp_id r = se_spawn s \<and> sp_agent r = se_agent s \<and> sp_status r = ''running'' \<and> sp_finished_at r = []))"

text \<open>\<open>ORDER BY started_at DESC\<close>, the first row per agent.\<close>

fun first_per_agent :: "string list \<Rightarrow> session_row list \<Rightarrow> session_row list" where
  "first_per_agent seen [] = []"
| "first_per_agent seen (s # ss) =
     (let a = py_strip (se_agent s) in
      if a = [] \<or> a \<in> set seen then first_per_agent seen ss else s # first_per_agent (a # seen) ss)"

definition fail_superseded :: "denv \<Rightarrow> ustr \<Rightarrow> ustr \<Rightarrow> session_row \<Rightarrow> spawn_row \<Rightarrow> spawn_db \<Rightarrow> spawn_db" where
  "fail_superseded e cutoff why s old x =
     (if \<exists>c \<in> set (x_sessions x). se_id c = se_id s \<and> se_agent c = py_strip (se_agent s) \<and> se_spawn c = py_strip (se_spawn s) \<and> current_backing cutoff x c
      then update_requests (\<lambda>r. sp_id r = sp_id old \<and> sp_status r = ''running'' \<and> sp_finished_at r = []) (failed_spawn e why (e_now e)) x
      else x)"

definition outlived :: "denv \<Rightarrow> session_row \<Rightarrow> spawn_row \<Rightarrow> bool" where
  "outlived e s r = (sp_agent r = py_strip (se_agent s) \<and> sp_status r = ''running'' \<and> sp_finished_at r = [] \<and> sp_id r \<noteq> py_strip (se_spawn s)
     \<and> claim_epoch e r \<noteq> 0 \<and> \<not> claim_epoch e r \<ge> e_epoch e (se_started_at s))"

definition fail_running_spawns_superseded_by_current_session :: "denv \<Rightarrow> ustr \<Rightarrow> ustr \<Rightarrow> spawn_db \<Rightarrow> spawn_db" where
  "fail_running_spawns_superseded_by_current_session e cutoff why x =
     fold (\<lambda>s x. if py_strip (se_spawn s) = [] \<or> e_epoch e (se_started_at s) = 0 then x
                 else fold (fail_superseded e cutoff why s) (filter (outlived e s) (x_requests x)) x)
       (first_per_agent [] (rev (sort_key se_started_at (rev (filter (current_backing cutoff x) (x_sessions x)))))) x"

text \<open>The run of a spawn's brief, by what it was made from.\<close>

definition brief_run :: "spawn_row \<Rightarrow> dstate \<Rightarrow> drun option" where
  "brief_run r d = first_by r_requested_at (filter (\<lambda>y. r_target y = sp_agent r
       \<and> r_requested_at y \<ge> u_or (u_or (sp_started_at r) (sp_updated_at r)) (sp_created_at r)
       \<and> r_from y = u_or (sp_created_by r) (lit ''dashboard'') \<and> r_subject y = u_or (sp_subject r) (lit ''Spawn '' @ lit (sp_agent r))
       \<and> r_body y = sp_initial r) (d_runs d))"

definition repair_spawn_request :: "denv \<Rightarrow> ustr \<Rightarrow> spawn_row \<Rightarrow> spawn_db \<Rightarrow> spawn_db" where
  "repair_spawn_request e why j x = (case brief_run j (x_disp x) of
     None \<Rightarrow> x
   | Some run \<Rightarrow>
       if py_lower (r_status run) \<notin> {''failed'', ''cancelled''} then x
       else (let at = (case r_finished_at run of Some t \<Rightarrow> u_or t (e_now e) | None \<Rightarrow> e_now e) in
             update_sessions (\<lambda>s. se_spawn s = sp_id j \<and> se_status s \<in> {''starting'', ''running''})
               (\<lambda>s. s\<lparr>se_status := ''failed'', se_ended_at := u_or (se_ended_at s) at, se_last_seen := e_now e\<rparr>)
               (update_requests (\<lambda>r. sp_id r = sp_id j \<and> sp_status r = ''running'') (\<lambda>r. (failed_spawn e why at r)\<lparr>sp_error := why\<rparr>) x)))"

definition repair_spawn_requests_from_initial_dispatch_failures :: "denv \<Rightarrow> ustr \<Rightarrow> spawn_db \<Rightarrow> spawn_db" where
  "repair_spawn_requests_from_initial_dispatch_failures e why x =
     fold (repair_spawn_request e why) (filter (\<lambda>r. sp_status r = ''running'' \<and> sp_initial r \<noteq> [] \<and> sp_error r = []) (x_requests x)) x"

subsection \<open>Every writer\<close>

text \<open>Any order of the operations, one write of a reconciler at a time: what it judged may have been read in an earlier state. Other parts of the
  service change the other tables as they like; session ids are not taken back.\<close>

definition fail_dead_spawn :: "denv \<Rightarrow> ustr \<Rightarrow> spawn_row \<Rightarrow> spawn_db \<Rightarrow> spawn_db" where
  "fail_dead_spawn e why j = update_requests (\<lambda>r. sp_id r = sp_id j \<and> sp_status r \<in> {''starting'', ''running''} \<and> sp_finished_at r = []) (failed_spawn e why (e_now e))"

inductive spawn_step :: "(ustr \<Rightarrow> ustr) \<Rightarrow> spawn_db \<Rightarrow> spawn_db \<Rightarrow> bool" for digest where
  create: "sp_id r \<notin> sp_id ` set (x_requests x) \<Longrightarrow> sp_status r = ''queued'' \<Longrightarrow> sp_session r = []
    \<Longrightarrow> spawn_step digest x (x\<lparr>x_requests := x_requests x @ [r]\<rparr>)"
| claim: "claim_spawn_request_once digest e q x = (ans, y) \<Longrightarrow> spawn_step digest x y"
| report: "update_spawn_request digest e i u x = Inr y \<Longrightarrow> spawn_step digest x y"
| stop: "spawn_step digest x (cancel_pending_spawns e a why x)"
| assign: "spawn_step digest x (reassign_spawns e a env runtime x)"
| dead: "spawn_step digest x (fail_spawns_of_dead_terminal e t why x)"
| exited: "spawn_step digest x (fail_spawns_of_exited_terminal e t why x)"
| orphan: "abandoned e live minutes judged \<Longrightarrow> spawn_step digest x (fail_orphan e live why judged x)"
| dead_terminal: "spawn_step digest x (fail_dead_spawn e why j x)"
| superseded: "spawn_step digest x (fail_superseded e cutoff why s old x)"
| brief: "spawn_step digest x (repair_spawn_request e why j x)"
| other: "x_requests y = x_requests x \<Longrightarrow> x_next x \<le> x_next y \<Longrightarrow> spawn_step digest x y"

text \<open>What all of them keep: the requests are those of before, each changed by a write that leaves settled rows alone,
  never queues a row again and keeps its id; a new session id is a fresh one.\<close>

definition row_moves :: "nat \<Rightarrow> spawn_row \<Rightarrow> spawn_row \<Rightarrow> bool" where
  "row_moves n r r' = (sp_id r' = sp_id r \<and> (is_settled r \<longrightarrow> r' = r) \<and> (sp_status r' = ''queued'' \<longrightarrow> sp_status r = ''queued'')
     \<and> (sp_session r' = sp_session r \<or> (sp_session r = [] \<and> sp_session r' = ''sess_'' @ nat_str n)))"

definition moves :: "spawn_db \<Rightarrow> spawn_db \<Rightarrow> bool" where
  "moves x y = (x_next x \<le> x_next y \<and> (\<exists>f k. x_requests y = map f (x_requests x)
     \<and> (\<forall>r \<in> set (x_requests x). row_moves (x_next x) r (f r) \<and> (sp_session (f r) \<noteq> sp_session r \<longrightarrow> sp_id r = k \<and> x_next x < x_next y))))"

lemma moves_update:
  assumes "\<And>r. P r \<Longrightarrow> row_moves n r (f r) \<and> sp_session (f r) = sp_session r"
  shows "moves x (update_requests P f x)"
  unfolding moves_def update_requests_def
  by (simp, intro exI [of _ "\<lambda>r. if P r then f r else r"]) (use assms in \<open>auto simp: row_moves_def\<close>)

lemma moves_refl: "moves x x"
  unfolding moves_def by (intro conjI exI [of _ id]) (auto simp: row_moves_def)

lemma moves_other: "moves x y \<Longrightarrow> x_requests z = x_requests y \<Longrightarrow> x_next z = x_next y \<Longrightarrow> moves x z"
  by (simp add: moves_def)

lemma updates_keep [simp]: "x_requests (update_sessions P f x) = x_requests x" "x_next (update_sessions P f x) = x_next x"
  "x_next (update_requests Q g x) = x_next x"
  by (simp_all add: update_sessions_def update_requests_def)

lemma settle_parts_keep [simp]:
  "x_requests (upsert_running_agent_session e u r sid h t x) = x_requests x" "x_next (upsert_running_agent_session e u r sid h t x) = x_next x"
  "x_requests (migrate_bridge_id_onto_live_terminal e r sid b x) = x_requests x" "x_next (migrate_bridge_id_onto_live_terminal e r sid b x) = x_next x"
  "x_requests (end_other_sessions e a sid x) = x_requests x" "x_next (end_other_sessions e a sid x) = x_next x"
  by (simp_all add: upsert_running_agent_session_def migrate_bridge_id_onto_live_terminal_def end_other_sessions_def Let_def split: option.split)

lemma settle_spawn_keeps:
  assumes "settle_running_spawn e u r started status x = (sid, y)"
  shows "x_requests y = x_requests x" and "x_next x \<le> x_next y"
    and "sid = sp_session r \<or> (sp_session r = [] \<and> sid = ''sess_'' @ nat_str (x_next x) \<and> x_next x < x_next y)"
  using assms by (auto simp: settle_running_spawn_def Let_def or_else_def split: if_split_asm)

lemma request_of_unique:
  assumes "distinct (map sp_id (x_requests x))" and "request_of i x = Some r" and "y \<in> set (x_requests x)" and "sp_id y = i"
  shows "y = r"
proof -
  have "r \<in> set (x_requests x)" "sp_id r = i" using assms(2) by (auto simp: request_of_def find_Some_iff)
  with assms show ?thesis by (auto simp: distinct_map dest: inj_onD)
qed

lemma report_cases:
  assumes "update_spawn_request digest e i u x = Inr y"
  obtains r sid x1 where "request_of i x = Some r" "norm_word (su_status u) \<in> set SPAWN_REQUEST_PATCHABLE_STATUSES"
    "\<not> (norm_word (sp_status r) \<in> {''failed'', ''cancelled''} \<and> norm_word (su_status u) \<noteq> norm_word (sp_status r))"
    "sp_claimed_by r = [] \<or> sp_claimed_by r = su_bridge u" "\<not> unproven_update digest u r x"
    "settle_running_spawn e u r (report_started e (norm_word (su_status u)) r) (norm_word (su_status u)) x = (sid, x1)"
    "y = update_requests (\<lambda>y. sp_id y = i \<and> \<not> is_settled y) (updated_spawn e u (norm_word (su_status u)) sid
       (report_started e (norm_word (su_status u)) r) (report_finished e (norm_word (su_status u)) r)) x1"
proof -
  obtain r where r: "request_of i x = Some r" using assms by (cases "request_of i x") (auto simp: update_spawn_request_def Let_def split: if_splits)
  obtain sid x1 where s: "settle_running_spawn e u r (report_started e (norm_word (su_status u)) r) (norm_word (su_status u)) x = (sid, x1)" by fastforce
  show thesis by (rule that [OF r _ _ _ _ s]) (use assms r s in \<open>simp_all add: update_spawn_request_def Let_def split: if_splits\<close>)
qed

lemma moves_report:
  assumes "update_spawn_request digest e i u x = Inr y" and "distinct (map sp_id (x_requests x))"
  shows "moves x y"
proof -
  obtain r sid x1 started finished where s: "request_of i x = Some r" "settle_running_spawn e u r started (norm_word (su_status u)) x = (sid, x1)"
    "norm_word (su_status u) \<in> set SPAWN_REQUEST_PATCHABLE_STATUSES"
    "y = update_requests (\<lambda>y. sp_id y = i \<and> \<not> is_settled y) (updated_spawn e u (norm_word (su_status u)) sid started finished) x1"
    using report_cases [OF assms(1)] by metis
  note k = settle_spawn_keeps [OF s(2)]
  let ?f = "\<lambda>y. if sp_id y = i \<and> \<not> is_settled y then updated_spawn e u (norm_word (su_status u)) sid started finished y else y"
  have all: "row_moves (x_next x) z (?f z) \<and> (sp_session (?f z) \<noteq> sp_session z \<longrightarrow> sp_id z = i \<and> x_next x < x_next x1)" if "z \<in> set (x_requests x)" for z
  proof (cases "sp_id z = i \<and> \<not> is_settled z")
    case True
    then have "z = r" using request_of_unique [OF assms(2) s(1) that] by simp
    moreover have "norm_word (su_status u) \<noteq> ''queued''" using s(3) by (auto simp: SPAWN_REQUEST_PATCHABLE_STATUSES_def)
    ultimately show ?thesis using True k(3) by (auto simp: row_moves_def updated_spawn_def)
  next
    case False
    then have "?f z = z" by auto
    then show ?thesis by (simp add: row_moves_def)
  qed
  have y: "x_requests y = map ?f (x_requests x)" "x_next y = x_next x1" using k(1) by (simp_all add: s(4) update_requests_def)
  show ?thesis unfolding moves_def y(2)
  proof (intro conjI exI)
    show "x_next x \<le> x_next x1" by (rule k(2))
    show "x_requests y = map ?f (x_requests x)" by (rule y(1))
    show "\<forall>z \<in> set (x_requests x). row_moves (x_next x) z (?f z) \<and> (sp_session (?f z) \<noteq> sp_session z \<longrightarrow> sp_id z = i \<and> x_next x < x_next x1)"
      using all by blast
  qed
qed

lemma moves_failed: "(\<And>r. P r \<Longrightarrow> \<not> is_settled r) \<Longrightarrow> moves x (update_requests P (failed_spawn e why at) x)"
  by (rule moves_update [of _ undefined]) (auto simp: row_moves_def failed_spawn_def)

lemma moves_failed_error: "(\<And>r. P r \<Longrightarrow> \<not> is_settled r) \<Longrightarrow> moves x (update_requests P (\<lambda>r. (failed_spawn e why at r)\<lparr>sp_error := err\<rparr>) x)"
  by (rule moves_update [of _ undefined]) (auto simp: row_moves_def failed_spawn_def)

lemma moves_claim:
  assumes "claim_spawn_request_once digest e q x = (ans, y)"
  shows "moves x y"
proof -
  have "moves x (update_requests (\<lambda>y. sp_id y = i \<and> sp_status y = ''queued'') (claimed_spawn e q) x)" for i
    by (rule moves_update [of _ undefined]) (auto simp: row_moves_def claimed_spawn_def is_settled_def)
  then have "moves x ((update_requests (\<lambda>y. sp_id y = i \<and> sp_status y = ''queued'') (claimed_spawn e q) x)\<lparr>x_envs := ns\<rparr>)" for i ns
    by (rule moves_other) simp_all
  then show ?thesis using assms moves_refl
    by (auto simp: claim_spawn_request_once_def Let_def split: option.splits host_proof_verdict.splits if_splits list.splits)
qed

lemma spawn_step_moves:
  assumes "spawn_step digest x y" and "distinct (map sp_id (x_requests x))"
  shows "moves x y \<or> (\<exists>r. y = x\<lparr>x_requests := x_requests x @ [r]\<rparr> \<and> sp_id r \<notin> sp_id ` set (x_requests x) \<and> sp_session r = [])"
  using assms(1)
proof cases
  case (claim e q ans) then show ?thesis using moves_claim by blast
next
  case (report e i u) then show ?thesis using moves_report assms(2) by blast
next
  case (stop e a why)
  have "moves x y" unfolding stop cancel_pending_spawns_def
    by (rule moves_update [of _ undefined]) (auto simp: row_moves_def is_settled_def SPAWN_PENDING_def)
  then show ?thesis ..
next
  case (assign e a env runtime)
  have "moves x y" unfolding assign reassign_spawns_def
    by (rule moves_update [of _ undefined]) (auto simp: row_moves_def is_settled_def SPAWN_PENDING_def)
  then show ?thesis ..
next
  case (dead e t why)
  have "moves x y" unfolding dead fail_spawns_of_dead_terminal_def by (rule moves_failed) (auto simp: is_settled_def)
  then show ?thesis ..
next
  case (exited e t why)
  have "moves x y" unfolding exited fail_spawns_of_exited_terminal_def by (auto simp: is_settled_def intro: moves_refl moves_failed_error)
  then show ?thesis ..
next
  case (orphan e live minutes judged why)
  have "moves x y" unfolding orphan fail_orphan_def by (rule moves_failed) (use orphan(2) in \<open>auto simp: is_settled_def abandoned_def\<close>)
  then show ?thesis ..
next
  case (dead_terminal e why j)
  have "moves x y" unfolding dead_terminal fail_dead_spawn_def by (rule moves_failed) (auto simp: is_settled_def)
  then show ?thesis ..
next
  case (superseded e cutoff why s old)
  have "moves x y" unfolding superseded fail_superseded_def by (auto simp: is_settled_def intro: moves_refl moves_failed)
  then show ?thesis ..
next
  case (brief e why j)
  have "moves x (update_requests (\<lambda>r. sp_id r = sp_id j \<and> sp_status r = ''running'') (\<lambda>r. (failed_spawn e why t r)\<lparr>sp_error := why\<rparr>) x)" for t
    by (rule moves_failed_error) (simp add: is_settled_def)
  from moves_other [OF this] have "moves x (update_sessions P f (update_requests (\<lambda>r. sp_id r = sp_id j \<and> sp_status r = ''running'')
      (\<lambda>r. (failed_spawn e why t r)\<lparr>sp_error := why\<rparr>) x))" for P f t by simp
  then have "moves x y" unfolding brief repair_spawn_request_def Let_def by (simp add: moves_refl split: option.split)
  then show ?thesis ..
next
  case other then show ?thesis by (auto simp: moves_def row_moves_def intro: exI [of _ id])
qed blast

subsection \<open>Along a run\<close>

definition requests_ok :: "spawn_db \<Rightarrow> bool" where
  "requests_ok x = (distinct (map sp_id (x_requests x))
     \<and> (\<forall>r \<in> set (x_requests x). sp_session r \<noteq> [] \<longrightarrow> (\<exists>n < x_next x. sp_session r = ''sess_'' @ nat_str n))
     \<and> (\<forall>r \<in> set (x_requests x). \<forall>r' \<in> set (x_requests x). sp_session r \<noteq> [] \<and> sp_session r' = sp_session r \<longrightarrow> r' = r))"

definition follows :: "spawn_row \<Rightarrow> spawn_row \<Rightarrow> bool" where
  "follows r r' = (sp_id r' = sp_id r \<and> (is_settled r \<longrightarrow> r' = r) \<and> (sp_status r' = ''queued'' \<longrightarrow> sp_status r = ''queued'')
     \<and> (sp_session r \<noteq> [] \<longrightarrow> sp_session r' = sp_session r))"

lemma requests_okD:
  assumes "requests_ok x" and "r \<in> set (x_requests x)"
  shows "sp_session r \<noteq> [] \<Longrightarrow> \<exists>n < x_next x. sp_session r = ''sess_'' @ nat_str n"
    and "sp_session r \<noteq> [] \<Longrightarrow> r' \<in> set (x_requests x) \<Longrightarrow> sp_session r' = sp_session r \<Longrightarrow> r' = r"
    and "r' \<in> set (x_requests x) \<Longrightarrow> sp_id r' = sp_id r \<Longrightarrow> r' = r"
  using assms by (auto simp: requests_ok_def distinct_map dest: inj_onD)

lemma requests_ok_moves:
  assumes ok: "requests_ok x" and "moves x y"
  shows "requests_ok y"
proof -
  obtain f k where f: "x_next x \<le> x_next y" "x_requests y = map f (x_requests x)"
    "\<And>r. r \<in> set (x_requests x) \<Longrightarrow> row_moves (x_next x) r (f r) \<and> (sp_session (f r) \<noteq> sp_session r \<longrightarrow> sp_id r = k \<and> x_next x < x_next y)"
    using assms(2) unfolding moves_def by blast
  have ids: "map sp_id (map f (x_requests x)) = map sp_id (x_requests x)" using f(3) by (auto simp: row_moves_def)
  have counted: "\<exists>n < x_next y. sp_session (f r) = ''sess_'' @ nat_str n" if "r \<in> set (x_requests x)" "sp_session (f r) \<noteq> []" for r
  proof (cases "sp_session (f r) = sp_session r")
    case True
    with requests_okD(1) [OF ok that(1)] that(2) obtain n where "n < x_next x" "sp_session r = ''sess_'' @ nat_str n" by auto
    with True f(1) show ?thesis by (intro exI [of _ n]) simp
  next
    case False
    with f(3) [OF that(1)] show ?thesis by (auto simp: row_moves_def)
  qed
  have old: "sp_session (f r) \<noteq> ''sess_'' @ nat_str (x_next x)" if r: "r \<in> set (x_requests x)" "sp_session (f r) = sp_session r" "sp_session r \<noteq> []" for r
  proof -
    obtain n where "n < x_next x" "sp_session r = ''sess_'' @ nat_str n" using requests_okD(1) [OF ok r(1,3)] by auto
    then show ?thesis using r(2) nat_str_inj [of n "x_next x"] by auto
  qed
  have "f r' = f r" if r: "r \<in> set (x_requests x)" "r' \<in> set (x_requests x)" "sp_session (f r) \<noteq> []" "sp_session (f r') = sp_session (f r)" for r r'
  proof -
    have new: "sp_session (f z) = ''sess_'' @ nat_str (x_next x) \<and> sp_id z = k" if "z \<in> set (x_requests x)" "sp_session (f z) \<noteq> sp_session z" for z
      using f(3) [OF that(1)] that(2) by (auto simp: row_moves_def)
    show ?thesis
    proof (cases "sp_session (f r) = sp_session r"; cases "sp_session (f r') = sp_session r'")
      assume "sp_session (f r) = sp_session r" "sp_session (f r') = sp_session r'"
      with requests_okD(2) [OF ok r(1)] r have "r' = r" by simp
      then show ?thesis by simp
    next
      assume "sp_session (f r) \<noteq> sp_session r" "sp_session (f r') \<noteq> sp_session r'"
      with new r have "sp_id r' = sp_id r" by metis
      with requests_okD(3) [OF ok r(1)] r have "r' = r" by simp
      then show ?thesis by simp
    qed (use new old r in metis)+
  qed
  then show ?thesis unfolding requests_ok_def f(2) ids using ok counted by (auto simp: requests_ok_def)
qed

lemma requests_ok_step: "requests_ok x \<Longrightarrow> spawn_step digest x y \<Longrightarrow> requests_ok y"
proof -
  assume ok: "requests_ok x" and "spawn_step digest x y"
  then consider "moves x y" | r where "y = x\<lparr>x_requests := x_requests x @ [r]\<rparr>" "sp_id r \<notin> sp_id ` set (x_requests x)" "sp_session r = []"
    using spawn_step_moves unfolding requests_ok_def by blast
  then show "requests_ok y"
  proof cases
    case 1 then show ?thesis using requests_ok_moves ok by blast
  next
    case 2 then show ?thesis using ok by (auto simp: requests_ok_def)
  qed
qed

interpretation spawns: invariant_system "\<lambda>x. x_requests x = []" "spawn_step digest" requests_ok for digest
proof
  show "requests_ok x" if "x_requests x = []" for x using that by (simp add: requests_ok_def)
  show "requests_ok y" if "requests_ok x" and "spawn_step digest x y" for x y using that by (rule requests_ok_step)
qed

lemma followsD:
  assumes "follows r r'"
  shows "sp_id r' = sp_id r" and "is_settled r \<Longrightarrow> r' = r" and "sp_status r' = ''queued'' \<Longrightarrow> sp_status r = ''queued''"
    and "sp_session r \<noteq> [] \<Longrightarrow> sp_session r' = sp_session r"
  using assms by (auto simp: follows_def)

lemma follows_step:
  assumes "requests_ok x" and "spawn_step digest x y" and "r \<in> set (x_requests x)"
  shows "\<exists>r' \<in> set (x_requests y). follows r r'"
proof -
  have "distinct (map sp_id (x_requests x))" using assms(1) by (simp add: requests_ok_def)
  from spawn_step_moves [OF assms(2) this] show ?thesis
  proof
    assume "moves x y"
    then obtain f where f: "x_requests y = map f (x_requests x)" "row_moves (x_next x) r (f r)" using assms(3) unfolding moves_def by blast
    then have "f r \<in> set (x_requests y)" "follows r (f r)" using assms(3) by (auto simp: row_moves_def follows_def)
    then show ?thesis by blast
  qed (use assms(3) in \<open>auto simp: follows_def\<close>)
qed

lemma follows_run:
  assumes "(spawn_step digest)\<^sup>*\<^sup>* x y" and "requests_ok x" and "r \<in> set (x_requests x)"
  shows "\<exists>r' \<in> set (x_requests y). follows r r'"
  using assms(1)
proof (induction rule: rtranclp_induct)
  case base then show ?case using assms(3) by (auto simp: follows_def)
next
  case (step y z)
  from step.IH obtain r' where r': "r' \<in> set (x_requests y)" "follows r r'" by blast
  from follows_step [OF spawns.inv_run [OF step.hyps(1) assms(2)] step.hyps(2) r'(1)] r'(2) show ?case by (auto simp: follows_def)
qed

lemma from_no_requests: "(spawn_step digest)\<^sup>*\<^sup>* x0 x \<Longrightarrow> x_requests x0 = [] \<Longrightarrow> requests_ok x"
  using spawns.inv_run [of digest x0 x] by (simp add: requests_ok_def)

text \<open>C4. A settled spawn stays settled, and a started one keeps its session. Once a request is failed or cancelled its row is not changed again, whatever
  reports, stops, reconcilers and dead terminals come later; a request's session, once it has one, is never changed; and no
  two requests ever have the same session.\<close>

theorem settled_spawn_stays_settled:
  assumes "(spawn_step digest)\<^sup>*\<^sup>* x0 x" and "x_requests x0 = []" and "(spawn_step digest)\<^sup>*\<^sup>* x y" and "r \<in> set (x_requests x)"
  shows "(sp_status r = ''failed'' \<or> sp_status r = ''cancelled'' \<longrightarrow> r \<in> set (x_requests y))
    \<and> (sp_session r \<noteq> [] \<longrightarrow> (\<exists>r' \<in> set (x_requests y). sp_id r' = sp_id r \<and> sp_session r' = sp_session r)
        \<and> (\<forall>r' \<in> set (x_requests y). sp_session r' = sp_session r \<longrightarrow> sp_id r' = sp_id r))"
proof -
  have ok: "requests_ok x" using from_no_requests [OF assms(1,2)] .
  then have ok': "requests_ok y" using spawns.inv_run [OF assms(3)] by blast
  obtain r' where r': "r' \<in> set (x_requests y)" "follows r r'" using follows_run [OF assms(3) ok assms(4)] by blast
  have "sp_id z = sp_id r" if "sp_session r \<noteq> []" "z \<in> set (x_requests y)" "sp_session z = sp_session r" for z
  proof -
    have "z = r'" using requests_okD(2) [OF ok' r'(1)] followsD(4) [OF r'(2)] that by simp
    then show ?thesis using followsD(1) [OF r'(2)] by simp
  qed
  then show ?thesis using r'(1) followsD [OF r'(2)] is_settled_def by metis
qed

lemma spawn_claimed:
  assumes "claim_spawn_request_once digest e q x = (Spawn r, x1)"
  obtains n old ms where "n \<in> set (x_envs x)" "nv_id n = cl_env q" "judge_host_proof digest (x_proofs x) [nv_machine n] (u_strip (cl_proof q)) = Accepts ms"
    "py_strip (en_bridge n) = [] \<or> py_strip (en_bridge n) = py_strip (cl_bridge q)"
    "old \<in> set (x_requests x)" "sp_env old = cl_env q" "sp_status old = ''queued''" "r = claimed_spawn e q old"
    "\<forall>z \<in> set (x_requests x). sp_status z = ''queued'' \<and> sp_env z = cl_env q \<longrightarrow> sp_created_at old \<le> sp_created_at z"
    "x_requests x1 = map (\<lambda>y. if sp_id y = sp_id old \<and> sp_status y = ''queued'' then claimed_spawn e q y else y) (x_requests x)"
proof -
  let ?rows = "filter (\<lambda>r. sp_env r = cl_env q \<and> sp_status r = ''queued'') (x_requests x)"
  obtain n where n: "find (\<lambda>n. nv_id n = cl_env q) (x_envs x) = Some n" using assms
    by (cases "find (\<lambda>n. nv_id n = cl_env q) (x_envs x)") (simp_all add: claim_spawn_request_once_def)
  obtain ms where ms: "judge_host_proof digest (x_proofs x) [nv_machine n] (u_strip (cl_proof q)) = Accepts ms" using assms n
    by (cases "judge_host_proof digest (x_proofs x) [nv_machine n] (u_strip (cl_proof q))") (simp_all add: claim_spawn_request_once_def)
  obtain old rest where o: "sort_key sp_created_at ?rows = old # rest" using assms n ms
    by (cases "sort_key sp_created_at ?rows") (auto simp: claim_spawn_request_once_def split: if_splits)
  have set: "set (old # rest) = set ?rows" using arg_cong [OF o, of set] by simp
  then have old: "old \<in> set ?rows" by auto
  have "sorted (map sp_created_at (old # rest))" using sorted_sort_key [of sp_created_at ?rows] o by simp
  then have least: "\<forall>z \<in> set (old # rest). sp_created_at old \<le> sp_created_at z" by simp
  have n2: "n \<in> set (x_envs x)" "nv_id n = cl_env q" using n by (auto simp: find_Some_iff)
  show thesis
    by (rule that [OF n2 ms, of old])
      (use assms n ms o old least set in \<open>auto simp: claim_spawn_request_once_def Let_def update_requests_def split: if_splits\<close>)
qed

lemma accepted_proof:
  assumes "judge_host_proof digest proofs [m] presented = Accepts ms" and "map_of proofs (normalize_machine_id m) = Some recorded"
    and "normalize_machine_id m \<noteq> []"
  shows "recorded = digest presented"
  using assms by (auto simp: judge_host_proof_def split: if_splits)

text \<open>C6. A spawn is handed out once, to the host that may take it. When a claim is answered with a request, that request was queued for the
  environment and none queued for it was older, the bridge is the environment's current one if it has one, and the proof of an
  enrolled machine was presented; and no later claim, by whomever and after whatever else, is answered with the same request.\<close>

theorem spawn_is_claimed_once:
  assumes "(spawn_step digest)\<^sup>*\<^sup>* x0 x" and "x_requests x0 = []" and "claim_spawn_request_once digest e q x = (Spawn r, x1)"
  shows "(\<exists>old \<in> set (x_requests x). r = claimed_spawn e q old \<and> sp_status old = ''queued'' \<and> sp_env old = cl_env q
        \<and> (\<forall>z \<in> set (x_requests x). sp_status z = ''queued'' \<and> sp_env z = cl_env q \<longrightarrow> sp_created_at old \<le> sp_created_at z))
    \<and> (\<exists>n \<in> set (x_envs x). nv_id n = cl_env q \<and> (py_strip (en_bridge n) = [] \<or> py_strip (en_bridge n) = py_strip (cl_bridge q))
        \<and> (case map_of (x_proofs x) (normalize_machine_id (nv_machine n)) of None \<Rightarrow> True
           | Some recorded \<Rightarrow> normalize_machine_id (nv_machine n) = [] \<or> recorded = digest (u_strip (cl_proof q))))
    \<and> (\<forall>x2 e' q' r' x3. (spawn_step digest)\<^sup>*\<^sup>* x1 x2 \<and> claim_spawn_request_once digest e' q' x2 = (Spawn r', x3) \<longrightarrow> sp_id r' \<noteq> sp_id r)"
proof -
  from assms(3) obtain n old ms where c: "n \<in> set (x_envs x)" "nv_id n = cl_env q" "judge_host_proof digest (x_proofs x) [nv_machine n] (u_strip (cl_proof q)) = Accepts ms"
    "py_strip (en_bridge n) = [] \<or> py_strip (en_bridge n) = py_strip (cl_bridge q)"
    "old \<in> set (x_requests x)" "sp_env old = cl_env q" "sp_status old = ''queued''" "r = claimed_spawn e q old"
    "\<forall>z \<in> set (x_requests x). sp_status z = ''queued'' \<and> sp_env z = cl_env q \<longrightarrow> sp_created_at old \<le> sp_created_at z"
    "x_requests x1 = map (\<lambda>y. if sp_id y = sp_id old \<and> sp_status y = ''queued'' then claimed_spawn e q y else y) (x_requests x)"
    by (rule spawn_claimed)
  have ok: "requests_ok x" using from_no_requests [OF assms(1,2)] .
  have ok1: "requests_ok x1" using requests_ok_step [OF ok spawn_step.claim [OF assms(3)]] .
  have r1: "r \<in> set (x_requests x1)" "sp_status r \<noteq> ''queued''" using c(5,7,8,10) by (force, simp add: claimed_spawn_def)
  have again: "sp_id r' \<noteq> sp_id r" if run: "(spawn_step digest)\<^sup>*\<^sup>* x1 x2" and cl: "claim_spawn_request_once digest e' q' x2 = (Spawn r', x3)" for x2 e' q' r' x3
  proof
    assume same: "sp_id r' = sp_id r"
    obtain o2 where o2: "o2 \<in> set (x_requests x2)" "sp_status o2 = ''queued''" "r' = claimed_spawn e' q' o2" by (rule spawn_claimed [OF cl])
    obtain z where z: "z \<in> set (x_requests x2)" "follows r z" using follows_run [OF run ok1 r1(1)] by blast
    have "sp_id o2 = sp_id z" using same o2(3) followsD(1) [OF z(2)] by (simp add: claimed_spawn_def)
    then have "o2 = z" using requests_okD(3) [OF spawns.inv_run [OF run ok1] z(1) o2(1)] by simp
    then show False using o2(2) followsD(3) [OF z(2)] r1(2) by simp
  qed
  have proof_ok: "case map_of (x_proofs x) (normalize_machine_id (nv_machine n)) of None \<Rightarrow> True
      | Some recorded \<Rightarrow> normalize_machine_id (nv_machine n) = [] \<or> recorded = digest (u_strip (cl_proof q))"
    using accepted_proof [OF c(3)] by (auto split: option.split)
  show ?thesis using c(1,2,4-9) again proof_ok by blast
qed

subsection \<open>The session of a running spawn\<close>

lemma filter_one_id: "distinct (map se_id ss) \<Longrightarrow> s \<in> set ss \<Longrightarrow> filter (\<lambda>z. se_id z = se_id s) ss = [s]"
proof (induction ss)
  case (Cons a ss)
  show ?case
  proof (cases "a = s")
    case True
    then have "se_id s \<notin> set (map se_id ss)" using Cons.prems(1) by simp
    then have "filter (\<lambda>z. se_id z = se_id s) ss = []" unfolding filter_empty_conv set_map by (metis imageI)
    then show ?thesis using True by simp
  next
    case False
    then have "s \<in> set ss" "se_id a \<noteq> se_id s" using Cons.prems by (auto simp: image_iff)
    then show ?thesis using Cons by simp
  qed
qed simp

lemma sessions_of_end_others:
  "filter (\<lambda>z. se_agent z = a \<and> se_status z \<in> set SESSION_OPEN) (x_sessions (end_other_sessions e a sid x))
     = filter (\<lambda>z. se_agent z = a \<and> se_status z \<in> set SESSION_OPEN \<and> se_id z = sid) (x_sessions x)"
proof -
  have "filter P (map (\<lambda>z. if Q z then f z else z) ss) = filter (\<lambda>z. P z \<and> \<not> Q z) ss" if "\<And>z. Q z \<Longrightarrow> \<not> P (f z)"
    for P Q f and ss :: "session_row list" using that by (induction ss) auto
  from this [of "\<lambda>s. se_agent s = a \<and> se_id s \<noteq> sid \<and> se_status s \<in> set SESSION_OPEN"] show ?thesis
    unfolding end_other_sessions_def update_sessions_def by (auto simp: SESSION_OPEN_def intro: filter_cong)
qed

definition runs_session :: "string \<Rightarrow> string \<Rightarrow> session_row list \<Rightarrow> bool" where
  "runs_session a sid ss = (distinct (map se_id ss) \<and> (\<exists>s \<in> set ss. se_id s = sid \<and> se_agent s = a \<and> se_status s = ''running''))"

lemma runs_session_map:
  assumes "distinct (map se_id ss)" and f: "\<And>s. se_id (f s) = se_id s" "\<And>s. se_agent (f s) = se_agent s"
    and "s \<in> set ss" "se_id s = sid" "se_agent s = a" "se_status (f s) = ''running''"
  shows "runs_session a sid (map f ss)"
proof -
  have "map se_id (map f ss) = map se_id ss" using f(1) by simp
  moreover have "f s \<in> set (map f ss)" using assms(4) by simp
  ultimately show ?thesis unfolding runs_session_def using assms by metis
qed

lemma upserted_session:
  assumes "distinct (map se_id (x_sessions x))" and "\<And>s. s \<in> set (x_sessions x) \<Longrightarrow> se_id s = sid \<Longrightarrow> se_agent s = sp_agent r"
  shows "runs_session (sp_agent r) sid (x_sessions (upsert_running_agent_session e u r sid h t x))"
proof (cases "find (\<lambda>s. se_id s = sid) (x_sessions x)")
  case None
  then have "sid \<notin> se_id ` set (x_sessions x)" by (auto simp: find_None_iff)
  then show ?thesis using None assms(1) by (simp add: runs_session_def upsert_running_agent_session_def)
next
  case (Some s)
  then have s: "s \<in> set (x_sessions x)" "se_id s = sid" by (auto simp: find_Some_iff)
  show ?thesis unfolding upsert_running_agent_session_def update_sessions_def Let_def using Some
    by simp (rule runs_session_map [OF assms(1) _ _ s assms(2) [OF s]], simp_all add: s(2))
qed

lemma migrated_session:
  assumes "runs_session a sid (x_sessions x)"
  shows "runs_session a sid (x_sessions (migrate_bridge_id_onto_live_terminal e r sid b x))"
proof -
  from assms obtain s where s: "distinct (map se_id (x_sessions x))" "s \<in> set (x_sessions x)" "se_id s = sid" "se_agent s = a" "se_status s = ''running''"
    unfolding runs_session_def by blast
  show ?thesis
  proof (cases "migrated_terminal e r b x")
    case None then show ?thesis using assms by (simp add: migrate_bridge_id_onto_live_terminal_def)
  next
    case (Some t)
    show ?thesis
    proof (cases "tm_session t = sid")
      case True then show ?thesis using Some assms by (simp add: migrate_bridge_id_onto_live_terminal_def)
    next
      case False
      then show ?thesis unfolding migrate_bridge_id_onto_live_terminal_def update_sessions_def using Some
        by simp (rule runs_session_map [OF s(1) _ _ s(2-4)], simp_all add: s(3,5) TERMINAL_END_STATUSES_def)
    qed
  qed
qed

lemma settled_sessions:
  assumes s: "settle_running_spawn e u r t ''running'' x = (sid, y)" and ids: "distinct (map se_id (x_sessions x))"
    and own: "\<And>s. s \<in> set (x_sessions x) \<Longrightarrow> se_id s = sp_session r \<Longrightarrow> se_agent s = sp_agent r"
    and fresh: "''sess_'' @ nat_str (x_next x) \<notin> se_id ` set (x_sessions x)"
  shows "map se_id (filter (\<lambda>s. se_agent s = sp_agent r \<and> se_status s \<in> set SESSION_OPEN) (x_sessions y)) = [sid]"
    and "sp_session r \<noteq> [] \<Longrightarrow> sid = sp_session r"
proof -
  let ?h = "or_else (su_handle u) (sp_handle r)" and ?b = "or_else (su_bridge u) (sp_claimed_by r)"
  define x0 where "x0 = x\<lparr>x_next := Suc (x_next x), x_agents := upsert_agent r ?h (x_agents x), x_disp := spawned_bridge e u r (x_disp x)\<rparr>"
  define x2 where "x2 = upsert_running_agent_session e u r sid ?h t x0"
  define x3 where "x3 = (if ?b = [] then x2 else migrate_bridge_id_onto_live_terminal e r sid ?b x2)"
  have sid: "sid = or_else (sp_session r) (''sess_'' @ nat_str (x_next x))" using s by (simp add: settle_running_spawn_def Let_def)
  then show "sp_session r \<noteq> [] \<Longrightarrow> sid = sp_session r" by (simp add: or_else_def)
  have y: "x_sessions y = x_sessions (end_other_sessions e (sp_agent r) sid x3)"
    using s unfolding settle_running_spawn_def Let_def x3_def x2_def x0_def by auto
  have "se_agent z = sp_agent r" if z: "z \<in> set (x_sessions x)" "se_id z = sid" for z
  proof -
    have "sid \<in> se_id ` set (x_sessions x)" using z by blast
    then have "sid = sp_session r" using fresh sid by (metis or_else_def)
    then show ?thesis using own z by simp
  qed
  then have "runs_session (sp_agent r) sid (x_sessions x2)" unfolding x2_def using ids by (intro upserted_session) (simp_all add: x0_def)
  then have "runs_session (sp_agent r) sid (x_sessions x3)" using migrated_session by (simp add: x3_def)
  then obtain z where z: "distinct (map se_id (x_sessions x3))" "z \<in> set (x_sessions x3)" "se_id z = sid" "se_agent z = sp_agent r" "se_status z = ''running''"
    unfolding runs_session_def by blast
  have "filter (\<lambda>w. se_agent w = sp_agent r \<and> se_status w \<in> set SESSION_OPEN \<and> se_id w = sid) (x_sessions x3)
      = filter (\<lambda>w. se_agent w = sp_agent r \<and> se_status w \<in> set SESSION_OPEN) (filter (\<lambda>w. se_id w = se_id z) (x_sessions x3))"
    using z(3) by (auto intro: filter_cong)
  also have "\<dots> = [z]" using filter_one_id [OF z(1,2)] z(4,5) by (simp add: SESSION_OPEN_def)
  finally show "map se_id (filter (\<lambda>s. se_agent s = sp_agent r \<and> se_status s \<in> set SESSION_OPEN) (x_sessions y)) = [sid]"
    using z(3) by (simp add: y sessions_of_end_others)
qed

lemma find_updated: "(\<And>z. sp_id (f z) = sp_id z) \<Longrightarrow> find (\<lambda>z. sp_id z = i) (map f zs) = map_option f (find (\<lambda>z. sp_id z = i) zs)"
  by (induction zs) auto

lemma norm_settled: "is_settled r \<Longrightarrow> norm_word (sp_status r) = sp_status r"
proof -
  have "norm_word ''failed'' = ''failed''" "norm_word ''cancelled'' = ''cancelled''" by code_simp+
  then show "is_settled r \<Longrightarrow> norm_word (sp_status r) = sp_status r" by (auto simp: is_settled_def)
qed

text \<open>C10. A running spawn is the agent's one open session. When a claimer's report that a spawn is running is accepted, the request is running under a session,
  its own from before if it had one, and of the agent's sessions exactly that one is open afterwards: the sessions
  of earlier workers are ended.\<close>

theorem running_spawn_has_the_one_session:
  assumes up: "update_spawn_request digest e i u x = Inr y" and run: "norm_word (su_status u) = ''running''" and r: "request_of i x = Some r"
    and ids: "distinct (map se_id (x_sessions x))"
    and own: "\<And>s. s \<in> set (x_sessions x) \<Longrightarrow> se_id s = sp_session r \<Longrightarrow> se_agent s = sp_agent r"
    and fresh: "''sess_'' @ nat_str (x_next x) \<notin> se_id ` set (x_sessions x)"
  shows "\<exists>sid. map_option (\<lambda>r. (sp_status r, sp_session r)) (request_of i y) = Some (''running'', sid) \<and> (sp_session r \<noteq> [] \<longrightarrow> sid = sp_session r)
    \<and> map se_id (filter (\<lambda>s. se_agent s = sp_agent r \<and> se_status s \<in> set SESSION_OPEN) (x_sessions y)) = [sid]"
proof -
  obtain r' sid x1 where c: "request_of i x = Some r'"
    "\<not> (norm_word (sp_status r') \<in> {''failed'', ''cancelled''} \<and> norm_word (su_status u) \<noteq> norm_word (sp_status r'))"
    "settle_running_spawn e u r' (report_started e (norm_word (su_status u)) r') (norm_word (su_status u)) x = (sid, x1)"
    "y = update_requests (\<lambda>y. sp_id y = i \<and> \<not> is_settled y) (updated_spawn e u (norm_word (su_status u)) sid
       (report_started e (norm_word (su_status u)) r') (report_finished e (norm_word (su_status u)) r')) x1"
    by (rule report_cases [OF up]) (rule that, assumption+)
  have "r' = r" using c(1) r by simp
  note s = c(2-4) [unfolded this run]
  have "\<not> is_settled r" using s(1) norm_settled [of r] by (auto simp: is_settled_def)
  moreover have "sp_id r = i" using r by (auto simp: request_of_def find_Some_iff)
  moreover have "x_requests x1 = x_requests x" by (rule settle_spawn_keeps(1) [OF s(2)])
  ultimately have "request_of i y = Some (updated_spawn e u ''running'' sid (report_started e ''running'' r) (report_finished e ''running'' r) r)"
    using r unfolding s(3) request_of_def update_requests_def by (simp add: find_updated updated_spawn_def)
  moreover have "x_sessions y = x_sessions x1" by (simp add: s(3) update_requests_def)
  ultimately show ?thesis using settled_sessions [OF s(2) ids own fresh] by (auto simp: updated_spawn_def)
qed

subsection \<open>Abandoned spawns\<close>

lemma served_requests [simp]: "served_by_session r (update_requests P f x) = served_by_session r x"
  by (simp add: served_by_session_def update_requests_def)

text \<open>The reconciler reads all its rows, then writes them one by one, each write comparing the row with what was read. What the
  writes come to is one pass over the table.\<close>

lemma fold_fail_orphan:
  assumes "\<forall>j \<in> set js. sp_status j \<noteq> ''failed''"
  shows "x_requests (fold (fail_orphan e live why) js x) = map (\<lambda>r. if \<exists>j \<in> set js. sp_id r = sp_id j \<and> sp_status r = sp_status j
       \<and> sp_claimed_by r = py_strip (sp_claimed_by j) \<and> sp_finished_at r = []
       \<and> \<not> (sp_status j = ''running'' \<and> py_strip (sp_claimed_by j) \<in> live \<and> served_by_session r x)
     then failed_spawn e why (e_now e) r else r) (x_requests x)"
  using assms
proof (induction js arbitrary: x)
  case (Cons j js)
  let ?P = "\<lambda>r j. sp_id r = sp_id j \<and> sp_status r = sp_status j \<and> sp_claimed_by r = py_strip (sp_claimed_by j) \<and> sp_finished_at r = []
       \<and> \<not> (sp_status j = ''running'' \<and> py_strip (sp_claimed_by j) \<in> live \<and> served_by_session r x)"
  let ?f = "failed_spawn e why (e_now e)"
  have rows: "x_requests (fail_orphan e live why j x) = map (\<lambda>r. if ?P r j then ?f r else r) (x_requests x)"
    and served: "\<And>r. served_by_session r (fail_orphan e live why j x) = served_by_session r x"
    unfolding fail_orphan_def by (simp_all only: served_requests) (simp add: update_requests_def)
  have stays: "\<not> (\<exists>i \<in> set js. ?P (?f r) i)" for r using Cons.prems by (auto simp: failed_spawn_def)
  have "x_requests (fold (fail_orphan e live why) (j # js) x)
      = map (\<lambda>r. if \<exists>i \<in> set js. ?P r i then ?f r else r) (map (\<lambda>r. if ?P r j then ?f r else r) (x_requests x))"
    using Cons.IH [of "fail_orphan e live why j x"] Cons.prems unfolding served rows by simp
  also have "\<dots> = map (\<lambda>r. if \<exists>i \<in> set (j # js). ?P r i then ?f r else r) (x_requests x)"
    unfolding map_map
  proof (rule map_cong [OF refl])
    show "((\<lambda>r. if \<exists>i \<in> set js. ?P r i then ?f r else r) \<circ> (\<lambda>r. if ?P r j then ?f r else r)) r
        = (if \<exists>i \<in> set (j # js). ?P r i then ?f r else r)" for r
    proof (cases "?P r j")
      case True
      then have "\<exists>i \<in> set (j # js). ?P r i" by (intro bexI [of _ j]) simp_all
      then show ?thesis unfolding comp_def if_P [OF True] using stays by (simp only: if_True if_False)
    next
      case False
      then have "(\<exists>i \<in> set (j # js). ?P r i) = (\<exists>i \<in> set js. ?P r i)" by (simp only: list.set bex_simps simp_thms)
      then show ?thesis unfolding comp_def if_not_P [OF False] by (simp only:)
    qed
  qed
  finally show ?case .
qed simp

text \<open>When a spawn counts as abandoned: one its worker never took up once the grace has passed; one that was taken up when nothing live
  holds it, or when it outlasted the ceiling of a spawn with no live session.\<close>

definition reaped :: "denv \<Rightarrow> string set \<Rightarrow> int \<Rightarrow> spawn_db \<Rightarrow> spawn_row \<Rightarrow> bool" where
  "reaped e live minutes x r = (let age = e_clock e - claim_epoch e r in
     sp_finished_at r = [] \<and> claim_epoch e r \<noteq> 0 \<and> age \<ge> SPAWN_ORPHAN_GRACE_SECONDS
     \<and> (sp_status r = ''claimed''
        \<or> sp_status r = ''starting'' \<and> (sp_claimed_by r \<in> live \<longrightarrow> age \<ge> wall_ceiling_seconds minutes)
        \<or> sp_status r = ''running'' \<and> (sp_claimed_by r \<in> live \<longrightarrow> age \<ge> wall_ceiling_seconds minutes \<and> \<not> served_by_session r x)))"

lemma live_bridges_are_named: "[] \<notin> live_environment_bridge_ids parse now offline ns"
  by (auto simp: live_environment_bridge_ids_def)

text \<open>C26. What the orphan reconciler fails, exactly. The pass over read rows with compared writes is one pass over the table: a claimed spawn fails once it is
  three minutes old, a starting one only when its bridge is not live or it is past the ceiling, a running one on a live bridge
  only when moreover no session of its own is open, one of unreadable age never; every other request keeps its row.\<close>

theorem orphans_are_exactly_reaped:
  assumes ids: "distinct (map sp_id (x_requests x))" and stripped: "\<forall>r \<in> set (x_requests x). py_strip (sp_claimed_by r) = sp_claimed_by r"
  shows "x_requests (fail_orphaned_running_spawn_requests parse e offline_seconds minutes why x)
    = map (\<lambda>r. if reaped e (live_environment_bridge_ids parse (e_clock e) offline_seconds (map environment.truncate (x_envs x))) minutes x r
        then failed_spawn e why (e_now e) r else r) (x_requests x)"
proof -
  define live where "live = live_environment_bridge_ids parse (e_clock e) offline_seconds (map environment.truncate (x_envs x))"
  have named: "[] \<notin> live" unfolding live_def by (rule live_bridges_are_named)
  let ?js = "filter (abandoned e live minutes) (x_requests x)"
  let ?P = "\<lambda>r j. sp_id r = sp_id j \<and> sp_status r = sp_status j \<and> sp_claimed_by r = py_strip (sp_claimed_by j) \<and> sp_finished_at r = []
       \<and> \<not> (sp_status j = ''running'' \<and> py_strip (sp_claimed_by j) \<in> live \<and> served_by_session r x)"
  have "\<forall>j \<in> set ?js. sp_status j \<noteq> ''failed''" by (auto simp: abandoned_def)
  note rows = fold_fail_orphan [OF this, of e live why x]
  have "(\<exists>j \<in> set ?js. ?P r j) = reaped e live minutes x r" if r: "r \<in> set (x_requests x)" for r
  proof -
    have "(\<exists>j \<in> set ?js. ?P r j) = (r \<in> set ?js \<and> ?P r r)"
    proof
      assume "\<exists>j \<in> set ?js. ?P r j"
      then obtain j where j: "j \<in> set ?js" "?P r j" by blast
      then have "j = r" using ids r by (auto simp: distinct_map dest: inj_onD)
      then show "r \<in> set ?js \<and> ?P r r" using j by simp
    qed blast
    also have "\<dots> = reaped e live minutes x r"
      using r stripped named unfolding reaped_def abandoned_def on_live_bridge_def Let_def by (auto simp: not_less)
    finally show ?thesis .
  qed
  then show ?thesis unfolding fail_orphaned_running_spawn_requests_def Let_def live_def [symmetric] rows by (auto intro: map_cong)
qed

subsection \<open>An enrolled machine\<close>

datatype proof_event = Beats "string list" ustr | Resets string

text \<open>A heartbeat that is let through, and the operator's reset.\<close>

definition next_proofs :: "(ustr \<Rightarrow> ustr) \<Rightarrow> (string \<times> ustr) list \<Rightarrow> proof_event \<Rightarrow> (string \<times> ustr) list" where
  "next_proofs digest proofs ev = (case ev of
     Beats machines presented \<Rightarrow> enroll_host_proof digest (judge_host_proof digest proofs machines presented) presented proofs
   | Resets m \<Rightarrow> reset_host_proof m proofs)"

lemma judged_machine:
  assumes "judge_machines digest proofs presented ms us = Accepts ns" and "m \<in> set ms" and "m \<noteq> []" and "map_of proofs m = Some d"
  shows "presented \<noteq> [] \<and> digest presented = d"
  using assms
proof (induction ms arbitrary: us)
  case (Cons k ms)
  show ?case
  proof (cases "k = m")
    case True then show ?thesis using Cons.prems(1,3,4) by (auto split: if_splits)
  next
    case False
    then have "m \<in> set ms" using Cons.prems(2) by simp
    moreover obtain vs where "judge_machines digest proofs presented ms vs = Accepts ns"
      using Cons.prems(1) by (cases "k = []"; cases "map_of proofs k") (auto split: if_splits)
    ultimately show ?thesis using Cons.IH Cons.prems(3,4) by blast
  qed
qed simp

lemma set_fromkeys: "set (fromkeys seen ms) = set ms - set seen"
  by (induction seen ms rule: fromkeys.induct) auto

lemma filter_other_key: "k \<noteq> m \<Longrightarrow> map_of (filter (\<lambda>(n, _). n \<noteq> k) ps) m = map_of ps m"
  by (induction ps) auto

lemma reset_other: "normalize_machine_id n \<noteq> m \<Longrightarrow> map_of (reset_host_proof n proofs) m = map_of proofs m"
  unfolding reset_host_proof_def by (rule filter_other_key)

lemma proof_kept: "map_of proofs m = Some d \<Longrightarrow> (\<And>n. ev = Resets n \<Longrightarrow> normalize_machine_id n \<noteq> m) \<Longrightarrow> map_of (next_proofs digest proofs ev) m = Some d"
  by (cases ev) (auto simp: next_proofs_def enroll_host_proof_def reset_other map_of_append split: host_proof_verdict.split)

text \<open>An enrolled machine is spoken for only by its proof. Once a machine's proof is on record, whatever heartbeats come and whichever other
  machines are reset, a request that names the machine, among others or alone, is accepted only if it presents a proof with
  the digest on record; only the reset of that machine ends this.\<close>

theorem enrolled_machine_needs_its_proof:
  assumes "map_of proofs m = Some d" and "m \<noteq> []" and "\<forall>ev \<in> set evs. \<forall>n. ev = Resets n \<longrightarrow> normalize_machine_id n \<noteq> m"
    and "judge_host_proof digest (foldl (next_proofs digest) proofs evs) machines presented = Accepts us"
    and "m \<in> normalize_machine_id ` set machines"
  shows "presented \<noteq> [] \<and> digest presented = d"
proof -
  have "map_of (foldl (next_proofs digest) proofs evs) m = Some d" using assms(1,3)
  proof (induction evs arbitrary: proofs)
    case (Cons ev evs)
    then have "map_of (next_proofs digest proofs ev) m = Some d" by (intro proof_kept) auto
    then show ?case using Cons by simp
  qed simp
  moreover have "m \<in> set (fromkeys [] (map normalize_machine_id machines))" using assms(5) by (simp add: set_fromkeys)
  ultimately show ?thesis using judged_machine [OF assms(4) [unfolded judge_host_proof_def] _ assms(2)] by blast
qed

theorem enrolled_machine_needs_its_proof_witness:
  "judge_host_proof rev (foldl (next_proofs rev) [] [Beats [''Linux:H ''] (lit ''p''), Beats [''linux:h''] (lit ''q''), Resets ''linux:k'']) [''linux:k'', ''linux:h''] (lit ''p'')
     = Accepts [''linux:k'']
   \<and> judge_host_proof rev (foldl (next_proofs rev) [] [Beats [''Linux:H ''] (lit ''p'')]) [''linux:h''] (lit ''q'') = Refuses ''linux:h''
   \<and> rev (lit ''p'') = lit ''p''"
proof -
  have a: "judge_host_proof rev (foldl (next_proofs rev) [(''linux:h'', lit ''p'')] [Beats [''linux:h''] (lit ''q''), Resets ''linux:k'']) [''linux:k'', ''linux:h''] (lit ''p'')
      = Accepts [''linux:k'']" "''linux:h'' \<noteq> []" "map_of [(''linux:h'', lit ''p'')] ''linux:h'' = Some (lit ''p'')"
    "''linux:h'' \<in> normalize_machine_id ` set [''linux:k'', ''linux:h'']" "normalize_machine_id ''linux:k'' \<noteq> ''linux:h''" by code_simp+
  have "rev (lit ''p'') = lit ''p''"
    using enrolled_machine_needs_its_proof [OF a(3,2) _ a(1,4)] a(5) by auto
  moreover have "judge_host_proof rev (foldl (next_proofs rev) [] [Beats [''Linux:H ''] (lit ''p''), Beats [''linux:h''] (lit ''q''), Resets ''linux:k'']) [''linux:k'', ''linux:h''] (lit ''p'')
     = Accepts [''linux:k'']" "judge_host_proof rev (foldl (next_proofs rev) [] [Beats [''Linux:H ''] (lit ''p'')]) [''linux:h''] (lit ''q'') = Refuses ''linux:h''"
    by code_simp+
  ultimately show ?thesis by simp
qed

subsection \<open>One spawn from request to worker\<close>

definition demo_spawn :: spawn_row where
  "demo_spawn = \<lparr>sp_id = ''s1'', sp_env = ''e1'', sp_agent = ''a'', sp_runtime = ''codex'', sp_mode = [], sp_initial = lit ''go'', sp_created_by = lit ''boss'', sp_subject = [],
     sp_priority = [], sp_status = ''queued'', sp_claimed_by = [], sp_claim_machine = [], sp_handle = [], sp_session = [], sp_error = [], sp_created_at = lit ''1'', sp_updated_at = [],
     sp_claimed_at = [], sp_started_at = [], sp_finished_at = [], sp_has_spec = True\<rparr>"

definition demo_host :: env_row where
  "demo_host = \<lparr>en_status = ''online'', en_bridge = ''b1'', en_last_seen = lit ''1'', nv_id = ''e1'', nv_machine = ''linux:h''\<rparr>"

definition no_spawns :: spawn_db where
  "no_spawns = \<lparr>x_requests = [], x_sessions = [\<lparr>se_id = ''old'', se_agent = ''a'', se_mode = ''managed'', se_status = ''running'', se_owner_bridge = ''b0'', se_handle = [],
     se_spawn = [], se_terminal = [], se_terminal_status = [], se_started_at = lit ''1'', se_last_seen = lit ''1'', se_ended_at = []\<rparr>],
     x_terminals = [], x_envs = [demo_host], x_proofs = [(''linux:h'', lit ''p'')], x_agents = [], x_disp = no_dispatch, x_next = 0\<rparr>"

definition demo_spawn_queued :: spawn_db where
  "demo_spawn_queued = no_spawns\<lparr>x_requests := x_requests no_spawns @ [demo_spawn]\<rparr>"

definition demo_spawn_claim :: spawn_claim where
  "demo_spawn_claim = \<lparr>cl_env = ''e1'', cl_bridge = ''b1'', cl_machine = ''linux:h'', cl_proof = lit ''p ''\<rparr>"

definition demo_spawn_claimed :: spawn_db where
  "demo_spawn_claimed = snd (claim_spawn_request_once id demo_env demo_spawn_claim demo_spawn_queued)"

definition demo_spawn_report :: "string \<Rightarrow> spawn_update" where
  "demo_spawn_report status = \<lparr>su_status = status, su_bridge = ''b1'', su_handle = ''h1'', su_error = [], su_proof = lit ''p'', su_brief = lit ''m9'', su_execution = ''managed''\<rparr>"

definition reported :: "string \<Rightarrow> spawn_db \<Rightarrow> spawn_db" where
  "reported status x = (case update_spawn_request id demo_env ''s1'' (demo_spawn_report status) x of Inr y \<Rightarrow> y | Inl _ \<Rightarrow> x)"

lemma demo_claimed_spawn: "claim_spawn_request_once id demo_env demo_spawn_claim demo_spawn_queued = (Spawn (claimed_spawn demo_env demo_spawn_claim demo_spawn), demo_spawn_claimed)"
proof -
  have "fst (claim_spawn_request_once id demo_env demo_spawn_claim demo_spawn_queued) = Spawn (claimed_spawn demo_env demo_spawn_claim demo_spawn)" by code_simp
  then show ?thesis unfolding demo_spawn_claimed_def by (metis prod.collapse)
qed

lemma queued_reached: "(spawn_step id)\<^sup>*\<^sup>* no_spawns demo_spawn_queued"
  unfolding demo_spawn_queued_def by (rule r_into_rtranclp, rule spawn_step.create) code_simp+

lemma claimed_reached: "(spawn_step id)\<^sup>*\<^sup>* no_spawns demo_spawn_claimed"
  by (rule rtranclp.rtrancl_into_rtrancl [OF queued_reached]) (rule spawn_step.claim [OF demo_claimed_spawn])

lemma reported_reached: "(spawn_step id)\<^sup>*\<^sup>* x (reported status x)"
  unfolding reported_def by (auto split: sum.split intro: spawn_step.report)

text \<open>The brief is handed over again when a running spawn is reported starting and running once more: the guard looks only at the
  status the row has.\<close>

lemma brief_handed_over_twice:
  "map r_body (d_runs (x_disp (reported ''running'' demo_spawn_claimed))) = [lit ''go'']
   \<and> length (d_messages (x_disp (reported ''running'' (reported ''starting'' (reported ''running'' demo_spawn_claimed)))))
     = Suc (length (d_messages (x_disp (reported ''running'' demo_spawn_claimed))))"
  by code_simp

theorem spawn_is_claimed_once_witness:
  "\<exists>old. old \<in> set (x_requests demo_spawn_queued) \<and> sp_status old = ''queued''
     \<and> fst (claim_spawn_request_once id demo_env demo_spawn_claim demo_spawn_queued) = Spawn (claimed_spawn demo_env demo_spawn_claim old)
     \<and> fst (claim_spawn_request_once id demo_env (demo_spawn_claim\<lparr>cl_proof := lit ''q''\<rparr>) demo_spawn_queued) = Claim_Unproven
     \<and> fst (claim_spawn_request_once id demo_env demo_spawn_claim demo_spawn_claimed) = Nothing_To_Spawn"
proof -
  have n: "x_requests no_spawns = []"
    "fst (claim_spawn_request_once id demo_env (demo_spawn_claim\<lparr>cl_proof := lit ''q''\<rparr>) demo_spawn_queued) = Claim_Unproven"
    "fst (claim_spawn_request_once id demo_env demo_spawn_claim demo_spawn_claimed) = Nothing_To_Spawn" by code_simp+
  from spawn_is_claimed_once [OF queued_reached n(1) demo_claimed_spawn] obtain old where
    "old \<in> set (x_requests demo_spawn_queued)" "sp_status old = ''queued''" "claimed_spawn demo_env demo_spawn_claim demo_spawn = claimed_spawn demo_env demo_spawn_claim old" by blast
  then show ?thesis using n(2,3) unfolding demo_claimed_spawn fst_conv by metis
qed

theorem settled_spawn_stays_settled_witness:
  "x_requests (reported ''running'' (reported ''failed'' demo_spawn_claimed)) = x_requests (reported ''failed'' demo_spawn_claimed)
   \<and> map sp_status (x_requests (reported ''failed'' demo_spawn_claimed)) = [''failed'']
   \<and> (\<exists>r. r \<in> set (x_requests (reported ''running'' (reported ''failed'' demo_spawn_claimed))) \<and> sp_status r = ''failed'')"
proof -
  let ?x = "reported ''failed'' demo_spawn_claimed"
  have n: "x_requests no_spawns = []" "map sp_status (x_requests ?x) = [''failed'']"
    "x_requests (reported ''running'' ?x) = x_requests ?x" by code_simp+
  then obtain r where r: "r \<in> set (x_requests ?x)" "sp_status r = ''failed''" by auto
  from settled_spawn_stays_settled [OF rtranclp_trans [OF claimed_reached reported_reached] n(1) reported_reached [of ?x "''running''"] r(1)] r(2)
  have "r \<in> set (x_requests (reported ''running'' ?x))" by simp
  then show ?thesis using n r(2) by blast
qed

theorem running_spawn_has_the_one_session_witness:
  "map se_id (filter (\<lambda>s. se_agent s = ''a'' \<and> se_status s \<in> set SESSION_OPEN) (x_sessions demo_spawn_claimed)) = [''old'']
   \<and> map se_id (filter (\<lambda>s. se_agent s = ''a'' \<and> se_status s \<in> set SESSION_OPEN) (x_sessions (reported ''running'' demo_spawn_claimed))) = [''sess_0'']
   \<and> map (\<lambda>r. (sp_status r, sp_session r)) (x_requests (reported ''running'' demo_spawn_claimed)) = [(''running'', ''sess_0'')]"
proof -
  let ?u = "demo_spawn_report ''running''" and ?y = "reported ''running'' demo_spawn_claimed" and ?r = "claimed_spawn demo_env demo_spawn_claim demo_spawn"
  have a: "case update_spawn_request id demo_env ''s1'' ?u demo_spawn_claimed of Inl _ \<Rightarrow> False | Inr _ \<Rightarrow> True"
    "norm_word (su_status ?u) = ''running''" "request_of ''s1'' demo_spawn_claimed = Some ?r" "distinct (map se_id (x_sessions demo_spawn_claimed))"
    "''sess_'' @ nat_str (x_next demo_spawn_claimed) \<notin> se_id ` set (x_sessions demo_spawn_claimed)"
    "map se_id (x_sessions demo_spawn_claimed) = [''old'']" "sp_session ?r = []" "sp_agent ?r = ''a''"
    "map (\<lambda>r. (sp_status r, sp_session r)) (x_requests ?y) = [(''running'', ''sess_0'')]"
    "map_option (\<lambda>r. (sp_status r, sp_session r)) (request_of ''s1'' ?y) = Some (''running'', ''sess_0'')"
    "map se_id (filter (\<lambda>s. se_agent s = ''a'' \<and> se_status s \<in> set SESSION_OPEN) (x_sessions demo_spawn_claimed)) = [''old'']" by code_simp+
  have own: "se_agent s = sp_agent ?r" if "s \<in> set (x_sessions demo_spawn_claimed)" "se_id s = sp_session ?r" for s
    using arg_cong [OF a(6), of set] that a(7) by force
  have up: "update_spawn_request id demo_env ''s1'' ?u demo_spawn_claimed = Inr ?y" using a(1) unfolding reported_def by (auto split: sum.splits)
  from running_spawn_has_the_one_session [OF up a(2-4) own a(5)] a(8-11) show ?thesis by auto
qed

text \<open>The bridge of the claim is live here, and the claim is 190 seconds old: a claimed spawn is failed, a running one with its session is not.\<close>

definition demo_later :: denv where
  "demo_later = demo_env\<lparr>e_clock := 1090\<rparr>"

definition demo_stamps :: stamp_reader where
  "demo_stamps t = Some (1090, True)"

theorem orphans_are_exactly_reaped_witness:
  "map sp_status (x_requests (fail_orphaned_running_spawn_requests demo_stamps demo_later 60 30 (lit ''lost'') demo_spawn_claimed)) = [''failed'']
   \<and> x_requests (fail_orphaned_running_spawn_requests demo_stamps demo_later 60 30 (lit ''lost'') (reported ''running'' demo_spawn_claimed))
     = x_requests (reported ''running'' demo_spawn_claimed)"
proof -
  let ?x = "demo_spawn_claimed" and ?live = "live_environment_bridge_ids demo_stamps (e_clock demo_later) 60 (map environment.truncate (x_envs demo_spawn_claimed))"
  have d: "distinct (map sp_id (x_requests ?x))" "list_all (\<lambda>r. py_strip (sp_claimed_by r) = sp_claimed_by r) (x_requests ?x)"
    "map sp_status (map (\<lambda>r. if reaped demo_later ?live 30 ?x r then failed_spawn demo_later (lit ''lost'') (e_now demo_later) r else r) (x_requests ?x)) = [''failed'']"
    "x_requests (fail_orphaned_running_spawn_requests demo_stamps demo_later 60 30 (lit ''lost'') (reported ''running'' demo_spawn_claimed))
       = x_requests (reported ''running'' demo_spawn_claimed)" by code_simp+
  have "\<forall>r \<in> set (x_requests ?x). py_strip (sp_claimed_by r) = sp_claimed_by r" using d(2) by (simp add: list_all_iff)
  from orphans_are_exactly_reaped [OF d(1) this, of demo_stamps demo_later 60 30 "lit ''lost''"] d(3,4) show ?thesis by simp
qed

end
