(* ===== verification/Environments.thy ===== *)
theory Environments
  imports SpawnRequests Json
begin

text \<open>
  Environments: the hosts that run agents. What a heartbeat says (\<open>service/api_core/environment_beat.py\<close>), what the row becomes
  (\<open>api_core/environment_heartbeat.py\<close>, \<open>api_core/environment_registration.py\<close>), the stop queued for a bridge that lost the row
  (\<open>api_core/superseded_bridge_stops.py\<close>), the terminals a host no longer holds (\<open>reconcilers/host_held_terminals.py\<close>), the
  operator's roots, stop and forget (\<open>routers/environments.py\<close>) and the claim of a control (\<open>service/environment_claim.py\<close>).

  JSON columns are the values they hold. How Python spells a value that is not text, how it reads and writes stamps, and the clock are in
  the record \<open>beat_env\<close>. The live-status cache, the sessions and agents a stop marks, and the announcements are left out.
\<close>

declare split_paired_All [simp del] split_paired_Ex [simp del]

subsection \<open>Tables and requests\<close>

type_synonym meta = "(string \<times> json) list"

record env_entry =
  ev_id :: string
  ev_label :: string
  ev_machine :: string
  ev_os :: string
  ev_kind :: string
  ev_bridge :: string
  ev_version :: string
  ev_launcher :: string
  ev_fingerprint :: string
  ev_roots :: json
  ev_runtimes :: json
  ev_status :: string
  ev_meta :: meta
  ev_registered_at :: string
  ev_last_seen :: string

record env_control =
  ec_id :: string
  ec_env :: string
  ec_bridge :: string
  ec_machine :: string
  ec_action :: string
  ec_status :: string
  ec_by :: string
  ec_at :: string

record env_db =
  ev_rows :: "env_entry list"
  ev_controls :: "env_control list"
  ev_proofs :: "(string \<times> ustr) list"
  ev_next :: nat

record beat_request =
  hb_id :: string
  hb_hostname :: string
  hb_label :: string
  hb_machine :: string
  hb_os :: string
  hb_kind :: string
  hb_bridge :: string
  hb_version :: string
  hb_launcher :: string
  hb_fingerprint :: string
  hb_roots :: "string list option"
  hb_runtimes :: "json list option"
  hb_terminal :: "bool option"
  hb_pty :: "bool option"
  hb_terminal_runtimes :: "string list option"
  hb_status :: string
  hb_meta :: meta

text \<open>The time as it is written and in seconds, the same 120 seconds and 300 seconds away, the reader of stamps in its three uses, and the
  spelling of values.\<close>

record beat_env =
  be_now :: string
  be_clock :: int
  be_ahead :: string
  be_cutoff :: string
  be_iso :: "string \<Rightarrow> string option"
  be_epoch :: "string \<Rightarrow> int"
  be_read :: stamp_reader
  be_spell :: "json \<Rightarrow> string"

text \<open>\<open>str(value or "")\<close>.\<close>

definition text_of :: "beat_env \<Rightarrow> json \<Rightarrow> string" where
  "text_of e j = (if truthy j then (case j of JStr s \<Rightarrow> s | _ \<Rightarrow> be_spell e j) else [])"

definition mget :: "meta \<Rightarrow> string \<Rightarrow> json" where
  "mget m k = (case dget m k of Some j \<Rightarrow> j | None \<Rightarrow> JNull)"

definition timestamp_sort_key :: "beat_env \<Rightarrow> string \<Rightarrow> string" where
  "timestamp_sort_key e value = (let raw = py_strip value in
     if raw = [] then [] else (case be_iso e raw of Some t \<Rightarrow> t | None \<Rightarrow> value))"

definition parsed_timestamp :: "beat_env \<Rightarrow> string \<Rightarrow> string" where
  "parsed_timestamp e value = (let raw = py_strip value; normalized = timestamp_sort_key e raw in
     if raw = [] \<or> normalized = raw \<and> be_epoch e raw = 0 then [] else normalized)"

text \<open>Python compares texts by their code points.\<close>

definition later :: "string \<Rightarrow> string \<Rightarrow> bool" where
  "later a b = (lit a > lit b)"

subsection \<open>What a heartbeat says\<close>

definition canonical_runtimes :: "beat_env \<Rightarrow> json list \<Rightarrow> json list" where
  "canonical_runtimes e = map (\<lambda>row. case row of
       JObj fs \<Rightarrow> (let name = normalize_runtime (text_of e (jget row ''runtime'')) in
                   if name \<noteq> [] then JObj (dput ''runtime'' (JStr name) fs) else row)
     | _ \<Rightarrow> row)"

definition derived_environment_id :: "string \<Rightarrow> string \<Rightarrow> string" where
  "derived_environment_id kind hostname = (let k = py_strip kind; h = py_strip hostname in
     if k = [] \<or> h = [] then [] else k @ '':'' @ h @ '':default'')"

definition is_bridge_key :: "string \<Rightarrow> bool" where
  "is_bridge_key k = prefix ''bridge'' k"

definition BRIDGE_OWNED_METADATA :: "string list" where
  "BRIDGE_OWNED_METADATA = [''bridgeStartedAt'', ''bridgeLastSeen'', ''bridgeBuild'']"

definition bridge_owned_metadata_keys :: "meta \<Rightarrow> string list" where
  "bridge_owned_metadata_keys m = fromkeys [] (BRIDGE_OWNED_METADATA @ filter is_bridge_key (map fst m))"

definition bridge_started_at :: "beat_env \<Rightarrow> meta \<Rightarrow> string" where
  "bridge_started_at e m = parsed_timestamp e (text_of e (mget m ''bridgeStartedAt''))"

definition is_host_tier :: "beat_env \<Rightarrow> meta \<Rightarrow> bool" where
  "is_host_tier e m = (norm_word (text_of e (mget m ''bridgeKind'')) = ''aify-env'')"

definition root_key :: "string \<Rightarrow> string" where
  "root_key s = py_lower (rev (dropWhile (\<lambda>c. c = CHR ''/'') (rev (map (\<lambda>c. if c = CHR 0x5C then CHR ''/'' else c) s))))"

fun normalize_root_list :: "string list \<Rightarrow> string list \<Rightarrow> string list" where
  "normalize_root_list seen [] = []"
| "normalize_root_list seen (root # roots) =
     (let value = py_strip root in
      if value = [] \<or> prefix ''-'' value \<or> root_key value \<in> set seen then normalize_root_list seen roots
      else value # normalize_root_list (root_key value # seen) roots)"

definition normalize_roots :: "string list \<Rightarrow> string list" where
  "normalize_roots = normalize_root_list []"

definition ENVIRONMENT_REGISTRABLE_STATUSES :: "string list" where
  "ENVIRONMENT_REGISTRABLE_STATUSES = [''online'', ''degraded'', ''offline'']"

record environment_beat =
  bt_env :: string
  bt_req :: beat_request
  bt_roots :: "string list option"
  bt_runtimes :: "json list option"
  bt_meta :: meta
  bt_held :: "json option"
  bt_status :: string

definition bounded_start :: "beat_env \<Rightarrow> meta \<Rightarrow> meta" where
  "bounded_start e m =
     (if truthy (mget m ''bridgeStartedAt'')
      then (let claimed = bridge_started_at e m; ceiling = parsed_timestamp e (be_ahead e) in
            if claimed \<noteq> [] \<and> ceiling \<noteq> [] \<and> later claimed ceiling then dput ''bridgeStartedAt'' (JStr ceiling) m else m)
      else m)"

definition host_facts :: "beat_request \<Rightarrow> meta \<Rightarrow> meta" where
  "host_facts q m =
     (let m1 = (case hb_terminal q of Some b \<Rightarrow> dput ''terminal'' (JBool b) m | None \<Rightarrow> m);
          m2 = (case hb_pty q of Some b \<Rightarrow> dput ''pty'' (JBool b) m1 | None \<Rightarrow> m1) in
      case hb_terminal_runtimes q of
        Some rs \<Rightarrow> dput ''terminalRuntimes'' (JList (map (JStr \<circ> normalize_runtime) (filter (\<lambda>r. py_strip r \<noteq> []) rs))) m2
      | None \<Rightarrow> m2)"

definition from_request :: "beat_env \<Rightarrow> beat_request \<Rightarrow> string \<Rightarrow> environment_beat" where
  "from_request e q env_id =
     (let requested = norm_word (or_else (hb_status q) ''online'') in
      \<lparr>bt_env = env_id, bt_req = q, bt_roots = map_option normalize_roots (hb_roots q), bt_runtimes = map_option (canonical_runtimes e) (hb_runtimes q),
       bt_meta = host_facts q (bounded_start e (ddel ''heldTerminals'' (hb_meta q))),
       bt_held = dget (hb_meta q) ''heldTerminals'',
       bt_status = (if requested \<in> set ENVIRONMENT_REGISTRABLE_STATUSES then requested else ''online'')\<rparr>)"

text \<open>Whether the beat speaks for a bridge.\<close>

definition beat_bridge :: "environment_beat \<Rightarrow> string" where
  "beat_bridge b = py_strip (hb_bridge (bt_req b))"

subsection \<open>What the row becomes\<close>

record stored_merge =
  sm_roots :: json
  sm_runtimes :: json
  sm_meta :: meta

definition stored_meta :: "env_entry option \<Rightarrow> meta" where
  "stored_meta ex = (case ex of Some r \<Rightarrow> ev_meta r | None \<Rightarrow> [])"

text \<open>\<open>d.setdefault(k, ...)\<close> from another dict that has the key.\<close>

definition keep_key :: "meta \<Rightarrow> string \<Rightarrow> meta \<Rightarrow> meta" where
  "keep_key old k m = (case (dget old k, dget m k) of (Some j, None) \<Rightarrow> dput k j m | _ \<Rightarrow> m)"

definition merged_meta :: "beat_env \<Rightarrow> environment_beat \<Rightarrow> env_entry option \<Rightarrow> meta" where
  "merged_meta e b ex =
     (let old = stored_meta ex; q = bt_req b;
          advertised = (case bt_roots b of Some rs \<Rightarrow> JList (map JStr rs) | None \<Rightarrow> (case dget old ''advertisedCwdRoots'' of Some j \<Rightarrow> j | None \<Rightarrow> JList []));
          m0 = (if beat_bridge b = [] then filter (\<lambda>(k, _). \<not> is_bridge_key k) (bt_meta b) else bt_meta b);
          m1 = keep_key old ''launchRoots'' (dput ''advertisedCwdRoots'' advertised m0);
          m2 = (if beat_bridge b \<noteq> [] then dput ''bridgeLastSeen'' (JStr (be_now e)) m1 else fold (keep_key old) (bridge_owned_metadata_keys old) m1);
          m3 = fold (keep_key old) ((if hb_terminal q = None then [''terminal''] else []) @ (if hb_pty q = None then [''pty''] else [])
                 @ (if hb_terminal_runtimes q = None then [''terminalRuntimes''] else [])) m2 in
      if truthy (mget old ''manualRoots'')
      then dput ''manualRootsUpdatedBy'' (case dget old ''manualRootsUpdatedBy'' of Some j \<Rightarrow> j | None \<Rightarrow> JStr [])
             (dput ''manualRootsUpdatedAt'' (case dget old ''manualRootsUpdatedAt'' of Some j \<Rightarrow> j | None \<Rightarrow> JStr []) (dput ''manualRoots'' (JBool True) m3))
      else m3)"

definition merge_with_stored :: "beat_env \<Rightarrow> environment_beat \<Rightarrow> env_entry option \<Rightarrow> stored_merge" where
  "merge_with_stored e b ex =
     (let stored_roots = (case ex of Some r \<Rightarrow> ev_roots r | None \<Rightarrow> JList []) in
      \<lparr>sm_roots = (if truthy (mget (stored_meta ex) ''manualRoots'') \<and> ex \<noteq> None then stored_roots
                    else (case bt_roots b of None \<Rightarrow> stored_roots | Some rs \<Rightarrow> JList (map JStr rs))),
       sm_runtimes = (case bt_runtimes b of Some rs \<Rightarrow> JList rs | None \<Rightarrow> (case ex of Some r \<Rightarrow> ev_runtimes r | None \<Rightarrow> JList [])),
       sm_meta = merged_meta e b ex\<rparr>)"

datatype claim_refusal = Host_Tier_Holds | Later_Bridge_Holds | Not_An_Online_Beat
datatype claim_arbitration = Refused_Claim claim_refusal | Admitted string

text \<open>Arbitration reads the start times as texts, empty when there is none.\<close>

definition incumbent_started :: "beat_env \<Rightarrow> env_entry \<Rightarrow> string" where
  "incumbent_started e r =
     (if environment_has_live_bridge (be_read e) (be_clock e) SPAWN_CLAIMER_FRESH_SECONDS (lit (text_of e (mget (ev_meta r) ''bridgeLastSeen''))) None
      then bridge_started_at e (ev_meta r) else [])"

definition arbitrate_claim :: "beat_env \<Rightarrow> environment_beat \<Rightarrow> env_entry option \<Rightarrow> claim_arbitration" where
  "arbitrate_claim e b ex =
     (case ex of
        None \<Rightarrow> Admitted []
      | Some r \<Rightarrow>
          let holder = py_strip (ev_bridge r); incoming = beat_bridge b in
          if holder = [] \<or> incoming = [] \<or> holder = incoming then Admitted []
          else
            let held_since = incumbent_started e r; started = bridge_started_at e (bt_meta b);
                host_in = is_host_tier e (bt_meta b); host_ex = is_host_tier e (ev_meta r);
                ranked = host_in \<and> \<not> host_ex;
                held = (if ranked then [] else held_since) in
            if host_ex \<and> \<not> host_in then Refused_Claim Host_Tier_Holds
            else if held \<noteq> [] \<and> (started = [] \<or> later held started) then Refused_Claim Later_Bridge_Holds
            else if bt_status b \<noteq> ''online'' then Refused_Claim Not_An_Online_Beat
            else Admitted (if ranked \<or> started \<noteq> [] \<and> (held = [] \<or> later started held) then holder else []))"

definition kept :: "string \<Rightarrow> string \<Rightarrow> string" where
  "kept incoming stored = or_else (py_strip incoming) stored"

definition incoming_bridge_version :: "environment_beat \<Rightarrow> meta \<Rightarrow> string" where
  "incoming_bridge_version b m =
     (if beat_bridge b = [] then []
      else or_else (py_strip (hb_version (bt_req b))) (case mget m ''bridgeVersion'' of JStr s \<Rightarrow> py_strip s | _ \<Rightarrow> []))"

definition updated_entry :: "beat_env \<Rightarrow> environment_beat \<Rightarrow> stored_merge \<Rightarrow> env_entry \<Rightarrow> env_entry" where
  "updated_entry e b s r = (let q = bt_req b in
     r\<lparr>ev_label := or_else (kept (hb_label q) (ev_label r)) (bt_env b), ev_machine := kept (hb_machine q) (ev_machine r), ev_os := kept (hb_os q) (ev_os r),
       ev_kind := kept (hb_kind q) (ev_kind r), ev_bridge := kept (hb_bridge q) (ev_bridge r), ev_version := kept (incoming_bridge_version b (sm_meta s)) (ev_version r),
       ev_launcher := kept (hb_launcher q) (ev_launcher r), ev_fingerprint := kept (hb_fingerprint q) (ev_fingerprint r), ev_roots := sm_roots s,
       ev_runtimes := sm_runtimes s, ev_status := bt_status b, ev_meta := sm_meta s, ev_last_seen := be_now e\<rparr>)"

definition new_entry :: "beat_env \<Rightarrow> environment_beat \<Rightarrow> stored_merge \<Rightarrow> env_entry" where
  "new_entry e b s = (let q = bt_req b in
     \<lparr>ev_id = bt_env b, ev_label = or_else (hb_label q) (bt_env b), ev_machine = hb_machine q, ev_os = hb_os q, ev_kind = hb_kind q, ev_bridge = hb_bridge q,
      ev_version = incoming_bridge_version b (sm_meta s), ev_launcher = hb_launcher q, ev_fingerprint = hb_fingerprint q, ev_roots = sm_roots s, ev_runtimes = sm_runtimes s,
      ev_status = bt_status b, ev_meta = sm_meta s, ev_registered_at = be_now e, ev_last_seen = be_now e\<rparr>)"

definition entry_of :: "string \<Rightarrow> env_db \<Rightarrow> env_entry option" where
  "entry_of i x = find (\<lambda>r. ev_id r = i) (ev_rows x)"

definition update_entry :: "string \<Rightarrow> (env_entry \<Rightarrow> env_entry) \<Rightarrow> env_db \<Rightarrow> env_db" where
  "update_entry i f x = x\<lparr>ev_rows := map (\<lambda>r. if ev_id r = i then f r else r) (ev_rows x)\<rparr>"

definition record_environment_registration :: "beat_env \<Rightarrow> environment_beat \<Rightarrow> stored_merge \<Rightarrow> env_entry option \<Rightarrow> env_db \<Rightarrow> env_db" where
  "record_environment_registration e b s ex x = (case ex of
     Some _ \<Rightarrow> update_entry (bt_env b) (updated_entry e b s) x
   | None \<Rightarrow> x\<lparr>ev_rows := ev_rows x @ [new_entry e b s]\<rparr>)"

definition add_control :: "string \<Rightarrow> string \<Rightarrow> string \<Rightarrow> string \<Rightarrow> string \<Rightarrow> string \<Rightarrow> env_db \<Rightarrow> env_db" where
  "add_control env bridge machine action by at x = x\<lparr>ev_next := Suc (ev_next x),
     ev_controls := ev_controls x @ [\<lparr>ec_id = ''envctl-'' @ nat_str (ev_next x), ec_env = env, ec_bridge = bridge, ec_machine = machine, ec_action = action,
        ec_status = ''pending'', ec_by = by, ec_at = at\<rparr>]\<rparr>"

definition SUPERSEDED_BRIDGE :: string where "SUPERSEDED_BRIDGE = ''server:superseded-bridge''"

definition stale_stop :: "beat_env \<Rightarrow> string \<Rightarrow> env_control \<Rightarrow> bool" where
  "stale_stop e env k = (ec_env k = env \<and> ec_action k = ''stop'' \<and> ec_status k = ''pending'' \<and> ec_by k = SUPERSEDED_BRIDGE \<and> later (be_cutoff e) (ec_at k))"

definition open_stop :: "string \<Rightarrow> string \<Rightarrow> env_control \<Rightarrow> bool" where
  "open_stop env bridge k = (ec_env k = env \<and> ec_bridge k = bridge \<and> ec_action k = ''stop'' \<and> ec_status k \<in> {''pending'', ''claimed''})"

definition queue_stop_for_superseded_bridge :: "beat_env \<Rightarrow> string \<Rightarrow> string \<Rightarrow> string \<Rightarrow> env_db \<Rightarrow> env_db" where
  "queue_stop_for_superseded_bridge e env superseded machine x =
     (if superseded = [] then x
      else (let x1 = x\<lparr>ev_controls := map (\<lambda>k. if stale_stop e env k then k\<lparr>ec_status := ''failed''\<rparr> else k) (ev_controls x)\<rparr> in
            if list_ex (open_stop env superseded) (ev_controls x1) then x1
            else add_control env superseded machine ''stop'' SUPERSEDED_BRIDGE (be_now e) x1))"

datatype heartbeat_outcome = Id_Missing | Proof_Refused | Still_Forgotten | Claim_Lost claim_refusal | Written

definition relaunched :: "beat_env \<Rightarrow> environment_beat \<Rightarrow> env_entry \<Rightarrow> bool" where
  "relaunched e b r = (let forgotten_at = timestamp_sort_key e (text_of e (mget (ev_meta r) ''forgottenAt'')); started = bridge_started_at e (bt_meta b) in
     started \<noteq> [] \<and> (forgotten_at = [] \<or> later started forgotten_at))"

definition write_beat :: "(ustr \<Rightarrow> ustr) \<Rightarrow> beat_env \<Rightarrow> environment_beat \<Rightarrow> ustr \<Rightarrow> string \<Rightarrow> env_db \<Rightarrow> env_db" where
  "write_beat digest e b presented superseded x =
     (let ex = entry_of (bt_env b) x;
          verdict = judge_host_proof digest (ev_proofs x) [case ex of Some r \<Rightarrow> ev_machine r | None \<Rightarrow> [], hb_machine (bt_req b)] presented;
          x1 = record_environment_registration e b (merge_with_stored e b ex) ex x;
          x2 = queue_stop_for_superseded_bridge e (bt_env b) superseded (hb_machine (bt_req b)) x1 in
      x2\<lparr>ev_proofs := enroll_host_proof digest verdict presented (ev_proofs x2)\<rparr>)"

definition record_environment_heartbeat :: "(ustr \<Rightarrow> ustr) \<Rightarrow> beat_env \<Rightarrow> environment_beat \<Rightarrow> ustr \<Rightarrow> env_db \<Rightarrow> heartbeat_outcome \<times> env_db" where
  "record_environment_heartbeat digest e b presented x =
     (let ex = entry_of (bt_env b) x in
      case judge_host_proof digest (ev_proofs x) [case ex of Some r \<Rightarrow> ev_machine r | None \<Rightarrow> [], hb_machine (bt_req b)] presented of
        Refuses _ \<Rightarrow> (Proof_Refused, x)
      | Accepts _ \<Rightarrow>
          if (case ex of Some r \<Rightarrow> norm_word (ev_status r) = ''forgotten'' \<and> \<not> relaunched e b r | None \<Rightarrow> False) then (Still_Forgotten, x)
          else (case arbitrate_claim e b ex of
              Refused_Claim why \<Rightarrow> (Claim_Lost why, x)
            | Admitted superseded \<Rightarrow> (Written, write_beat digest e b presented superseded x)))"

definition environment_heartbeat :: "(ustr \<Rightarrow> ustr) \<Rightarrow> beat_env \<Rightarrow> beat_request \<Rightarrow> ustr \<Rightarrow> env_db \<Rightarrow> heartbeat_outcome \<times> env_db" where
  "environment_heartbeat digest e q presented x =
     (let i = or_else (py_strip (hb_id q)) (derived_environment_id (hb_kind q) (hb_hostname q)) in
      if i = [] then (Id_Missing, x) else record_environment_heartbeat digest e (from_request e q i) presented x)"

subsection \<open>The operator\<close>

datatype env_refusal = No_Environment | No_Roots | Governs_Definitions | Has_Defined_Agents | Bad_Action

definition update_environment_roots :: "beat_env \<Rightarrow> string \<Rightarrow> string list option \<Rightarrow> bool \<Rightarrow> string \<Rightarrow> env_db \<Rightarrow> env_refusal + env_db" where
  "update_environment_roots e i roots reset actor x =
     (case entry_of i x of
        None \<Rightarrow> Inl No_Environment
      | Some r \<Rightarrow>
          if reset
          then (let advertised = mget (ev_meta r) ''advertisedCwdRoots''; listed = (if truthy advertised then advertised else ev_roots r);
                    texts = (case listed of JList js \<Rightarrow> map (text_of e) js | _ \<Rightarrow> []);
                    m = filter (\<lambda>(k, _). k \<notin> {''manualRoots'', ''manualRootsUpdatedAt'', ''manualRootsUpdatedBy''}) (ev_meta r) in
                Inr (update_entry i (\<lambda>r. r\<lparr>ev_roots := JList (map JStr (normalize_roots texts)), ev_last_seen := be_now e,
                  ev_meta := dput ''manualRootsResetBy'' (JStr actor) (dput ''manualRootsResetAt'' (JStr (be_now e)) (dput ''manualRoots'' (JBool False) m))\<rparr>) x))
          else (let rs = normalize_roots (case roots of Some rs \<Rightarrow> rs | None \<Rightarrow> []) in
                if rs = [] then Inl No_Roots
                else Inr (update_entry i (\<lambda>r. r\<lparr>ev_roots := JList (map JStr rs), ev_last_seen := be_now e,
                  ev_meta := dput ''previousCwdRoots'' (ev_roots r) (dput ''manualRootsUpdatedBy'' (JStr actor)
                    (dput ''manualRootsUpdatedAt'' (JStr (be_now e)) (dput ''manualRoots'' (JBool True) (ev_meta r))))\<rparr>) x)))"

text \<open>Whether definitions of the environment's host still govern, and whether it has sessions of defined agents, are read from other tables.\<close>

definition control_environment :: "beat_env \<Rightarrow> string \<Rightarrow> string \<Rightarrow> string \<Rightarrow> bool \<Rightarrow> bool \<Rightarrow> env_db \<Rightarrow> env_refusal + env_db" where
  "control_environment e i act actor governs defines x =
     (let action = norm_word act in
      if action \<notin> {''stop'', ''forget''} then Inl Bad_Action
      else (case entry_of i x of
          None \<Rightarrow> Inl No_Environment
        | Some r \<Rightarrow>
            if action = ''forget''
            then if governs then Inl Governs_Definitions
                 else Inr (update_entry i (\<lambda>r. r\<lparr>ev_status := ''forgotten'', ev_bridge := [], ev_version := [], ev_runtimes := JList [],
                   ev_meta := dput ''forgottenBy'' (JStr actor) (dput ''forgottenAt'' (JStr (be_now e)) (ev_meta r)), ev_last_seen := be_now e\<rparr>)
                   (x\<lparr>ev_controls := filter (\<lambda>k. ec_env k \<noteq> i) (ev_controls x)\<rparr>))
            else if defines then Inl Has_Defined_Agents
            else Inr (update_entry i (\<lambda>r. r\<lparr>ev_status := ''disabled''\<rparr>) (add_control i (ev_bridge r) (ev_machine r) action actor (be_now e) x))))"

subsection \<open>The claim of a control\<close>

record control_claim =
  cc_env :: string
  cc_bridge :: string
  cc_machine :: string

text \<open>Whether the bridge that owns the environment must not honour the control.\<close>

definition must_not_honour :: "beat_env \<Rightarrow> control_claim \<Rightarrow> env_entry option \<Rightarrow> env_control \<Rightarrow> bool" where
  "must_not_honour e q ex k =
     (let owner = (case ex of Some r \<Rightarrow> py_strip (ev_bridge r) | None \<Rightarrow> []);
          started = text_of e (mget (stored_meta ex) ''bridgeStartedAt'') in
      ec_action k = ''stop'' \<and> owner \<noteq> [] \<and> owner = cc_bridge q
      \<and> (ec_by k = SUPERSEDED_BRIDGE \<or> be_epoch e (ec_at k) > 0 \<and> be_epoch e started > 0 \<and> be_epoch e (ec_at k) < be_epoch e started))"

text \<open>The oldest pending control of the environment that is addressed to the bridge or to any.\<close>

definition first_pending :: "control_claim \<Rightarrow> env_db \<Rightarrow> env_control option" where
  "first_pending q x =
     (case sort_key (lit \<circ> ec_at) (filter (\<lambda>k. ec_env k = cc_env q \<and> ec_status k = ''pending'' \<and> (ec_bridge k = [] \<or> ec_bridge k = cc_bridge q)) (ev_controls x)) of
        [] \<Rightarrow> None | k # _ \<Rightarrow> Some k)"

lemma first_pending_spec:
  assumes "first_pending q x = Some k"
  shows "k \<in> set (ev_controls x)" "ec_env k = cc_env q" "ec_status k = ''pending''" "ec_bridge k = [] \<or> ec_bridge k = cc_bridge q"
proof -
  let ?rows = "filter (\<lambda>k. ec_env k = cc_env q \<and> ec_status k = ''pending'' \<and> (ec_bridge k = [] \<or> ec_bridge k = cc_bridge q)) (ev_controls x)"
  from assms obtain rest where o: "sort_key (lit \<circ> ec_at) ?rows = k # rest" by (auto simp: first_pending_def split: list.splits)
  have "set (k # rest) = set ?rows" using arg_cong [OF o, of set] by simp
  then have "k \<in> set ?rows" by auto
  then show "k \<in> set (ev_controls x)" "ec_env k = cc_env q" "ec_status k = ''pending''" "ec_bridge k = [] \<or> ec_bridge k = cc_bridge q" by auto
qed

text \<open>\<open>UPDATE environment_controls SET status = ... WHERE id = ? AND status = 'pending'\<close>.\<close>

definition set_pending :: "string \<Rightarrow> string \<Rightarrow> env_db \<Rightarrow> env_db" where
  "set_pending i status x = x\<lparr>ev_controls := map (\<lambda>k. if ec_id k = i \<and> ec_status k = ''pending'' then k\<lparr>ec_status := status\<rparr> else k) (ev_controls x)\<rparr>"

definition take_control :: "env_control \<Rightarrow> env_db \<Rightarrow> env_control option \<times> env_db" where
  "take_control k x = (if filter (\<lambda>y. ec_id y = ec_id k \<and> ec_status y = ''pending'') (ev_controls x) = [] then (None, x)
     else (Some k, set_pending (ec_id k) ''claimed'' x))"

lemma void_shrinks:
  assumes "first_pending q x = Some k"
  shows "length (filter (\<lambda>y. ec_status y = ''pending'') (ev_controls (set_pending (ec_id k) ''failed'' x))) < length (filter (\<lambda>y. ec_status y = ''pending'') (ev_controls x))"
proof -
  note k = first_pending_spec(1,3) [OF assms]
  define f :: "env_control \<Rightarrow> env_control" where "f = (\<lambda>y. if ec_id y = ec_id k \<and> ec_status y = ''pending'' then y\<lparr>ec_status := ''failed''\<rparr> else y)"
  have f: "ev_controls (set_pending (ec_id k) ''failed'' x) = map f (ev_controls x)" by (simp add: set_pending_def f_def)
  have le: "length (filter (\<lambda>y. ec_status y = ''pending'') (map f ks)) \<le> length (filter (\<lambda>y. ec_status y = ''pending'') ks)" for ks
    by (induction ks) (auto simp: f_def)
  have "length (filter (\<lambda>y. ec_status y = ''pending'') (map f ks)) < length (filter (\<lambda>y. ec_status y = ''pending'') ks)" if "k \<in> set ks" for ks
    using that
  proof (induction ks)
    case (Cons a ks)
    have fk: "ec_status (f k) = ''failed''" by (simp add: f_def k(2))
    show ?case
    proof (cases "a = k")
      case True
      then have "length (filter (\<lambda>y. ec_status y = ''pending'') (map f (a # ks))) = length (filter (\<lambda>y. ec_status y = ''pending'') (map f ks))" using fk by simp
      also have "\<dots> < length (filter (\<lambda>y. ec_status y = ''pending'') (a # ks))" using le [of ks] True k(2) by simp
      finally show ?thesis .
    next
      case False
      then have "length (filter (\<lambda>y. ec_status y = ''pending'') (map f ks)) < length (filter (\<lambda>y. ec_status y = ''pending'') ks)" using Cons by simp
      moreover have "ec_status (f a) = ''pending'' \<Longrightarrow> ec_status a = ''pending''" by (simp add: f_def split: if_splits)
      ultimately show ?thesis by (simp add: less_SucI)
    qed
  qed simp
  then show ?thesis using k(1) f by simp
qed

definition update_environment_control :: "string \<Rightarrow> string \<Rightarrow> env_db \<Rightarrow> env_db option" where
  "update_environment_control i status x =
     (let s = norm_word status in
      if s \<notin> {''completed'', ''failed''} then None
      else Some (x\<lparr>ev_controls := map (\<lambda>k. if ec_id k = i then k\<lparr>ec_status := s\<rparr> else k) (ev_controls x)\<rparr>))"

text \<open>Whether an environment can still act: a heartbeat status that has not aged. A stamp that does not look like one does not age it. The
  sweep fails the controls of environments that cannot, or that have another bridge now.\<close>

definition is_digit :: "char \<Rightarrow> bool" where
  "is_digit c = (CHR ''0'' \<le> c \<and> c \<le> CHR ''9'')"

definition canonical_stamp :: "string \<Rightarrow> bool" where
  "canonical_stamp s = (length s = 19 \<and> list_all2 (\<lambda>p c. if p = CHR ''0'' then is_digit c else c = p) ''0000-00-00T00:00:00'' s)"

definition environment_actionable :: "string \<Rightarrow> env_entry \<Rightarrow> bool" where
  "environment_actionable cutoff r = (ev_status r \<in> {''online'', ''degraded''}
     \<and> (\<not> canonical_stamp (take 19 (ev_last_seen r)) \<or> \<not> later (take 19 cutoff) (take 19 (ev_last_seen r))))"

definition reachable_bridge :: "string \<Rightarrow> string \<Rightarrow> string \<Rightarrow> env_db \<Rightarrow> bool" where
  "reachable_bridge cutoff env bridge x = (case entry_of env x of Some r \<Rightarrow> ev_bridge r = bridge \<and> environment_actionable cutoff r | None \<Rightarrow> False)"

definition fail_unreachable_environment_controls :: "string \<Rightarrow> env_db \<Rightarrow> env_db" where
  "fail_unreachable_environment_controls cutoff x = x\<lparr>ev_controls := map (\<lambda>k. if ec_status k \<in> {''pending'', ''claimed''}
     \<and> \<not> reachable_bridge cutoff (ec_env k) (ec_bridge k) x then k\<lparr>ec_status := ''failed''\<rparr> else k) (ev_controls x)\<rparr>"

subsection \<open>Terminals the host no longer holds\<close>

record held_row =
  hr_id :: string
  hr_status :: string
  hr_updated_at :: string
  hr_command :: string
  hr_bridge :: string

definition HELD_TERMINALS_GRACE_SECONDS :: int where "HELD_TERMINALS_GRACE_SECONDS = 20"
definition PEER_SILENCE_SECONDS :: int where "PEER_SILENCE_SECONDS = 90"

definition CONFIRMED_STATUSES :: "string list" where
  "CONFIRMED_STATUSES = filter (\<lambda>s. s \<noteq> ''starting'') TERMINAL_ACTIVE_STATUSES"

definition VIRTUAL_RPC_COMMAND_SET :: "string list" where
  "VIRTUAL_RPC_COMMAND_SET = [''aify://virtual-rpc/pi'', ''aify://virtual-rpc/hermes'', ''aify://virtual-rpc/codex'', ''aify://virtual-rpc/opencode'']"

fun terminals_the_host_no_longer_holds :: "(string \<Rightarrow> int) \<Rightarrow> int \<Rightarrow> int \<Rightarrow> string \<Rightarrow> string list \<Rightarrow> held_row list \<Rightarrow> string list" where
  "terminals_the_host_no_longer_holds epoch now grace bridge named [] = []"
| "terminals_the_host_no_longer_holds epoch now grace bridge named (r # rows) =
     (let rest = terminals_the_host_no_longer_holds epoch now grace bridge named rows;
          wait = (if bridge \<noteq> [] \<and> py_strip (hr_bridge r) = bridge then grace else PEER_SILENCE_SECONDS);
          touched = epoch (hr_updated_at r) in
      if hr_id r = [] \<or> hr_id r \<in> set named then rest
      else if norm_word (hr_status r) \<notin> set CONFIRMED_STATUSES then rest
      else if prefix ''vterm_'' (hr_id r) \<or> hr_command r \<in> set VIRTUAL_RPC_COMMAND_SET then rest
      else if wait \<noteq> 0 \<and> (touched = 0 \<or> now - touched \<le> wait) then rest
      else hr_id r # rest)"

text \<open>A list that is not there, or is no list, ends nothing; an offline beat takes no grace.\<close>

definition ended_by_beat :: "beat_env \<Rightarrow> environment_beat \<Rightarrow> held_row list \<Rightarrow> string list" where
  "ended_by_beat e b rows =
     (if beat_bridge b = [] then []
      else (case bt_held b of
          Some (JList js) \<Rightarrow> terminals_the_host_no_longer_holds (be_epoch e) (be_clock e) (if bt_status b = ''offline'' then 0 else HELD_TERMINALS_GRACE_SECONDS)
             (beat_bridge b) (map (\<lambda>j. case j of JStr s \<Rightarrow> s | _ \<Rightarrow> be_spell e j) js) rows
        | _ \<Rightarrow> []))"

subsection \<open>Who holds the row\<close>

lemma find_update_entry: "(\<And>r. ev_id (f r) = ev_id r) \<Longrightarrow> find (\<lambda>r. ev_id r = i) (map (\<lambda>r. if ev_id r = j then f r else r) rs)
    = (if i = j then map_option f (find (\<lambda>r. ev_id r = i) rs) else find (\<lambda>r. ev_id r = i) rs)"
  by (induction rs) auto

lemma entry_of_update [simp]: "(\<And>r. ev_id (f r) = ev_id r) \<Longrightarrow> entry_of i (update_entry j f x) = (if i = j then map_option f (entry_of i x) else entry_of i x)"
  by (simp add: entry_of_def update_entry_def find_update_entry)

lemma updated_entry_id [simp]: "ev_id (updated_entry e b s r) = ev_id r"
  by (simp add: updated_entry_def Let_def)

lemma entry_of_other [simp]: "entry_of i (x\<lparr>ev_controls := ks\<rparr>) = entry_of i x" "entry_of i (x\<lparr>ev_proofs := ps\<rparr>) = entry_of i x" "entry_of i (x\<lparr>ev_next := n\<rparr>) = entry_of i x"
  by (simp_all add: entry_of_def)

lemma entry_of_stop [simp]: "entry_of i (queue_stop_for_superseded_bridge e env b m x) = entry_of i x" "entry_of i (add_control env b m act by t x) = entry_of i x"
  by (auto simp: entry_of_def queue_stop_for_superseded_bridge_def add_control_def Let_def)

lemma entry_of_write:
  assumes "entry_of (bt_env b) x = Some r"
  shows "entry_of i (write_beat digest e b presented s x)
    = (if i = bt_env b then Some (updated_entry e b (merge_with_stored e b (Some r)) r) else entry_of i x)"
  using assms by (simp add: write_beat_def record_environment_registration_def Let_def)

lemma find_append_other: "(\<And>z. z \<in> set zs \<Longrightarrow> \<not> P z) \<Longrightarrow> find P (ys @ zs) = find P ys"
  by (induction ys) (auto simp: find_None_iff)

lemma entry_of_insert:
  assumes "entry_of (bt_env b) x = None" and "i \<noteq> bt_env b"
  shows "entry_of i (write_beat digest e b presented s x) = entry_of i x"
proof -
  have "entry_of i (x\<lparr>ev_rows := ev_rows x @ [new_entry e b m]\<rparr>) = entry_of i x" for m
    unfolding entry_of_def using assms(2) by (simp, intro find_append_other) (auto simp: new_entry_def Let_def)
  then show ?thesis using assms(1) by (simp add: write_beat_def record_environment_registration_def Let_def)
qed

text \<open>What a heartbeat comes to: nothing, or an admitted write.\<close>

lemma heartbeat_cases:
  assumes "record_environment_heartbeat digest e b presented x = (out, y)"
  obtains "y = x" "out \<noteq> Written"
  | ms s where "judge_host_proof digest (ev_proofs x) [case entry_of (bt_env b) x of Some r \<Rightarrow> ev_machine r | None \<Rightarrow> [], hb_machine (bt_req b)] presented = Accepts ms"
      "case entry_of (bt_env b) x of Some r \<Rightarrow> norm_word (ev_status r) = ''forgotten'' \<longrightarrow> relaunched e b r | None \<Rightarrow> True"
      "arbitrate_claim e b (entry_of (bt_env b) x) = Admitted s" "y = write_beat digest e b presented s x" "out = Written"
proof (cases "judge_host_proof digest (ev_proofs x) [case entry_of (bt_env b) x of Some r \<Rightarrow> ev_machine r | None \<Rightarrow> [], hb_machine (bt_req b)] presented")
  case (Refuses m)
  then show thesis using assms that(1) unfolding record_environment_heartbeat_def Let_def by simp
next
  case (Accepts ms)
  let ?lingers = "case entry_of (bt_env b) x of Some r \<Rightarrow> norm_word (ev_status r) = ''forgotten'' \<and> \<not> relaunched e b r | None \<Rightarrow> False"
  show thesis
  proof (cases ?lingers)
    case True
    then show thesis using assms Accepts that(1) unfolding record_environment_heartbeat_def Let_def by simp
  next
    case False
    then have f: "case entry_of (bt_env b) x of Some r \<Rightarrow> norm_word (ev_status r) = ''forgotten'' \<longrightarrow> relaunched e b r | None \<Rightarrow> True"
      by (cases "entry_of (bt_env b) x") auto
    show thesis
    proof (cases "arbitrate_claim e b (entry_of (bt_env b) x)")
      case (Refused_Claim why)
      then show thesis using assms Accepts False that(1) unfolding record_environment_heartbeat_def Let_def by auto
    next
      case (Admitted s)
      then show thesis using assms Accepts False that(2) [OF Accepts f Admitted] unfolding record_environment_heartbeat_def Let_def by simp
    qed
  qed
qed

lemma admitted_rival:
  assumes "arbitrate_claim e b (Some r) = Admitted s" and "py_strip (ev_bridge r) \<noteq> []" and "beat_bridge b \<noteq> []" and "py_strip (ev_bridge r) \<noteq> beat_bridge b"
  shows "bt_status b = ''online''" and "is_host_tier e (ev_meta r) \<Longrightarrow> is_host_tier e (bt_meta b)"
    and "incumbent_started e r = [] \<or> is_host_tier e (bt_meta b) \<and> \<not> is_host_tier e (ev_meta r)
       \<or> bridge_started_at e (bt_meta b) \<noteq> [] \<and> \<not> later (incumbent_started e r) (bridge_started_at e (bt_meta b))"
  using assms by (auto simp: arbitrate_claim_def Let_def split: if_splits)

text \<open>C13. Who may take an environment. The bridge that a row names changes by one heartbeat only to the bridge that sent it, with an online beat that presented the
  proof of the row's machine if one is on record; never from the host tier to a bridge that is not; and otherwise only if the holder has been
  silent for longer than a spawn waits, has no start time, is outranked by the host tier, or did not start later.\<close>

theorem holder_changes_only_by_arbitration:
  assumes "record_environment_heartbeat digest e b presented x = (out, y)" and "entry_of i x = Some r" and "py_strip (ev_bridge r) \<noteq> []"
    and "entry_of i y = Some r'" and "py_strip (ev_bridge r') \<noteq> py_strip (ev_bridge r)"
  shows "out = Written \<and> i = bt_env b \<and> beat_bridge b \<noteq> [] \<and> ev_bridge r' = beat_bridge b \<and> bt_status b = ''online''
    \<and> (is_host_tier e (ev_meta r) \<longrightarrow> is_host_tier e (bt_meta b))
    \<and> (\<not> environment_has_live_bridge (be_read e) (be_clock e) SPAWN_CLAIMER_FRESH_SECONDS (lit (text_of e (mget (ev_meta r) ''bridgeLastSeen''))) None
       \<or> bridge_started_at e (ev_meta r) = [] \<or> is_host_tier e (bt_meta b) \<and> \<not> is_host_tier e (ev_meta r)
       \<or> bridge_started_at e (bt_meta b) \<noteq> [] \<and> \<not> later (bridge_started_at e (ev_meta r)) (bridge_started_at e (bt_meta b)))
    \<and> (\<forall>d. map_of (ev_proofs x) (normalize_machine_id (ev_machine r)) = Some d \<and> normalize_machine_id (ev_machine r) \<noteq> [] \<longrightarrow> digest presented = d)"
  using assms(1)
proof (cases rule: heartbeat_cases)
  case 1
  then show ?thesis using assms by simp
next
  case (2 ms s)
  have i: "i = bt_env b"
  proof (rule ccontr)
    assume "i \<noteq> bt_env b"
    then have "entry_of i y = entry_of i x" unfolding 2(4) by (cases "entry_of (bt_env b) x") (simp_all add: entry_of_insert entry_of_write)
    then show False using assms by simp
  qed
  have ex: "entry_of (bt_env b) x = Some r" using assms(2) i by simp
  have r': "r' = updated_entry e b (merge_with_stored e b (Some r)) r" using assms(4) i by (simp add: 2(4) entry_of_write [OF ex])
  have bridge: "ev_bridge r' = kept (hb_bridge (bt_req b)) (ev_bridge r)" by (simp add: r' updated_entry_def Let_def)
  then have in_b: "beat_bridge b \<noteq> []" "ev_bridge r' = beat_bridge b" using assms(5) by (auto simp: kept_def or_else_def beat_bridge_def split: if_splits)
  have rival: "py_strip (ev_bridge r) \<noteq> beat_bridge b" using assms(5) in_b(2) by (simp add: beat_bridge_def)
  note a = admitted_rival [OF 2(3) [unfolded ex] assms(3) in_b(1) rival]
  have "digest presented = d" if "map_of (ev_proofs x) (normalize_machine_id (ev_machine r)) = Some d" "normalize_machine_id (ev_machine r) \<noteq> []" for d
  proof -
    have "normalize_machine_id (ev_machine r) \<in> set (fromkeys [] (map normalize_machine_id [ev_machine r, hb_machine (bt_req b)]))" by (simp add: set_fromkeys)
    then show ?thesis using judged_machine [OF 2(1) [unfolded ex option.case judge_host_proof_def] _ that(2,1)] by simp
  qed
  then show ?thesis using 2(5) i in_b a by (simp add: incumbent_started_def split: if_splits)
qed

subsection \<open>What a beat without a bridge leaves alone\<close>

lemma dget_keep_key: "dget (keep_key old k m) k' = (if k' = k \<and> dget m k = None then dget old k else dget m k')"
  by (simp add: keep_key_def split: option.split)

lemma dget_fold_keep: "dget (fold (keep_key old) ks m) k' = (if k' \<in> set ks \<and> dget m k' = None then dget old k' else dget m k')"
  by (induction ks arbitrary: m) (auto simp: dget_keep_key)

lemma dget_filter_key: "dget (filter (\<lambda>(k, _). P k) m) k' = (if P k' then dget m k' else None)"
  by (induction m) auto

lemma other_keys [simp]: "\<not> is_bridge_key ''advertisedCwdRoots''" "\<not> is_bridge_key ''launchRoots''" "\<not> is_bridge_key ''terminal''" "\<not> is_bridge_key ''pty''"
  "\<not> is_bridge_key ''terminalRuntimes''" "\<not> is_bridge_key ''manualRoots''" "\<not> is_bridge_key ''manualRootsUpdatedAt''" "\<not> is_bridge_key ''manualRootsUpdatedBy''"
  by (simp_all add: is_bridge_key_def)

lemma bridge_key_owned: "is_bridge_key k \<Longrightarrow> dget old k \<noteq> None \<Longrightarrow> k \<in> set (bridge_owned_metadata_keys old)"
  by (auto simp: bridge_owned_metadata_keys_def set_fromkeys map_of_eq_None_iff)

lemma merged_bridge_keys:
  assumes "beat_bridge b = []" and "is_bridge_key k"
  shows "dget (merged_meta e b ex) k = dget (stored_meta ex) k"
proof -
  have ne: "k \<noteq> j" if "\<not> is_bridge_key j" for j using assms(2) that by auto
  note nes = ne [OF other_keys(1)] ne [OF other_keys(2)] ne [OF other_keys(3)] ne [OF other_keys(4)] ne [OF other_keys(5)] ne [OF other_keys(6)]
    ne [OF other_keys(7)] ne [OF other_keys(8)]
  show ?thesis using assms nes bridge_key_owned [OF assms(2), of "stored_meta ex"]
    by (simp add: merged_meta_def Let_def dget_fold_keep dget_keep_key dget_filter_key) (cases "dget (stored_meta ex) k"; simp)
qed

text \<open>C17. An advertisement leaves the bridge's claims alone. A heartbeat that names no bridge, whatever else it says, changes neither the bridge of the row nor its
  version nor any of the metadata keys that only a bridge may write, and it queues no stop: what it sends under such a
  key is dropped and what is stored under one is kept.\<close>

theorem advertisement_keeps_the_bridge:
  assumes "record_environment_heartbeat digest e b presented x = (out, y)" and "entry_of (bt_env b) x = Some r" and "beat_bridge b = []"
  shows "\<exists>r'. entry_of (bt_env b) y = Some r' \<and> ev_bridge r' = ev_bridge r \<and> ev_version r' = ev_version r \<and> ev_controls y = ev_controls x
    \<and> (\<forall>k. is_bridge_key k \<longrightarrow> dget (ev_meta r') k = dget (ev_meta r) k)"
  using assms(1)
proof (cases rule: heartbeat_cases)
  case 1
  then show ?thesis using assms(2) by simp
next
  case (2 ms s)
  let ?r = "updated_entry e b (merge_with_stored e b (Some r)) r"
  have "s = []" using 2(3) assms(2,3) by (simp add: arbitrate_claim_def Let_def)
  then have "ev_controls y = ev_controls x" unfolding 2(4) using assms(2)
    by (simp add: write_beat_def record_environment_registration_def queue_stop_for_superseded_bridge_def update_entry_def Let_def)
  moreover have "entry_of (bt_env b) y = Some ?r" by (simp add: 2(4) entry_of_write [OF assms(2)])
  moreover have "ev_bridge ?r = ev_bridge r" "ev_version ?r = ev_version r" "ev_meta ?r = merged_meta e b (Some r)"
    using assms(3) by (simp_all add: updated_entry_def Let_def kept_def or_else_def beat_bridge_def incoming_bridge_version_def merge_with_stored_def)
  ultimately show ?thesis using merged_bridge_keys [OF assms(3), of _ e "Some r"] by (simp add: stored_meta_def)
qed

subsection \<open>A forgotten environment\<close>

definition receive :: "(ustr \<Rightarrow> ustr) \<Rightarrow> env_db \<Rightarrow> beat_env \<times> environment_beat \<times> ustr \<Rightarrow> env_db" where
  "receive digest x p = (case p of (e, b, presented) \<Rightarrow> snd (record_environment_heartbeat digest e b presented x))"

lemma receive_other:
  assumes "bt_env b \<noteq> i"
  shows "entry_of i (snd (record_environment_heartbeat digest e b presented x)) = entry_of i x"
proof -
  obtain out y where h: "record_environment_heartbeat digest e b presented x = (out, y)" by fastforce
  then show ?thesis
  proof (cases rule: heartbeat_cases)
    case 1 then show ?thesis using h by simp
  next
    case 2 then show ?thesis using h assms by (cases "entry_of (bt_env b) x") (simp_all add: entry_of_insert entry_of_write)
  qed
qed

lemma receive_forgotten:
  assumes "entry_of (bt_env b) x = Some r" and "norm_word (ev_status r) = ''forgotten''" and "\<not> relaunched e b r"
  shows "snd (record_environment_heartbeat digest e b presented x) = x"
proof -
  obtain out y where h: "record_environment_heartbeat digest e b presented x = (out, y)" by fastforce
  then show ?thesis by (cases rule: heartbeat_cases) (use h assms in auto)
qed

text \<open>A forgotten environment comes back only by a fresh launch. After an operator forgets an environment, its row stays as the forgetting left it through any sequence of heartbeats,
  for it or for others, unless a bridge beats for it that says, readably, that it started later than the moment of forgetting.\<close>

theorem forgotten_until_relaunched:
  assumes "control_environment e0 i act actor governs defines x = Inr x1" and "norm_word act = ''forget''" and "be_now e0 \<noteq> []"
    and "\<forall>(e, b, presented) \<in> set beats. bt_env b = i \<longrightarrow> bridge_started_at e (bt_meta b) = []
       \<or> (timestamp_sort_key e (be_now e0) \<noteq> [] \<and> \<not> later (bridge_started_at e (bt_meta b)) (timestamp_sort_key e (be_now e0)))"
  shows "entry_of i (foldl (receive digest) x1 beats) = entry_of i x1 \<and> map_option ev_status (entry_of i x1) = Some ''forgotten''"
proof -
  obtain r where r: "entry_of i x = Some r" using assms(1) by (cases "entry_of i x") (auto simp: control_environment_def Let_def split: if_splits)
  define f where "f = r\<lparr>ev_status := ''forgotten'', ev_bridge := [], ev_version := [], ev_runtimes := JList [],
    ev_meta := dput ''forgottenBy'' (JStr actor) (dput ''forgottenAt'' (JStr (be_now e0)) (ev_meta r)), ev_last_seen := be_now e0\<rparr>"
  have x1: "entry_of i x1 = Some f" using assms(1,2) r by (auto simp: control_environment_def Let_def f_def split: if_splits)
  have status: "norm_word (ev_status f) = ''forgotten''" unfolding f_def by (simp, code_simp)
  have at: "mget (ev_meta f) ''forgottenAt'' = JStr (be_now e0)" by (simp add: f_def mget_def)
  have "entry_of i (foldl (receive digest) y beats) = Some f" if "entry_of i y = Some f" for y
    using that assms(4)
  proof (induction beats arbitrary: y)
    case (Cons p beats)
    obtain e b presented where p: "p = (e, b, presented)" by (cases p) auto
    have "entry_of i (receive digest y p) = Some f"
    proof (cases "bt_env b = i")
      case True
      then have "\<not> relaunched e b f" using Cons.prems(2) assms(3) by (auto simp: p relaunched_def Let_def at text_of_def)
      then show ?thesis using receive_forgotten [of b y f e] True Cons.prems(1) status by (simp add: receive_def p)
    next
      case False then show ?thesis using receive_other Cons.prems(1) by (simp add: receive_def p)
    qed
    then show ?case using Cons by simp
  qed simp
  from this [OF x1] show ?thesis using x1 by (simp add: f_def)
qed

subsection \<open>Controls\<close>

text \<open>Everything that happens to environments, in any order, with the ids of the controls that were handed out. A claimer's write
  comes after a round that may have read any earlier state, so it is a step for whichever control the round chose.\<close>

inductive host_step :: "(ustr \<Rightarrow> ustr) \<Rightarrow> env_db \<times> string list \<Rightarrow> env_db \<times> string list \<Rightarrow> bool" for digest where
  beat: "record_environment_heartbeat digest e b presented x = (out, y) \<Longrightarrow> host_step digest (x, log) (y, log)"
| operator: "control_environment e i act actor governs defines x = Inr y \<Longrightarrow> host_step digest (x, log) (y, log)"
| void: "host_step digest (x, log) (set_pending i ''failed'' x, log)"
| hand_out: "take_control k x = (Some k', y) \<Longrightarrow> host_step digest (x, log) (y, log @ [ec_id k'])"
| lost: "take_control k x = (None, y) \<Longrightarrow> host_step digest (x, log) (y, log)"
| report: "update_environment_control i status x = Some y \<Longrightarrow> host_step digest (x, log) (y, log)"
| sweep: "host_step digest (x, log) (fail_unreachable_environment_controls cutoff x, log)"

inductive env_step :: "(ustr \<Rightarrow> ustr) \<Rightarrow> env_db \<times> string list \<Rightarrow> env_db \<times> string list \<Rightarrow> bool" for digest where
  host: "host_step digest s t \<Longrightarrow> env_step digest s t"
| roots: "update_environment_roots e i roots reset actor x = Inr y \<Longrightarrow> env_step digest (x, log) (y, log)"

definition control_id :: "nat \<Rightarrow> string" where
  "control_id n = ''envctl-'' @ nat_str n"

definition controls_ok :: "env_db \<times> string list \<Rightarrow> bool" where
  "controls_ok s = (case s of (x, log) \<Rightarrow> distinct (map ec_id (ev_controls x)) \<and> distinct log
     \<and> ec_id ` set (ev_controls x) \<union> set log \<subseteq> control_id ` {..< ev_next x}
     \<and> (\<forall>k \<in> set (ev_controls x). ec_status k = ''pending'' \<longrightarrow> ec_id k \<notin> set log))"

lemma controls_ok_map:
  assumes ok: "controls_ok (x, log)" and y: "ev_next y = ev_next x" "ev_controls y = map f (ev_controls x)"
    and f: "\<And>k. ec_id (f k) = ec_id k" "\<And>k. ec_status (f k) = ''pending'' \<Longrightarrow> ec_status k = ''pending''"
  shows "controls_ok (y, log)"
proof -
  have ids: "map ec_id (ev_controls y) = map ec_id (ev_controls x)" using y(2) f(1) by simp
  have img: "ec_id ` set (ev_controls y) = ec_id ` set (ev_controls x)" using arg_cong [OF ids, of set] by simp
  have "\<forall>k \<in> set (ev_controls y). ec_status k = ''pending'' \<longrightarrow> ec_id k \<notin> set log"
    using ok f unfolding controls_ok_def y(2) by auto
  then show ?thesis using ok unfolding controls_ok_def prod.case ids img y(1) by blast
qed

lemma controls_ok_set_pending:
  assumes "controls_ok (x, log)" and "status \<noteq> ''pending''"
  shows "controls_ok (set_pending i status x, log)"
proof (rule controls_ok_map [OF assms(1)])
  let ?f = "\<lambda>k. if ec_id k = i \<and> ec_status k = ''pending'' then k\<lparr>ec_status := status\<rparr> else k"
  show "ev_controls (set_pending i status x) = map ?f (ev_controls x)" "ev_next (set_pending i status x) = ev_next x" by (simp_all add: set_pending_def)
  show "ec_id (?f k) = ec_id k" "ec_status (?f k) = ''pending'' \<Longrightarrow> ec_status k = ''pending''" for k using assms(2) by (auto split: if_splits)
qed

lemma controls_okD:
  assumes "controls_ok (x, log)" and "k \<in> set (ev_controls x)"
  shows "ec_id k \<in> control_id ` {..< ev_next x}" and "ec_status k = ''pending'' \<Longrightarrow> ec_id k \<notin> set log"
  using assms unfolding controls_ok_def by blast+

lemma controls_ok_filter:
  assumes "controls_ok (x, log)" and "ev_next y = ev_next x" and "ev_controls y = filter P (ev_controls x)"
  shows "controls_ok (y, log)"
  using assms unfolding controls_ok_def by (auto simp: distinct_map_filter)

lemma controls_ok_same: "controls_ok (x, log) \<Longrightarrow> ev_next y = ev_next x \<Longrightarrow> ev_controls y = ev_controls x \<Longrightarrow> controls_ok (y, log)"
  by (simp add: controls_ok_def)

lemma control_id_inj: "control_id m = control_id n \<Longrightarrow> m = n"
  by (simp add: control_id_def nat_str_inj)

lemma controls_ok_add:
  assumes "controls_ok (x, log)"
  shows "controls_ok (add_control env b m act by t x, log)"
proof -
  have new: "control_id (ev_next x) \<notin> ec_id ` set (ev_controls x) \<union> set log"
  proof
    assume "control_id (ev_next x) \<in> ec_id ` set (ev_controls x) \<union> set log"
    then have "control_id (ev_next x) \<in> control_id ` {..< ev_next x}" using assms unfolding controls_ok_def by blast
    then show False using control_id_inj by fastforce
  qed
  have "control_id ` {..< ev_next x} \<subseteq> control_id ` {..< Suc (ev_next x)}" by auto
  then show ?thesis using assms new unfolding controls_ok_def add_control_def control_id_def [symmetric] by auto
qed

lemma controls_ok_stop:
  assumes "controls_ok (x, log)"
  shows "controls_ok (queue_stop_for_superseded_bridge e env s m x, log)"
proof -
  let ?x = "x\<lparr>ev_controls := map (\<lambda>k. if stale_stop e env k then k\<lparr>ec_status := ''failed''\<rparr> else k) (ev_controls x)\<rparr>"
  have "controls_ok (?x, log)" by (rule controls_ok_map [OF assms, of _ "\<lambda>k. if stale_stop e env k then k\<lparr>ec_status := ''failed''\<rparr> else k"]) (auto split: if_splits)
  then show ?thesis using assms controls_ok_add unfolding queue_stop_for_superseded_bridge_def Let_def by (auto split: if_split)
qed

lemma controls_ok_take:
  assumes "controls_ok (x, log)" and "take_control k x = (Some k', y)"
  shows "controls_ok (y, log @ [ec_id k'])"
proof -
  have k: "k' = k" "y = set_pending (ec_id k) ''claimed'' x" "filter (\<lambda>z. ec_id z = ec_id k \<and> ec_status z = ''pending'') (ev_controls x) \<noteq> []"
    using assms(2) by (auto simp: take_control_def split: if_splits)
  then obtain z where z: "z \<in> set (ev_controls x)" "ec_id z = ec_id k" "ec_status z = ''pending''" by (auto simp: filter_empty_conv)
  then have fresh: "ec_id k \<notin> set log" "ec_id k \<in> control_id ` {..< ev_next x}" using controls_okD [OF assms(1) z(1)] by (simp_all add: z)
  have "controls_ok (y, log)" unfolding k(2) by (rule controls_ok_set_pending [OF assms(1)]) simp
  moreover have "ec_status z \<noteq> ''pending''" if "z \<in> set (ev_controls y)" "ec_id z = ec_id k" for z
    using that unfolding k(2) set_pending_def by (auto split: if_splits)
  moreover have "ev_next y = ev_next x" by (simp add: k(2) set_pending_def)
  ultimately show ?thesis using fresh unfolding controls_ok_def k(1) by auto
qed

lemma controls_ok_beat:
  assumes "controls_ok (x, log)" and "record_environment_heartbeat digest e b presented x = (out, y)"
  shows "controls_ok (y, log)"
  using assms(2)
proof (cases rule: heartbeat_cases)
  case 1 then show ?thesis using assms(1) by simp
next
  case (2 ms s)
  have "controls_ok (record_environment_registration e b m ex x, log)" for m ex
    by (rule controls_ok_same [OF assms(1)]) (simp_all add: record_environment_registration_def update_entry_def split: option.split)
  from controls_ok_same [OF controls_ok_stop [OF this]] show ?thesis unfolding 2(4) write_beat_def Let_def by simp
qed

lemma controls_ok_operator:
  assumes "controls_ok (x, log)" and "control_environment e i act actor governs defines x = Inr y"
  shows "controls_ok (y, log)"
proof -
  obtain r where r: "entry_of i x = Some r" using assms(2) by (cases "entry_of i x") (auto simp: control_environment_def Let_def split: if_splits)
  consider f where "y = update_entry i f (x\<lparr>ev_controls := filter (\<lambda>k. ec_env k \<noteq> i) (ev_controls x)\<rparr>)"
    | f a where "y = update_entry i f (add_control i (ev_bridge r) (ev_machine r) a actor (be_now e) x)"
    using assms(2) r unfolding control_environment_def Let_def by (auto split: if_splits)
  then show ?thesis
  proof cases
    case 1
    show ?thesis by (rule controls_ok_filter [OF assms(1), of _ "\<lambda>k. ec_env k \<noteq> i"]) (simp_all add: 1 update_entry_def)
  next
    case 2
    show ?thesis by (rule controls_ok_same [OF controls_ok_add [OF assms(1)]]) (simp_all add: 2 update_entry_def)
  qed
qed

lemma controls_ok_report:
  assumes "controls_ok (x, log)" and "update_environment_control i status x = Some y"
  shows "controls_ok (y, log)"
proof (rule controls_ok_map [OF assms(1)])
  let ?f = "\<lambda>k. if ec_id k = i then k\<lparr>ec_status := norm_word status\<rparr> else k"
  have s: "norm_word status \<in> {''completed'', ''failed''}" and y: "y = x\<lparr>ev_controls := map ?f (ev_controls x)\<rparr>"
    using assms(2) by (auto simp: update_environment_control_def Let_def split: if_splits)
  show "ev_controls y = map ?f (ev_controls x)" "ev_next y = ev_next x" by (simp_all add: y)
  show "ec_id (?f k) = ec_id k" "ec_status (?f k) = ''pending'' \<Longrightarrow> ec_status k = ''pending''" for k using s by (auto split: if_splits)
qed

lemma controls_ok_sweep:
  assumes "controls_ok (x, log)"
  shows "controls_ok (fail_unreachable_environment_controls cutoff x, log)"
proof (rule controls_ok_map [OF assms])
  let ?f = "\<lambda>k. if ec_status k \<in> {''pending'', ''claimed''} \<and> \<not> reachable_bridge cutoff (ec_env k) (ec_bridge k) x then k\<lparr>ec_status := ''failed''\<rparr> else k"
  show "ev_controls (fail_unreachable_environment_controls cutoff x) = map ?f (ev_controls x)" "ev_next (fail_unreachable_environment_controls cutoff x) = ev_next x"
    by (simp_all add: fail_unreachable_environment_controls_def)
  show "ec_id (?f k) = ec_id k" "ec_status (?f k) = ''pending'' \<Longrightarrow> ec_status k = ''pending''" for k by (auto split: if_splits)
qed

lemma controls_ok_host:
  assumes "host_step digest s t" and "controls_ok s"
  shows "controls_ok t"
  using assms
proof cases
  case (void x log i)
  then show ?thesis using assms(2) controls_ok_set_pending [of x log "''failed''"] by simp
next
  case (report i status x y log)
  then show ?thesis using assms(2) controls_ok_report by blast
next
  case (lost k x y log)
  then show ?thesis using assms(2) by (auto simp: take_control_def split: if_splits)
qed (use assms(2) in \<open>auto intro: controls_ok_beat controls_ok_operator controls_ok_take controls_ok_sweep\<close>)

lemma controls_ok_step:
  assumes "env_step digest s t" and "controls_ok s"
  shows "controls_ok t"
  using assms
proof cases
  case host then show ?thesis using controls_ok_host assms(2) by blast
next
  case (roots e i rs reset actor x y log)
  then have "ev_controls y = ev_controls x \<and> ev_next y = ev_next x"
    by (auto simp: update_environment_roots_def update_entry_def Let_def split: option.splits if_splits)
  then show ?thesis using roots(1,2) controls_ok_same assms(2) by blast
qed

interpretation environments: invariant_system "\<lambda>s. ev_controls (fst s) = [] \<and> snd s = []" "env_step digest" controls_ok for digest
proof
  show "controls_ok s" if "ev_controls (fst s) = [] \<and> snd s = []" for s using that by (cases s) (simp add: controls_ok_def)
  show "controls_ok t" if "controls_ok s" and "env_step digest s t" for s t using that(2,1) by (rule controls_ok_step)
qed

text \<open>C27. A control is handed out once. In every run of heartbeats, operators, reports and any number of claimers whose reads and writes interleave, no control is
  handed out twice, and one that was handed out is not pending again.\<close>

theorem control_is_handed_out_once:
  assumes "(env_step digest)\<^sup>*\<^sup>* (x0, []) (x, log)" and "ev_controls x0 = []"
  shows "distinct log \<and> (\<forall>k \<in> set (ev_controls x). ec_id k \<in> set log \<longrightarrow> ec_status k \<noteq> ''pending'')"
proof -
  have "controls_ok (x0, [])" using assms(2) by (simp add: controls_ok_def)
  from environments.inv_run [OF assms(1) this] show ?thesis by (auto simp: controls_ok_def)
qed

subsection \<open>The claim of a control\<close>

text \<open>The loop of a claim. The candidate, the environment's row and the write are three statements, and others may write between any two of them; \<open>vs\<close> are the controls it did not
  honour, and the result is what it hands out.\<close>

inductive claim_environment_control_once ::
  "(ustr \<Rightarrow> ustr) \<Rightarrow> beat_env \<Rightarrow> control_claim \<Rightarrow> env_db \<times> string list \<Rightarrow> env_control list \<Rightarrow> env_control option \<Rightarrow> env_db \<times> string list \<Rightarrow> bool" for digest e q where
  nothing_pending: "first_pending q (fst s) = None \<Longrightarrow> claim_environment_control_once digest e q s [] None s"
| not_honoured: "first_pending q (fst s) = Some k \<Longrightarrow> (env_step digest)\<^sup>*\<^sup>* s s1 \<Longrightarrow> must_not_honour e q (entry_of (cc_env q) (fst s1)) k
    \<Longrightarrow> (env_step digest)\<^sup>*\<^sup>* s1 (x, log) \<Longrightarrow> (env_step digest)\<^sup>*\<^sup>* (set_pending (ec_id k) ''failed'' x, log) s2
    \<Longrightarrow> claim_environment_control_once digest e q s2 vs res t \<Longrightarrow> claim_environment_control_once digest e q s (k # vs) res t"
| handed: "first_pending q (fst s) = Some k \<Longrightarrow> (env_step digest)\<^sup>*\<^sup>* s s1 \<Longrightarrow> \<not> must_not_honour e q (entry_of (cc_env q) (fst s1)) k
    \<Longrightarrow> (env_step digest)\<^sup>*\<^sup>* s1 (x, log) \<Longrightarrow> take_control k x = (Some k, y) \<Longrightarrow> claim_environment_control_once digest e q s [] (Some k) (y, log @ [ec_id k])"
| lost: "first_pending q (fst s) = Some k \<Longrightarrow> (env_step digest)\<^sup>*\<^sup>* s s1 \<Longrightarrow> \<not> must_not_honour e q (entry_of (cc_env q) (fst s1)) k
    \<Longrightarrow> (env_step digest)\<^sup>*\<^sup>* s1 (x, log) \<Longrightarrow> take_control k x = (None, y) \<Longrightarrow> claim_environment_control_once digest e q s [] None (y, log)"

lemma claim_steps: "claim_environment_control_once digest e q s vs res t \<Longrightarrow> (env_step digest)\<^sup>*\<^sup>* s t"
proof (induction rule: claim_environment_control_once.induct)
  case (not_honoured s k s1 x log s2 vs res t)
  have "env_step digest (x, log) (set_pending (ec_id k) ''failed'' x, log)" by (rule env_step.host [OF host_step.void])
  then show ?case using not_honoured(2,4,5,7) by (meson rtranclp.rtrancl_into_rtrancl rtranclp_trans)
next
  case (handed s k s1 x log y)
  have "env_step digest (x, log) (y, log @ [ec_id k])" by (rule env_step.host [OF host_step.hand_out [OF handed(5)]])
  then show ?case using handed(2,4) by (meson rtranclp.rtrancl_into_rtrancl rtranclp_trans)
next
  case (lost s k s1 x log y)
  have "env_step digest (x, log) (y, log)" by (rule env_step.host [OF host_step.lost [OF lost(5)]])
  then show ?case using lost(2,4) by (meson rtranclp.rtrancl_into_rtrancl rtranclp_trans)
qed simp

text \<open>Where nobody else writes the loop ends: each round that finds nothing to honour fails one pending control.\<close>

lemma claim_ends: "\<exists>vs res t. claim_environment_control_once digest e q s vs res t"
proof (induction "length (filter (\<lambda>y. ec_status y = ''pending'') (ev_controls (fst s)))" arbitrary: s rule: less_induct)
  case less
  obtain x log where s: "s = (x, log)" by (cases s)
  show ?case
  proof (cases "first_pending q x")
    case None
    then have "claim_environment_control_once digest e q s [] None s" by (intro nothing_pending) (simp add: s)
    then show ?thesis by blast
  next
    case (Some k)
    show ?thesis
    proof (cases "must_not_honour e q (entry_of (cc_env q) x) k")
      case True
      obtain vs res t where "claim_environment_control_once digest e q (set_pending (ec_id k) ''failed'' x, log) vs res t"
        using less [of "(set_pending (ec_id k) ''failed'' x, log)"] void_shrinks [OF Some] s by auto
      then have "claim_environment_control_once digest e q s (k # vs) res t"
        by (intro not_honoured [of q s k digest s e x log "(set_pending (ec_id k) ''failed'' x, log)"]) (simp_all add: s Some True)
      then show ?thesis by blast
    next
      case False
      have "take_control k x = (Some k, snd (take_control k x))" using first_pending_spec(1,3) [OF Some] by (auto simp: take_control_def filter_empty_conv)
      then have "claim_environment_control_once digest e q s [] (Some k) (snd (take_control k x), log @ [ec_id k])"
        by (intro handed [of q s k digest s e x log]) (simp_all add: s Some False)
      then show ?thesis by blast
    qed
  qed
qed

text \<open>A control that is not pending stays so.\<close>

definition settled_control :: "string \<Rightarrow> env_db \<Rightarrow> bool" where
  "settled_control i x = (\<forall>k \<in> set (ev_controls x). ec_id k = i \<longrightarrow> ec_status k \<noteq> ''pending'')"

lemma step_any_log:
  assumes "env_step digest (x, log) (y, log')"
  shows "\<exists>L'. set L \<subseteq> set L' \<and> env_step digest (x, L) (y, L')"
  using assms
proof cases
  case host
  then show ?thesis
  proof cases
    case (hand_out k k')
    then show ?thesis using env_step.host [OF host_step.hand_out [OF hand_out(2), of digest L]] by (intro exI [of _ "L @ [ec_id k']"]) auto
  qed (blast intro: env_step.host host_step.intros)+
qed (blast intro: env_step.roots)


lemma step_next:
  assumes "env_step digest s t"
  shows "ev_next (fst s) \<le> ev_next (fst t)"
  using assms
proof cases
  case host
  then show ?thesis
  proof cases
    case (beat e b presented x out y log)
    have "ev_next x \<le> ev_next y" using beat(3)
    proof (cases rule: heartbeat_cases)
      case (2 ms st)
      then show ?thesis
        by (auto simp: write_beat_def Let_def record_environment_registration_def update_entry_def queue_stop_for_superseded_bridge_def add_control_def split: option.splits if_splits)
    qed simp
    then show ?thesis using beat(1,2) by simp
  qed (auto simp: control_environment_def update_entry_def add_control_def Let_def set_pending_def take_control_def update_environment_control_def
      fail_unreachable_environment_controls_def split: if_splits option.splits)
qed (auto simp: update_environment_roots_def update_entry_def Let_def split: option.splits if_splits)

lemma run_next: "(env_step digest)\<^sup>*\<^sup>* s t \<Longrightarrow> ev_next (fst s) \<le> ev_next (fst t)"
  by (induction rule: rtranclp_induct) (auto dest: step_next intro: order_trans)

lemma run_any_log:
  assumes "(env_step digest)\<^sup>*\<^sup>* s t"
  shows "\<exists>L'. set L \<subseteq> set L' \<and> (env_step digest)\<^sup>*\<^sup>* (fst s, L) (fst t, L')"
  using assms
proof (induction rule: rtranclp_induct)
  case (step u t)
  then obtain L1 where l: "set L \<subseteq> set L1" "(env_step digest)\<^sup>*\<^sup>* (fst s, L) (fst u, L1)" by blast
  obtain L2 where "set L1 \<subseteq> set L2" "env_step digest (fst u, L1) (fst t, L2)" using step_any_log [of digest "fst u" "snd u" "fst t" "snd t" L1] step(2) by auto
  with l show ?case by (meson rtranclp.rtrancl_into_rtrancl order_trans)
qed blast

lemma settled_stays:
  assumes ok: "controls_ok s" and i: "i \<in> control_id ` {..< ev_next (fst s)}" and settled: "settled_control i (fst s)" and run: "(env_step digest)\<^sup>*\<^sup>* s t"
  shows "settled_control i (fst t)"
proof -
  obtain L where L: "set [i] \<subseteq> set L" "(env_step digest)\<^sup>*\<^sup>* (fst s, [i]) (fst t, L)" using run_any_log [OF run] by blast
  obtain x log where s: "s = (x, log)" by (cases s)
  have "controls_ok (fst s, [i])" using ok i settled unfolding controls_ok_def settled_control_def s by auto
  from environments.inv_run [OF L(2) this] L(1) show ?thesis unfolding controls_ok_def settled_control_def by auto
qed

lemma failed_stays_settled:
  assumes "controls_ok s" and k: "k \<in> set (ev_controls (fst s))" and run: "(env_step digest)\<^sup>*\<^sup>* s (x, log)"
    and rest: "(env_step digest)\<^sup>*\<^sup>* (set_pending (ec_id k) ''failed'' x, log) t"
  shows "settled_control (ec_id k) (fst t)"
proof (rule settled_stays [OF _ _ _ rest])
  have ok: "controls_ok (x, log)" using run assms(1) by (rule environments.inv_run)
  then show "controls_ok (set_pending (ec_id k) ''failed'' x, log)" by (rule controls_ok_set_pending) simp
  have "ec_id k \<in> control_id ` {..< ev_next (fst s)}" using assms(1) k unfolding controls_ok_def by (cases s) auto
  then show "ec_id k \<in> control_id ` {..< ev_next (fst (set_pending (ec_id k) ''failed'' x, log))}" using run_next [OF run] by (auto simp: set_pending_def)
  show "settled_control (ec_id k) (fst (set_pending (ec_id k) ''failed'' x, log))" by (auto simp: settled_control_def set_pending_def)
qed

text \<open>What a stop is that the bridge owning the environment, as its row was read, must not honour.\<close>

definition void_for_owner :: "beat_env \<Rightarrow> control_claim \<Rightarrow> env_entry \<Rightarrow> env_control \<Rightarrow> bool" where
  "void_for_owner e q r k = (ec_action k = ''stop'' \<and> cc_bridge q \<noteq> [] \<and> py_strip (ev_bridge r) = cc_bridge q
     \<and> (ec_by k = ''server:superseded-bridge''
       \<or> 0 < be_epoch e (ec_at k) \<and> be_epoch e (ec_at k) < be_epoch e (text_of e (mget (ev_meta r) ''bridgeStartedAt''))))"

lemma must_not_honour_iff: "must_not_honour e q ex k = (\<exists>r. ex = Some r \<and> void_for_owner e q r k)"
  by (cases ex) (auto simp: must_not_honour_def void_for_owner_def stored_meta_def SUPERSEDED_BRIDGE_def Let_def)

lemma voided_is_failed:
  assumes "claim_environment_control_once digest e q s vs res t" and "controls_ok s" and "v \<in> set vs"
  shows "(\<exists>s1 r x log. (env_step digest)\<^sup>*\<^sup>* s s1 \<and> entry_of (cc_env q) (fst s1) = Some r \<and> void_for_owner e q r v \<and> (env_step digest)\<^sup>*\<^sup>* s1 (x, log)
      \<and> (env_step digest)\<^sup>*\<^sup>* (set_pending (ec_id v) ''failed'' x, log) t)
    \<and> (\<forall>u. (env_step digest)\<^sup>*\<^sup>* t u \<longrightarrow> settled_control (ec_id v) (fst u))"
  using assms
proof (induction rule: claim_environment_control_once.induct)
  case (not_honoured s k s1 x log s2 vs res t)
  have t: "(env_step digest)\<^sup>*\<^sup>* s2 t" using not_honoured(6) by (rule claim_steps)
  have sx: "(env_step digest)\<^sup>*\<^sup>* s (x, log)" using not_honoured(2,4) by (rule rtranclp_trans)
  have xt: "(env_step digest)\<^sup>*\<^sup>* (set_pending (ec_id k) ''failed'' x, log) t" using not_honoured(5) t by (rule rtranclp_trans)
  show ?case
  proof (cases "v = k")
    case True
    have later: "settled_control (ec_id k) (fst u)" if "(env_step digest)\<^sup>*\<^sup>* t u" for u
      by (rule failed_stays_settled [OF not_honoured(8) first_pending_spec(1) [OF not_honoured(1)] sx rtranclp_trans [OF xt that]])
    obtain r where r: "entry_of (cc_env q) (fst s1) = Some r" "void_for_owner e q r k" using not_honoured(3) unfolding must_not_honour_iff by blast
    show ?thesis unfolding True by (intro conjI exI allI impI) (rule not_honoured(2) r not_honoured(4) xt later, assumption?)+
  next
    case False
    have void: "env_step digest (x, log) (set_pending (ec_id k) ''failed'' x, log)" by (rule env_step.host [OF host_step.void])
    have "(env_step digest)\<^sup>*\<^sup>* s (set_pending (ec_id k) ''failed'' x, log)" using sx void by (rule rtranclp.rtrancl_into_rtrancl)
    then have ss2: "(env_step digest)\<^sup>*\<^sup>* s s2" using not_honoured(5) by (rule rtranclp_trans)
    then have "controls_ok s2" using not_honoured(8) by (rule environments.inv_run)
    moreover have "v \<in> set vs" using False not_honoured(9) by simp
    ultimately obtain s1' r x' log' where "(env_step digest)\<^sup>*\<^sup>* s2 s1'" "entry_of (cc_env q) (fst s1') = Some r" "void_for_owner e q r v" "(env_step digest)\<^sup>*\<^sup>* s1' (x', log')"
      "(env_step digest)\<^sup>*\<^sup>* (set_pending (ec_id v) ''failed'' x', log') t" and later: "\<forall>u. (env_step digest)\<^sup>*\<^sup>* t u \<longrightarrow> settled_control (ec_id v) (fst u)"
      using not_honoured(7) by blast
    then show ?thesis using rtranclp_trans [OF ss2] by (intro conjI exI) assumption+
  qed
qed simp_all

lemma handed_is_honoured:
  assumes "claim_environment_control_once digest e q s vs res t" and "res = Some k"
  shows "\<exists>s0 s1 x log. (env_step digest)\<^sup>*\<^sup>* s s0 \<and> k \<in> set (ev_controls (fst s0)) \<and> ec_env k = cc_env q \<and> ec_status k = ''pending'' \<and> (ec_bridge k = [] \<or> ec_bridge k = cc_bridge q)
      \<and> (env_step digest)\<^sup>*\<^sup>* s0 s1 \<and> (\<forall>r. entry_of (cc_env q) (fst s1) = Some r \<longrightarrow> \<not> void_for_owner e q r k) \<and> (env_step digest)\<^sup>*\<^sup>* s1 (x, log)
      \<and> (\<exists>z \<in> set (ev_controls x). ec_id z = ec_id k \<and> ec_status z = ''pending'') \<and> t = (set_pending (ec_id k) ''claimed'' x, log @ [ec_id k])"
  using assms
proof (induction rule: claim_environment_control_once.induct)
  case (not_honoured s v s1 x log s2 vs res t)
  have void: "env_step digest (x, log) (set_pending (ec_id v) ''failed'' x, log)" by (rule env_step.host [OF host_step.void])
  have "(env_step digest)\<^sup>*\<^sup>* s (x, log)" using not_honoured(2,4) by (rule rtranclp_trans)
  then have "(env_step digest)\<^sup>*\<^sup>* s (set_pending (ec_id v) ''failed'' x, log)" using void by (rule rtranclp.rtrancl_into_rtrancl)
  then have "(env_step digest)\<^sup>*\<^sup>* s s2" using not_honoured(5) by (rule rtranclp_trans)
  note trans = rtranclp_trans [OF this]
  from not_honoured(7) [OF not_honoured(8)] show ?case by (elim exE conjE) (intro exI conjI, erule trans, assumption+)
next
  case (handed s v s1 x log y)
  have v: "v = k" using handed(6) by simp
  have y: "y = set_pending (ec_id k) ''claimed'' x" and z: "\<exists>z \<in> set (ev_controls x). ec_id z = ec_id k \<and> ec_status z = ''pending''"
    using handed(5) v by (auto simp: take_control_def filter_empty_conv split: if_splits)
  have honoured: "\<not> void_for_owner e q r k" if "entry_of (cc_env q) (fst s1) = Some r" for r using handed(3) that v unfolding must_not_honour_iff by blast
  show ?case unfolding y v
    by (intro exI [of _ s] exI [of _ s1] exI [of _ x] exI [of _ log] conjI allI impI) (use first_pending_spec [OF handed(1)] handed(2,4) z honoured v in simp_all)
qed simp_all

text \<open>C28. The owner of an environment is not handed a stop meant for the bridge it replaced. The claim reads the oldest pending control, reads the environment's row and writes, and
  others may write in between. A control it does not honour is a stop that, by the row as it was read, meets the bridge owning the environment and was either queued for a bridge that
  lost the row or requested before this bridge started; its write turns the control from pending to failed, and the control is not pending in any state after, so it is not handed
  out later. A control it hands out was pending and addressed to the bridge or to any when it was chosen, is no such stop by the row as it was read, was still pending
  at the write, and is claimed by it.\<close>

theorem owner_is_not_stopped_as_superseded:
  assumes "(env_step digest)\<^sup>*\<^sup>* (x0, []) s" and "ev_controls x0 = []" and "claim_environment_control_once digest e q s vs res t"
  shows "(\<forall>v \<in> set vs.
      (\<exists>s1 r x log y. (env_step digest)\<^sup>*\<^sup>* s s1 \<and> entry_of (cc_env q) (fst s1) = Some r \<and> void_for_owner e q r v \<and> (env_step digest)\<^sup>*\<^sup>* s1 (x, log)
        \<and> y = x\<lparr>ev_controls := map (\<lambda>k. if ec_id k = ec_id v \<and> ec_status k = ''pending'' then k\<lparr>ec_status := ''failed''\<rparr> else k) (ev_controls x)\<rparr>
        \<and> (env_step digest)\<^sup>*\<^sup>* (y, log) t)
      \<and> (\<forall>u. (env_step digest)\<^sup>*\<^sup>* t u \<longrightarrow> (\<forall>k \<in> set (ev_controls (fst u)). ec_id k = ec_id v \<longrightarrow> ec_status k \<noteq> ''pending'')))
    \<and> (\<forall>k. res = Some k \<longrightarrow>
      (\<exists>s0 s1 x log y. (env_step digest)\<^sup>*\<^sup>* s s0 \<and> k \<in> set (ev_controls (fst s0)) \<and> ec_env k = cc_env q \<and> ec_status k = ''pending'' \<and> (ec_bridge k = [] \<or> ec_bridge k = cc_bridge q)
        \<and> (env_step digest)\<^sup>*\<^sup>* s0 s1 \<and> (\<forall>r. entry_of (cc_env q) (fst s1) = Some r \<longrightarrow> \<not> void_for_owner e q r k) \<and> (env_step digest)\<^sup>*\<^sup>* s1 (x, log)
        \<and> (\<exists>z \<in> set (ev_controls x). ec_id z = ec_id k \<and> ec_status z = ''pending'')
        \<and> y = x\<lparr>ev_controls := map (\<lambda>z. if ec_id z = ec_id k \<and> ec_status z = ''pending'' then z\<lparr>ec_status := ''claimed''\<rparr> else z) (ev_controls x)\<rparr>
        \<and> t = (y, log @ [ec_id k])))"
proof (intro conjI ballI allI impI)
  have ok: "controls_ok s" by (rule environments.inv_run [OF assms(1)]) (simp add: controls_ok_def assms(2))
  fix v assume v: "v \<in> set vs"
  note voided = voided_is_failed [OF assms(3) ok v, unfolded set_pending_def]
  from voided show "\<exists>s1 r x log y. (env_step digest)\<^sup>*\<^sup>* s s1 \<and> entry_of (cc_env q) (fst s1) = Some r \<and> void_for_owner e q r v \<and> (env_step digest)\<^sup>*\<^sup>* s1 (x, log)
        \<and> y = x\<lparr>ev_controls := map (\<lambda>k. if ec_id k = ec_id v \<and> ec_status k = ''pending'' then k\<lparr>ec_status := ''failed''\<rparr> else k) (ev_controls x)\<rparr>
        \<and> (env_step digest)\<^sup>*\<^sup>* (y, log) t" by blast
  fix u k assume u: "(env_step digest)\<^sup>*\<^sup>* t u" and k: "k \<in> set (ev_controls (fst u))" "ec_id k = ec_id v"
  have "settled_control (ec_id v) (fst u)" using voided_is_failed [OF assms(3) ok v] u by blast
  then show "ec_status k \<noteq> ''pending''" using k unfolding settled_control_def by blast
next
  fix k assume "res = Some k"
  from handed_is_honoured [OF assms(3) this, unfolded set_pending_def] show
    "\<exists>s0 s1 x log y. (env_step digest)\<^sup>*\<^sup>* s s0 \<and> k \<in> set (ev_controls (fst s0)) \<and> ec_env k = cc_env q \<and> ec_status k = ''pending'' \<and> (ec_bridge k = [] \<or> ec_bridge k = cc_bridge q)
        \<and> (env_step digest)\<^sup>*\<^sup>* s0 s1 \<and> (\<forall>r. entry_of (cc_env q) (fst s1) = Some r \<longrightarrow> \<not> void_for_owner e q r k) \<and> (env_step digest)\<^sup>*\<^sup>* s1 (x, log)
        \<and> (\<exists>z \<in> set (ev_controls x). ec_id z = ec_id k \<and> ec_status z = ''pending'')
        \<and> y = x\<lparr>ev_controls := map (\<lambda>z. if ec_id z = ec_id k \<and> ec_status z = ''pending'' then z\<lparr>ec_status := ''claimed''\<rparr> else z) (ev_controls x)\<rparr>
        \<and> t = (y, log @ [ec_id k])" by blast
qed


subsection \<open>Roots the operator set\<close>

definition has_manual_roots :: "string \<Rightarrow> json \<Rightarrow> env_db \<Rightarrow> bool" where
  "has_manual_roots i roots x = (\<exists>r. entry_of i x = Some r \<and> ev_roots r = roots \<and> truthy (mget (ev_meta r) ''manualRoots''))"

lemma manual_beat:
  assumes "record_environment_heartbeat digest e b presented x = (out, y)" and "has_manual_roots i roots x"
  shows "has_manual_roots i roots y"
proof (cases "bt_env b = i")
  case False
  then have "entry_of i y = entry_of i x" using receive_other [OF False] assms(1) by (metis snd_conv)
  then show ?thesis using assms(2) by (simp add: has_manual_roots_def)
next
  case True
  obtain r where r: "entry_of i x = Some r" "ev_roots r = roots" "truthy (mget (ev_meta r) ''manualRoots'')" using assms(2) by (auto simp: has_manual_roots_def)
  from assms(1) show ?thesis
  proof (cases rule: heartbeat_cases)
    case 1 then show ?thesis using assms(2) by simp
  next
    case (2 ms s)
    let ?r = "updated_entry e b (merge_with_stored e b (Some r)) r"
    have "entry_of i y = Some ?r" using r(1) True by (simp add: 2(4) entry_of_write)
    moreover have "ev_roots ?r = roots" using r(2,3) by (simp add: updated_entry_def Let_def merge_with_stored_def stored_meta_def)
    moreover have "mget (ev_meta ?r) ''manualRoots'' = JBool True"
      using r(3) by (simp add: updated_entry_def Let_def merge_with_stored_def merged_meta_def stored_meta_def mget_def)
    ultimately show ?thesis by (simp add: has_manual_roots_def)
  qed
qed

lemma manual_update:
  assumes "has_manual_roots i roots x" and "\<And>r. ev_id (f r) = ev_id r" "\<And>r. ev_roots (f r) = ev_roots r" "\<And>r. mget (ev_meta (f r)) ''manualRoots'' = mget (ev_meta r) ''manualRoots''"
  shows "has_manual_roots i roots (update_entry j f x)"
  using assms by (auto simp: has_manual_roots_def)

lemma manual_other: "has_manual_roots i roots x \<Longrightarrow> ev_rows y = ev_rows x \<Longrightarrow> has_manual_roots i roots y"
  by (simp add: has_manual_roots_def entry_of_def)

lemma manual_operator:
  assumes "control_environment e j act actor governs defines x = Inr y" and "has_manual_roots i roots x"
  shows "has_manual_roots i roots y"
proof -
  obtain r where r: "entry_of j x = Some r" using assms(1) by (cases "entry_of j x") (auto simp: control_environment_def Let_def split: if_splits)
  consider "y = update_entry j (\<lambda>r. r\<lparr>ev_status := ''forgotten'', ev_bridge := [], ev_version := [], ev_runtimes := JList [],
        ev_meta := dput ''forgottenBy'' (JStr actor) (dput ''forgottenAt'' (JStr (be_now e)) (ev_meta r)), ev_last_seen := be_now e\<rparr>)
        (x\<lparr>ev_controls := filter (\<lambda>k. ec_env k \<noteq> j) (ev_controls x)\<rparr>)"
    | a where "y = update_entry j (\<lambda>r. r\<lparr>ev_status := ''disabled''\<rparr>) (add_control j (ev_bridge r) (ev_machine r) a actor (be_now e) x)"
    using assms(1) r unfolding control_environment_def Let_def by (auto split: if_splits)
  then show ?thesis
  proof cases
    case 1
    show ?thesis unfolding 1 by (rule manual_update) (simp_all add: manual_other [OF assms(2)] mget_def)
  next
    case 2
    show ?thesis unfolding 2 by (rule manual_update) (simp_all add: manual_other [OF assms(2)] add_control_def mget_def)
  qed
qed

lemma manual_step:
  assumes "host_step digest s t" and "has_manual_roots i roots (fst s)"
  shows "has_manual_roots i roots (fst t)"
  using assms
proof cases
  case beat then show ?thesis using assms(2) manual_beat by auto
next
  case operator then show ?thesis using assms(2) manual_operator by auto
qed (use assms(2) manual_other in \<open>auto simp: set_pending_def take_control_def update_environment_control_def fail_unreachable_environment_controls_def Let_def split: if_splits\<close>)

text \<open>Roots the operator set stay. Once an operator has set an environment's roots, they are the roots of its row through every heartbeat, whatever roots it advertises and whichever bridge
  sends it, and through stopping, forgetting and coming back; only the operator's route changes them.\<close>

theorem manual_roots_stay:
  assumes "update_environment_roots e i roots False actor x = Inr y" and "(host_step digest)\<^sup>*\<^sup>* (y, log) (z, log')"
  shows "\<exists>r. entry_of i z = Some r \<and> ev_roots r = JList (map JStr (normalize_roots (case roots of Some rs \<Rightarrow> rs | None \<Rightarrow> [])))"
proof -
  obtain r where r: "entry_of i x = Some r" using assms(1) by (cases "entry_of i x") (auto simp: update_environment_roots_def Let_def)
  then have "has_manual_roots i (JList (map JStr (normalize_roots (case roots of Some rs \<Rightarrow> rs | None \<Rightarrow> [])))) y"
    using assms(1) by (auto simp: update_environment_roots_def has_manual_roots_def Let_def mget_def split: if_splits)
  moreover have "has_manual_roots i rs (fst t)" if "(host_step digest)\<^sup>*\<^sup>* s t" "has_manual_roots i rs (fst s)" for rs s t
    using that by (induction rule: rtranclp_induct) (auto intro: manual_step)
  ultimately show ?thesis using assms(2) by (fastforce simp: has_manual_roots_def)
qed

subsection \<open>Which terminals end\<close>

definition silent_for :: "(string \<Rightarrow> int) \<Rightarrow> int \<Rightarrow> held_row \<Rightarrow> int \<Rightarrow> bool" where
  "silent_for epoch now r s = (epoch (hr_updated_at r) \<noteq> 0 \<and> now - epoch (hr_updated_at r) > s)"

lemma unheld_rows:
  "terminals_the_host_no_longer_holds epoch now grace bridge named rows = map hr_id (filter (\<lambda>r. hr_id r \<noteq> [] \<and> hr_id r \<notin> set named
     \<and> norm_word (hr_status r) \<in> set CONFIRMED_STATUSES \<and> \<not> prefix ''vterm_'' (hr_id r) \<and> hr_command r \<notin> set VIRTUAL_RPC_COMMAND_SET
     \<and> (if bridge \<noteq> [] \<and> py_strip (hr_bridge r) = bridge then grace = 0 \<or> silent_for epoch now r grace else silent_for epoch now r 90)) rows)"
  by (induction rows) (simp_all add: Let_def silent_for_def PEER_SILENCE_SECONDS_def not_le)

text \<open>Which terminals a heartbeat ends. A terminal ends exactly if the beat speaks for a bridge and lists the terminals its host holds, the list does not name it, its host once confirmed it, a process
  stands behind it, and it has not been touched within the grace: none for an offline beat of its own bridge, 20 seconds for another beat of its bridge, and 90 seconds for the terminal of
  any other bridge. An unreadable time is no evidence of age.\<close>

theorem terminal_ends_iff_unheld_and_silent:
  "i \<in> set (ended_by_beat e b rows) \<longleftrightarrow> beat_bridge b \<noteq> [] \<and> i \<noteq> []
    \<and> (\<exists>js. bt_held b = Some (JList js) \<and> i \<notin> (\<lambda>j. case j of JStr s \<Rightarrow> s | _ \<Rightarrow> be_spell e j) ` set js)
    \<and> (\<exists>r. r \<in> set rows \<and> hr_id r = i \<and> norm_word (hr_status r) \<in> {''attached'', ''running'', ''active'', ''idle''}
       \<and> \<not> prefix ''vterm_'' i \<and> hr_command r \<notin> set VIRTUAL_RPC_COMMAND_SET
       \<and> (if py_strip (hr_bridge r) = beat_bridge b then bt_status b = ''offline'' \<or> silent_for (be_epoch e) (be_clock e) r 20 else silent_for (be_epoch e) (be_clock e) r 90))"
proof -
  have confirmed: "set CONFIRMED_STATUSES = {''attached'', ''running'', ''active'', ''idle''}" by (auto simp: CONFIRMED_STATUSES_def TERMINAL_ACTIVE_STATUSES_def)
  show ?thesis
  proof (cases "beat_bridge b \<noteq> [] \<and> (\<exists>js. bt_held b = Some (JList js))")
    case True
    then obtain js where js: "bt_held b = Some (JList js)" "beat_bridge b \<noteq> []" by blast
    show ?thesis using js unfolding ended_by_beat_def unheld_rows confirmed by (auto simp: HELD_TERMINALS_GRACE_SECONDS_def)
  next
    case False
    then have "ended_by_beat e b rows = []" by (auto simp: ended_by_beat_def split: option.split json.split)
    then show ?thesis using False by auto
  qed
qed

subsection \<open>A row and two bridges\<close>

definition demo_beats :: beat_env where
  "demo_beats = \<lparr>be_now = ''6'', be_clock = 1000, be_ahead = ''8'', be_cutoff = ''4'', be_iso = Some, be_epoch = (\<lambda>s. if s = [] then 0 else 10 * of_char (hd s)),
     be_read = (\<lambda>_. Some (950, True)), be_spell = (\<lambda>_. [])\<rparr>"

definition demo_beat_request :: "string \<Rightarrow> string \<Rightarrow> beat_request" where
  "demo_beat_request bridge started = \<lparr>hb_id = ''e1'', hb_hostname = [], hb_label = [], hb_machine = ''linux:h'', hb_os = [], hb_kind = [], hb_bridge = bridge, hb_version = [],
     hb_launcher = [], hb_fingerprint = [], hb_roots = Some [''/w'', ''/w/''], hb_runtimes = None, hb_terminal = Some True, hb_pty = None, hb_terminal_runtimes = None, hb_status = [],
     hb_meta = [(''bridgeStartedAt'', JStr started), (''heldTerminals'', JList [JStr ''t1''])]\<rparr>"

definition demo_beat :: "string \<Rightarrow> string \<Rightarrow> environment_beat" where
  "demo_beat bridge started = from_request demo_beats (demo_beat_request bridge started) ''e1''"

definition no_environments :: env_db where
  "no_environments = \<lparr>ev_rows = [], ev_controls = [], ev_proofs = [(''linux:h'', lit ''p'')], ev_next = 0\<rparr>"

definition beaten :: "string \<Rightarrow> string \<Rightarrow> env_db \<Rightarrow> env_db" where
  "beaten bridge started x = snd (record_environment_heartbeat id demo_beats (demo_beat bridge started) (lit ''p'') x)"

definition demo_row_db :: env_db where
  "demo_row_db = beaten ''b1'' ''5'' no_environments"

lemma written_row: "record_environment_heartbeat id demo_beats (demo_beat bridge started) (lit ''p'') x
    = (fst (record_environment_heartbeat id demo_beats (demo_beat bridge started) (lit ''p'') x), beaten bridge started x)"
  by (simp add: beaten_def)

theorem holder_changes_only_by_arbitration_witness:
  "map_option ev_bridge (entry_of ''e1'' demo_row_db) = Some ''b1'' \<and> map_option ev_bridge (entry_of ''e1'' (beaten ''b2'' ''7'' demo_row_db)) = Some ''b2''
   \<and> map_option ev_bridge (entry_of ''e1'' (beaten ''b2'' ''3'' demo_row_db)) = Some ''b1''
   \<and> map (\<lambda>k. (ec_bridge k, ec_action k, ec_status k)) (ev_controls (beaten ''b2'' ''7'' demo_row_db)) = [(''b1'', ''stop'', ''pending'')]
   \<and> bt_status (demo_beat ''b2'' ''7'') = ''online'' \<and> beat_bridge (demo_beat ''b2'' ''7'') = ''b2''"
proof -
  have c: "map_option ev_bridge (entry_of ''e1'' demo_row_db) = Some ''b1''" "map_option ev_bridge (entry_of ''e1'' (beaten ''b2'' ''7'' demo_row_db)) = Some ''b2''"
    "map_option ev_bridge (entry_of ''e1'' (beaten ''b2'' ''3'' demo_row_db)) = Some ''b1''"
    "map (\<lambda>k. (ec_bridge k, ec_action k, ec_status k)) (ev_controls (beaten ''b2'' ''7'' demo_row_db)) = [(''b1'', ''stop'', ''pending'')]"
    "py_strip ''b1'' = ''b1''" "py_strip ''b2'' = ''b2''" by code_simp+
  obtain r r' where r: "entry_of ''e1'' demo_row_db = Some r" "ev_bridge r = ''b1''" "entry_of ''e1'' (beaten ''b2'' ''7'' demo_row_db) = Some r'" "ev_bridge r' = ''b2''"
    using c(1,2) by auto
  from holder_changes_only_by_arbitration [OF written_row r(1) _ r(3)] have "bt_status (demo_beat ''b2'' ''7'') = ''online'' \<and> ''b2'' = beat_bridge (demo_beat ''b2'' ''7'')"
    using r(2,4) c(5,6) by simp
  then show ?thesis using c by simp
qed

theorem advertisement_keeps_the_bridge_witness:
  "map_option (\<lambda>r. (ev_bridge r, map fst (filter (\<lambda>(k, _). is_bridge_key k) (ev_meta r)), mget (ev_meta r) ''bridgeStartedAt'')) (entry_of ''e1'' (beaten [] ''7'' demo_row_db))
     = Some (''b1'', [''bridgeStartedAt'', ''bridgeLastSeen''], JStr ''5'')
   \<and> (\<exists>r'. entry_of ''e1'' (beaten [] ''7'' demo_row_db) = Some r' \<and> ev_bridge r' = ''b1'' \<and> ev_controls (beaten [] ''7'' demo_row_db) = ev_controls demo_row_db)"
proof -
  have c: "map_option ev_bridge (entry_of ''e1'' demo_row_db) = Some ''b1''" "beat_bridge (demo_beat [] ''7'') = []" "bt_env (demo_beat [] ''7'') = ''e1''"
    "map_option (\<lambda>r. (ev_bridge r, map fst (filter (\<lambda>(k, _). is_bridge_key k) (ev_meta r)), mget (ev_meta r) ''bridgeStartedAt'')) (entry_of ''e1'' (beaten [] ''7'' demo_row_db))
      = Some (''b1'', [''bridgeStartedAt'', ''bridgeLastSeen''], JStr ''5'')" by code_simp+
  obtain r where r: "entry_of (bt_env (demo_beat [] ''7'')) demo_row_db = Some r" "ev_bridge r = ''b1''" using c(1,3) by auto
  from advertisement_keeps_the_bridge [OF written_row r(1) c(2)] r(2) c(3,4) show ?thesis by auto
qed

definition demo_forgotten :: env_db where
  "demo_forgotten = (case control_environment demo_beats ''e1'' ''forget'' ''op'' False False demo_row_db of Inr x \<Rightarrow> x | Inl _ \<Rightarrow> demo_row_db)"

theorem forgotten_until_relaunched_witness:
  "map_option ev_status (entry_of ''e1'' (foldl (receive id) demo_forgotten [(demo_beats, demo_beat ''b1'' ''5'', lit ''p''), (demo_beats, demo_beat [] [], lit ''p'')])) = Some ''forgotten''
   \<and> map_option ev_status (entry_of ''e1'' (beaten ''b1'' ''7'' demo_forgotten)) = Some ''online''"
proof -
  have c: "case control_environment demo_beats ''e1'' ''forget'' ''op'' False False demo_row_db of Inr _ \<Rightarrow> True | Inl _ \<Rightarrow> False"
    "norm_word ''forget'' = ''forget''" "be_now demo_beats \<noteq> []" "map_option ev_status (entry_of ''e1'' (beaten ''b1'' ''7'' demo_forgotten)) = Some ''online''"
    "bridge_started_at demo_beats (bt_meta (demo_beat [] [])) = []" "timestamp_sort_key demo_beats (be_now demo_beats) \<noteq> []"
    "\<not> later (bridge_started_at demo_beats (bt_meta (demo_beat ''b1'' ''5''))) (timestamp_sort_key demo_beats (be_now demo_beats))" by code_simp+
  have f: "control_environment demo_beats ''e1'' ''forget'' ''op'' False False demo_row_db = Inr demo_forgotten"
    using c(1) unfolding demo_forgotten_def by (auto split: sum.splits)
  from forgotten_until_relaunched [OF f c(2,3), of "[(demo_beats, demo_beat ''b1'' ''5'', lit ''p''), (demo_beats, demo_beat [] [], lit ''p'')]" id] c(4-7)
  show ?thesis by simp
qed

definition demo_control_claim :: "string \<Rightarrow> control_claim" where
  "demo_control_claim bridge = \<lparr>cc_env = ''e1'', cc_bridge = bridge, cc_machine = []\<rparr>"

definition demo_two_stops :: env_db where
  "demo_two_stops = (case control_environment (demo_beats\<lparr>be_now := ''9''\<rparr>) ''e1'' ''stop'' ''op'' False False (beaten ''b1'' ''8'' (beaten ''b2'' ''7'' demo_row_db)) of Inr x \<Rightarrow> x | Inl _ \<Rightarrow> demo_row_db)"

lemma reaches_two_stops: "(env_step id)\<^sup>*\<^sup>* (no_environments, []) (demo_two_stops, [])"
proof -
  have b: "(env_step id)\<^sup>*\<^sup>* (x, log) (beaten bridge started x, log)" for x log bridge started
    by (rule r_into_rtranclp, rule env_step.host, rule host_step.beat [OF written_row])
  have "(case control_environment (demo_beats\<lparr>be_now := ''9''\<rparr>) ''e1'' ''stop'' ''op'' False False (beaten ''b1'' ''8'' (beaten ''b2'' ''7'' demo_row_db)) of Inr _ \<Rightarrow> True | Inl _ \<Rightarrow> False)" by code_simp
  then have "control_environment (demo_beats\<lparr>be_now := ''9''\<rparr>) ''e1'' ''stop'' ''op'' False False (beaten ''b1'' ''8'' (beaten ''b2'' ''7'' demo_row_db)) = Inr demo_two_stops"
    unfolding demo_two_stops_def by (auto split: sum.splits)
  then have "env_step id (beaten ''b1'' ''8'' (beaten ''b2'' ''7'' demo_row_db), []) (demo_two_stops, [])" by (intro env_step.host host_step.operator)
  moreover have "(env_step id)\<^sup>*\<^sup>* (no_environments, []) (beaten ''b1'' ''8'' (beaten ''b2'' ''7'' demo_row_db), [])"
    unfolding demo_row_db_def by (rule rtranclp_trans [OF rtranclp_trans [OF b b] b])
  ultimately show ?thesis by (rule rtranclp.rtrancl_into_rtrancl [rotated])
qed

text \<open>\<open>b1\<close> lost the row and won it back before it took the stop that was queued for it: that stop is failed, and the operator's is handed out.\<close>

theorem owner_is_not_stopped_as_superseded_witness:
  "\<exists>t. claim_environment_control_once id demo_beats (demo_control_claim ''b1'') (demo_two_stops, []) [ev_controls demo_two_stops ! 0] (Some (ev_controls demo_two_stops ! 2)) t
     \<and> map (\<lambda>k. (ec_by k, ec_status k)) (ev_controls (fst t)) = [(''server:superseded-bridge'', ''failed''), (''server:superseded-bridge'', ''pending''), (''op'', ''claimed'')]
     \<and> ec_status (ev_controls (fst t) ! 0) \<noteq> ''pending'' \<and> last (snd t) = ec_id (ev_controls demo_two_stops ! 2)"
proof -
  let ?q = "demo_control_claim ''b1''" and ?v = "ev_controls demo_two_stops ! 0" and ?k = "ev_controls demo_two_stops ! 2"
  let ?x = "set_pending (ec_id ?v) ''failed'' demo_two_stops"
  let ?y = "set_pending (ec_id ?k) ''claimed'' ?x"
  have r1: "first_pending ?q demo_two_stops = Some ?v" by code_simp
  have r2: "must_not_honour demo_beats ?q (entry_of (cc_env ?q) demo_two_stops) ?v" by code_simp
  have r3: "first_pending ?q ?x = Some ?k" by code_simp
  have r4: "\<not> must_not_honour demo_beats ?q (entry_of (cc_env ?q) ?x) ?k" by code_simp
  have r5: "filter (\<lambda>y. ec_id y = ec_id ?k \<and> ec_status y = ''pending'') (ev_controls ?x) \<noteq> []" by code_simp
  have r6: "map (\<lambda>k. (ec_by k, ec_status k)) (ev_controls ?y) = [(''server:superseded-bridge'', ''failed''), (''server:superseded-bridge'', ''pending''), (''op'', ''claimed'')]" by code_simp
  have r7: "ec_id (ev_controls ?y ! 0) = ec_id ?v" by code_simp
  have r8: "length (ev_controls ?y) = 3" by code_simp
  have r9: "ev_controls no_environments = []" by code_simp
  have take: "take_control ?k ?x = (Some ?k, ?y)" using r5 by (simp add: take_control_def)
  have "claim_environment_control_once id demo_beats ?q (?x, []) [] (Some ?k) (?y, [] @ [ec_id ?k])"
    by (rule handed [of ?q "(?x, [])" ?k id "(?x, [])" demo_beats ?x "[]" ?y]) (use r3 r4 take in simp_all)
  then have c: "claim_environment_control_once id demo_beats ?q (demo_two_stops, []) [?v] (Some ?k) (?y, [ec_id ?k])"
    by (intro not_honoured [of ?q "(demo_two_stops, [])" ?v id "(demo_two_stops, [])" demo_beats demo_two_stops "[]" "(?x, [])"]) (use r1 r2 in simp_all)
  note main = owner_is_not_stopped_as_superseded [OF reaches_two_stops r9 c]
  have "ev_controls ?y ! 0 \<in> set (ev_controls ?y)" using r8 by simp
  then have "ec_status (ev_controls ?y ! 0) \<noteq> ''pending''" using conjunct2 [OF bspec [OF conjunct1 [OF main], of ?v], rule_format, of "(?y, [ec_id ?k])"] r7 by simp
  moreover have "last (snd (?y, [ec_id ?k])) = ec_id ?k" using main by auto
  ultimately show ?thesis using c r6 by (intro exI [of _ "(?y, [ec_id ?k])"]) simp
qed

theorem control_is_handed_out_once_witness:
  "(env_step id)\<^sup>*\<^sup>* (no_environments, []) (snd (take_control (ev_controls demo_two_stops ! 2) demo_two_stops), [''envctl-2'']) \<and> distinct [''envctl-2'']"
proof -
  have c: "map_option ec_id (fst (take_control (ev_controls demo_two_stops ! 2) demo_two_stops)) = Some ''envctl-2''" "ev_controls no_environments = []" by code_simp+
  obtain k y where k: "take_control (ev_controls demo_two_stops ! 2) demo_two_stops = (Some k, y)" "ec_id k = ''envctl-2''"
    by (cases "take_control (ev_controls demo_two_stops ! 2) demo_two_stops") (use c(1) in auto)
  have h: "host_step id (demo_two_stops, []) (y, [''envctl-2''])" using host_step.hand_out [OF k(1), of id "[]"] unfolding k(2) append_Nil .
  have "env_step id (demo_two_stops, []) (y, [''envctl-2''])" using h by (rule env_step.host)
  with reaches_two_stops have run: "(env_step id)\<^sup>*\<^sup>* (no_environments, []) (y, [''envctl-2''])" by (rule rtranclp.rtrancl_into_rtrancl)
  have "distinct [''envctl-2'']" using control_is_handed_out_once [OF run c(2)] by (rule conjunct1)
  with run show ?thesis unfolding k(1) snd_conv by (rule conjI)
qed

definition demo_rooted :: env_db where
  "demo_rooted = (case update_environment_roots demo_beats ''e1'' (Some [''/own'']) False ''op'' demo_row_db of Inr x \<Rightarrow> x | Inl _ \<Rightarrow> demo_row_db)"

theorem manual_roots_stay_witness:
  "map_option ev_roots (entry_of ''e1'' demo_row_db) = Some (JList [JStr ''/w''])
   \<and> map_option ev_roots (entry_of ''e1'' (beaten ''b2'' ''7'' demo_rooted)) = Some (JList [JStr ''/own''])"
proof -
  have c: "case update_environment_roots demo_beats ''e1'' (Some [''/own'']) False ''op'' demo_row_db of Inr _ \<Rightarrow> True | Inl _ \<Rightarrow> False"
    "map_option ev_roots (entry_of ''e1'' demo_row_db) = Some (JList [JStr ''/w''])" "normalize_roots [''/own''] = [''/own'']" by code_simp+
  have u: "update_environment_roots demo_beats ''e1'' (Some [''/own'']) False ''op'' demo_row_db = Inr demo_rooted"
    using c(1) unfolding demo_rooted_def by (auto split: sum.splits)
  have "(host_step id)\<^sup>*\<^sup>* (demo_rooted, []) (beaten ''b2'' ''7'' demo_rooted, [])" by (rule r_into_rtranclp, rule host_step.beat [OF written_row])
  from manual_roots_stay [OF u this] show ?thesis using c(2,3) by auto
qed

text \<open>An environment the operator stopped is online again with its bridge's next heartbeat.\<close>

lemma beat_enables_disabled:
  "map_option ev_status (entry_of ''e1'' demo_two_stops) = Some ''disabled'' \<and> map_option ev_status (entry_of ''e1'' (beaten ''b1'' ''8'' demo_two_stops)) = Some ''online''"
  by code_simp

end
