(* ===== verification/TerminalControls.thy ===== *)
theory TerminalControls
  imports Environments TerminalEvents "HOL-Library.Multiset"
begin

text \<open>
  Terminal controls: keystrokes, resizes, starts and stops that a host carries out. How they are queued is in \<open>TerminalEvents\<close>. Here: the claim
  (\<open>service/api_core/terminal_controls_io.py\<close>), the host's report (\<open>service/routers/terminal_controls.py\<close>, \<open>api_core/terminal_control_status.py\<close>) and
  the sweeps (\<open>reconcilers/terminal_controls.py\<close>).

  A terminal is its status, pid, size and whether its exit was reported; that an agent's state points at a terminal is a set of ids. The closing of
  a terminal's runs, the session mirror, reported output and the times and errors of a control are left out.
\<close>

declare split_paired_All [simp del] split_paired_Ex [simp del]

record term_state =
  tz_status :: string
  tz_pid :: string
  tz_cols :: int
  tz_rows :: int
  tz_exited :: bool

record control_db =
  cd_env :: env_db
  cd_controls :: "tcontrol list"
  cd_terminals :: "(string \<times> term_state) list"
  cd_bound :: "string set"

definition is_open :: "tcontrol \<Rightarrow> bool" where
  "is_open c = (tc_status c = ''pending'' \<or> tc_status c = ''claimed'')"

definition is_stop :: "tcontrol \<Rightarrow> bool" where
  "is_stop c = (py_lower (tc_action c) = ''stop'')"

definition update_controls :: "(tcontrol \<Rightarrow> bool) \<Rightarrow> (tcontrol \<Rightarrow> tcontrol) \<Rightarrow> control_db \<Rightarrow> control_db" where
  "update_controls P f x = x\<lparr>cd_controls := map (\<lambda>c. if P c then f c else c) (cd_controls x)\<rparr>"

definition set_status :: "string \<Rightarrow> tcontrol \<Rightarrow> tcontrol" where
  "set_status s c = c\<lparr>tc_status := s\<rparr>"

subsection \<open>The claim\<close>

text \<open>Without the lock the host's oldest pending controls are read; with it those still pending are claimed, and returned in the order they were read.\<close>

definition by_request :: "tcontrol list \<Rightarrow> tcontrol list" where
  "by_request cs = sort_key (lit \<circ> tc_requested_at) (sort_key (lit \<circ> tc_id) cs)"

definition selected_controls :: "string \<Rightarrow> string \<Rightarrow> control_db \<Rightarrow> string list" where
  "selected_controls env bridge x = map tc_id (take 20 (by_request (filter (\<lambda>c. tc_environment c = env \<and> tc_bridge c = bridge \<and> tc_status c = ''pending'') (cd_controls x))))"

definition unproven_host :: "(ustr \<Rightarrow> ustr) \<Rightarrow> ustr \<Rightarrow> string \<Rightarrow> control_db \<Rightarrow> bool" where
  "unproven_host digest presented env x = (case entry_of env (cd_env x) of None \<Rightarrow> False
     | Some r \<Rightarrow> (case judge_host_proof digest (ev_proofs (cd_env x)) [ev_machine r] presented of Refuses _ \<Rightarrow> True | Accepts _ \<Rightarrow> False))"

definition rank :: "string list \<Rightarrow> string \<Rightarrow> nat" where
  "rank ids i = length (takeWhile (\<lambda>j. j \<noteq> i) ids)"

definition claim_selected :: "string list \<Rightarrow> control_db \<Rightarrow> tcontrol list \<times> control_db" where
  "claim_selected ids x =
     (let won = (\<lambda>c. tc_id c \<in> set ids \<and> tc_status c = ''pending'') in
      (sort_key (rank ids \<circ> tc_id) (map (set_status ''claimed'') (filter won (cd_controls x))), update_controls won (set_status ''claimed'') x))"

definition claim_terminal_controls_once :: "(ustr \<Rightarrow> ustr) \<Rightarrow> ustr \<Rightarrow> string \<Rightarrow> string \<Rightarrow> control_db \<Rightarrow> tcontrol list option \<times> control_db" where
  "claim_terminal_controls_once digest presented env bridge x =
     (if unproven_host digest presented env x then (None, x)
      else (let ids = selected_controls env bridge x in
            if ids = [] then (Some [], x)
            else if unproven_host digest presented env x then (None, x)
            else (case claim_selected ids x of (out, y) \<Rightarrow> (Some out, y))))"

subsection \<open>The host's report\<close>

record control_report =
  cr_status :: string
  cr_terminal_status :: string
  cr_pid :: string
  cr_cols :: int
  cr_rows :: int

datatype report_refusal = Bad_Report_Status | No_Such_Control | Owner_Gone | Report_Unproven | Terminal_Gone

definition implied_status :: "control_report \<Rightarrow> tcontrol \<Rightarrow> string \<Rightarrow> string" where
  "implied_status u c status =
     (let s1 = py_strip (cr_terminal_status u); s2 = (if status = ''failed'' then or_else s1 ''failed'' else s1) in
      if tc_action c = ''stop'' \<and> status = ''completed'' then or_else s2 ''stopped'' else s2)"

definition update_terminal :: "string \<Rightarrow> (term_state \<Rightarrow> term_state) \<Rightarrow> control_db \<Rightarrow> control_db" where
  "update_terminal i f x = x\<lparr>cd_terminals := map (\<lambda>(j, t). if j = i then (j, f t) else (j, t)) (cd_terminals x)\<rparr>"

definition apply_terminal_status_from_control :: "control_report \<Rightarrow> tcontrol \<Rightarrow> term_state \<Rightarrow> string \<Rightarrow> control_db \<Rightarrow> control_db" where
  "apply_terminal_status_from_control u c t status x =
     (if tc_action c = ''start'' \<and> status = ''completed'' \<and> tz_exited t then x
      else (let s = implied_status u c status;
                x1 = (if s = [] then x else update_terminal (tc_terminal c) (\<lambda>t. t\<lparr>tz_status := norm_word s\<rparr>) x) in
            if s \<in> {''stopped'', ''failed''} then x1\<lparr>cd_bound := cd_bound x1 - {tc_terminal c}\<rparr> else x1))"

definition report_size :: "control_report \<Rightarrow> tcontrol \<Rightarrow> string \<Rightarrow> control_db \<Rightarrow> control_db" where
  "report_size u c status x =
     (let x1 = (if status = ''completed'' \<and> norm_word (tc_action c) = ''resize'' \<and> tc_cols c > 0 \<and> tc_rows c > 0
                then update_terminal (tc_terminal c) (\<lambda>t. t\<lparr>tz_cols := tc_cols c, tz_rows := tc_rows c\<rparr>) x else x) in
      if status = ''completed'' \<and> cr_cols u > 0 \<and> cr_rows u > 0
      then update_terminal (tc_terminal c) (\<lambda>t. t\<lparr>tz_cols := cr_cols u, tz_rows := cr_rows u\<rparr>) x1 else x1)"

definition update_terminal_control :: "(ustr \<Rightarrow> ustr) \<Rightarrow> ustr \<Rightarrow> string \<Rightarrow> control_report \<Rightarrow> control_db \<Rightarrow> report_refusal + control_db" where
  "update_terminal_control digest presented i u x =
     (let status = norm_word (cr_status u) in
      if status \<notin> {''completed'', ''failed''} then Inl Bad_Report_Status
      else (case find (\<lambda>c. tc_id c = i) (cd_controls x) of
          None \<Rightarrow> Inl No_Such_Control
        | Some c \<Rightarrow>
            if entry_of (tc_environment c) (cd_env x) = None then Inl Owner_Gone
            else if unproven_host digest presented (tc_environment c) x then Inl Report_Unproven
            else (case map_of (cd_terminals x) (tc_terminal c) of
                None \<Rightarrow> Inl Terminal_Gone
              | Some t \<Rightarrow>
                  (let x1 = update_controls (\<lambda>c. tc_id c = i) (set_status status) x;
                       x2 = (if py_strip (cr_pid u) = [] then x1 else update_terminal (tc_terminal c) (\<lambda>t. t\<lparr>tz_pid := py_strip (cr_pid u)\<rparr>) x1) in
                   Inr (report_size u c status (apply_terminal_status_from_control u c t status x2))))))"

subsection \<open>The sweeps\<close>

definition inactive_terminal :: "control_db \<Rightarrow> string \<Rightarrow> bool" where
  "inactive_terminal x i = (case map_of (cd_terminals x) i of Some t \<Rightarrow> tz_status t \<notin> set TERMINAL_ACTIVE_STATUSES | None \<Rightarrow> False)"

text \<open>The five statements of the start-up sweep, in order.\<close>

definition fail_inactive :: "control_db \<Rightarrow> control_db" where
  "fail_inactive x = update_controls (\<lambda>c. is_open c \<and> \<not> is_stop c \<and> inactive_terminal x (tc_terminal c)) (set_status ''failed'') x"

definition new_owner :: "string \<Rightarrow> control_db \<Rightarrow> tcontrol \<Rightarrow> string option" where
  "new_owner cutoff x c = (case entry_of (tc_environment c) (cd_env x) of
     Some r \<Rightarrow> if environment_actionable cutoff r \<and> ev_bridge r \<noteq> tc_bridge c \<and> ev_bridge r \<noteq> [] then Some (ev_bridge r) else None
   | None \<Rightarrow> None)"

definition retarget_stops :: "string \<Rightarrow> control_db \<Rightarrow> control_db" where
  "retarget_stops cutoff x = x\<lparr>cd_controls := map (\<lambda>c. if is_open c \<and> is_stop c
     then (case new_owner cutoff x c of Some b \<Rightarrow> c\<lparr>tc_bridge := b, tc_status := ''pending''\<rparr> | None \<Rightarrow> c) else c) (cd_controls x)\<rparr>"

definition fail_unreachable :: "string \<Rightarrow> control_db \<Rightarrow> control_db" where
  "fail_unreachable cutoff x = update_controls (\<lambda>c. is_open c \<and> \<not> reachable_bridge cutoff (tc_environment c) (tc_bridge c) (cd_env x)) (set_status ''failed'') x"

definition newer_resize :: "tcontrol \<Rightarrow> tcontrol \<Rightarrow> bool" where
  "newer_resize stale c = (tc_terminal c = tc_terminal stale \<and> tc_action c = ''resize'' \<and> tc_status c = ''pending''
     \<and> (later (tc_requested_at c) (tc_requested_at stale) \<or> tc_requested_at c = tc_requested_at stale \<and> later (tc_id c) (tc_id stale)))"

definition fail_stale_resizes :: "control_db \<Rightarrow> control_db" where
  "fail_stale_resizes x = update_controls (\<lambda>c. tc_action c = ''resize'' \<and> tc_status c = ''pending'' \<and> (\<exists>d \<in> set (cd_controls x). newer_resize c d)) (set_status ''failed'') x"

definition reconcile_terminal_controls :: "string \<Rightarrow> control_db \<Rightarrow> control_db" where
  "reconcile_terminal_controls cutoff x =
     (let x1 = fail_unreachable cutoff (retarget_stops cutoff (fail_inactive x)) in
      fail_stale_resizes (x1\<lparr>cd_env := fail_unreachable_environment_controls cutoff (cd_env x1)\<rparr>))"

definition fail_pending_terminal_controls :: "string \<Rightarrow> string list \<Rightarrow> control_db \<Rightarrow> control_db" where
  "fail_pending_terminal_controls i spared = update_controls (\<lambda>c. tc_terminal c = i \<and> is_open c \<and> tc_id c \<noteq> [] \<and> py_lower (tc_action c) \<notin> set spared) (set_status ''failed'')"

text \<open>The periodic sweep. The selected terminals come in no particular order; which of them fall under the limit is an argument.\<close>

definition ended_with_controls :: "control_db \<Rightarrow> string list" where
  "ended_with_controls x = filter (\<lambda>i. inactive_terminal x i \<and> (\<exists>c \<in> set (cd_controls x). tc_terminal c = i \<and> is_open c \<and> \<not> is_stop c)) (map fst (cd_terminals x))"

definition reconcile_ended_terminal_controls :: "(string list \<Rightarrow> string list) \<Rightarrow> control_db \<Rightarrow> control_db" where
  "reconcile_ended_terminal_controls pick x = fold (\<lambda>i. fail_pending_terminal_controls i [''stop'']) (pick (ended_with_controls x)) x"

text \<open>A stop that no bridge can take is settled where it was asked for.\<close>

definition reconcile_stop_for_unclaimable_terminal :: "string \<Rightarrow> string \<Rightarrow> control_db \<Rightarrow> control_db" where
  "reconcile_stop_for_unclaimable_terminal i cid x =
     (let x1 = update_terminal i (\<lambda>t. t\<lparr>tz_status := ''stopped''\<rparr>) (update_controls (\<lambda>c. tc_id c = cid) (set_status ''completed'') x) in
      x1\<lparr>cd_bound := cd_bound x1 - {i}\<rparr>)"

subsection \<open>What a claim returns\<close>

lemma set_status_keeps [simp]: "tc_id (set_status s c) = tc_id c" "tc_action (set_status s c) = tc_action c" "tc_status (set_status s c) = s"
  "tc_environment (set_status s c) = tc_environment c" "tc_bridge (set_status s c) = tc_bridge c" "tc_terminal (set_status s c) = tc_terminal c"
  by (simp_all add: set_status_def)

lemma rank_Cons: "rank (j # js) i = (if j = i then 0 else Suc (rank js i))"
  by (simp add: rank_def)

lemma ranks: "distinct ids \<Longrightarrow> map (rank ids) ids = [0..<length ids]"
proof (induction ids)
  case (Cons i ids)
  have "map (rank (i # ids)) ids = map (Suc \<circ> rank ids) ids" using Cons.prems by (auto simp: rank_Cons)
  also have "\<dots> = map Suc [0..<length ids]" using Cons by (simp add: map_map [symmetric] del: map_map)
  also have "\<dots> = [1..<Suc (length ids)]" by (simp add: map_Suc_upt)
  finally have "map (rank (i # ids)) ids = [1..<Suc (length ids)]" .
  moreover have "rank (i # ids) i = 0" by (simp add: rank_Cons)
  ultimately show ?case by (simp add: upt_conv_Cons del: upt_Suc)
qed simp

lemma claim_returns_selection:
  assumes "distinct (map tc_id cs)" and "set sel \<subseteq> set cs" and "distinct sel" and pending: "\<And>c. c \<in> set sel \<Longrightarrow> tc_status c = ''pending''"
  shows "sort_key (rank (map tc_id sel) \<circ> tc_id) (map (set_status s) (filter (\<lambda>c. tc_id c \<in> set (map tc_id sel) \<and> tc_status c = ''pending'') cs)) = map (set_status s) sel"
proof (rule sort_key_inj_key_eq)
  let ?w = "filter (\<lambda>c. tc_id c \<in> set (map tc_id sel) \<and> tc_status c = ''pending'') cs" and ?f = "rank (map tc_id sel) \<circ> tc_id"
  have inj: "inj_on tc_id (set cs)" using assms(1) by (simp add: distinct_map)
  have "c \<in> set sel" if c: "c \<in> set ?w" for c
  proof -
    obtain d where d: "d \<in> set sel" "tc_id d = tc_id c" using c by auto
    then have "d \<in> set cs" "c \<in> set cs" using assms(2) c by auto
    then show ?thesis using inj_onD [OF inj d(2)] d(1) by simp
  qed
  moreover have "c \<in> set ?w" if "c \<in> set sel" for c using that assms(2) pending [OF that] by auto
  ultimately have "set ?w = set sel" by blast
  moreover have "distinct ?w" using assms(1) by (simp add: distinct_map)
  ultimately have "mset ?w = mset sel" using assms(3) set_eq_iff_mset_eq_distinct by blast
  then show m: "mset (map (set_status s) ?w) = mset (map (set_status s) sel)" by (simp only: mset_map)
  have ids: "distinct (map tc_id sel)" using assms(2,3) inj inj_on_subset by (simp add: distinct_map) blast
  have "map ?f (map (set_status s) sel) = map (rank (map tc_id sel)) (map tc_id sel)" by simp
  also have "\<dots> = [0..<length sel]" using ranks [OF ids] by simp
  finally have k: "map ?f (map (set_status s) sel) = [0..<length sel]" .
  then show "sorted (map ?f (map (set_status s) sel))" by simp
  have "distinct (map ?f (map (set_status s) sel))" unfolding k by simp
  then have "inj_on ?f (set (map (set_status s) sel))" unfolding distinct_map by simp
  then show "inj_on ?f (set (map (set_status s) ?w))" using mset_eq_setD [OF m] by simp
qed

lemma set_by_request: "set (by_request cs) = set cs" "distinct (by_request cs) = distinct cs"
  by (simp_all add: by_request_def)

text \<open>A host is given its controls in the order they were requested. What a claim answers is exactly the first twenty of the controls pending for the bridge in the environment, by request time and then by id, each now
  claimed: the write returns the rows in no order, and ranking them restores the order in which they were read.\<close>

theorem claim_is_in_request_order:
  assumes "claim_terminal_controls_once digest presented env bridge x = (Some out, y)" and "distinct (map tc_id (cd_controls x))"
  shows "out = map (set_status ''claimed'') (take 20 (by_request (filter (\<lambda>c. tc_environment c = env \<and> tc_bridge c = bridge \<and> tc_status c = ''pending'') (cd_controls x))))"
proof -
  let ?rows = "filter (\<lambda>c. tc_environment c = env \<and> tc_bridge c = bridge \<and> tc_status c = ''pending'') (cd_controls x)"
  define sel where "sel = take 20 (by_request ?rows)"
  have ids: "selected_controls env bridge x = map tc_id sel" by (simp add: selected_controls_def sel_def)
  have sub: "set sel \<subseteq> set ?rows" unfolding sel_def using set_take_subset [of 20 "by_request ?rows"] set_by_request(1) [of ?rows] by simp
  have "distinct ?rows" using assms(2) by (simp add: distinct_map)
  then have d: "distinct sel" unfolding sel_def using set_by_request(2) [of ?rows] by (simp add: distinct_take)
  show ?thesis
  proof (cases "sel = []")
    case True
    then show ?thesis using assms(1) ids unfolding sel_def claim_terminal_controls_once_def Let_def by (simp split: if_splits)
  next
    case False
    then have "out = fst (claim_selected (map tc_id sel) x)" using assms(1) ids unfolding claim_terminal_controls_once_def Let_def by (simp split: if_splits prod.splits)
    also have "\<dots> = map (set_status ''claimed'') sel" unfolding claim_selected_def Let_def fst_conv
      by (rule claim_returns_selection [OF assms(2) _ d]) (use sub in auto)
    finally show ?thesis unfolding sel_def .
  qed
qed

subsection \<open>Nothing but a stop is handed out twice\<close>

text \<open>Everything that happens to terminal controls, with the rows that were handed out. A claim's write comes after a read of any earlier state.\<close>

inductive control_step :: "(ustr \<Rightarrow> ustr) \<Rightarrow> control_db \<times> tcontrol list \<Rightarrow> control_db \<times> tcontrol list \<Rightarrow> bool" for digest where
  queue: "tc_id new \<notin> tc_id ` (set (cd_controls x) \<union> set log) \<Longrightarrow> tc_status new = ''pending''
    \<Longrightarrow> control_step digest (x, log) (x\<lparr>cd_controls := snd (append_terminal_control new (cd_controls x))\<rparr>, log)"
| claim: "claim_selected ids x = (out, y) \<Longrightarrow> control_step digest (x, log) (y, log @ out)"
| report: "update_terminal_control digest presented i u x = Inr y \<Longrightarrow> control_step digest (x, log) (y, log)"
| sweep: "control_step digest (x, log) (reconcile_terminal_controls cutoff x, log)"
| ended: "control_step digest (x, log) (reconcile_ended_terminal_controls pick x, log)"
| closed: "control_step digest (x, log) (fail_pending_terminal_controls i spared x, log)"
| settled: "control_step digest (x, log) (reconcile_stop_for_unclaimable_terminal i cid x, log)"
| other: "cd_controls y = cd_controls x \<Longrightarrow> control_step digest (x, log) (y, log)"

text \<open>A write that keeps ids and actions and makes nothing pending again but stops.\<close>

definition calm :: "control_db \<Rightarrow> control_db \<Rightarrow> bool" where
  "calm x y = (\<exists>f. cd_controls y = map f (cd_controls x)
     \<and> (\<forall>c. tc_id (f c) = tc_id c \<and> tc_action (f c) = tc_action c \<and> (tc_status (f c) = ''pending'' \<longrightarrow> tc_status c = ''pending'' \<or> is_stop c)))"

lemma calm_refl [simp]: "calm x x"
  unfolding calm_def by (rule exI [of _ id]) simp

lemma calm_same: "cd_controls y = cd_controls x \<Longrightarrow> calm x y"
  unfolding calm_def by (rule exI [of _ id]) simp

lemma calm_trans [trans]:
  assumes "calm x y" and "calm y z"
  shows "calm x z"
proof -
  obtain f g where f: "cd_controls y = map f (cd_controls x)" "\<forall>c. tc_id (f c) = tc_id c \<and> tc_action (f c) = tc_action c \<and> (tc_status (f c) = ''pending'' \<longrightarrow> tc_status c = ''pending'' \<or> is_stop c)"
    and g: "cd_controls z = map g (cd_controls y)" "\<forall>c. tc_id (g c) = tc_id c \<and> tc_action (g c) = tc_action c \<and> (tc_status (g c) = ''pending'' \<longrightarrow> tc_status c = ''pending'' \<or> is_stop c)"
    using assms unfolding calm_def by blast
  have "is_stop (f c) = is_stop c" for c using f(2) by (simp add: is_stop_def)
  then show ?thesis unfolding calm_def using f g by (intro exI [of _ "g \<circ> f"]) auto
qed

lemma calm_update: "s \<noteq> ''pending'' \<Longrightarrow> calm x (update_controls P (set_status s) x)"
  unfolding calm_def update_controls_def by (intro exI [of _ "\<lambda>c. if P c then set_status s c else c"]) auto

lemma calm_retarget: "calm x (retarget_stops cutoff x)"
  unfolding calm_def retarget_stops_def
  by (intro exI [of _ "\<lambda>c. if is_open c \<and> is_stop c then (case new_owner cutoff x c of Some b \<Rightarrow> c\<lparr>tc_bridge := b, tc_status := ''pending''\<rparr> | None \<Rightarrow> c) else c"])
    (auto split: option.split)

lemma calm_sweep: "calm x (reconcile_terminal_controls cutoff x)"
proof -
  let ?x1 = "fail_unreachable cutoff (retarget_stops cutoff (fail_inactive x))"
  have "calm x (fail_inactive x)" unfolding fail_inactive_def by (rule calm_update) simp
  also have "calm \<dots> (retarget_stops cutoff (fail_inactive x))" by (rule calm_retarget)
  also have "calm \<dots> ?x1" unfolding fail_unreachable_def by (rule calm_update) simp
  also have "calm \<dots> (?x1\<lparr>cd_env := fail_unreachable_environment_controls cutoff (cd_env ?x1)\<rparr>)" by (rule calm_same) simp
  also have "calm \<dots> (reconcile_terminal_controls cutoff x)" unfolding reconcile_terminal_controls_def Let_def fail_stale_resizes_def by (rule calm_update) simp
  finally show ?thesis .
qed

lemma calm_closed: "calm x (fail_pending_terminal_controls i spared x)"
  unfolding fail_pending_terminal_controls_def by (rule calm_update) simp

lemma calm_ended: "calm x (reconcile_ended_terminal_controls pick x)"
proof -
  have "calm x (fold (\<lambda>i. fail_pending_terminal_controls i [''stop'']) is x)" for "is" x
    by (induction "is" arbitrary: x) (auto intro: calm_trans [OF calm_closed])
  then show ?thesis by (simp add: reconcile_ended_terminal_controls_def)
qed

lemma controls_of_terminal [simp]: "cd_controls (update_terminal i f x) = cd_controls x"
  by (simp add: update_terminal_def)

lemma controls_of_report [simp]: "cd_controls (report_size u c s x) = cd_controls x" "cd_controls (apply_terminal_status_from_control u c t s x) = cd_controls x"
  by (simp_all add: report_size_def apply_terminal_status_from_control_def Let_def)

lemma calm_report:
  assumes "update_terminal_control digest presented i u x = Inr y"
  shows "calm x y"
proof -
  let ?s = "norm_word (cr_status u)"
  obtain c where c: "find (\<lambda>c. tc_id c = i) (cd_controls x) = Some c" using assms
    by (cases "find (\<lambda>c. tc_id c = i) (cd_controls x)") (auto simp: update_terminal_control_def Let_def split: if_splits)
  obtain t where t: "map_of (cd_terminals x) (tc_terminal c) = Some t" using assms c
    by (cases "map_of (cd_terminals x) (tc_terminal c)") (auto simp: update_terminal_control_def Let_def split: if_splits)
  have s: "?s \<in> {''completed'', ''failed''}" using assms by (auto simp: update_terminal_control_def Let_def split: if_splits)
  define x1 where "x1 = update_controls (\<lambda>c. tc_id c = i) (set_status ?s) x"
  have "y = report_size u c ?s (apply_terminal_status_from_control u c t ?s
      (if py_strip (cr_pid u) = [] then x1 else update_terminal (tc_terminal c) (\<lambda>t. t\<lparr>tz_pid := py_strip (cr_pid u)\<rparr>) x1))"
    using assms c t unfolding update_terminal_control_def Let_def x1_def by (simp split: if_splits)
  then have "cd_controls y = cd_controls x1" by simp
  moreover have "calm x x1" unfolding x1_def by (rule calm_update) (use s in auto)
  ultimately show ?thesis using calm_trans calm_same by blast
qed

lemma calm_settled: "calm x (reconcile_stop_for_unclaimable_terminal i cid x)"
proof -
  have "calm x (update_controls (\<lambda>c. tc_id c = cid) (set_status ''completed'') x)" by (rule calm_update) simp
  then show ?thesis unfolding reconcile_stop_for_unclaimable_terminal_def Let_def by (rule calm_trans) (rule calm_same, simp)
qed

definition handed_ok :: "control_db \<times> tcontrol list \<Rightarrow> bool" where
  "handed_ok s = (case s of (x, log) \<Rightarrow> distinct (map tc_id (cd_controls x)) \<and> distinct (map tc_id (filter (\<lambda>c. \<not> is_stop c) log))
     \<and> (\<forall>c \<in> set (cd_controls x). tc_status c = ''pending'' \<and> \<not> is_stop c \<longrightarrow> tc_id c \<notin> tc_id ` set log))"

lemma handed_calm:
  assumes "handed_ok (x, log)" and "calm x y"
  shows "handed_ok (y, log)"
proof -
  obtain f where f: "cd_controls y = map f (cd_controls x)" "\<And>c. tc_id (f c) = tc_id c" "\<And>c. tc_action (f c) = tc_action c" "\<And>c. tc_status (f c) = ''pending'' \<Longrightarrow> tc_status c = ''pending'' \<or> is_stop c"
    using assms(2) unfolding calm_def by blast
  have ids: "map tc_id (cd_controls y) = map tc_id (cd_controls x)" using f(1,2) by simp
  have "tc_id c \<notin> tc_id ` set log" if c: "c \<in> set (cd_controls y)" "tc_status c = ''pending''" "\<not> is_stop c" for c
  proof -
    obtain d where d: "d \<in> set (cd_controls x)" "c = f d" using c(1) f(1) by auto
    then have "tc_status d = ''pending''" "\<not> is_stop d" using c(2,3) f(3,4) [of d] by (auto simp: is_stop_def)
    then show ?thesis using assms(1) d f(2) unfolding handed_ok_def by auto
  qed
  then show ?thesis using assms(1) unfolding handed_ok_def prod.case ids by blast
qed

lemma handed_append:
  assumes "handed_ok (x, log)" and "tc_id new \<notin> tc_id ` (set (cd_controls x) \<union> set log)"
  shows "handed_ok (x\<lparr>cd_controls := cd_controls x @ [new]\<rparr>, log)"
proof -
  have "tc_id new \<notin> set (map tc_id (cd_controls x))" "tc_id new \<notin> tc_id ` set log" using assms(2) by auto
  then show ?thesis using assms(1) unfolding handed_ok_def by simp
qed

lemma handed_refresh:
  assumes "handed_ok (x, log)" and "\<And>c. tc_id (f c) = tc_id c" and "\<And>c. tc_status (f c) = ''pending'' \<Longrightarrow> \<not> is_stop (f c) \<Longrightarrow> tc_status c = ''pending'' \<and> \<not> is_stop c"
  shows "handed_ok (x\<lparr>cd_controls := map f (cd_controls x)\<rparr>, log)"
proof -
  have ids: "map tc_id (map f (cd_controls x)) = map tc_id (cd_controls x)" using assms(2) by simp
  have "\<forall>c \<in> set (map f (cd_controls x)). tc_status c = ''pending'' \<and> \<not> is_stop c \<longrightarrow> tc_id c \<notin> tc_id ` set log"
    using assms unfolding handed_ok_def by simp
  moreover have "distinct (map tc_id (map f (cd_controls x)))" unfolding ids using assms(1) by (simp add: handed_ok_def)
  ultimately show ?thesis using assms(1) unfolding handed_ok_def by simp
qed

lemma resize_is_no_stop: "tc_action c = ''resize'' \<Longrightarrow> \<not> is_stop c"
proof -
  have "py_lower ''resize'' \<noteq> ''stop''" by code_simp
  then show "tc_action c = ''resize'' \<Longrightarrow> \<not> is_stop c" by (simp add: is_stop_def)
qed

lemma handed_queue:
  assumes "handed_ok (x, log)" and "tc_id new \<notin> tc_id ` (set (cd_controls x) \<union> set log)"
  shows "handed_ok (x\<lparr>cd_controls := snd (append_terminal_control new (cd_controls x))\<rparr>, log)"
proof (cases "norm_word (tc_action new) = ''resize'' \<and> find (pending_resize (tc_terminal new)) (cd_controls x) \<noteq> None")
  case True
  let ?f = "\<lambda>c. if pending_resize (tc_terminal new) c then refresh_resize (new\<lparr>tc_action := ''resize''\<rparr>) c else c"
  have "snd (append_terminal_control new (cd_controls x)) = map ?f (cd_controls x)" using True by (auto simp: append_terminal_control_def)
  moreover have "handed_ok (x\<lparr>cd_controls := map ?f (cd_controls x)\<rparr>, log)"
  proof (rule handed_refresh [OF assms(1)])
    show "tc_id (?f c) = tc_id c" for c by (simp add: refresh_resize_def)
    show "tc_status c = ''pending'' \<and> \<not> is_stop c" if "tc_status (?f c) = ''pending''" "\<not> is_stop (?f c)" for c
    proof (cases "pending_resize (tc_terminal new) c")
      case True then show ?thesis using resize_is_no_stop by (simp add: pending_resize_def)
    next
      case False then show ?thesis using that by simp
    qed
  qed
  ultimately show ?thesis by simp
next
  case False
  have "\<exists>new'. snd (append_terminal_control new (cd_controls x)) = cd_controls x @ [new'] \<and> tc_id new' = tc_id new"
  proof (cases "norm_word (tc_action new) = ''resize''")
    case True
    then have "find (pending_resize (tc_terminal new)) (cd_controls x) = None" using False by blast
    then have "snd (append_terminal_control new (cd_controls x)) = cd_controls x @ [new\<lparr>tc_action := ''resize''\<rparr>]" using True by (simp add: append_terminal_control_def Let_def)
    moreover have "tc_id (new\<lparr>tc_action := ''resize''\<rparr>) = tc_id new" by simp
    ultimately show ?thesis by blast
  next
    case False then show ?thesis by (simp add: append_terminal_control_def)
  qed
  then obtain new' where n: "snd (append_terminal_control new (cd_controls x)) = cd_controls x @ [new']" "tc_id new' = tc_id new" by blast
  then show ?thesis using handed_append [OF assms(1), of new'] assms(2) by simp
qed

lemma handed_claim:
  assumes "handed_ok (x, log)" and "claim_selected ids x = (out, y)"
  shows "handed_ok (y, log @ out)"
proof -
  let ?won = "\<lambda>c. tc_id c \<in> set ids \<and> tc_status c = ''pending''"
  have y: "y = update_controls ?won (set_status ''claimed'') x" and out: "out = sort_key (rank ids \<circ> tc_id) (map (set_status ''claimed'') (filter ?won (cd_controls x)))"
    using assms(2) by (simp_all add: claim_selected_def Let_def)
  have stop: "is_stop (set_status s c) = is_stop c" for s c by (simp add: is_stop_def)
  have d: "distinct (map tc_id (cd_controls x))" using assms(1) by (simp add: handed_ok_def)
  have "calm x y" unfolding y by (rule calm_update) simp
  from handed_calm [OF assms(1) this] have ok: "handed_ok (y, log)" .
  have set_out: "set out = set_status ''claimed'' ` {c \<in> set (cd_controls x). ?won c}" unfolding out by auto
  have "mset (map tc_id out) = mset (map tc_id (filter ?won (cd_controls x)))" unfolding out by (simp add: multiset.map_comp comp_def)
  moreover have "distinct (map tc_id (filter ?won (cd_controls x)))" using d by (rule distinct_map_filter)
  ultimately have "distinct (map tc_id out)" using mset_eq_imp_distinct_iff by blast
  then have "distinct (map tc_id (filter (\<lambda>c. \<not> is_stop c) out))" by (rule distinct_map_filter)
  moreover have fresh: "tc_id c \<notin> tc_id ` set log" if "c \<in> set out" "\<not> is_stop c" for c
    using that assms(1) unfolding set_out handed_ok_def by (auto simp: stop)
  moreover have "tc_id ` set (filter (\<lambda>c. \<not> is_stop c) log) \<inter> tc_id ` set (filter (\<lambda>c. \<not> is_stop c) out) = {}"
  proof -
    have "tc_id c \<notin> tc_id ` set (filter (\<lambda>c. \<not> is_stop c) log)" if "c \<in> set (filter (\<lambda>c. \<not> is_stop c) out)" for c
      using that fresh [of c] by auto
    then show ?thesis unfolding disjoint_iff by (simp add: image_iff) metis
  qed
  ultimately have "distinct (map tc_id (filter (\<lambda>c. \<not> is_stop c) (log @ out)))" using ok unfolding handed_ok_def by simp
  moreover have "tc_id c \<notin> tc_id ` set out" if "c \<in> set (cd_controls y)" "tc_status c = ''pending''" for c
  proof -
    have "tc_id c \<notin> set ids" using that unfolding y update_controls_def by (auto split: if_splits)
    then show ?thesis unfolding set_out by auto
  qed
  ultimately show ?thesis using ok unfolding handed_ok_def by auto
qed

lemma handed_step:
  assumes "control_step digest s t" and "handed_ok s"
  shows "handed_ok t"
  using assms
proof cases
  case (queue new x log) then show ?thesis using handed_queue assms(2) by simp
next
  case (claim ids x out y log) then show ?thesis using handed_claim assms(2) by simp
qed (use assms(2) in \<open>auto intro: handed_calm [OF _ calm_report] handed_calm [OF _ calm_sweep] handed_calm [OF _ calm_ended] handed_calm [OF _ calm_closed]
      handed_calm [OF _ calm_settled] handed_calm [OF _ calm_same]\<close>)

interpretation controls: invariant_system "\<lambda>s. cd_controls (fst s) = [] \<and> snd s = []" "control_step digest" handed_ok for digest
proof
  show "handed_ok s" if "cd_controls (fst s) = [] \<and> snd s = []" for s using that by (cases s) (simp add: handed_ok_def)
  show "handed_ok t" if "handed_ok s" and "control_step digest s t" for s t using that(2,1) by (rule handed_step)
qed

text \<open>C19. No keystroke is carried out twice. In every run of queueing, interleaved claims, reports and sweeps no control but a stop is handed out twice, whatever bridges come and go: a sweep that makes a control
  pending again does so only to stops, which do no harm twice.\<close>

theorem input_is_handed_out_once:
  assumes "(control_step digest)\<^sup>*\<^sup>* (x0, []) (x, log)" and "cd_controls x0 = []"
  shows "distinct (map tc_id (filter (\<lambda>c. py_lower (tc_action c) \<noteq> ''stop'') log))"
proof -
  have "handed_ok (x0, [])" using assms(2) by (simp add: handed_ok_def)
  from controls.inv_run [OF assms(1) this] show ?thesis by (simp add: handed_ok_def is_stop_def)
qed

subsection \<open>A stop is not lost\<close>

lemma stop_retargeted:
  assumes "c \<in> set (cd_controls x)" and "is_open c" and "is_stop c" and "entry_of (tc_environment c) (cd_env x) = Some r" and "environment_actionable cutoff r" and "ev_bridge r \<noteq> []"
  shows "(if tc_bridge c = ev_bridge r then c else c\<lparr>tc_bridge := ev_bridge r, tc_status := ''pending''\<rparr>) \<in> set (cd_controls (retarget_stops cutoff x))"
  using assms unfolding retarget_stops_def by (force simp: new_owner_def)

lemma update_spares: "c \<in> set (cd_controls x) \<Longrightarrow> \<not> P c \<Longrightarrow> c \<in> set (cd_controls (update_controls P f x))"
  unfolding update_controls_def by force

text \<open>C30. The two sweeps of the terminal controls pass a stop on to whichever bridge is there. As long as a stop's environment can act and names a bridge, neither the start-up sweep of the controls
  nor the periodic sweep of ended terminals' controls fails the stop: it stays as it is if it was queued for that bridge, and otherwise becomes pending for it, also when the bridge it was queued for
  had already claimed it. Only these two are meant: the closers of a terminal's runs fail every open control of the terminal, stops included (\<open>closers_fail_stops\<close>).\<close>

theorem stop_reaches_the_current_bridge:
  assumes c: "c \<in> set (cd_controls x)" "is_open c" "is_stop c" and r: "entry_of (tc_environment c) (cd_env x) = Some r" "environment_actionable cutoff r" "ev_bridge r \<noteq> []"
  shows "(if tc_bridge c = ev_bridge r then c else c\<lparr>tc_bridge := ev_bridge r, tc_status := ''pending''\<rparr>)
      \<in> set (cd_controls (reconcile_ended_terminal_controls pick (reconcile_terminal_controls cutoff x)))"
proof -
  let ?c = "if tc_bridge c = ev_bridge r then c else c\<lparr>tc_bridge := ev_bridge r, tc_status := ''pending''\<rparr>"
  have k: "is_stop ?c" "is_open ?c" "tc_bridge ?c = ev_bridge r" "tc_environment ?c = tc_environment c" "tc_action ?c \<noteq> ''resize''"
    using c resize_is_no_stop by (auto simp: is_stop_def is_open_def)
  define x1 where "x1 = fail_inactive x"
  define x2 where "x2 = retarget_stops cutoff x1"
  define x3 where "x3 = fail_unreachable cutoff x2"
  have env: "cd_env x1 = cd_env x" "cd_env x2 = cd_env x" by (simp_all add: x1_def x2_def fail_inactive_def retarget_stops_def update_controls_def)
  have "c \<in> set (cd_controls x1)" unfolding x1_def fail_inactive_def using c by (intro update_spares) auto
  from stop_retargeted [OF this c(2,3) _ r(2,3)] have "?c \<in> set (cd_controls x2)" using r(1) env(1) by (simp add: x2_def)
  moreover have "reachable_bridge cutoff (tc_environment ?c) (tc_bridge ?c) (cd_env x2)" using r k(3,4) env(2) by (simp add: reachable_bridge_def)
  ultimately have "?c \<in> set (cd_controls x3)" unfolding x3_def fail_unreachable_def by (intro update_spares) auto
  then have "?c \<in> set (cd_controls (reconcile_terminal_controls cutoff x))"
    unfolding reconcile_terminal_controls_def Let_def x1_def [symmetric] x2_def [symmetric] x3_def [symmetric] fail_stale_resizes_def using k(5) by (intro update_spares) auto
  moreover have "?c \<in> set (cd_controls (fold (\<lambda>i. fail_pending_terminal_controls i [''stop'']) is y))" if "?c \<in> set (cd_controls y)" for "is" y
    using that
  proof (induction "is" arbitrary: y)
    case (Cons i "is")
    have "?c \<in> set (cd_controls (fail_pending_terminal_controls i [''stop''] y))"
      unfolding fail_pending_terminal_controls_def using Cons.prems k(1) by (intro update_spares) (auto simp: is_stop_def)
    then show ?case using Cons.IH by simp
  qed simp
  ultimately show ?thesis unfolding reconcile_ended_terminal_controls_def by blast
qed

text \<open>The closers spare nothing. The one for a terminal that ended says so; the one for an idle pi prompt (\<open>terminal_runs.py\<close>) runs only while the terminal is
  active, and fails the stop of a terminal that is still there, whatever bridge could take it.\<close>

theorem closers_fail_stops:
  assumes "c \<in> set (cd_controls x)" and "is_open c" and "tc_id c \<noteq> []"
  shows "c\<lparr>tc_status := ''failed''\<rparr> \<in> set (cd_controls (fail_pending_terminal_controls (tc_terminal c) [] x))"
    and "k \<in> set (cd_controls (fail_pending_terminal_controls (tc_terminal c) [] x)) \<Longrightarrow> tc_terminal k = tc_terminal c \<Longrightarrow> tc_id k \<noteq> [] \<Longrightarrow> \<not> is_open k"
  using assms by (force simp: fail_pending_terminal_controls_def update_controls_def set_status_def is_open_def)+

subsection \<open>A mixed-case stop\<close>

text \<open>The status a host reports is lowered before it is stored, but the binding of the agent's console is cleared only for the two words as they were sent.\<close>

definition demo_term_control :: "string \<Rightarrow> string \<Rightarrow> string \<Rightarrow> string \<Rightarrow> tcontrol" where
  "demo_term_control i action bridge requested = \<lparr>tc_id = i, tc_terminal = ''t1'', tc_environment = ''e1'', tc_bridge = bridge, tc_action = action, tc_body = [], tc_cols = 0, tc_rows = 0,
     tc_status = ''pending'', tc_requested_by = ''op'', tc_requested_at = requested\<rparr>"

definition demo_control_db :: "tcontrol list \<Rightarrow> control_db" where
  "demo_control_db cs = \<lparr>cd_env = demo_row_db, cd_controls = cs, cd_terminals = [(''t1'', \<lparr>tz_status = ''running'', tz_pid = [], tz_cols = 80, tz_rows = 24, tz_exited = False\<rparr>)],
     cd_bound = {''t1''}\<rparr>"

definition demo_stop_report :: "string \<Rightarrow> control_report" where
  "demo_stop_report s = \<lparr>cr_status = ''completed'', cr_terminal_status = s, cr_pid = [], cr_cols = 0, cr_rows = 0\<rparr>"

definition stop_outcome :: "string \<Rightarrow> (string option \<times> bool) option" where
  "stop_outcome s = (case update_terminal_control id (lit ''p'') ''c1'' (demo_stop_report s) (demo_control_db [demo_term_control ''c1'' ''stop'' ''b1'' ''1'']) of
     Inr y \<Rightarrow> Some (map_option tz_status (map_of (cd_terminals y) ''t1''), ''t1'' \<in> cd_bound y) | Inl _ \<Rightarrow> None)"

lemma mixed_case_stop_keeps_binding:
  "stop_outcome ''stopped'' = Some (Some ''stopped'', False)" "stop_outcome ''Stopped'' = Some (Some ''stopped'', True)"
  by code_simp+

subsection \<open>Witnesses\<close>

definition demo_queue :: control_db where
  "demo_queue = demo_control_db [demo_term_control ''c1'' ''input'' ''b1'' ''2'', demo_term_control ''c2'' ''input'' ''b2'' ''0'', demo_term_control ''c3'' ''input'' ''b1'' ''1'']"

definition demo_claimed :: "tcontrol list \<times> control_db" where
  "demo_claimed = claim_selected (selected_controls ''e1'' ''b1'' demo_queue) demo_queue"

theorem claim_is_in_request_order_witness:
  "map tc_id (fst demo_claimed) = [''c3'', ''c1'']
   \<and> fst demo_claimed = map (set_status ''claimed'') (take 20 (by_request (filter (\<lambda>c. tc_environment c = ''e1'' \<and> tc_bridge c = ''b1'' \<and> tc_status c = ''pending'') (cd_controls demo_queue))))"
proof -
  have c: "\<not> unproven_host id (lit ''p'') ''e1'' demo_queue" "selected_controls ''e1'' ''b1'' demo_queue \<noteq> []" "distinct (map tc_id (cd_controls demo_queue))"
    "map tc_id (fst demo_claimed) = [''c3'', ''c1'']" by code_simp+
  have "claim_terminal_controls_once id (lit ''p'') ''e1'' ''b1'' demo_queue = (Some (fst demo_claimed), snd demo_claimed)"
    using c(1,2) unfolding claim_terminal_controls_once_def Let_def demo_claimed_def by (simp split: prod.split)
  from claim_is_in_request_order [OF this c(3)] c(4) show ?thesis by simp
qed

definition demo_input :: tcontrol where
  "demo_input = demo_term_control ''c1'' ''input'' ''b1'' ''2''"

definition demo_after :: "tcontrol list \<times> control_db" where
  "demo_after = claim_selected [''c1''] (demo_control_db [demo_input])"

definition demo_again :: "tcontrol list \<times> control_db" where
  "demo_again = claim_selected [''c1''] (reconcile_terminal_controls ''9'' (snd demo_after))"

theorem input_is_handed_out_once_witness:
  "map tc_id (fst demo_after) = [''c1''] \<and> fst demo_again = []
   \<and> distinct (map tc_id (filter (\<lambda>c. py_lower (tc_action c) \<noteq> ''stop'') (([] @ fst demo_after) @ fst demo_again)))"
proof -
  let ?x0 = "demo_control_db []" and ?x1 = "demo_control_db [demo_input]"
  have c: "map tc_id (fst demo_after) = [''c1'']" "fst demo_again = []" "norm_word (tc_action demo_input) \<noteq> ''resize''" "tc_status demo_input = ''pending''" by code_simp+
  have "snd (append_terminal_control demo_input []) = [demo_input]" using c(3) by (simp add: append_terminal_control_def)
  then have q: "control_step id (?x0, []) (?x1, [])"
    using control_step.queue [of demo_input ?x0 "[]" id] c(4) by (simp add: demo_control_db_def)
  have "control_step id (?x1, []) (snd demo_after, [] @ fst demo_after)" by (rule control_step.claim [of "[''c1'']"]) (simp add: demo_after_def)
  moreover have "control_step id (snd demo_after, [] @ fst demo_after) (reconcile_terminal_controls ''9'' (snd demo_after), [] @ fst demo_after)" by (rule control_step.sweep)
  moreover have "control_step id (reconcile_terminal_controls ''9'' (snd demo_after), [] @ fst demo_after) (snd demo_again, ([] @ fst demo_after) @ fst demo_again)"
    by (rule control_step.claim [of "[''c1'']"]) (simp add: demo_again_def)
  ultimately have run: "(control_step id)\<^sup>*\<^sup>* (?x0, []) (snd demo_again, ([] @ fst demo_after) @ fst demo_again)"
    using q by (meson rtranclp.rtrancl_into_rtrancl rtranclp.rtrancl_refl)
  from input_is_handed_out_once [OF run] c(1,2) show ?thesis by (simp add: demo_control_db_def)
qed

definition demo_stop :: tcontrol where
  "demo_stop = demo_term_control ''c1'' ''stop'' ''b9'' ''2'' \<lparr>tc_status := ''claimed''\<rparr>"

theorem stop_reaches_the_current_bridge_witness:
  "demo_stop\<lparr>tc_bridge := ''b1'', tc_status := ''pending''\<rparr>
     \<in> set (cd_controls (reconcile_ended_terminal_controls id (reconcile_terminal_controls ''9'' (demo_control_db [demo_stop]))))"
proof -
  have c: "is_open demo_stop" "is_stop demo_stop" "map_option ev_bridge (entry_of ''e1'' demo_row_db) = Some ''b1''"
    "map_option (environment_actionable ''9'') (entry_of ''e1'' demo_row_db) = Some True" "tc_bridge demo_stop = ''b9''" "tc_environment demo_stop = ''e1''" by code_simp+
  obtain r where r: "entry_of ''e1'' demo_row_db = Some r" "ev_bridge r = ''b1''" "environment_actionable ''9'' r" using c(3,4) by auto
  have m: "demo_stop \<in> set (cd_controls (demo_control_db [demo_stop]))" "entry_of (tc_environment demo_stop) (cd_env (demo_control_db [demo_stop])) = Some r" "ev_bridge r \<noteq> []"
    using r c(6) by (simp_all add: demo_control_db_def)
  from stop_reaches_the_current_bridge [OF m(1) c(1,2) m(2) r(3) m(3), of id] show ?thesis using r(2) c(5) by simp
qed

end
