(* ===== verification/DispatchSweeps.thy ===== *)
theory DispatchSweeps
  imports RunPatch "HOL-Library.Multiset"
begin

text \<open>
  The sweeps over the dispatch runs: claims given back, delivered runs closed, queued runs rerouted or given up, orphaned and stranded runs
  failed, ended runs pruned, receipts released and controls closed (\<open>service/reconcilers/dispatch_queue.py\<close>, \<open>undeliverable_queued_runs.py\<close>,
  \<open>orphaned_managed_runs.py\<close>, \<open>dispatch_lifecycle.py\<close>, \<open>claim_receipts.py\<close>, \<open>stuck_controls.py\<close>), and the order in which \<open>sweep.py\<close> runs them.

  Each sweep reads its rows and then writes them one by one, with other writers in between; the write takes the row that was read and the tables
  as they are. Inputs besides the tables: the two readers of timestamps (SQLite's, which has no value for what it cannot read, and Python's), the time at which
  the event at a place of the event table was written, the leases, the agents' views, which runs have a summary, which agents have
  a live session, which controls are recent, and whether a worker was or is being started. Texts of errors and summaries, the status cache
  and the notices to senders other than their ids are left out.
\<close>

declare split_paired_All [simp del] split_paired_Ex [simp del]

record sweep_env =
  sw_env :: denv
  sw_now :: int
  sw_datetime :: "ustr \<Rightarrow> int option"
  sw_created :: "nat \<Rightarrow> int option"
  sw_lease :: "string \<Rightarrow> (string \<times> ustr) option"
  sw_resident_lease :: int
  sw_view :: "string \<Rightarrow> view option"
  sw_eligibility :: "string \<Rightarrow> view"
  sw_summary :: "string \<Rightarrow> bool"
  sw_session :: "string \<Rightarrow> bool"
  sw_registered :: "ustr \<Rightarrow> bool"
  sw_control_recent :: "string \<Rightarrow> bool"
  sw_starts :: "string \<Rightarrow> bool"
  sw_notice :: "string \<Rightarrow> ustr"

text \<open>\<open>datetime(t) <= datetime('now', '-w seconds')\<close> and its opposite; neither holds of what is not a time.\<close>

definition aged :: "sweep_env \<Rightarrow> int \<Rightarrow> ustr \<Rightarrow> bool" where
  "aged s w t = (case sw_datetime s t of None \<Rightarrow> False | Some x \<Rightarrow> x \<le> sw_now s - w)"

definition recent :: "sweep_env \<Rightarrow> int \<Rightarrow> int option \<Rightarrow> bool" where
  "recent s w t = (case t of None \<Rightarrow> False | Some x \<Rightarrow> sw_now s - w < x)"

definition event_since :: "sweep_env \<Rightarrow> int \<Rightarrow> string \<Rightarrow> (string \<Rightarrow> bool) \<Rightarrow> dstate \<Rightarrow> bool" where
  "event_since s w run P d = list_ex (\<lambda>(i, (r, k)). r = run \<and> P k \<and> recent s w (sw_created s i)) (enumerate 0 (d_events d))"

definition text_of :: "ustr option \<Rightarrow> ustr" where
  "text_of t = (case t of None \<Rightarrow> [] | Some x \<Rightarrow> x)"

definition coalesce :: "ustr option \<Rightarrow> ustr \<Rightarrow> ustr" where
  "coalesce t u = (case t of None \<Rightarrow> u | Some x \<Rightarrow> x)"

definition ended_row :: "string \<Rightarrow> ustr \<Rightarrow> drun \<Rightarrow> drun" where
  "ended_row st now r = r\<lparr>r_status := st, r_finished_at := Some (coalesce (r_finished_at r) now)\<rparr>"

definition row_limit :: "nat \<Rightarrow> nat" where
  "row_limit n = (if n = 0 then 200 else n)"

subsection \<open>Who can still claim\<close>

definition CHANNEL_SIDECAR_STALE_SECONDS :: int where "CHANNEL_SIDECAR_STALE_SECONDS = 180"
definition CLAIMER_LEASE_STALE_SECONDS :: int where "CLAIMER_LEASE_STALE_SECONDS = 240"
definition CHANNEL_SIDECAR_DELIVERY_RUNTIMES :: "string list" where "CHANNEL_SIDECAR_DELIVERY_RUNTIMES = [''claude-code'', ''hermes'']"

definition seen_within :: "sweep_env \<Rightarrow> int \<Rightarrow> ustr \<Rightarrow> bool" where
  "seen_within s w t = (e_epoch (sw_env s) t \<noteq> 0 \<and> e_clock (sw_env s) - e_epoch (sw_env s) t \<le> w)"

definition has_live_channel_sidecar :: "sweep_env \<Rightarrow> string \<Rightarrow> dstate \<Rightarrow> bool" where
  "has_live_channel_sidecar s a d =
     (case rev (sort_key br_last_seen (map snd (filter (\<lambda>((_, a'), b). a' = a \<and> br_kind b = ''channel-sidecar'' \<and> br_superseded_by b = []) (d_bridges d)))) of
        [] \<Rightarrow> False | b # _ \<Rightarrow> seen_within s CHANNEL_SIDECAR_STALE_SECONDS (br_last_seen b))"

definition resident_bridge_record_is_fresh :: "sweep_env \<Rightarrow> string \<Rightarrow> dstate \<Rightarrow> bool" where
  "resident_bridge_record_is_fresh s a d =
     (let lease = max 15 (if sw_resident_lease s = 0 then 150 else sw_resident_lease s); i = py_strip (e_agent_bridge (sw_env s) a) in
      i \<noteq> [] \<and> (case map_of (d_bridges d) (i, a) of None \<Rightarrow> False
        | Some b \<Rightarrow> py_strip (br_superseded_by b) = [] \<and> seen_within s lease (br_last_seen b)))"

definition resident_bridge_is_fresh :: "sweep_env \<Rightarrow> string \<Rightarrow> dstate \<Rightarrow> bool" where
  "resident_bridge_is_fresh s a d = (resident_bridge_record_is_fresh s a d \<or> has_live_channel_sidecar s a d)"

definition has_live_claimer_lease :: "sweep_env \<Rightarrow> string \<Rightarrow> bool" where
  "has_live_claimer_lease s a = (case sw_lease s a of None \<Rightarrow> False
     | Some (state, at) \<Rightarrow> norm_word state = ''acquired'' \<and> seen_within s CLAIMER_LEASE_STALE_SECONDS at)"

definition claimer_lease_released_within :: "sweep_env \<Rightarrow> string \<Rightarrow> int \<Rightarrow> bool" where
  "claimer_lease_released_within s a w = (w > 0 \<and> (case sw_lease s a of None \<Rightarrow> False
     | Some (state, at) \<Rightarrow> norm_word state = ''released'' \<and> e_epoch (sw_env s) at \<noteq> 0 \<and> e_clock (sw_env s) - e_epoch (sw_env s) at < w))"

definition agent_has_live_claimer :: "sweep_env \<Rightarrow> int \<Rightarrow> agent_row \<Rightarrow> dstate \<Rightarrow> bool" where
  "agent_has_live_claimer s left row d =
     (let a = ag_id row; runtime = normalize_runtime (ag_runtime row) in
      if normalize_session_mode (or_else (ag_session_mode row) ''resident'') = ''resident'' then resident_bridge_is_fresh s a d
      else if runtime \<in> set CHANNEL_SIDECAR_DELIVERY_RUNTIMES
      then (if sw_lease s a \<noteq> None then has_live_claimer_lease s a \<or> claimer_lease_released_within s a left else has_live_channel_sidecar s a d)
      else has_live_channel_sidecar s a d
        \<or> list_ex (\<lambda>((_, a'), b). a' = a \<and> br_superseded_by b = [] \<and> recent s ACTIVE_RUN_BRIDGE_STALE_SECONDS (sw_datetime s (br_last_seen b))) (d_bridges d))"

subsection \<open>Claims whose bridge is gone\<close>

definition ownerless :: "sweep_env \<Rightarrow> int \<Rightarrow> dstate \<Rightarrow> drun \<Rightarrow> bool" where
  "ownerless s w d r = (r_claim_bridge r = [] \<or> \<not> list_ex (\<lambda>((i, _), b). i = r_claim_bridge r \<and> recent s w (sw_datetime s (br_last_seen b))) (d_bridges d))"

definition orphaned_claim :: "sweep_env \<Rightarrow> int \<Rightarrow> dstate \<Rightarrow> drun \<Rightarrow> bool" where
  "orphaned_claim s grace d r = (r_status r = ''claimed'' \<and> text_of (r_claimed_at r) \<noteq> [] \<and> aged s (max 1 grace) (text_of (r_claimed_at r))
     \<and> events_of_kind (r_id r) ''delivered'' d = 0 \<and> ownerless s ACTIVE_RUN_BRIDGE_STALE_SECONDS d r)"

definition select_orphaned_claims :: "sweep_env \<Rightarrow> int \<Rightarrow> nat \<Rightarrow> dstate \<Rightarrow> drun list" where
  "select_orphaned_claims s grace n d = take (row_limit n) (sort_key (text_of \<circ> r_claimed_at) (filter (orphaned_claim s grace d) (d_runs d)))"

definition same_claim :: "sweep_env \<Rightarrow> drun \<Rightarrow> dstate \<Rightarrow> drun \<Rightarrow> bool" where
  "same_claim s row d r = (r_status r = ''claimed'' \<and> r_claim_bridge r = r_claim_bridge row \<and> r_claimed_at r = r_claimed_at row
     \<and> ownerless s ACTIVE_RUN_BRIDGE_STALE_SECONDS d r)"

definition requeued_row :: "drun \<Rightarrow> drun" where
  "requeued_row r = r\<lparr>r_status := ''queued'', r_claim_bridge := [], r_claim_machine := [], r_claimed_at := Some []\<rparr>"

definition requeue_claim :: "sweep_env \<Rightarrow> drun \<Rightarrow> dstate \<Rightarrow> dstate" where
  "requeue_claim s row d =
     (let i = py_strip (r_id row) in
      if i = [] \<or> rowcount i (same_claim s row d) d = 0 then d
      else append_dispatch_event i ''requeued_orphaned_claim''
        (snd (release_claim_receipts row (update_run i (same_claim s row d) requeued_row d))))"

definition requeue_orphaned_claimed_runs :: "sweep_env \<Rightarrow> int \<Rightarrow> nat \<Rightarrow> dstate \<Rightarrow> dstate" where
  "requeue_orphaned_claimed_runs s grace n d = fold (requeue_claim s) (select_orphaned_claims s grace n d) d"

subsection \<open>Delivered runs\<close>

definition working_status :: "drun \<Rightarrow> bool" where
  "working_status r = (r_status r \<in> {''queued'', ''claimed'', ''running''})"

definition reconcilable :: "sweep_env \<Rightarrow> int \<Rightarrow> dstate \<Rightarrow> drun \<Rightarrow> bool" where
  "reconcilable s hours d r =
     (let stale = text_of (r_finished_at r) = [] \<and> aged s (max 1 (if hours = 0 then 24 else hours) * 3600) (r_requested_at r) in
      r_status r = ''delivered''
        \<and> (r_result r \<noteq> [] \<or> \<not> r_require_reply r \<and> stale
           \<or> r_require_reply r \<and> stale \<and> \<not> list_ex (\<lambda>q. r_target q = r_target r \<and> r_id q \<noteq> r_id r \<and> working_status q) (d_runs d) \<and> \<not> sw_session s (r_target r)))"

definition select_reconcilable_delivered_runs :: "sweep_env \<Rightarrow> int \<Rightarrow> nat \<Rightarrow> dstate \<Rightarrow> drun list" where
  "select_reconcilable_delivered_runs s hours n d = take n (sort_key r_requested_at (filter (reconcilable s hours d) (d_runs d)))"

definition close_delivered :: "sweep_env \<Rightarrow> drun \<Rightarrow> dstate \<Rightarrow> dstate" where
  "close_delivered s row d =
     (let i = py_strip (r_id row) in
      if i = [] then d
      else append_dispatch_event i ''reconciled'' (update_run i (\<lambda>r. r_status r = ''delivered'') (ended_row ''completed'' (e_now (sw_env s))) d))"

definition close_reconcilable_delivered_runs :: "sweep_env \<Rightarrow> int \<Rightarrow> nat \<Rightarrow> dstate \<Rightarrow> dstate" where
  "close_reconcilable_delivered_runs s hours n d = fold (close_delivered s) (select_reconcilable_delivered_runs s hours n d) d"

definition stranded :: "sweep_env \<Rightarrow> int \<Rightarrow> drun \<Rightarrow> bool" where
  "stranded s w r = (r_status r = ''delivered'' \<and> r_require_reply r \<and> r_result r = [] \<and> aged s w (r_requested_at r))"

definition interrupted :: "sweep_env \<Rightarrow> string \<Rightarrow> dstate \<Rightarrow> bool" where
  "interrupted s i d = list_ex (\<lambda>k. k_action k = ''interrupt'' \<and> sw_control_recent s (k_id k) \<and> py_strip (k_run k) = i) (d_controls d)"

definition fail_stranded :: "sweep_env \<Rightarrow> int \<Rightarrow> bool \<Rightarrow> drun \<Rightarrow> dstate \<Rightarrow> dstate" where
  "fail_stranded s w stopped row d =
     (let i = py_strip (r_id row); a = py_strip (r_target row); P = (\<lambda>r. r_status r = ''delivered'' \<and> r_result r = []) in
      if i = [] \<or> a = [] \<or> stranded_protected (sw_eligibility s a)
        \<or> \<not> stopped \<and> (case e_agent (sw_env s) a of None \<Rightarrow> False | Some ag \<Rightarrow> agent_has_live_claimer s w ag d)
        \<or> rowcount i P d = 0 then d
      else append_dispatch_event i ''stranded_reply_failed''
        (update_run i P (\<lambda>r. r\<lparr>r_status := ''failed'', r_finished_at := Some (e_now (sw_env s))\<rparr>) d))"

definition fail_stranded_delivered_reply_runs :: "sweep_env \<Rightarrow> int \<Rightarrow> nat \<Rightarrow> dstate \<Rightarrow> dstate" where
  "fail_stranded_delivered_reply_runs s backstop n d =
     (let w = max 60 backstop in fold (\<lambda>r. fail_stranded s w (interrupted s (py_strip (r_id r)) d) r) (take (row_limit n) (sort_key r_requested_at (filter (stranded s w) (d_runs d)))) d)"

subsection \<open>Queued runs\<close>

definition reroutable :: "sweep_env \<Rightarrow> drun \<Rightarrow> bool" where
  "reroutable s r = (r_status r = ''queued'' \<and> r_execution_mode r = ''managed'' \<and> (case e_agent (sw_env s) (r_target r) of None \<Rightarrow> False
     | Some ag \<Rightarrow> py_lower (ag_runtime ag) \<in> set (CHANNEL_MANAGED_RUNTIMES @ CHANNEL_FLAG_GATED_RUNTIMES) \<and> ag_session_mode ag = ''managed''))"

text \<open>The rows come in no particular order; which of them fall under the limit is an argument.\<close>

definition reroute_orphaned_managed_channel_runs :: "sweep_env \<Rightarrow> (drun list \<Rightarrow> drun list) \<Rightarrow> bool \<Rightarrow> dstate \<Rightarrow> dstate" where
  "reroute_orphaned_managed_channel_runs s pick via_console d =
     (if via_console then d
      else (let ids = map r_id (filter (\<lambda>r. has_live_channel_sidecar s (r_target r) d) (pick (filter (reroutable s) (d_runs d)))) in
            d\<lparr>d_runs := map (\<lambda>r. if r_id r \<in> set ids \<and> r_execution_mode r \<noteq> ''channel'' then r\<lparr>r_execution_mode := ''channel''\<rparr> else r) (d_runs d)\<rparr>))"

definition undelivered :: "sweep_env \<Rightarrow> int \<Rightarrow> dstate \<Rightarrow> drun \<Rightarrow> bool" where
  "undelivered s w d r = (r_status r = ''queued'' \<and> aged s w (r_requested_at r)
     \<and> \<not> event_since s w (r_id r) (\<lambda>k. k = ''requeued_orphaned_claim'' \<or> k = ''coldstart_rescue'') d)"

definition mirror_undeliverable_queued_run_to_sender :: "sweep_env \<Rightarrow> drun \<Rightarrow> dstate \<Rightarrow> dstate" where
  "mirror_undeliverable_queued_run_to_sender s row d =
     (if u_strip (r_from row) = [] \<or> u_strip (r_from row) = lit ''dashboard'' \<or> py_strip (r_target row) = [] then d
      else d\<lparr>d_messages := d_messages d @ [sw_notice s (r_id row)]\<rparr>)"

definition can_rescue :: "sweep_env \<Rightarrow> string \<Rightarrow> agent_row \<Rightarrow> dstate \<Rightarrow> bool" where
  "can_rescue s i ag d = (events_of_kind i ''coldstart_rescue'' d = 0 \<and> norm_word (ag_session_mode ag) = ''managed''
     \<and> normalize_runtime (ag_runtime ag) \<in> set LAUNCHABLE_RUNTIMES \<and> sw_starts s (ag_id ag))"

definition reap_queued :: "sweep_env \<Rightarrow> int \<Rightarrow> drun \<Rightarrow> dstate \<Rightarrow> dstate" where
  "reap_queued s w row d =
     (let i = py_strip (r_id row); a = py_strip (r_target row); P = (\<lambda>r. r_status r = ''queued'') in
      if i = [] \<or> a = [] then d
      else (case e_agent (sw_env s) a of
          None \<Rightarrow> d
        | Some ag \<Rightarrow>
            if agent_has_live_claimer s w ag d then d
            else if can_rescue s i ag d then append_dispatch_event i ''coldstart_rescue'' d
            else if rowcount i P d = 0 then d
            else mirror_undeliverable_queued_run_to_sender s row
              (append_dispatch_event i ''failed'' (update_run i P (ended_row ''failed'' (e_now (sw_env s))) d))))"

definition reap_undeliverable_queued_runs :: "sweep_env \<Rightarrow> int \<Rightarrow> nat \<Rightarrow> dstate \<Rightarrow> dstate" where
  "reap_undeliverable_queued_runs s backstop n d =
     (let w = max 30 backstop in fold (reap_queued s w) (take (row_limit n) (sort_key r_requested_at (filter (undelivered s w d) (d_runs d)))) d)"

subsection \<open>Active runs nobody works\<close>

definition progressed :: "sweep_env \<Rightarrow> int \<Rightarrow> string \<Rightarrow> dstate \<Rightarrow> bool" where
  "progressed s w i d = event_since s w i (\<lambda>k. k \<noteq> ''reply_reminder_skipped'') d"

definition orphaned_run :: "sweep_env \<Rightarrow> int \<Rightarrow> int \<Rightarrow> dstate \<Rightarrow> drun \<Rightarrow> bool" where
  "orphaned_run s w ceiling d r = (is_active r
     \<and> (ownerless s w d r \<and> aged s w (coalesce (r_started_at r) (r_requested_at r)) \<and> \<not> progressed s w (r_id r) d
        \<or> aged s ceiling (activity_time r) \<and> \<not> progressed s ceiling (r_id r) d
        \<or> r_started_at r = None \<and> aged s w (coalesce (r_claimed_at r) (r_requested_at r))))"

definition may_be_working :: "sweep_env \<Rightarrow> string \<Rightarrow> bool" where
  "may_be_working s a = (a \<noteq> [] \<and> e_agent (sw_env s) a \<noteq> None
     \<and> (case sw_view s a of None \<Rightarrow> True | Some v \<Rightarrow> orphan_safety v = Protect))"

definition close_orphaned :: "sweep_env \<Rightarrow> drun \<Rightarrow> dstate \<Rightarrow> dstate" where
  "close_orphaned s row d =
     (let i = py_strip (r_id row) in
      if i = [] \<or> may_be_working s (py_strip (r_target row)) then d
      else append_dispatch_event i ''failed'' (update_run i (\<lambda>_. True) (ended_row ''failed'' (e_now (sw_env s))) d))"

definition close_orphaned_managed_runs :: "sweep_env \<Rightarrow> int \<Rightarrow> int \<Rightarrow> nat \<Rightarrow> dstate \<Rightarrow> dstate" where
  "close_orphaned_managed_runs s stale_minutes ceiling_minutes n d =
     (let w = max 60 (stale_minutes * 60); ceiling = max w (ceiling_minutes * 60) in
      fold (close_orphaned s) (take n (sort_key r_requested_at (filter (orphaned_run s w ceiling d) (d_runs d)))) d)"

subsection \<open>Ended runs\<close>

definition prunable :: "sweep_env \<Rightarrow> int \<Rightarrow> drun \<Rightarrow> bool" where
  "prunable s hours r = (is_finished r \<and> (case sw_datetime s (coalesce (r_finished_at r) (r_requested_at r)) of None \<Rightarrow> False
       | Some x \<Rightarrow> x < sw_now s - max 1 hours * 3600) \<and> \<not> sw_registered s (lit (r_target r)) \<and> \<not> sw_registered s (r_from r))"

definition prune_key :: "sweep_env \<Rightarrow> drun \<Rightarrow> int" where
  "prune_key s r = (case sw_datetime s (coalesce (r_finished_at r) (r_requested_at r)) of None \<Rightarrow> 0 | Some x \<Rightarrow> x)"

text \<open>Deleting a run deletes its events and controls.\<close>

definition delete_runs :: "string list \<Rightarrow> dstate \<Rightarrow> dstate" where
  "delete_runs ids d = d\<lparr>d_runs := filter (\<lambda>r. r_id r \<notin> set ids) (d_runs d), d_events := filter (\<lambda>(i, _). i \<notin> set ids) (d_events d),
     d_controls := filter (\<lambda>k. k_run k \<notin> set ids) (d_controls d)\<rparr>"

definition prune_chunk :: "sweep_env \<Rightarrow> int \<Rightarrow> nat \<Rightarrow> dstate \<Rightarrow> nat \<times> dstate" where
  "prune_chunk s hours n d =
     (let ids = map r_id (take n (sort_key (prune_key s) (filter (prunable s hours) (d_runs d)))) in
      (length (filter (\<lambda>r. r_id r \<in> set ids) (d_runs d)), delete_runs ids d))"

fun prune_chunks :: "sweep_env \<Rightarrow> int \<Rightarrow> nat \<Rightarrow> nat \<Rightarrow> dstate \<Rightarrow> nat \<times> dstate" where
  "prune_chunks s hours n 0 d = (0, d)"
| "prune_chunks s hours n (Suc k) d = (case prune_chunk s hours n d of (m, d1) \<Rightarrow>
     if m < n then (m, d1) else (case prune_chunks s hours n k d1 of (m', d2) \<Rightarrow> (m + m', d2)))"

definition prune_orphaned_dispatch_runs :: "sweep_env \<Rightarrow> int \<Rightarrow> nat \<Rightarrow> nat \<Rightarrow> dstate \<Rightarrow> dstate" where
  "prune_orphaned_dispatch_runs s hours n k d = (case prune_chunks s hours n k d of (m, d1) \<Rightarrow>
     if m = 0 then d1 else d1\<lparr>d_items := filter (\<lambda>(_, i). i \<in> r_id ` set (d_runs d1)) (d_items d1)\<rparr>)"

definition holds_receipt :: "dstate \<Rightarrow> drun \<Rightarrow> bool" where
  "holds_receipt d r = list_ex (\<lambda>((m, a), t). a = r_target r \<and> Some t = r_claimed_at r \<and> (m = r_message_id r \<or> r_body r \<noteq> [])) (d_receipts d)"

definition unstarted :: "sweep_env \<Rightarrow> dstate \<Rightarrow> drun \<Rightarrow> bool" where
  "unstarted s d r = (is_finished r \<and> r_status r \<noteq> ''completed'' \<and> text_of (r_claimed_at r) \<noteq> [] \<and> text_of (r_started_at r) = [] \<and> r_result r = []
     \<and> \<not> sw_summary s (r_id r) \<and> holds_receipt d r)"

definition release_receipts_from_unstarted_runs :: "sweep_env \<Rightarrow> nat \<Rightarrow> dstate \<Rightarrow> dstate" where
  "release_receipts_from_unstarted_runs s n d = fold (\<lambda>r d. snd (release_claim_receipts r d))
     (take (row_limit n) (sort_key (\<lambda>r. (r_finished_at r \<noteq> None, text_of (r_finished_at r))) (filter (unstarted s d) (d_runs d)))) d"

definition stuck_control :: "dstate \<Rightarrow> dcontrol \<Rightarrow> bool" where
  "stuck_control d k = (open_control k \<and> list_ex (\<lambda>r. r_id r = k_run k \<and> is_finished r) (d_runs d))"

definition close_control :: "dcontrol \<Rightarrow> dstate \<Rightarrow> dstate" where
  "close_control k d =
     (let i = py_strip (k_id k); run = py_strip (k_run k) in
      if i = [] \<or> \<not> list_ex (\<lambda>c. k_id c = i \<and> open_control c) (d_controls d) then d
      else (let d1 = d\<lparr>d_controls := map (\<lambda>c. if k_id c = i \<and> open_control c then c\<lparr>k_status := ''failed''\<rparr> else c) (d_controls d)\<rparr> in
            if run = [] then d1 else append_dispatch_event run (''control:'' @ or_else (k_action k) ''unknown'' @ '':failed'') d1))"

definition close_controls_for_ended_runs :: "nat \<Rightarrow> dstate \<Rightarrow> dstate" where
  "close_controls_for_ended_runs n d = fold close_control (take (row_limit n) (filter (stuck_control d) (d_controls d))) d"

subsection \<open>The order of a pass\<close>

record pass_settings =
  ps_backstop :: int
  ps_stale_minutes :: int
  ps_ceiling_minutes :: int
  ps_via_console :: bool

text \<open>The failure block of a pass, the steps from the requeue to the closing of controls. Each step is committed before the next begins and has its own reading of the clock, the leases and the
  views; \<open>others n\<close> is whatever is written after the step \<open>n\<close> and before the next, by other requests or by the replay of channel messages and the notices to senders that
  stand between the steps of the block.\<close>

definition failure_block :: "(nat \<Rightarrow> sweep_env) \<Rightarrow> pass_settings \<Rightarrow> (drun list \<Rightarrow> drun list) \<Rightarrow> (nat \<Rightarrow> dstate \<Rightarrow> dstate) \<Rightarrow> dstate \<Rightarrow> dstate" where
  "failure_block s p pick others d =
     (let d1 = others 0 (requeue_orphaned_claimed_runs (s 0) 90 200 d);
          d2 = others 1 (reroute_orphaned_managed_channel_runs (s 1) pick (ps_via_console p) d1);
          d3 = others 2 (reap_undeliverable_queued_runs (s 2) (ps_backstop p) 200 d2);
          d4 = others 3 (close_orphaned_managed_runs (s 3) (ps_stale_minutes p) (ps_ceiling_minutes p) 200 d3);
          d5 = others 4 (fail_stranded_delivered_reply_runs (s 4) (ps_backstop p) 200 d4);
          d6 = others 5 (release_receipts_from_unstarted_runs (s 5) 200 d5) in
      close_controls_for_ended_runs 200 d6)"

subsection \<open>Sweeps make nothing active\<close>

lemma quiet_fold: "(\<And>x d. quiet d (f x d)) \<Longrightarrow> quiet d (fold f xs d)"
proof (induction xs arbitrary: d)
  case (Cons x xs) then show ?case using quiet_trans [OF Cons.prems Cons.IH] by simp
qed simp

lemma calm_ended_row: "st \<notin> {''claimed'', ''running''} \<Longrightarrow> DispatchClaim.calm (ended_row st at)"
  by (simp add: DispatchClaim.calm_def ended_row_def is_active_def)

lemma calm_requeued: "DispatchClaim.calm requeued_row"
  by (simp add: DispatchClaim.calm_def requeued_row_def is_active_def)

lemma quiet_mirror [simp]: "quiet d (mirror_undeliverable_queued_run_to_sender s row d') \<longleftrightarrow> quiet d d'"
  by (simp add: quiet_def mirror_undeliverable_queued_run_to_sender_def)

lemma quiet_of_controls [simp]: "quiet d (d'\<lparr>d_controls := c\<rparr>) \<longleftrightarrow> quiet d d'"
  by (simp add: quiet_def)

lemma quiet_writes:
  "quiet d (requeue_claim s row d)" "quiet d (close_delivered s row d)" "quiet d (fail_stranded s w b row d)" "quiet d (reap_queued s w row d)"
  "quiet d (close_orphaned s row d)" "quiet d (close_control k d)"
  by (auto simp: requeue_claim_def close_delivered_def fail_stranded_def reap_queued_def close_orphaned_def close_control_def
      Let_def calm_requeued calm_ended_row calm_status intro!: quiet_update split: option.split)

lemma quiet_reroute: "quiet d (reroute_orphaned_managed_channel_runs s pick c d)"
  by (auto simp: reroute_orphaned_managed_channel_runs_def Let_def DispatchClaim.calm_def is_active_def intro!: quiet_map)

lemma quiet_sweeps:
  "quiet d (requeue_orphaned_claimed_runs s grace n d)" "quiet d (close_reconcilable_delivered_runs s hours n d)" "quiet d (fail_stranded_delivered_reply_runs s b n d)"
  "quiet d (reap_undeliverable_queued_runs s b n d)" "quiet d (close_orphaned_managed_runs s m c n d)" "quiet d (release_receipts_from_unstarted_runs s n d)"
  "quiet d (close_controls_for_ended_runs n d)"
  unfolding requeue_orphaned_claimed_runs_def close_reconcilable_delivered_runs_def fail_stranded_delivered_reply_runs_def reap_undeliverable_queued_runs_def
    close_orphaned_managed_runs_def release_receipts_from_unstarted_runs_def close_controls_for_ended_runs_def Let_def
  by (rule quiet_fold, simp add: quiet_writes)+

lemma dispatch_ok_delete: "dispatch_ok d \<Longrightarrow> dispatch_ok (delete_runs ids d)"
proof -
  assume ok: "dispatch_ok d"
  have "active_of a (filter P rs) = filter P (active_of a rs)" for a P and rs :: "drun list" unfolding active_of_def by (simp add: conj_ac)
  moreover have "length (filter P (active_of a (d_runs d))) \<le> 1" for a P using ok length_filter_le [of P] unfolding dispatch_ok_def by (meson le_trans)
  ultimately show ?thesis using ok by (auto simp: dispatch_ok_def runs_ok_def delete_runs_def distinct_map_filter)
qed

lemma dispatch_ok_chunks: "dispatch_ok d \<Longrightarrow> dispatch_ok (snd (prune_chunks s hours n k d))"
proof (induction k arbitrary: d)
  case (Suc k)
  have "dispatch_ok (snd (prune_chunk s hours n d))" using Suc.prems by (simp add: prune_chunk_def Let_def dispatch_ok_delete)
  then show ?case using Suc.IH by (auto split: prod.split) (metis snd_conv)
qed simp

lemma dispatch_ok_prune: "dispatch_ok d \<Longrightarrow> dispatch_ok (prune_orphaned_dispatch_runs s hours n k d)"
  using dispatch_ok_chunks [of d s hours n k] by (auto simp: prune_orphaned_dispatch_runs_def split: prod.split)

text \<open>What sends, claims, reports and registrations write, and the writes of the sweeps of this theory one by one. The remaining writers of the run table are in \<open>RunWriters\<close>.\<close>

inductive service_step :: "dstate \<Rightarrow> dstate \<Rightarrow> bool" where
  life: "life_step d d' \<Longrightarrow> service_step d d'"
| requeue: "service_step d (requeue_claim s row d)"
| close_delivered: "service_step d (close_delivered s row d)"
| strand: "service_step d (fail_stranded s w b row d)"
| reap: "service_step d (reap_queued s w row d)"
| orphan: "service_step d (close_orphaned s row d)"
| reroute: "service_step d (reroute_orphaned_managed_channel_runs s pick c d)"
| prune: "service_step d (prune_orphaned_dispatch_runs s hours n k d)"
| release: "service_step d (snd (release_claim_receipts r d))"
| close_control: "service_step d (close_control c d)"

interpretation services: invariant_system "\<lambda>d. d_runs d = []" service_step dispatch_ok
proof unfold_locales
  show "d_runs d = [] \<Longrightarrow> dispatch_ok d" for d by (rule lives.inv_init)
  show "dispatch_ok d \<Longrightarrow> service_step d d' \<Longrightarrow> dispatch_ok d'" for d d'
    by (rotate_tac, induction rule: service_step.induct)
      (auto intro: lives.inv_step quiet_ok [OF quiet_writes(1)] quiet_ok [OF quiet_writes(2)] quiet_ok [OF quiet_writes(3)] quiet_ok [OF quiet_writes(4)]
        quiet_ok [OF quiet_writes(5)] quiet_ok [OF quiet_writes(6)] quiet_ok [OF quiet_reroute] dispatch_ok_prune simp: release_claim_receipts_def Let_def)
qed

subsection \<open>Writes of one run\<close>

text \<open>What a write of another run leaves alone: the rows of a run, its events, and everything a judgement of it reads.\<close>

definition spares :: "string \<Rightarrow> dstate \<Rightarrow> dstate \<Rightarrow> bool" where
  "spares i d d' = (filter (\<lambda>r. r_id r = i) (d_runs d') = filter (\<lambda>r. r_id r = i) (d_runs d)
     \<and> filter (\<lambda>(j, _). j = i) (d_events d') = filter (\<lambda>(j, _). j = i) (d_events d) \<and> d_bridges d' = d_bridges d \<and> (\<exists>es. d_events d' = d_events d @ es))"

lemma spares_refl [simp]: "spares i d d"
  by (simp add: spares_def)

lemma spares_trans: "spares i d d' \<Longrightarrow> spares i d' d'' \<Longrightarrow> spares i d d''"
  by (auto simp: spares_def)

lemma spares_fold:
  assumes "\<And>x d. x \<in> set xs \<Longrightarrow> spares i d (f x d)"
  shows "spares i d (fold f xs d)"
  using assms
proof (induction xs arbitrary: d)
  case (Cons x xs)
  have "spares i d (f x d)" by (rule Cons.prems) simp
  moreover have "spares i (f x d) (fold f xs (f x d))" by (rule Cons.IH) (rule Cons.prems, simp)
  ultimately show ?case using spares_trans by simp
qed simp

lemma spares_update:
  assumes "j \<noteq> i" and "\<And>r. r_id (f r) = r_id r"
  shows "spares i d (update_run j P f d)"
proof -
  have "filter (\<lambda>r. r_id r = i) (map (\<lambda>r. if r_id r = j \<and> P r then f r else r) rs) = filter (\<lambda>r. r_id r = i) rs" for rs
    by (induction rs) (use assms in auto)
  then show ?thesis by (simp add: spares_def update_run_def)
qed

lemma spares_event: "j \<noteq> i \<Longrightarrow> spares i d d' \<Longrightarrow> spares i d (append_dispatch_event j k d')"
  by (auto simp: spares_def append_dispatch_event_def)

lemma spares_release: "spares i d (snd (release_claim_receipts r d')) = spares i d d'"
  by (simp add: spares_def release_claim_receipts_def Let_def)

lemma spares_mirror: "spares i d (mirror_undeliverable_queued_run_to_sender s row d') = spares i d d'"
  by (simp add: spares_def mirror_undeliverable_queued_run_to_sender_def)

lemma kept_id: "r_id (ended_row st at r) = r_id r" "r_id (requeued_row r) = r_id r"
  by (simp_all add: ended_row_def requeued_row_def)

lemma spares_writes:
  assumes "py_strip (r_id row) \<noteq> i"
  shows "spares i d (requeue_claim s row d)" "spares i d (close_delivered s row d)" "spares i d (fail_stranded s w b row d)" "spares i d (reap_queued s w row d)"
    "spares i d (close_orphaned s row d)"
  using assms by (auto simp: requeue_claim_def close_delivered_def fail_stranded_def reap_queued_def close_orphaned_def
      Let_def spares_release spares_mirror kept_id intro!: spares_update spares_event split: option.split)

text \<open>A sweep over rows with different ids changes each run by its own write only.\<close>

lemma fold_at:
  assumes "distinct (map r_id rows)" and "row \<in> set rows" and "\<And>r. r \<in> set rows \<Longrightarrow> py_strip (r_id r) = r_id r"
    and others: "\<And>r d i. i \<noteq> py_strip (r_id r) \<Longrightarrow> spares i d (f r d)"
  obtains d1 where "spares (r_id row) d d1" "spares (r_id row) (f row d1) (fold f rows d)"
proof -
  obtain xs ys where rows: "rows = xs @ row # ys" using assms(2) by (auto dest: split_list)
  have "r_id r \<noteq> r_id row" if "r \<in> set xs \<union> set ys" for r
  proof -
    have "r_id r \<in> r_id ` (set xs \<union> set ys)" using that by (rule imageI)
    then show ?thesis using assms(1) unfolding rows by auto
  qed
  then have o: "r_id row \<noteq> py_strip (r_id r)" if "r \<in> set xs \<union> set ys" for r
    using that assms(3) [of r] unfolding rows by (metis UnCI Un_iff list.set_intros(2) set_append)
  have "spares (r_id row) d (fold f xs d)" by (rule spares_fold) (use o others in auto)
  moreover have "spares (r_id row) (f row (fold f xs d)) (fold f ys (f row (fold f xs d)))" by (rule spares_fold) (use o others in auto)
  ultimately show thesis using that unfolding rows by simp
qed

lemma filter_unique: "distinct (map f xs) \<Longrightarrow> x \<in> set xs \<Longrightarrow> filter (\<lambda>y. f y = f x) xs = [x]"
proof (induction xs)
  case (Cons y ys)
  have "filter (\<lambda>z. f z = f x) ys = []" if "f x \<notin> f ` set ys" using that by (metis (mono_tags, lifting) filter_False imageI)
  then show ?case using Cons by (auto simp: rev_image_eqI)
qed simp

lemma run_ids:
  assumes "dispatch_ok d" and "r \<in> set (d_runs d)"
  shows "py_strip (r_id r) = r_id r" "r_id r \<noteq> []" "filter (\<lambda>q. r_id q = r_id r) (d_runs d) = [r]"
proof -
  obtain k where k: "r_id r = ''run_'' @ nat_str k" using assms unfolding dispatch_ok_def runs_ok_def by auto
  then show "r_id r \<noteq> []" by simp
  have "\<not> is_space (digit_char m)" if "m < 10" for m using that by (auto simp: digit_char_def is_space_def Let_def)
  then have "\<not> is_space (digit_char (k mod 10))" by simp
  moreover have "last (nat_str k) = digit_char (k mod 10)" by (subst nat_str.simps) simp
  ultimately have "nat_str k \<noteq> []" "\<not> is_space (last (nat_str k))" using nat_str.simps [of k] by auto
  moreover have "\<not> is_space (CHR ''r'')" by code_simp
  ultimately have "\<not> is_space (hd (r_id r)) \<and> \<not> is_space (last (r_id r))" unfolding k by simp
  then show "py_strip (r_id r) = r_id r" by (intro strip_id disjI2)
  have "distinct (map r_id (d_runs d))" using assms(1) unfolding dispatch_ok_def runs_ok_def by blast
  then show "filter (\<lambda>q. r_id q = r_id r) (d_runs d) = [r]" using assms(2) by (rule filter_unique)
qed

abbreviation rows_of :: "string \<Rightarrow> dstate \<Rightarrow> drun list" where
  "rows_of i d \<equiv> filter (\<lambda>r. r_id r = i) (d_runs d)"

lemma rows_updated: "(\<And>r. r_id (f r) = r_id r) \<Longrightarrow> rows_of i (update_run i P f d) = map (\<lambda>r. if P r then f r else r) (rows_of i d)"
proof -
  assume f: "\<And>r. r_id (f r) = r_id r"
  have "filter (\<lambda>r. r_id r = i) (map (\<lambda>r. if r_id r = i \<and> P r then f r else r) rs) = map (\<lambda>r. if P r then f r else r) (filter (\<lambda>r. r_id r = i) rs)" for rs
    by (induction rs) (use f in auto)
  then show ?thesis by (simp add: update_run_def)
qed

lemma rows_kept [simp]: "rows_of i (append_dispatch_event j k d) = rows_of i d" "rows_of i (snd (release_claim_receipts r d)) = rows_of i d"
  "rows_of i (mirror_undeliverable_queued_run_to_sender s row d) = rows_of i d"
  by (simp_all add: append_dispatch_event_def release_claim_receipts_def mirror_undeliverable_queued_run_to_sender_def Let_def)

lemma rowcount_rows: "rowcount i P d = length (filter P (rows_of i d))"
  by (simp add: rowcount_def conj_commute)

lemma runs_by_id:
  assumes "quiet d d'" and "dispatch_ok d" and "\<And>r. r \<in> set (d_runs d) \<Longrightarrow> rows_of (r_id r) d' = [g r]"
  shows "d_runs d' = map g (d_runs d)"
proof -
  obtain f where f: "DispatchClaim.calm f" "d_runs d' = map f (d_runs d)" using assms(1) unfolding quiet_def by blast
  have ids: "r_id (f r) = r_id r" for r using f(1) by (simp add: DispatchClaim.calm_def)
  have "f r = g r" if r: "r \<in> set (d_runs d)" for r
  proof -
    have "rows_of (r_id r) d' = map f (rows_of (r_id r) d)" unfolding f(2) by (simp add: filter_map comp_def ids)
    then show ?thesis using assms(3) [OF r] run_ids(3) [OF assms(2) r] by simp
  qed
  then show ?thesis unfolding f(2) by simp
qed

lemma spared: 
  assumes "spares i d d'"
  shows "rows_of i d' = rows_of i d" "d_bridges d' = d_bridges d" "events_of_kind i k d' = events_of_kind i k d"
proof -
  show "rows_of i d' = rows_of i d" "d_bridges d' = d_bridges d" using assms by (simp_all add: spares_def)
  have "events_of_kind i k x = length (filter (\<lambda>e. e = (i, k)) (filter (\<lambda>(j, _). j = i) (d_events x)))" for x
    unfolding events_of_kind_def by (simp add: case_prod_beta) (rule arg_cong [of _ _ length], rule filter_cong, auto)
  then show "events_of_kind i k d' = events_of_kind i k d" using assms by (simp add: spares_def del: filter_filter)
qed

lemma live_claimer_spared: "d_bridges d' = d_bridges d \<Longrightarrow> agent_has_live_claimer s w ag d' = agent_has_live_claimer s w ag d"
  by (simp add: agent_has_live_claimer_def resident_bridge_is_fresh_def resident_bridge_record_is_fresh_def has_live_channel_sidecar_def Let_def)

lemma ownerless_spared: "d_bridges d' = d_bridges d \<Longrightarrow> ownerless s w d' r = ownerless s w d r"
  by (simp add: ownerless_def)

lemma picked:
  assumes "dispatch_ok d" and "rows = take n (sort_key k (filter P (d_runs d)))"
  shows "distinct (map r_id rows)" "\<And>r. r \<in> set rows \<Longrightarrow> r \<in> set (d_runs d) \<and> P r" "\<And>r. r \<in> set rows \<Longrightarrow> py_strip (r_id r) = r_id r"
proof -
  let ?l = "sort_key k (filter P (d_runs d))"
  have "mset (map r_id ?l) = mset (map r_id (filter P (d_runs d)))" by simp
  moreover have "distinct (map r_id (filter P (d_runs d)))" using assms(1) by (simp add: dispatch_ok_def runs_ok_def distinct_map_filter)
  ultimately have "distinct (map r_id ?l)" using mset_eq_imp_distinct_iff by blast
  then show "distinct (map r_id rows)" unfolding assms(2) take_map [symmetric] by (rule distinct_take)
  show m: "r \<in> set (d_runs d) \<and> P r" if "r \<in> set rows" for r using that set_take_subset [of n ?l] unfolding assms(2) by auto
  show "py_strip (r_id r) = r_id r" if "r \<in> set rows" for r using run_ids(1) [OF assms(1)] m [OF that] by blast
qed

lemma unpicked_spared:
  assumes "dispatch_ok d" and rows: "rows = take n (sort_key k (filter P (d_runs d)))" and "r \<in> set (d_runs d)" and "r \<notin> set rows"
    and others: "\<And>r d i. i \<noteq> py_strip (r_id r) \<Longrightarrow> spares i d (f r d)"
  shows "spares (r_id r) d (fold f rows d)"
proof (rule spares_fold)
  fix q d' assume q: "q \<in> set rows"
  note p = picked [OF assms(1) rows]
  have "r_id r \<noteq> py_strip (r_id q)"
  proof
    assume "r_id r = py_strip (r_id q)"
    then have "rows_of (r_id q) d = [r]" "rows_of (r_id q) d = [q]" using run_ids(3) [OF assms(1)] assms(3) p(2,3) [OF q] by metis+
    then show False using assms(4) q by simp
  qed
  then show "spares (r_id r) d' (f q d')" by (rule others)
qed

subsection \<open>Queued runs are given up only when nobody can take them\<close>

definition hopeless :: "sweep_env \<Rightarrow> int \<Rightarrow> dstate \<Rightarrow> drun \<Rightarrow> bool" where
  "hopeless s w d r = (py_strip (r_target r) \<noteq> [] \<and> (case e_agent (sw_env s) (py_strip (r_target r)) of None \<Rightarrow> False
     | Some ag \<Rightarrow> \<not> agent_has_live_claimer s w ag d \<and> \<not> can_rescue s (r_id r) ag d))"

lemma reap_row:
  assumes "dispatch_ok d" and "row \<in> set (d_runs d)" and "r_status row = ''queued''" and "spares (r_id row) d d1"
  shows "rows_of (r_id row) (reap_queued s w row d1) = [if hopeless s w d row then ended_row ''failed'' (e_now (sw_env s)) row else row]"
proof -
  note i = run_ids [OF assms(1,2)]
  note k = spared [OF assms(4)]
  have rows: "rows_of (r_id row) d1 = [row]" using k(1) i(3) by simp
  have c: "rowcount (r_id row) (\<lambda>r. r_status r = ''queued'') d1 = 1" using rows assms(3) by (simp add: rowcount_rows)
  have "can_rescue s (r_id row) ag d1 = can_rescue s (r_id row) ag d" for ag by (simp add: can_rescue_def k(3))
  then show ?thesis using i(1,2) rows c assms(3) live_claimer_spared [OF k(2)]
    by (auto simp: reap_queued_def hopeless_def Let_def rows_updated kept_id split: option.split)
qed

text \<open>C25. Work is given up only when nobody can take it. The backstop fails exactly those of the runs it reads (queued too long, and neither just given back nor just rescued) whose agent
  has no live claimer and for which no worker can be started or one was started before; every other run stays exactly as it was.\<close>

theorem backstop_fails_exactly_hopeless_runs:
  assumes "dispatch_ok d" and "w = max 30 backstop"
  shows "d_runs (reap_undeliverable_queued_runs s backstop n d) =
    map (\<lambda>r. if r \<in> set (take (row_limit n) (sort_key r_requested_at (filter (undelivered s w d) (d_runs d)))) \<and> hopeless s w d r
             then ended_row ''failed'' (e_now (sw_env s)) r else r) (d_runs d)"
proof (rule runs_by_id [OF quiet_sweeps(4) assms(1)])
  define rows where "rows = take (row_limit n) (sort_key r_requested_at (filter (undelivered s w d) (d_runs d)))"
  note p = picked [OF assms(1) rows_def]
  have reap: "reap_undeliverable_queued_runs s backstop n d = fold (reap_queued s w) rows d"
    by (simp add: reap_undeliverable_queued_runs_def Let_def rows_def assms(2))
  have others: "spares i d' (reap_queued s w r d')" if "i \<noteq> py_strip (r_id r)" for r d' i using that spares_writes(4) by metis
  fix r assume r: "r \<in> set (d_runs d)"
  show "rows_of (r_id r) (reap_undeliverable_queued_runs s backstop n d) =
      [if r \<in> set (take (row_limit n) (sort_key r_requested_at (filter (undelivered s w d) (d_runs d)))) \<and> hopeless s w d r then ended_row ''failed'' (e_now (sw_env s)) r else r]"
    unfolding rows_def [symmetric] reap
  proof (cases "r \<in> set rows")
    case True
    obtain d1 where d1: "spares (r_id r) d d1" "spares (r_id r) (reap_queued s w r d1) (fold (reap_queued s w) rows d)"
      by (rule fold_at [OF p(1) True p(3) others])
    have "r_status r = ''queued''" using p(2) [OF True] by (simp add: undelivered_def)
    from reap_row [OF assms(1) r this d1(1)] show "rows_of (r_id r) (fold (reap_queued s w) rows d) = [if r \<in> set rows \<and> hopeless s w d r then ended_row ''failed'' (e_now (sw_env s)) r else r]"
      using spared(1) [OF d1(2)] True by simp
  next
    case False
    have "spares (r_id r) d (fold (reap_queued s w) rows d)" by (rule unpicked_spared [OF assms(1) rows_def r False others])
    then show "rows_of (r_id r) (fold (reap_queued s w) rows d) = [if r \<in> set rows \<and> hopeless s w d r then ended_row ''failed'' (e_now (sw_env s)) r else r]"
      using spared(1) run_ids(3) [OF assms(1) r] False by auto
  qed
qed

subsection \<open>A claim given back is not given up\<close>

lemma requeue_row:
  assumes "dispatch_ok d" and "row \<in> set (d_runs d)" and "orphaned_claim s grace d row" and "spares (r_id row) d d1"
  shows "rows_of (r_id row) (requeue_claim s row d1) = [requeued_row row]"
    and "d_events (requeue_claim s row d1) = d_events d1 @ [(r_id row, ''requeued_orphaned_claim'')]"
proof -
  note i = run_ids [OF assms(1,2)]
  note k = spared [OF assms(4)]
  have rows: "rows_of (r_id row) d1 = [row]" using k(1) i(3) by simp
  have "same_claim s row d1 row" using assms(3) ownerless_spared [OF k(2)] by (simp add: same_claim_def orphaned_claim_def)
  then have c: "same_claim s row d1 row" "rowcount (r_id row) (same_claim s row d1) d1 = 1" using rows by (simp_all add: rowcount_rows del: filter_filter)
  then have w: "requeue_claim s row d1 = append_dispatch_event (r_id row) ''requeued_orphaned_claim''
      (snd (release_claim_receipts row (update_run (r_id row) (same_claim s row d1) requeued_row d1)))" using i(1,2) by (simp add: requeue_claim_def Let_def)
  show "rows_of (r_id row) (requeue_claim s row d1) = [requeued_row row]" unfolding w using rows c(1) by (simp add: rows_updated kept_id)
  show "d_events (requeue_claim s row d1) = d_events d1 @ [(r_id row, ''requeued_orphaned_claim'')]"
    unfolding w by (simp add: append_dispatch_event_def release_claim_receipts_def update_run_def Let_def)
qed

lemma event_since_at: "j < length (d_events d) \<Longrightarrow> d_events d ! j = (i, k) \<Longrightarrow> P k \<Longrightarrow> recent s w (sw_created s j) \<Longrightarrow> event_since s w i P d"
  unfolding event_since_def list_ex_iff by (intro bexI [of _ "(j, (i, k))"]) (auto simp: in_set_enumerate_eq)

text \<open>That a run waits, given back by an event at or after a place of the event table.\<close>

definition waits :: "string \<Rightarrow> nat \<Rightarrow> string \<Rightarrow> dstate \<Rightarrow> bool" where
  "waits a l i d = (\<exists>q. rows_of i d = [q] \<and> r_status q = ''queued'' \<and> r_claim_bridge q = [] \<and> r_target q = a
     \<and> (\<exists>j. l \<le> j \<and> j < length (d_events d) \<and> d_events d ! j = (i, ''requeued_orphaned_claim'')))"

lemma waits_spared: "spares i d d' \<Longrightarrow> waits a l i d \<Longrightarrow> waits a l i d'"
proof -
  assume sp: "spares i d d'" and w: "waits a l i d"
  obtain es where es: "d_events d' = d_events d @ es" using sp by (auto simp: spares_def)
  have "j < length (d_events d') \<and> d_events d' ! j = d_events d ! j" if "j < length (d_events d)" for j using that es by (simp add: nth_append)
  then show ?thesis using w spared(1) [OF sp] unfolding waits_def by metis
qed

lemma waits_requeue:
  assumes "dispatch_ok d" and "row \<in> set (select_orphaned_claims s grace n d)"
  shows "waits (r_target row) (length (d_events d)) (r_id row) (requeue_orphaned_claimed_runs s grace n d)"
proof -
  note p = picked [OF assms(1) select_orphaned_claims_def]
  have others: "spares i d' (requeue_claim s r d')" if "i \<noteq> py_strip (r_id r)" for r d' i using that spares_writes(1) by metis
  obtain d1 where d1: "spares (r_id row) d d1" "spares (r_id row) (requeue_claim s row d1) (requeue_orphaned_claimed_runs s grace n d)"
    unfolding requeue_orphaned_claimed_runs_def by (rule fold_at [OF p(1) assms(2) p(3) others])
  have r: "row \<in> set (d_runs d)" "orphaned_claim s grace d row" using p(2) [OF assms(2)] by blast+
  obtain es where es: "d_events d1 = d_events d @ es" using d1(1) by (auto simp: spares_def)
  have "waits (r_target row) (length (d_events d)) (r_id row) (requeue_claim s row d1)" unfolding waits_def
  proof (intro exI conjI)
    show "rows_of (r_id row) (requeue_claim s row d1) = [requeued_row row]" by (rule requeue_row(1) [OF assms(1) r d1(1)])
    show "d_events (requeue_claim s row d1) ! length (d_events d1) = (r_id row, ''requeued_orphaned_claim'')" "length (d_events d1) < length (d_events (requeue_claim s row d1))"
      using requeue_row(2) [OF assms(1) r d1(1)] by simp_all
    show "length (d_events d) \<le> length (d_events d1)" using es by simp
  qed (simp_all add: requeued_row_def)
  then show ?thesis by (rule waits_spared [OF d1(2)])
qed

lemma waits_reroute: "waits a l i d \<Longrightarrow> waits a l i (reroute_orphaned_managed_channel_runs s pick c d)"
proof -
  assume w: "waits a l i d"
  have "rows_of i (d\<lparr>d_runs := map (\<lambda>r. if P r then r\<lparr>r_execution_mode := m\<rparr> else r) (d_runs d)\<rparr>) = map (\<lambda>r. if P r then r\<lparr>r_execution_mode := m\<rparr> else r) (rows_of i d)" for P m
  proof -
    have "filter (\<lambda>r. r_id r = i) (map (\<lambda>r. if P r then r\<lparr>r_execution_mode := m\<rparr> else r) rs) = map (\<lambda>r. if P r then r\<lparr>r_execution_mode := m\<rparr> else r) (filter (\<lambda>r. r_id r = i) rs)" for rs
      by (induction rs) auto
    then show ?thesis by simp
  qed
  then show ?thesis using w unfolding waits_def reroute_orphaned_managed_channel_runs_def Let_def by auto
qed

lemma waits_unpicked:
  assumes "dispatch_ok d" and "waits a l i d" and rows: "rows = take n (sort_key k (filter P (d_runs d)))"
    and "\<And>q. r_id q = i \<Longrightarrow> r_status q = ''queued'' \<Longrightarrow> \<not> P q" and others: "\<And>r d i. i \<noteq> py_strip (r_id r) \<Longrightarrow> spares i d (f r d)"
  shows "waits a l i (fold f rows d)"
proof -
  obtain q where q: "rows_of i d = [q]" "r_status q = ''queued''" using assms(2) unfolding waits_def by blast
  have "q \<in> set (rows_of i d)" unfolding q(1) by simp
  then have m: "q \<in> set (d_runs d)" "r_id q = i" by simp_all
  then have "q \<notin> set rows" using assms(4) [of q] q(2) picked(2) [OF assms(1) rows] by blast
  from unpicked_spared [OF assms(1) rows m(1) this others] m(2) have "spares i d (fold f rows d)" by simp
  then show ?thesis by (rule waits_spared) (rule assms(2))
qed

lemma waits_reap:
  assumes "dispatch_ok d" and "waits a l i d" and "\<And>j. l \<le> j \<Longrightarrow> recent s (max 30 b) (sw_created s j)"
  shows "waits a l i (reap_undeliverable_queued_runs s b n d)"
  unfolding reap_undeliverable_queued_runs_def Let_def
proof (rule waits_unpicked [OF assms(1,2) refl])
  obtain j where j: "l \<le> j" "j < length (d_events d)" "d_events d ! j = (i, ''requeued_orphaned_claim'')" using assms(2) unfolding waits_def by blast
  then have "event_since s (max 30 b) i (\<lambda>k. k = ''requeued_orphaned_claim'' \<or> k = ''coldstart_rescue'') d"
    by (intro event_since_at [OF j(2,3) _ assms(3) [OF j(1)]]) simp
  then show "\<not> undelivered s (max 30 b) d q" if "r_id q = i" for q using that by (simp add: undelivered_def)
qed (erule not_sym [THEN spares_writes(4)])

lemma waits_orphaned: "dispatch_ok d \<Longrightarrow> waits a l i d \<Longrightarrow> waits a l i (close_orphaned_managed_runs s m c n d)"
  unfolding close_orphaned_managed_runs_def Let_def
  by (rule waits_unpicked [OF _ _ refl]) (simp_all add: orphaned_run_def is_active_def not_sym [THEN spares_writes(5)])

lemma waits_stranded: "dispatch_ok d \<Longrightarrow> waits a l i d \<Longrightarrow> waits a l i (fail_stranded_delivered_reply_runs s b n d)"
  unfolding fail_stranded_delivered_reply_runs_def Let_def
  by (rule waits_unpicked [OF _ _ refl]) (simp_all add: stranded_def not_sym [THEN spares_writes(3)])

lemma waits_released: "waits a l i d \<Longrightarrow> waits a l i (release_receipts_from_unstarted_runs s n d)"
  unfolding release_receipts_from_unstarted_runs_def by (erule waits_spared [rotated]) (rule spares_fold, simp add: spares_release)

lemma runs_of_closed_controls: "d_runs (close_controls_for_ended_runs n d) = d_runs d"
proof -
  have "d_runs (close_control k d) = d_runs d" for k d by (simp add: close_control_def Let_def append_dispatch_event_def)
  then have "d_runs (fold close_control ks d) = d_runs d" for ks by (induction ks arbitrary: d) simp_all
  then show ?thesis by (simp add: close_controls_for_ended_runs_def)
qed

text \<open>What is written in between leaves a run alone: the table stays well formed, the run's row is as it was, and events are only added.\<close>

definition leaves_alone :: "string \<Rightarrow> (dstate \<Rightarrow> dstate) \<Rightarrow> bool" where
  "leaves_alone i f = (\<forall>d. dispatch_ok d \<longrightarrow> dispatch_ok (f d) \<and> filter (\<lambda>r. r_id r = i) (d_runs (f d)) = filter (\<lambda>r. r_id r = i) (d_runs d)
     \<and> (\<exists>es. d_events (f d) = d_events d @ es))"

lemma waits_alone: "leaves_alone i f \<Longrightarrow> dispatch_ok d \<Longrightarrow> waits a l i d \<Longrightarrow> dispatch_ok (f d) \<and> waits a l i (f d)"
proof -
  assume f: "leaves_alone i f" and ok: "dispatch_ok d" and w: "waits a l i d"
  obtain es where es: "d_events (f d) = d_events d @ es" "rows_of i (f d) = rows_of i d" and ok': "dispatch_ok (f d)"
    using f ok unfolding leaves_alone_def by (metis (no_types, lifting))
  have "j < length (d_events (f d)) \<and> d_events (f d) ! j = d_events d ! j" if "j < length (d_events d)" for j using that es(1) by (simp add: nth_append)
  then show ?thesis using w ok' es(2) unfolding waits_def by metis
qed

text \<open>C7. Recovery comes before failure. A run that the failure block of a pass gives back because the bridge that claimed it is gone is still queued, unclaimed and its agent's, when the block
  ends: neither the backstop, which goes by the run's old request time, nor any later step of the block fails it. This holds whatever is written between the
  steps, as long as nobody else writes the run itself or breaks the table, and as long as the block has not taken longer than the backstop's window when the backstop
  reads: what was written since the block began is then still recent to it. Only the failure block is meant; a later part of the pass may end the run for another reason, as the removal of its agent does.\<close>

theorem requeued_run_survives_the_block:
  assumes "dispatch_ok d" and "row \<in> set (select_orphaned_claims (s 0) 90 200 d)" and new: "\<forall>j \<ge> length (d_events d). recent (s 2) (max 30 (ps_backstop p)) (sw_created (s 2) j)"
    and others: "\<forall>n. leaves_alone (r_id row) (others n)"
  shows "\<exists>q. filter (\<lambda>r. r_id r = r_id row) (d_runs (failure_block s p pick others d)) = [q] \<and> r_status q = ''queued'' \<and> r_claim_bridge q = [] \<and> r_target q = r_target row"
proof -
  let ?w = "\<lambda>d'. dispatch_ok d' \<and> waits (r_target row) (length (d_events d)) (r_id row) d'"
  note alone = waits_alone [OF others [rule_format]]
  define d1 where "d1 = others 0 (requeue_orphaned_claimed_runs (s 0) 90 200 d)"
  define d2 where "d2 = others 1 (reroute_orphaned_managed_channel_runs (s 1) pick (ps_via_console p) d1)"
  define d3 where "d3 = others 2 (reap_undeliverable_queued_runs (s 2) (ps_backstop p) 200 d2)"
  define d4 where "d4 = others 3 (close_orphaned_managed_runs (s 3) (ps_stale_minutes p) (ps_ceiling_minutes p) 200 d3)"
  define d5 where "d5 = others 4 (fail_stranded_delivered_reply_runs (s 4) (ps_backstop p) 200 d4)"
  define d6 where "d6 = others 5 (release_receipts_from_unstarted_runs (s 5) 200 d5)"
  have "?w d1" unfolding d1_def by (rule alone [OF quiet_ok [OF quiet_sweeps(1) assms(1)] waits_requeue [OF assms(1,2)]])
  then have "?w d2" unfolding d2_def by (intro alone quiet_ok [OF quiet_reroute] waits_reroute) blast+
  then have "?w d3" unfolding d3_def by (intro alone quiet_ok [OF quiet_sweeps(4)] waits_reap new [rule_format]) blast+
  then have "?w d4" unfolding d4_def by (intro alone quiet_ok [OF quiet_sweeps(5)] waits_orphaned) blast+
  then have "?w d5" unfolding d5_def by (intro alone quiet_ok [OF quiet_sweeps(3)] waits_stranded) blast+
  then have "?w d6" unfolding d6_def by (intro alone quiet_ok [OF quiet_sweeps(6)] waits_released) blast+
  then show ?thesis unfolding failure_block_def Let_def d1_def [symmetric] d2_def [symmetric] d3_def [symmetric] d4_def [symmetric] d5_def [symmetric] d6_def [symmetric]
    by (auto simp: waits_def runs_of_closed_controls)
qed

subsection \<open>Pruning in chunks\<close>

lemma length_picked: "distinct rs \<Longrightarrow> distinct sel \<Longrightarrow> set sel \<subseteq> set rs \<Longrightarrow> length (filter (\<lambda>r. r \<in> set sel) rs) = length sel"
proof -
  assume a: "distinct rs" "distinct sel" "set sel \<subseteq> set rs"
  have "set (filter (\<lambda>r. r \<in> set sel) rs) = set sel" using a(3) by auto
  moreover have "distinct (filter (\<lambda>r. r \<in> set sel) rs)" using a(1) by simp
  ultimately show ?thesis using a(2) distinct_card by metis
qed

lemma prune_step:
  assumes "distinct (map r_id rs)" and sel: "sel = take n (sort_key k (filter P rs))"
  shows "filter (\<lambda>r. r_id r \<in> set (map r_id sel)) rs = filter (\<lambda>r. r \<in> set sel) rs" "filter (\<lambda>r. r_id r \<notin> set (map r_id sel)) rs = filter (\<lambda>r. r \<notin> set sel) rs"
    "length (filter (\<lambda>r. r \<in> set sel) rs) = min n (length (filter P rs))" "length (filter P (filter (\<lambda>r. r \<notin> set sel) rs)) = length (filter P rs) - n"
    "filter (\<lambda>r. \<not> P r) (filter (\<lambda>r. r \<notin> set sel) rs) = filter (\<lambda>r. \<not> P r) rs"
proof -
  have inj: "inj_on r_id (set rs)" and d: "distinct rs" using assms(1) by (simp_all add: distinct_map)
  have sub: "set sel \<subseteq> {r \<in> set rs. P r}" unfolding sel using set_take_subset [of n "sort_key k (filter P rs)"] by simp
  have "r_id r \<in> r_id ` set sel \<longleftrightarrow> r \<in> set sel" if "r \<in> set rs" for r using inj that sub by (auto dest: inj_onD)
  then show "filter (\<lambda>r. r_id r \<in> set (map r_id sel)) rs = filter (\<lambda>r. r \<in> set sel) rs" "filter (\<lambda>r. r_id r \<notin> set (map r_id sel)) rs = filter (\<lambda>r. r \<notin> set sel) rs"
    by (auto intro: filter_cong)
  have ds: "distinct sel" unfolding sel using d by (simp add: distinct_take)
  have l: "length sel = min n (length (filter P rs))" unfolding sel by simp
  show m: "length (filter (\<lambda>r. r \<in> set sel) rs) = min n (length (filter P rs))" using length_picked [OF d ds] sub l by auto
  have "length (filter (\<lambda>r. r \<in> set sel) (filter P rs)) = min n (length (filter P rs))" using length_picked [of "filter P rs" sel] d ds sub l by auto
  moreover have "length (filter (\<lambda>r. r \<in> set sel) (filter P rs)) + length (filter (\<lambda>r. r \<notin> set sel) (filter P rs)) = length (filter P rs)" by (rule sum_length_filter_compl)
  moreover have "filter P (filter (\<lambda>r. r \<notin> set sel) rs) = filter (\<lambda>r. r \<notin> set sel) (filter P rs)" by (simp add: conj_commute)
  ultimately show "length (filter P (filter (\<lambda>r. r \<notin> set sel) rs)) = length (filter P rs) - n" by presburger
  show "filter (\<lambda>r. \<not> P r) (filter (\<lambda>r. r \<notin> set sel) rs) = filter (\<lambda>r. \<not> P r) rs" using sub by (auto intro: filter_cong)
qed

lemma prune_chunks_whole:
  assumes "distinct (map r_id (d_runs d))" and "length (filter (prunable s hours) (d_runs d)) \<le> n * k"
  shows "d_runs (snd (prune_chunks s hours n k d)) = filter (\<lambda>r. \<not> prunable s hours r) (d_runs d)"
  using assms
proof (induction k arbitrary: d)
  case 0
  then show ?case by (simp add: filter_id_conv filter_empty_conv)
next
  case (Suc k)
  let ?P = "prunable s hours"
  define sel where "sel = take n (sort_key (prune_key s) (filter ?P (d_runs d)))"
  note p = prune_step [OF Suc.prems(1) sel_def]
  define d1 where "d1 = delete_runs (map r_id sel) d"
  have runs: "d_runs d1 = filter (\<lambda>r. r \<notin> set sel) (d_runs d)" using p(2) by (simp add: d1_def delete_runs_def)
  have c: "prune_chunk s hours n d = (min n (length (filter ?P (d_runs d))), d1)" using p(1,3) by (simp add: prune_chunk_def Let_def sel_def d1_def)
  show ?case
  proof (cases "length (filter ?P (d_runs d)) < n")
    case True
    then have "filter ?P (d_runs d1) = []" using p(4) runs by simp
    then have "d_runs d1 = filter (\<lambda>r. \<not> ?P r) (d_runs d1)" by (simp add: filter_empty_conv filter_id_conv)
    then show ?thesis using True c p(5) runs by simp
  next
    case False
    have "d_runs (snd (prune_chunks s hours n k d1)) = filter (\<lambda>r. \<not> ?P r) (d_runs d1)"
      by (rule Suc.IH) (use Suc.prems p(4) runs in \<open>simp_all add: distinct_map_filter del: filter_filter\<close>)
    then show ?thesis using False c p(5) runs by (cases "prune_chunks s hours n k d1") (simp del: filter_filter)
  qed
qed

text \<open>Deleting in chunks deletes what one statement would. As long as the chunks a pass may take are enough for the runs that qualify (ended, old enough, and naming no registered agent at either end), the pass removes exactly these
  and keeps every other run as it is.\<close>

theorem chunked_prune_is_whole:
  assumes "dispatch_ok d" and "length (filter (prunable s hours) (d_runs d)) \<le> n * k"
  shows "d_runs (prune_orphaned_dispatch_runs s hours n k d) = filter (\<lambda>r. \<not> prunable s hours r) (d_runs d)"
proof -
  have "distinct (map r_id (d_runs d))" using assms(1) by (simp add: dispatch_ok_def runs_ok_def)
  from prune_chunks_whole [OF this assms(2)] show ?thesis
    by (cases "prune_chunks s hours n k d") (simp add: prune_orphaned_dispatch_runs_def)
qed

subsection \<open>Ended runs\<close>

text \<open>The guarded writes leave a run that has ended alone, however old the row they were given; the write of the orphan reaper does not.\<close>

lemma guarded_writes_keep_ended_runs:
  assumes "r \<in> set (d_runs d)" and "is_finished r"
  shows "r \<in> set (d_runs (requeue_claim s row d))" "r \<in> set (d_runs (close_delivered s row d))" "r \<in> set (d_runs (fail_stranded s w b row d))" "r \<in> set (d_runs (reap_queued s w row d))"
proof -
  have k: "r \<in> set (d_runs (update_run i P f d))" if "\<not> P r" for i P f using assms(1) that unfolding update_run_def by force
  have n: "r_status r \<noteq> ''claimed''" "r_status r \<noteq> ''delivered''" "r_status r \<noteq> ''queued''" using assms(2) by (auto simp: is_finished_def DISPATCH_TERMINAL_STATUSES_def)
  have e: "d_runs (append_dispatch_event i x y) = d_runs y" "d_runs (snd (release_claim_receipts q y)) = d_runs y" "d_runs (mirror_undeliverable_queued_run_to_sender s q y) = d_runs y" for i x y q
    by (simp_all add: append_dispatch_event_def release_claim_receipts_def mirror_undeliverable_queued_run_to_sender_def Let_def)
  show "r \<in> set (d_runs (requeue_claim s row d))" using assms(1) k n by (simp add: requeue_claim_def Let_def e same_claim_def)
  show "r \<in> set (d_runs (close_delivered s row d))" using assms(1) k n by (simp add: close_delivered_def Let_def e)
  show "r \<in> set (d_runs (fail_stranded s w b row d))" using assms(1) k n by (simp add: fail_stranded_def Let_def e)
  show "r \<in> set (d_runs (reap_queued s w row d))" using assms(1) k n by (simp add: reap_queued_def Let_def e split: option.split)
qed

lemma orphan_close_overwrites_completion:
  assumes "r \<in> set (d_runs d)" and "r_status r = ''completed''" and "r_id row = r_id r" and "py_strip (r_id r) = r_id r" "r_id r \<noteq> []" and "\<not> may_be_working s (py_strip (r_target row))"
  shows "ended_row ''failed'' (e_now (sw_env s)) r \<in> set (d_runs (close_orphaned s row d))"
proof -
  have "ended_row ''failed'' (e_now (sw_env s)) r \<in> set (d_runs (update_run (r_id r) (\<lambda>_. True) (ended_row ''failed'' (e_now (sw_env s))) d))"
    using assms(1) unfolding update_run_def by force
  then show ?thesis using assms by (simp add: close_orphaned_def Let_def append_dispatch_event_def)
qed

subsection \<open>Witnesses\<close>

definition demo_sweep :: sweep_env where
  "demo_sweep = \<lparr>sw_env = demo_env\<lparr>e_agent := (\<lambda>_. Some demo_codex)\<rparr>, sw_now = 100000, sw_datetime = (\<lambda>_. Some 0), sw_created = (\<lambda>_. Some 100000), sw_lease = (\<lambda>_. None),
     sw_resident_lease = 150, sw_view = (\<lambda>_. Some demo_view), sw_eligibility = (\<lambda>_. demo_view), sw_summary = (\<lambda>_. False), sw_session = (\<lambda>_. False),
     sw_registered = (\<lambda>_. False), sw_control_recent = (\<lambda>_. False), sw_starts = (\<lambda>_. False), sw_notice = (\<lambda>_. lit ''n1'')\<rparr>"

lemma demo_claimed_served: "service_step\<^sup>*\<^sup>* no_dispatch demo_claimed"
  using demo_claimed_reached by (rule mono_rtranclp [rule_format, rotated]) (intro service_step.life life_step.tables)

lemma demo_tables: "dispatch_ok demo_claimed" "dispatch_ok demo_resident"
proof -
  have n: "d_runs no_dispatch = []" by code_simp
  show "dispatch_ok demo_claimed" by (rule services.inv_reachable [OF n demo_claimed_served])
  have "dispatch_step no_dispatch demo_resident" unfolding demo_resident_def by (rule dispatch_step.send)
  then show "dispatch_ok demo_resident" using dispatches.inv_reachable [OF n r_into_rtranclp] by blast
qed

theorem backstop_fails_exactly_hopeless_runs_witness:
  "map r_status (d_runs demo_resident) = [''queued''] \<and> map r_status (d_runs (reap_undeliverable_queued_runs demo_sweep 180 200 demo_resident)) = [''failed'']"
proof -
  have c: "map (hopeless demo_sweep (max 30 180) demo_resident) (d_runs demo_resident) = [True]" "map (undelivered demo_sweep (max 30 180) demo_resident) (d_runs demo_resident) = [True]"
    "map r_status (d_runs demo_resident) = [''queued'']" by code_simp+
  obtain r where r: "d_runs demo_resident = [r]" using c(3) by (cases "d_runs demo_resident") auto
  from backstop_fails_exactly_hopeless_runs [OF demo_tables(2) refl, of demo_sweep 180 200] show ?thesis using c r by (simp add: row_limit_def ended_row_def)
qed

definition demo_pass :: pass_settings where
  "demo_pass = \<lparr>ps_backstop = 180, ps_stale_minutes = 5, ps_ceiling_minutes = 30, ps_via_console = False\<rparr>"

text \<open>Between the steps somebody else reports on another run.\<close>

definition demo_others :: "nat \<Rightarrow> dstate \<Rightarrow> dstate" where
  "demo_others n d = append_dispatch_event ''run_9'' ''progress'' d"

theorem requeued_run_survives_the_block_witness:
  "demo_row \<in> set (select_orphaned_claims demo_sweep 90 200 demo_claimed)
    \<and> (\<exists>q. filter (\<lambda>r. r_id r = ''run_0'') (d_runs (failure_block (\<lambda>_. demo_sweep) demo_pass id demo_others demo_claimed)) = [q] \<and> r_status q = ''queued'' \<and> r_claim_bridge q = [] \<and> r_target q = ''a'')"
proof -
  have c: "select_orphaned_claims demo_sweep 90 200 demo_claimed = [demo_row]" "r_id demo_row = ''run_0''" "r_target demo_row = ''a''" by code_simp+
  then have m: "demo_row \<in> set (select_orphaned_claims demo_sweep 90 200 demo_claimed)" by simp
  have n: "\<forall>j \<ge> length (d_events demo_claimed). recent demo_sweep (max 30 (ps_backstop demo_pass)) (sw_created demo_sweep j)"
    by (simp add: recent_def demo_sweep_def demo_pass_def)
  have oth: "\<forall>n. leaves_alone (r_id demo_row) (demo_others n)" by (simp add: leaves_alone_def demo_others_def) (simp add: append_dispatch_event_def)
  from requeued_run_survives_the_block [where s = "\<lambda>_. demo_sweep", OF demo_tables(1) m n oth, of id] c m show ?thesis by simp
qed

definition demo_reaped :: dstate where
  "demo_reaped = reap_undeliverable_queued_runs demo_sweep 180 200 demo_resident"

theorem chunked_prune_is_whole_witness:
  "map r_status (d_runs demo_reaped) = [''failed''] \<and> d_runs (prune_orphaned_dispatch_runs demo_sweep 24 1 2 demo_reaped) = []"
proof -
  have c: "map r_status (d_runs demo_reaped) = [''failed'']" "length (filter (prunable demo_sweep 24) (d_runs demo_reaped)) \<le> 1 * 2" "filter (\<lambda>r. \<not> prunable demo_sweep 24 r) (d_runs demo_reaped) = []"
    by code_simp+
  have "dispatch_ok demo_reaped" unfolding demo_reaped_def by (rule quiet_ok [OF quiet_sweeps(4) demo_tables(2)])
  from chunked_prune_is_whole [OF this c(2)] c show ?thesis by simp
qed

end
