(* ===== verification/ConsoleInput.thy ===== *)
theory ConsoleInput
  imports RunPatch
begin

text \<open>
  Messages typed into a console: \<open>service/api_core/console_input_queue.py\<close>, with the sender's label of
  \<open>service/api_core/message_view.py\<close>. A message for an agent whose session is a terminal is pasted into it as one bracketed
  paste and submitted by the carriage return that follows, and a run records that an answer is expected.

  How a terminal reads a paste (\<open>read_paste\<close>) is not part of the program: it is the bracketed-paste convention the
  code's comment names, here to state what the text does when it is typed. Of a terminal control the model keeps terminal and
  body; its terminal event is not modelled. Whether a sender is registered is an input.
\<close>

declare split_paired_All [simp del] split_paired_Ex [simp del]

abbreviation ESC :: int where "ESC \<equiv> 27"
abbreviation CSI :: int where "CSI \<equiv> 155"
abbreviation CR :: int where "CR \<equiv> 13"

definition PASTE_START :: ustr where "PASTE_START = [ESC, 91, 50, 48, 48, 126]"
definition PASTE_END :: ustr where "PASTE_END = [ESC, 91, 50, 48, 49, 126]"
definition PASTE_END_8BIT :: ustr where "PASTE_END_8BIT = [CSI, 50, 48, 49, 126]"

subsection \<open>Text without controls\<close>

definition terminal_control :: "int \<Rightarrow> bool" where
  "terminal_control c = ((0 \<le> c \<and> c \<le> 8) \<or> (11 \<le> c \<and> c \<le> 31) \<or> (127 \<le> c \<and> c \<le> 159))"

definition hex_digit :: "int \<Rightarrow> int" where
  "hex_digit n = (if n < 10 then 48 + n else 87 + n)"

definition inert_for_terminal :: "ustr \<Rightarrow> ustr" where
  "inert_for_terminal s = concat (map (\<lambda>c. if terminal_control c
     then [92, 120, hex_digit (c div 16), hex_digit (c mod 16)] else [c]) s)"

subsection \<open>The message as it is typed\<close>

definition sender_label :: "ustr \<Rightarrow> bool \<Rightarrow> ustr \<Rightarrow> ustr \<Rightarrow> ustr" where
  "sender_label sender registered origin machine =
     (if registered then sender
      else sender @ lit '' (external: not registered here, ''
        @ (if machine = [] then [] else lit ''sent from '' @ machine @ lit '', proven by that machine'' @ [APOSTROPHE] @ lit ''s key, '')
        @ (if origin = [] then lit ''gave no return address'' else lit ''says it is reachable at '' @ quote_untrusted_subject origin 200)
        @ lit ''; a reply sent here is only stored here)'')"

text \<open>\<open>replace("\r\n", "\n").replace("\r", "\n")\<close>.\<close>

definition plain_newlines :: "ustr \<Rightarrow> ustr" where
  "plain_newlines s = replace_all [CR] [LF] (replace_all [CR, LF] [LF] s)"

record console_request =
  cr_from :: ustr
  cr_type :: ustr
  cr_subject :: ustr
  cr_body :: ustr

definition console_message :: "console_request \<Rightarrow> ustr \<Rightarrow> ustr \<Rightarrow> ustr \<Rightarrow> ustr" where
  "console_message req recipient message_id sender =
     (let subject = u_strip (cr_subject req); body = u_strip (plain_newlines (cr_body req)) in
      join_lines (filter (\<lambda>part. part \<noteq> [])
        [lit ''AIFY dashboard message'', lit ''From: '' @ u_or sender (cr_from req), lit ''To: '' @ recipient,
         lit ''Type: '' @ cr_type req, (if subject = [] then [] else lit ''Subject: '' @ quote_untrusted_subject subject 240),
         lit ''MessageId: '' @ message_id, [], body, [],
         lit ''Reply in the dashboard when appropriate, using the available aify-comms tools.'']))"

definition console_dispatch_input_body :: "console_request \<Rightarrow> ustr \<Rightarrow> ustr \<Rightarrow> ustr \<Rightarrow> ustr" where
  "console_dispatch_input_body req recipient message_id sender =
     PASTE_START @ inert_for_terminal (console_message req recipient message_id sender) @ PASTE_END @ [CR]"

text \<open>A terminal that has been told of a paste: what it takes as pasted, up to the first end it recognises, and what it
  takes as keys after it.\<close>

fun paste_end :: "ustr \<Rightarrow> (ustr \<times> ustr) option" where
  "paste_end [] = None"
| "paste_end (c # cs) =
     (if prefix PASTE_END (c # cs) then Some ([], drop (length PASTE_END) (c # cs))
      else if prefix PASTE_END_8BIT (c # cs) then Some ([], drop (length PASTE_END_8BIT) (c # cs))
      else map_option (\<lambda>(text, rest). (c # text, rest)) (paste_end cs))"

definition read_paste :: "ustr \<Rightarrow> (ustr \<times> ustr) option" where
  "read_paste s = (if prefix PASTE_START s then paste_end (drop (length PASTE_START) s) else None)"

subsection \<open>The contract of a delivery\<close>

definition RUNTIMES_THAT_TRACK_A_TURN :: "string list" where
  "RUNTIMES_THAT_TRACK_A_TURN = [''claude-code'', ''codex'', ''hermes'', ''opencode'', ''pi'']"

definition terminal_turn :: "string \<Rightarrow> string \<Rightarrow> drun \<Rightarrow> bool" where
  "terminal_turn a runtime r = (r_target r = a \<and> r_dispatch_mode r = ''terminal'' \<and> r_execution_mode r = ''managed'' \<and> r_runtime r = runtime \<and> is_active r)"

record contract =
  ct_source :: ustr
  ct_from :: ustr
  ct_to :: string
  ct_type :: ustr
  ct_subject :: ustr
  ct_body :: ustr
  ct_priority :: ustr
  ct_in_reply_to :: ustr
  ct_require_reply :: bool
  ct_runtime :: string

definition receipt_for :: "ustr \<Rightarrow> string \<Rightarrow> ustr \<Rightarrow> dstate \<Rightarrow> dstate" where
  "receipt_for source a at d = (if source = [] then d else d\<lparr>d_receipts := snd (insert_receipts [source] a at (d_receipts d))\<rparr>)"

definition contract_row :: "denv \<Rightarrow> contract \<Rightarrow> string \<Rightarrow> bool \<Rightarrow> drun" where
  "contract_row e c i tracks = \<lparr>r_id = i, r_message_id = ct_source c, r_from = ct_from c, r_target = ct_to c, r_dispatch_mode = ''terminal'',
     r_execution_mode = ''managed'', r_requested_runtime = [], r_runtime = normalize_runtime (ct_runtime c), r_type = ct_type c,
     r_subject = ct_subject c, r_body = neutralise_buffer_markers (ct_body c), r_priority = ct_priority c, r_in_reply_to = ct_in_reply_to c,
     r_status = (if tracks then ''running'' else ''delivered''), r_claim_machine = [], r_claim_bridge = [], r_result = [],
     r_require_reply = ct_require_reply c, r_queue_if_busy = False, r_steer_if_busy = False, r_requested_at = e_now e, r_claimed_at = None,
     r_started_at = (if tracks then Some (e_now e) else None), r_finished_at = None\<rparr>"

definition record_terminal_delivery_contract :: "denv \<Rightarrow> contract \<Rightarrow> dstate \<Rightarrow> string \<times> dstate" where
  "record_terminal_delivery_contract e c d =
     (let runtime = normalize_runtime (ct_runtime c); tracks = (runtime \<in> set RUNTIMES_THAT_TRACK_A_TURN) in
      case (if tracks then first_by activity_time (filter (terminal_turn (ct_to c) runtime) (d_runs d)) else None) of
        Some parent \<Rightarrow> (r_id parent, receipt_for (ct_source c) (ct_to c) (e_now e)
          (append_dispatch_event (r_id parent) ''terminal_coalesced'' (append_dispatch_event (r_id parent) ''terminal_delivered'' d)))
      | None \<Rightarrow>
          (let i = fresh_run_id d; d1 = insert_run (contract_row e c i tracks) ''terminal_delivered'' d;
               d2 = (if tracks then append_dispatch_event i ''running'' d1 else d1) in
           (i, receipt_for (ct_source c) (ct_to c) (e_now e) d2)))"

text \<open>A recipient with its console: the recipient, its terminal, the runtime of the terminal and the message's id for it.\<close>

type_synonym console = "string \<times> string \<times> string \<times> ustr"

definition source_message_id :: "ustr \<Rightarrow> string list \<Rightarrow> string \<Rightarrow> ustr" where
  "source_message_id msg_id recipients a = (if length recipients > 1 then msg_id @ lit ''-'' @ lit a else msg_id)"

record console_delivery =
  cd_to :: string
  cd_terminal :: string
  cd_run :: string

fun queue_console_inputs_for_dispatch ::
  "denv \<Rightarrow> console_request \<Rightarrow> ustr \<Rightarrow> contract \<Rightarrow> console list \<Rightarrow> (string \<times> ustr) list \<times> dstate
   \<Rightarrow> console_delivery list \<times> (string \<times> ustr) list \<times> dstate" where
  "queue_console_inputs_for_dispatch e req sender c [] (ctl, d) = ([], ctl, d)"
| "queue_console_inputs_for_dispatch e req sender c ((a, terminal, runtime, message_id) # cs) (ctl, d) =
     (let tid = py_strip terminal;
          ctl1 = ctl @ [(tid, console_dispatch_input_body req (lit a) message_id sender)];
          (run, d1) = record_terminal_delivery_contract e (c\<lparr>ct_source := message_id, ct_to := a, ct_runtime := runtime\<rparr>) d;
          (rest, out) = queue_console_inputs_for_dispatch e req sender c cs (ctl1, d1) in
      (\<lparr>cd_to = a, cd_terminal = tid, cd_run = run\<rparr> # rest, out))"

definition queue_console_dispatch_inputs ::
  "denv \<Rightarrow> bool \<Rightarrow> console_request \<Rightarrow> ustr \<Rightarrow> contract \<Rightarrow> ustr \<Rightarrow> string list \<Rightarrow> (string \<times> string \<times> string) list
   \<Rightarrow> (string \<times> ustr) list \<times> dstate \<Rightarrow> console_delivery list \<times> (string \<times> ustr) list \<times> dstate" where
  "queue_console_dispatch_inputs e trigger req sender c msg_id recipients consoles st =
     (if \<not> trigger then ([], st)
      else queue_console_inputs_for_dispatch e req sender c
        (map (\<lambda>(a, t, rt). (a, t, rt, if a \<in> set recipients then source_message_id msg_id recipients a else msg_id)) consoles) st)"

subsection \<open>Nothing typed ends the paste\<close>

lemma hex_digit_plain: "0 \<le> n \<Longrightarrow> n < 16 \<Longrightarrow> \<not> terminal_control (hex_digit n)"
  by (auto simp: hex_digit_def terminal_control_def)

lemma inert_plain: "c \<in> set (inert_for_terminal s) \<Longrightarrow> \<not> terminal_control c"
proof -
  have esc: "\<not> terminal_control x" if "terminal_control c" "x \<in> set [92, 120, hex_digit (c div 16), hex_digit (c mod 16)]" for c x
  proof -
    have "0 \<le> c" "c < 256" using that(1) by (auto simp: terminal_control_def)
    then have "0 \<le> c div 16" "c div 16 < 16" "0 \<le> c mod 16" "c mod 16 < 16" by auto
    then show ?thesis using that(2) hex_digit_plain by (auto simp: terminal_control_def)
  qed
  show "c \<in> set (inert_for_terminal s) \<Longrightarrow> \<not> terminal_control c"
    using esc by (fastforce simp: inert_for_terminal_def split: if_splits)
qed

lemma paste_end_plain:
  "\<forall>c \<in> set t. c \<noteq> ESC \<and> c \<noteq> CSI \<Longrightarrow> paste_end (t @ PASTE_END @ r) = Some (t, r)"
proof (induction t)
  case Nil
  then show ?case by (simp add: PASTE_END_def)
next
  case (Cons c t)
  then show ?case by (auto simp: PASTE_END_def PASTE_END_8BIT_def)
qed

text \<open>C29. A message cannot leave its paste. Whatever the sender, the type, the subject and the body hold, a terminal told to read a
  paste takes exactly the inert message as pasted text, without any control character but tab and line feed, and only the
  carriage return that submits it as a key.\<close>

theorem typed_message_stays_in_its_paste:
  "read_paste (console_dispatch_input_body req recipient message_id sender)
     = Some (inert_for_terminal (console_message req recipient message_id sender), [CR])
   \<and> (\<forall>c \<in> set (inert_for_terminal (console_message req recipient message_id sender)). 0 \<le> c \<and> (c < 32 \<or> (127 \<le> c \<and> c < 160)) \<longrightarrow> c = 9 \<or> c = 10)"
proof -
  let ?t = "inert_for_terminal (console_message req recipient message_id sender)"
  have plain: "\<not> terminal_control c" if "c \<in> set ?t" for c using that by (rule inert_plain)
  have "c \<noteq> ESC \<and> c \<noteq> CSI" if "c \<in> set ?t" for c using plain [OF that] by (auto simp: terminal_control_def)
  then have "paste_end (?t @ PASTE_END @ [CR]) = Some (?t, [CR])" by (intro paste_end_plain) blast
  moreover have "0 \<le> c \<and> (c < 32 \<or> (127 \<le> c \<and> c < 160)) \<longrightarrow> c = 9 \<or> c = 10" if "c \<in> set ?t" for c
    using plain [OF that] by (auto simp: terminal_control_def)
  ultimately show ?thesis by (auto simp: read_paste_def console_dispatch_input_body_def)
qed

definition demo_attack :: console_request where
  "demo_attack = \<lparr>cr_from = lit ''eve'', cr_type = lit ''info'', cr_subject = [], cr_body = lit ''x'' @ PASTE_END @ lit ''rm'' @ [CR]\<rparr>"

theorem typed_message_stays_in_its_paste_witness:
  "map_option snd (read_paste (console_dispatch_input_body demo_attack (lit ''a'') (lit ''m1'') (lit ''eve''))) = Some [CR]
   \<and> sublist (lit ''x'' @ [92] @ lit ''x1b[201~rm'') (inert_for_terminal (cr_body demo_attack))"
proof -
  have "sublist (lit ''x'' @ [92] @ lit ''x1b[201~rm'') (inert_for_terminal (cr_body demo_attack))" by code_simp
  then show ?thesis using typed_message_stays_in_its_paste [of demo_attack "lit ''a''" "lit ''m1''" "lit ''eve''"] by simp
qed

subsection \<open>One terminal turn\<close>

definition turns_of :: "string \<Rightarrow> string \<Rightarrow> dstate \<Rightarrow> drun list" where
  "turns_of a runtime d = filter (terminal_turn a runtime) (d_runs d)"

lemma turns_others [simp]: "turns_of a rt (append_dispatch_event i k d) = turns_of a rt d" "turns_of a rt (receipt_for m b t d) = turns_of a rt d"
  by (simp_all add: turns_of_def append_dispatch_event_def receipt_for_def)

lemma first_by_None: "first_by k rs = None \<longleftrightarrow> rs = []"
proof -
  have "set (sort_key k rs) = set rs" by simp
  then show ?thesis unfolding first_by_def by (cases "sort_key k rs") auto
qed

lemma turns_insert: "turns_of a rt (insert_run r k d) = turns_of a rt d @ (if terminal_turn a rt r then [r] else [])"
  by (simp add: turns_of_def insert_run_def)

text \<open>A console delivery keeps one turn. On a runtime that tracks turns, a message typed into a console joins the agent's
  terminal turn that is under way, or begins one when there is none, and the run returned is that turn; the turns of other agents and runtimes stay
  as they are. So if an agent had at most one such turn, it still has.\<close>

theorem console_delivery_keeps_one_turn:
  assumes "normalize_runtime (ct_runtime c) = rt" and "rt \<in> set RUNTIMES_THAT_TRACK_A_TURN"
    and "record_terminal_delivery_contract e c d = (i, d')"
  shows "(\<exists>r \<in> set (turns_of (ct_to c) rt d'). r_id r = i)
    \<and> length (turns_of (ct_to c) rt d') = max 1 (length (turns_of (ct_to c) rt d))
    \<and> (\<forall>a t. (a, t) \<noteq> (ct_to c, rt) \<longrightarrow> turns_of a t d' = turns_of a t d)"
proof (cases "first_by activity_time (turns_of (ct_to c) rt d)")
  case None
  then have empty: "turns_of (ct_to c) rt d = []" by (simp add: first_by_None)
  have row: "terminal_turn a t (contract_row e c (fresh_run_id d) True) = ((a, t) = (ct_to c, rt))" for a t
    using assms(1) by (auto simp: terminal_turn_def contract_row_def is_active_def)
  have i: "i = fresh_run_id d" "turns_of a t d' = turns_of a t (insert_run (contract_row e c (fresh_run_id d) True) ''terminal_delivered'' d)" for a t
    using assms None by (auto simp: record_terminal_delivery_contract_def turns_of_def [symmetric] Let_def)
  show ?thesis unfolding i turns_insert row using empty by (auto simp: contract_row_def)
next
  case (Some p)
  then have p: "p \<in> set (turns_of (ct_to c) rt d)" by (rule first_by_Some)
  have i: "i = r_id p" "turns_of a t d' = turns_of a t d" for a t
    using assms Some by (auto simp: record_terminal_delivery_contract_def turns_of_def [symmetric] Let_def)
  have "turns_of (ct_to c) rt d \<noteq> []" using p by auto
  then have "length (turns_of (ct_to c) rt d) \<ge> 1" by (simp add: Suc_leI)
  then show ?thesis unfolding i using p by auto
qed

definition demo_contract :: contract where
  "demo_contract = \<lparr>ct_source = lit ''m1'', ct_from = lit ''boss'', ct_to = ''a'', ct_type = lit ''info'', ct_subject = lit ''s'', ct_body = lit ''b'',
     ct_priority = lit ''normal'', ct_in_reply_to = [], ct_require_reply = True, ct_runtime = ''codex''\<rparr>"

theorem console_delivery_keeps_one_turn_witness:
  "length (turns_of ''a'' ''codex'' (snd (record_terminal_delivery_contract demo_env demo_contract
      (snd (record_terminal_delivery_contract demo_env demo_contract no_dispatch))))) = 1"
proof -
  let ?d = "snd (record_terminal_delivery_contract demo_env demo_contract no_dispatch)"
  obtain i d' where s: "record_terminal_delivery_contract demo_env demo_contract ?d = (i, d')" by fastforce
  have h: "normalize_runtime (ct_runtime demo_contract) = ''codex''" "''codex'' \<in> set RUNTIMES_THAT_TRACK_A_TURN"
    "length (turns_of (ct_to demo_contract) ''codex'' ?d) = 1" "ct_to demo_contract = ''a''" by code_simp+
  from console_delivery_keeps_one_turn [OF h(1,2) s] h(3,4) s show ?thesis by simp
qed

end
