(* ===== verification/RunWriters.thy ===== *)
theory RunWriters
  imports DispatchSweeps ConsoleInput TerminalStatus
begin

text \<open>
  The remaining writers of the run table: terminals that end or go idle (\<open>service/reconcilers/terminal_runs.py\<close>), removed and stopped agents
  (\<open>api_core/agent_removal.py\<close>, \<open>agent_stop_resume.py\<close>), inbox reads (\<open>inbox_read_receipts.py\<close>), deleted messages (\<open>message_store.py\<close>), channel routing
  (\<open>channel_delivery.py\<close>), renames (\<open>agent_rename_writes.py\<close>) and the audit row of a mode switch (\<open>session_mode_audit.py\<close>); and the theorem that all writers
  together, the console's among them, keep one active run per agent.

  Of the operations the part that touches the tables of \<open>dstate\<close> is modelled: the agents, sessions and channels they also write, the terminal's controls
  (\<open>TerminalControls\<close>) and the status cache are left out. Whether a terminal's screen shows an idle prompt, which is read off its text by patterns, is an input. The
  id of an audit row comes from the same counter as the ids of runs.
\<close>

declare split_paired_All [simp del] split_paired_Ex [simp del]

subsection \<open>Terminals that ended\<close>

definition close_run :: "string \<Rightarrow> string \<Rightarrow> (drun \<Rightarrow> bool) \<Rightarrow> ustr \<Rightarrow> string \<Rightarrow> dstate \<Rightarrow> dstate" where
  "close_run st kind P now i d = append_dispatch_event i kind (update_run i P (ended_row st now) d)"

definition close_active_terminal_runs_for_terminal :: "ustr \<Rightarrow> string \<Rightarrow> string \<Rightarrow> string \<Rightarrow> string \<Rightarrow> dstate \<Rightarrow> nat \<times> dstate" where
  "close_active_terminal_runs_for_terminal now terminal agent terminal_status current d =
     (let status = norm_word terminal_status in
      if status \<notin> set TERMINAL_END_STATUSES \<or> terminal = [] \<or> agent = [] then (0, d)
      else (let run_status = (if status \<in> {''stopped'', ''cancelled''} then ''cancelled'' else ''failed'');
                run_ids = map r_id (filter (\<lambda>r. r_target r = agent \<and> r_dispatch_mode r = ''terminal'' \<and> is_active r \<and> r_id r \<noteq> []) (d_runs d));
                d1 = fold (close_run run_status ''terminal_closed'' is_active now) run_ids d in
            if py_strip current \<noteq> terminal then (length run_ids, d1)
            else (let queued_ids = map r_id (sort_key r_requested_at (filter (\<lambda>r. r_target r = agent \<and> r_execution_mode r = ''channel'' \<and> is_queued r
                                     \<and> r_dispatch_mode r \<noteq> ''message_only'' \<and> r_id r \<noteq> []) (d_runs d1))) in
                  (length run_ids + length queued_ids, fold (close_run ''failed'' ''terminal_closed'' is_queued now) queued_ids d1))))"

subsection \<open>Terminals at an idle prompt\<close>

text \<open>What the two closers read of the agent's session and of a terminal: its status, whether its text shows the idle prompt of the runtime, and its two clocks.\<close>

record idle_terminal =
  it_status :: string
  it_hint :: bool
  it_output_at :: ustr
  it_updated_at :: ustr

record session_view =
  sv_runtime :: string
  sv_terminal :: string

definition run_epoch :: "denv \<Rightarrow> drun \<Rightarrow> int" where
  "run_epoch e row = Max (set (map (e_epoch e) [text_of (r_started_at row), text_of (r_claimed_at row), r_requested_at row]))"

definition prompt_is_idle :: "denv \<Rightarrow> int \<Rightarrow> drun \<Rightarrow> idle_terminal \<Rightarrow> bool" where
  "prompt_is_idle e quiet_seconds row t =
     (norm_word (it_status t) \<in> set TERMINAL_ACTIVE_STATUSES \<and> it_hint t
      \<and> (let updated = e_epoch e (if u_strip (it_output_at t) = [] then u_strip (it_updated_at t) else u_strip (it_output_at t)) in
         \<not> (updated \<noteq> 0 \<and> run_epoch e row \<noteq> 0 \<and> updated < run_epoch e row)
         \<and> \<not> (updated \<noteq> 0 \<and> e_clock e - updated < max 0 quiet_seconds)))"

definition close_idle_terminal_run :: "string \<Rightarrow> string \<Rightarrow> denv \<Rightarrow> int \<Rightarrow> session_view option \<Rightarrow> (string \<Rightarrow> idle_terminal option) \<Rightarrow> drun \<Rightarrow> dstate \<Rightarrow> bool \<times> dstate" where
  "close_idle_terminal_run wanted kind e quiet_seconds session terminals row d =
     (if norm_word (r_dispatch_mode row) \<noteq> ''terminal'' \<or> u_strip (r_result row) \<noteq> [] \<or> py_strip (r_target row) = [] then (False, d)
      else (case session of None \<Rightarrow> (False, d)
        | Some v \<Rightarrow>
            if normalize_runtime (if py_strip (r_runtime row) = [] then py_strip (sv_runtime v) else py_strip (r_runtime row)) \<noteq> wanted \<or> py_strip (sv_terminal v) = [] then (False, d)
            else (case terminals (py_strip (sv_terminal v)) of None \<Rightarrow> (False, d)
              | Some t \<Rightarrow> if \<not> prompt_is_idle e quiet_seconds row t then (False, d)
                  else (True, close_run ''completed'' kind (\<lambda>r. is_active r \<and> r_result r = []) (e_now e) (r_id row) d))))"

definition close_idle_claude_terminal_run_without_reply :: "denv \<Rightarrow> int \<Rightarrow> session_view option \<Rightarrow> (string \<Rightarrow> idle_terminal option) \<Rightarrow> drun \<Rightarrow> dstate \<Rightarrow> bool \<times> dstate" where
  "close_idle_claude_terminal_run_without_reply = close_idle_terminal_run ''claude-code'' ''terminal_idle_reconciled''"

definition close_idle_pi_terminal_run_without_reply :: "denv \<Rightarrow> int \<Rightarrow> session_view option \<Rightarrow> (string \<Rightarrow> idle_terminal option) \<Rightarrow> drun \<Rightarrow> dstate \<Rightarrow> bool \<times> dstate" where
  "close_idle_pi_terminal_run_without_reply = close_idle_terminal_run ''pi'' ''terminal_closed''"

subsection \<open>Agents that are removed or stopped\<close>

definition cancel_for_agents :: "denv \<Rightarrow> string \<Rightarrow> string list \<Rightarrow> dstate \<Rightarrow> dstate" where
  "cancel_for_agents e kind agents d =
     fold (\<lambda>i d. fail_pending_controls_for_run i (append_dispatch_event i kind (update_run i (\<lambda>_. True) (cancel_run e) d)))
       (map r_id (filter (\<lambda>r. r_target r \<in> set agents \<and> r_status r \<in> {''queued'', ''claimed'', ''running''}) (d_runs d))) d"

definition cancel_nonterminal_runs_for_agents :: "denv \<Rightarrow> string \<Rightarrow> string list \<Rightarrow> dstate \<Rightarrow> dstate" where
  "cancel_nonterminal_runs_for_agents e kind agent_ids d =
     (let targets = rev (remdups (rev (filter (\<lambda>a. a \<noteq> []) (map py_strip agent_ids)))) in fold (cancel_for_agents e kind) (chunks 250 targets) d)"

definition cancel_queued_on_stop :: "denv \<Rightarrow> string \<Rightarrow> dstate \<Rightarrow> dstate" where
  "cancel_queued_on_stop e agent d =
     fold (\<lambda>i d. append_dispatch_event i ''agent_stopped'' (update_run i (\<lambda>_. True) (cancel_run e) d))
       (map r_id (filter (\<lambda>r. r_target r = agent \<and> is_queued r) (d_runs d))) d"

subsection \<open>Messages that are read or deleted\<close>

definition settle_inbox_read :: "denv \<Rightarrow> (ustr \<times> bool) list \<Rightarrow> string \<Rightarrow> bool \<Rightarrow> dstate \<Rightarrow> dstate" where
  "settle_inbox_read e messages agent peek d =
     (if peek then d
      else (let unread = map fst (filter (\<lambda>m. \<not> snd m) messages);
                d1 = d\<lparr>d_receipts := snd (insert_receipts unread agent (e_now e) (d_receipts d))\<rparr> in
            d1\<lparr>d_runs := map (\<lambda>r. if r_message_id r \<in> set unread \<and> r_target r = agent \<and> is_active r
              then r\<lparr>r_status := ''completed'', r_finished_at := Some (e_now e)\<rparr> else r) (d_runs d1)\<rparr>))"

definition delete_chunk :: "ustr list \<Rightarrow> dstate \<Rightarrow> dstate" where
  "delete_chunk ms d =
     d\<lparr>d_runs := map (\<lambda>r. r\<lparr>r_message_id := (if r_message_id r \<in> set ms then [] else r_message_id r),
                            r_in_reply_to := (if r_in_reply_to r \<in> set ms then [] else r_in_reply_to r),
                            r_result := (if r_result r \<in> set ms then [] else r_result r)\<rparr>) (d_runs d),
       d_controls := map (\<lambda>c. if k_source c \<in> set ms then c\<lparr>k_source := []\<rparr> else c) (d_controls d),
       d_receipts := filter (\<lambda>((m, _), _). m \<notin> set ms) (d_receipts d),
       d_messages := filter (\<lambda>m. m \<notin> set ms) (d_messages d)\<rparr>"

definition delete_messages_by_ids :: "nat \<Rightarrow> ustr list \<Rightarrow> dstate \<Rightarrow> dstate" where
  "delete_messages_by_ids chunk_size ms d = fold delete_chunk (chunks chunk_size (clean_ids ms)) d"

subsection \<open>Routing, renames and audits\<close>

text \<open>\<open>LOWER(COALESCE(json_extract(...), '')) IN ('true', '1')\<close>, for which true is the number 1.\<close>

definition channel_flag_column :: "json \<Rightarrow> bool" where
  "channel_flag_column rc = (case jget rc ''channelEnabled'' of JBool b \<Rightarrow> b | JInt n \<Rightarrow> n = 1 | JStr t \<Rightarrow> py_lower t \<in> {''true'', ''1''} | _ \<Rightarrow> False)"

definition managed_on :: "denv \<Rightarrow> string list \<Rightarrow> (agent_row \<Rightarrow> bool) \<Rightarrow> drun \<Rightarrow> bool" where
  "managed_on e runtimes flag r = (case e_agent e (r_target r) of None \<Rightarrow> False
     | Some ag \<Rightarrow> py_lower (ag_runtime ag) \<in> set runtimes \<and> ag_session_mode ag = ''managed'' \<and> flag ag)"

definition route_to_channel :: "string list \<Rightarrow> (drun \<Rightarrow> bool) \<Rightarrow> dstate \<Rightarrow> dstate" where
  "route_to_channel ids P d = d\<lparr>d_runs := map (\<lambda>r. if r_id r \<in> set ids \<and> r_execution_mode r \<noteq> ''channel'' \<and> P r then r\<lparr>r_execution_mode := ''channel''\<rparr> else r) (d_runs d)\<rparr>"

definition apply_channel_routing_to_claude_runs :: "sweep_env \<Rightarrow> bool \<Rightarrow> string list \<Rightarrow> dstate \<Rightarrow> dstate" where
  "apply_channel_routing_to_claude_runs s via_console run_ids d =
     (let ids = filter (\<lambda>i. i \<noteq> []) run_ids; e = sw_env s in
      if via_console \<or> ids = [] then d
      else (let d1 = route_to_channel ids (managed_on e CHANNEL_MANAGED_RUNTIMES (\<lambda>_. True)) d;
                d2 = route_to_channel ids (managed_on e CHANNEL_FLAG_GATED_RUNTIMES (\<lambda>ag. channel_flag_column (ag_config ag))) d1;
                live = map r_id (filter (\<lambda>r. r_id r \<in> set ids \<and> r_execution_mode r \<noteq> ''channel'' \<and> managed_on e CHANNEL_FLAG_GATED_RUNTIMES (\<lambda>_. True) r
                         \<and> has_live_channel_sidecar s (r_target r) d2) (d_runs d2)) in
            route_to_channel live (\<lambda>_. True) d2))"

definition rewrite_agent_references_for_rename :: "string \<Rightarrow> string \<Rightarrow> dstate \<Rightarrow> dstate" where
  "rewrite_agent_references_for_rename a b d =
     d\<lparr>d_runs := map (\<lambda>r. r\<lparr>r_from := (if r_from r = lit a then lit b else r_from r), r_target := (if r_target r = a then b else r_target r)\<rparr>) (d_runs d),
       d_controls := map (\<lambda>c. if k_from c = lit a then c\<lparr>k_from := lit b\<rparr> else c) (d_controls d),
       d_receipts := map (\<lambda>((m, x), t). ((m, if x = a then b else x), t)) (d_receipts d),
       d_bridges := map (\<lambda>((i, x), t). ((i, if x = a then b else x), t)) (d_bridges d)\<rparr>"

definition record_session_mode_switch_audit :: "denv \<Rightarrow> string \<Rightarrow> string \<Rightarrow> string \<Rightarrow> string \<Rightarrow> ustr \<Rightarrow> ustr \<Rightarrow> dstate \<Rightarrow> dstate" where
  "record_session_mode_switch_audit e agent current_mode new_mode runtime requested_by body d =
     insert_run \<lparr>r_id = fresh_run_id d, r_message_id = [], r_from = requested_by, r_target = agent, r_dispatch_mode = ''audit'', r_execution_mode = ''audit'',
       r_requested_runtime = [], r_runtime = runtime, r_type = lit ''audit'', r_subject = lit ''session-mode-switch'', r_body = body, r_priority = lit ''normal'',
       r_in_reply_to = [], r_status = ''completed'', r_claim_machine = [], r_claim_bridge = [], r_result = [], r_require_reply = False, r_queue_if_busy = False,
       r_steer_if_busy = False, r_requested_at = e_now e, r_claimed_at = None, r_started_at = None, r_finished_at = Some (e_now e)\<rparr>
       (''mode_switch_'' @ current_mode @ ''_to_'' @ new_mode) d"

text \<open>That a message typed into the console begins the only turn of its agent, or none: the runtime tracks no turns, the agent has no active run, or a turn of the terminal is under way
  and the message joins it. The delivery itself does not ask for the second.\<close>

definition begins_only_turn :: "contract \<Rightarrow> dstate \<Rightarrow> bool" where
  "begins_only_turn c d = (normalize_runtime (ct_runtime c) \<notin> set RUNTIMES_THAT_TRACK_A_TURN \<or> active_of (ct_to c) (d_runs d) = []
     \<or> filter (terminal_turn (ct_to c) (normalize_runtime (ct_runtime c))) (d_runs d) \<noteq> [])"

subsection \<open>Who makes nothing active\<close>

lemma quiet_close_run: "st \<notin> {''claimed'', ''running''} \<Longrightarrow> quiet d (close_run st kind P now i d)"
  by (simp add: close_run_def quiet_update calm_ended_row)

lemma quiet_closes: "st \<notin> {''claimed'', ''running''} \<Longrightarrow> quiet d d' \<Longrightarrow> quiet d (fold (close_run st kind P now) is d')"
  by (erule quiet_trans) (rule quiet_fold, erule quiet_close_run)

lemma quiet_terminal: "quiet d (snd (close_active_terminal_runs_for_terminal now t a st cur d))"
  unfolding close_active_terminal_runs_for_terminal_def Let_def by (auto intro!: quiet_closes)

lemma quiet_idle: "quiet d (snd (close_idle_terminal_run wanted kind e q v ts row d))"
  by (auto simp: close_idle_terminal_run_def intro: quiet_close_run split: option.split)

lemma quiet_removed: "quiet d (cancel_nonterminal_runs_for_agents e kind as d)"
  unfolding cancel_nonterminal_runs_for_agents_def Let_def cancel_for_agents_def
  by (intro quiet_fold) (simp add: quiet_update calm_cancel)

lemma quiet_stopped: "quiet d (cancel_queued_on_stop e a d)"
  unfolding cancel_queued_on_stop_def by (intro quiet_fold) (simp add: quiet_update calm_cancel)

lemma quiet_mapped: "DispatchClaim.calm f \<Longrightarrow> d_runs d' = map f (d_runs d) \<Longrightarrow> d_next d' = d_next d \<Longrightarrow> quiet d d'"
  unfolding quiet_def by auto

lemma quiet_read: "quiet d (settle_inbox_read e ms a peek d)"
proof (cases peek)
  case False
  let ?f = "\<lambda>r. if r_message_id r \<in> set (map fst (filter (\<lambda>m. \<not> snd m) ms)) \<and> r_target r = a \<and> is_active r then r\<lparr>r_status := ''completed'', r_finished_at := Some (e_now e)\<rparr> else r"
  show ?thesis
    by (rule quiet_mapped [of ?f]) (simp_all add: False settle_inbox_read_def Let_def DispatchClaim.calm_def is_active_def)
qed (simp add: settle_inbox_read_def)

lemma quiet_deleted: "quiet d (delete_messages_by_ids n ms d)"
proof -
  have "quiet d (delete_chunk c d)" for c d
  proof (rule quiet_mapped)
    let ?f = "\<lambda>r. r\<lparr>r_message_id := (if r_message_id r \<in> set c then [] else r_message_id r),
      r_in_reply_to := (if r_in_reply_to r \<in> set c then [] else r_in_reply_to r), r_result := (if r_result r \<in> set c then [] else r_result r)\<rparr> :: drun"
    show "d_runs (delete_chunk c d) = map ?f (d_runs d)" by (simp add: delete_chunk_def)
    show "DispatchClaim.calm ?f" by (simp add: DispatchClaim.calm_def is_active_def)
  qed (simp add: delete_chunk_def)
  then show ?thesis unfolding delete_messages_by_ids_def by (rule quiet_fold)
qed

lemma quiet_route: "quiet d d' \<Longrightarrow> quiet d (route_to_channel ids P d')"
  by (erule quiet_trans) (auto simp: route_to_channel_def DispatchClaim.calm_def is_active_def intro!: quiet_mapped [of "\<lambda>r. if r_id r \<in> set ids \<and> r_execution_mode r \<noteq> ''channel'' \<and> P r then r\<lparr>r_execution_mode := ''channel''\<rparr> else r"])

lemma quiet_routed: "quiet d (apply_channel_routing_to_claude_runs s via ids d)"
  unfolding apply_channel_routing_to_claude_runs_def Let_def by (auto intro!: quiet_route)

lemma insert_active_ok:
  assumes ok: "dispatch_ok d" and i: "r_id r = fresh_run_id d" and none: "active_of (r_target r) (d_runs d) = []"
  shows "dispatch_ok (insert_run r k d)"
proof -
  let ?q = "r\<lparr>r_status := ''queued''\<rparr>"
  have "dispatch_ok (insert_run ?q k d)" using insert_ok [OF ok, of ?q k] i by (simp add: is_active_def)
  then have "runs_ok (insert_run r k d)" by (simp add: dispatch_ok_def runs_ok_def insert_run_def append_dispatch_event_def)
  moreover have "length (active_of a (d_runs (insert_run r k d))) \<le> 1" for a
    using ok none by (cases "a = r_target r") (auto simp: dispatch_ok_def active_of_def insert_run_def append_dispatch_event_def)
  ultimately show ?thesis by (simp add: dispatch_ok_def)
qed

lemma console_ok:
  assumes ok: "dispatch_ok d" and one: "begins_only_turn c d"
  shows "dispatch_ok (snd (record_terminal_delivery_contract e c d))"
proof -
  let ?rt = "normalize_runtime (ct_runtime c)"
  let ?tracks = "?rt \<in> set RUNTIMES_THAT_TRACK_A_TURN"
  have receipt: "dispatch_ok (receipt_for m a t d') = dispatch_ok d'" for m a t d' by (simp add: receipt_for_def)
  show ?thesis
  proof (cases "if ?tracks then first_by activity_time (filter (terminal_turn (ct_to c) ?rt) (d_runs d)) else None")
    case (Some p) then show ?thesis using ok unfolding record_terminal_delivery_contract_def Let_def by (simp add: receipt)
  next
    case None
    have row: "r_id (contract_row e c (fresh_run_id d) ?tracks) = fresh_run_id d" "is_active (contract_row e c (fresh_run_id d) ?tracks) = ?tracks"
      "r_target (contract_row e c (fresh_run_id d) ?tracks) = ct_to c" by (auto simp: contract_row_def is_active_def)
    have "?tracks \<Longrightarrow> active_of (ct_to c) (d_runs d) = []" using one None by (auto simp: begins_only_turn_def first_by_None)
    then have "dispatch_ok (insert_run (contract_row e c (fresh_run_id d) ?tracks) ''terminal_delivered'' d)"
      using insert_ok [OF ok row(1)] insert_active_ok [OF ok row(1)] row(2,3) by (cases ?tracks) simp_all
    then show ?thesis using None unfolding record_terminal_delivery_contract_def Let_def by (cases ?tracks) (simp_all add: receipt)
  qed
qed

lemma rename_ok:
  assumes ok: "dispatch_ok d" and free: "active_of b (d_runs d) = []"
  shows "dispatch_ok (rewrite_agent_references_for_rename a b d)"
proof -
  let ?f = "\<lambda>r. r\<lparr>r_from := (if r_from r = lit a then lit b else r_from r), r_target := (if r_target r = a then b else r_target r)\<rparr> :: drun"
  have runs: "d_runs (rewrite_agent_references_for_rename a b d) = map ?f (d_runs d)" "d_next (rewrite_agent_references_for_rename a b d) = d_next d"
    by (simp_all add: rewrite_agent_references_for_rename_def)
  have ids: "map r_id (map ?f rs) = map r_id rs" for rs by simp
  have act: "is_active (?f r) = is_active r" for r by (simp add: is_active_def)
  have "length (active_of x (map ?f (d_runs d))) \<le> 1" for x
  proof (cases "x = b")
    case True
    have none: "r_target r \<noteq> b" if "r \<in> set (d_runs d)" "is_active r" for r using free that by (auto simp: active_of_def filter_empty_conv)
    have "length (active_of b (map ?f rs)) = length (active_of a rs)" if "set rs \<subseteq> set (d_runs d)" for rs
      using that none by (induction rs) (auto simp: active_of_def act)
    then show ?thesis using ok True unfolding dispatch_ok_def by simp
  next
    case False
    have "length (active_of x (map ?f rs)) \<le> length (active_of x rs)" for rs using False by (induction rs) (auto simp: active_of_def act)
    then show ?thesis using ok unfolding dispatch_ok_def by (meson order_trans)
  qed
  then show ?thesis using ok unfolding dispatch_ok_def runs_ok_def runs ids by simp
qed

lemma audit_ok: "dispatch_ok d \<Longrightarrow> dispatch_ok (record_session_mode_switch_audit e a m n rt by body d)"
  unfolding record_session_mode_switch_audit_def by (erule insert_ok) (simp_all add: is_active_def)

subsection \<open>One active run\<close>

text \<open>Everything that writes the run table, in any order, each write on rows that may have been read before. The console begins a turn only for an agent that has no active
  run, or joins the turn that is under way; a rename moves the runs to a name for which no run is active.\<close>

inductive run_step :: "dstate \<Rightarrow> dstate \<Rightarrow> bool" where
  service: "service_step d d' \<Longrightarrow> run_step d d'"
| console: "begins_only_turn c d \<Longrightarrow> run_step d (snd (record_terminal_delivery_contract e c d))"
| terminal_ended: "run_step d (snd (close_active_terminal_runs_for_terminal now terminal a status current d))"
| idle_claude: "run_step d (snd (close_idle_claude_terminal_run_without_reply e q v ts row d))"
| idle_pi: "run_step d (snd (close_idle_pi_terminal_run_without_reply e q v ts row d))"
| removed: "run_step d (cancel_nonterminal_runs_for_agents e kind as d)"
| stopped: "run_step d (cancel_queued_on_stop e a d)"
| inbox_read: "run_step d (settle_inbox_read e ms a peek d)"
| deleted: "run_step d (delete_messages_by_ids n ids d)"
| routed: "run_step d (apply_channel_routing_to_claude_runs s via runs d)"
| renamed: "active_of b (d_runs d) = [] \<Longrightarrow> run_step d (rewrite_agent_references_for_rename a b d)"
| audited: "run_step d (record_session_mode_switch_audit e a m m' rt who body d)"
| handoff: "run_step d (snd (mirror_missing_dispatch_handoff mm row d))"
| to_dashboard: "run_step d (snd (mirror_dashboard_run_summary_to_chat mm closed row d))"

interpretation run_writers: invariant_system "\<lambda>d. d_runs d = []" run_step dispatch_ok
proof unfold_locales
  show "d_runs d = [] \<Longrightarrow> dispatch_ok d" for d by (rule services.inv_init)
  show "dispatch_ok d \<Longrightarrow> run_step d d' \<Longrightarrow> dispatch_ok d'" for d d'
  proof (rotate_tac, induction rule: run_step.induct)
    case (service d d') then show ?case using services.inv_step by blast
  qed (auto intro: console_ok rename_ok audit_ok quiet_ok [OF quiet_terminal] quiet_ok [OF quiet_removed] quiet_ok [OF quiet_stopped] quiet_ok [OF quiet_read] quiet_ok [OF quiet_deleted]
      quiet_ok [OF quiet_routed] quiet_ok [OF quiet_mirrors(1)] quiet_ok [OF quiet_mirrors(2)] quiet_ok [OF quiet_idle]
      simp: close_idle_claude_terminal_run_without_reply_def close_idle_pi_terminal_run_without_reply_def)
qed

text \<open>C2. One active run. From an empty run table, however sends, claims, answers, cancellations, withdrawals, requeues, discards, registrations of bridges, reports, the sweeps' writes, messages typed into
  consoles, ended and idle terminals, removals, stops, inbox reads, deletions, channel routing, renames and mode switches follow one another (each on rows read before, out of date or not), run ids stay
  distinct and no agent ever has two runs that are claimed or running. This supposes three things of what is done: no report calls a run claimed or running that is neither, the
  console begins a turn only for an agent that has no active run (it looks for turns of the same terminal runtime only, see \<open>console_turn_beside_claimed_run\<close>), and an agent is renamed to a name for which no run is active.\<close>

theorem one_active_run:
  assumes "d_runs d = []" and "run_step\<^sup>*\<^sup>* d d'"
  shows "distinct (map r_id (d_runs d')) \<and> (\<forall>a. length (filter (\<lambda>r. r_target r = a \<and> is_active r) (d_runs d')) \<le> 1)"
  using run_writers.inv_reachable [OF assms] by (simp add: dispatch_ok_def runs_ok_def active_of_def)

definition demo_ended :: dstate where
  "demo_ended = snd (close_active_terminal_runs_for_terminal (lit ''t'') ''t1'' ''a'' ''stopped'' ''t1'' (snd (record_terminal_delivery_contract demo_env demo_contract no_dispatch)))"

text \<open>A message typed into the console begins a turn, the end of the terminal cancels it, and the next message begins another.\<close>

theorem one_active_run_witness:
  "map r_status (d_runs (snd (record_terminal_delivery_contract demo_env demo_contract no_dispatch))) = [''running''] \<and> map r_status (d_runs demo_ended) = [''cancelled'']
    \<and> map r_status (d_runs (snd (record_terminal_delivery_contract demo_env demo_contract demo_ended))) = [''cancelled'', ''running'']
    \<and> length (filter (\<lambda>r. r_target r = ''a'' \<and> is_active r) (d_runs (snd (record_terminal_delivery_contract demo_env demo_contract demo_ended)))) \<le> 1"
proof -
  let ?d1 = "snd (record_terminal_delivery_contract demo_env demo_contract no_dispatch)"
  have c: "map r_status (d_runs ?d1) = [''running'']" "map r_status (d_runs demo_ended) = [''cancelled'']"
    "map r_status (d_runs (snd (record_terminal_delivery_contract demo_env demo_contract demo_ended))) = [''cancelled'', ''running'']"
    "d_runs no_dispatch = []" "begins_only_turn demo_contract no_dispatch" "begins_only_turn demo_contract demo_ended" by code_simp+
  have "run_step no_dispatch ?d1" "run_step ?d1 demo_ended" "run_step demo_ended (snd (record_terminal_delivery_contract demo_env demo_contract demo_ended))"
    unfolding demo_ended_def by (intro run_step.console c(5) run_step.terminal_ended c(6) [unfolded demo_ended_def])+
  then have "run_step\<^sup>*\<^sup>* no_dispatch (snd (record_terminal_delivery_contract demo_env demo_contract demo_ended))" by (meson rtranclp.rtrancl_into_rtrancl rtranclp.rtrancl_refl)
  from one_active_run [OF c(4) this] c show ?thesis by simp
qed

text \<open>The console does not ask for other runs. While a bridge works on a run it claimed, a message typed into the agent's console begins a turn of its own, and the agent
  has two active runs: the delivery looks only for terminal turns of the console's runtime.\<close>

theorem console_turn_beside_claimed_run:
  "service_step\<^sup>*\<^sup>* no_dispatch demo_claimed
   \<and> length (filter (\<lambda>r. r_target r = ''a'' \<and> is_active r) (d_runs (snd (record_terminal_delivery_contract demo_env demo_contract demo_claimed)))) = 2"
proof -
  have "length (filter (\<lambda>r. r_target r = ''a'' \<and> is_active r) (d_runs (snd (record_terminal_delivery_contract demo_env demo_contract demo_claimed)))) = 2" by code_simp
  then show ?thesis using demo_claimed_served by blast
qed

end
