(* ===== verification/Definitions.thy ===== *)
theory Definitions
  imports Environments "HOL-Library.AList"
begin

text \<open>
  Agents that a host defines: the host's snapshots and the order of its stores (\<open>service/api_core/definition_snapshot.py\<close>, \<open>definition_push.py\<close>), the operator's requests to change,
  create or remove a definition and how the host claims and answers them (\<open>definition_requests.py\<close>, \<open>definition_creation.py\<close>), the removal a host reported
  (\<open>agent_remove.py\<close>, \<open>reconcilers/owed_removals.py\<close>) and the operator's release and reset (\<open>routers/agent_definitions.py\<close>).

  A body's fields have the types the code checks for; what the definition of an agent says is an argument, with the judgement of it and the digests as
  parameters. Of an agent row only what a push and a withdrawal write is kept; of the lifecycle requests the id, the agent and whether it is open. The texts of reasons, the record that follows its
  definition, the stop of a worker before its removal and the cancellation of its runs are left out.
\<close>

declare split_paired_All [simp del] split_paired_Ex [simp del]

subsection \<open>Tables\<close>

record defn =
  dn_machine :: string
  dn_store :: string
  dn_inc :: int
  dn_rev :: int
  dn_digest :: string
  dn_available :: bool
  dn_valid :: bool

record def_store =
  sr_store :: string
  sr_rev :: int
  sr_digest :: string
  sr_outcome :: "(string list \<times> string list \<times> string list) option"

record agent_mark =
  am_state :: string
  am_withdrawn :: "(string \<times> string \<times> int) option"

record def_request =
  dq_id :: string
  dq_agent :: string
  dq_machine :: string
  dq_store :: string
  dq_inc :: int
  dq_rev :: int
  dq_patch :: json
  dq_by :: string
  dq_status :: string
  dq_result :: "(int \<times> int) option"
  dq_created :: string
  dq_expires :: string
  dq_claimed :: string
  dq_finished :: string
  dq_consequence :: string
  dq_failed :: string

record def_db =
  df_defs :: "(string \<times> defn) list"
  df_stores :: "(string \<times> def_store) list"
  df_retired :: "((string \<times> string) \<times> nat) list"
  df_requests :: "def_request list"
  df_agents :: "(string \<times> agent_mark) list"
  df_tombstones :: "string list"
  df_lifecycle :: "(string \<times> string \<times> bool) list"
  df_next :: nat

record def_entry =
  en_id :: string
  en_valid :: bool
  en_inc :: int
  en_rev :: int
  en_digest :: string
  en_available :: bool
  en_reason :: string
  en_problems :: "string list"

record def_push =
  pu_bridge :: string
  pu_machine :: string
  pu_store :: string
  pu_rev :: int
  pu_digest :: string
  pu_entries :: "def_entry list"

text \<open>The environment's claimer and machine, if there is such an environment.\<close>

type_synonym def_host = "(string \<times> string) option"

text \<open>Whether the schema admits an entry's definition under its digest, the digest of a list of entries, and the text of the time ten minutes from now.\<close>

record def_rules =
  dp_admits :: "def_entry \<Rightarrow> bool"
  dp_digest :: "def_entry list \<Rightarrow> string"
  dp_expiry :: "string \<Rightarrow> string"

definition nocase :: "string \<Rightarrow> string" where
  "nocase s = map (\<lambda>c. let n = of_char c :: nat in if 65 \<le> n \<and> n \<le> 90 then char_of (n + 32) else c) s"

definition request_of :: "string \<Rightarrow> def_db \<Rightarrow> def_request option" where
  "request_of i x = find (\<lambda>q. dq_id q = i) (df_requests x)"

definition change_request :: "string \<Rightarrow> (def_request \<Rightarrow> def_request) \<Rightarrow> def_db \<Rightarrow> def_db" where
  "change_request i f x = x\<lparr>df_requests := map (\<lambda>q. if dq_id q = i then f q else q) (df_requests x)\<rparr>"

subsection \<open>Judging a push\<close>

definition is_counter :: "int \<Rightarrow> bool" where
  "is_counter n = (1 \<le> n \<and> n \<le> 2 ^ 53 - 1)"

definition UNAVAILABLE_HARNESS :: string where "UNAVAILABLE_HARNESS = ''harness-not-installed''"

definition entry_ok :: "def_rules \<Rightarrow> def_entry \<Rightarrow> bool" where
  "entry_ok R e = (if en_valid e then is_counter (en_inc e) \<and> is_counter (en_rev e) \<and> (en_available e \<or> en_reason e = UNAVAILABLE_HARNESS) \<and> dp_admits R e
     else en_problems e \<noteq> [])"

definition snapshot_ok :: "def_rules \<Rightarrow> def_entry list \<Rightarrow> string \<Rightarrow> bool" where
  "snapshot_ok R es claimed = (list_all (entry_ok R) es \<and> distinct (map en_id es) \<and> dp_digest R es = claimed)"

datatype fence = No_Environment | No_Claimer | Not_The_Claimer | Other_Machine

definition fence_refusal :: "def_host \<Rightarrow> string \<Rightarrow> string \<Rightarrow> fence option" where
  "fence_refusal environment bridge machine = (case environment of
     None \<Rightarrow> Some No_Environment
   | Some (b, m) \<Rightarrow>
       if py_strip b = [] then Some No_Claimer
       else if py_strip b \<noteq> py_strip bridge then Some Not_The_Claimer
       else if py_strip m \<noteq> py_strip machine then Some Other_Machine else None)"

datatype push_order = APPLY | REPLAY | CONFLICT | STALE | RETIRED | NEW_STORE

definition push_order_of :: "def_store option \<Rightarrow> string set \<Rightarrow> string \<Rightarrow> int \<Rightarrow> string \<Rightarrow> push_order" where
  "push_order_of current retired store rv digest =
     (if store \<in> retired then RETIRED
      else (case current of None \<Rightarrow> APPLY
        | Some c \<Rightarrow> if store \<noteq> sr_store c then NEW_STORE
            else if rv > sr_rev c then APPLY
            else if rv < sr_rev c then STALE
            else if digest = sr_digest c then REPLAY else CONFLICT))"

definition push_body_ok :: "def_push \<Rightarrow> bool" where
  "push_body_ok p = (py_strip (pu_bridge p) \<noteq> [] \<and> py_strip (pu_machine p) \<noteq> [] \<and> py_strip (pu_store p) \<noteq> [] \<and> py_strip (pu_digest p) \<noteq> [] \<and> is_counter (pu_rev p))"

subsection \<open>Requests and removals\<close>

definition CREATION :: "int \<times> int" where "CREATION = (0, 0)"
definition SPAWN_OWED :: string where "SPAWN_OWED = ''spawn pending''"
definition FINISHED :: "string list" where "FINISHED = [''done'', ''refused'', ''expired'']"
definition OPEN_STATUSES :: "string list" where "OPEN_STATUSES = [''pending'', ''claimed'']"
definition OPERATOR_ACTORS :: "string list" where "OPERATOR_ACTORS = [''dashboard'', ''operator'']"

definition is_creation :: "def_request \<Rightarrow> bool" where
  "is_creation q = ((dq_inc q, dq_rev q) = CREATION)"

definition is_removal :: "json \<Rightarrow> bool" where
  "is_removal p = (p = JObj [(''remove'', JBool True)])"

definition open_request :: "def_request \<Rightarrow> bool" where
  "open_request q = (dq_status q \<in> set OPEN_STATUSES)"

definition is_operator_actor :: "string \<Rightarrow> bool" where
  "is_operator_actor a = (norm_word a \<in> set OPERATOR_ACTORS)"

text \<open>The newest lifetime of an id that a done removal took from a store, or 0.\<close>

definition took :: "string \<Rightarrow> string \<Rightarrow> def_request \<Rightarrow> bool" where
  "took a store q = (nocase (dq_agent q) = nocase a \<and> dq_store q = store \<and> dq_status q = ''done''
     \<and> (dq_consequence q = ''pending'' \<or> dq_consequence q = ''removed'') \<and> jget (dq_patch q) ''remove'' = JBool True)"

definition removed_incarnation :: "string \<Rightarrow> string \<Rightarrow> def_db \<Rightarrow> int" where
  "removed_incarnation a store x = (case map dq_inc (filter (took a store) (df_requests x)) of [] \<Rightarrow> 0 | n # ns \<Rightarrow> fold max ns n)"

subsection \<open>Applying a push\<close>

datatype id_refusal = Defined_On string | Reserved_Name | Removed_Lifetime int

definition id_refusal_of :: "string \<Rightarrow> int \<Rightarrow> string option \<Rightarrow> string \<Rightarrow> string \<Rightarrow> def_db \<Rightarrow> id_refusal option" where
  "id_refusal_of a inc owner machine store x =
     (let taken = removed_incarnation a store x; own = (case owner of None \<Rightarrow> [] | Some m \<Rightarrow> m) in
      if own \<noteq> [] \<and> own \<noteq> machine then Some (Defined_On own)
      else if is_operator_actor a then Some Reserved_Name
      else if taken \<noteq> 0 \<and> inc \<le> taken then Some (Removed_Lifetime taken) else None)"

text \<open>The lifetime an entry names; \<open>en_inc\<close> is 0 in an invalid entry that names none.\<close>

definition entry_inc :: "def_entry \<Rightarrow> int" where
  "entry_inc e = en_inc e"

definition ensure_agent_row :: "string \<Rightarrow> def_db \<Rightarrow> def_db" where
  "ensure_agent_row a x = x\<lparr>df_agents := (case map_of (df_agents x) a of
       None \<Rightarrow> df_agents x @ [(a, \<lparr>am_state = ''defined'', am_withdrawn = None\<rparr>)]
     | Some m \<Rightarrow> AList.update a (m\<lparr>am_state := ''defined''\<rparr>) (df_agents x))\<rparr>"

record push_result =
  pr_applied :: "string list"
  pr_kept :: "string list"
  pr_withdrawn :: "string list"
  pr_refused :: "(string \<times> id_refusal) list"
  pr_invalid :: "string list"

definition define_agent :: "string \<Rightarrow> string \<Rightarrow> def_entry \<Rightarrow> def_db \<Rightarrow> def_db" where
  "define_agent machine store e x =
     (let x1 = x\<lparr>df_defs := AList.update (en_id e) \<lparr>dn_machine = machine, dn_store = store, dn_inc = en_inc e, dn_rev = en_rev e, dn_digest = en_digest e,
                   dn_available = en_available e, dn_valid = True\<rparr> (df_defs x)\<rparr>;
          x2 = ensure_agent_row (en_id e) x1 in
      x2\<lparr>df_tombstones := filter (\<lambda>a. nocase a \<noteq> nocase (en_id e)) (df_tombstones x2)\<rparr>)"

definition apply_entry :: "(string \<times> defn) list \<Rightarrow> string \<Rightarrow> string \<Rightarrow> def_entry \<Rightarrow> push_result \<times> def_db \<Rightarrow> push_result \<times> def_db" where
  "apply_entry owners machine store e s = (case s of (p, x) \<Rightarrow>
     (let owner = map_option dn_machine (map_of owners (en_id e)) in
      case id_refusal_of (en_id e) (entry_inc e) owner machine store x of
        Some r \<Rightarrow> (p\<lparr>pr_refused := pr_refused p @ [(en_id e, r)]\<rparr>, x)
      | None \<Rightarrow>
          if \<not> en_valid e
          then (if owner = Some machine
                then (p\<lparr>pr_kept := pr_kept p @ [en_id e]\<rparr>, x\<lparr>df_defs := map (\<lambda>(a, d). if a = en_id e then (a, d\<lparr>dn_valid := False\<rparr>) else (a, d)) (df_defs x)\<rparr>)
                else (p\<lparr>pr_invalid := pr_invalid p @ [en_id e]\<rparr>, x))
          else (p\<lparr>pr_applied := pr_applied p @ [en_id e]\<rparr>, define_agent machine store e x)))"

definition withdraw :: "string \<Rightarrow> string \<times> defn \<Rightarrow> push_result \<times> def_db \<Rightarrow> push_result \<times> def_db" where
  "withdraw machine own s = (case (own, s) of ((a, d), (p, x)) \<Rightarrow>
     (p\<lparr>pr_withdrawn := pr_withdrawn p @ [a]\<rparr>,
      x\<lparr>df_defs := AList.delete a (df_defs x),
        df_agents := map (\<lambda>(b, m). if b = a then (b, m\<lparr>am_state := ''withdrawn'', am_withdrawn := Some (machine, dn_store d, dn_inc d)\<rparr>) else (b, m)) (df_agents x)\<rparr>))"

definition apply_entries :: "string \<Rightarrow> string \<Rightarrow> def_entry list \<Rightarrow> def_db \<Rightarrow> push_result \<times> def_db" where
  "apply_entries machine store es x =
     (let own = df_defs x; r0 = \<lparr>pr_applied = [], pr_kept = [], pr_withdrawn = [], pr_refused = [], pr_invalid = []\<rparr>;
          s1 = fold (apply_entry own machine store) es (r0, x) in
      fold (withdraw machine) (filter (\<lambda>(a, d). dn_machine d = machine \<and> a \<notin> set (map en_id es)) own) s1)"

datatype push_refusal = Bad_Push | Fenced fence | Bad_Snapshot | Retired_Store | Stale_Revision | Digest_Conflict

datatype push_answer = Applied push_result | Replayed "(string \<times> id_refusal option) list" "string list" "string list" bool

definition replayed :: "string \<Rightarrow> string \<Rightarrow> def_store \<Rightarrow> def_entry list \<Rightarrow> def_db \<Rightarrow> push_answer" where
  "replayed machine store c es x = (case sr_outcome c of
     None \<Rightarrow> Replayed [] [] [] False
   | Some (refused, invalid, keeps) \<Rightarrow> Replayed (map (\<lambda>a.
       (a, id_refusal_of a (case find (\<lambda>e. en_id e = a) es of Some e \<Rightarrow> entry_inc e | None \<Rightarrow> 0) (map_option dn_machine (map_of (df_defs x) a)) machine store x)) refused) invalid keeps True)"

definition retire :: "string \<Rightarrow> string \<Rightarrow> def_db \<Rightarrow> def_db" where
  "retire machine store x = (if map_of (df_retired x) (machine, store) = None then x\<lparr>df_retired := df_retired x @ [((machine, store), 0)]\<rparr> else x)"

definition retired_stores :: "string \<Rightarrow> def_db \<Rightarrow> string set" where
  "retired_stores machine x = set (map snd (filter (\<lambda>(m, _). m = machine) (map fst (df_retired x))))"

definition store_snapshot :: "string \<Rightarrow> string \<Rightarrow> def_push \<Rightarrow> def_db \<Rightarrow> push_answer \<times> def_db" where
  "store_snapshot machine store p x =
     (let x1 = x\<lparr>df_stores := AList.update machine \<lparr>sr_store = store, sr_rev = pu_rev p, sr_digest = pu_digest p,
                   sr_outcome = (case map_of (df_stores x) machine of Some c \<Rightarrow> sr_outcome c | None \<Rightarrow> None)\<rparr> (df_stores x)\<rparr> in
      case apply_entries machine store (pu_entries p) x1 of (r, x2) \<Rightarrow>
        (Applied r, x2\<lparr>df_stores := map (\<lambda>(m, c). if m = machine then (m, c\<lparr>sr_outcome := Some (map fst (pr_refused r), pr_invalid r, pr_kept r)\<rparr>) else (m, c)) (df_stores x2)\<rparr>))"

definition apply_definition_push :: "def_rules \<Rightarrow> def_host \<Rightarrow> def_push \<Rightarrow> def_db \<Rightarrow> (push_refusal + push_answer) \<times> def_db" where
  "apply_definition_push R environment p x =
     (let machine = py_strip (pu_machine p); store = py_strip (pu_store p); current = map_of (df_stores x) machine in
      if \<not> push_body_ok p then (Inl Bad_Push, x)
      else (case fence_refusal environment (pu_bridge p) machine of
          Some f \<Rightarrow> (Inl (Fenced f), x)
        | None \<Rightarrow>
            if \<not> snapshot_ok R (pu_entries p) (pu_digest p) then (Inl Bad_Snapshot, x)
            else (case push_order_of current (retired_stores machine x) store (pu_rev p) (pu_digest p) of
                RETIRED \<Rightarrow> (Inl Retired_Store, x\<lparr>df_retired := map (\<lambda>(k, n). if k = (machine, store) then (k, Suc n) else (k, n)) (df_retired x)\<rparr>)
              | STALE \<Rightarrow> (Inl Stale_Revision, x)
              | CONFLICT \<Rightarrow> (Inl Digest_Conflict, x)
              | REPLAY \<Rightarrow> (case current of Some c \<Rightarrow> (Inr (replayed machine store c (pu_entries p) x), x) | None \<Rightarrow> (Inl Bad_Push, x))
              | NEW_STORE \<Rightarrow> (case store_snapshot machine store p (case current of Some c \<Rightarrow> retire machine (sr_store c) x | None \<Rightarrow> x) of (a, y) \<Rightarrow> (Inr a, y))
              | APPLY \<Rightarrow> (case store_snapshot machine store p x of (a, y) \<Rightarrow> (Inr a, y)))))"

subsection \<open>The operator's requests\<close>

definition AGENT_FIELDS :: "string list" where
  "AGENT_FIELDS = [''id'', ''name'', ''role'', ''harness'', ''mode'', ''workspace'', ''model'', ''effort'', ''instructions'', ''env'', ''herdrSpace'', ''secrets'']"

definition EDITABLE_FIELDS :: "string list" where
  "EDITABLE_FIELDS = filter (\<lambda>f. f \<notin> {''id'', ''secrets''}) AGENT_FIELDS"

definition patch_ok :: "json \<Rightarrow> bool" where
  "patch_ok p = (is_removal p \<or> (case p of JObj fs \<Rightarrow> fs \<noteq> [] \<and> list_all (\<lambda>(k, _). k \<in> set EDITABLE_FIELDS) fs | _ \<Rightarrow> False))"

definition expire_unclaimed :: "string \<Rightarrow> def_db \<Rightarrow> def_db" where
  "expire_unclaimed now x = x\<lparr>df_requests := map (\<lambda>q. if dq_status q = ''pending'' \<and> \<not> later (dq_expires q) now
     then q\<lparr>dq_status := ''expired'', dq_finished := now\<rparr> else q) (df_requests x)\<rparr>"

text \<open>Why a host may no longer apply a request.\<close>

definition undeliverable :: "def_request \<Rightarrow> defn option \<Rightarrow> string \<Rightarrow> bool" where
  "undeliverable q own current =
     (let elsewhere = (\<lambda>d. (dn_machine d, dn_store d) \<noteq> (dq_machine q, dq_store q)) in
      if dq_store q \<noteq> current then True
      else if is_creation q then (case own of Some d \<Rightarrow> elsewhere d | None \<Rightarrow> False)
      else (case own of None \<Rightarrow> True | Some d \<Rightarrow> elsewhere d))"

definition settled_undeliverable :: "string \<Rightarrow> def_request \<Rightarrow> def_request" where
  "settled_undeliverable now q = (if dq_status q = ''claimed'' then q\<lparr>dq_status := ''superseded'', dq_finished := []\<rparr> else q\<lparr>dq_status := ''refused'', dq_finished := now\<rparr>)"

definition current_store :: "string \<Rightarrow> def_db \<Rightarrow> string" where
  "current_store machine x = (case map_of (df_stores x) machine of Some c \<Rightarrow> sr_store c | None \<Rightarrow> [])"

definition refuse_undeliverable :: "string \<Rightarrow> defn \<Rightarrow> string \<Rightarrow> def_db \<Rightarrow> def_db" where
  "refuse_undeliverable a own now x = fold (\<lambda>q x. if undeliverable q (Some own) (current_store (dq_machine q) x) then change_request (dq_id q) (settled_undeliverable now) x else x)
     (filter (\<lambda>q. dq_agent q = a \<and> open_request q) (df_requests x)) x"

datatype admit_refusal = Not_The_Operator | Not_Defined | Bad_Patch | Change_Waiting | No_Store

definition new_request :: "def_rules \<Rightarrow> string \<Rightarrow> string \<Rightarrow> string \<Rightarrow> int \<times> int \<Rightarrow> json \<Rightarrow> string \<Rightarrow> string \<Rightarrow> def_db \<Rightarrow> def_request \<times> def_db" where
  "new_request R a machine store expected patch actor now x =
     (let q = \<lparr>dq_id = ''defreq_'' @ nat_str (df_next x), dq_agent = a, dq_machine = machine, dq_store = store, dq_inc = fst expected, dq_rev = snd expected, dq_patch = patch, dq_by = actor,
               dq_status = ''pending'', dq_result = None, dq_created = now, dq_expires = dp_expiry R now, dq_claimed = [], dq_finished = [], dq_consequence = [], dq_failed = []\<rparr> in
      (q, x\<lparr>df_requests := df_requests x @ [q], df_next := Suc (df_next x)\<rparr>))"

definition waiting :: "string \<Rightarrow> def_db \<Rightarrow> bool" where
  "waiting a x = list_ex (\<lambda>q. dq_agent q = a \<and> open_request q) (df_requests x)"

definition admit :: "def_rules \<Rightarrow> string \<Rightarrow> json \<Rightarrow> string option \<Rightarrow> string \<Rightarrow> def_db \<Rightarrow> admit_refusal + def_request \<times> def_db" where
  "admit R a patch operator now x = (case operator of
     None \<Rightarrow> Inl Not_The_Operator
   | Some actor \<Rightarrow>
       (let x1 = expire_unclaimed now x in
        case map_of (df_defs x1) a of
          None \<Rightarrow> Inl Not_Defined
        | Some own \<Rightarrow>
            if \<not> patch_ok patch then Inl Bad_Patch
            else (let x2 = refuse_undeliverable a own now x1 in
                  if waiting a x2 then Inl Change_Waiting
                  else Inr (new_request R a (dn_machine own) (dn_store own) (dn_inc own, dn_rev own) patch actor now x2))))"

definition admit_creation :: "def_rules \<Rightarrow> string \<Rightarrow> string \<Rightarrow> json \<Rightarrow> string \<Rightarrow> string \<Rightarrow> def_db \<Rightarrow> admit_refusal + def_request \<times> def_db" where
  "admit_creation R a machine agent actor now x = (case map_of (df_stores x) machine of
     None \<Rightarrow> Inl No_Store
   | Some c \<Rightarrow> if waiting a x then Inl Change_Waiting else Inr (new_request R a machine (sr_store c) CREATION agent actor now x))"

subsection \<open>The host's claim and report\<close>

definition hand_out :: "string \<Rightarrow> string \<Rightarrow> def_request \<Rightarrow> string list \<times> def_db \<Rightarrow> string list \<times> def_db" where
  "hand_out store now q s = (case s of (ids, x) \<Rightarrow>
     if undeliverable q (map_of (df_defs x) (dq_agent q)) store then (ids, change_request (dq_id q) (settled_undeliverable now) x)
     else (ids @ [dq_id q], change_request (dq_id q) (\<lambda>q. q\<lparr>dq_status := ''claimed'', dq_claimed := (if dq_claimed q = [] then now else dq_claimed q)\<rparr>) x))"

definition claim_requests :: "def_host \<Rightarrow> string \<Rightarrow> string \<Rightarrow> string \<Rightarrow> def_db \<Rightarrow> fence + string list \<times> def_db" where
  "claim_requests environment bridge machine now x = (case fence_refusal environment bridge machine of
     Some f \<Rightarrow> Inl f
   | None \<Rightarrow>
       (let x1 = expire_unclaimed now x;
            rows = sort_key (lit \<circ> dq_created) (sort_key (lit \<circ> dq_id) (filter (\<lambda>q. dq_machine q = machine \<and> open_request q) (df_requests x1))) in
        Inr (fold (hand_out (current_store machine x1) now) rows ([], x1))))"

record def_report =
  dr_bridge :: string
  dr_machine :: string
  dr_status :: string
  dr_result :: "(int \<times> int) option"

datatype report_error = Report_Fenced fence | Bad_Report | No_Such_Request | Not_This_Machine | Already_Finished | Never_Claimed

definition report_ok :: "def_report \<Rightarrow> bool" where
  "report_ok b = (dr_status b \<in> {''done'', ''refused''} \<and> (dr_status b = ''done'' \<longrightarrow> (case dr_result b of None \<Rightarrow> False | Some (i, r) \<Rightarrow> is_counter i \<and> is_counter r)))"

definition owed_after :: "def_report \<Rightarrow> def_request \<Rightarrow> string" where
  "owed_after b q = (if dr_status b \<noteq> ''done'' then [] else if is_removal (dq_patch q) then ''pending'' else if is_creation q then SPAWN_OWED else [])"

definition report_request :: "def_host \<Rightarrow> string \<Rightarrow> def_report \<Rightarrow> string \<Rightarrow> def_db \<Rightarrow> report_error + def_db" where
  "report_request environment i b now x = (case fence_refusal environment (dr_bridge b) (dr_machine b) of
     Some f \<Rightarrow> Inl (Report_Fenced f)
   | None \<Rightarrow>
       if \<not> report_ok b then Inl Bad_Report
       else (let x1 = expire_unclaimed now x; result = (if dr_status b = ''done'' then dr_result b else None) in
             case request_of i x1 of
               None \<Rightarrow> Inl No_Such_Request
             | Some q \<Rightarrow>
                 if dq_machine q \<noteq> py_strip (dr_machine b) then Inl Not_This_Machine
                 else if dq_status q \<in> set FINISHED then (if (dq_status q, dq_result q) = (dr_status b, result) then Inr x1 else Inl Already_Finished)
                 else if dq_status q \<notin> {''claimed'', ''superseded''} then Inl Never_Claimed
                 else Inr (change_request i (\<lambda>q. q\<lparr>dq_status := dr_status b, dq_result := result, dq_finished := now, dq_consequence := owed_after b q\<rparr>) x1)))"

subsection \<open>What a done request leaves to do here\<close>

definition spawn_of :: "def_request \<Rightarrow> string" where
  "spawn_of q = ''spawn-'' @ dq_id q"

definition queue_lifecycle :: "string \<Rightarrow> string \<Rightarrow> def_db \<Rightarrow> def_db option" where
  "queue_lifecycle i a x = (if list_ex (\<lambda>(_, b, op). b = a \<and> op) (df_lifecycle x) then None else Some (x\<lparr>df_lifecycle := df_lifecycle x @ [(i, a, True)]\<rparr>))"

definition spawn_one :: "def_request \<Rightarrow> def_db \<Rightarrow> def_db" where
  "spawn_one q x = (case map_of (df_defs x) (dq_agent q) of
     None \<Rightarrow> x
   | Some d \<Rightarrow>
       (let settle = (\<lambda>c. change_request (dq_id q) (\<lambda>q. q\<lparr>dq_consequence := c\<rparr>)) in
        if (dn_machine d, dn_store d, Some (dn_inc d)) \<noteq> (dq_machine q, dq_store q, map_option fst (dq_result q)) then settle ''nothing spawned: defined at another lifetime'' x
        else (case queue_lifecycle (spawn_of q) (dq_agent q) x of
            None \<Rightarrow> settle ''nothing spawned: a lifecycle request is open'' x
          | Some y \<Rightarrow> settle (''spawn queued '' @ spawn_of q) y)))"

definition spawn_created :: "string \<Rightarrow> def_db \<Rightarrow> def_db" where
  "spawn_created machine x = fold spawn_one (filter (\<lambda>q. dq_machine q = machine \<and> dq_status q = ''done'' \<and> dq_consequence q = SPAWN_OWED) (df_requests x)) x"

definition settle_removal :: "string \<Rightarrow> string \<Rightarrow> def_db \<Rightarrow> def_db" where
  "settle_removal i why x = change_request i (\<lambda>q. if dq_consequence q = ''pending'' then q\<lparr>dq_consequence := (if why = [] then ''removed'' else ''nothing removed: '' @ why)\<rparr> else q) x"

definition settled_refusal :: "string \<Rightarrow> def_db \<Rightarrow> string" where
  "settled_refusal i x = (case request_of i x of Some q \<Rightarrow> if dq_consequence q = ''pending'' then [] else ''another report has already settled it'' | None \<Rightarrow> ''another report has already settled it'')"

definition tombstoned :: "string \<Rightarrow> def_db \<Rightarrow> bool" where
  "tombstoned a x = list_ex (\<lambda>b. nocase b = nocase a) (df_tombstones x)"

definition removal_refusal :: "def_request \<Rightarrow> def_db \<Rightarrow> string" where
  "removal_refusal q x =
     (let expected = (dq_machine q, dq_store q, dq_inc q) in
      case map_of (df_defs x) (dq_agent q) of
        Some d \<Rightarrow> if (dn_machine d, dn_store d, dn_inc d) = expected then [] else ''defined otherwise''
      | None \<Rightarrow>
          (case map_of (df_agents x) (dq_agent q) of
             Some m \<Rightarrow> if am_withdrawn m = Some expected then [] else ''ended another way''
           | None \<Rightarrow> if tombstoned (dq_agent q) x then [] else ''ended another way''))"

definition removal_fence :: "def_request \<Rightarrow> def_db \<Rightarrow> string" where
  "removal_fence q x = or_else (settled_refusal (dq_id q) x) (removal_refusal q x)"

text \<open>The transaction that deletes: the fence is asked in it.\<close>

definition remove_agent_row :: "string \<Rightarrow> def_db \<Rightarrow> def_db" where
  "remove_agent_row a x = (if map_of (df_agents x) a = None then x
     else x\<lparr>df_agents := AList.delete a (df_agents x), df_tombstones := a # filter (\<lambda>b. b \<noteq> a) (df_tombstones x)\<rparr>)"

definition remove_agent :: "def_request \<Rightarrow> def_db \<Rightarrow> string \<times> def_db" where
  "remove_agent q x = (let why = removal_fence q x in if why \<noteq> [] then (why, x) else ([], remove_agent_row (dq_agent q) x))"

text \<open>A managed agent's worker is stopped first, in a transaction of its own, and the fence is asked again after it: \<open>meanwhile\<close> is what others did in between. \<open>afterwards\<close> is what they did before the settlement.\<close>

definition finish_removal :: "bool \<Rightarrow> (def_db \<Rightarrow> def_db) \<Rightarrow> (def_db \<Rightarrow> def_db) \<Rightarrow> def_request \<Rightarrow> def_db \<Rightarrow> def_db" where
  "finish_removal managed meanwhile afterwards q x =
     (let why0 = removal_fence q x;
          r = (if why0 \<noteq> [] then (why0, x) else if managed then remove_agent q (meanwhile x) else remove_agent q x) in
      settle_removal (dq_id q) (fst r) (afterwards (snd r)))"

text \<open>The sweep: the owed removals, those that failed before last. A removal that fails is stamped; which fail is an argument.\<close>

definition owed_removals :: "nat \<Rightarrow> def_db \<Rightarrow> def_request list" where
  "owed_removals n x = take n (sort_key (\<lambda>q. (lit (dq_failed q), lit (dq_finished q), lit (dq_id q))) (filter (\<lambda>q. dq_status q = ''done'' \<and> dq_consequence q = ''pending'') (df_requests x)))"

definition finish_owed :: "(string \<Rightarrow> bool) \<Rightarrow> string \<Rightarrow> def_request \<Rightarrow> def_db \<Rightarrow> def_db" where
  "finish_owed fails now row x = (case request_of (dq_id row) x of
     None \<Rightarrow> x
   | Some q \<Rightarrow> if dq_consequence q \<noteq> ''pending'' then x
       else if fails (dq_id q) then change_request (dq_id q) (\<lambda>q. q\<lparr>dq_failed := now\<rparr>) x
       else finish_removal False id id q x)"

definition finish_owed_removals :: "(string \<Rightarrow> bool) \<Rightarrow> string \<Rightarrow> nat \<Rightarrow> def_db \<Rightarrow> def_db" where
  "finish_owed_removals fails now n x = fold (finish_owed fails now) (owed_removals n x) x"

subsection \<open>The operator's release and reset\<close>

datatype release_refusal = No_Definition | No_Machine_Named | Defined_Elsewhere

definition release_agent_definition :: "string \<Rightarrow> string \<Rightarrow> def_db \<Rightarrow> release_refusal + def_db" where
  "release_agent_definition a machine x = (case map_of (df_defs x) a of
     None \<Rightarrow> Inl No_Definition
   | Some d \<Rightarrow>
       if py_strip machine = [] then Inl No_Machine_Named
       else if dn_machine d \<noteq> py_strip machine then Inl Defined_Elsewhere
       else Inr (x\<lparr>df_defs := AList.delete a (df_defs x),
                  df_agents := map (\<lambda>(b, m). if b = a then (b, m\<lparr>am_state := ''withdrawn''\<rparr>) else (b, m)) (df_agents x)\<rparr>))"

definition reset_definition_store :: "string \<Rightarrow> def_db \<Rightarrow> def_db" where
  "reset_definition_store machine x = x\<lparr>df_retired := filter (\<lambda>((m, _), _). m \<noteq> machine) (df_retired x)\<rparr>"

subsection \<open>How a request moves\<close>

definition moves :: "def_request \<Rightarrow> def_request \<Rightarrow> bool" where
  "moves q q' = (dq_id q' = dq_id q \<and> dq_agent q' = dq_agent q \<and> dq_store q' = dq_store q \<and> dq_inc q' = dq_inc q \<and> dq_patch q' = dq_patch q
     \<and> (open_request q' \<longrightarrow> open_request q)
     \<and> (dq_status q \<in> set FINISHED \<longrightarrow> dq_status q' = dq_status q \<and> dq_result q' = dq_result q)
     \<and> (dq_status q \<in> set FINISHED \<and> dq_consequence q \<notin> {''pending'', SPAWN_OWED} \<longrightarrow> dq_consequence q' = dq_consequence q)
     \<and> (dq_status q \<in> set FINISHED \<and> dq_consequence q \<noteq> SPAWN_OWED \<longrightarrow> dq_consequence q' \<noteq> SPAWN_OWED))"

lemma same_moves [simp]: "moves q q"
  by (simp add: moves_def)

lemma moves_trans:
  assumes "moves q q'" and "moves q' q''"
  shows "moves q q''"
proof -
  note a = assms [unfolded moves_def]
  have f: "dq_status q \<in> set FINISHED \<Longrightarrow> dq_status q' \<in> set FINISHED" using a by simp
  show ?thesis unfolding moves_def
  proof (intro conjI impI)
    assume "dq_status q \<in> set FINISHED \<and> dq_consequence q \<notin> {''pending'', SPAWN_OWED}"
    then show "dq_consequence q'' = dq_consequence q" using a f by (metis (no_types, lifting))
  next
    assume "dq_status q \<in> set FINISHED \<and> dq_consequence q \<noteq> SPAWN_OWED"
    then show "dq_consequence q'' \<noteq> SPAWN_OWED" using a f by (metis (no_types, lifting))
  qed (use a f in simp_all)
qed

definition keeps_requests :: "def_db \<Rightarrow> def_db \<Rightarrow> bool" where
  "keeps_requests x y = (df_next y = df_next x \<and> (\<exists>f. df_requests y = map f (df_requests x) \<and> (\<forall>q \<in> set (df_requests x). moves q (f q))))"

lemma keeps_same: "df_requests y = df_requests x \<Longrightarrow> df_next y = df_next x \<Longrightarrow> keeps_requests x y"
  unfolding keeps_requests_def by (intro conjI exI [of _ id]) simp_all

lemma keeps_refl [simp]: "keeps_requests x x"
  by (simp add: keeps_same)

lemma keeps_trans:
  assumes "keeps_requests x y" and "keeps_requests y z"
  shows "keeps_requests x z"
proof -
  obtain f where f: "df_requests y = map f (df_requests x)" "\<forall>q \<in> set (df_requests x). moves q (f q)" using assms(1) unfolding keeps_requests_def by blast
  obtain g where g: "df_requests z = map g (df_requests y)" "\<forall>q \<in> set (df_requests y). moves q (g q)" using assms(2) unfolding keeps_requests_def by blast
  have "moves q ((g \<circ> f) q)" if "q \<in> set (df_requests x)" for q using that f g by (auto intro: moves_trans)
  then show ?thesis unfolding keeps_requests_def using f(1) g(1) assms by (intro conjI exI [of _ "g \<circ> f"]) (simp_all add: keeps_requests_def)
qed

lemma keeps_map: "(\<And>q. q \<in> set (df_requests x) \<Longrightarrow> moves q (f q)) \<Longrightarrow> keeps_requests x (x\<lparr>df_requests := map f (df_requests x)\<rparr>)"
  unfolding keeps_requests_def by (intro conjI exI [of _ f]) simp_all

definition ids_ok :: "def_db \<Rightarrow> bool" where
  "ids_ok x = (distinct (map dq_id (df_requests x)) \<and> (\<forall>i \<in> set (map dq_id (df_requests x)). \<exists>k < df_next x. i = ''defreq_'' @ nat_str k))"

lemma keeps_ids: "keeps_requests x y \<Longrightarrow> map dq_id (df_requests y) = map dq_id (df_requests x)"
  unfolding keeps_requests_def by (auto simp: moves_def)

lemma keeps_ids_ok:
  assumes "keeps_requests x y" and "ids_ok x"
  shows "ids_ok y"
proof -
  have "df_next y = df_next x" using assms(1) by (simp add: keeps_requests_def)
  then show ?thesis using assms(2) unfolding ids_ok_def keeps_ids [OF assms(1)] by simp
qed

text \<open>A change of one request, judged by the row as it stands.\<close>

lemma keeps_change:
  assumes "q \<in> set (df_requests x)" and "distinct (map dq_id (df_requests x))" and "moves q (f q)"
  shows "keeps_requests x (change_request (dq_id q) f x)"
proof -
  have "r = q" if "r \<in> set (df_requests x)" "dq_id r = dq_id q" for r
    using that assms(1,2) unfolding distinct_map by (metis inj_onD)
  then have "moves r (if dq_id r = dq_id q then f r else r)" if "r \<in> set (df_requests x)" for r using that assms(3) by auto
  then show ?thesis unfolding change_request_def by (rule keeps_map)
qed

lemma keeps_fold:
  assumes "distinct (map dq_id (df_requests (g s)))" and "distinct (map dq_id rows)" and "set rows \<subseteq> set (df_requests (g s))"
    and step: "\<And>q s. q \<in> set rows \<Longrightarrow> q \<in> set (df_requests (g s)) \<Longrightarrow> distinct (map dq_id (df_requests (g s))) \<Longrightarrow>
      keeps_requests (g s) (g (h q s)) \<and> (\<forall>r \<in> set (df_requests (g s)). dq_id r \<noteq> dq_id q \<longrightarrow> r \<in> set (df_requests (g (h q s))))"
  shows "keeps_requests (g s) (g (fold h rows s))"
  using assms
proof (induction rows arbitrary: s)
  case (Cons q rows)
  have q: "q \<in> set (df_requests (g s))" using Cons.prems(3) by simp
  note st = Cons.prems(4) [OF _ q Cons.prems(1), simplified]
  have d: "distinct (map dq_id (df_requests (g (h q s))))" using st keeps_ids Cons.prems(1) by metis
  have sub: "set rows \<subseteq> set (df_requests (g (h q s)))"
  proof
    fix r assume r: "r \<in> set rows"
    then have "dq_id r \<noteq> dq_id q" using Cons.prems(2) by (metis distinct.simps(2) image_eqI list.map(2) set_map)
    then show "r \<in> set (df_requests (g (h q s)))" using r Cons.prems(3) st by auto
  qed
  have "keeps_requests (g (h q s)) (g (fold h rows (h q s)))"
    using Cons.prems(2,4) by (intro Cons.IH [OF d _ sub]) auto
  then show ?case using st keeps_trans by auto
qed simp

lemma change_leaves: "r \<in> set (df_requests x) \<Longrightarrow> dq_id r \<noteq> i \<Longrightarrow> r \<in> set (df_requests (change_request i f x))"
  unfolding change_request_def by force

lemmas request_words = FINISHED_def OPEN_STATUSES_def SPAWN_OWED_def open_request_def

lemma keeps_change_all: "(\<And>q. q \<in> set (df_requests x) \<Longrightarrow> dq_id q = i \<Longrightarrow> moves q (f q)) \<Longrightarrow> keeps_requests x (change_request i f x)"
  unfolding change_request_def by (rule keeps_map) simp

lemma keeps_expire: "keeps_requests x (expire_unclaimed now x)"
  unfolding expire_unclaimed_def by (rule keeps_map) (simp add: moves_def request_words)

lemma moves_settled: "open_request q \<Longrightarrow> moves q (settled_undeliverable now q)"
  by (auto simp: moves_def settled_undeliverable_def request_words)

lemma moves_claimed: "open_request q \<Longrightarrow> moves q (q\<lparr>dq_status := ''claimed'', dq_claimed := c\<rparr>)"
  by (auto simp: moves_def request_words)

lemma distinct_rows: "ids_ok x \<Longrightarrow> distinct (map dq_id (filter P (df_requests x)))"
  by (simp add: ids_ok_def distinct_map_filter)

lemma keeps_undeliverable:
  assumes "ids_ok x"
  shows "keeps_requests x (refuse_undeliverable a own now x)"
  unfolding refuse_undeliverable_def
proof (rule keeps_fold [where g = "\<lambda>y. y"])
  fix q and y :: def_db assume q: "q \<in> set (filter (\<lambda>q. dq_agent q = a \<and> open_request q) (df_requests x))" "q \<in> set (df_requests y)" "distinct (map dq_id (df_requests y))"
  have "keeps_requests y (change_request (dq_id q) (settled_undeliverable now) y)" using q by (intro keeps_change moves_settled) auto
  then show "keeps_requests y (if undeliverable q (Some own) (current_store (dq_machine q) y) then change_request (dq_id q) (settled_undeliverable now) y else y)
      \<and> (\<forall>r \<in> set (df_requests y). dq_id r \<noteq> dq_id q \<longrightarrow> r \<in> set (df_requests (if undeliverable q (Some own) (current_store (dq_machine q) y) then change_request (dq_id q) (settled_undeliverable now) y else y)))"
    by (simp add: change_leaves)
qed (use assms in \<open>auto simp: ids_ok_def distinct_map_filter\<close>)

lemma keeps_claim:
  assumes "ids_ok x" and "claim_requests environment bridge machine now x = Inr (ids, y)"
  shows "keeps_requests x y"
proof -
  define x1 where "x1 = expire_unclaimed now x"
  let ?P = "\<lambda>q. dq_machine q = machine \<and> open_request q"
  define rows where "rows = sort_key (lit \<circ> dq_created) (sort_key (lit \<circ> dq_id) (filter ?P (df_requests x1)))"
  have k: "keeps_requests x x1" unfolding x1_def by (rule keeps_expire)
  have i: "ids_ok x1" by (rule keeps_ids_ok [OF k assms(1)])
  have "distinct (df_requests x1)" "inj_on dq_id (set (df_requests x1))" using i by (simp_all add: ids_ok_def distinct_map)
  then have d: "distinct (map dq_id rows)" by (auto simp: rows_def distinct_map intro: inj_on_subset)
  have y: "y = snd (fold (hand_out (current_store machine x1) now) rows ([], x1))"
    using assms(2) unfolding claim_requests_def Let_def x1_def [symmetric] rows_def [symmetric] by (simp split: option.splits)
  have "keeps_requests (snd ([] :: string list, x1)) (snd (fold (hand_out (current_store machine x1) now) rows ([], x1)))"
  proof (rule keeps_fold)
    fix q and s :: "string list \<times> def_db"
    assume q: "q \<in> set rows" "q \<in> set (df_requests (snd s))" "distinct (map dq_id (df_requests (snd s)))"
    have op: "open_request q" using q(1) by (simp add: rows_def)
    have "keeps_requests (snd s) (change_request (dq_id q) f (snd s))" if "moves q (f q)" for f using q(2,3) that by (rule keeps_change)
    then show "keeps_requests (snd s) (snd (hand_out (current_store machine x1) now q s))
        \<and> (\<forall>r \<in> set (df_requests (snd s)). dq_id r \<noteq> dq_id q \<longrightarrow> r \<in> set (df_requests (snd (hand_out (current_store machine x1) now q s))))"
      using moves_settled [OF op] moves_claimed [OF op] by (cases s) (simp add: hand_out_def change_leaves)
  qed (use d i in \<open>auto simp: rows_def ids_ok_def\<close>)
  then show ?thesis using k y keeps_trans by auto
qed

lemma keeps_report:
  assumes "ids_ok x" and "report_request environment i b now x = Inr y"
  shows "keeps_requests x y"
proof -
  define x1 where "x1 = expire_unclaimed now x"
  have k: "keeps_requests x x1" unfolding x1_def by (rule keeps_expire)
  have d: "distinct (map dq_id (df_requests x1))" using keeps_ids_ok [OF k assms(1)] by (simp add: ids_ok_def)
  have ok: "dr_status b = ''done'' \<or> dr_status b = ''refused''" using assms(2) by (auto simp: report_request_def report_ok_def split: option.splits if_splits)
  obtain q where q: "request_of i x1 = Some q" using assms(2) unfolding report_request_def Let_def x1_def [symmetric] by (auto split: option.splits if_splits)
  then have m: "q \<in> set (df_requests x1)" "dq_id q = i" by (auto simp: request_of_def find_Some_iff)
  let ?f = "\<lambda>q. q\<lparr>dq_status := dr_status b, dq_result := (if dr_status b = ''done'' then dr_result b else None), dq_finished := now, dq_consequence := owed_after b q\<rparr>"
  have "y = x1 \<or> dq_status q \<in> {''claimed'', ''superseded''} \<and> y = change_request i ?f x1"
    using assms(2) q unfolding report_request_def Let_def x1_def [symmetric] by (simp split: option.splits if_splits)
  moreover have "moves q (?f q)" if "dq_status q \<in> {''claimed'', ''superseded''}"
    using that ok by (auto simp: moves_def request_words)
  ultimately have "keeps_requests x1 y" using keeps_change [OF m(1) d, of ?f] m(2) by auto
  then show ?thesis by (rule keeps_trans [OF k])
qed

lemma keeps_spawn:
  assumes "ids_ok x"
  shows "keeps_requests x (spawn_created machine x)"
  unfolding spawn_created_def
proof (rule keeps_fold [where g = "\<lambda>y. y"])
  fix q and y :: def_db assume q: "q \<in> set (filter (\<lambda>q. dq_machine q = machine \<and> dq_status q = ''done'' \<and> dq_consequence q = SPAWN_OWED) (df_requests x))"
    "q \<in> set (df_requests y)" "distinct (map dq_id (df_requests y))"
  have s: "keeps_requests y (change_request (dq_id q) (\<lambda>q. q\<lparr>dq_consequence := c\<rparr>) y)" for c
    using q by (intro keeps_change) (auto simp: moves_def request_words)
  have l: "change_request i f (y\<lparr>df_lifecycle := l\<rparr>) = (change_request i f y)\<lparr>df_lifecycle := l\<rparr>" for i f l by (simp add: change_request_def)
  have "keeps_requests y (z\<lparr>df_lifecycle := l\<rparr>) = keeps_requests y z" for z l by (simp add: keeps_requests_def)
  then show "keeps_requests y (spawn_one q y) \<and> (\<forall>r \<in> set (df_requests y). dq_id r \<noteq> dq_id q \<longrightarrow> r \<in> set (df_requests (spawn_one q y)))"
    using s by (auto simp: spawn_one_def Let_def queue_lifecycle_def l change_leaves split: option.split)
qed (use assms in \<open>auto simp: ids_ok_def distinct_map_filter\<close>)

lemma keeps_settle: "keeps_requests x (settle_removal i why x)"
  unfolding settle_removal_def by (rule keeps_change_all) (simp add: moves_def request_words)

lemma keeps_remove: "remove_agent q x = (why, y) \<Longrightarrow> keeps_requests x y"
  by (auto simp: remove_agent_def Let_def remove_agent_row_def keeps_same split: if_splits)

subsection \<open>What a push leaves alone\<close>

text \<open>The tables that applying entries does not write.\<close>

definition same_frame :: "def_db \<Rightarrow> def_db \<Rightarrow> bool" where
  "same_frame x y = (df_requests y = df_requests x \<and> df_next y = df_next x \<and> df_lifecycle y = df_lifecycle x \<and> df_stores y = df_stores x \<and> df_retired y = df_retired x)"

lemma frame_entry: "same_frame (snd s) (snd (apply_entry own machine store e s))"
  by (cases s) (simp add: apply_entry_def Let_def same_frame_def define_agent_def ensure_agent_row_def split: option.split)

lemma frame_withdraw: "same_frame (snd s) (snd (withdraw machine od s))"
  by (cases s; cases od) (simp add: withdraw_def same_frame_def)

lemma frame_fold: "(\<And>z s. same_frame (snd s) (snd (f z s))) \<Longrightarrow> same_frame (snd s) (snd (fold f zs s))"
proof (induction zs arbitrary: s)
  case (Cons z zs)
  have "same_frame (snd s) (snd (f z s))" "same_frame (snd (f z s)) (snd (fold f zs (f z s)))" using Cons by blast+
  then show ?case by (simp add: same_frame_def)
qed (simp add: same_frame_def)

lemma frame_entries: "same_frame x (snd (apply_entries machine store es x))"
proof -
  have "same_frame (snd (r0, x)) (snd (fold (apply_entry own machine store) es (r0, x)))" for r0 :: push_result and own by (rule frame_fold) (rule frame_entry)
  moreover have "same_frame (snd s) (snd (fold (withdraw machine) os s))" for s os by (rule frame_fold) (rule frame_withdraw)
  ultimately show ?thesis unfolding apply_entries_def Let_def by (simp add: same_frame_def)
qed

lemma map_of_marked: "a \<noteq> k \<Longrightarrow> map_of (map (\<lambda>(b, d). if b = k then (b, f d) else (b, d)) xs) a = map_of xs a"
  by (induction xs) auto

lemma defs_of_entry:
  assumes "map_of own a = Some d" and "dn_machine d \<noteq> []" and "dn_machine d \<noteq> machine"
  shows "map_of (df_defs (snd (apply_entry own machine store e s))) a = map_of (df_defs (snd s)) a"
proof (cases "en_id e = a")
  case True
  then have "id_refusal_of (en_id e) (entry_inc e) (map_option dn_machine (map_of own (en_id e))) machine store (snd s) \<noteq> None"
    using assms by (simp add: id_refusal_of_def Let_def)
  then show ?thesis by (cases s) (auto simp: apply_entry_def Let_def)
next
  case False
  then show ?thesis by (cases s) (auto simp: apply_entry_def Let_def define_agent_def ensure_agent_row_def update_conv' map_of_marked split: option.split)
qed

lemma defs_of_withdraw: "fst od \<noteq> a \<Longrightarrow> map_of (df_defs (snd (withdraw machine od s))) a = map_of (df_defs (snd s)) a"
  by (cases s; cases od) (simp add: withdraw_def delete_conv')

lemma defs_of_entries:
  assumes "distinct (map fst (df_defs x))" and "map_of (df_defs x) a = Some d" and "dn_machine d \<noteq> []" and "dn_machine d \<noteq> machine"
  shows "map_of (df_defs (snd (apply_entries machine store es x))) a = Some d"
proof -
  have e: "map_of (df_defs (snd (fold (apply_entry (df_defs x) machine store) es s))) a = map_of (df_defs (snd s)) a" for s
    by (induction es arbitrary: s) (simp_all add: defs_of_entry [OF assms(2-4)])
  have w: "map_of (df_defs (snd (fold (withdraw machine) os s))) a = map_of (df_defs (snd s)) a" if "\<forall>od \<in> set os. fst od \<noteq> a" for os s
    using that by (induction os arbitrary: s) (simp_all add: defs_of_withdraw)
  have "fst od \<noteq> a" if "od \<in> set (filter (\<lambda>(a, d). dn_machine d = machine \<and> a \<notin> set (map en_id es)) (df_defs x))" for od
  proof
    assume "fst od = a"
    then have "map_of (df_defs x) a = Some (snd od)" using that assms(1) by (cases od) (auto intro: map_of_is_SomeI)
    then show False using that assms(2,4) by (cases od) auto
  qed
  then show ?thesis unfolding apply_entries_def Let_def using w e assms(2) by simp
qed

lemma push_cases:
  assumes "apply_definition_push R environment p x = (ans, y)"
  obtains "df_defs y = df_defs x" "df_requests y = df_requests x" "df_next y = df_next x" "df_lifecycle y = df_lifecycle x" "df_stores y = df_stores x"
      "\<forall>m. retired_stores m y = retired_stores m x" "\<And>r. ans \<noteq> Inr (Applied r)"
    | x0 a where "store_snapshot (py_strip (pu_machine p)) (py_strip (pu_store p)) p x0 = (a, y)" "ans = Inr a" "py_strip (pu_machine p) \<noteq> []" "py_strip (pu_store p) \<notin> retired_stores (py_strip (pu_machine p)) x"
      "push_body_ok p" "fence_refusal environment (pu_bridge p) (py_strip (pu_machine p)) = None" "snapshot_ok R (pu_entries p) (pu_digest p)"
      "x0 = x \<and> (\<forall>c. map_of (df_stores x) (py_strip (pu_machine p)) = Some c \<longrightarrow> sr_store c = py_strip (pu_store p) \<and> sr_rev c < pu_rev p)
       \<or> (\<exists>c. map_of (df_stores x) (py_strip (pu_machine p)) = Some c \<and> sr_store c \<noteq> py_strip (pu_store p) \<and> x0 = retire (py_strip (pu_machine p)) (sr_store c) x)"
proof -
  let ?m = "py_strip (pu_machine p)" and ?s = "py_strip (pu_store p)"
  have f: "map fst (map (\<lambda>(k, n). if k = (?m, ?s) then (k, Suc n) else (k, n)) xs) = map fst xs" for xs :: "((string \<times> string) \<times> nat) list" by (induction xs) auto
  have g: "df_retired (x\<lparr>df_retired := l\<rparr>) = l" for l by simp
  have ret: "retired_stores m (x\<lparr>df_retired := map (\<lambda>(k, n). if k = (?m, ?s) then (k, Suc n) else (k, n)) (df_retired x)\<rparr>) = retired_stores m x" for m
    unfolding retired_stores_def g f by (rule refl)
  let ?cur = "map_of (df_stores x) ?m" and ?o = "push_order_of (map_of (df_stores x) ?m) (retired_stores ?m x) ?s (pu_rev p) (pu_digest p)"
  show thesis
  proof (cases "push_body_ok p \<and> fence_refusal environment (pu_bridge p) ?m = None \<and> snapshot_ok R (pu_entries p) (pu_digest p)")
    case False
    then have "y = x \<and> (\<exists>e. ans = Inl e)" using assms unfolding apply_definition_push_def Let_def by (auto split: if_splits option.splits)
    then show thesis using that(1) by auto
  next
    case True
    then have m: "?m \<noteq> []" by (simp add: push_body_ok_def)
    have e: "apply_definition_push R environment p x = (case ?o of
                RETIRED \<Rightarrow> (Inl Retired_Store, x\<lparr>df_retired := map (\<lambda>(k, n). if k = (?m, ?s) then (k, Suc n) else (k, n)) (df_retired x)\<rparr>)
              | STALE \<Rightarrow> (Inl Stale_Revision, x) | CONFLICT \<Rightarrow> (Inl Digest_Conflict, x)
              | REPLAY \<Rightarrow> (case ?cur of Some c \<Rightarrow> (Inr (replayed ?m ?s c (pu_entries p) x), x) | None \<Rightarrow> (Inl Bad_Push, x))
              | NEW_STORE \<Rightarrow> (case store_snapshot ?m ?s p (case ?cur of Some c \<Rightarrow> retire ?m (sr_store c) x | None \<Rightarrow> x) of (a, y) \<Rightarrow> (Inr a, y))
              | APPLY \<Rightarrow> (case store_snapshot ?m ?s p x of (a, y) \<Rightarrow> (Inr a, y)))"
      unfolding apply_definition_push_def Let_def using True by simp
    have r: "replayed ?m ?s c es x \<noteq> Applied q" for c es q by (simp add: replayed_def split: option.split prod.split)
    show thesis
    proof (cases ?o)
      case APPLY
      then have o: "?s \<notin> retired_stores ?m x" "\<forall>c. ?cur = Some c \<longrightarrow> sr_store c = ?s \<and> sr_rev c < pu_rev p" by (auto simp: push_order_of_def split: if_splits option.splits)
      obtain a where a: "store_snapshot ?m ?s p x = (a, y)" "ans = Inr a" using e APPLY assms by (auto split: prod.splits)
      show thesis by (rule that(2) [OF a m o(1)]) (use True o(2) in simp_all)
    next
      case NEW_STORE
      then obtain c where o: "?s \<notin> retired_stores ?m x" "?cur = Some c" "sr_store c \<noteq> ?s" by (auto simp: push_order_of_def split: if_splits option.splits)
      obtain a where a: "store_snapshot ?m ?s p (retire ?m (sr_store c) x) = (a, y)" "ans = Inr a" using e NEW_STORE assms o(2) by (auto split: prod.splits)
      show thesis by (rule that(2) [OF a m o(1)]) (use True o(2,3) in simp_all)
    next
      case REPLAY
      then show thesis using e assms r that(1) by (auto split: option.splits)
    next
      case RETIRED
      then have "y = x\<lparr>df_retired := map (\<lambda>(k, n). if k = (?m, ?s) then (k, Suc n) else (k, n)) (df_retired x)\<rparr>" "ans = Inl Retired_Store" using e assms by simp_all
      then show thesis using that(1) ret by simp
    next
      case STALE then show thesis using e assms that(1) by simp
    next
      case CONFLICT then show thesis using e assms that(1) by simp
    qed
  qed
qed

lemma map_of_marked_at: "map_of (map (\<lambda>(b, d). if b = k then (b, f d) else (b, d)) xs) k = map_option f (map_of xs k)"
  by (induction xs) auto

lemma stored_snapshot:
  assumes "store_snapshot m st p x = (a, y)"
  obtains r x1 where "a = Applied r" "apply_entries m st (pu_entries p) x1 = (r, y\<lparr>df_stores := df_stores x1\<rparr>)" "x1 = x\<lparr>df_stores := df_stores x1\<rparr>"
    "df_requests y = df_requests x" "df_next y = df_next x" "df_lifecycle y = df_lifecycle x" "df_retired y = df_retired x"
    "map_of (df_stores y) m = Some \<lparr>sr_store = st, sr_rev = pu_rev p, sr_digest = pu_digest p, sr_outcome = Some (map fst (pr_refused r), pr_invalid r, pr_kept r)\<rparr>"
    "\<And>k. k \<noteq> m \<Longrightarrow> map_of (df_stores y) k = map_of (df_stores x) k"
proof -
  define c where "c = \<lparr>sr_store = st, sr_rev = pu_rev p, sr_digest = pu_digest p, sr_outcome = (case map_of (df_stores x) m of Some c \<Rightarrow> sr_outcome c | None \<Rightarrow> None)\<rparr>"
  define x1 where "x1 = x\<lparr>df_stores := AList.update m c (df_stores x)\<rparr>"
  obtain r x2 where e: "apply_entries m st (pu_entries p) x1 = (r, x2)" by fastforce
  let ?f = "\<lambda>c. c\<lparr>sr_outcome := Some (map fst (pr_refused r), pr_invalid r, pr_kept r)\<rparr>"
  have s: "a = Applied r" "y = x2\<lparr>df_stores := map (\<lambda>(m', c). if m' = m then (m', ?f c) else (m', c)) (df_stores x2)\<rparr>"
    using assms e unfolding store_snapshot_def Let_def c_def [symmetric] x1_def [symmetric] by simp_all
  have f: "same_frame x1 x2" using frame_entries [of x1 m st "pu_entries p"] e by simp
  have "df_stores x1 = AList.update m c (df_stores x)" by (simp add: x1_def)
  then have "map_of (df_stores y) m = Some (?f c)" "\<And>k. k \<noteq> m \<Longrightarrow> map_of (df_stores y) k = map_of (df_stores x) k"
    using f s(2) by (simp_all add: same_frame_def map_of_marked map_of_marked_at update_conv')
  then show thesis using that [of r x1] s e f by (simp add: same_frame_def x1_def c_def)
qed

lemma retired_retire: "retired_stores k (retire m st x) = (if k = m then insert st (retired_stores k x) else retired_stores k x)"
proof (cases "map_of (df_retired x) (m, st) = None")
  case False
  then have "(m, st) \<in> set (map fst (df_retired x))" by (metis map_of_eq_None_iff set_map)
  then have "st \<in> retired_stores m x" unfolding retired_stores_def by force
  then show ?thesis using False by (auto simp: retire_def insert_absorb)
qed (auto simp: retire_def retired_stores_def)

lemma retire_keeps [simp]: "df_requests (retire m st x) = df_requests x" "df_next (retire m st x) = df_next x" "df_lifecycle (retire m st x) = df_lifecycle x"
  "df_stores (retire m st x) = df_stores x" "df_defs (retire m st x) = df_defs x"
  by (simp_all add: retire_def)

text \<open>C14. A definition stays with the machine that owns it. Whatever another machine's host pushes, and whatever becomes of the push, the definition of an agent is what its own machine made it.\<close>

theorem definition_stays_with_its_machine:
  assumes "apply_definition_push R environment p x = (ans, y)" and "distinct (map fst (df_defs x))" and "map_of (df_defs x) a = Some d"
    and "dn_machine d \<noteq> []" and "dn_machine d \<noteq> py_strip (pu_machine p)"
  shows "map_of (df_defs y) a = Some d"
  using assms(1)
proof (cases rule: push_cases)
  case 1 then show ?thesis using assms(3) by simp
next
  case (2 x0 b)
  have k: "df_defs x0 = df_defs x" using 2(8) by (auto simp: retire_keeps)
  from 2(1) obtain r x1 where s: "apply_entries (py_strip (pu_machine p)) (py_strip (pu_store p)) (pu_entries p) x1 = (r, y\<lparr>df_stores := df_stores x1\<rparr>)" "x1 = x0\<lparr>df_stores := df_stores x1\<rparr>"
    by (rule stored_snapshot)
  have "df_defs x1 = df_defs x" using s(2) k by (metis def_db.ext_inject def_db.surjective def_db.update_convs(2))
  then have "map_of (df_defs (snd (apply_entries (py_strip (pu_machine p)) (py_strip (pu_store p)) (pu_entries p) x1))) a = Some d"
    using assms(2-5) by (intro defs_of_entries) simp_all
  then show ?thesis using s(1) by simp
qed

text \<open>A host that repeats itself changes nothing. A push that was applied is answered, when it is sent again, as a replay that names the same unresolved entries, and every table stays as it is.\<close>

theorem repeated_push_is_a_replay:
  assumes "apply_definition_push R environment p x = (Inr (Applied r), y)"
  shows "\<exists>l. apply_definition_push R environment p y = (Inr (Replayed l (pr_invalid r) (pr_kept r) True), y) \<and> map fst l = map fst (pr_refused r)"
  using assms
proof (cases rule: push_cases)
  case 1 from 1(7) [of r] show ?thesis by simp
next
  case (2 x0 b)
  let ?m = "py_strip (pu_machine p)" and ?s = "py_strip (pu_store p)"
  from 2(1) obtain r' where s: "b = Applied r'" "df_retired y = df_retired x0"
      "map_of (df_stores y) ?m = Some \<lparr>sr_store = ?s, sr_rev = pu_rev p, sr_digest = pu_digest p, sr_outcome = Some (map fst (pr_refused r'), pr_invalid r', pr_kept r')\<rparr>"
    by (rule stored_snapshot)
  have r: "r' = r" using s(1) 2(2) by simp
  have "?s \<notin> retired_stores ?m x0" using 2(4,8) by (auto simp: retired_retire)
  then have "?s \<notin> retired_stores ?m y" using s(2) by (simp add: retired_stores_def)
  then have "push_order_of (map_of (df_stores y) ?m) (retired_stores ?m y) ?s (pu_rev p) (pu_digest p) = REPLAY" using s(3) by (simp add: push_order_of_def)
  then have "apply_definition_push R environment p y = (Inr (replayed ?m ?s \<lparr>sr_store = ?s, sr_rev = pu_rev p, sr_digest = pu_digest p, sr_outcome = Some (map fst (pr_refused r), pr_invalid r, pr_kept r)\<rparr> (pu_entries p) y), y)"
    unfolding apply_definition_push_def Let_def using 2(5-7) s(3) r by simp
  then show ?thesis by (simp add: replayed_def comp_def)
qed

subsection \<open>Everything that happens to definitions\<close>

definition is_spawn_id :: "string \<Rightarrow> bool" where
  "is_spawn_id i = (take 6 i = ''spawn-'')"

text \<open>The operator's reset may or may not be among the steps. Others write agents and tombstones, and lifecycle requests with ids of their own.\<close>

inductive def_step :: "bool \<Rightarrow> def_rules \<Rightarrow> def_db \<Rightarrow> def_db \<Rightarrow> bool" for resets R where
  push: "apply_definition_push R environment p x = (ans, y) \<Longrightarrow> def_step resets R x y"
| admit: "admit R a patch operator now x = Inr (q, y) \<Longrightarrow> def_step resets R x y"
| create: "admit_creation R a machine agent actor now x = Inr (q, y) \<Longrightarrow> def_step resets R x y"
| expire: "def_step resets R x (expire_unclaimed now x)"
| claim: "claim_requests environment bridge machine now x = Inr (ids, y) \<Longrightarrow> def_step resets R x y"
| report: "report_request environment i b now x = Inr y \<Longrightarrow> def_step resets R x y"
| spawn: "def_step resets R x (spawn_created machine x)"
| remove: "remove_agent q x = (why, y) \<Longrightarrow> def_step resets R x y"
| settle: "def_step resets R x (settle_removal i why x)"
| failed: "def_step resets R x (change_request i (\<lambda>q. q\<lparr>dq_failed := now\<rparr>) x)"
| release: "release_agent_definition a machine x = Inr y \<Longrightarrow> def_step resets R x y"
| reset: "resets \<Longrightarrow> def_step resets R x (reset_definition_store machine x)"
| agents: "def_step resets R x (x\<lparr>df_agents := ags, df_tombstones := ts\<rparr>)"
| lifecycle: "filter is_spawn_id (map fst l) = filter is_spawn_id (map fst (df_lifecycle x)) \<Longrightarrow> def_step resets R x (x\<lparr>df_lifecycle := l\<rparr>)"

lemma keeps_push: "apply_definition_push R environment p x = (ans, y) \<Longrightarrow> keeps_requests x y \<and> df_lifecycle y = df_lifecycle x"
proof (erule push_cases)
  fix x0 a assume s: "store_snapshot (py_strip (pu_machine p)) (py_strip (pu_store p)) p x0 = (a, y)"
    and k: "x0 = x \<and> (\<forall>c. map_of (df_stores x) (py_strip (pu_machine p)) = Some c \<longrightarrow> sr_store c = py_strip (pu_store p) \<and> sr_rev c < pu_rev p)
       \<or> (\<exists>c. map_of (df_stores x) (py_strip (pu_machine p)) = Some c \<and> sr_store c \<noteq> py_strip (pu_store p) \<and> x0 = retire (py_strip (pu_machine p)) (sr_store c) x)"
  from s have "df_requests y = df_requests x0" "df_next y = df_next x0" "df_lifecycle y = df_lifecycle x0" by (rule stored_snapshot, simp)+
  moreover have "df_requests x0 = df_requests x" "df_next x0 = df_next x" "df_lifecycle x0 = df_lifecycle x" using k by auto
  ultimately show "keeps_requests x y \<and> df_lifecycle y = df_lifecycle x" by (simp add: keeps_same)
qed (simp_all add: keeps_same)

text \<open>Either the requests only move, or one is added for an agent that has none open.\<close>

definition adds_request :: "def_db \<Rightarrow> def_db \<Rightarrow> bool" where
  "adds_request x y = (\<exists>z q. keeps_requests x z \<and> df_requests y = df_requests z @ [q] \<and> df_next y = Suc (df_next z) \<and> dq_id q = ''defreq_'' @ nat_str (df_next z)
     \<and> dq_status q = ''pending'' \<and> \<not> waiting (dq_agent q) z \<and> df_lifecycle y = df_lifecycle x)"

lemma lifecycle_keeps [simp]: "df_lifecycle (change_request i f x) = df_lifecycle x" "df_lifecycle (expire_unclaimed now x) = df_lifecycle x"
  by (simp_all add: change_request_def expire_unclaimed_def)

lemma lifecycle_undeliverable: "df_lifecycle (refuse_undeliverable a own now x) = df_lifecycle x"
proof -
  have "df_lifecycle (fold (\<lambda>q x. if undeliverable q (Some own) (current_store (dq_machine q) x) then change_request (dq_id q) (settled_undeliverable now) x else x) rows x) = df_lifecycle x" for rows
    by (induction rows arbitrary: x) simp_all
  then show ?thesis by (simp add: refuse_undeliverable_def)
qed

lemma adds_new: "keeps_requests x z \<Longrightarrow> \<not> waiting a z \<Longrightarrow> df_lifecycle z = df_lifecycle x \<Longrightarrow> new_request R a m st ex patch actor now z = (q, y) \<Longrightarrow> adds_request x y"
  unfolding adds_request_def new_request_def Let_def by (intro exI [of _ z] exI [of _ q]) auto

lemma adds_admit:
  assumes "ids_ok x" and "admit R a patch operator now x = Inr (q, y)"
  shows "adds_request x y"
proof -
  obtain actor where o: "operator = Some actor" using assms(2) by (cases operator) (simp_all add: admit_def)
  define x1 where "x1 = expire_unclaimed now x"
  obtain own where d: "map_of (df_defs x1) a = Some own" using assms(2) o by (cases "map_of (df_defs x1) a") (simp_all add: admit_def Let_def x1_def)
  define x2 where "x2 = refuse_undeliverable a own now x1"
  have n: "\<not> waiting a x2" "new_request R a (dn_machine own) (dn_store own) (dn_inc own, dn_rev own) patch actor now x2 = (q, y)"
    using assms(2) o d unfolding admit_def Let_def by (simp_all add: x1_def [symmetric] x2_def [symmetric] split: if_splits)
  have "keeps_requests x x1" unfolding x1_def by (rule keeps_expire)
  moreover from keeps_ids_ok [OF this assms(1)] have "keeps_requests x1 x2" unfolding x2_def by (rule keeps_undeliverable)
  ultimately have "keeps_requests x x2" by (rule keeps_trans)
  moreover have "df_lifecycle x2 = df_lifecycle x" by (simp add: x2_def x1_def lifecycle_undeliverable)
  ultimately show ?thesis using n adds_new by blast
qed

lemma adds_create: "admit_creation R a machine agent actor now x = Inr (q, y) \<Longrightarrow> adds_request x y"
  by (auto simp: admit_creation_def intro: adds_new [OF keeps_refl] split: option.splits if_splits)

lemma lifecycle_claim: "claim_requests environment bridge machine now x = Inr (ids, y) \<Longrightarrow> df_lifecycle y = df_lifecycle x"
proof -
  have h: "df_lifecycle (snd (fold (hand_out st now) rows s)) = df_lifecycle (snd s)" for st rows s
    by (induction rows arbitrary: s) (simp_all add: hand_out_def case_prod_beta)
  show "claim_requests environment bridge machine now x = Inr (ids, y) \<Longrightarrow> df_lifecycle y = df_lifecycle x"
    unfolding claim_requests_def Let_def using h by (auto split: option.splits) (metis lifecycle_keeps(2) snd_conv)
qed

lemma lifecycle_report: "report_request environment i b now x = Inr y \<Longrightarrow> df_lifecycle y = df_lifecycle x"
  by (auto simp: report_request_def Let_def split: option.splits if_splits)

subsection \<open>One change at a time\<close>

definition open_of :: "string \<Rightarrow> def_db \<Rightarrow> def_request list" where
  "open_of a x = filter (\<lambda>q. dq_agent q = a \<and> open_request q) (df_requests x)"

definition spawn_ids :: "def_db \<Rightarrow> string list" where
  "spawn_ids x = filter is_spawn_id (map fst (df_lifecycle x))"

definition spawns_ok :: "def_db \<Rightarrow> bool" where
  "spawns_ok x = (distinct (spawn_ids x) \<and> (\<forall>i \<in> set (spawn_ids x). \<exists>q \<in> set (df_requests x). i = spawn_of q \<and> dq_status q = ''done'' \<and> dq_consequence q \<noteq> SPAWN_OWED))"

definition def_ok :: "def_db \<Rightarrow> bool" where
  "def_ok x = (ids_ok x \<and> (\<forall>a. length (open_of a x) \<le> 1) \<and> spawns_ok x)"

lemma keeps_open: "keeps_requests x y \<Longrightarrow> length (open_of a y) \<le> length (open_of a x)"
proof -
  assume "keeps_requests x y"
  then obtain f where f: "df_requests y = map f (df_requests x)" "\<forall>q \<in> set (df_requests x). moves q (f q)" unfolding keeps_requests_def by blast
  have "length (filter (\<lambda>q. dq_agent q = a \<and> open_request q) (map f qs)) \<le> length (filter (\<lambda>q. dq_agent q = a \<and> open_request q) qs)" if "\<forall>q \<in> set qs. moves q (f q)" for qs
    using that by (induction qs) (auto simp: moves_def)
  then show ?thesis unfolding open_of_def f(1) using f(2) by blast
qed

lemma keeps_spawns:
  assumes "keeps_requests x y" and "spawn_ids y = spawn_ids x" and "spawns_ok x"
  shows "spawns_ok y"
proof -
  obtain f where f: "df_requests y = map f (df_requests x)" "\<forall>q \<in> set (df_requests x). moves q (f q)" using assms(1) unfolding keeps_requests_def by blast
  have "\<exists>q \<in> set (df_requests y). i = spawn_of q \<and> dq_status q = ''done'' \<and> dq_consequence q \<noteq> SPAWN_OWED" if i: "i \<in> set (spawn_ids x)" for i
  proof -
    obtain q where q: "q \<in> set (df_requests x)" "i = spawn_of q" "dq_status q = ''done''" "dq_consequence q \<noteq> SPAWN_OWED" using assms(3) i unfolding spawns_ok_def by blast
    then have "moves q (f q)" "dq_status q \<in> set FINISHED" using f(2) by (simp_all add: FINISHED_def)
    then have "spawn_of (f q) = i" "dq_status (f q) = ''done''" "dq_consequence (f q) \<noteq> SPAWN_OWED" using q by (auto simp: moves_def spawn_of_def)
    then show ?thesis using q(1) f(1) by auto
  qed
  then show ?thesis using assms(2,3) unfolding spawns_ok_def by simp
qed

lemma keeps_ok: "keeps_requests x y \<Longrightarrow> spawn_ids y = spawn_ids x \<Longrightarrow> def_ok x \<Longrightarrow> def_ok y"
  unfolding def_ok_def using keeps_ids_ok keeps_open keeps_spawns by (meson le_trans)

lemma adds_ok:
  assumes "adds_request x y" and "def_ok x"
  shows "def_ok y"
proof -
  obtain z q where z: "keeps_requests x z" "df_requests y = df_requests z @ [q]" "df_next y = Suc (df_next z)" "dq_id q = ''defreq_'' @ nat_str (df_next z)"
      "dq_status q = ''pending''" "\<not> waiting (dq_agent q) z" "df_lifecycle y = df_lifecycle x"
    using assms(1) unfolding adds_request_def by blast
  define z' where "z' = z\<lparr>df_lifecycle := df_lifecycle x\<rparr>"
  have "keeps_requests x z'" using z(1) by (simp add: z'_def keeps_requests_def)
  then have ok: "def_ok z'" by (rule keeps_ok) (simp_all add: z'_def spawn_ids_def assms(2))
  have e: "df_requests z' = df_requests z" "df_next z' = df_next z" "spawn_ids y = spawn_ids z'" using z(7) by (simp_all add: z'_def spawn_ids_def)
  have fresh: "dq_id q \<notin> set (map dq_id (df_requests z))"
  proof
    assume "dq_id q \<in> set (map dq_id (df_requests z))"
    then obtain k where "k < df_next z" "dq_id q = ''defreq_'' @ nat_str k" using ok e unfolding def_ok_def ids_ok_def by auto
    then show False using z(4) nat_str_inj by auto
  qed
  have "ids_ok y" unfolding ids_ok_def
  proof
    show "distinct (map dq_id (df_requests y))" using ok e fresh z(2) by (simp add: def_ok_def ids_ok_def)
    have "\<exists>k < df_next y. i = ''defreq_'' @ nat_str k" if "i \<in> set (map dq_id (df_requests z))" for i
      using that ok e z(3) unfolding def_ok_def ids_ok_def by (metis less_SucI)
    then show "\<forall>i \<in> set (map dq_id (df_requests y)). \<exists>k < df_next y. i = ''defreq_'' @ nat_str k" using z(2,3,4) by auto
  qed
  moreover have "length (open_of a y) \<le> 1" for a
  proof (cases "a = dq_agent q")
    case True
    then have "open_of a z = []" using z(6) by (auto simp: open_of_def waiting_def list_ex_iff filter_empty_conv)
    then show ?thesis using z(2) by (simp add: open_of_def)
  next
    case False
    then have "open_of a y = open_of a z'" using z(2) e by (simp add: open_of_def)
    then show ?thesis using ok by (simp add: def_ok_def)
  qed
  moreover have "spawns_ok y" using ok e z(2) unfolding def_ok_def spawns_ok_def by auto
  ultimately show ?thesis by (simp add: def_ok_def)
qed

lemma spawn_one_ok:
  assumes "ids_ok x" and "spawns_ok x" and "q \<in> set (df_requests x)" and "dq_status q = ''done''" and "dq_consequence q = SPAWN_OWED"
  shows "spawns_ok (spawn_one q x)"
proof -
  have d: "distinct (map dq_id (df_requests x))" using assms(1) by (simp add: ids_ok_def)
  have k: "keeps_requests x (change_request (dq_id q) (\<lambda>q. q\<lparr>dq_consequence := c\<rparr>) x)" for c
    by (rule keeps_change [OF assms(3) d]) (simp add: moves_def assms(4,5) request_words)
  have same: "spawns_ok (change_request (dq_id q) (\<lambda>q. q\<lparr>dq_consequence := c\<rparr>) x)" for c
    by (rule keeps_spawns [OF k _ assms(2)]) (simp add: spawn_ids_def)
  have u: "q' = q" if "q' \<in> set (df_requests x)" "dq_id q' = dq_id q" for q' using that d assms(3) unfolding distinct_map by (metis inj_onD)
  have new: "spawn_of q \<notin> set (spawn_ids x)"
  proof
    assume "spawn_of q \<in> set (spawn_ids x)"
    then obtain q' where "q' \<in> set (df_requests x)" "spawn_of q = spawn_of q'" "dq_consequence q' \<noteq> SPAWN_OWED" using assms(2) unfolding spawns_ok_def by blast
    then show False using u assms(5) by (metis same_append_eq spawn_of_def)
  qed
  let ?c = "''spawn queued '' @ spawn_of q"
  have c: "?c \<noteq> SPAWN_OWED" by (simp add: SPAWN_OWED_def)
  define z where "z = change_request (dq_id q) (\<lambda>q. q\<lparr>dq_consequence := ?c\<rparr>) x"
  have "q\<lparr>dq_consequence := ?c\<rparr> \<in> set (df_requests z)" using assms(3) unfolding z_def change_request_def by force
  then have qz: "\<exists>r \<in> set (df_requests z). spawn_of q = spawn_of r \<and> dq_status r = ''done'' \<and> dq_consequence r \<noteq> SPAWN_OWED"
    using assms(4) c by (intro bexI [of _ "q\<lparr>dq_consequence := ?c\<rparr>"]) (simp_all add: spawn_of_def)
  have "spawns_ok (z\<lparr>df_lifecycle := df_lifecycle x @ [(spawn_of q, a, True)]\<rparr>)" for a
  proof -
    have i: "spawn_ids (z\<lparr>df_lifecycle := df_lifecycle x @ [(spawn_of q, a, True)]\<rparr>) = spawn_ids z @ [spawn_of q]" "spawn_ids z = spawn_ids x"
      by (simp_all add: spawn_ids_def is_spawn_id_def spawn_of_def z_def)
    have zs: "spawns_ok z" using same [of ?c] by (simp add: z_def)
    show ?thesis unfolding spawns_ok_def i(1) using zs [unfolded spawns_ok_def] new i(2) qz by simp
  qed
  moreover have "change_request j f (x\<lparr>df_lifecycle := l\<rparr>) = (change_request j f x)\<lparr>df_lifecycle := l\<rparr>" for j f l by (simp add: change_request_def)
  ultimately show ?thesis using same assms(2) by (auto simp: spawn_one_def Let_def queue_lifecycle_def z_def split: option.split)
qed

lemma spawn_one_steps:
  assumes "ids_ok x" and "q \<in> set (df_requests x)" and "dq_status q = ''done''" and "dq_consequence q = SPAWN_OWED"
  shows "keeps_requests x (spawn_one q x)" "r \<in> set (df_requests x) \<Longrightarrow> dq_id r \<noteq> dq_id q \<Longrightarrow> r \<in> set (df_requests (spawn_one q x))"
proof -
  have d: "distinct (map dq_id (df_requests x))" using assms(1) by (simp add: ids_ok_def)
  have s: "keeps_requests x (change_request (dq_id q) (\<lambda>q. q\<lparr>dq_consequence := c\<rparr>) x)" for c
    using assms(2) d by (rule keeps_change) (simp add: moves_def assms(3,4) request_words)
  have l: "change_request i f (x\<lparr>df_lifecycle := l\<rparr>) = (change_request i f x)\<lparr>df_lifecycle := l\<rparr>" for i f l by (simp add: change_request_def)
  have "keeps_requests x (z\<lparr>df_lifecycle := l\<rparr>) = keeps_requests x z" for z l by (simp add: keeps_requests_def)
  then show "keeps_requests x (spawn_one q x)" using s by (simp add: spawn_one_def Let_def queue_lifecycle_def l split: option.split)
  show "r \<in> set (df_requests (spawn_one q x))" if "r \<in> set (df_requests x)" "dq_id r \<noteq> dq_id q"
    using that by (simp add: spawn_one_def Let_def queue_lifecycle_def l change_leaves split: option.split)
qed

lemma spawn_created_ok:
  assumes "ids_ok x" and "spawns_ok x"
  shows "spawns_ok (spawn_created machine x)"
proof -
  have "spawns_ok (fold spawn_one rows x)"
    if "ids_ok x" "spawns_ok x" "set rows \<subseteq> set (df_requests x)" "distinct (map dq_id rows)" "\<forall>q \<in> set rows. dq_status q = ''done'' \<and> dq_consequence q = SPAWN_OWED" for rows x
    using that
  proof (induction rows arbitrary: x)
    case (Cons q rows)
    have q: "q \<in> set (df_requests x)" "dq_status q = ''done''" "dq_consequence q = SPAWN_OWED" using Cons.prems(3,5) by auto
    note st = spawn_one_steps [OF Cons.prems(1) q]
    have i: "ids_ok (spawn_one q x)" by (rule keeps_ids_ok [OF st(1) Cons.prems(1)])
    have sp: "spawns_ok (spawn_one q x)" by (rule spawn_one_ok [OF Cons.prems(1,2) q])
    have "set rows \<subseteq> set (df_requests (spawn_one q x))"
    proof
      fix r assume r: "r \<in> set rows"
      then have "dq_id r \<in> dq_id ` set rows" by (rule imageI)
      then have "dq_id r \<noteq> dq_id q" using Cons.prems(4) by auto
      then show "r \<in> set (df_requests (spawn_one q x))" using r Cons.prems(3) st(2) by auto
    qed
    then show ?case using Cons.IH [OF i sp] Cons.prems(4,5) by simp
  qed simp
  then show ?thesis unfolding spawn_created_def using assms distinct_rows [OF assms(1)] by simp
qed

lemma spawn_ids_same: "df_lifecycle y = df_lifecycle x \<Longrightarrow> spawn_ids y = spawn_ids x"
  by (simp add: spawn_ids_def)

lemma def_step_requests:
  assumes "def_step resets R x y" and "def_ok x"
  shows "keeps_requests x y \<or> adds_request x y" and "def_ok y"
proof -
  have i: "ids_ok x" using assms(2) by (simp add: def_ok_def)
  have plain: "(keeps_requests x y \<or> adds_request x y) \<and> def_ok y" if "keeps_requests x y" "spawn_ids y = spawn_ids x" for y
    using that keeps_ok assms(2) by blast
  have grown: "(keeps_requests x y \<or> adds_request x y) \<and> def_ok y" if "adds_request x y" for y using that adds_ok assms(2) by blast
  have "(keeps_requests x y \<or> adds_request x y) \<and> def_ok y" using assms(1)
  proof cases
    case push then show ?thesis using keeps_push plain spawn_ids_same by blast
  next
    case admit then show ?thesis using adds_admit [OF i] grown by blast
  next
    case create then show ?thesis using adds_create grown by blast
  next
    case expire then show ?thesis using keeps_expire plain spawn_ids_same lifecycle_keeps(2) by metis
  next
    case claim then show ?thesis using keeps_claim [OF i] plain spawn_ids_same lifecycle_claim by blast
  next
    case report then show ?thesis using keeps_report [OF i] plain spawn_ids_same lifecycle_report by blast
  next
    case (spawn machine)
    have k: "keeps_requests x y" unfolding spawn by (rule keeps_spawn [OF i])
    moreover have "length (open_of a y) \<le> 1" for a using keeps_open [OF k, of a] assms(2) unfolding def_ok_def by (meson le_trans)
    moreover have "spawns_ok y" unfolding spawn using spawn_created_ok [OF i] assms(2) by (simp add: def_ok_def)
    ultimately show ?thesis using keeps_ids_ok [OF k i] by (simp add: def_ok_def)
  next
    case (remove q why)
    have "df_lifecycle y = df_lifecycle x" using remove by (auto simp: remove_agent_def Let_def remove_agent_row_def split: if_splits)
    then show ?thesis using keeps_remove [OF remove] plain spawn_ids_same by blast
  next
    case (settle i why) then show ?thesis using plain [OF keeps_settle] by (simp add: spawn_ids_def settle_removal_def)
  next
    case (failed i now)
    have "keeps_requests x (change_request i (\<lambda>q. q\<lparr>dq_failed := now\<rparr>) x)" by (rule keeps_change_all) (simp add: moves_def open_request_def)
    then show ?thesis unfolding failed by (rule plain) (simp add: spawn_ids_def)
  next
    case (release a machine)
    then have "df_requests y = df_requests x" "df_next y = df_next x" "df_lifecycle y = df_lifecycle x" by (auto simp: release_agent_definition_def split: option.splits if_splits)
    then show ?thesis using plain [OF keeps_same] by (simp add: spawn_ids_def)
  next
    case (reset machine) then show ?thesis using plain [OF keeps_same, of y] by (simp add: spawn_ids_def reset_definition_store_def)
  next
    case (agents ags ts) then show ?thesis using plain [OF keeps_same, of y] by (simp add: spawn_ids_def)
  next
    case (lifecycle l) then show ?thesis using plain [OF keeps_same, of y] by (simp add: spawn_ids_def)
  qed
  then show "keeps_requests x y \<or> adds_request x y" "def_ok y" by blast+
qed

definition no_definitions :: def_db where
  "no_definitions = \<lparr>df_defs = [], df_stores = [], df_retired = [], df_requests = [], df_agents = [], df_tombstones = [], df_lifecycle = [], df_next = 0\<rparr>"

interpretation definitions: invariant_system "\<lambda>x. df_requests x = [] \<and> df_lifecycle x = []" "def_step resets R" def_ok for resets R
proof
  show "df_requests x = [] \<and> df_lifecycle x = [] \<Longrightarrow> def_ok x" for x by (simp add: def_ok_def ids_ok_def open_of_def spawns_ok_def spawn_ids_def)
  show "def_ok x \<Longrightarrow> def_step resets R x y \<Longrightarrow> def_ok y" for x y using def_step_requests(2) by blast
qed

text \<open>C11. One change at a time, one start per creation. In every run of pushes, requests, claims, reports, removals, releases and resets no agent ever has two requests that wait for a host, and no creation
  queues a second spawn.\<close>

theorem one_open_request_per_agent:
  assumes "(def_step resets R)\<^sup>*\<^sup>* x y" and "df_requests x = []" and "df_lifecycle x = []"
  shows "(\<forall>a. length (filter (\<lambda>q. dq_agent q = a \<and> dq_status q \<in> {''pending'', ''claimed''}) (df_requests y)) \<le> 1)
    \<and> distinct (filter (\<lambda>i. take 6 i = ''spawn-'') (map fst (df_lifecycle y)))"
proof -
  have "def_ok y" using definitions.inv_reachable [OF _ assms(1)] assms(2,3) by simp
  moreover have "is_spawn_id = (\<lambda>i. take 6 i = ''spawn-'')" by (rule ext) (simp add: is_spawn_id_def)
  ultimately show ?thesis by (simp add: def_ok_def open_of_def open_request_def OPEN_STATUSES_def spawns_ok_def spawn_ids_def)
qed

subsection \<open>An answer is final\<close>

lemma request_survives_step:
  assumes "def_step resets R x y" and "def_ok x" and "q \<in> set (df_requests x)"
  shows "\<exists>q' \<in> set (df_requests y). moves q q'"
proof -
  have k: "\<exists>q' \<in> set (df_requests z). moves q q'" if z: "keeps_requests x z" for z
  proof -
    obtain f where "df_requests z = map f (df_requests x)" "\<forall>q \<in> set (df_requests x). moves q (f q)" using z unfolding keeps_requests_def by blast
    then show ?thesis using assms(3) by auto
  qed
  from def_step_requests(1) [OF assms(1,2)] show ?thesis
  proof
    assume "adds_request x y"
    then obtain z new where "keeps_requests x z" "df_requests y = df_requests z @ [new]" unfolding adds_request_def by blast
    then show ?thesis using k by auto
  qed (rule k)
qed

lemma request_survives:
  assumes "(def_step resets R)\<^sup>*\<^sup>* x y" and "def_ok x" and "q \<in> set (df_requests x)"
  shows "\<exists>q' \<in> set (df_requests y). moves q q'"
  using assms(1)
proof (induction rule: rtranclp_induct)
  case base show ?case using assms(3) same_moves by blast
next
  case (step y z)
  then obtain q' where q': "q' \<in> set (df_requests y)" "moves q q'" by blast
  have "def_ok y" by (rule definitions.inv_run [OF step(1) assms(2)])
  from request_survives_step [OF step(2) this q'(1)] q'(2) show ?case using moves_trans by blast
qed

text \<open>C24. An answered request keeps its answer. Once a request is done, refused or expired, no later report, claim, push or sweep changes its status or the lifetime and revision it left, and a
  settled consequence is never rewritten.\<close>

theorem answered_request_keeps_its_answer:
  assumes "(def_step resets R)\<^sup>*\<^sup>* x y" and "def_ok x" and "q \<in> set (df_requests x)" and "dq_status q \<in> {''done'', ''refused'', ''expired''}"
  shows "\<exists>q' \<in> set (df_requests y). dq_id q' = dq_id q \<and> dq_status q' = dq_status q \<and> dq_result q' = dq_result q
    \<and> (dq_consequence q \<in> {''pending'', ''spawn pending''} \<or> dq_consequence q' = dq_consequence q)"
proof -
  obtain q' where q': "q' \<in> set (df_requests y)" "moves q q'" using request_survives [OF assms(1-3)] by blast
  have "dq_status q \<in> set FINISHED" using assms(4) by (auto simp: FINISHED_def)
  then show ?thesis using q' by (intro bexI [of _ q']) (auto simp: moves_def SPAWN_OWED_def)
qed

subsection \<open>A removed lifetime stays removed\<close>

lemma removed_incarnation_ge: "q \<in> set (df_requests x) \<Longrightarrow> took a st q \<Longrightarrow> dq_inc q \<le> removed_incarnation a st x"
proof -
  assume q: "q \<in> set (df_requests x)" "took a st q"
  have start: "n \<le> fold max ns n" for n :: int and ns
  proof (induction ns arbitrary: n)
    case (Cons a ns) show ?case using order_trans [OF max.cobounded2 [of n a] Cons [of "max a n"]] by simp
  qed simp
  have fold_ge: "m \<in> set ns \<Longrightarrow> m \<le> fold max ns n" for m n :: int and ns
  proof (induction ns arbitrary: n)
    case (Cons a ns) then show ?case using order_trans [OF max.cobounded1 [of a n] start] by auto
  qed simp
  have "dq_inc q \<in> set (map dq_inc (filter (took a st) (df_requests x)))" using q by simp
  then obtain n ns where l: "map dq_inc (filter (took a st) (df_requests x)) = n # ns" "dq_inc q = n \<or> dq_inc q \<in> set ns" by (cases "map dq_inc (filter (took a st) (df_requests x))") auto
  then have "dq_inc q \<le> fold max ns n" using l(2) start [of n ns] fold_ge [of "dq_inc q" ns n] by auto
  then show ?thesis unfolding removed_incarnation_def l(1) by simp
qed

lemma refusal_of_requests: "df_requests y = df_requests x \<Longrightarrow> id_refusal_of a inc owner machine store y = id_refusal_of a inc owner machine store x"
  by (simp add: id_refusal_of_def removed_incarnation_def)

text \<open>What is refused at the start of a pass is refused when its turn comes: the pass does not write the requests.\<close>

lemma refused_entry:
  assumes "id_refusal_of (en_id e) (entry_inc e) (map_option dn_machine (map_of own (en_id e))) machine store x \<noteq> None" and "e \<in> set es" and "distinct (map en_id es)"
    and "df_requests (snd s) = df_requests x" and "en_id e \<notin> set (pr_applied (fst s))"
  shows "en_id e \<in> fst ` set (pr_refused (fst (fold (apply_entry own machine store) es s))) \<and> en_id e \<notin> set (pr_applied (fst (fold (apply_entry own machine store) es s)))"
proof -
  let ?a = "apply_entry own machine store"
  have rq: "df_requests (snd (?a z s)) = df_requests (snd s)" for z s using frame_entry [of s own machine store z] by (simp add: same_frame_def)
  have grow: "b \<in> fst ` set (pr_refused (fst s)) \<Longrightarrow> b \<in> fst ` set (pr_refused (fst (?a z s)))" for b z s
    by (cases s) (auto simp: apply_entry_def Let_def split: option.split)
  have other: "en_id z \<noteq> b \<Longrightarrow> b \<in> set (pr_applied (fst (?a z s))) \<Longrightarrow> b \<in> set (pr_applied (fst s))" for b z s
    by (cases s) (auto simp: apply_entry_def Let_def split: option.splits if_splits)
  have later: "en_id e \<in> fst ` set (pr_refused (fst s)) \<Longrightarrow> en_id e \<notin> set (pr_applied (fst s)) \<Longrightarrow> en_id e \<notin> set (map en_id zs) \<Longrightarrow>
      en_id e \<in> fst ` set (pr_refused (fst (fold ?a zs s))) \<and> en_id e \<notin> set (pr_applied (fst (fold ?a zs s)))" for zs s
  proof (induction zs arbitrary: s)
    case (Cons z zs)
    have "en_id e \<in> fst ` set (pr_refused (fst (?a z s)))" by (rule grow [OF Cons.prems(1)])
    moreover have "en_id e \<notin> set (pr_applied (fst (?a z s)))" using other [of z "en_id e" s] Cons.prems(2,3) by auto
    ultimately show ?case using Cons.IH Cons.prems(3) by simp
  qed simp
  show ?thesis using assms(2-5)
  proof (induction es arbitrary: s)
    case (Cons z zs)
    show ?case
    proof (cases "z = e")
      case True
      have "id_refusal_of (en_id e) (entry_inc e) (map_option dn_machine (map_of own (en_id e))) machine store (snd s) \<noteq> None"
        using assms(1) refusal_of_requests [OF Cons.prems(3)] by simp
      then have "en_id e \<in> fst ` set (pr_refused (fst (?a e s)))" "pr_applied (fst (?a e s)) = pr_applied (fst s)" by (cases s, auto simp: apply_entry_def Let_def)+
      then show ?thesis using later [of "?a e s" zs] True Cons.prems(2,4) by simp
    next
      case False
      then have e: "e \<in> set zs" using Cons.prems(1) by simp
      then have "en_id z \<noteq> en_id e" using Cons.prems(2) by (metis distinct.simps(2) image_eqI list.map(2) set_map)
      then have "en_id e \<notin> set (pr_applied (fst (?a z s)))" using other Cons.prems(4) by blast
      then show ?thesis using Cons.IH [OF e] Cons.prems(2,3) rq by simp
    qed
  qed simp
qed

lemma withdraw_answers: "pr_refused (fst (fold (withdraw machine) os s)) = pr_refused (fst s) \<and> pr_applied (fst (fold (withdraw machine) os s)) = pr_applied (fst s)"
proof (induction os arbitrary: s)
  case (Cons od os) then show ?case by (cases s; cases od) (simp add: withdraw_def)
qed simp

text \<open>C8. A removed lifetime is not defined again. Once a host has removed an agent and the removal has been carried out here, no later push of that store defines the agent, under any spelling of its id, at the
  removed lifetime or an older one: the push is taken and the entry is named among its refusals.\<close>

theorem removed_lifetime_is_not_defined_again:
  assumes "q \<in> set (df_requests x)" and "dq_status q = ''done''" and "dq_consequence q = ''removed''" and "is_removal (dq_patch q)" and "1 \<le> dq_inc q"
    and "def_ok x" and "(def_step resets R)\<^sup>*\<^sup>* x y"
    and "apply_definition_push R environment p y = (Inr (Applied r), z)" and "py_strip (pu_store p) = dq_store q"
    and "e \<in> set (pu_entries p)" and "nocase (en_id e) = nocase (dq_agent q)" and "entry_inc e \<le> dq_inc q"
  shows "en_id e \<in> fst ` set (pr_refused r) \<and> en_id e \<notin> set (pr_applied r)"
  using assms(8)
proof (cases rule: push_cases)
  case 1 from 1(7) [of r] show ?thesis by simp
next
  case (2 y0 b)
  let ?m = "py_strip (pu_machine p)" and ?s = "py_strip (pu_store p)"
  from 2(1) obtain r' y1 where s: "b = Applied r'" "apply_entries ?m ?s (pu_entries p) y1 = (r', z\<lparr>df_stores := df_stores y1\<rparr>)" "y1 = y0\<lparr>df_stores := df_stores y1\<rparr>"
    by (rule stored_snapshot)
  have "df_requests y1 = df_requests y0" using s(3) by (metis def_db.ext_inject def_db.surjective def_db.update_convs(2))
  then have rq: "df_requests y1 = df_requests y" using 2(8) by auto
  obtain q' where q': "q' \<in> set (df_requests y)" "moves q q'" using request_survives [OF assms(7,6,1)] by blast
  have "took (en_id e) ?s q'" "dq_inc q' = dq_inc q"
    using q'(2) assms(2-4,9,11) by (simp_all add: took_def moves_def FINISHED_def SPAWN_OWED_def is_removal_def jget_def)
  then have "dq_inc q \<le> removed_incarnation (en_id e) ?s y1" using removed_incarnation_ge [of q' y1] q'(1) rq by simp
  then have "id_refusal_of (en_id e) (entry_inc e) (map_option dn_machine (map_of (df_defs y1) (en_id e))) ?m ?s y1 \<noteq> None"
    using assms(5,12) by (simp add: id_refusal_of_def Let_def)
  note f = refused_entry [OF this assms(10)]
  have "distinct (map en_id (pu_entries p))" using 2(7) by (simp add: snapshot_ok_def)
  from f [OF this, where s = "(\<lparr>pr_applied = [], pr_kept = [], pr_withdrawn = [], pr_refused = [], pr_invalid = []\<rparr>, y1)"]
  have "en_id e \<in> fst ` set (pr_refused r') \<and> en_id e \<notin> set (pr_applied r')"
    using s(2) withdraw_answers unfolding apply_entries_def Let_def by (simp add: withdraw_answers) (metis fst_conv withdraw_answers)
  then show ?thesis using s(1) 2(2) by simp
qed

subsection \<open>A store never goes back\<close>

text \<open>Per machine: the retired stores only grow, and the current store keeps its revision or moves up, until it is retired.\<close>

definition stores_kept :: "def_db \<Rightarrow> def_db \<Rightarrow> bool" where
  "stores_kept x y = (\<forall>m. retired_stores m x \<subseteq> retired_stores m y
     \<and> (\<forall>c. map_of (df_stores x) m = Some c \<longrightarrow> (\<exists>c'. map_of (df_stores y) m = Some c' \<and> (sr_store c' = sr_store c \<and> sr_rev c \<le> sr_rev c' \<or> sr_store c \<in> retired_stores m y))))"

lemma stores_kept_same: "df_stores y = df_stores x \<Longrightarrow> df_retired y = df_retired x \<Longrightarrow> stores_kept x y"
  by (auto simp: stores_kept_def retired_stores_def)

lemma stores_kept_trans:
  assumes "stores_kept x y" and "stores_kept y z"
  shows "stores_kept x z"
  unfolding stores_kept_def
proof (intro allI conjI impI)
  fix m c
  show "retired_stores m x \<subseteq> retired_stores m z" using assms unfolding stores_kept_def by (meson subset_trans)
  assume "map_of (df_stores x) m = Some c"
  then obtain c1 where c1: "map_of (df_stores y) m = Some c1" "sr_store c1 = sr_store c \<and> sr_rev c \<le> sr_rev c1 \<or> sr_store c \<in> retired_stores m y" using assms(1) unfolding stores_kept_def by meson
  then obtain c2 where c2: "map_of (df_stores z) m = Some c2" "sr_store c2 = sr_store c1 \<and> sr_rev c1 \<le> sr_rev c2 \<or> sr_store c1 \<in> retired_stores m z" using assms(2) unfolding stores_kept_def by meson
  have "retired_stores m y \<subseteq> retired_stores m z" using assms(2) unfolding stores_kept_def by meson
  then show "\<exists>c'. map_of (df_stores z) m = Some c' \<and> (sr_store c' = sr_store c \<and> sr_rev c \<le> sr_rev c' \<or> sr_store c \<in> retired_stores m z)" using c1(2) c2 by auto
qed

lemma stores_kept_push:
  assumes "apply_definition_push R environment p x = (ans, y)"
  shows "stores_kept x y"
  using assms
proof (cases rule: push_cases)
  case 1 then show ?thesis by (auto simp: stores_kept_def)
next
  case (2 x0 b)
  let ?m = "py_strip (pu_machine p)" and ?s = "py_strip (pu_store p)"
  from 2(1) show ?thesis
  proof (rule stored_snapshot)
    fix r assume s: "df_retired y = df_retired x0"
      "map_of (df_stores y) ?m = Some \<lparr>sr_store = ?s, sr_rev = pu_rev p, sr_digest = pu_digest p, sr_outcome = Some (map fst (pr_refused r), pr_invalid r, pr_kept r)\<rparr>"
      "\<And>k. k \<noteq> ?m \<Longrightarrow> map_of (df_stores y) k = map_of (df_stores x0) k"
    have ret: "retired_stores k y = retired_stores k x0" for k using s(1) by (simp add: retired_stores_def)
    have at: "map_of (df_stores x) ?m = Some c \<Longrightarrow> sr_store c = ?s \<and> sr_rev c \<le> pu_rev p \<or> sr_store c \<in> retired_stores ?m y" for c
      using 2(8) ret by (auto simp: retired_retire)
    have "retired_stores k x \<subseteq> retired_stores k y" "df_stores x0 = df_stores x" for k using 2(8) ret by (auto simp: retired_retire)
    moreover have "\<exists>c'. map_of (df_stores y) k = Some c' \<and> (sr_store c' = sr_store c \<and> sr_rev c \<le> sr_rev c' \<or> sr_store c \<in> retired_stores k y)" if "map_of (df_stores x) k = Some c" for k c
      using that at [of c] s(2) s(3) [of k] \<open>df_stores x0 = df_stores x\<close> by (cases "k = ?m") (simp, metis, simp)
    ultimately show ?thesis unfolding stores_kept_def by blast
  qed
qed

lemma stores_change [simp]: "df_stores (change_request i f x) = df_stores x" "df_retired (change_request i f x) = df_retired x"
  "df_stores (expire_unclaimed now x) = df_stores x" "df_retired (expire_unclaimed now x) = df_retired x"
  by (simp_all add: change_request_def expire_unclaimed_def)

lemma stores_fold:
  assumes "\<And>q s. df_stores (g (h q s)) = df_stores (g s) \<and> df_retired (g (h q s)) = df_retired (g s)"
  shows "df_stores (g (fold h qs s)) = df_stores (g s) \<and> df_retired (g (fold h qs s)) = df_retired (g s)"
  using assms by (induction qs arbitrary: s) simp_all

lemma stores_undeliverable: "df_stores (refuse_undeliverable a own now x) = df_stores x \<and> df_retired (refuse_undeliverable a own now x) = df_retired x"
  unfolding refuse_undeliverable_def by (rule stores_fold [where g = "\<lambda>y. y"]) simp

lemma stores_claim: "claim_requests environment bridge machine now x = Inr (ids, y) \<Longrightarrow> df_stores y = df_stores x \<and> df_retired y = df_retired x"
proof -
  assume a: "claim_requests environment bridge machine now x = Inr (ids, y)"
  have "df_stores (snd (hand_out st now q s)) = df_stores (snd s) \<and> df_retired (snd (hand_out st now q s)) = df_retired (snd s)" for st q s by (cases s) (simp add: hand_out_def)
  then have "df_stores (snd (fold (hand_out st now) rows s)) = df_stores (snd s) \<and> df_retired (snd (fold (hand_out st now) rows s)) = df_retired (snd s)" for st rows s by (rule stores_fold)
  then show ?thesis using a unfolding claim_requests_def Let_def by (auto split: option.splits dest!: arg_cong [where f = snd])
qed

lemma stores_spawn: "df_stores (spawn_created machine x) = df_stores x \<and> df_retired (spawn_created machine x) = df_retired x"
  unfolding spawn_created_def by (rule stores_fold [where g = "\<lambda>y. y"]) (simp add: spawn_one_def Let_def queue_lifecycle_def split: option.split)

lemma stores_kept_step:
  assumes "def_step False R x y"
  shows "stores_kept x y"
  using assms
proof cases
  case push then show ?thesis by (rule stores_kept_push)
next
  case admit then show ?thesis using stores_undeliverable by (intro stores_kept_same) (auto simp: admit_def Let_def new_request_def split: option.splits if_splits)
next
  case create then show ?thesis by (intro stores_kept_same) (auto simp: admit_creation_def Let_def new_request_def split: option.splits if_splits)
next
  case claim then show ?thesis using stores_claim stores_kept_same by blast
next
  case report then show ?thesis by (intro stores_kept_same) (auto simp: report_request_def Let_def split: option.splits if_splits)
next
  case spawn then show ?thesis using stores_spawn stores_kept_same by blast
next
  case remove then show ?thesis by (intro stores_kept_same) (auto simp: remove_agent_def Let_def remove_agent_row_def split: if_splits)
next
  case release then show ?thesis by (intro stores_kept_same) (auto simp: release_agent_definition_def split: option.splits if_splits)
qed (simp_all add: stores_kept_same settle_removal_def)

text \<open>A store never goes back. Unless the operator resets the machine, the store a machine's definitions come from keeps its revision or moves up until another replaces it, and from then on
  no push of it is taken.\<close>

theorem store_never_goes_back:
  assumes "(def_step False R)\<^sup>*\<^sup>* x y" and "map_of (df_stores x) (py_strip (pu_machine p)) = Some c" and "sr_store c = py_strip (pu_store p)"
    and "apply_definition_push R environment p y = (Inr (Applied r), z)"
  shows "sr_rev c < pu_rev p \<and> current_store (py_strip (pu_machine p)) y = py_strip (pu_store p)"
proof -
  let ?m = "py_strip (pu_machine p)" and ?s = "py_strip (pu_store p)"
  from assms(1) have "stores_kept x y"
  proof (induction rule: rtranclp_induct)
    case base show ?case by (rule stores_kept_same) simp_all
  next
    case (step y z) then show ?case using stores_kept_trans stores_kept_step by blast
  qed
  then obtain c' where c': "map_of (df_stores y) ?m = Some c'" "sr_store c' = ?s \<and> sr_rev c \<le> sr_rev c' \<or> ?s \<in> retired_stores ?m y" using assms(2,3) unfolding stores_kept_def by metis
  from assms(4) show ?thesis
  proof (cases rule: push_cases)
    case 1 from 1(7) [of r] show ?thesis by simp
  next
    case (2 y0 b)
    then show ?thesis using c' by (auto simp: current_store_def)
  qed
qed

subsection \<open>A run of the definitions\<close>

text \<open>A host pushes one agent; the operator asks for its removal; the host claims the request, applies it and reports; the removal is carried out and settled.\<close>

definition demo_rules :: def_rules where
  "demo_rules = \<lparr>dp_admits = (\<lambda>_. True), dp_digest = (\<lambda>_. ''d''), dp_expiry = (\<lambda>_. ''9'')\<rparr>"

definition demo_entry :: "string \<Rightarrow> def_entry" where
  "demo_entry a = \<lparr>en_id = a, en_valid = True, en_inc = 1, en_rev = 1, en_digest = ''d'', en_available = True, en_reason = [], en_problems = []\<rparr>"

definition demo_push :: "string \<Rightarrow> string \<Rightarrow> int \<Rightarrow> string \<Rightarrow> def_push" where
  "demo_push b m rv a = \<lparr>pu_bridge = b, pu_machine = m, pu_store = ''s1'', pu_rev = rv, pu_digest = ''d'', pu_entries = [demo_entry a]\<rparr>"

definition demo_removal :: json where "demo_removal = JObj [(''remove'', JBool True)]"

definition demo_defined :: def_db where
  "demo_defined = snd (apply_definition_push demo_rules (Some (''b1'', ''m1'')) (demo_push ''b1'' ''m1'' 1 ''ann'') no_definitions)"

definition demo_asked :: def_db where
  "demo_asked = snd (projr (admit demo_rules ''ann'' demo_removal (Some ''dashboard'') ''1'' demo_defined))"

definition demo_taken :: def_db where
  "demo_taken = snd (projr (claim_requests (Some (''b1'', ''m1'')) ''b1'' ''m1'' ''2'' demo_asked))"

definition demo_reported :: def_db where
  "demo_reported = projr (report_request (Some (''b1'', ''m1'')) ''defreq_0'' \<lparr>dr_bridge = ''b1'', dr_machine = ''m1'', dr_status = ''done'', dr_result = Some (1, 1)\<rparr> ''3'' demo_taken)"

definition demo_gone :: def_db where
  "demo_gone = snd (remove_agent (hd (df_requests demo_reported)) demo_reported)"

definition demo_settled :: def_db where
  "demo_settled = settle_removal ''defreq_0'' [] demo_gone"

lemma two_steps: "def_step resets R x y \<Longrightarrow> def_step resets R y z \<Longrightarrow> (def_step resets R)\<^sup>*\<^sup>* x z"
  by (rule converse_rtranclp_into_rtranclp [OF _ r_into_rtranclp])

lemma demo_run: "(def_step resets demo_rules)\<^sup>*\<^sup>* no_definitions demo_asked" "(def_step resets demo_rules)\<^sup>*\<^sup>* demo_asked demo_reported" "(def_step resets demo_rules)\<^sup>*\<^sup>* demo_reported demo_settled"
proof -
  have a: "def_step resets demo_rules no_definitions demo_defined" unfolding demo_defined_def by (rule def_step.push) (rule surjective_pairing)
  have "admit demo_rules ''ann'' demo_removal (Some ''dashboard'') ''1'' demo_defined = Inr (hd (df_requests demo_asked), demo_asked)" by code_simp
  then show "(def_step resets demo_rules)\<^sup>*\<^sup>* no_definitions demo_asked" by (intro two_steps [OF a] def_step.admit)
  have c: "claim_requests (Some (''b1'', ''m1'')) ''b1'' ''m1'' ''2'' demo_asked = Inr ([''defreq_0''], demo_taken)" by code_simp
  have "report_request (Some (''b1'', ''m1'')) ''defreq_0'' \<lparr>dr_bridge = ''b1'', dr_machine = ''m1'', dr_status = ''done'', dr_result = Some (1, 1)\<rparr> ''3'' demo_taken = Inr demo_reported" by code_simp
  then show "(def_step resets demo_rules)\<^sup>*\<^sup>* demo_asked demo_reported" by (intro two_steps [OF def_step.claim [OF c]] def_step.report)
  have "remove_agent (hd (df_requests demo_reported)) demo_reported = (fst (remove_agent (hd (df_requests demo_reported)) demo_reported), demo_gone)" unfolding demo_gone_def by (rule surjective_pairing)
  then show "(def_step resets demo_rules)\<^sup>*\<^sup>* demo_reported demo_settled" unfolding demo_settled_def by (intro two_steps [OF def_step.remove def_step.settle])
qed

theorem definition_stays_with_its_machine_witness:
  "fst (apply_definition_push demo_rules (Some (''b2'', ''m2'')) (demo_push ''b2'' ''m2'' 1 ''ann'') demo_defined)
     = Inr (Applied \<lparr>pr_applied = [], pr_kept = [], pr_withdrawn = [], pr_refused = [(''ann'', Defined_On ''m1'')], pr_invalid = []\<rparr>)
   \<and> map_of (df_defs (snd (apply_definition_push demo_rules (Some (''b2'', ''m2'')) (demo_push ''b2'' ''m2'' 1 ''ann'') demo_defined))) ''ann'' = Some (snd (hd (df_defs demo_defined)))"
proof
  show "map_of (df_defs (snd (apply_definition_push demo_rules (Some (''b2'', ''m2'')) (demo_push ''b2'' ''m2'' 1 ''ann'') demo_defined))) ''ann'' = Some (snd (hd (df_defs demo_defined)))"
    by (rule definition_stays_with_its_machine [OF surjective_pairing]) code_simp+
qed code_simp

theorem repeated_push_is_a_replay_witness:
  "\<exists>l. apply_definition_push demo_rules (Some (''b1'', ''m1'')) (demo_push ''b1'' ''m1'' 1 ''ann'') demo_defined = (Inr (Replayed l [] [] True), demo_defined) \<and> l = []"
proof -
  have "apply_definition_push demo_rules (Some (''b1'', ''m1'')) (demo_push ''b1'' ''m1'' 1 ''ann'') no_definitions
      = (Inr (Applied \<lparr>pr_applied = [''ann''], pr_kept = [], pr_withdrawn = [], pr_refused = [], pr_invalid = []\<rparr>), demo_defined)" by code_simp
  from repeated_push_is_a_replay [OF this] show ?thesis by simp
qed

theorem one_open_request_per_agent_witness:
  "length (filter (\<lambda>q. dq_agent q = ''ann'' \<and> dq_status q \<in> {''pending'', ''claimed''}) (df_requests demo_asked)) \<le> 1 \<and> map dq_status (df_requests demo_asked) = [''pending'']"
proof
  have e: "df_requests no_definitions = []" "df_lifecycle no_definitions = []" by (simp_all add: no_definitions_def)
  from one_open_request_per_agent [OF demo_run(1) [of True] e]
  show "length (filter (\<lambda>q. dq_agent q = ''ann'' \<and> dq_status q \<in> {''pending'', ''claimed''}) (df_requests demo_asked)) \<le> 1" by blast
qed code_simp

lemma demo_ok: "def_ok demo_asked" "def_ok demo_reported" "def_ok demo_settled"
proof -
  have "def_ok no_definitions" by (simp add: no_definitions_def def_ok_def ids_ok_def open_of_def spawns_ok_def spawn_ids_def)
  then show a: "def_ok demo_asked" using definitions.inv_run [OF demo_run(1) [of True]] by blast
  then show b: "def_ok demo_reported" using definitions.inv_run [OF demo_run(2) [of True]] by blast
  then show "def_ok demo_settled" using definitions.inv_run [OF demo_run(3) [of True]] by blast
qed

theorem answered_request_keeps_its_answer_witness:
  "\<exists>q \<in> set (df_requests demo_settled). dq_id q = ''defreq_0'' \<and> dq_status q = ''done'' \<and> dq_result q = Some (1, 1)"
proof -
  have h: "hd (df_requests demo_reported) \<in> set (df_requests demo_reported)" "dq_status (hd (df_requests demo_reported)) \<in> {''done'', ''refused'', ''expired''}" by code_simp+
  have v: "dq_id (hd (df_requests demo_reported)) = ''defreq_0''" "dq_status (hd (df_requests demo_reported)) = ''done''" "dq_result (hd (df_requests demo_reported)) = Some (1, 1)" by code_simp+
  from answered_request_keeps_its_answer [OF demo_run(3) [of True] demo_ok(2) h] show ?thesis unfolding v by blast
qed

theorem removed_lifetime_is_not_defined_again_witness:
  "fst (apply_definition_push demo_rules (Some (''b1'', ''m1'')) (demo_push ''b1'' ''m1'' 2 ''Ann'') demo_settled)
     = Inr (Applied \<lparr>pr_applied = [], pr_kept = [], pr_withdrawn = [''ann''], pr_refused = [(''Ann'', Removed_Lifetime 1)], pr_invalid = []\<rparr>)
   \<and> ''Ann'' \<in> fst ` set [(''Ann'', Removed_Lifetime 1)]"
proof
  let ?p = "demo_push ''b1'' ''m1'' 2 ''Ann''" and ?r = "\<lparr>pr_applied = [], pr_kept = [], pr_withdrawn = [''ann''], pr_refused = [(''Ann'', Removed_Lifetime 1)], pr_invalid = []\<rparr>"
  let ?q = "hd (df_requests demo_settled)"
  show f: "fst (apply_definition_push demo_rules (Some (''b1'', ''m1'')) ?p demo_settled) = Inr (Applied ?r)" by code_simp
  have q: "?q \<in> set (df_requests demo_settled)" "dq_status ?q = ''done''" "dq_consequence ?q = ''removed''" "is_removal (dq_patch ?q)" "1 \<le> dq_inc ?q" by code_simp+
  have p: "apply_definition_push demo_rules (Some (''b1'', ''m1'')) ?p demo_settled = (Inr (Applied ?r), snd (apply_definition_push demo_rules (Some (''b1'', ''m1'')) ?p demo_settled))"
    using f by (metis surjective_pairing)
  have e: "py_strip (pu_store ?p) = dq_store ?q" "demo_entry ''Ann'' \<in> set (pu_entries ?p)" "nocase (en_id (demo_entry ''Ann'')) = nocase (dq_agent ?q)" "entry_inc (demo_entry ''Ann'') \<le> dq_inc ?q" by code_simp+
  have "en_id (demo_entry ''Ann'') \<in> fst ` set (pr_refused ?r) \<and> en_id (demo_entry ''Ann'') \<notin> set (pr_applied ?r)"
    by (rule removed_lifetime_is_not_defined_again [OF q demo_ok(3) rtranclp.rtrancl_refl [of "def_step True demo_rules"] p e])
  then show "''Ann'' \<in> fst ` set [(''Ann'', Removed_Lifetime 1)]" by (simp add: demo_entry_def)
qed

theorem store_never_goes_back_witness:
  "sr_rev (snd (hd (df_stores demo_asked))) < 2 \<and> current_store ''m1'' demo_reported = ''s1''
   \<and> fst (apply_definition_push demo_rules (Some (''b1'', ''m1'')) (demo_push ''b1'' ''m1'' 2 ''bob'') demo_reported)
       = Inr (Applied \<lparr>pr_applied = [''bob''], pr_kept = [], pr_withdrawn = [''ann''], pr_refused = [], pr_invalid = []\<rparr>)"
proof -
  let ?p = "demo_push ''b1'' ''m1'' 2 ''bob''" and ?r = "\<lparr>pr_applied = [''bob''], pr_kept = [], pr_withdrawn = [''ann''], pr_refused = [], pr_invalid = []\<rparr>"
  have f: "fst (apply_definition_push demo_rules (Some (''b1'', ''m1'')) ?p demo_reported) = Inr (Applied ?r)" by code_simp
  have p: "apply_definition_push demo_rules (Some (''b1'', ''m1'')) ?p demo_reported = (Inr (Applied ?r), snd (apply_definition_push demo_rules (Some (''b1'', ''m1'')) ?p demo_reported))"
    using f by (metis surjective_pairing)
  have c: "map_of (df_stores demo_asked) (py_strip (pu_machine ?p)) = Some (snd (hd (df_stores demo_asked)))" "sr_store (snd (hd (df_stores demo_asked))) = py_strip (pu_store ?p)" by code_simp+
  have "pu_rev ?p = 2" "py_strip (pu_machine ?p) = ''m1''" "py_strip (pu_store ?p) = ''s1''" by code_simp+
  then show ?thesis using store_never_goes_back [OF demo_run(2) [of False] c p] f by simp
qed

end
