(* ===== verification/Spec2Isabelle.thy ===== *)
theory Spec2Isabelle
  imports QueueLiveness DbPool Publication LongPoll Workspace BrowserOrigin SendNonce TerminalControls RunWriters Definitions
begin

text \<open>
  Verification of the aify-comms service (\<open>src/service\<close>), the hub through which coding agents on several hosts
  exchange messages, are woken with work, and show their terminals.

  \<^bold>\<open>The program and its parts.\<close> Hosts post terminal output; it is batched (\<open>terminal_write_queue.py\<close>) and written with
  a held in-memory tail and a live screen (\<open>terminal_output.py\<close>, \<open>terminal_tail_buffer.py\<close>, \<open>terminal_snapshot.py\<close>). All
  statements go through a connection pool (\<open>db_pool.py\<close>), whose commits feed the announcements of
  \<open>change_feed.py\<close>; the claim routes wait for them (\<open>longpoll.py\<close>). Hosts also publish what they know of their agents;
  publications are validated and applied in order (\<open>agent_state_ingest.py\<close>), kept in a mirror
  (\<open>agent_state_mirror.py\<close>) and read through one view (\<open>operational_view.py\<close>). A message is stored once
  (\<open>send_nonce.py\<close>); one that asks for work becomes a dispatch run (\<open>dispatch_runs.py\<close>), buffered in one text
  with others of its sender (\<open>dispatch_text.py\<close>, \<open>dispatch_buffer.py\<close>), and is claimed by a bridge
  (\<open>dispatch_claim.py\<close>) if the view says that the agent may be given it, or typed into its console
  (\<open>console_input_queue.py\<close>). The bridge reports on the run (\<open>routers/dispatch_messages/dispatch.py\<close>), and sweeps
  repair runs nobody will report on (\<open>reconcilers/\<close>). A machine's environments beat (\<open>environment_beat.py\<close>), one
  bridge per environment is its claimer (\<open>environment_claim.py\<close>), and it claims the spawns, the controls and the
  terminal controls of its environment (\<open>spawn_requests.py\<close>, \<open>environments.py\<close>, \<open>terminal_controls_io.py\<close>). A host
  also defines agents: it pushes snapshots (\<open>definition_push.py\<close>) and applies the operator's requests to change them
  (\<open>definition_requests.py\<close>).

  \<^bold>\<open>Theories.\<close>
  \<^item> \<open>Prelude\<close>: dicts as association lists, Python's string helpers, and the interfaces: \<open>keyed_store\<close> (a dict),
    \<open>snapshot_store\<close> (undoing one entry), \<open>invariant_system\<close> and \<open>monotone_system\<close> (step relations).
  \<^item> \<open>TerminalStatus\<close>, \<open>TailBuffer\<close>, \<open>LiveScreen\<close>, \<open>TerminalEvents\<close>, \<open>TerminalOutput\<close>: one terminal write, on a database record
    \<open>tdb\<close> and a process memory \<open>tmem\<close>, with a fault at each statement. The locale \<open>tail_writer\<close> is the contract of a write;
    under it any sequence of writes refines a log of the chunks that landed.
  \<^item> \<open>WriteQueue\<close>, \<open>QueueOrder\<close>, \<open>QueueLiveness\<close>: the queue, its timers and drains as step relations; numbers name one batch,
    output is written in order, backlogs are bounded, a flush of everything ends, a pending batch has a timer. Three
    theorems show what happens when two drains of a terminal overlap, or a reader's flush is refused.
  \<^item> \<open>ChangeFeed\<close>, \<open>DbPool\<close>: every committed change is announced without gaps and within its window; a connection handed out
    is as good as new; a commit reports exactly its writes, with one exception shown for scripts.
  \<^item> \<open>Json\<close>, \<open>Publication\<close>, \<open>StateMirror\<close>, \<open>StateIngest\<close>: documents are refused or typed, applied at most once and in order,
    and a complete mirror is the saved state, through failures and restarts.
  \<^item> \<open>OperationalView\<close>: availability, the holders of an agent and the gates; the claim gate proceeds only when every host
    that knows the agent says it is idle, and lets a steer through only to an agent that is known to be busy.
  \<^item> \<open>UText\<close>, \<open>DispatchText\<close>: text as code points, and the buffer of pending items: what was merged is read back, and
    text that was neutralised cannot pass for the buffer's own lines, except for an indented first line. A type with a line
    break can, as a theorem shows.
  \<^item> \<open>Runtime\<close>: runtime names, adapters, capabilities, the execution mode, machine identities.
  \<^item> \<open>DispatchRuns\<close>: the run tables and every operation on them; a send is carried by a run or a control whatever is claimed
    in between, many-agent and chunked statements equal their plain forms, releasing a claim's receipts undoes the claim.
  \<^item> \<open>ClaimBlock\<close>: the chain of reasons for which a bridge may not claim, and the reading of a resuming console.
  \<^item> \<open>DispatchClaim\<close>: one attempt to claim, and the run tables under sends, claims and what ends or requeues a run as a step
    relation: no step gives an agent a second active run, and a claim hands out a queued run once, to a bridge that is not superseded.
  \<^item> \<open>SendNonce\<close>: storing a message under its nonce; a retry answers the first message's id, and another message under the same
    nonce is a conflict as long as the digest separates the two.
  \<^item> \<open>Bridges\<close>: the environments' liveness, who owns an agent, and the registration of a bridge with the gate in front:
    one driver is left, and the owner of an agent changes only to a live environment.
  \<^item> \<open>RunPatch\<close>: the bridge's report on a run and the settlement of ended runs (mirrored handoff, dashboard reply, steered
    contracts), as further steps of the run tables: an ended run keeps its outcome.
  \<^item> \<open>DispatchSweeps\<close>: the sweeps over runs, receipts and controls, and the failure block of a pass, with whatever is written
    between its steps; a run that the block gives back is not failed by it, the backstop fails
    exactly the runs nobody can claim. A lemma shows the one sweep that overwrites a completion.
  \<^item> \<open>RunWriters\<close>: the remaining writers of the run table (ended and idle terminals, removals, stops, inbox reads, deletions,
    routing, renames, audits) and all writers together: an agent has one active run, as long as the console begins no turn beside
    one. A theorem shows that the delivery to a console does not see to that itself.
  \<^item> \<open>LongPoll\<close>: the bus of changes, the wait and the loop of a held claim as a step relation: the answer of the last
    attempt is returned, and the waiting is bounded. An attempt that fails after its commit leaves no answer; a theorem shows the run it loses. \<open>ConsoleInput\<close>: the text of a delivery stays inside its bracketed
    paste. \<open>Workspace\<close>: the check of a workspace is containment in a root. \<open>BrowserOrigin\<close>: the guard against
    other sites' pages, a rebound name included.
  \<^item> \<open>SpawnRequests\<close>: claim, report and settlement of spawns with the host proof and the four passes over them: a spawn is
    claimed once, a settled one stays settled, a running one has the one session, the orphans are exactly reaped.
  \<^item> \<open>Environments\<close>: the heartbeat with its arbitration, the operator's roots, stop and forget, and the environment's
    controls, whose claim reads and writes in separate statements: the claimer changes only by arbitration, each control is
    handed out once, and the owner is not handed a stop meant for the bridge it replaced.
  \<^item> \<open>TerminalControls\<close>: claim, report and sweeps of terminal controls: input is handed out once, in the order of the
    requests, and the sweeps of the controls pass a stop on to the current bridge. The closers of a terminal's runs
    fail a stop with the other controls, which a theorem shows.
  \<^item> \<open>Definitions\<close>: the definitions a host pushes and the operator's requests to change them, as one step relation: a
    definition stays with its machine, stores do not go back, no agent has two requests waiting and no
    creation two spawns, an answer is final, a removed lifetime is not defined again.

  \<^bold>\<open>How code becomes definitions.\<close> A table is a list or dict of records with the columns the operations read; a
  transaction is a function on the tables; what runs between two awaits is a step. An exception is an alternative of
  the result, and where a statement may fail the fault is an argument. Operations keep the code's names without their
  leading underscore. Strings are lists of characters where they are identifiers or terminal output, and lists of
  code points (\<open>ustr\<close>) where they are messages.

  \<^bold>\<open>Bounds.\<close> Recursion is structural or has a measure, except the rounds of \<open>flush_all\<close>, which take fuel; its theorem
  gives the number of rounds that is enough. The constants are those of the code.

  \<^bold>\<open>Parameters.\<close> Code outside the repository is an argument: the terminal emulator (\<open>pyte\<close>), the outcome of a statement
  of the SQLite driver, \<open>urlsplit\<close> and \<open>ip_address\<close>, SHA-256. So are three things of the repository that the operations only
  consult: the regular expressions of the console prompts and of an idle prompt, the reader of timestamps, and the judgement of an agent's definition
  and its digest. New row ids come from a counter, which stands for the clock and random part that the code takes to be fresh.

  \<^bold>\<open>Not modelled.\<close> The routes (\<open>routers/\<close>) beyond the operations they call, with the listing of the inbox and
  the channels; the adoption of a resident driver, the choice of the active wrapper terminal and the release of a stale
  console owner, which are inputs of the claim; the columns a registration writes beside the bridge and the owner, the switch
  between resident and managed sessions, and the building of the command and environment that start a worker; the sweeps over
  terminals, sessions, cached status and old messages; the dashboard and the JavaScript bridges. Texts written for people (event
  bodies, refusals, hints) are not kept, except where they reach a console or a buffer that is read back. Schema, start-up and
  container handling are declarations or calls into libraries; usage and analytics read the tables and change none.

  \<^bold>\<open>What could follow.\<close> The switch of session modes on top of \<open>Bridges\<close>; the sweeps over terminals on top of
  \<open>TerminalControls\<close>; the pass of a sweep beyond its failure block.
\<close>

end
